(* ===== verification/XfsPrelude.thy ===== *)
theory XfsPrelude
  imports Main "HOL-Library.Word"
begin

unbundle bit_operations_syntax

text \<open>
  What every component of the development shares.

  \<^item> The machine integers of the driver (\<^verbatim>\<open>u8\<close>, \<^verbatim>\<open>u16\<close>, \<^verbatim>\<open>u32\<close>, \<^verbatim>\<open>u64\<close>) as words: \<open>+\<close>, \<open>-\<close>
    and \<open>*\<close> wrap around, which is what the shipped build of the driver does (its release
    profile has overflow checks off).  \<^verbatim>\<open>usize\<close> values that index a buffer held in memory are
    \<open>nat\<close>.
  \<^item> The driver's error type (\<^verbatim>\<open>src/src/error.rs\<close>) and the result of a fallible function.  The
    text of a message is the static part of the source's message; the numbers it interpolates
    are left out.  One constructor is added: \<open>Panic\<close> is a Rust panic (an index or a slice out
    of range), so that a function that could panic says so in its result.
  \<^item> The two library routines the components lean on: \<^verbatim>\<open>slice::partition_point\<close>, written as the
    binary search it is, and the insertion and removal of \<^verbatim>\<open>Vec\<close>.
  \<^item> The collection \<open>to_nat\<close>, which carries comparisons of words to comparisons of their
    values.
\<close>

section \<open>Machine integers and bytes\<close>

type_synonym u8 = "8 word"
type_synonym u16 = "16 word"
type_synonym u32 = "32 word"
type_synonym u64 = "64 word"
type_synonym bytes = "u8 list"

named_theorems to_nat \<open>words and their comparisons, carried to natural numbers\<close>

section \<open>Errors and results\<close>

datatype error =
    Io string
  | NotXfs u32
  | BadSuperblock string
  | ChecksumMismatch string u64
  | BlockIdentityMismatch string u64 u64
  | UnsupportedFeature string
  | NoSpace string
  | CorruptLog string
  | DirtyLog
  | NotFound
  | AlreadyExists
  | NotADirectory
  | DirectoryNotEmpty
  | NotAFile
  | ReadOnly
  | RealtimeDeviceAbsent u64
  | Internal string
  | InvalidGeometry string
  | Panic

type_synonym 'a res = "error + 'a"

text \<open>The \<^verbatim>\<open>?\<close> operator: stop at the first error.\<close>

definition rbind :: "'a res \<Rightarrow> ('a \<Rightarrow> 'b res) \<Rightarrow> 'b res" where
  "rbind r f = (case r of Inl e \<Rightarrow> Inl e | Inr x \<Rightarrow> f x)"

definition panics :: "'a res \<Rightarrow> bool" where
  "panics r \<longleftrightarrow> r = Inl Panic"

section \<open>Vectors\<close>

definition vec_insert :: "nat \<Rightarrow> 'a \<Rightarrow> 'a list \<Rightarrow> 'a list" where
  "vec_insert i x xs = take i xs @ x # drop i xs"

definition vec_remove :: "nat \<Rightarrow> 'a list \<Rightarrow> 'a list" where
  "vec_remove i xs = take i xs @ drop (Suc i) xs"

text \<open>\<^verbatim>\<open>slice::get\<close>, and \<^verbatim>\<open>at.checked_sub(1).and_then(|i| v.get(i))\<close>.\<close>

definition vec_get :: "'a list \<Rightarrow> nat \<Rightarrow> 'a option" where
  "vec_get xs i = (if i < length xs then Some (xs ! i) else None)"

definition vec_before :: "'a list \<Rightarrow> nat \<Rightarrow> 'a option" where
  "vec_before xs i = (if i = 0 then None else vec_get xs (i - 1))"

text \<open>\<^verbatim>\<open>Iterator::position\<close>.\<close>

fun position :: "('a \<Rightarrow> bool) \<Rightarrow> 'a list \<Rightarrow> nat option" where
  "position P [] = None"
| "position P (x # xs) = (if P x then Some 0 else map_option Suc (position P xs))"

section \<open>Binary search\<close>

text \<open>
  \<^verbatim>\<open>slice::partition_point\<close> as the standard library writes it: the window
  \<open>base ..< base + sz\<close> is halved until one element is left.
\<close>

function pp_loop :: "('a \<Rightarrow> bool) \<Rightarrow> 'a list \<Rightarrow> nat \<Rightarrow> nat \<Rightarrow> nat" where
  "pp_loop p xs base sz =
     (if 1 < sz then
        (let half = sz div 2; mid = base + half
         in pp_loop p xs (if p (xs ! mid) then mid else base) (sz - half))
      else base)"
  by pat_completeness auto
termination
  by (relation "measure (\<lambda>(p, xs, base, sz). sz)") auto

declare pp_loop.simps [simp del]

definition partition_point :: "('a \<Rightarrow> bool) \<Rightarrow> 'a list \<Rightarrow> nat" where
  "partition_point p xs =
     (if xs = [] then 0
      else (let base = pp_loop p xs 0 (length xs)
            in if p (xs ! base) then Suc base else base))"

section \<open>Lemmas: results\<close>

lemma rbind_simps [simp]:
  "rbind (Inl e) f = Inl e"
  "rbind (Inr x) f = f x"
  by (simp_all add: rbind_def)

lemma rbind_if [simp]: "rbind (if c then a else b) f = (if c then rbind a f else rbind b f)"
  by simp

lemma rbind_eq_Inr: "rbind r f = Inr y \<longleftrightarrow> (\<exists>x. r = Inr x \<and> f x = Inr y)"
  by (cases r) auto

lemma rbind_eq_Inl: "rbind r f = Inl e \<longleftrightarrow> r = Inl e \<or> (\<exists>x. r = Inr x \<and> f x = Inl e)"
  by (cases r) auto

text \<open>A chain of refusals passes when each condition fails.\<close>

lemma refuse_Inr: "(if c then Inl e else r) = Inr x \<longleftrightarrow> \<not> c \<and> r = Inr x"
  by simp

lemma accept_Inr: "(if c then Inr () else Inl e) = Inr () \<longleftrightarrow> c"
  by simp

lemma rbind_cong [fundef_cong]:
  "r = r' \<Longrightarrow> (\<And>x. r' = Inr x \<Longrightarrow> f x = g x) \<Longrightarrow> rbind r f = rbind r' g"
  by (cases r') auto

lemma panics_simps [simp]:
  "panics (Inr x) = False"
  "panics (Inl e) = (e = Panic)"
  by (simp_all add: panics_def)

lemma panics_rbind [simp]:
  "panics (rbind r f) \<longleftrightarrow> panics r \<or> (\<exists>x. r = Inr x \<and> panics (f x))"
  by (cases r) auto

section \<open>Lemmas: words as numbers\<close>

lemma word_eq_unat: "(a = b) = (unat a = unat b)" for a b :: "'a::len word"
  by (simp add: word_unat_eq_iff)

lemmas [to_nat] = word_less_nat_alt word_le_nat_alt word_eq_unat

lemma unat_ucast_up [simp]:
  "LENGTH('a) \<le> LENGTH('b) \<Longrightarrow> unat (ucast (w :: 'a::len word) :: 'b::len word) = unat w"
  by (simp add: unsigned_ucast_eq take_bit_nat_eq_self_iff)
     (meson le_less_trans less_exp order_less_le_trans power_increasing_iff unsigned_less
       one_less_numeral_iff semiring_norm(76))

lemma unat_lt32: "unat (w :: u32) < 4294967296"
  using unsigned_less [of w] by simp

lemma unat_lt16: "unat (w :: u16) < 65536"
  using unsigned_less [of w] by simp

lemma unat_lt8: "unat (w :: u8) < 256"
  using unsigned_less [of w] by simp

lemma unat_lt64: "unat (w :: u64) < 18446744073709551616"
  using unsigned_less [of w] by simp

lemma unat_sum32_64 [simp]:
  "unat (ucast (a :: u32) + ucast (b :: u32) :: u64) = unat a + unat b"
  using unat_lt32 [of a] unat_lt32 [of b] by (simp add: unat_word_ariths)

lemma unat_mul32_64: "unat (ucast (a :: u32) * ucast (b :: u32) :: u64) = unat a * unat b"
proof -
  have "unat a * unat b \<le> (2 ^ 32 - 1) * (2 ^ 32 - 1)"
    using unat_lt32 [of a] unat_lt32 [of b] by (intro mult_le_mono) auto
  then show ?thesis by (simp add: unat_word_ariths)
qed

lemma unat_add_small:
  "unat a + unat b < 2 ^ LENGTH('a) \<Longrightarrow> unat (a + b) = unat a + unat b"
  for a b :: "'a::len word"
  by (simp add: unat_word_ariths)

lemma unat_sub_le: "unat b \<le> unat a \<Longrightarrow> unat (a - b) = unat a - unat b"
  for a b :: "'a::len word"
  by (simp add: unat_sub word_le_nat_alt)

lemma unat_ucast_64_32: "unat w < 2 ^ 32 \<Longrightarrow> unat (ucast (w :: u64) :: u32) = unat w"
  by (simp add: unsigned_ucast_eq take_bit_nat_eq_self)

lemma not_high_bit:
  fixes w :: "'a::len word"
  assumes "unat w < 2 ^ n" "bit w i"
  shows "i < n"
proof -
  have "take_bit n (unat w) = unat w" using assms(1) by (simp add: take_bit_nat_eq_self_iff)
  moreover have "bit (unat w) i" using assms(2) by (simp add: bit_unsigned_iff)
  ultimately have "bit (take_bit n (unat w)) i" by simp
  then show ?thesis by (simp add: bit_take_bit_iff)
qed

lemma unat_max: "unat (max a b) = max (unat a) (unat b)" for a b :: "'a::len word"
  by (simp add: max_def word_le_nat_alt)

lemma unat_min: "unat (min a b) = min (unat a) (unat b)" for a b :: "'a::len word"
  by (simp add: min_def word_le_nat_alt)

section \<open>Lemmas: vectors\<close>

lemma vec_insert_append [simp]: "vec_insert (length xs) x (xs @ ys) = xs @ x # ys"
  by (simp add: vec_insert_def)

lemma vec_remove_append [simp]: "vec_remove (length xs) (xs @ y # ys) = xs @ ys"
  by (simp add: vec_remove_def)

lemma vec_get_append [simp]:
  "vec_get (xs @ ys) (length xs) = (case ys of [] \<Rightarrow> None | y # _ \<Rightarrow> Some y)"
  by (cases ys) (simp_all add: vec_get_def)

lemma vec_before_Nil [simp]: "vec_before xs 0 = None"
  by (simp add: vec_before_def)

lemma vec_before_snoc [simp]:
  "vec_before (xs @ x # ys) (Suc (length xs)) = Some x"
  by (simp add: vec_before_def vec_get_def)

lemma vec_before_snoc' [simp]:
  "vec_before ((xs @ [x]) @ ys) (length (xs @ [x])) = Some x"
  by (simp add: vec_before_def vec_get_def nth_append)

lemma position_Some:
  "position P xs = Some i \<longleftrightarrow> i < length xs \<and> P (xs ! i) \<and> (\<forall>j < i. \<not> P (xs ! j))"
proof (induction xs arbitrary: i)
  case Nil
  then show ?case by simp
next
  case (Cons x xs)
  show ?case
  proof (cases i)
    case 0
    then show ?thesis by (auto simp: Cons.IH)
  next
    case (Suc k)
    then show ?thesis
      by (auto simp: Cons.IH less_Suc_eq_0_disj nth_Cons')
  qed
qed

lemma position_None: "position P xs = None \<longleftrightarrow> (\<forall>x \<in> set xs. \<not> P x)"
  by (induction xs) auto

text \<open>An element found by position cuts its list in three.\<close>

lemma position_split:
  "position P xs = Some i \<Longrightarrow>
     \<exists>ys x zs. xs = ys @ x # zs \<and> length ys = i \<and> P x \<and> (\<forall>y \<in> set ys. \<not> P y)"
proof (induction xs arbitrary: i)
  case Nil
  then show ?case by simp
next
  case (Cons a xs)
  show ?case
  proof (cases "P a")
    case True
    with Cons.prems have "i = 0" by simp
    with True show ?thesis by (intro exI [of _ "[]"]) auto
  next
    case False
    with Cons.prems obtain j where j: "position P xs = Some j" "i = Suc j" by auto
    from Cons.IH [OF j(1)] obtain ys x zs where
      "xs = ys @ x # zs" "length ys = j" "P x" "\<forall>y \<in> set ys. \<not> P y" by blast
    with False j(2) show ?thesis
      by (intro exI [of _ "a # ys"] exI [of _ x] exI [of _ zs]) auto
  qed
qed

section \<open>Lemmas: binary search\<close>

text \<open>
  A slice is partitioned by \<open>p\<close> when the elements that satisfy it all come first.  That is the
  precondition the library documents, and under it the search finds the length of the leading
  run.
\<close>

definition partitioned :: "('a \<Rightarrow> bool) \<Rightarrow> 'a list \<Rightarrow> bool" where
  "partitioned p xs \<longleftrightarrow> (\<forall>i j. i < j \<and> j < length xs \<and> p (xs ! j) \<longrightarrow> p (xs ! i))"

lemma pp_loop_spec:
  assumes "partitioned p xs" "0 < sz" "base + sz \<le> length xs"
    and "base = 0 \<or> p (xs ! base)"
    and "\<forall>j. base + sz \<le> j \<and> j < length xs \<longrightarrow> \<not> p (xs ! j)"
  shows "pp_loop p xs base sz < length xs \<and>
     (pp_loop p xs base sz = 0 \<or> p (xs ! pp_loop p xs base sz)) \<and>
     (\<forall>j. pp_loop p xs base sz < j \<and> j < length xs \<longrightarrow> \<not> p (xs ! j))"
  using assms
proof (induction p xs base sz rule: pp_loop.induct)
  case (1 p xs base sz)
  show ?case
  proof (cases "1 < sz")
    case False
    with 1 have "sz = 1" by simp
    then have "pp_loop p xs base sz = base" by (simp add: pp_loop.simps)
    with 1 \<open>sz = 1\<close> show ?thesis by (auto simp: Suc_le_eq)
  next
    case True
    let ?h = "sz div 2"
    have eq: "pp_loop p xs base sz =
        pp_loop p xs (if p (xs ! (base + ?h)) then base + ?h else base) (sz - ?h)"
      using True by (simp add: pp_loop.simps [of p xs base sz] Let_def)
    show ?thesis
    proof (cases "p (xs ! (base + ?h))")
      case mid: True
      have "base + ?h + (sz - ?h) = base + sz" using True by simp
      with 1 True mid show ?thesis unfolding eq by simp
    next
      case mid: False
      have "\<not> p (xs ! j)" if "base + (sz - ?h) \<le> j" "j < length xs" for j
      proof
        assume pj: "p (xs ! j)"
        have "base + ?h \<le> j" using that(1) by linarith
        then show False
          using pj mid 1(2) that(2) by (metis le_neq_implies_less partitioned_def)
      qed
      with 1 True mid show ?thesis unfolding eq by simp
    qed
  qed
qed

text \<open>The form the component proofs use: a list cut where the predicate stops holding.\<close>

lemma partition_point_append:
  assumes "\<forall>x \<in> set xs. p x" "\<forall>y \<in> set ys. \<not> p y"
  shows "partition_point p (xs @ ys) = length xs"
proof (cases "xs @ ys = []")
  case True
  then show ?thesis by (simp add: partition_point_def)
next
  case False
  let ?zs = "xs @ ys"
  have sat: "p (?zs ! i) \<longleftrightarrow> i < length xs" if "i < length ?zs" for i
    using that assms by (auto simp: nth_append)
  have "partitioned p ?zs"
    unfolding partitioned_def using sat by (metis less_trans)
  then have "pp_loop p ?zs 0 (length ?zs) < length ?zs \<and>
     (pp_loop p ?zs 0 (length ?zs) = 0 \<or> p (?zs ! pp_loop p ?zs 0 (length ?zs))) \<and>
     (\<forall>j. pp_loop p ?zs 0 (length ?zs) < j \<and> j < length ?zs \<longrightarrow> \<not> p (?zs ! j))"
    using False by (intro pp_loop_spec) auto
  then obtain b where b: "b = pp_loop p ?zs 0 (length ?zs)" "b < length ?zs"
    "b = 0 \<or> p (?zs ! b)" "\<forall>j. b < j \<and> j < length ?zs \<longrightarrow> \<not> p (?zs ! j)" by blast
  have "length xs \<le> Suc b"
  proof (rule ccontr)
    assume "\<not> length xs \<le> Suc b"
    then have "b < length xs - 1" "length xs - 1 < length ?zs" by auto
    with b(4) sat show False by (metis diff_less less_nat_zero_code not_gr_zero zero_less_one
      zero_less_diff)
  qed
  moreover have "b = 0 \<or> b < length xs" using b(2,3) sat by blast
  ultimately have "(if p (?zs ! b) then Suc b else b) = length xs"
    using sat [OF b(2)] by auto
  then show ?thesis using False b(1) by (auto simp: partition_point_def Let_def)
qed

lemma sorted_cut_less:
  fixes f :: "'a \<Rightarrow> 'k::linorder"
  assumes "sorted (map f xs)"
  obtains L R where "xs = L @ R" "\<forall>x \<in> set L. f x < k" "\<forall>x \<in> set R. k \<le> f x"
proof
  show "xs = takeWhile (\<lambda>x. f x < k) xs @ dropWhile (\<lambda>x. f x < k) xs" by simp
  show "\<forall>x \<in> set (takeWhile (\<lambda>x. f x < k) xs). f x < k" by (auto dest: set_takeWhileD)
  show "\<forall>x \<in> set (dropWhile (\<lambda>x. f x < k) xs). k \<le> f x"
    using assms
  proof (induction xs)
    case (Cons a xs)
    then show ?case by (cases "f a < k") auto
  qed simp
qed

lemma sorted_cut_le:
  fixes f :: "'a \<Rightarrow> 'k::linorder"
  assumes "sorted (map f xs)"
  obtains L R where "xs = L @ R" "\<forall>x \<in> set L. f x \<le> k" "\<forall>x \<in> set R. k < f x"
proof
  show "xs = takeWhile (\<lambda>x. f x \<le> k) xs @ dropWhile (\<lambda>x. f x \<le> k) xs" by simp
  show "\<forall>x \<in> set (takeWhile (\<lambda>x. f x \<le> k) xs). f x \<le> k" by (auto dest: set_takeWhileD)
  show "\<forall>x \<in> set (dropWhile (\<lambda>x. f x \<le> k) xs). k < f x"
    using assms
  proof (induction xs)
    case (Cons a xs)
    then show ?case by (cases "f a \<le> k") auto
  qed simp
qed

end
