(* ===== verification/Endian.thy ===== *)
theory Endian
  imports XfsPrelude
begin

unbundle bit_operations_syntax

text \<open>
  On-disk integers (\<^verbatim>\<open>src/src/endian.rs\<close>): big-endian reads at an offset, the little-endian
  read used for checksums, UUIDs, and the slice copies the encoders are built from
  (\<^verbatim>\<open>to_be_bytes\<close> with \<^verbatim>\<open>copy_from_slice\<close>).  A read or copy outside the buffer is \<open>Panic\<close>.

  The second half is the interface of a fixed-width record codec, the locale \<open>record_codec\<close>: what
  the tree modules promise of their \<^verbatim>\<open>encode\<close> and \<^verbatim>\<open>decode\<close>, and what follows once for an array of
  records written and read back.
\<close>

section \<open>Definitions\<close>

text \<open>\<^verbatim>\<open>b[off..off + n]\<close> and \<^verbatim>\<open>b[i]\<close>.\<close>

definition slice :: "bytes \<Rightarrow> nat \<Rightarrow> nat \<Rightarrow> bytes res" where
  "slice b off n = (if off + n \<le> length b then Inr (take n (drop off b)) else Inl Panic)"

definition byte_at :: "bytes \<Rightarrow> nat \<Rightarrow> u8 res" where
  "byte_at b i = (if i < length b then Inr (b ! i) else Inl Panic)"

text \<open>\<^verbatim>\<open>b[off..off + s.len()].copy_from_slice(s)\<close>.\<close>

definition blit :: "bytes \<Rightarrow> nat \<Rightarrow> bytes \<Rightarrow> bytes" where
  "blit b off s = take off b @ s @ drop (off + length s) b"

definition put :: "bytes \<Rightarrow> nat \<Rightarrow> bytes \<Rightarrow> bytes res" where
  "put b off s = (if off + length s \<le> length b then Inr (blit b off s) else Inl Panic)"

text \<open>\<^verbatim>\<open>from_be_bytes\<close>, \<^verbatim>\<open>to_be_bytes\<close> at any width.\<close>

definition from_be :: "bytes \<Rightarrow> 'a::len word" where
  "from_be bs = foldl (\<lambda>acc x. push_bit 8 acc OR ucast x) 0 bs"

primrec to_be :: "nat \<Rightarrow> 'a::len word \<Rightarrow> bytes" where
  "to_be 0 w = []"
| "to_be (Suc n) w = to_be n (drop_bit 8 w) @ [ucast w]"

definition be16 :: "bytes \<Rightarrow> nat \<Rightarrow> u16 res" where
  "be16 b off = rbind (slice b off 2) (\<lambda>s. Inr (from_be s))"

definition be32 :: "bytes \<Rightarrow> nat \<Rightarrow> u32 res" where
  "be32 b off = rbind (slice b off 4) (\<lambda>s. Inr (from_be s))"

definition be64 :: "bytes \<Rightarrow> nat \<Rightarrow> u64 res" where
  "be64 b off = rbind (slice b off 8) (\<lambda>s. Inr (from_be s))"

definition le32 :: "bytes \<Rightarrow> nat \<Rightarrow> u32 res" where
  "le32 b off = rbind (slice b off 4) (\<lambda>s. Inr (from_be (rev s)))"

text \<open>\<^verbatim>\<open>from_ne_bytes\<close> of a slice, on a little-endian machine.\<close>

definition le16 :: "bytes \<Rightarrow> nat \<Rightarrow> u16 res" where
  "le16 b off = rbind (slice b off 2) (\<lambda>s. Inr (from_be (rev s)))"

definition le64 :: "bytes \<Rightarrow> nat \<Rightarrow> u64 res" where
  "le64 b off = rbind (slice b off 8) (\<lambda>s. Inr (from_be (rev s)))"

definition uuid_at :: "bytes \<Rightarrow> nat \<Rightarrow> bytes res" where
  "uuid_at b off = slice b off 16"

text \<open>\<^verbatim>\<open>to_be_bytes\<close> of each width, and \<^verbatim>\<open>to_le_bytes\<close> of a checksum.\<close>

definition be_bytes16 :: "u16 \<Rightarrow> bytes" where "be_bytes16 w = to_be 2 w"
definition be_bytes32 :: "u32 \<Rightarrow> bytes" where "be_bytes32 w = to_be 4 w"
definition be_bytes64 :: "u64 \<Rightarrow> bytes" where "be_bytes64 w = to_be 8 w"
definition le_bytes32 :: "u32 \<Rightarrow> bytes" where "le_bytes32 w = rev (to_be 4 w)"
definition le_bytes16 :: "u16 \<Rightarrow> bytes" where "le_bytes16 w = rev (to_be 2 w)"
definition le_bytes64 :: "u64 \<Rightarrow> bytes" where "le_bytes64 w = rev (to_be 8 w)"

text \<open>An array of records: \<^verbatim>\<open>for (i, r) in records.iter().enumerate()\<close> writing each at
  \<open>at + i * len\<close>, and \<^verbatim>\<open>(0..n).map(...)\<close> reading them back.\<close>

fun write_records ::
  "(bytes \<Rightarrow> nat \<Rightarrow> 'r \<Rightarrow> bytes res) \<Rightarrow> nat \<Rightarrow> nat \<Rightarrow> 'r list \<Rightarrow> bytes \<Rightarrow> bytes res" where
  "write_records enc len at [] b = Inr b"
| "write_records enc len at (r # rs) b =
     rbind (enc b at r) (\<lambda>b'. write_records enc len (at + len) rs b')"

fun read_records :: "(bytes \<Rightarrow> nat \<Rightarrow> 'r res) \<Rightarrow> nat \<Rightarrow> nat \<Rightarrow> nat \<Rightarrow> bytes \<Rightarrow> 'r list res" where
  "read_records dec len at 0 b = Inr []"
| "read_records dec len at (Suc n) b =
     rbind (dec b at) (\<lambda>r. rbind (read_records dec len (at + len) n b) (\<lambda>rs. Inr (r # rs)))"

section \<open>Big-endian values\<close>

lemma from_be_simps [simp]:
  "from_be [] = 0"
  "from_be (xs @ [x]) = push_bit 8 (from_be xs) OR ucast x"
  by (simp_all add: from_be_def)

lemma length_to_be [simp]: "length (to_be n w) = n"
  by (induction n arbitrary: w) auto

lemma from_be_to_be: "from_be (to_be n (w :: 'a::len word)) = take_bit (8 * n) w"
proof (induction n arbitrary: w)
  case 0
  then show ?case by simp
next
  case (Suc n)
  have "from_be (to_be (Suc n) w) =
      push_bit 8 (take_bit (8 * n) (drop_bit 8 w)) OR (ucast (ucast w :: u8) :: 'a word)"
    by (simp add: Suc.IH)
  also have "\<dots> = take_bit (8 * Suc n) w"
    by (rule bit_word_eqI) (auto simp: bit_simps)
  finally show ?case .
qed

lemma from_be_high_bits: "bit (from_be bs :: 'a::len word) i \<Longrightarrow> i < 8 * length bs"
proof (induction bs arbitrary: i rule: rev_induct)
  case Nil
  then show ?case by simp
next
  case (snoc x xs)
  then show ?case by (force simp: bit_simps dest: bit_imp_le_length)
qed

lemma to_be_from_be:
  "8 * length bs \<le> LENGTH('a) \<Longrightarrow> to_be (length bs) (from_be bs :: 'a::len word) = bs"
proof (induction bs rule: rev_induct)
  case Nil
  then show ?case by simp
next
  case (snoc x xs)
  have "8 + i < LENGTH('a)" if "bit (from_be xs :: 'a word) i" for i
    using from_be_high_bits [OF that] snoc.prems by simp
  then have d: "drop_bit 8 (push_bit 8 (from_be xs) OR ucast x) = (from_be xs :: 'a word)"
    by (intro bit_word_eqI) (auto simp: bit_simps dest: bit_imp_le_length)
  have l: "(ucast (push_bit 8 (from_be xs) OR ucast x :: 'a word) :: u8) = x"
    using snoc.prems by (intro bit_word_eqI) (auto simp: bit_simps)
  from snoc d l show ?case by simp
qed

lemma from_be_bytes [simp]:
  "from_be (be_bytes16 a) = a"
  "from_be (be_bytes32 b) = b"
  "from_be (be_bytes64 c) = c"
  "from_be (rev (le_bytes32 b)) = b"
  "from_be (rev (le_bytes16 a)) = a"
  "from_be (rev (le_bytes64 c)) = c"
  by (simp_all add: be_bytes16_def be_bytes32_def be_bytes64_def le_bytes32_def le_bytes16_def
      le_bytes64_def from_be_to_be take_bit_word_eq_self)

lemma length_be_bytes [simp]:
  "length (be_bytes16 a) = 2"
  "length (be_bytes32 b) = 4"
  "length (be_bytes64 c) = 8"
  "length (le_bytes32 b) = 4"
  "length (le_bytes16 a) = 2"
  "length (le_bytes64 c) = 8"
  by (simp_all add: be_bytes16_def be_bytes32_def be_bytes64_def le_bytes32_def le_bytes16_def le_bytes64_def)

section \<open>Reads and writes at an offset\<close>

lemma read_ok:
  "off + 2 \<le> length b \<Longrightarrow> be16 b off = Inr (from_be (take 2 (drop off b)))"
  "off + 4 \<le> length b \<Longrightarrow> be32 b off = Inr (from_be (take 4 (drop off b)))"
  "off + 8 \<le> length b \<Longrightarrow> be64 b off = Inr (from_be (take 8 (drop off b)))"
  "off + 4 \<le> length b \<Longrightarrow> le32 b off = Inr (from_be (rev (take 4 (drop off b))))"
  "off + 16 \<le> length b \<Longrightarrow> uuid_at b off = Inr (take 16 (drop off b))"
  "off + 2 \<le> length b \<Longrightarrow> le16 b off = Inr (from_be (rev (take 2 (drop off b))))"
  "off + 8 \<le> length b \<Longrightarrow> le64 b off = Inr (from_be (rev (take 8 (drop off b))))"
  "off < length b \<Longrightarrow> byte_at b off = Inr (b ! off)"
  by (simp_all add: be16_def be32_def be64_def le32_def le16_def le64_def uuid_at_def slice_def byte_at_def)

lemma read_Inr_iff:
  "be16 b off = Inr v \<longleftrightarrow> off + 2 \<le> length b \<and> v = from_be (take 2 (drop off b))"
  "be32 b off = Inr w \<longleftrightarrow> off + 4 \<le> length b \<and> w = from_be (take 4 (drop off b))"
  "be64 b off = Inr x \<longleftrightarrow> off + 8 \<le> length b \<and> x = from_be (take 8 (drop off b))"
  by (auto simp: be16_def be32_def be64_def slice_def)

lemma read_panics_iff:
  "panics (be16 b off) \<longleftrightarrow> length b < off + 2"
  "panics (be32 b off) \<longleftrightarrow> length b < off + 4"
  "panics (be64 b off) \<longleftrightarrow> length b < off + 8"
  "panics (le32 b off) \<longleftrightarrow> length b < off + 4"
  "panics (uuid_at b off) \<longleftrightarrow> length b < off + 16"
  "panics (le16 b off) \<longleftrightarrow> length b < off + 2"
  "panics (le64 b off) \<longleftrightarrow> length b < off + 8"
  "panics (byte_at b off) \<longleftrightarrow> length b \<le> off"
  by (auto simp: be16_def be32_def be64_def le32_def le16_def le64_def uuid_at_def slice_def byte_at_def)

lemma length_blit [simp]: "off + length s \<le> length b \<Longrightarrow> length (blit b off s) = length b"
  by (simp add: blit_def)

lemma nth_blit:
  "off + length s \<le> length b \<Longrightarrow> i < length b \<Longrightarrow>
     blit b off s ! i = (if off \<le> i \<and> i < off + length s then s ! (i - off) else b ! i)"
  by (auto simp: blit_def nth_append)

lemma take_drop_blit_same:
  "off + length s \<le> length b \<Longrightarrow> length s = n \<Longrightarrow> take n (drop off (blit b off s)) = s"
  by (simp add: blit_def)

text \<open>A read that does not meet the bytes written is unchanged.\<close>

lemma take_drop_cong:
  "length b = length b' \<Longrightarrow> (\<forall>i. off \<le> i \<and> i < off + n \<and> i < length b \<longrightarrow> b ! i = b' ! i) \<Longrightarrow>
     take n (drop off b) = take n (drop off b')"
  by (rule nth_equalityI) auto

lemma take_drop_blit_other:
  "off + length s \<le> length b \<Longrightarrow> at + n \<le> off \<or> off + length s \<le> at \<Longrightarrow>
     take n (drop at (blit b off s)) = take n (drop at b)"
  by (rule take_drop_cong) (auto simp: nth_blit)

lemma put_ok: "off + length s \<le> length b \<Longrightarrow> put b off s = Inr (blit b off s)"
  by (simp add: put_def)

lemma put_Inr_iff: "put b off s = Inr b' \<longleftrightarrow> off + length s \<le> length b \<and> b' = blit b off s"
  by (auto simp: put_def)

lemma blit_blit_adjacent:
  "off + length s + length t \<le> length b \<Longrightarrow>
     blit (blit b off s) (off + length s) t = blit b off (s @ t)"
  by (simp add: blit_def add_ac)

text \<open>A block rewritten in part and put back is the part written in place.\<close>

lemma blit_blit_inside:
  assumes "off + n \<le> length b" "length s \<le> n"
  shows "blit b off (blit (take n (drop off b)) 0 s) = blit b off s"
proof -
  have "drop off b = take n (drop off b) @ drop (off + n) b"
    by (metis add.commute append_take_drop_id drop_drop)
  then have "drop (length s) (drop off b) = drop (length s) (take n (drop off b)) @ drop (off + n) b"
    using assms by (metis drop_append append_Nil2 diff_is_0_eq drop0 length_take length_drop le_diff_conv2 add_leD1 min.absorb2 add.commute)
  then show ?thesis using assms by (simp add: blit_def add.commute)
qed

text \<open>A field of a record, read out of the record's image.\<close>

lemma field_at:
  "take len (drop at b) = img \<Longrightarrow> k + n \<le> len \<Longrightarrow> take n (drop (at + k) b) = take n (drop k img)"
  by (auto simp: drop_take min_def add.commute)

section \<open>Fixed-width record codecs\<close>

text \<open>
  What a tree module promises of its record: \<open>valid\<close> says which values the encoding can hold (a
  flag may ride in a bit of another field).
\<close>

locale record_codec =
  fixes len :: nat
    and enc :: "bytes \<Rightarrow> nat \<Rightarrow> 'r \<Rightarrow> bytes res"
    and dec :: "bytes \<Rightarrow> nat \<Rightarrow> 'r res"
    and valid :: "'r \<Rightarrow> bool"
    and image :: "'r \<Rightarrow> bytes"
  assumes enc_blit: "at + len \<le> length b \<Longrightarrow> enc b at r = Inr (blit b at (image r))"
    and image_len: "length (image r) = len"
    and dec_image: "valid r \<Longrightarrow> at + len \<le> length b \<Longrightarrow> take len (drop at b) = image r \<Longrightarrow>
      dec b at = Inr r"
    and dec_safe: "at + len \<le> length b \<Longrightarrow> \<not> panics (dec b at)"
begin

lemma dec_enc:
  assumes "valid r" "at + len \<le> length b"
  shows "rbind (enc b at r) (\<lambda>b'. dec b' at) = Inr r"
  using assms by (simp add: enc_blit dec_image image_len take_drop_blit_same)

lemma write_records_ok:
  "at + len * length rs \<le> length b \<Longrightarrow>
     \<exists>b'. write_records enc len at rs b = Inr b' \<and> length b' = length b \<and>
       (\<forall>i. i < length b \<and> (i < at \<or> at + len * length rs \<le> i) \<longrightarrow> b' ! i = b ! i)"
proof (induction rs arbitrary: at b)
  case Nil
  then show ?case by simp
next
  case (Cons r rs)
  let ?b = "blit b at (image r)"
  have fit: "at + len \<le> length b" using Cons.prems by simp
  then have lb: "length ?b = length b" by (simp add: image_len)
  with Cons.prems have "at + len + len * length rs \<le> length ?b" by (simp add: algebra_simps)
  from Cons.IH [OF this] obtain b' where
    "write_records enc len (at + len) rs ?b = Inr b'" "length b' = length b"
    "\<forall>i. i < length b \<and> (i < at + len \<or> at + len + len * length rs \<le> i) \<longrightarrow> b' ! i = ?b ! i"
    using lb by auto
  with fit show ?case
    by (auto simp: enc_blit nth_blit image_len algebra_simps)
qed

lemma read_write_records:
  "at + len * length rs \<le> length b \<Longrightarrow> (\<forall>r \<in> set rs. valid r) \<Longrightarrow>
     rbind (write_records enc len at rs b) (read_records dec len at (length rs)) = Inr rs"
proof (induction rs arbitrary: at b)
  case Nil
  then show ?case by simp
next
  case (Cons r rs)
  let ?b = "blit b at (image r)"
  have fit: "at + len \<le> length b" using Cons.prems by simp
  then have lb: "length ?b = length b" by (simp add: image_len)
  with Cons.prems(1) have fit': "at + len + len * length rs \<le> length ?b"
    by (simp add: algebra_simps)
  from write_records_ok [OF fit'] obtain b' where b':
    "write_records enc len (at + len) rs ?b = Inr b'" "length b' = length b"
    "\<forall>i. i < length b \<and> (i < at + len \<or> at + len + len * length rs \<le> i) \<longrightarrow> b' ! i = ?b ! i"
    using lb by auto
  have "take len (drop at b') = take len (drop at ?b)"
    using b' lb by (intro take_drop_cong) auto
  then have "take len (drop at b') = image r"
    using fit by (simp add: take_drop_blit_same image_len)
  with Cons.prems(2) fit b'(2) have "dec b' at = Inr r" by (simp add: dec_image)
  moreover from Cons.IH [OF fit'] Cons.prems(2) b'(1)
  have "read_records dec len (at + len) (length rs) b' = Inr rs" by simp
  ultimately show ?case using fit b'(1) by (simp add: enc_blit)
qed

lemma read_records_safe: "at + len * n \<le> length b \<Longrightarrow> \<not> panics (read_records dec len at n b)"
proof (induction n arbitrary: at)
  case 0
  then show ?case by simp
next
  case (Suc n)
  then have "at + len \<le> length b" "at + len + len * n \<le> length b" by (auto simp: algebra_simps)
  with Suc.IH dec_safe show ?case by (simp add: panics_rbind)
qed

end

text \<open>A decoder that never refuses reads the whole array.\<close>

lemma read_records_total:
  assumes "\<And>at. at + len \<le> length b \<Longrightarrow> \<exists>r. dec b at = Inr r"
  shows "at + len * n \<le> length b \<Longrightarrow> \<exists>rs. read_records dec len at n b = Inr rs \<and> length rs = n"
proof (induction n arbitrary: at)
  case (Suc n)
  then have "at + len \<le> length b" "at + len + len * n \<le> length b" by (auto simp: algebra_simps)
  with Suc.IH assms obtain r rs where
    "dec b at = Inr r" "read_records dec len (at + len) n b = Inr rs" "length rs = n" by meson
  then show ?case by simp
qed simp

end
