(* ===== verification/Extent.thy ===== *)
theory Extent
  imports Endian
begin

unbundle bit_operations_syntax

text \<open>
  Data-fork extent records (\<^verbatim>\<open>src/src/extent.rs\<close>): the packed 128-bit record, its decoder
  \<open>extent_parse\<close> and encoder \<open>extent_to_bytes\<close>, the extent list of a fork (\<open>parse_list\<close>) and the
  search of a sorted list (\<open>lookup\<close>).
\<close>

section \<open>Definitions\<close>

definition EXTENT_RECORD_SIZE :: nat where "EXTENT_RECORD_SIZE = 16"

definition STARTOFF_MAX :: u64 where "STARTOFF_MAX = push_bit 54 1 - 1"
definition BLOCKCOUNT_MAX :: u64 where "BLOCKCOUNT_MAX = push_bit 21 1 - 1"
definition STARTBLOCK_MAX :: u64 where "STARTBLOCK_MAX = push_bit (43 + 9) 1 - 1"

record extent =
  startoff :: u64
  startblock :: u64
  blockcount :: u64
  unwritten :: bool

definition extent_parse :: "bytes \<Rightarrow> extent res" where
  "extent_parse buf =
     (if length buf < EXTENT_RECORD_SIZE
      then Inl (BadSuperblock ''extent record needs 16 bytes'')
      else rbind (be64 buf 0) (\<lambda>high. rbind (be64 buf 8) (\<lambda>low.
        let unw = (drop_bit 63 high \<noteq> 0);
            soff = drop_bit 9 high AND STARTOFF_MAX;
            sblk = push_bit 43 (high AND (push_bit 9 1 - 1)) OR drop_bit 21 low;
            cnt = low AND BLOCKCOUNT_MAX
        in if cnt = 0 then Inl (BadSuperblock ''extent record has a block count of zero'')
           else Inr \<lparr>startoff = soff, startblock = sblk, blockcount = cnt, unwritten = unw\<rparr>)))"

definition extent_to_bytes :: "extent \<Rightarrow> bytes res" where
  "extent_to_bytes e =
     (if startoff e > STARTOFF_MAX
      then Inl (BadSuperblock ''startoff exceeds the 54-bit field'')
      else if startblock e > STARTBLOCK_MAX
      then Inl (BadSuperblock ''startblock exceeds its field width'')
      else if blockcount e = 0 \<or> blockcount e > BLOCKCOUNT_MAX
      then Inl (BadSuperblock ''blockcount is zero or exceeds the 21-bit field'')
      else
        let high = push_bit 63 (if unwritten e then 1 else 0) OR push_bit 9 (startoff e)
              OR drop_bit 43 (startblock e);
            low = push_bit 21 (startblock e) OR blockcount e
        in Inr (be_bytes64 high @ be_bytes64 low))"

definition is_unwritten :: "extent \<Rightarrow> bool" where
  "is_unwritten e = unwritten e"

definition end_offset :: "extent \<Rightarrow> u64" where
  "end_offset e = startoff e + blockcount e"

definition extent_contains :: "extent \<Rightarrow> u64 \<Rightarrow> bool" where
  "extent_contains e off \<longleftrightarrow> off \<ge> startoff e \<and> off < end_offset e"

definition extent_map :: "extent \<Rightarrow> u64 \<Rightarrow> u64 option" where
  "extent_map e off =
     (if extent_contains e off then Some (startblock e + (off - startoff e)) else None)"

text \<open>The loop of \<^verbatim>\<open>parse_list\<close>: \<open>n\<close> records are still to be read, the next at index \<open>i\<close>.\<close>

fun parse_list_from :: "bytes \<Rightarrow> nat \<Rightarrow> nat \<Rightarrow> u64 \<Rightarrow> extent list res" where
  "parse_list_from buf i 0 previous_end = Inr []"
| "parse_list_from buf i (Suc n) previous_end =
     rbind (extent_parse (drop (i * EXTENT_RECORD_SIZE) buf)) (\<lambda>e.
       if startoff e < previous_end
       then Inl (BadSuperblock ''extent starts before the previous extent ran to'')
       else rbind (parse_list_from buf (Suc i) n (end_offset e)) (\<lambda>es. Inr (e # es)))"

definition parse_list :: "bytes \<Rightarrow> u64 \<Rightarrow> extent list res" where
  "parse_list buf count =
     (if unat count * EXTENT_RECORD_SIZE \<ge> 2 ^ 64
      then Inl (BadSuperblock ''extent count overflows'')
      else if length buf < unat count * EXTENT_RECORD_SIZE
      then Inl (BadSuperblock ''fork holds too few bytes for the extents'')
      else parse_list_from buf 0 (unat count) 0)"

definition lookup :: "extent list \<Rightarrow> u64 \<Rightarrow> extent option" where
  "lookup extents off =
     (let idx = partition_point (\<lambda>e. end_offset e \<le> off) extents
      in case vec_get extents idx of
           None \<Rightarrow> None
         | Some e \<Rightarrow> if extent_contains e off then Some e else None)"

text \<open>What the format guarantees of one record and of a fork's list.\<close>

definition extent_ok :: "extent \<Rightarrow> bool" where
  "extent_ok e \<longleftrightarrow> unat (startoff e) < 2 ^ 54 \<and> unat (startblock e) < 2 ^ 52 \<and>
     0 < unat (blockcount e) \<and> unat (blockcount e) < 2 ^ 21"

definition extents_ok :: "extent list \<Rightarrow> bool" where
  "extents_ok es \<longleftrightarrow> (\<forall>e \<in> set es. extent_ok e) \<and>
     sorted_wrt (\<lambda>a b. unat (startoff a) + unat (blockcount a) \<le> unat (startoff b)) es"

text \<open>The file blocks an extent covers.\<close>

definition file_blocks :: "extent \<Rightarrow> nat set" where
  "file_blocks e = {unat (startoff e) ..< unat (startoff e) + unat (blockcount e)}"

section \<open>The packed record\<close>

lemma extent_max_mask:
  "STARTOFF_MAX = mask 54" "BLOCKCOUNT_MAX = mask 21" "STARTBLOCK_MAX = mask 52"
  by (simp_all add: STARTOFF_MAX_def BLOCKCOUNT_MAX_def STARTBLOCK_MAX_def mask_eq_exp_minus_1)

lemma extent_to_bytes_Inr_iff:
  "(\<exists>b. extent_to_bytes e = Inr b) \<longleftrightarrow> extent_ok e"
  by (auto simp: extent_to_bytes_def extent_ok_def STARTOFF_MAX_def BLOCKCOUNT_MAX_def
      STARTBLOCK_MAX_def Let_def to_nat split: if_splits)

lemma extent_to_bytes_ok:
  "extent_ok e \<Longrightarrow> extent_to_bytes e = Inr
     (be_bytes64 (push_bit 63 (if unwritten e then 1 else 0) OR push_bit 9 (startoff e)
         OR drop_bit 43 (startblock e))
      @ be_bytes64 (push_bit 21 (startblock e) OR blockcount e))"
  by (auto simp: extent_to_bytes_def extent_ok_def STARTOFF_MAX_def BLOCKCOUNT_MAX_def
      STARTBLOCK_MAX_def Let_def to_nat)

text \<open>The four fields come back from the two halves, for any values that fit their fields.\<close>

lemma unpack_fields:
  fixes so sb bc :: u64 and u :: bool
  assumes "unat so < 2 ^ 54" "unat sb < 2 ^ 52" "unat bc < 2 ^ 21"
  defines "hi \<equiv> push_bit 63 (if u then 1 else 0) OR push_bit 9 so OR drop_bit 43 sb"
    and "lo \<equiv> push_bit 21 sb OR bc"
  shows "(drop_bit 63 hi \<noteq> 0) = u"
    and "drop_bit 9 hi AND STARTOFF_MAX = so"
    and "push_bit 43 (hi AND (push_bit 9 1 - 1)) OR drop_bit 21 lo = sb"
    and "lo AND BLOCKCOUNT_MAX = bc"
proof -
  note hb = not_high_bit [OF assms(1)] not_high_bit [OF assms(2)] not_high_bit [OF assms(3)]
  have m9: "push_bit 9 1 - 1 = (mask 9 :: u64)" by (simp add: mask_eq_exp_minus_1)
  have "drop_bit 63 hi = (if u then 1 else 0)"
    by (rule bit_word_eqI) (auto simp: hi_def bit_simps bit_1_iff dest: hb)
  then show "(drop_bit 63 hi \<noteq> 0) = u" by simp
  show "drop_bit 9 hi AND STARTOFF_MAX = so"
    by (rule bit_word_eqI) (auto simp: hi_def extent_max_mask bit_simps bit_1_iff dest: hb)
  show "push_bit 43 (hi AND (push_bit 9 1 - 1)) OR drop_bit 21 lo = sb"
    unfolding m9
    by (rule bit_word_eqI) (auto simp: hi_def lo_def bit_simps bit_1_iff dest: hb)
  show "lo AND BLOCKCOUNT_MAX = bc"
    by (rule bit_word_eqI) (auto simp: lo_def extent_max_mask bit_simps dest: hb)
qed

lemma pack_fields:
  fixes hi lo :: u64
  defines "so \<equiv> drop_bit 9 hi AND STARTOFF_MAX"
    and "sb \<equiv> push_bit 43 (hi AND (push_bit 9 1 - 1)) OR drop_bit 21 lo"
    and "bc \<equiv> lo AND BLOCKCOUNT_MAX"
  shows "push_bit 63 (if drop_bit 63 hi \<noteq> 0 then 1 else 0) OR push_bit 9 so OR drop_bit 43 sb = hi"
    and "push_bit 21 sb OR bc = lo"
    and "unat so < 2 ^ 54" "unat sb < 2 ^ 52" "unat bc < 2 ^ 21"
proof -
  have m9: "push_bit 9 1 - 1 = (mask 9 :: u64)" by (simp add: mask_eq_exp_minus_1)
  have top: "(drop_bit 63 hi \<noteq> 0) = bit hi 63"
  proof
    assume "drop_bit 63 hi \<noteq> 0"
    then obtain n where "bit hi (63 + n)" by (auto simp: bit_eq_iff bit_simps)
    moreover from this have "63 + n < 64" using bit_imp_le_length by fastforce
    ultimately show "bit hi 63" by simp
  next
    assume "bit hi 63"
    then have "bit (drop_bit 63 hi) 0" by (simp add: bit_simps)
    then show "drop_bit 63 hi \<noteq> 0" by (metis bit_0_eq bot_apply bot_bool_def)
  qed
  show "push_bit 63 (if drop_bit 63 hi \<noteq> 0 then 1 else 0) OR push_bit 9 so OR drop_bit 43 sb = hi"
    unfolding top sb_def m9
  proof (rule bit_word_eqI)
    fix n assume "n < LENGTH(64)"
    then consider "n = 63" | "9 \<le> n" "n < 63" | "n < 9" by force
    then show "bit (push_bit 63 (if bit hi 63 then 1 else 0) OR push_bit 9 so OR
        drop_bit 43 (push_bit 43 (hi AND mask 9) OR drop_bit 21 lo)) n = bit hi n"
      by cases (auto simp: so_def extent_max_mask bit_simps bit_1_iff dest: bit_imp_le_length)
  qed
  show "push_bit 21 sb OR bc = lo"
    unfolding sb_def m9
    by (rule bit_word_eqI) (auto simp: bc_def extent_max_mask bit_simps)
  have "so = take_bit 54 so"
    by (rule bit_word_eqI) (auto simp: so_def extent_max_mask bit_simps)
  then show "unat so < 2 ^ 54" by (metis unsigned_take_bit_eq take_bit_nat_less_exp)
  have "sb = take_bit 52 sb"
    unfolding sb_def m9 by (rule bit_word_eqI) (auto simp: bit_simps dest: bit_imp_le_length)
  then show "unat sb < 2 ^ 52" by (metis unsigned_take_bit_eq take_bit_nat_less_exp)
  have "bc = take_bit 21 bc"
    by (rule bit_word_eqI) (auto simp: bc_def extent_max_mask bit_simps)
  then show "unat bc < 2 ^ 21" by (metis unsigned_take_bit_eq take_bit_nat_less_exp)
qed

text \<open>The packed extent record round-trips: encoding succeeds exactly for an extent whose fields
  fit their widths (and whose count is not zero), the encoding is 16 bytes long, and decoding it
  gives the extent back.
\<close>

lemma extent_roundtrip:
  "(case extent_to_bytes e of
      Inr b \<Rightarrow> extent_ok e \<and> length b = EXTENT_RECORD_SIZE \<and> extent_parse b = Inr e
    | Inl err \<Rightarrow> \<not> extent_ok e \<and> \<not> panics (extent_to_bytes e))"
proof (cases "extent_ok e")
  case False
  then obtain err where "extent_to_bytes e = Inl err" "err \<noteq> Panic"
    using extent_to_bytes_Inr_iff [of e]
    by (auto simp: extent_to_bytes_def Let_def split: if_splits)
  with False show ?thesis by simp
next
  case True
  define hi where "hi = push_bit 63 (if unwritten e then 1 else 0) OR push_bit 9 (startoff e)
         OR drop_bit 43 (startblock e)"
  define lo where "lo = push_bit 21 (startblock e) OR blockcount e"
  have b: "extent_to_bytes e = Inr (be_bytes64 hi @ be_bytes64 lo)"
    using extent_to_bytes_ok [OF True] by (simp add: hi_def lo_def)
  have "be64 (be_bytes64 hi @ be_bytes64 lo) 0 = Inr hi"
    "be64 (be_bytes64 hi @ be_bytes64 lo) 8 = Inr lo"
    by (simp_all add: read_ok)
  moreover have "unat (startoff e) < 2 ^ 54" "unat (startblock e) < 2 ^ 52"
    "unat (blockcount e) < 2 ^ 21" "blockcount e \<noteq> 0"
    using True by (auto simp: extent_ok_def)
  ultimately have "extent_parse (be_bytes64 hi @ be_bytes64 lo) = Inr e"
    using unpack_fields(1-3) [of "startoff e" "startblock e" "blockcount e" "unwritten e"]
      unpack_fields(4) [of "startoff e" "startblock e" "blockcount e"]
    by (simp add: extent_parse_def EXTENT_RECORD_SIZE_def Let_def hi_def [symmetric]
        lo_def [symmetric])
  with True b show ?thesis by (simp add: EXTENT_RECORD_SIZE_def)
qed

lemma extent_parse_Inr:
  assumes "extent_parse buf = Inr e"
  shows "extent_ok e" and "extent_to_bytes e = Inr (take 16 buf)"
proof -
  define hi lo :: u64 where "hi = from_be (take 8 buf)" and "lo = from_be (take 8 (drop 8 buf))"
  have len: "16 \<le> length buf"
    using assms by (auto simp: extent_parse_def EXTENT_RECORD_SIZE_def split: if_splits)
  then have "be64 buf 0 = Inr hi" "be64 buf 8 = Inr lo"
    by (simp_all add: read_ok hi_def lo_def)
  with assms len have e: "e = \<lparr>startoff = drop_bit 9 hi AND STARTOFF_MAX,
      startblock = push_bit 43 (hi AND (push_bit 9 1 - 1)) OR drop_bit 21 lo,
      blockcount = lo AND BLOCKCOUNT_MAX, unwritten = (drop_bit 63 hi \<noteq> 0)\<rparr>"
    and bc: "lo AND BLOCKCOUNT_MAX \<noteq> 0"
    by (auto simp: extent_parse_def EXTENT_RECORD_SIZE_def Let_def split: if_splits)
  show ok: "extent_ok e"
    using pack_fields(3) [of hi] pack_fields(4) [of hi lo] pack_fields(5) [of lo] bc by (simp add: e extent_ok_def unat_gt_0)
  have "be_bytes64 hi = take 8 buf" "be_bytes64 lo = take 8 (drop 8 buf)"
    using to_be_from_be [of "take 8 buf", where 'a = 64]
      to_be_from_be [of "take 8 (drop 8 buf)", where 'a = 64] len
    by (simp_all add: be_bytes64_def hi_def lo_def)
  then have "be_bytes64 hi @ be_bytes64 lo = take 16 buf"
    by (simp add: take_add [of 8 8, simplified])
  with extent_to_bytes_ok [OF ok] pack_fields(1,2) [of hi lo]
  show "extent_to_bytes e = Inr (take 16 buf)" by (simp add: e)
qed

lemma extent_parse_not_panics: "\<not> panics (extent_parse buf)"
  by (auto simp: extent_parse_def EXTENT_RECORD_SIZE_def read_ok Let_def)

lemma unat_end_offset: "extent_ok e \<Longrightarrow> unat (end_offset e) = unat (startoff e) + unat (blockcount e)"
  by (auto simp: end_offset_def extent_ok_def intro!: unat_add_small)

lemma extent_contains_iff: "extent_ok e \<Longrightarrow> extent_contains e off \<longleftrightarrow> unat off \<in> file_blocks e"
  by (auto simp: extent_contains_def file_blocks_def unat_end_offset to_nat)

section \<open>The extent list of a fork\<close>

lemma parse_list_from_not_panics: "\<not> panics (parse_list_from buf i n pe)"
  by (induction n arbitrary: i pe) (auto simp: extent_parse_not_panics)

lemma parse_list_from_Inr:
  "parse_list_from buf i n pe = Inr es \<Longrightarrow>
     length es = n \<and> extents_ok es \<and> (\<forall>e \<in> set es. unat pe \<le> unat (startoff e)) \<and>
     (\<forall>k < n. extent_parse (drop ((i + k) * EXTENT_RECORD_SIZE) buf) = Inr (es ! k))"
proof (induction n arbitrary: i pe es)
  case 0
  then show ?case by (simp add: extents_ok_def)
next
  case (Suc n)
  then obtain e es' where e: "extent_parse (drop (i * EXTENT_RECORD_SIZE) buf) = Inr e"
    "\<not> startoff e < pe" "parse_list_from buf (Suc i) n (end_offset e) = Inr es'" "es = e # es'"
    by (auto simp: rbind_eq_Inr split: if_splits)
  have ok: "extent_ok e" by (rule extent_parse_Inr(1) [OF e(1)])
  from Suc.IH [OF e(3)] have IH: "length es' = n" "extents_ok es'"
    "\<forall>x \<in> set es'. unat (startoff e) + unat (blockcount e) \<le> unat (startoff x)"
    "\<forall>k < n. extent_parse (drop ((Suc i + k) * EXTENT_RECORD_SIZE) buf) = Inr (es' ! k)"
    using unat_end_offset [OF ok] by auto
  have "extent_parse (drop ((i + k) * EXTENT_RECORD_SIZE) buf) = Inr (es ! k)" if "k < Suc n" for k
    using that IH(4) e(1,4) by (cases k) auto
  moreover have "\<forall>x \<in> set es. unat pe \<le> unat (startoff x)"
    using IH(3) e(2,4) by (fastforce simp: to_nat)
  ultimately show ?case
    using IH ok by (auto simp: e(4) extents_ok_def)
qed

text \<open>Decoding a fork never panics, whatever the bytes and whatever the count the inode claims;
  and a list it accepts has exactly the stated number of extents, each the decoding of its own
  16-byte slot, every field in its width, in ascending file order and without overlap.
\<close>

lemma parse_list_sound:
  "\<not> panics (parse_list buf count) \<and>
   (case parse_list buf count of
      Inl _ \<Rightarrow> True
    | Inr es \<Rightarrow> extents_ok es \<and>
        map (\<lambda>k. extent_parse (drop (k * EXTENT_RECORD_SIZE) buf)) [0..<unat count] = map Inr es)"
  using parse_list_from_not_panics [of buf 0 "unat count" 0]
    parse_list_from_Inr [of buf 0 "unat count" 0]
  by (auto simp: parse_list_def list_eq_iff_nth_eq split: sum.splits)

lemma extents_ok_end_sorted:
  "extents_ok es \<Longrightarrow> sorted (map (\<lambda>e. unat (end_offset e)) es)"
  unfolding extents_ok_def sorted_map
  by (auto elim!: sorted_wrt_mono_rel [rotated] simp: unat_end_offset)

text \<open>The binary search finds the extent that covers a file block: on a list in file order without
  overlaps, it returns an extent exactly when some extent of the list covers the block, the one it
  returns is of the list and covers it, no other does, and the block maps inside that extent; a
  hole is reported as absent.
\<close>

lemma lookup_correct:
  assumes "extents_ok es"
  shows "case lookup es off of
      None \<Rightarrow> \<forall>e \<in> set es. unat off \<notin> file_blocks e
    | Some e \<Rightarrow> e \<in> set es \<and> unat off \<in> file_blocks e \<and>
        (\<forall>e' \<in> set es. unat off \<in> file_blocks e' \<longrightarrow> e' = e) \<and>
        extent_map e off = Some (startblock e + (off - startoff e))"
proof -
  have ok: "\<forall>e \<in> set es. extent_ok e" using assms by (simp add: extents_ok_def)
  obtain L R where cut: "es = L @ R" "\<forall>e \<in> set L. unat (end_offset e) \<le> unat off"
    "\<forall>e \<in> set R. unat off < unat (end_offset e)"
    using sorted_cut_le [OF extents_ok_end_sorted [OF assms]] by metis
  have idx: "partition_point (\<lambda>e. end_offset e \<le> off) es = length L"
    unfolding cut(1) using cut(2,3) by (intro partition_point_append) (auto simp: to_nat)
  have outL: "\<forall>e \<in> set L. unat off \<notin> file_blocks e"
    using cut ok by (auto simp: file_blocks_def unat_end_offset)
  show ?thesis
  proof (cases R)
    case Nil
    with outL cut(1) idx show ?thesis by (simp add: lookup_def vec_get_def)
  next
    case (Cons r R')
    have later: "\<forall>e \<in> set R'. unat (startoff r) + unat (blockcount r) \<le> unat (startoff e)"
      using assms cut(1) Cons by (auto simp: extents_ok_def sorted_wrt_append)
    have r: "extent_ok r" "unat off < unat (startoff r) + unat (blockcount r)"
      using ok cut Cons unat_end_offset [of r] by auto
    then have outR: "\<forall>e \<in> set R'. unat off \<notin> file_blocks e"
      using later by (force simp: file_blocks_def)
    have "lookup es off = (if extent_contains r off then Some r else None)"
      using idx cut(1) Cons by (simp add: lookup_def)
    with outL outR r cut(1) Cons show ?thesis
      by (auto simp: extent_contains_iff extent_map_def)
  qed
qed

lemma lookup_correct_witness:
  "extents_ok [\<lparr>startoff = 0, startblock = 100, blockcount = 4, unwritten = False\<rparr>,
      \<lparr>startoff = 12, startblock = 300, blockcount = 4, unwritten = False\<rparr>] \<and>
   (case lookup [\<lparr>startoff = 0, startblock = 100, blockcount = 4, unwritten = False\<rparr>,
      \<lparr>startoff = 12, startblock = 300, blockcount = 4, unwritten = False\<rparr>] 13 of
      None \<Rightarrow> False
    | Some e \<Rightarrow> extent_map e 13 = Some (startblock e + (13 - startoff e)) \<and> startblock e = 300)"
proof -
  let ?es = "[\<lparr>startoff = 0, startblock = 100, blockcount = 4, unwritten = False\<rparr>,
      \<lparr>startoff = 12, startblock = 300, blockcount = 4, unwritten = False\<rparr>]"
  have ok: "extents_ok ?es" by (simp add: extents_ok_def extent_ok_def)
  have "lookup ?es 13 = Some \<lparr>startoff = 12, startblock = 300, blockcount = 4, unwritten = False\<rparr>"
    by code_simp
  with ok lookup_correct [OF ok, of 13] show ?thesis by simp
qed

end
