(* ===== verification/FreeSpace.thy ===== *)
theory FreeSpace
  imports Endian
begin

unbundle bit_operations_syntax

text \<open>
  The free space of one allocation group (\<^verbatim>\<open>src/src/alloc_btree.rs\<close>): the record of the two
  free-space trees with its codec, the check of a tree's records against the group
  (\<open>check_runs\<close>), putting an extent back (\<open>free_extent\<close>), taking one out (\<open>alloc_extent\<close>) and the
  totals the group header records.

  The abstraction of a record list is the set of blocks its runs cover (\<open>free_blocks\<close>).  The locale
  \<open>block_ledger\<close> states what a keeper of free blocks promises a client, and proves once that any
  sequence of takes and returns keeps every block in exactly one place; the record list of a
  group is an instance.
\<close>

section \<open>Definitions\<close>

record FreeExtent =
  fe_startblock :: u32
  fe_blockcount :: u32

definition fe_end :: "FreeExtent \<Rightarrow> u64" where
  "fe_end e = ucast (fe_startblock e) + ucast (fe_blockcount e)"

definition decode_free_extent :: "bytes \<Rightarrow> nat \<Rightarrow> FreeExtent res" where
  "decode_free_extent buf at =
     rbind (be32 buf at) (\<lambda>s. rbind (be32 buf (at + 4)) (\<lambda>c.
       Inr \<lparr>fe_startblock = s, fe_blockcount = c\<rparr>))"

definition encode_free_extent :: "bytes \<Rightarrow> nat \<Rightarrow> FreeExtent \<Rightarrow> bytes res" where
  "encode_free_extent buf at r =
     rbind (put buf at (be_bytes32 (fe_startblock r))) (\<lambda>buf.
       put buf (at + 4) (be_bytes32 (fe_blockcount r)))"

datatype Order = ByBlock | ByCount

text \<open>\<^verbatim>\<open>check_runs\<close>: the loop over the records, with the end of the run before.\<close>

fun check_runs_from :: "u32 \<Rightarrow> u64 \<Rightarrow> u64 \<Rightarrow> FreeExtent list \<Rightarrow> unit res" where
  "check_runs_from len headers previous_end [] = Inr ()"
| "check_runs_from len headers previous_end (r # rs) =
     (let start = ucast (fe_startblock r) :: u64;
          stop = start + ucast (fe_blockcount r)
      in if fe_blockcount r = 0 then Inl (BadSuperblock ''is empty'')
         else if start \<le> headers then Inl (BadSuperblock ''starts on the group's headers'')
         else if stop > ucast len then Inl (BadSuperblock ''runs past the end of the group'')
         else if start < previous_end
         then Inl (BadSuperblock ''starts before the run before it ends'')
         else check_runs_from len headers stop rs)"

definition check_runs :: "u32 \<Rightarrow> u64 \<Rightarrow> FreeExtent list \<Rightarrow> unit res" where
  "check_runs len headers records = check_runs_from len headers 0 records"

datatype Freed = Inserted | MergedWithFollowing | MergedWithPreceding | JoinedTwo

definition free_extent :: "FreeExtent list \<Rightarrow> FreeExtent \<Rightarrow> (FreeExtent list \<times> Freed) res" where
  "free_extent free ext =
     (if fe_blockcount ext = 0 then Inl (CorruptLog ''an extent of no blocks cannot be freed'')
      else
        let at = partition_point (\<lambda>e. fe_startblock e < fe_startblock ext) free;
            before = vec_before free at;
            after = vec_get free at
        in if (case before of Some b \<Rightarrow> fe_end b > ucast (fe_startblock ext) | None \<Rightarrow> False)
           then Inl (CorruptLog ''freeing overlaps free space'')
           else if (case after of Some a \<Rightarrow> fe_end ext > ucast (fe_startblock a) | None \<Rightarrow> False)
           then Inl (CorruptLog ''freeing overlaps free space'')
           else
             let touches_preceding =
                   (case before of Some e \<Rightarrow> fe_end e = ucast (fe_startblock ext) | None \<Rightarrow> False);
                 touches_following =
                   (case after of Some e \<Rightarrow> fe_end ext = ucast (fe_startblock e) | None \<Rightarrow> False)
             in if touches_preceding \<and> touches_following then
                  (let following = free ! at;
                       free1 = vec_remove at free;
                       preceding = free1 ! (at - 1)
                   in Inr (free1[at - 1 := preceding\<lparr>fe_blockcount := fe_blockcount preceding
                              + (fe_blockcount ext + fe_blockcount following)\<rparr>], JoinedTwo))
                else if touches_preceding then
                  (let preceding = free ! (at - 1)
                   in Inr (free[at - 1 := preceding\<lparr>fe_blockcount := fe_blockcount preceding
                              + fe_blockcount ext\<rparr>], MergedWithPreceding))
                else if touches_following then
                  (let following = free ! at
                   in Inr (free[at := \<lparr>fe_startblock = fe_startblock ext,
                          fe_blockcount = fe_blockcount following + fe_blockcount ext\<rparr>],
                        MergedWithFollowing))
                else Inr (vec_insert at ext free, Inserted))"

definition longest :: "FreeExtent list \<Rightarrow> u32" where
  "longest free = (if free = [] then 0 else Max (set (map fe_blockcount free)))"

definition total_free :: "FreeExtent list \<Rightarrow> u64" where
  "total_free free = sum_list (map (\<lambda>e. ucast (fe_blockcount e)) free)"

datatype Allocated = ConsumedWhole | TookFront | TookBack | SplitInTwo

definition alloc_extent ::
  "FreeExtent list \<Rightarrow> FreeExtent \<Rightarrow> (FreeExtent list \<times> Allocated) res" where
  "alloc_extent free ext =
     (if fe_blockcount ext = 0 then Inl (CorruptLog ''an extent of no blocks cannot be allocated'')
      else
        let pp = partition_point (\<lambda>e. fe_startblock e \<le> fe_startblock ext) free
        in if pp = 0 then Inl (CorruptLog ''no free run starts at or before it'')
           else
             let at = pp - 1; run = free ! at
             in if fe_end ext > fe_end run
                then Inl (CorruptLog ''runs past the free space, so part of it is not free'')
                else
                  let at_front = (fe_startblock ext = fe_startblock run);
                      at_back = (fe_end ext = fe_end run)
                  in if at_front \<and> at_back then Inr (vec_remove at free, ConsumedWhole)
                     else if at_front then
                       Inr (free[at := \<lparr>fe_startblock = fe_startblock run + fe_blockcount ext,
                              fe_blockcount = fe_blockcount run - fe_blockcount ext\<rparr>], TookFront)
                     else if at_back then
                       Inr (free[at := run\<lparr>fe_blockcount := fe_blockcount run
                              - fe_blockcount ext\<rparr>], TookBack)
                     else
                       let tail = \<lparr>fe_startblock = ucast (fe_end ext),
                                   fe_blockcount = ucast (fe_end run - fe_end ext)\<rparr>
                       in Inr (vec_insert (at + 1) tail
                                (free[at := run\<lparr>fe_blockcount := fe_startblock ext
                                   - fe_startblock run\<rparr>]), SplitInTwo))"

text \<open>The abstraction: the blocks a run covers and the blocks a list covers; and what the group
  keeps true of its list (\<open>n\<close> is the group's length).\<close>

definition run_blocks :: "FreeExtent \<Rightarrow> nat set" where
  "run_blocks e = {unat (fe_startblock e) ..< unat (fe_startblock e) + unat (fe_blockcount e)}"

definition free_blocks :: "FreeExtent list \<Rightarrow> nat set" where
  "free_blocks free = (\<Union>e \<in> set free. run_blocks e)"

definition run_fits :: "nat \<Rightarrow> FreeExtent \<Rightarrow> bool" where
  "run_fits n e \<longleftrightarrow> unat (fe_startblock e) + unat (fe_blockcount e) \<le> n"

definition free_ok :: "nat \<Rightarrow> FreeExtent list \<Rightarrow> bool" where
  "free_ok n free \<longleftrightarrow> (\<forall>e \<in> set free. 0 < unat (fe_blockcount e) \<and> run_fits n e) \<and>
     sorted_wrt (\<lambda>a b. unat (fe_startblock a) + unat (fe_blockcount a) \<le> unat (fe_startblock b)) free"

text \<open>A list the kernel keeps has, further, no two runs that touch.\<close>

definition coalesced :: "FreeExtent list \<Rightarrow> bool" where
  "coalesced free \<longleftrightarrow>
     sorted_wrt (\<lambda>a b. unat (fe_startblock a) + unat (fe_blockcount a) < unat (fe_startblock b)) free"

definition total :: "FreeExtent list \<Rightarrow> nat" where
  "total free = sum_list (map (\<lambda>e. unat (fe_blockcount e)) free)"

fun undo_freed :: "Freed \<Rightarrow> Allocated" where
  "undo_freed Inserted = ConsumedWhole"
| "undo_freed MergedWithFollowing = TookFront"
| "undo_freed MergedWithPreceding = TookBack"
| "undo_freed JoinedTwo = SplitInTwo"

text \<open>A client of a keeper of free blocks: a sequence of takes and returns, with the blocks it holds.
  \<open>disciplined\<close>: it returns only blocks it holds.\<close>

datatype 'e space_op = Give 'e | Take 'e

fun run_space ::
  "('s \<Rightarrow> 'e \<Rightarrow> ('s \<times> 'g) res) \<Rightarrow> ('s \<Rightarrow> 'e \<Rightarrow> ('s \<times> 't) res) \<Rightarrow> ('e \<Rightarrow> 'b set) \<Rightarrow>
    's \<Rightarrow> 'b set \<Rightarrow> 'e space_op list \<Rightarrow> ('s \<times> 'b set) res" where
  "run_space give tak blocks s held [] = Inr (s, held)"
| "run_space give tak blocks s held (Give e # ops) =
     rbind (give s e) (\<lambda>(s', _). run_space give tak blocks s' (held - blocks e) ops)"
| "run_space give tak blocks s held (Take e # ops) =
     rbind (tak s e) (\<lambda>(s', _). run_space give tak blocks s' (held \<union> blocks e) ops)"

fun disciplined :: "('e \<Rightarrow> bool) \<Rightarrow> ('e \<Rightarrow> 'b set) \<Rightarrow> 'b set \<Rightarrow> 'e space_op list \<Rightarrow> bool" where
  "disciplined fits blocks held [] = True"
| "disciplined fits blocks held (Give e # ops) \<longleftrightarrow>
     fits e \<and> blocks e \<subseteq> held \<and> disciplined fits blocks (held - blocks e) ops"
| "disciplined fits blocks held (Take e # ops) \<longleftrightarrow>
     fits e \<and> disciplined fits blocks (held \<union> blocks e) ops"

section \<open>The contract of a keeper of free blocks\<close>

locale block_ledger =
  fixes inv :: "'s \<Rightarrow> bool"
    and space :: "'s \<Rightarrow> 'b set"
    and fits :: "'e \<Rightarrow> bool"
    and blocks :: "'e \<Rightarrow> 'b set"
    and give :: "'s \<Rightarrow> 'e \<Rightarrow> ('s \<times> 'g) res"
    and tak :: "'s \<Rightarrow> 'e \<Rightarrow> ('s \<times> 't) res"
  assumes give_law: "inv s \<Longrightarrow> fits e \<Longrightarrow> give s e = Inr (s', g) \<Longrightarrow>
      inv s' \<and> space s \<inter> blocks e = {} \<and> space s' = space s \<union> blocks e"
    and give_refuses: "inv s \<Longrightarrow> fits e \<Longrightarrow> space s \<inter> blocks e \<noteq> {} \<Longrightarrow> \<exists>err. give s e = Inl err"
    and take_law: "inv s \<Longrightarrow> fits e \<Longrightarrow> tak s e = Inr (s', t) \<Longrightarrow>
      inv s' \<and> blocks e \<subseteq> space s \<and> space s' = space s - blocks e"
begin

text \<open>A run of a disciplined client keeps every block in exactly one place.\<close>

lemma run_conserves:
  "inv s \<Longrightarrow> space s \<inter> held = {} \<Longrightarrow> disciplined fits blocks held ops \<Longrightarrow>
     run_space give tak blocks s held ops = Inr (s', held') \<Longrightarrow>
     inv s' \<and> space s' \<inter> held' = {} \<and> space s' \<union> held' = space s \<union> held"
proof (induction ops arbitrary: s held)
  case Nil
  then show ?case by simp
next
  case (Cons op ops)
  show ?case
  proof (cases op)
    case (Give e)
    with Cons.prems obtain t g where step: "give s e = Inr (t, g)"
      "run_space give tak blocks t (held - blocks e) ops = Inr (s', held')"
      by (auto simp: rbind_eq_Inr)
    with Give Cons.prems give_law [of s e t g]
    have "inv t" "space s \<inter> blocks e = {}" "space t = space s \<union> blocks e" "blocks e \<subseteq> held" by auto
    moreover from this have "space t \<inter> (held - blocks e) = {}"
      "space t \<union> (held - blocks e) = space s \<union> held" using Cons.prems(2) by blast+
    ultimately show ?thesis using Cons.IH [of t "held - blocks e"] Cons.prems(3) step(2) Give by simp
  next
    case (Take e)
    with Cons.prems obtain t g where step: "tak s e = Inr (t, g)"
      "run_space give tak blocks t (held \<union> blocks e) ops = Inr (s', held')"
      by (auto simp: rbind_eq_Inr)
    with Take Cons.prems take_law [of s e t g]
    have "inv t" "blocks e \<subseteq> space s" "space t = space s - blocks e" by auto
    moreover from this have "space t \<inter> (held \<union> blocks e) = {}"
      "space t \<union> (held \<union> blocks e) = space s \<union> held" using Cons.prems(2) by blast+
    ultimately show ?thesis using Cons.IH [of t "held \<union> blocks e"] Cons.prems(3) step(2) Take by simp
  qed
qed

text \<open>A block once taken cannot be taken again before it is given back.\<close>

lemma no_double_take:
  assumes "inv s" "fits e" "fits f" "tak s e = Inr (s1, t1)" "tak s1 f = Inr (s2, t2)"
  shows "blocks e \<inter> blocks f = {}"
  using take_law [OF assms(1,2,4)] take_law [of s1 f s2 t2] assms(3,5) by auto

end

section \<open>Basic facts\<close>

lemma unat_fe_end [simp]:
  "unat (fe_end e) = unat (fe_startblock e) + unat (fe_blockcount e)"
  by (simp add: fe_end_def)

lemma run_blocks_upd [simp]:
  "run_blocks (e\<lparr>fe_blockcount := c\<rparr>) =
     {unat (fe_startblock e) ..< unat (fe_startblock e) + unat c}"
  "run_blocks \<lparr>fe_startblock = s, fe_blockcount = c\<rparr> = {unat s ..< unat s + unat c}"
  by (simp_all add: run_blocks_def)

lemma free_blocks_simps [simp]:
  "free_blocks [] = {}"
  "free_blocks (e # es) = run_blocks e \<union> free_blocks es"
  "free_blocks (xs @ ys) = free_blocks xs \<union> free_blocks ys"
  by (auto simp: free_blocks_def)

lemma total_simps [simp]:
  "total [] = 0"
  "total (e # es) = unat (fe_blockcount e) + total es"
  "total (xs @ ys) = total xs + total ys"
  by (simp_all add: total_def)

lemma free_ok_starts_sorted: "free_ok n free \<Longrightarrow> sorted (map (\<lambda>e. unat (fe_startblock e)) free)"
  unfolding free_ok_def sorted_map by (auto elim!: sorted_wrt_mono_rel [rotated])

lemma free_ok_append:
  "free_ok n (xs @ ys) \<longleftrightarrow> free_ok n xs \<and> free_ok n ys \<and>
     (\<forall>a \<in> set xs. \<forall>b \<in> set ys.
        unat (fe_startblock a) + unat (fe_blockcount a) \<le> unat (fe_startblock b))"
  by (auto simp: free_ok_def sorted_wrt_append)

lemma free_ok_Cons:
  "free_ok n (x # ys) \<longleftrightarrow> 0 < unat (fe_blockcount x) \<and> run_fits n x \<and> free_ok n ys \<and>
     (\<forall>b \<in> set ys. unat (fe_startblock x) + unat (fe_blockcount x) \<le> unat (fe_startblock b))"
  by (auto simp: free_ok_def)

lemma free_ok_Nil [simp]: "free_ok n []"
  by (simp add: free_ok_def)

text \<open>A list in start order with a new extent's place cut open.\<close>

lemma free_cut:
  assumes "free_ok n free"
  obtains L R where "free = L @ R"
    "\<forall>x \<in> set L. unat (fe_startblock x) < unat (fe_startblock e)"
    "\<forall>x \<in> set R. unat (fe_startblock e) \<le> unat (fe_startblock x)"
    "partition_point (\<lambda>x. fe_startblock x < fe_startblock e) free = length L"
proof -
  obtain L R where LR: "free = L @ R"
    "\<forall>x \<in> set L. unat (fe_startblock x) < unat (fe_startblock e)"
    "\<forall>x \<in> set R. unat (fe_startblock e) \<le> unat (fe_startblock x)"
    using sorted_cut_less [OF free_ok_starts_sorted [OF assms]] by metis
  moreover have "partition_point (\<lambda>x. fe_startblock x < fe_startblock e) free = length L"
    unfolding LR(1) using LR(2,3) by (intro partition_point_append) (auto simp: to_nat)
  ultimately show ?thesis using that by blast
qed

section \<open>Putting an extent back\<close>

abbreviation "fe_stop e \<equiv> unat (fe_startblock e) + unat (fe_blockcount e)"

text \<open>What \<open>free_extent\<close> does at a cut, in numbers: the four outcomes and the refusal.\<close>

lemma free_extent_at:
  assumes "partition_point (\<lambda>x. fe_startblock x < fe_startblock e) (L @ R) = length L"
    and "fe_blockcount e \<noteq> 0"
  shows "free_extent (L @ R) e =
     (if (L \<noteq> [] \<and> fe_stop (last L) > unat (fe_startblock e)) \<or>
         (R \<noteq> [] \<and> fe_stop e > unat (fe_startblock (hd R)))
      then Inl (CorruptLog ''freeing overlaps free space'')
      else if L \<noteq> [] \<and> fe_stop (last L) = unat (fe_startblock e) then
        (if R \<noteq> [] \<and> fe_stop e = unat (fe_startblock (hd R))
         then Inr (butlast L @ (last L)\<lparr>fe_blockcount := fe_blockcount (last L)
                + (fe_blockcount e + fe_blockcount (hd R))\<rparr> # tl R, JoinedTwo)
         else Inr (butlast L @ (last L)\<lparr>fe_blockcount := fe_blockcount (last L)
                + fe_blockcount e\<rparr> # R, MergedWithPreceding))
      else if R \<noteq> [] \<and> fe_stop e = unat (fe_startblock (hd R))
        then Inr (L @ \<lparr>fe_startblock = fe_startblock e,
               fe_blockcount = fe_blockcount (hd R) + fe_blockcount e\<rparr> # tl R, MergedWithFollowing)
      else Inr (L @ e # R, Inserted))"
proof (cases L rule: rev_cases)
  case Nil
  with assms show ?thesis
    by (cases R) (simp_all add: free_extent_def Let_def to_nat vec_get_def vec_insert_def)
next
  case (snoc L' b)
  with assms have pp: "partition_point (\<lambda>x. fe_startblock x < fe_startblock e) (L' @ b # R)
      = Suc (length L')" by simp
  show ?thesis
  proof (cases R)
    case Nil
    with assms(2) snoc pp show ?thesis
      by (simp add: free_extent_def Let_def to_nat vec_get_def vec_insert_def nth_append)
  next
    case (Cons a R')
    with assms(2) snoc pp show ?thesis
      by (simp add: free_extent_def Let_def to_nat vec_get_def vec_insert_def vec_remove_def
          nth_append list_update_append)
  qed
qed

text \<open>Two counts whose runs fit in the group do not wrap when added.\<close>

lemma unat_add_fits:
  "unat a + unat b \<le> n \<Longrightarrow> n < 2 ^ 32 \<Longrightarrow> unat (a + b) = unat a + unat b" for a b :: u32
  by (rule unat_add_small) simp

lemma run_union:
  "a \<le> b \<Longrightarrow> b \<le> c \<Longrightarrow> {a ..< b} \<union> {b ..< c} = {a ..< c}" for a b c :: nat
  by (rule ivl_disj_un)

text \<open>Joining two runs that touch changes neither the blocks nor the total.\<close>

lemma join_runs:
  assumes ok: "free_ok n (X @ a # b # Y)" and n: "n < 2 ^ 32"
    and touch: "fe_stop a = unat (fe_startblock b)"
  defines "Z \<equiv> X @ a\<lparr>fe_blockcount := fe_blockcount a + fe_blockcount b\<rparr> # Y"
  shows "free_ok n Z" "free_blocks Z = free_blocks (X @ a # b # Y)" "total Z = total (X @ a # b # Y)"
proof -
  have "unat (fe_blockcount a) + unat (fe_blockcount b) \<le> n"
    using ok touch by (auto simp: free_ok_append free_ok_Cons run_fits_def)
  then have c: "unat (fe_blockcount a + fe_blockcount b) =
      unat (fe_blockcount a) + unat (fe_blockcount b)"
    using n by (rule unat_add_fits)
  then show "free_ok n Z" "total Z = total (X @ a # b # Y)"
    using ok touch by (auto simp: Z_def free_ok_append free_ok_Cons run_fits_def)
  show "free_blocks Z = free_blocks (X @ a # b # Y)"
    using c touch by (auto simp: Z_def run_blocks_def)
qed

lemma free_extent_cut_Inr:
  assumes ok: "free_ok n (L @ R)" and nz: "fe_blockcount e \<noteq> 0"
    and pp: "partition_point (\<lambda>x. fe_startblock x < fe_startblock e) (L @ R) = length L"
    and res: "free_extent (L @ R) e = Inr (free', how)"
  shows "\<forall>x \<in> set L. fe_stop x \<le> unat (fe_startblock e)"
    and "\<forall>x \<in> set R. fe_stop e \<le> unat (fe_startblock x)"
proof -
  have ends: "\<not> ((L \<noteq> [] \<and> fe_stop (last L) > unat (fe_startblock e)) \<or>
      (R \<noteq> [] \<and> fe_stop e > unat (fe_startblock (hd R))))"
    using res unfolding free_extent_at [OF pp nz] by (auto split: if_splits)
  show "\<forall>x \<in> set L. fe_stop x \<le> unat (fe_startblock e)"
  proof (cases L rule: rev_cases)
    case (snoc L' b)
    with ok have "\<forall>x \<in> set L'. fe_stop x \<le> unat (fe_startblock b)"
      by (auto simp: free_ok_append free_ok_Cons)
    with ends snoc show ?thesis by fastforce
  qed simp
  show "\<forall>x \<in> set R. fe_stop e \<le> unat (fe_startblock x)"
  proof (cases R)
    case (Cons a R')
    with ok have "\<forall>x \<in> set R'. fe_stop a \<le> unat (fe_startblock x)"
      by (auto simp: free_ok_append free_ok_Cons)
    with ends Cons show ?thesis by fastforce
  qed simp
qed

text \<open>The result holds the same blocks as the list with the extent simply put in its place.\<close>

lemma free_extent_shape:
  assumes ok: "free_ok n (L @ e # R)" and n: "n < 2 ^ 32" and nz: "fe_blockcount e \<noteq> 0"
    and pp: "partition_point (\<lambda>x. fe_startblock x < fe_startblock e) (L @ R) = length L"
    and res: "free_extent (L @ R) e = Inr (free', how)"
  shows "free_ok n free'" "free_blocks free' = free_blocks (L @ e # R)"
    "total free' = total (L @ e # R)"
proof -
  define same where "same f \<longleftrightarrow> free_ok n f \<and> free_blocks f = free_blocks (L @ e # R) \<and>
      total f = total (L @ e # R)" for f
  have following: "R \<noteq> [] \<Longrightarrow> fe_stop e = unat (fe_startblock (hd R)) \<Longrightarrow>
      same (L @ e\<lparr>fe_blockcount := fe_blockcount e + fe_blockcount (hd R)\<rparr> # tl R)"
    using join_runs [of n L e "hd R" "tl R"] ok n by (cases R) (simp_all add: same_def)
  have preceding: "L \<noteq> [] \<Longrightarrow> fe_stop (last L) = unat (fe_startblock e) \<Longrightarrow>
      same (butlast L @ (last L)\<lparr>fe_blockcount := fe_blockcount (last L) + fe_blockcount e\<rparr> # R)"
    using join_runs [of n "butlast L" "last L" e R] ok n
    by (cases L rule: rev_cases) (simp_all add: same_def)
  have both: "L \<noteq> [] \<Longrightarrow> fe_stop (last L) = unat (fe_startblock e) \<Longrightarrow> R \<noteq> [] \<Longrightarrow>
      fe_stop e = unat (fe_startblock (hd R)) \<Longrightarrow>
      same (butlast L @ (last L)\<lparr>fe_blockcount := fe_blockcount (last L)
        + (fe_blockcount e + fe_blockcount (hd R))\<rparr> # tl R)"
    using following n join_runs [of n "butlast L" "last L"
        "e\<lparr>fe_blockcount := fe_blockcount e + fe_blockcount (hd R)\<rparr>" "tl R"]
    by (cases L rule: rev_cases) (simp_all add: same_def)
  have rec: "\<lparr>fe_startblock = fe_startblock e, fe_blockcount = fe_blockcount a + fe_blockcount e\<rparr>
      = e\<lparr>fe_blockcount := fe_blockcount e + fe_blockcount a\<rparr>" for a
    by (simp add: add.commute)
  have "same (L @ e # R)" using ok by (simp add: same_def)
  then have "same free'"
    using res following preceding both
    unfolding free_extent_at [OF pp nz] rec by (auto split: if_splits)
  then show "free_ok n free'" "free_blocks free' = free_blocks (L @ e # R)"
    "total free' = total (L @ e # R)" by (simp_all add: same_def)
qed

lemma free_extent_Inr:
  assumes ok: "free_ok n free" and n: "n < 2 ^ 32" and fits: "run_fits n e"
    and res: "free_extent free e = Inr (free', how)"
  shows "free_ok n free'" "free_blocks free' = free_blocks free \<union> run_blocks e"
    "free_blocks free \<inter> run_blocks e = {}" "total free' = total free + unat (fe_blockcount e)"
    "fe_blockcount e \<noteq> 0"
proof -
  show nz: "fe_blockcount e \<noteq> 0" using res by (auto simp: free_extent_def)
  obtain L R where cut: "free = L @ R"
    "partition_point (\<lambda>x. fe_startblock x < fe_startblock e) (L @ R) = length L"
    using free_cut [OF ok] by metis
  note sides = free_extent_cut_Inr [OF ok [unfolded cut(1)] nz cut(2) res [unfolded cut(1)]]
  have okLR: "free_ok n (L @ e # R)"
    using ok fits nz sides by (auto simp: cut(1) free_ok_append free_ok_Cons unat_gt_0)
  note shape = free_extent_shape [OF okLR n nz cut(2) res [unfolded cut(1)]]
  show "free_ok n free'" "free_blocks free' = free_blocks free \<union> run_blocks e"
    "total free' = total free + unat (fe_blockcount e)"
    using shape by (auto simp: cut(1))
  show "free_blocks free \<inter> run_blocks e = {}"
    using sides by (fastforce simp: cut(1) free_blocks_def run_blocks_def)
qed

lemma free_extent_Inl:
  assumes ok: "free_ok n free" and res: "free_extent free e = Inl err"
  shows "(\<exists>m. err = CorruptLog m) \<and> (fe_blockcount e = 0 \<or> free_blocks free \<inter> run_blocks e \<noteq> {})"
proof (cases "fe_blockcount e = 0")
  case True
  with res show ?thesis by (auto simp: free_extent_def)
next
  case False
  obtain L R where cut: "free = L @ R"
    "\<forall>x \<in> set L. unat (fe_startblock x) < unat (fe_startblock e)"
    "\<forall>x \<in> set R. unat (fe_startblock e) \<le> unat (fe_startblock x)"
    "partition_point (\<lambda>x. fe_startblock x < fe_startblock e) (L @ R) = length L"
    using free_cut [OF ok] by metis
  have pos: "0 < unat (fe_blockcount e)" using False by (simp add: unat_gt_0)
  have err: "err = CorruptLog ''freeing overlaps free space''" and
    "(L \<noteq> [] \<and> fe_stop (last L) > unat (fe_startblock e)) \<or>
      (R \<noteq> [] \<and> fe_stop e > unat (fe_startblock (hd R)))"
    using res unfolding cut(1) free_extent_at [OF cut(4) False] by (auto split: if_splits)
  then consider "L \<noteq> []" "fe_stop (last L) > unat (fe_startblock e)" |
    "R \<noteq> []" "fe_stop e > unat (fe_startblock (hd R))" by blast
  then show ?thesis
  proof cases
    case 1
    then have "unat (fe_startblock e) \<in> run_blocks (last L) \<inter> run_blocks e"
      using cut(2) pos by (auto simp: run_blocks_def less_imp_le)
    then have "unat (fe_startblock e) \<in> free_blocks free \<inter> run_blocks e"
      using last_in_set [OF 1(1)] by (auto simp: cut(1) free_blocks_def)
    then show ?thesis using err by blast
  next
    case 2
    then have "unat (fe_startblock (hd R)) \<in> run_blocks (hd R) \<inter> run_blocks e"
      using cut(3) ok by (auto simp: cut(1) run_blocks_def free_ok_append free_ok_def)
    then have "unat (fe_startblock (hd R)) \<in> free_blocks free \<inter> run_blocks e"
      using hd_in_set [OF 2(1)] by (auto simp: cut(1) free_blocks_def)
    then show ?thesis using err by blast
  qed
qed

section \<open>Taking an extent out\<close>

text \<open>What \<open>alloc_extent\<close> does once the candidate run is known, in numbers.\<close>

lemma alloc_extent_at:
  assumes "\<forall>x \<in> set L. unat (fe_startblock x) \<le> unat (fe_startblock e)"
    and "unat (fe_startblock r) \<le> unat (fe_startblock e)"
    and "\<forall>x \<in> set R. unat (fe_startblock e) < unat (fe_startblock x)"
    and "fe_blockcount e \<noteq> 0"
  shows "alloc_extent (L @ r # R) e =
     (if fe_stop e > fe_stop r
      then Inl (CorruptLog ''runs past the free space, so part of it is not free'')
      else if fe_startblock e = fe_startblock r \<and> fe_stop e = fe_stop r
        then Inr (L @ R, ConsumedWhole)
      else if fe_startblock e = fe_startblock r
        then Inr (L @ \<lparr>fe_startblock = fe_startblock r + fe_blockcount e,
            fe_blockcount = fe_blockcount r - fe_blockcount e\<rparr> # R, TookFront)
      else if fe_stop e = fe_stop r
        then Inr (L @ r\<lparr>fe_blockcount := fe_blockcount r - fe_blockcount e\<rparr> # R, TookBack)
      else Inr (L @ r\<lparr>fe_blockcount := fe_startblock e - fe_startblock r\<rparr>
          # \<lparr>fe_startblock = ucast (fe_end e), fe_blockcount = ucast (fe_end r - fe_end e)\<rparr> # R,
          SplitInTwo))"
proof -
  have "partition_point (\<lambda>x. fe_startblock x \<le> fe_startblock e) ((L @ [r]) @ R) = length (L @ [r])"
    using assms(1-3) by (intro partition_point_append) (auto simp: to_nat)
  then have pp: "partition_point (\<lambda>x. fe_startblock x \<le> fe_startblock e) (L @ r # R) = Suc (length L)"
    by simp
  have ends: "(fe_end e > fe_end r) = (fe_stop e > fe_stop r)" "(fe_end e = fe_end r) = (fe_stop e = fe_stop r)"
    by (simp_all add: to_nat)
  show ?thesis
    using assms(4) unfolding alloc_extent_def pp ends [symmetric]
    by (simp add: Let_def vec_insert_def vec_remove_def nth_append list_update_append)
qed

lemma alloc_extent_before_all:
  assumes "\<forall>x \<in> set free. unat (fe_startblock e) < unat (fe_startblock x)" "fe_blockcount e \<noteq> 0"
  shows "alloc_extent free e = Inl (CorruptLog ''no free run starts at or before it'')"
proof -
  have "partition_point (\<lambda>x. fe_startblock x \<le> fe_startblock e) ([] @ free) = length ([] :: FreeExtent list)"
    using assms(1) by (intro partition_point_append) (auto simp: to_nat)
  with assms(2) show ?thesis by (simp add: alloc_extent_def)
qed

text \<open>The arithmetic of the pieces left behind.\<close>

lemma split_pieces:
  assumes "fe_stop e < fe_stop r" "fe_stop r \<le> n" "n < 2 ^ 32"
  shows "unat (ucast (fe_end e) :: u32) = fe_stop e"
    and "unat (ucast (fe_end r - fe_end e) :: u32) = fe_stop r - fe_stop e"
proof -
  have "unat (fe_end r - fe_end e) = fe_stop r - fe_stop e"
    using assms by (subst unat_sub_le) simp_all
  then show "unat (ucast (fe_end e) :: u32) = fe_stop e"
    "unat (ucast (fe_end r - fe_end e) :: u32) = fe_stop r - fe_stop e"
    using assms by (simp_all add: unsigned_ucast_eq take_bit_nat_eq_self)
qed

text \<open>The candidate run of an extent: the last one that starts at or before it.\<close>

lemma alloc_cut:
  assumes ok: "free_ok n free" and some: "\<exists>x \<in> set free. unat (fe_startblock x) \<le> unat (fe_startblock e)"
  obtains L r R where "free = L @ r # R"
    "\<forall>x \<in> set L. unat (fe_startblock x) \<le> unat (fe_startblock e)"
    "unat (fe_startblock r) \<le> unat (fe_startblock e)"
    "\<forall>x \<in> set R. unat (fe_startblock e) < unat (fe_startblock x)"
proof -
  obtain L' R where cut: "free = L' @ R"
    "\<forall>x \<in> set L'. unat (fe_startblock x) \<le> unat (fe_startblock e)"
    "\<forall>x \<in> set R. unat (fe_startblock e) < unat (fe_startblock x)"
    using sorted_cut_le [OF free_ok_starts_sorted [OF ok]] by metis
  have "L' \<noteq> []" using some cut by fastforce
  then obtain L r where "L' = L @ [r]" by (metis rev_exhaust)
  with cut that [of L r R] show ?thesis by simp
qed

lemma free_ok_replace:
  "free_ok n (L @ r # R) \<Longrightarrow> free_ok n P \<Longrightarrow>
     \<forall>p \<in> set P. unat (fe_startblock r) \<le> unat (fe_startblock p) \<and> fe_stop p \<le> fe_stop r \<Longrightarrow>
     free_ok n (L @ P @ R)"
  by (fastforce simp: free_ok_append free_ok_Cons)

text \<open>A run is replaced by what is left of it: nothing, one piece or two.\<close>

lemma alloc_extent_pieces:
  assumes r: "0 < unat (fe_blockcount r)" "run_fits n r" and n: "n < 2 ^ 32"
    and cut: "\<forall>x \<in> set L. unat (fe_startblock x) \<le> unat (fe_startblock e)"
      "unat (fe_startblock r) \<le> unat (fe_startblock e)"
      "\<forall>x \<in> set R. unat (fe_startblock e) < unat (fe_startblock x)"
      "fe_blockcount e \<noteq> 0"
    and res: "alloc_extent (L @ r # R) e = Inr (free', how)"
  shows "fe_stop e \<le> fe_stop r \<and> (\<exists>P. free' = L @ P @ R \<and> free_ok n P \<and>
     (\<forall>p \<in> set P. unat (fe_startblock r) \<le> unat (fe_startblock p) \<and> fe_stop p \<le> fe_stop r) \<and>
     free_blocks P = run_blocks r - run_blocks e \<and>
     total P + unat (fe_blockcount e) = unat (fe_blockcount r))"
proof -
  note ev = alloc_extent_at [OF cut]
  have stop: "fe_stop e \<le> fe_stop r" using res unfolding ev by (auto split: if_splits)
  have pos: "0 < unat (fe_blockcount e)" using cut(4) by (simp add: unat_gt_0)
  have front: "unat (fe_startblock r + fe_blockcount e) = fe_stop e" if "fe_startblock e = fe_startblock r"
    using r n stop that by (subst unat_add_fits [of _ _ n]) (auto simp: run_fits_def)
  have less: "unat (fe_blockcount r - fe_blockcount e) = unat (fe_blockcount r) - unat (fe_blockcount e)"
    using stop cut(2) by (intro unat_sub_le) simp
  have gap: "unat (fe_startblock e - fe_startblock r) = unat (fe_startblock e) - unat (fe_startblock r)"
    using cut(2) by (rule unat_sub_le)
  have pieces: "unat (ucast (fe_end e) :: u32) = fe_stop e"
    "unat (ucast (fe_end r - fe_end e) :: u32) = fe_stop r - fe_stop e" if "fe_stop e \<noteq> fe_stop r"
    using split_pieces [of e r n] r n stop that by (simp_all add: run_fits_def)
  have neq: "unat (fe_startblock r) < unat (fe_startblock e)" if "fe_startblock e \<noteq> fe_startblock r"
    using cut(2) that by (metis le_neq_implies_less word_eq_unat)
  note facts = r stop pos cut(2) run_fits_def run_blocks_def free_ok_Cons
  have "\<exists>P. free' = L @ P @ R \<and> free_ok n P \<and>
     (\<forall>p \<in> set P. unat (fe_startblock r) \<le> unat (fe_startblock p) \<and> fe_stop p \<le> fe_stop r) \<and>
     free_blocks P = run_blocks r - run_blocks e \<and>
     total P + unat (fe_blockcount e) = unat (fe_blockcount r)"
  proof (cases "fe_startblock e = fe_startblock r"; cases "fe_stop e = fe_stop r")
    assume "fe_startblock e = fe_startblock r" "fe_stop e = fe_stop r"
    then show ?thesis using res facts unfolding ev by (intro exI [of _ "[]"]) auto
  next
    assume "fe_startblock e = fe_startblock r" "fe_stop e \<noteq> fe_stop r"
    then show ?thesis using res facts front less unfolding ev
      by (intro exI [of _ "[\<lparr>fe_startblock = fe_startblock r + fe_blockcount e,
            fe_blockcount = fe_blockcount r - fe_blockcount e\<rparr>]"]) auto
  next
    assume "fe_startblock e \<noteq> fe_startblock r" "fe_stop e = fe_stop r"
    then show ?thesis using res facts less neq unfolding ev
      by (intro exI [of _ "[r\<lparr>fe_blockcount := fe_blockcount r - fe_blockcount e\<rparr>]"]) auto
  next
    assume "fe_startblock e \<noteq> fe_startblock r" "fe_stop e \<noteq> fe_stop r"
    then show ?thesis using res facts gap pieces neq unfolding ev
      by (intro exI [of _ "[r\<lparr>fe_blockcount := fe_startblock e - fe_startblock r\<rparr>,
            \<lparr>fe_startblock = ucast (fe_end e), fe_blockcount = ucast (fe_end r - fe_end e)\<rparr>]"]) auto
  qed
  with stop show ?thesis by blast
qed

lemma alloc_extent_Inr:
  assumes ok: "free_ok n free" and n: "n < 2 ^ 32"
    and res: "alloc_extent free e = Inr (free', how)"
  shows "free_ok n free'" "free_blocks free' = free_blocks free - run_blocks e"
    "\<exists>r \<in> set free. run_blocks e \<subseteq> run_blocks r"
    "total free' + unat (fe_blockcount e) = total free" "fe_blockcount e \<noteq> 0"
proof -
  show nz: "fe_blockcount e \<noteq> 0" using res by (auto simp: alloc_extent_def)
  have "\<exists>x \<in> set free. unat (fe_startblock x) \<le> unat (fe_startblock e)"
    using res alloc_extent_before_all [OF _ nz, of free] by force
  then obtain L r R where free: "free = L @ r # R" and cut:
    "\<forall>x \<in> set L. unat (fe_startblock x) \<le> unat (fe_startblock e)"
    "unat (fe_startblock r) \<le> unat (fe_startblock e)"
    "\<forall>x \<in> set R. unat (fe_startblock e) < unat (fe_startblock x)"
    using alloc_cut [OF ok] by metis
  have "0 < unat (fe_blockcount r)" "run_fits n r" using ok by (auto simp: free free_ok_append free_ok_Cons)
  from alloc_extent_pieces [OF this n cut nz res [unfolded free]] obtain P where
    P: "free' = L @ P @ R" "free_ok n P" "fe_stop e \<le> fe_stop r"
      "\<forall>p \<in> set P. unat (fe_startblock r) \<le> unat (fe_startblock p) \<and> fe_stop p \<le> fe_stop r"
      "free_blocks P = run_blocks r - run_blocks e"
      "total P + unat (fe_blockcount e) = unat (fe_blockcount r)" by blast
  show "free_ok n free'" using free_ok_replace ok P by (simp add: free)
  show sub: "\<exists>r \<in> set free. run_blocks e \<subseteq> run_blocks r"
    using P(3) cut(2) by (intro bexI [of _ r]) (auto simp: free run_blocks_def)
  have "free_blocks L \<inter> run_blocks e = {}" "free_blocks R \<inter> run_blocks e = {}"
    using ok P(3) cut(2) by (fastforce simp: free free_ok_append free_ok_Cons free_blocks_def run_blocks_def)+
  then show "free_blocks free' = free_blocks free - run_blocks e"
    using P(1,5) by (auto simp: free)
  show "total free' + unat (fe_blockcount e) = total free" using P(1,6) by (simp add: free)
qed

lemma alloc_extent_Inl:
  assumes ok: "free_ok n free" and res: "alloc_extent free e = Inl err"
  shows "(\<exists>m. err = CorruptLog m) \<and>
     (fe_blockcount e = 0 \<or> \<not> (\<exists>r \<in> set free. run_blocks e \<subseteq> run_blocks r))"
proof (cases "fe_blockcount e = 0 \<or> (\<forall>x \<in> set free. unat (fe_startblock e) < unat (fe_startblock x))")
  case True
  then show ?thesis
  proof
    assume "fe_blockcount e = 0"
    with res show ?thesis by (auto simp: alloc_extent_def)
  next
    assume before: "\<forall>x \<in> set free. unat (fe_startblock e) < unat (fe_startblock x)"
    then have "fe_blockcount e = 0 \<or> \<not> (\<exists>r \<in> set free. run_blocks e \<subseteq> run_blocks r)"
      by (auto simp: run_blocks_def unat_gt_0 [symmetric] Ball_def
          intro!: exI [of _ "unat (fe_startblock e)"])
    with res alloc_extent_before_all [OF before] show ?thesis
      by (cases "fe_blockcount e = 0") (auto simp: alloc_extent_def)
  qed
next
  case False
  then have nz: "fe_blockcount e \<noteq> 0" by blast
  from False obtain L r R where free: "free = L @ r # R" and cut:
    "\<forall>x \<in> set L. unat (fe_startblock x) \<le> unat (fe_startblock e)"
    "unat (fe_startblock r) \<le> unat (fe_startblock e)"
    "\<forall>x \<in> set R. unat (fe_startblock e) < unat (fe_startblock x)"
    using alloc_cut [OF ok, of e] by (metis not_less)
  have pos: "0 < unat (fe_blockcount e)" using nz by (simp add: unat_gt_0)
  from res have stop: "fe_stop e > fe_stop r" "\<exists>m. err = CorruptLog m"
    unfolding free alloc_extent_at [OF cut nz] by (auto split: if_splits)
  have "\<not> run_blocks e \<subseteq> run_blocks x" if "x \<in> set free" for x
  proof
    assume sub: "run_blocks e \<subseteq> run_blocks x"
    have "unat (fe_startblock e) \<in> run_blocks x" "fe_stop e - 1 \<in> run_blocks x"
      using sub pos by (auto simp: run_blocks_def)
    then have x: "unat (fe_startblock x) \<le> unat (fe_startblock e)" "fe_stop e \<le> fe_stop x"
      using pos by (auto simp: run_blocks_def)
    moreover have "x \<in> set L \<Longrightarrow> fe_stop x \<le> unat (fe_startblock r)"
      using ok by (auto simp: free free_ok_append free_ok_Cons)
    ultimately show False
      using that stop(1) cut(2,3) pos by (auto simp: free dest: leD)
  qed
  with stop(2) show ?thesis by blast
qed

section \<open>Freeing and allocating undo each other\<close>

lemma FreeExtent_eqI:
  "unat (fe_startblock a) = unat (fe_startblock b) \<Longrightarrow> unat (fe_blockcount a) = unat (fe_blockcount b) \<Longrightarrow>
     a = (b :: FreeExtent)"
  by (simp add: word_eq_unat [symmetric])

text \<open>The four outcomes, undone one by one at the place of the cut.\<close>

lemma undo_at:
  assumes ok: "free_ok n (L @ e # R)" and n: "n < 2 ^ 32"
  shows "alloc_extent (L @ e # R) e = Inr (L @ R, ConsumedWhole)"
    and "R = a # R' \<Longrightarrow> fe_stop e = unat (fe_startblock a) \<Longrightarrow>
      alloc_extent (L @ e\<lparr>fe_blockcount := fe_blockcount e + fe_blockcount a\<rparr> # R') e
        = Inr (L @ R, TookFront)"
    and "L = L' @ [b] \<Longrightarrow> fe_stop b = unat (fe_startblock e) \<Longrightarrow>
      alloc_extent (L' @ b\<lparr>fe_blockcount := fe_blockcount b + fe_blockcount e\<rparr> # R) e
        = Inr (L @ R, TookBack)"
proof -
  have nz: "fe_blockcount e \<noteq> 0" "0 < unat (fe_blockcount e)"
    using ok by (auto simp: free_ok_append free_ok_Cons)
  have pre: "\<forall>x \<in> set L. unat (fe_startblock x) \<le> unat (fe_startblock e)"
    and post: "\<forall>x \<in> set R. unat (fe_startblock e) < unat (fe_startblock x)"
    using ok by (auto simp: free_ok_append free_ok_Cons)
  show "alloc_extent (L @ e # R) e = Inr (L @ R, ConsumedWhole)"
    using alloc_extent_at [OF pre _ post nz(1), of e] by simp
  {
    assume R: "R = a # R'" and touch: "fe_stop e = unat (fe_startblock a)"
    have a: "0 < unat (fe_blockcount a)" "unat (fe_blockcount e) + unat (fe_blockcount a) \<le> n"
      using ok touch by (auto simp: R free_ok_append free_ok_Cons run_fits_def)
    then have c: "unat (fe_blockcount e + fe_blockcount a) = unat (fe_blockcount e) + unat (fe_blockcount a)"
      using n by (intro unat_add_fits)
    have "unat (fe_startblock e + fe_blockcount e) = unat (fe_startblock a)"
      using touch unat_lt32 [of "fe_startblock a"] by (subst unat_add_small) simp_all
    then have "\<lparr>fe_startblock = fe_startblock e + fe_blockcount e,
        fe_blockcount = fe_blockcount e + fe_blockcount a - fe_blockcount e\<rparr> = a"
      using c by (intro FreeExtent_eqI) (simp_all add: unat_sub_le)
    then show "alloc_extent (L @ e\<lparr>fe_blockcount := fe_blockcount e + fe_blockcount a\<rparr> # R') e
        = Inr (L @ R, TookFront)"
      using alloc_extent_at [OF pre _ _ nz(1), of "e\<lparr>fe_blockcount := fe_blockcount e + fe_blockcount a\<rparr>" R']
        post a c by (simp add: R)
  next
    assume L: "L = L' @ [b]" and touch: "fe_stop b = unat (fe_startblock e)"
    have b: "0 < unat (fe_blockcount b)" "unat (fe_blockcount b) + unat (fe_blockcount e) \<le> n"
      using ok touch by (auto simp: L free_ok_append free_ok_Cons run_fits_def)
    then have c: "unat (fe_blockcount b + fe_blockcount e) = unat (fe_blockcount b) + unat (fe_blockcount e)"
      using n by (intro unat_add_fits)
    have "fe_startblock e \<noteq> fe_startblock b" using b(1) touch by auto
    then show "alloc_extent (L' @ b\<lparr>fe_blockcount := fe_blockcount b + fe_blockcount e\<rparr> # R) e
        = Inr (L @ R, TookBack)"
      using alloc_extent_at [OF _ _ post nz(1), of L' "b\<lparr>fe_blockcount := fe_blockcount b + fe_blockcount e\<rparr>"]
        pre b c touch by (simp add: L)
  }
qed

lemma undo_at_joined:
  assumes ok: "free_ok n (L @ b # e # a # R)" and n: "n < 2 ^ 32"
    and touch: "fe_stop b = unat (fe_startblock e)" "fe_stop e = unat (fe_startblock a)"
  shows "alloc_extent (L @ b\<lparr>fe_blockcount := fe_blockcount b
        + (fe_blockcount e + fe_blockcount a)\<rparr> # R) e = Inr (L @ b # a # R, SplitInTwo)"
proof -
  let ?r = "b\<lparr>fe_blockcount := fe_blockcount b + (fe_blockcount e + fe_blockcount a)\<rparr>"
  have pos: "0 < unat (fe_blockcount a)" "0 < unat (fe_blockcount b)" "fe_blockcount e \<noteq> 0"
    and sum: "unat (fe_blockcount b) + (unat (fe_blockcount e) + unat (fe_blockcount a)) \<le> n"
    using ok touch by (auto simp: free_ok_append free_ok_Cons run_fits_def)
  then have ea: "unat (fe_blockcount e + fe_blockcount a) = unat (fe_blockcount e) + unat (fe_blockcount a)"
    using n by (intro unat_add_fits [of _ _ n]) simp_all
  then have c: "unat (fe_blockcount ?r) = unat (fe_blockcount b) + unat (fe_blockcount e) + unat (fe_blockcount a)"
    using sum n by (simp add: unat_add_fits [of _ _ n])
  have a: "fe_stop a \<le> n" "fe_stop ?r = fe_stop a"
    using ok touch c by (auto simp: free_ok_append free_ok_Cons run_fits_def)
  have "\<lparr>fe_startblock = ucast (fe_end e), fe_blockcount = ucast (fe_end ?r - fe_end e)\<rparr> = a"
    using split_pieces [of e ?r n] a touch pos(1) n by (intro FreeExtent_eqI) simp_all
  moreover have "?r\<lparr>fe_blockcount := fe_startblock e - fe_startblock ?r\<rparr> = b"
    using touch(1) by (intro FreeExtent_eqI) (simp_all add: unat_sub_le)
  moreover have "fe_startblock e \<noteq> fe_startblock ?r" using touch(1) pos(2) by auto
  moreover have "\<forall>x \<in> set L. unat (fe_startblock x) \<le> unat (fe_startblock e)"
    "unat (fe_startblock ?r) \<le> unat (fe_startblock e)"
    "\<forall>x \<in> set R. unat (fe_startblock e) < unat (fe_startblock x)"
    using ok touch pos by (auto simp: free_ok_append free_ok_Cons)
  ultimately show ?thesis
    using alloc_extent_at [of L e ?r R] pos a touch by simp
qed

text \<open>Taking back what was just freed restores the group exactly, whichever of the four ways the
  freed extent was merged: the records are the very ones the free started from, and the way the
  allocation cut them is the mirror of the way the free joined them.
\<close>

lemma free_then_alloc:
  assumes "free_ok n free" "n < 2 ^ 32" "run_fits n e"
    and "free_extent free e = Inr (free', how)"
  shows "alloc_extent free' e = Inr (free, undo_freed how)"
proof -
  have nz: "fe_blockcount e \<noteq> 0" using assms(4) by (auto simp: free_extent_def)
  obtain L R where cut: "free = L @ R"
    "partition_point (\<lambda>x. fe_startblock x < fe_startblock e) (L @ R) = length L"
    using free_cut [OF assms(1)] by metis
  note sides = free_extent_cut_Inr [OF assms(1) [unfolded cut(1)] nz cut(2) assms(4) [unfolded cut(1)]]
  have ok: "free_ok n (L @ e # R)"
    using assms(1,3) nz sides by (auto simp: cut(1) free_ok_append free_ok_Cons unat_gt_0)
  have rec: "\<lparr>fe_startblock = fe_startblock e, fe_blockcount = fe_blockcount a + fe_blockcount e\<rparr>
      = e\<lparr>fe_blockcount := fe_blockcount e + fe_blockcount a\<rparr>" for a
    by (simp add: add.commute)
  note undo = undo_at [OF ok assms(2)]
  have joined: "alloc_extent (butlast L @ (last L)\<lparr>fe_blockcount := fe_blockcount (last L)
        + (fe_blockcount e + fe_blockcount (hd R))\<rparr> # tl R) e = Inr (L @ R, SplitInTwo)"
    if "L \<noteq> []" "R \<noteq> []" "fe_stop (last L) = unat (fe_startblock e)"
      "fe_stop e = unat (fe_startblock (hd R))"
    using undo_at_joined [of n "butlast L" "last L" e "hd R" "tl R"] ok assms(2) that
    by (cases L rule: rev_cases; cases R) simp_all
  show ?thesis
    using assms(4) undo(1) undo(2) [of "hd R" "tl R"] undo(3) [of "butlast L" "last L"] joined
    unfolding cut(1) free_extent_at [OF cut(2) nz] rec
    by (auto split: if_splits)
qed

lemma free_then_alloc_witness:
  "free_ok 100 [\<lparr>fe_startblock = 10, fe_blockcount = 5\<rparr>, \<lparr>fe_startblock = 20, fe_blockcount = 5\<rparr>] \<and>
   alloc_extent [\<lparr>fe_startblock = 10, fe_blockcount = 15\<rparr>] \<lparr>fe_startblock = 15, fe_blockcount = 5\<rparr>
     = Inr ([\<lparr>fe_startblock = 10, fe_blockcount = 5\<rparr>, \<lparr>fe_startblock = 20, fe_blockcount = 5\<rparr>], SplitInTwo)"
proof -
  let ?free = "[\<lparr>fe_startblock = 10, fe_blockcount = 5\<rparr>, \<lparr>fe_startblock = 20, fe_blockcount = 5\<rparr>]"
  have ok: "free_ok 100 ?free" by (simp add: free_ok_def run_fits_def)
  have "free_extent ?free \<lparr>fe_startblock = 15, fe_blockcount = 5\<rparr>
      = Inr ([\<lparr>fe_startblock = 10, fe_blockcount = 15\<rparr>], JoinedTwo)" by code_simp
  with ok free_then_alloc [OF ok, of "\<lparr>fe_startblock = 15, fe_blockcount = 5\<rparr>"] show ?thesis
    by (simp add: run_fits_def)
qed

section \<open>The canonical form\<close>

lemma coalesced_append:
  "coalesced (xs @ ys) \<longleftrightarrow> coalesced xs \<and> coalesced ys \<and>
     (\<forall>a \<in> set xs. \<forall>b \<in> set ys. fe_stop a < unat (fe_startblock b))"
  by (auto simp: coalesced_def sorted_wrt_append)

lemma coalesced_Cons:
  "coalesced (x # ys) \<longleftrightarrow> coalesced ys \<and> (\<forall>b \<in> set ys. fe_stop x < unat (fe_startblock b))"
  by (auto simp: coalesced_def)

lemma coalesced_Nil [simp]: "coalesced []"
  by (simp add: coalesced_def)

lemma in_free_blocks: "i \<in> free_blocks xs \<longleftrightarrow> (\<exists>x \<in> set xs. i \<in> run_blocks x)"
  by (auto simp: free_blocks_def)

text \<open>The first run of a coalesced list is the first run of its blocks.\<close>

lemma coalesced_first_le:
  assumes "free_ok n (x # xs)" "free_ok m (y # ys)" "coalesced (x # xs)"
    and "free_blocks (y # ys) \<subseteq> free_blocks (x # xs)"
  shows "unat (fe_startblock x) \<le> unat (fe_startblock y)"
    and "unat (fe_startblock y) = unat (fe_startblock x) \<Longrightarrow> fe_stop y \<le> fe_stop x"
proof -
  have "unat (fe_startblock y) \<in> run_blocks y"
    using assms(2) by (auto simp: run_blocks_def free_ok_Cons)
  then have "unat (fe_startblock y) \<in> free_blocks (x # xs)" using assms(4) by auto
  then show "unat (fe_startblock x) \<le> unat (fe_startblock y)"
    using assms(1) by (auto simp: run_blocks_def free_ok_Cons in_free_blocks)
  assume eq: "unat (fe_startblock y) = unat (fe_startblock x)"
  show "fe_stop y \<le> fe_stop x"
  proof (rule ccontr)
    assume "\<not> fe_stop y \<le> fe_stop x"
    then have "fe_stop x \<in> run_blocks y" using eq by (auto simp: run_blocks_def)
    then have "fe_stop x \<in> free_blocks (x # xs)" using assms(4) by auto
    then show False
      using assms(3) by (auto simp: run_blocks_def coalesced_Cons in_free_blocks)
  qed
qed

lemma canonical_form:
  "free_ok n xs \<Longrightarrow> free_ok m ys \<Longrightarrow> coalesced xs \<Longrightarrow> coalesced ys \<Longrightarrow>
     free_blocks xs = free_blocks ys \<Longrightarrow> xs = ys"
proof (induction xs arbitrary: ys)
  case Nil
  then show ?case by (cases ys) (auto simp: free_ok_Cons run_blocks_def)
next
  case (Cons x xs)
  show ?case
  proof (cases ys)
    case Nil
    with Cons.prems show ?thesis by (auto simp: free_ok_Cons run_blocks_def)
  next
    case ys: (Cons y ys')
    have sub: "free_blocks (y # ys') \<subseteq> free_blocks (x # xs)" "free_blocks (x # xs) \<subseteq> free_blocks (y # ys')"
      using Cons.prems(5) by (simp_all add: ys)
    note le = coalesced_first_le [OF Cons.prems(1) Cons.prems(2) [unfolded ys] Cons.prems(3) sub(1)]
      coalesced_first_le [OF Cons.prems(2) [unfolded ys] Cons.prems(1) Cons.prems(4) [unfolded ys] sub(2)]
    have start: "unat (fe_startblock x) = unat (fe_startblock y)" using le(1,3) by simp
    have eq: "x = y" using le(2,4) start by (intro FreeExtent_eqI) simp_all
    have "run_blocks x \<inter> free_blocks xs = {}" "run_blocks x \<inter> free_blocks ys' = {}"
      using Cons.prems by (fastforce simp: ys eq free_ok_Cons run_blocks_def in_free_blocks)+
    then have "free_blocks xs = free_blocks ys'" using Cons.prems(5) by (auto simp: ys eq)
    with Cons.IH [of ys'] Cons.prems show ?thesis by (auto simp: ys eq free_ok_Cons coalesced_Cons)
  qed
qed

text \<open>A run between the runs of a coalesced list that touches neither neighbour can go in; one that
  is widened to a neighbour's far edge takes the neighbour's place.\<close>

lemma coalesced_put:
  "coalesced L \<Longrightarrow> coalesced R \<Longrightarrow> \<forall>x \<in> set L. fe_stop x < unat (fe_startblock r) \<Longrightarrow>
     \<forall>y \<in> set R. fe_stop r < unat (fe_startblock y) \<Longrightarrow> \<forall>x \<in> set L. \<forall>y \<in> set R. fe_stop x < unat (fe_startblock y) \<Longrightarrow>
     coalesced (L @ r # R)"
  by (auto simp: coalesced_append coalesced_Cons)

lemma coalesced_gaps:
  assumes "coalesced (L @ R)"
  shows "coalesced L" "coalesced R" "coalesced (butlast L)" "coalesced (tl R)"
    "L \<noteq> [] \<Longrightarrow> \<forall>x \<in> set (butlast L). fe_stop x < unat (fe_startblock (last L))"
    "R \<noteq> [] \<Longrightarrow> \<forall>y \<in> set (tl R). fe_stop (hd R) < unat (fe_startblock y)"
    "\<forall>x \<in> set L. \<forall>y \<in> set R. fe_stop x < unat (fe_startblock y)"
    "\<forall>x \<in> set (butlast L). \<forall>y \<in> set (tl R). fe_stop x < unat (fe_startblock y)"
    "\<forall>x \<in> set (butlast L). \<forall>y \<in> set R. fe_stop x < unat (fe_startblock y)"
    "\<forall>x \<in> set L. \<forall>y \<in> set (tl R). fe_stop x < unat (fe_startblock y)"
  using assms by (cases L rule: rev_cases; cases R; auto simp: coalesced_append coalesced_Cons)+

lemma free_extent_coalesced:
  assumes ok: "free_ok n free" and n: "n < 2 ^ 32" and fits: "run_fits n e"
    and co: "coalesced free" and res: "free_extent free e = Inr (free', how)"
  shows "coalesced free'"
proof -
  have nz: "fe_blockcount e \<noteq> 0" using res by (auto simp: free_extent_def)
  obtain L R where cut: "free = L @ R"
    "partition_point (\<lambda>x. fe_startblock x < fe_startblock e) (L @ R) = length L"
    using free_cut [OF ok] by metis
  note sides = free_extent_cut_Inr [OF ok [unfolded cut(1)] nz cut(2) res [unfolded cut(1)]]
  note gaps = coalesced_gaps [OF co [unfolded cut(1)]]
  have pos: "0 < unat (fe_blockcount e)" using nz by (simp add: unat_gt_0)
  have farL: "\<forall>x \<in> set L. fe_stop x < unat (fe_startblock e)"
    if "\<not> (L \<noteq> [] \<and> fe_stop (last L) = unat (fe_startblock e))"
    using that gaps(5) sides(1) by (cases L rule: rev_cases) fastforce+
  have farR: "\<forall>y \<in> set R. fe_stop e < unat (fe_startblock y)"
    if "\<not> (R \<noteq> [] \<and> fe_stop e = unat (fe_startblock (hd R)))"
    using that gaps(6) sides(2) by (cases R) fastforce+
  have stopR: "R \<noteq> [] \<Longrightarrow> fe_stop (hd R) \<le> n"
    using ok by (cases R) (auto simp: cut(1) free_ok_append free_ok_Cons run_fits_def)
  have joinR: "unat (fe_blockcount e + fe_blockcount (hd R)) = unat (fe_blockcount e) + unat (fe_blockcount (hd R))"
    if "R \<noteq> []" "fe_stop e = unat (fe_startblock (hd R))"
    using stopR [OF that(1)] that(2) n by (intro unat_add_fits [of _ _ n]) simp_all
  have joinL: "unat (fe_blockcount (last L) + fe_blockcount e) = unat (fe_blockcount (last L)) + unat (fe_blockcount e)"
    if "fe_stop (last L) = unat (fe_startblock e)"
    using fits that n by (intro unat_add_fits [of _ _ n]) (simp_all add: run_fits_def)
  have joinLR: "unat (fe_blockcount (last L) + (fe_blockcount e + fe_blockcount (hd R)))
      = unat (fe_blockcount (last L)) + (unat (fe_blockcount e) + unat (fe_blockcount (hd R)))"
    if "fe_stop (last L) = unat (fe_startblock e)" "R \<noteq> []" "fe_stop e = unat (fe_startblock (hd R))"
    using joinR [OF that(2,3)] stopR [OF that(2)] that n
    by (subst unat_add_fits [of _ _ n]) simp_all
  consider "how = JoinedTwo" | "how = MergedWithPreceding" | "how = MergedWithFollowing" | "how = Inserted"
    by (cases how) auto
  then show ?thesis
  proof cases
    case 1
    then show ?thesis using res joinLR gaps unfolding cut(1) free_extent_at [OF cut(2) nz]
      by (auto split: if_splits intro!: coalesced_put)
  next
    case 2
    then show ?thesis using res joinL farR gaps unfolding cut(1) free_extent_at [OF cut(2) nz]
      by (auto split: if_splits intro!: coalesced_put)
  next
    case 3
    then show ?thesis using res joinR farL gaps unfolding cut(1) free_extent_at [OF cut(2) nz]
      by (auto split: if_splits intro!: coalesced_put simp: add.commute)
  next
    case 4
    then show ?thesis using res farL farR gaps unfolding cut(1) free_extent_at [OF cut(2) nz]
      by (auto split: if_splits intro!: coalesced_put)
  qed
qed

lemma alloc_extent_coalesced:
  assumes ok: "free_ok n free" and n: "n < 2 ^ 32" and co: "coalesced free"
    and res: "alloc_extent free e = Inr (free', how)"
  shows "coalesced free'"
proof -
  have nz: "fe_blockcount e \<noteq> 0" using res by (auto simp: alloc_extent_def)
  have "\<exists>x \<in> set free. unat (fe_startblock x) \<le> unat (fe_startblock e)"
    using res alloc_extent_before_all [OF _ nz, of free] by force
  then obtain L r R where free: "free = L @ r # R" and cut:
    "\<forall>x \<in> set L. unat (fe_startblock x) \<le> unat (fe_startblock e)"
    "unat (fe_startblock r) \<le> unat (fe_startblock e)"
    "\<forall>x \<in> set R. unat (fe_startblock e) < unat (fe_startblock x)"
    using alloc_cut [OF ok] by metis
  have r: "0 < unat (fe_blockcount r)" "run_fits n r" using ok by (auto simp: free free_ok_append free_ok_Cons)
  have pos: "0 < unat (fe_blockcount e)" using nz by (simp add: unat_gt_0)
  from alloc_extent_pieces [OF r n cut nz res [unfolded free]] obtain P where
    P: "free' = L @ P @ R" "free_ok n P" "fe_stop e \<le> fe_stop r"
      "\<forall>p \<in> set P. unat (fe_startblock r) \<le> unat (fe_startblock p) \<and> fe_stop p \<le> fe_stop r"
      "free_blocks P = run_blocks r - run_blocks e" by blast
  have "coalesced P"
  proof -
    have "length P < 2 \<or> (\<exists>p q. P = [p, q] \<and> fe_stop p = unat (fe_startblock e) \<and>
        unat (fe_startblock q) = fe_stop e)"
      using res P(3) cut(2) split_pieces [of e r n] r(2) n
      unfolding free P(1) alloc_extent_at [OF cut nz]
      by (auto split: if_splits simp: unat_sub_le run_fits_def)
    with pos show ?thesis
      by (cases P rule: list.exhaust; cases "tl P") (auto simp: coalesced_Cons)
  qed
  with co P(4) show ?thesis
    by (fastforce simp: free P(1) coalesced_append coalesced_Cons)
qed

text \<open>An interval of free blocks lies in one run of a coalesced list.\<close>

lemma coalesced_in_one_run:
  assumes "free_ok n free" "coalesced free" "0 < unat (fe_blockcount e)"
    and sub: "run_blocks e \<subseteq> free_blocks free"
  shows "\<exists>r \<in> set free. run_blocks e \<subseteq> run_blocks r"
proof -
  have "unat (fe_startblock e) \<in> run_blocks e" using assms(3) by (auto simp: run_blocks_def)
  then obtain r where r: "r \<in> set free" "unat (fe_startblock e) \<in> run_blocks r"
    using sub in_free_blocks by blast
  have "fe_stop e \<le> fe_stop r"
  proof (rule ccontr)
    assume "\<not> fe_stop e \<le> fe_stop r"
    then have "fe_stop r \<in> run_blocks e" using r(2) by (auto simp: run_blocks_def)
    then obtain q where q: "q \<in> set free" "fe_stop r \<in> run_blocks q"
      using sub in_free_blocks by blast
    then have "q \<noteq> r" by (auto simp: run_blocks_def)
    with r(1) q(1) obtain A B C where "free = A @ r # B @ q # C \<or> free = A @ q # B @ r # C"
      by (metis (no_types, lifting) in_set_conv_decomp set_ConsD Un_iff append_Cons append_assoc set_append)
    with assms(2) q(2) r(2) show False
      by (auto simp: coalesced_append coalesced_Cons run_blocks_def)
  qed
  with r show ?thesis by (intro bexI [of _ r]) (auto simp: run_blocks_def)
qed

text \<open>Freeing what was just allocated restores a group in the kernel's form (runs that touch are
  one run): the free is accepted, and the records are the very ones the allocation started from.
\<close>

lemma alloc_then_free:
  assumes "free_ok n free" "n < 2 ^ 32" "coalesced free" "run_fits n e"
    and "alloc_extent free e = Inr (free', how)"
  shows "\<exists>how'. free_extent free' e = Inr (free, how')"
proof -
  note al = alloc_extent_Inr [OF assms(1,2,5)]
  have "free_extent free' e \<noteq> Inl err" for err
    using free_extent_Inl [OF al(1), of e err] al(2,5) by auto
  then obtain fin how' where res: "free_extent free' e = Inr (fin, how')"
    by (cases "free_extent free' e") (auto simp: prod_cases3)
  note fr = free_extent_Inr [OF al(1) assms(2,4) res]
  have "run_blocks e \<subseteq> free_blocks free" using al(3) by (auto simp: free_blocks_def)
  with fr(2) al(2) have "free_blocks fin = free_blocks free" by blast
  moreover have "coalesced fin"
    using free_extent_coalesced [OF al(1) assms(2,4) _ res] alloc_extent_coalesced [OF assms(1,2,3,5)]
    by blast
  ultimately have "fin = free" using canonical_form fr(1) assms(1,3) by blast
  with res show ?thesis by blast
qed

lemma alloc_then_free_witness:
  "coalesced [\<lparr>fe_startblock = 10, fe_blockcount = 15\<rparr>] \<and>
   (\<exists>how. free_extent [\<lparr>fe_startblock = 10, fe_blockcount = 5\<rparr>, \<lparr>fe_startblock = 20, fe_blockcount = 5\<rparr>]
     \<lparr>fe_startblock = 15, fe_blockcount = 5\<rparr> = Inr ([\<lparr>fe_startblock = 10, fe_blockcount = 15\<rparr>], how))"
proof -
  let ?free = "[\<lparr>fe_startblock = 10, fe_blockcount = 15\<rparr>]"
  have ok: "free_ok 100 ?free" "coalesced ?free" by (simp_all add: free_ok_def run_fits_def coalesced_def)
  have "alloc_extent ?free \<lparr>fe_startblock = 15, fe_blockcount = 5\<rparr>
      = Inr ([\<lparr>fe_startblock = 10, fe_blockcount = 5\<rparr>, \<lparr>fe_startblock = 20, fe_blockcount = 5\<rparr>], SplitInTwo)"
    by code_simp
  with ok alloc_then_free [OF ok(1) _ ok(2), of "\<lparr>fe_startblock = 15, fe_blockcount = 5\<rparr>"] show ?thesis
    by (simp add: run_fits_def)
qed

section \<open>The properties of a group's free space\<close>

text \<open>Freeing an extent does exactly what it means to.  On an ordered list of the group's runs, an
  extent inside the group is accepted exactly when it is not empty and none of its blocks is free
  already; then the list stays ordered and inside the group, its blocks are the old ones and the
  extent's, and its total grows by the extent's length.  A refusal is an error value and names
  no new list.
\<close>

lemma free_extent_correct:
  assumes "free_ok n free" "n < 2 ^ 32" "run_fits n e"
  shows "case free_extent free e of
      Inl err \<Rightarrow> (\<exists>m. err = CorruptLog m) \<and>
        (fe_blockcount e = 0 \<or> free_blocks free \<inter> run_blocks e \<noteq> {})
    | Inr (free', how) \<Rightarrow> fe_blockcount e \<noteq> 0 \<and> free_blocks free \<inter> run_blocks e = {} \<and>
        free_ok n free' \<and> free_blocks free' = free_blocks free \<union> run_blocks e \<and>
        total free' = total free + unat (fe_blockcount e)"
  using free_extent_Inl [OF assms(1)] free_extent_Inr [OF assms]
  by (auto split: sum.splits)

lemma free_extent_correct_witness:
  "free_ok 100 [\<lparr>fe_startblock = 10, fe_blockcount = 5\<rparr>] \<and>
   free_extent [\<lparr>fe_startblock = 10, fe_blockcount = 5\<rparr>] \<lparr>fe_startblock = 15, fe_blockcount = 3\<rparr>
     = Inr ([\<lparr>fe_startblock = 10, fe_blockcount = 8\<rparr>], MergedWithPreceding) \<and>
   free_blocks [\<lparr>fe_startblock = 10, fe_blockcount = 8\<rparr>] = {10 ..< 15} \<union> {15 ..< 18}"
proof -
  let ?free = "[\<lparr>fe_startblock = 10, fe_blockcount = 5\<rparr>]"
  let ?e = "\<lparr>fe_startblock = 15, fe_blockcount = 3\<rparr>"
  have ok: "free_ok 100 ?free" by (simp add: free_ok_def run_fits_def)
  have res: "free_extent ?free ?e = Inr ([\<lparr>fe_startblock = 10, fe_blockcount = 8\<rparr>], MergedWithPreceding)"
    by code_simp
  have "run_fits 100 ?e" by (simp add: run_fits_def)
  from free_extent_correct [OF ok _ this] res ok show ?thesis by simp
qed

text \<open>Allocating an extent does exactly what it means to.  On an ordered list of runs in the form
  the kernel keeps (no two touch), an extent is handed out exactly when it is not empty and
  every one of its blocks is free; then the list stays ordered, inside the group and in that form,
  it loses exactly the extent's blocks, and its total drops by the extent's length.
\<close>

lemma alloc_extent_correct:
  assumes "free_ok n free" "n < 2 ^ 32" "coalesced free"
  shows "case alloc_extent free e of
      Inl err \<Rightarrow> (\<exists>m. err = CorruptLog m) \<and>
        (fe_blockcount e = 0 \<or> \<not> run_blocks e \<subseteq> free_blocks free)
    | Inr (free', how) \<Rightarrow> fe_blockcount e \<noteq> 0 \<and> run_blocks e \<subseteq> free_blocks free \<and>
        free_ok n free' \<and> coalesced free' \<and> free_blocks free' = free_blocks free - run_blocks e \<and>
        total free' + unat (fe_blockcount e) = total free"
proof (cases "alloc_extent free e")
  case (Inl err)
  with alloc_extent_Inl [OF assms(1) Inl] coalesced_in_one_run [OF assms(1,3)] show ?thesis
    by (auto simp: unat_gt_0)
next
  case (Inr p)
  obtain free' how where p: "p = (free', how)" by force
  note al = alloc_extent_Inr [OF assms(1,2) Inr [unfolded p]]
  have "run_blocks e \<subseteq> free_blocks free" using al(3) by (auto simp: free_blocks_def)
  with al alloc_extent_coalesced [OF assms Inr [unfolded p]] Inr show ?thesis by (simp add: p)
qed

lemma alloc_extent_correct_witness:
  "free_ok 100 [\<lparr>fe_startblock = 10, fe_blockcount = 8\<rparr>] \<and>
   alloc_extent [\<lparr>fe_startblock = 10, fe_blockcount = 8\<rparr>] \<lparr>fe_startblock = 10, fe_blockcount = 3\<rparr>
     = Inr ([\<lparr>fe_startblock = 13, fe_blockcount = 5\<rparr>], TookFront) \<and>
   free_blocks [\<lparr>fe_startblock = 13, fe_blockcount = 5\<rparr>] = {10 ..< 18} - {10 ..< 13}"
proof -
  let ?free = "[\<lparr>fe_startblock = 10, fe_blockcount = 8\<rparr>]"
  let ?e = "\<lparr>fe_startblock = 10, fe_blockcount = 3\<rparr>"
  have ok: "free_ok 100 ?free" "coalesced ?free" by (simp_all add: free_ok_def run_fits_def coalesced_def)
  have res: "alloc_extent ?free ?e = Inr ([\<lparr>fe_startblock = 13, fe_blockcount = 5\<rparr>], TookFront)"
    by code_simp
  from alloc_extent_correct [OF ok(1) _ ok(2), of ?e] res ok show ?thesis by simp
qed

interpretation group_space: block_ledger
  "\<lambda>free. free_ok (unat len) free \<and> coalesced free" free_blocks "run_fits (unat len)" run_blocks
  free_extent alloc_extent
  for len :: u32
proof
  fix s s' :: "FreeExtent list" and e g
  assume inv: "free_ok (unat len) s \<and> coalesced s" and fits: "run_fits (unat len) e"
  have n: "unat len < 2 ^ 32" using unat_lt32 [of len] by simp
  show "free_extent s e = Inr (s', g) \<Longrightarrow>
      (free_ok (unat len) s' \<and> coalesced s') \<and> free_blocks s \<inter> run_blocks e = {} \<and>
      free_blocks s' = free_blocks s \<union> run_blocks e"
    using free_extent_Inr [of "unat len" s e s' g] free_extent_coalesced [of "unat len" s e s' g]
      inv fits n by simp
  show "free_blocks s \<inter> run_blocks e \<noteq> {} \<Longrightarrow> \<exists>err. free_extent s e = Inl err"
    using free_extent_Inr(3) [of "unat len" s e] inv fits n
    by (cases "free_extent s e") (auto simp: prod.split)
next
  fix s s' :: "FreeExtent list" and e t
  assume inv: "free_ok (unat len) s \<and> coalesced s" and res: "alloc_extent s e = Inr (s', t)"
  have n: "unat len < 2 ^ 32" using unat_lt32 [of len] by simp
  note al = alloc_extent_Inr [OF _ n res]
  show "(free_ok (unat len) s' \<and> coalesced s') \<and> run_blocks e \<subseteq> free_blocks s \<and>
      free_blocks s' = free_blocks s - run_blocks e"
    using al(1-3) alloc_extent_coalesced [OF _ n _ res] inv by (fastforce simp: in_free_blocks)
qed

text \<open>C3. No block is ever in two places or lost.  Whatever sequence of allocations and frees a client
  makes on a group (freeing only what it holds), if every one of them is accepted then the free
  runs stay well formed, no block is both free and held, and the free and held blocks together
  are the ones there were at the start.
\<close>

theorem free_space_conserved:
  fixes len :: u32
  assumes "free_ok (unat len) free" "coalesced free" "free_blocks free \<inter> held = {}"
    and "disciplined (run_fits (unat len)) run_blocks held ops"
    and "run_space free_extent alloc_extent run_blocks free held ops = Inr (free', held')"
  shows "free_ok (unat len) free' \<and> coalesced free' \<and> free_blocks free' \<inter> held' = {} \<and>
    free_blocks free' \<union> held' = free_blocks free \<union> held"
  using group_space.run_conserves [of len free held ops free' held'] assms by blast

lemma free_space_conserved_witness:
  "run_space free_extent alloc_extent run_blocks [\<lparr>fe_startblock = 10, fe_blockcount = 8\<rparr>] {}
     [Take \<lparr>fe_startblock = 12, fe_blockcount = 2\<rparr>, Give \<lparr>fe_startblock = 12, fe_blockcount = 1\<rparr>]
     = Inr ([\<lparr>fe_startblock = 10, fe_blockcount = 3\<rparr>, \<lparr>fe_startblock = 14, fe_blockcount = 4\<rparr>], {13}) \<and>
   free_blocks [\<lparr>fe_startblock = 10, fe_blockcount = 3\<rparr>, \<lparr>fe_startblock = 14, fe_blockcount = 4\<rparr>] \<union> {13}
     = {10 ..< 18}"
proof -
  let ?free = "[\<lparr>fe_startblock = 10, fe_blockcount = 8\<rparr>]"
  let ?ops = "[Take \<lparr>fe_startblock = 12, fe_blockcount = 2\<rparr>, Give \<lparr>fe_startblock = 12, fe_blockcount = 1\<rparr>]"
  let ?free' = "[\<lparr>fe_startblock = 10, fe_blockcount = 3\<rparr>, \<lparr>fe_startblock = 14, fe_blockcount = 4\<rparr>]"
  have "alloc_extent ?free \<lparr>fe_startblock = 12, fe_blockcount = 2\<rparr> =
      Inr ([\<lparr>fe_startblock = 10, fe_blockcount = 2\<rparr>, \<lparr>fe_startblock = 14, fe_blockcount = 4\<rparr>], SplitInTwo)"
    "free_extent [\<lparr>fe_startblock = 10, fe_blockcount = 2\<rparr>, \<lparr>fe_startblock = 14, fe_blockcount = 4\<rparr>]
      \<lparr>fe_startblock = 12, fe_blockcount = 1\<rparr> = Inr (?free', MergedWithPreceding)"
    by code_simp+
  moreover have "{12 ..< 14} - {12 ..< 13} = {13::nat}" by auto
  ultimately have run: "run_space free_extent alloc_extent run_blocks ?free {} ?ops = Inr (?free', {13})"
    by simp
  have ok: "free_ok (unat (100 :: u32)) ?free" "coalesced ?free"
    "disciplined (run_fits (unat (100 :: u32))) run_blocks {} ?ops"
    by (simp_all add: free_ok_def run_fits_def coalesced_def)
  from free_space_conserved [OF ok(1,2) _ ok(3) run] run show ?thesis by simp
qed

section \<open>Reading the records back, and the header's totals\<close>

lemma check_runs_from_ok:
  "check_runs_from len headers pe rs = Inr () \<longleftrightarrow>
     free_ok (unat len) rs \<and> (\<forall>r \<in> set rs. unat headers < unat (fe_startblock r) \<and> unat pe \<le> unat (fe_startblock r))"
proof (induction rs arbitrary: pe)
  case Nil
  then show ?case by simp
next
  case (Cons r rs)
  then show ?case
    by (auto simp: Let_def to_nat free_ok_Cons run_fits_def unat_gt_0 [symmetric] not_le not_less)
qed

text \<open>The check made of a free-space tree before anything is taken from it accepts a list of
  records exactly when they are what the allocator relies on: non-empty runs in ascending order
  without overlap, past the group's headers and inside the group.
\<close>

lemma check_runs_exact:
  "check_runs len headers rs = Inr () \<longleftrightarrow>
     free_ok (unat len) rs \<and> free_blocks rs \<inter> {..unat headers} = {}"
proof -
  have "(\<forall>r \<in> set rs. unat headers < unat (fe_startblock r)) \<longleftrightarrow> free_blocks rs \<inter> {..unat headers} = {}"
    if "free_ok (unat len) rs"
  proof -
    have "unat (fe_startblock r) \<in> run_blocks r" if "r \<in> set rs" for r
      using \<open>free_ok (unat len) rs\<close> that by (auto simp: free_ok_def run_blocks_def)
    then show ?thesis by (fastforce simp: free_blocks_def run_blocks_def disjoint_iff not_le)
  qed
  then show ?thesis by (auto simp: check_runs_def check_runs_from_ok)
qed

lemma total_card: "free_ok n free \<Longrightarrow> total free = card (free_blocks free)"
proof (induction free)
  case Nil
  then show ?case by simp
next
  case (Cons e es)
  then have "run_blocks e \<inter> free_blocks es = {}"
    by (fastforce simp: free_ok_Cons run_blocks_def in_free_blocks)
  moreover have "finite (run_blocks e)" "finite (free_blocks es)" "card (run_blocks e) = unat (fe_blockcount e)"
    by (simp_all add: run_blocks_def free_blocks_def)
  ultimately show ?case using Cons by (simp add: card_Un_disjoint free_ok_Cons)
qed

lemma total_le: "free_ok n free \<Longrightarrow> total free \<le> n"
proof -
  assume ok: "free_ok n free"
  then have "free_blocks free \<subseteq> {..<n}"
    by (fastforce simp: free_blocks_def run_blocks_def free_ok_def run_fits_def)
  then show ?thesis using total_card [OF ok] card_mono [of "{..<n}"] by fastforce
qed

lemma unat_total_free: "total free < 2 ^ 64 \<Longrightarrow> unat (total_free free) = total free"
proof (induction free)
  case Nil
  then show ?case by (simp add: total_free_def)
next
  case (Cons e es)
  then have "unat (total_free es) = total es" by simp
  with Cons.prems show ?case by (simp add: total_free_def unat_add_small)
qed

text \<open>The totals written into the group's header are the group's: \<^verbatim>\<open>agf_freeblks\<close> is the number of
  free blocks, and \<^verbatim>\<open>agf_longest\<close> is the length of the longest run, zero for a group with nothing
  free; neither sum wraps.
\<close>

lemma header_totals:
  assumes "free_ok n free" "n < 2 ^ 32"
  shows "unat (total_free free) = card (free_blocks free) \<and>
    unat (longest free) = Max (insert 0 (set (map (\<lambda>e. unat (fe_blockcount e)) free)))"
proof
  show "unat (total_free free) = card (free_blocks free)"
    using unat_total_free [of free] total_le [OF assms(1)] assms(2) total_card [OF assms(1)] by simp
  show "unat (longest free) = Max (insert 0 (set (map (\<lambda>e. unat (fe_blockcount e)) free)))"
  proof (cases "free = []")
    case True
    then show ?thesis by (simp add: longest_def)
  next
    case False
    have "mono (unat :: u32 \<Rightarrow> nat)" by (simp add: mono_def word_le_nat_alt)
    from mono_Max_commute [OF this, of "set (map fe_blockcount free)"] False
    show ?thesis by (simp add: longest_def image_image)
  qed
qed

lemma header_totals_witness:
  "free_ok 100 [\<lparr>fe_startblock = 10, fe_blockcount = 3\<rparr>, \<lparr>fe_startblock = 14, fe_blockcount = 4\<rparr>] \<and>
   unat (total_free [\<lparr>fe_startblock = 10, fe_blockcount = 3\<rparr>, \<lparr>fe_startblock = 14, fe_blockcount = 4\<rparr>])
     = card ({10 ..< 13} \<union> {14 ..< 18} :: nat set)"
proof -
  let ?free = "[\<lparr>fe_startblock = 10, fe_blockcount = 3\<rparr>, \<lparr>fe_startblock = 14, fe_blockcount = 4\<rparr>]"
  have ok: "free_ok 100 ?free" by (simp add: free_ok_def run_fits_def)
  from header_totals [OF ok] ok show ?thesis by simp
qed

section \<open>The record's codec\<close>

definition free_extent_image :: "FreeExtent \<Rightarrow> bytes" where
  "free_extent_image r = be_bytes32 (fe_startblock r) @ be_bytes32 (fe_blockcount r)"

interpretation free_extent_codec: record_codec
  8 encode_free_extent decode_free_extent "\<lambda>_. True" free_extent_image
proof
  fix at :: nat and b :: bytes and r :: FreeExtent
  show "length (free_extent_image r) = 8" by (simp add: free_extent_image_def)
  show "at + 8 \<le> length b \<Longrightarrow> \<not> panics (decode_free_extent b at)"
    by (simp add: decode_free_extent_def read_ok)
  show "encode_free_extent b at r = Inr (blit b at (free_extent_image r))" if "at + 8 \<le> length b"
    using that blit_blit_adjacent [of at "be_bytes32 (fe_startblock r)" "be_bytes32 (fe_blockcount r)" b]
    by (simp add: encode_free_extent_def put_ok free_extent_image_def)
  show "decode_free_extent b at = Inr r"
    if "at + 8 \<le> length b" and eq: "take 8 (drop at b) = free_extent_image r"
    using that(1) field_at [OF eq, of 0 4] field_at [OF eq, of 4 4]
    by (simp add: decode_free_extent_def read_ok free_extent_image_def)
qed

end
