(* ===== verification/Refcount.thy ===== *)
theory Refcount
  imports FreeSpace "HOL-Library.Product_Lexorder"
begin

unbundle bit_operations_syntax

text \<open>
  The reference-count records of a group (\<^verbatim>\<open>src/src/refcount.rs\<close>): the record and its codec, the
  order and bounds checks (\<open>check_order\<close>, \<open>refcount_check_runs\<close>), giving up one reference to an
  extent (\<open>release\<close>) and joining records that say the same (\<open>merge_adjacent\<close>).

  The abstraction is the number of owners of each block, \<open>owners\<close>: a block no record covers has one
  owner.  \<open>release\<close> is shown to drop one owner from exactly the shared blocks of the extent and to
  free exactly the unshared ones.
\<close>

section \<open>Definitions\<close>

definition COW_FLAG :: u32 where "COW_FLAG = push_bit 31 1"

record Refcount =
  rc_startblock :: u32
  rc_blockcount :: u32
  rc_refcount :: u32
  rc_cow :: bool

definition refcount_decode :: "bytes \<Rightarrow> nat \<Rightarrow> Refcount res" where
  "refcount_decode buf at =
     rbind (be32 buf at) (\<lambda>raw. rbind (be32 buf (at + 4)) (\<lambda>c. rbind (be32 buf (at + 8)) (\<lambda>n.
       Inr \<lparr>rc_startblock = raw AND NOT COW_FLAG, rc_blockcount = c, rc_refcount = n,
            rc_cow = (raw AND COW_FLAG \<noteq> 0)\<rparr>)))"

definition refcount_start :: "Refcount \<Rightarrow> u32" where
  "refcount_start r = (if rc_cow r then rc_startblock r OR COW_FLAG else rc_startblock r)"

definition refcount_encode :: "bytes \<Rightarrow> nat \<Rightarrow> Refcount \<Rightarrow> bytes res" where
  "refcount_encode buf at r =
     rbind (put buf at (be_bytes32 (refcount_start r))) (\<lambda>buf.
     rbind (put buf (at + 4) (be_bytes32 (rc_blockcount r))) (\<lambda>buf.
       put buf (at + 8) (be_bytes32 (rc_refcount r))))"

definition refcount_encode_key :: "bytes \<Rightarrow> nat \<Rightarrow> Refcount \<Rightarrow> bytes res" where
  "refcount_encode_key buf at r = put buf at (be_bytes32 (refcount_start r))"

definition rc_end :: "Refcount \<Rightarrow> u64" where
  "rc_end r = ucast (rc_startblock r) + ucast (rc_blockcount r)"

definition overlaps :: "Refcount \<Rightarrow> u32 \<Rightarrow> u64 \<Rightarrow> bool" where
  "overlaps r start stop \<longleftrightarrow> ucast (rc_startblock r) < stop \<and> ucast start < rc_end r"

text \<open>\<^verbatim>\<open>check_order\<close>: the loop, with the record before.\<close>

fun check_order_from :: "Refcount option \<Rightarrow> Refcount list \<Rightarrow> unit res" where
  "check_order_from previous [] = Inr ()"
| "check_order_from previous (r # rs) =
     (if rc_blockcount r = 0 then Inl (BadSuperblock ''is empty'')
      else if \<not> rc_cow r \<and> rc_refcount r < 2
      then Inl (BadSuperblock ''is shared by fewer than two owners'')
      else if rc_cow r \<and> rc_refcount r \<noteq> 1
      then Inl (BadSuperblock ''is a staging record with other than one owner'')
      else
        (case previous of
           None \<Rightarrow> check_order_from (Some r) rs
         | Some p \<Rightarrow>
             if rc_cow p \<and> \<not> rc_cow r
             then Inl (BadSuperblock ''is shared and follows a staging record'')
             else if rc_cow p = rc_cow r \<and> rc_end p > ucast (rc_startblock r)
             then Inl (BadSuperblock ''starts before the record before it ends'')
             else check_order_from (Some r) rs))"

definition check_order :: "Refcount list \<Rightarrow> unit res" where
  "check_order records = check_order_from None records"

fun refcount_bounds :: "u32 \<Rightarrow> u64 \<Rightarrow> Refcount list \<Rightarrow> unit res" where
  "refcount_bounds len headers [] = Inr ()"
| "refcount_bounds len headers (r # rs) =
     (if ucast (rc_startblock r) \<le> headers then Inl (BadSuperblock ''starts on the group's headers'')
      else if rc_end r > ucast len then Inl (BadSuperblock ''runs past the end of the group'')
      else refcount_bounds len headers rs)"

definition refcount_check_runs :: "u32 \<Rightarrow> u64 \<Rightarrow> Refcount list \<Rightarrow> unit res" where
  "refcount_check_runs len headers records =
     rbind (refcount_bounds len headers records) (\<lambda>_. check_order records)"

text \<open>The first loop of \<^verbatim>\<open>release\<close>: the gaps between the records the extent touches.\<close>

fun release_gaps :: "u64 \<Rightarrow> Refcount list \<Rightarrow> FreeExtent list \<times> u64" where
  "release_gaps at [] = ([], at)"
| "release_gaps at (r # rs) =
     (let start = ucast (rc_startblock r) :: u64;
          here = (if start > at
                  then [\<lparr>fe_startblock = ucast at, fe_blockcount = ucast (start - at)\<rparr>] else []);
          (rest, at') = release_gaps (max at (rc_end r)) rs
      in (here @ rest, at'))"

text \<open>The second loop, one record: what replaces it.\<close>

definition release_pieces :: "u64 \<Rightarrow> u64 \<Rightarrow> Refcount \<Rightarrow> Refcount list res" where
  "release_pieces start stop r =
     (if rc_refcount r < 2
      then Inl (UnsupportedFeature ''a record should only exist while there is more than one owner'')
      else
        let rs = ucast (rc_startblock r) :: u64;
            re = rc_end r;
            hit_start = max rs start;
            hit_end = min re stop;
            before = (if rs < hit_start
              then [\<lparr>rc_startblock = ucast rs, rc_blockcount = ucast (hit_start - rs),
                     rc_refcount = rc_refcount r, rc_cow = False\<rparr>] else []);
            middle = (if rc_refcount r > 2
              then [\<lparr>rc_startblock = ucast hit_start, rc_blockcount = ucast (hit_end - hit_start),
                     rc_refcount = rc_refcount r - 1, rc_cow = False\<rparr>] else []);
            after = (if hit_end < re
              then [\<lparr>rc_startblock = ucast hit_end, rc_blockcount = ucast (re - hit_end),
                     rc_refcount = rc_refcount r, rc_cow = False\<rparr>] else [])
        in Inr (before @ middle @ after))"

text \<open>\<^verbatim>\<open>records.splice(i..=i, pieces)\<close> for each index in turn.\<close>

fun splice_each :: "('a \<Rightarrow> 'a list res) \<Rightarrow> nat list \<Rightarrow> 'a list \<Rightarrow> 'a list res" where
  "splice_each f [] xs = Inr xs"
| "splice_each f (i # is) xs =
     rbind (f (xs ! i)) (\<lambda>ps. splice_each f is (take i xs @ ps @ drop (Suc i) xs))"

fun merge_loop :: "Refcount list \<Rightarrow> Refcount list" where
  "merge_loop (a # b # rs) =
     (if rc_end a = ucast (rc_startblock b) \<and> rc_refcount a = rc_refcount b \<and> rc_cow a = rc_cow b
      then merge_loop (a\<lparr>rc_blockcount := rc_blockcount a + rc_blockcount b\<rparr> # rs)
      else a # merge_loop (b # rs))"
| "merge_loop rs = rs"

definition merge_adjacent :: "Refcount list \<Rightarrow> Refcount list" where
  "merge_adjacent records = merge_loop (sort_key (\<lambda>r. (rc_cow r, rc_startblock r)) records)"

definition release ::
  "Refcount list \<Rightarrow> u32 \<Rightarrow> u32 \<Rightarrow> (Refcount list \<times> FreeExtent list) res" where
  "release records start count =
     rbind (check_order records) (\<lambda>_.
       let s = ucast start :: u64; e = s + ucast count
       in if (\<exists>r \<in> set records. rc_cow r \<and> overlaps r start e)
          then Inl (UnsupportedFeature ''overlap a copy-on-write staging record'')
          else
            let touched = sort_key (\<lambda>i. rc_startblock (records ! i))
                  (filter (\<lambda>i. \<not> rc_cow (records ! i) \<and> overlaps (records ! i) start e)
                     [0..<length records]);
                (gaps, at) = release_gaps s (map (\<lambda>i. records ! i) touched);
                freeable = gaps @ (if at < e
                  then [\<lparr>fe_startblock = ucast at, fe_blockcount = ucast (e - at)\<rparr>] else [])
            in rbind (splice_each (release_pieces s e) (rev touched) records) (\<lambda>records'.
                 Inr (merge_adjacent records', freeable)))"

text \<open>The abstraction: the blocks of a record, and the owners of a block.\<close>

definition rc_blocks :: "Refcount \<Rightarrow> nat set" where
  "rc_blocks r = {unat (rc_startblock r) ..< unat (rc_startblock r) + unat (rc_blockcount r)}"

definition owners :: "Refcount list \<Rightarrow> nat \<Rightarrow> nat" where
  "owners records b =
     (case find (\<lambda>r. \<not> rc_cow r \<and> b \<in> rc_blocks r) records of
        None \<Rightarrow> 1
      | Some r \<Rightarrow> unat (rc_refcount r))"

abbreviation "rc_stop r \<equiv> unat (rc_startblock r) + unat (rc_blockcount r)"

definition rc_ok :: "Refcount \<Rightarrow> bool" where
  "rc_ok r \<longleftrightarrow> 0 < unat (rc_blockcount r) \<and>
     (if rc_cow r then rc_refcount r = 1 else 2 \<le> unat (rc_refcount r))"

definition rc_before :: "Refcount \<Rightarrow> Refcount \<Rightarrow> bool" where
  "rc_before p r \<longleftrightarrow> (rc_cow p \<longrightarrow> rc_cow r) \<and>
     (rc_cow p = rc_cow r \<longrightarrow> rc_stop p \<le> unat (rc_startblock r))"

definition records_ok :: "nat \<Rightarrow> Refcount list \<Rightarrow> bool" where
  "records_ok n rs \<longleftrightarrow> (\<forall>r \<in> set rs. rc_ok r \<and> rc_stop r \<le> n) \<and> sorted_wrt rc_before rs"

section \<open>The checks\<close>

lemma unat_rc_end [simp]: "unat (rc_end r) = rc_stop r"
  by (simp add: rc_end_def)

lemma rc_before_trans: "rc_before p q \<Longrightarrow> rc_before q r \<Longrightarrow> rc_before p r"
  by (auto simp: rc_before_def)

lemma check_order_from_iff:
  "check_order_from prev rs = Inr () \<longleftrightarrow> (\<forall>r \<in> set rs. rc_ok r) \<and> sorted_wrt rc_before rs \<and>
     (\<forall>p. prev = Some p \<longrightarrow> (\<forall>r \<in> set rs. rc_before p r))"
proof (induction rs arbitrary: prev)
  case Nil
  then show ?case by simp
next
  case (Cons r rs)
  have first: "check_order_from prev (r # rs) = Inr () \<longleftrightarrow>
      rc_ok r \<and> (\<forall>p. prev = Some p \<longrightarrow> rc_before p r) \<and> check_order_from (Some r) rs = Inr ()"
    by (auto simp: rc_ok_def rc_before_def to_nat unat_gt_0 [symmetric] split: option.splits)
  show ?case unfolding first Cons.IH by (auto intro: rc_before_trans)
qed

lemma check_order_iff:
  "check_order rs = Inr () \<longleftrightarrow> (\<forall>r \<in> set rs. rc_ok r) \<and> sorted_wrt rc_before rs"
  by (simp add: check_order_def check_order_from_iff)

lemma records_ok_check: "records_ok n rs \<longleftrightarrow> check_order rs = Inr () \<and> (\<forall>r \<in> set rs. rc_stop r \<le> n)"
  by (auto simp: records_ok_def check_order_iff)

section \<open>Owners\<close>

text \<open>Who covers a block, and with what count.\<close>

definition covers :: "Refcount list \<Rightarrow> nat \<Rightarrow> nat \<Rightarrow> bool" where
  "covers rs b k \<longleftrightarrow> (\<exists>r \<in> set rs. \<not> rc_cow r \<and> b \<in> rc_blocks r \<and> unat (rc_refcount r) = k)"

lemma covers_simps [simp]:
  "covers [] b k = False"
  "covers (xs @ ys) b k \<longleftrightarrow> covers xs b k \<or> covers ys b k"
  by (auto simp: covers_def)

lemma owners_none: "\<not> (\<exists>k. covers rs b k) \<Longrightarrow> owners rs b = 1"
  by (auto simp: owners_def covers_def find_None_iff split: option.splits)
    (metis find_Some_iff nth_mem)

lemma owners_covers:
  assumes "sorted_wrt rc_before rs" "covers rs b k"
  shows "owners rs b = k"
proof -
  obtain r where r: "r \<in> set rs" "\<not> rc_cow r" "b \<in> rc_blocks r" "unat (rc_refcount r) = k"
    using assms(2) by (auto simp: covers_def)
  then obtain q where q: "find (\<lambda>r. \<not> rc_cow r \<and> b \<in> rc_blocks r) rs = Some q"
    by (metis (no_types, lifting) find_None_iff not_None_eq)
  then have q': "q \<in> set rs" "\<not> rc_cow q" "b \<in> rc_blocks q"
    by (auto simp: find_Some_iff)
  have "q = r"
  proof (rule ccontr)
    assume "q \<noteq> r"
    with q'(1) r(1) obtain A B C where "rs = A @ q # B @ r # C \<or> rs = A @ r # B @ q # C"
      by (metis (no_types, lifting) in_set_conv_decomp set_ConsD Un_iff append_Cons append_assoc set_append)
    then have "rc_before q r \<or> rc_before r q" using assms(1) by (auto simp: sorted_wrt_append)
    with q' r show False by (auto simp: rc_before_def rc_blocks_def)
  qed
  with q r show ?thesis by (simp add: owners_def)
qed

lemma owners_ge: "records_ok n rs \<Longrightarrow> covers rs b k \<Longrightarrow> 2 \<le> k"
  by (auto simp: covers_def records_ok_def rc_ok_def)

lemma owners_one:
  assumes "records_ok n rs"
  shows "owners rs b = 1 \<longleftrightarrow> \<not> (\<exists>k. covers rs b k)"
proof (cases "\<exists>k. covers rs b k")
  case True
  then obtain k where k: "covers rs b k" by blast
  then have "owners rs b = k" "2 \<le> k"
    using owners_covers owners_ge assms by (auto simp: records_ok_def)
  with True show ?thesis by simp
next
  case False
  then show ?thesis using owners_none by simp
qed

text \<open>Records that cover a set of blocks once less leave those blocks one owner fewer.\<close>

lemma owners_released:
  assumes ok: "records_ok n rs" "records_ok n ms"
    and covers: "\<And>b k. covers ms b k \<longleftrightarrow> (if b \<in> B then covers rs b (k + 1) \<and> 2 \<le> k else covers rs b k)"
  shows "owners ms b = (if b \<in> B \<and> owners rs b \<noteq> 1 then owners rs b - 1 else owners rs b)"
proof (cases "\<exists>k. covers rs b k")
  case True
  then obtain k where k: "covers rs b k" by blast
  have uniq: "j = k" if "covers rs b j" for j
    using owners_covers [of rs b] k that ok(1) by (metis records_ok_def)
  have rs: "owners rs b = k" "2 \<le> k" using k owners_covers owners_ge ok(1) by (auto simp: records_ok_def)
  show ?thesis
  proof (cases "b \<in> B \<and> k = 2")
    case True
    then have "\<not> (\<exists>j. covers ms b j)" using covers uniq by fastforce
    then show ?thesis using True rs owners_none by simp
  next
    case False
    then have "covers ms b (if b \<in> B then k - 1 else k)" using covers k rs(2) by auto
    then have "owners ms b = (if b \<in> B then k - 1 else k)"
      using owners_covers ok(2) by (simp add: records_ok_def)
    then show ?thesis using rs by simp
  qed
next
  case False
  then have "\<not> (\<exists>k. covers ms b k)" using covers by simp
  then show ?thesis using False owners_none by simp
qed

section \<open>Replacing the records an extent touches\<close>

lemma splice_each_filter:
  assumes "\<forall>x \<in> set xs. P x \<longrightarrow> f x = Inr (g x)"
  shows "splice_each f (rev (filter (\<lambda>i. P (xs ! i)) [0..<length xs])) (xs @ ys) =
     Inr (concat (map (\<lambda>x. if P x then g x else [x]) xs) @ ys)"
  using assms
proof (induction xs arbitrary: ys rule: rev_induct)
  case Nil
  then show ?case by simp
next
  case (snoc x xs)
  have IH: "splice_each f (rev (filter (\<lambda>i. P (xs ! i)) [0..<length xs])) (xs @ zs) =
      Inr (concat (map (\<lambda>x. if P x then g x else [x]) xs) @ zs)" for zs
    using snoc by simp
  have idx: "filter (\<lambda>i. P ((xs @ [x]) ! i)) [0..<length (xs @ [x])] =
      filter (\<lambda>i. P (xs ! i)) [0..<length xs] @ (if P x then [length xs] else [])"
    by (auto simp: nth_append intro!: filter_cong)
  show ?case
  proof (cases "P x")
    case True
    then show ?thesis
      unfolding idx using IH [of "g x @ ys"] snoc.prems by simp
  next
    case False
    then show ?thesis unfolding idx using IH [of "x # ys"] by simp
  qed
qed

text \<open>The pieces of one record: nothing outside it, no owner lost outside the extent, one owner
  fewer inside it, and no record where one owner is left.\<close>

lemma release_pieces_spec:
  assumes ok: "rc_ok r" "\<not> rc_cow r" "rc_stop r \<le> n" "n < 2 ^ 32"
    and hit: "unat (rc_startblock r) < unat e" "unat s < rc_stop r" and se: "unat s < unat e"
  obtains P where "release_pieces s e r = Inr P" "\<forall>p \<in> set P. rc_ok p \<and> \<not> rc_cow p"
    "\<forall>p \<in> set P. unat (rc_startblock r) \<le> unat (rc_startblock p) \<and> rc_stop p \<le> rc_stop r"
    "sorted_wrt rc_before P"
    "\<forall>b k. covers P b k \<longleftrightarrow> b \<in> rc_blocks r \<and> 2 \<le> k \<and>
       k = (if unat s \<le> b \<and> b < unat e then unat (rc_refcount r) - 1 else unat (rc_refcount r))"
proof -
  let ?a = "unat (rc_startblock r)" let ?z = "rc_stop r"
  define hs where "hs = max (ucast (rc_startblock r)) s"
  define he where "he = min (rc_end r) e"
  have hs: "unat hs = max ?a (unat s)" and he: "unat he = min ?z (unat e)"
    by (simp_all add: hs_def he_def unat_max unat_min)
  have small: "unat hs < 2 ^ 32" "unat he < 2 ^ 32" "unat hs < unat he" "?a \<le> unat hs" "unat he \<le> ?z"
    using ok hit se by (auto simp: hs he rc_ok_def)
  have ref: "2 \<le> unat (rc_refcount r)" using ok by (simp add: rc_ok_def)
  then have ref1: "unat (rc_refcount r - 1) = unat (rc_refcount r) - 1" by (simp add: unat_sub_le)
  define B M A where "B = (if ucast (rc_startblock r) < hs
      then [\<lparr>rc_startblock = ucast (ucast (rc_startblock r) :: u64), rc_blockcount = ucast (hs - ucast (rc_startblock r)),
             rc_refcount = rc_refcount r, rc_cow = False\<rparr>] else [])"
    and "M = (if rc_refcount r > 2 then [\<lparr>rc_startblock = ucast hs, rc_blockcount = ucast (he - hs),
             rc_refcount = rc_refcount r - 1, rc_cow = False\<rparr>] else [])"
    and "A = (if he < rc_end r then [\<lparr>rc_startblock = ucast he, rc_blockcount = ucast (rc_end r - he),
             rc_refcount = rc_refcount r, rc_cow = False\<rparr>] else [])"
  have res: "release_pieces s e r = Inr (B @ M @ A)"
    using ref by (auto simp: release_pieces_def Let_def B_def M_def A_def hs_def he_def to_nat)
  have w: "unat (ucast (ucast (rc_startblock r) :: u64) :: u32) = ?a"
    "unat (ucast hs :: u32) = unat hs" "unat (ucast he :: u32) = unat he"
    using small by (simp_all add: unat_ucast_64_32 unat_lt32)
  have lens: "unat (hs - ucast (rc_startblock r)) = unat hs - ?a" "unat (he - hs) = unat he - unat hs"
    "unat (rc_end r - he) = ?z - unat he"
    using small by (simp_all add: unat_sub_le)
  have lens': "unat (ucast (hs - ucast (rc_startblock r)) :: u32) = unat hs - ?a"
    "unat (ucast (he - hs) :: u32) = unat he - unat hs"
    "unat (ucast (rc_end r - he) :: u32) = ?z - unat he"
    using small ok(3,4) by (simp_all add: unat_ucast_64_32 lens)
  note nums = w lens' ref1 to_nat small ref
  have Bc: "covers B b k \<longleftrightarrow> ?a \<le> b \<and> b < unat hs \<and> k = unat (rc_refcount r)" for b k
    using small by (auto simp: B_def covers_def rc_blocks_def w lens' word_less_nat_alt)
  have Mc: "covers M b k \<longleftrightarrow> unat hs \<le> b \<and> b < unat he \<and> 2 < unat (rc_refcount r) \<and>
      k = unat (rc_refcount r) - 1" for b k
    using small by (auto simp: M_def covers_def rc_blocks_def w lens' ref1 word_less_nat_alt)
  have Ac: "covers A b k \<longleftrightarrow> unat he \<le> b \<and> b < ?z \<and> k = unat (rc_refcount r)" for b k
    using small by (auto simp: A_def covers_def rc_blocks_def w lens' word_less_nat_alt)
  show thesis
  proof
    show "release_pieces s e r = Inr (B @ M @ A)" by (rule res)
    show "\<forall>p \<in> set (B @ M @ A). rc_ok p \<and> \<not> rc_cow p"
      using small ref by (auto simp: B_def M_def A_def rc_ok_def lens' ref1 word_less_nat_alt)
    show "\<forall>p \<in> set (B @ M @ A). ?a \<le> unat (rc_startblock p) \<and> rc_stop p \<le> ?z"
      using small by (auto simp: B_def M_def A_def w lens')
    show "sorted_wrt rc_before (B @ M @ A)"
      using small by (auto simp: B_def M_def A_def w lens' rc_before_def sorted_wrt_append)
    show "\<forall>b k. covers (B @ M @ A) b k \<longleftrightarrow> b \<in> rc_blocks r \<and> 2 \<le> k \<and>
        k = (if unat s \<le> b \<and> b < unat e then unat (rc_refcount r) - 1 else unat (rc_refcount r))"
      using ref small(3-) hit se by (auto simp: Bc Mc Ac rc_blocks_def hs he)
  qed
qed

section \<open>The blocks nobody else holds\<close>

lemma sort_key_sorted: "sorted (map f xs) \<Longrightarrow> sort_key f xs = xs"
  by (induction xs) (simp_all add: insort_is_Cons)

lemma map_nth_filter: "map ((!) xs) (filter (\<lambda>i. P (xs ! i)) [0..<length xs]) = filter P xs"
proof -
  have "filter P xs = filter P (map ((!) xs) [0..<length xs])" by (simp add: map_nth)
  then show ?thesis by (simp add: filter_map comp_def)
qed

lemma release_gaps_spec:
  assumes "\<forall>r \<in> set rs. \<not> rc_cow r \<and> 0 < unat (rc_blockcount r) \<and> rc_stop r \<le> n" "sorted_wrt rc_before rs"
    "n < 2 ^ 32" "unat at \<le> n" "release_gaps at rs = (gs, at')"
  shows "unat at \<le> unat at' \<and> unat at' \<le> n \<and> (\<forall>r \<in> set rs. rc_stop r \<le> unat at') \<and>
    free_ok (unat at') gs \<and> (\<forall>g \<in> set gs. unat at \<le> unat (fe_startblock g) \<and> (\<exists>r \<in> set rs. fe_stop g \<le> unat (rc_startblock r))) \<and>
    free_blocks gs = {b. unat at \<le> b \<and> b < unat at' \<and> b \<notin> (\<Union>r \<in> set rs. rc_blocks r)}"
  using assms
proof (induction rs arbitrary: at gs)
  case Nil
  then show ?case by (auto simp: free_ok_def free_blocks_def)
next
  case (Cons r rs)
  let ?at = "max at (rc_end r)"
  obtain hs where rest: "release_gaps ?at rs = (hs, at')"
    using Cons.prems(5) by (cases "release_gaps ?at rs") (simp add: Let_def)
  have at: "unat ?at = max (unat at) (rc_stop r)" by (simp add: unat_max)
  have IH: "unat ?at \<le> unat at' \<and> unat at' \<le> n \<and> (\<forall>r \<in> set rs. rc_stop r \<le> unat at') \<and>
    free_ok (unat at') hs \<and> (\<forall>g \<in> set hs. unat ?at \<le> unat (fe_startblock g) \<and> (\<exists>r \<in> set rs. fe_stop g \<le> unat (rc_startblock r))) \<and>
    free_blocks hs = {b. unat ?at \<le> b \<and> b < unat at' \<and> b \<notin> (\<Union>r \<in> set rs. rc_blocks r)}"
    using Cons.prems by (intro Cons.IH [OF _ _ _ _ rest]) (auto simp: at)
  have later: "unat (rc_startblock q) \<ge> rc_stop r" if "q \<in> set rs" for q
    using Cons.prems that by (auto simp: rc_before_def)
  define h where "h = \<lparr>fe_startblock = ucast at, fe_blockcount = ucast (ucast (rc_startblock r) - at)\<rparr>"
  have gs: "gs = (if ucast (rc_startblock r) > at then h # hs else hs)"
    using Cons.prems(5) rest by (auto simp: Let_def h_def split: if_splits)
  have h: "unat (fe_startblock h) = unat at" "fe_stop h = unat (rc_startblock r)"
    if "ucast (rc_startblock r) > at"
    using that Cons.prems(3,4) unat_lt32 [of "rc_startblock r"]
    by (simp_all add: h_def word_less_nat_alt unat_sub_le unat_ucast_64_32)
  have split: "{b. unat at \<le> b \<and> b < unat at' \<and> b \<notin> (\<Union>r \<in> set (r # rs). rc_blocks r)} =
      {b. unat at \<le> b \<and> b < unat (rc_startblock r)} \<union>
      {b. unat ?at \<le> b \<and> b < unat at' \<and> b \<notin> (\<Union>r \<in> set rs. rc_blocks r)}"
    using IH later by (fastforce simp: at rc_blocks_def)
  have fits: "free_ok (unat at') gs"
    using IH h Cons.prems(1) by (auto simp: gs free_ok_def run_fits_def at word_less_nat_alt)
  have blocks: "free_blocks gs = {b. unat at \<le> b \<and> b < unat (rc_startblock r)} \<union> free_blocks hs"
    using h by (auto simp: gs free_blocks_def run_blocks_def word_less_nat_alt)
  have above: "\<forall>g \<in> set gs. unat at \<le> unat (fe_startblock g) \<and>
      (\<exists>q \<in> set (r # rs). fe_stop g \<le> unat (rc_startblock q))"
    using IH h by (auto simp: gs at)
  show ?case using IH fits blocks above unfolding split by (simp add: at)
qed

section \<open>Joining records that say the same\<close>

definition staged :: "Refcount list \<Rightarrow> nat \<Rightarrow> bool" where
  "staged rs b \<longleftrightarrow> (\<exists>r \<in> set rs. rc_cow r \<and> b \<in> rc_blocks r)"

text \<open>No record adjoins one that says the same: the form the kernel keeps.\<close>

definition joinable :: "Refcount \<Rightarrow> Refcount \<Rightarrow> bool" where
  "joinable a b \<longleftrightarrow> rc_stop a = unat (rc_startblock b) \<and> rc_refcount a = rc_refcount b \<and> rc_cow a = rc_cow b"

fun merged :: "Refcount list \<Rightarrow> bool" where
  "merged (a # b # rs) \<longleftrightarrow> \<not> joinable a b \<and> merged (b # rs)"
| "merged rs \<longleftrightarrow> True"

lemma joinable_code: "joinable a b \<longleftrightarrow>
    rc_end a = ucast (rc_startblock b) \<and> rc_refcount a = rc_refcount b \<and> rc_cow a = rc_cow b"
  by (auto simp: joinable_def word_eq_unat)

lemma merge_loop_head:
  "\<exists>c rest. merge_loop (a # rs) = c # rest \<and> rc_startblock c = rc_startblock a \<and>
     rc_refcount c = rc_refcount a \<and> rc_cow c = rc_cow a"
proof (induction "a # rs" arbitrary: a rs rule: merge_loop.induct)
  case (1 a b rs)
  then show ?case by (auto simp: joinable_code [symmetric])
qed auto

lemma merge_loop_merged: "merged (merge_loop rs)"
proof (induction rs rule: merge_loop.induct)
  case (1 a b rs)
  obtain c rest where c: "merge_loop (b # rs) = c # rest" "rc_startblock c = rc_startblock b"
    "rc_refcount c = rc_refcount b" "rc_cow c = rc_cow b" using merge_loop_head by blast
  then have "joinable a c \<longleftrightarrow> joinable a b" by (simp add: joinable_def)
  then show ?case using 1 c by (simp add: joinable_code [symmetric])
qed auto

text \<open>One joining: the record in place of two covers what they did.\<close>

lemma join_ok:
  assumes "records_ok n (a # b # rs)" "n < 2 ^ 32" "joinable a b"
  defines "c \<equiv> a\<lparr>rc_blockcount := rc_blockcount a + rc_blockcount b\<rparr>"
  shows "records_ok n (c # rs)" "covers (c # rs) = covers (a # b # rs)" "staged (c # rs) = staged (a # b # rs)"
proof -
  have stop: "rc_stop a + unat (rc_blockcount b) \<le> n"
    using assms(1,3) by (simp add: records_ok_def joinable_def)
  then have count: "unat (rc_blockcount c) = unat (rc_blockcount a) + unat (rc_blockcount b)"
    using assms(2) by (simp add: c_def unat_add_small)
  have c: "rc_startblock c = rc_startblock a" "rc_refcount c = rc_refcount a" "rc_cow c = rc_cow a"
    by (simp_all add: c_def)
  have blocks: "rc_blocks c = rc_blocks a \<union> rc_blocks b"
    using assms(3) by (auto simp: rc_blocks_def count c joinable_def)
  show "records_ok n (c # rs)"
    using assms(1,3) by (auto simp: records_ok_def rc_ok_def rc_before_def joinable_def count c)
  show "covers (c # rs) = covers (a # b # rs)"
    using assms(3) by (intro ext) (auto simp: covers_def blocks c joinable_def)
  show "staged (c # rs) = staged (a # b # rs)"
    using assms(3) by (intro ext) (auto simp: staged_def blocks c joinable_def)
qed

lemma covers_Cons: "covers (r # rs) b k \<longleftrightarrow>
    \<not> rc_cow r \<and> b \<in> rc_blocks r \<and> unat (rc_refcount r) = k \<or> covers rs b k"
  by (auto simp: covers_def)

lemma staged_Cons: "staged (r # rs) b \<longleftrightarrow> rc_cow r \<and> b \<in> rc_blocks r \<or> staged rs b"
  by (auto simp: staged_def)

lemma records_ok_Cons: "records_ok n (a # rs) \<longleftrightarrow>
    rc_ok a \<and> rc_stop a \<le> n \<and> (\<forall>r \<in> set rs. rc_before a r) \<and> records_ok n rs"
  by (auto simp: records_ok_def)

lemma merge_loop_ok:
  assumes "records_ok n rs" "n < 2 ^ 32"
  shows "records_ok n (merge_loop rs) \<and> covers (merge_loop rs) = covers rs \<and>
    staged (merge_loop rs) = staged rs \<and>
    (\<forall>p. (\<forall>r \<in> set rs. rc_before p r) \<longrightarrow> (\<forall>r \<in> set (merge_loop rs). rc_before p r))"
  using assms
proof (induction rs rule: merge_loop.induct)
  case (1 a b rs)
  show ?case
  proof (cases "joinable a b")
    case True
    let ?c = "a\<lparr>rc_blockcount := rc_blockcount a + rc_blockcount b\<rparr>"
    have step: "merge_loop (a # b # rs) = merge_loop (?c # rs)"
      using True by (simp add: joinable_code)
    have before: "rc_before p ?c" if "rc_before p a" for p using that by (simp add: rc_before_def)
    note join = join_ok [OF 1(3,4) True]
    have IH: "records_ok n (merge_loop (?c # rs))" "covers (merge_loop (?c # rs)) = covers (?c # rs)"
      "staged (merge_loop (?c # rs)) = staged (?c # rs)"
      "\<forall>p. (\<forall>r \<in> set (?c # rs). rc_before p r) \<longrightarrow> (\<forall>r \<in> set (merge_loop (?c # rs)). rc_before p r)"
      using 1(1) [OF True [unfolded joinable_code] join(1) 1(4)] by blast+
    have "\<forall>p. (\<forall>r \<in> set (a # b # rs). rc_before p r) \<longrightarrow> (\<forall>r \<in> set (?c # rs). rc_before p r)"
      using before by simp
    with IH join(2,3) show ?thesis unfolding step by metis
  next
    case False
    have ok: "records_ok n (b # rs)" and a: "\<forall>r \<in> set (b # rs). rc_before a r" "rc_ok a" "rc_stop a \<le> n"
      using 1(3) by (auto simp: records_ok_def)
    have step: "merge_loop (a # b # rs) = a # merge_loop (b # rs)"
      using False unfolding joinable_code by auto
    have IH: "records_ok n (merge_loop (b # rs))" "covers (merge_loop (b # rs)) = covers (b # rs)"
      "staged (merge_loop (b # rs)) = staged (b # rs)"
      "\<forall>p. (\<forall>r \<in> set (b # rs). rc_before p r) \<longrightarrow> (\<forall>r \<in> set (merge_loop (b # rs)). rc_before p r)"
      using 1(2) [OF False [unfolded joinable_code] ok 1(4)] by blast+
    have "\<forall>r \<in> set (merge_loop (b # rs)). rc_before a r" using IH(4) [THEN spec, of a] a(1) by (rule mp)
    with IH(1) a(2,3) have "records_ok n (a # merge_loop (b # rs))"
      unfolding records_ok_Cons by (intro conjI)
    moreover have "covers (a # merge_loop (b # rs)) = covers (a # b # rs)"
      by (intro ext) (simp only: covers_Cons [of a] IH(2))
    moreover have "staged (a # merge_loop (b # rs)) = staged (a # b # rs)"
      by (intro ext) (simp only: staged_Cons [of a] IH(3))
    moreover have "\<forall>p. (\<forall>r \<in> set (a # b # rs). rc_before p r) \<longrightarrow> (\<forall>r \<in> set (a # merge_loop (b # rs)). rc_before p r)"
      (is "\<forall>p. ?before p")
    proof
      fix p
      show "?before p" using IH(4) [THEN spec, of p] by (metis list.set_intros(2) set_ConsD list.set_intros(1))
    qed
    ultimately show ?thesis unfolding step by (intro conjI)
  qed
qed auto

lemma merge_adjacent_sorted:
  assumes "records_ok n rs"
  shows "merge_adjacent rs = merge_loop rs"
proof -
  have "sorted_wrt (\<lambda>a b. (rc_cow a, rc_startblock a) \<le> (rc_cow b, rc_startblock b)) rs"
    using assms by (auto simp: records_ok_def rc_before_def to_nat less_eq_prod_def elim!: sorted_wrt_mono_rel [rotated])
  then have "sorted (map (\<lambda>r. (rc_cow r, rc_startblock r)) rs)"
    by (simp add: sorted_map)
  then show ?thesis unfolding merge_adjacent_def by (simp only: sort_key_sorted)
qed

section \<open>Giving up a reference\<close>

text \<open>Replacing records piecewise, each by records inside it, keeps the list in order.\<close>

definition inside :: "Refcount \<Rightarrow> Refcount \<Rightarrow> bool" where
  "inside p r \<longleftrightarrow> rc_cow p = rc_cow r \<and> unat (rc_startblock r) \<le> unat (rc_startblock p) \<and> rc_stop p \<le> rc_stop r"

lemma sorted_concat_pieces:
  assumes "sorted_wrt rc_before rs"
    and "\<forall>r \<in> set rs. sorted_wrt rc_before (g r) \<and> (\<forall>p \<in> set (g r). inside p r)"
  shows "sorted_wrt rc_before (concat (map g rs))"
  using assms
proof (induction rs)
  case Nil
  then show ?case by simp
next
  case (Cons r rs)
  have "rc_before p q" if "p \<in> set (g r)" "q' \<in> set rs" "q \<in> set (g q')" for p q q'
  proof -
    have "rc_before r q'" using Cons.prems(1) that by simp
    moreover have "inside p r" "inside q q'" using Cons.prems(2) that by auto
    ultimately show ?thesis by (auto simp: rc_before_def inside_def)
  qed
  then have "\<forall>p \<in> set (g r). \<forall>q \<in> set (concat (map g rs)). rc_before p q" by auto
  moreover have "sorted_wrt rc_before (concat (map g rs))" "sorted_wrt rc_before (g r)"
    using Cons by simp_all
  ultimately show ?case by (simp add: sorted_wrt_append)
qed

text \<open>The record \<open>r\<close> is one the extent \<open>s ..< e\<close> touches.\<close>

definition touches :: "nat \<Rightarrow> nat \<Rightarrow> Refcount \<Rightarrow> bool" where
  "touches s e r \<longleftrightarrow> unat (rc_startblock r) < e \<and> s < rc_stop r"

lemma overlaps_touches: "unat e' = e \<Longrightarrow> overlaps r start e' \<longleftrightarrow> touches (unat start) e r"
  by (simp add: overlaps_def touches_def to_nat)

text \<open>What the rewriting loop leaves, before the merge.\<close>

lemma release_rewrite:
  assumes ok: "records_ok n rs" "n < 2 ^ 32" and se: "unat s < unat e"
  defines "P \<equiv> \<lambda>r. \<not> rc_cow r \<and> touches (unat s) (unat e) r"
  obtains rs' where
    "splice_each (release_pieces s e) (rev (filter (\<lambda>i. P (rs ! i)) [0..<length rs])) rs = Inr rs'"
    "records_ok n rs'" "staged rs' = staged rs"
    "\<forall>b k. covers rs' b k \<longleftrightarrow> (if unat s \<le> b \<and> b < unat e then covers rs b (k + 1) \<and> 2 \<le> k else covers rs b k)"
proof -
  define g where "g r = (case release_pieces s e r of Inr ps \<Rightarrow> ps | Inl _ \<Rightarrow> [])" for r
  define h where "h r = (if P r then g r else [r])" for r
  let ?k = "\<lambda>r b. if unat s \<le> b \<and> b < unat e then unat (rc_refcount r) - 1 else unat (rc_refcount r)"
  have g: "release_pieces s e r = Inr (g r) \<and> sorted_wrt rc_before (g r) \<and>
      (\<forall>p \<in> set (g r). rc_ok p \<and> \<not> rc_cow p \<and> unat (rc_startblock r) \<le> unat (rc_startblock p) \<and> rc_stop p \<le> rc_stop r) \<and>
      (\<forall>b k. covers (g r) b k \<longleftrightarrow> b \<in> rc_blocks r \<and> 2 \<le> k \<and> k = ?k r b)" if "r \<in> set rs" "P r" for r
  proof -
    have r: "rc_ok r" "\<not> rc_cow r" "rc_stop r \<le> n" "unat (rc_startblock r) < unat e" "unat s < rc_stop r"
      using ok(1) that by (auto simp: records_ok_def P_def touches_def)
    show ?thesis
      by (rule release_pieces_spec [OF r(1-3) ok(2) r(4,5) se]) (auto simp: g_def)
  qed
  have ref: "2 \<le> unat (rc_refcount r)" if "r \<in> set rs" "\<not> rc_cow r" for r
    using ok(1) that by (auto simp: records_ok_def rc_ok_def)
  have h: "sorted_wrt rc_before (h r) \<and> (\<forall>p \<in> set (h r). rc_ok p \<and> inside p r)"
    if "r \<in> set rs" for r
    using g [OF that] ok(1) that by (auto simp: h_def records_ok_def P_def inside_def)
  have hc: "covers (h r) b k \<longleftrightarrow> \<not> rc_cow r \<and> b \<in> rc_blocks r \<and> 2 \<le> k \<and> k = ?k r b"
    if "r \<in> set rs" for r b k
  proof (cases "P r")
    case True
    then show ?thesis using g [OF that True] by (auto simp: h_def P_def)
  next
    case False
    then show ?thesis using ref [OF that]
      by (auto simp: h_def covers_def P_def touches_def rc_blocks_def)
  qed
  show thesis
  proof
    show "splice_each (release_pieces s e) (rev (filter (\<lambda>i. P (rs ! i)) [0..<length rs])) rs =
        Inr (concat (map h rs))"
      using splice_each_filter [of rs P "release_pieces s e" g "[]"] g by (simp add: h_def [abs_def])
    show "records_ok n (concat (map h rs))"
      using h ok(1) sorted_concat_pieces [of rs h] by (fastforce simp: records_ok_def inside_def)
    have "(\<exists>p \<in> set (h r). rc_cow p \<and> b \<in> rc_blocks p) \<longleftrightarrow> rc_cow r \<and> b \<in> rc_blocks r"
      if "r \<in> set rs" for r b
      using g [OF that] by (cases "P r") (auto simp: h_def P_def)
    then show "staged (concat (map h rs)) = staged rs"
      by (intro ext) (auto simp: staged_def)
    have split: "covers (concat (map h rs)) b k \<longleftrightarrow> (\<exists>r \<in> set rs. covers (h r) b k)" for b k
      by (auto simp: covers_def)
    have "covers (concat (map h rs)) b k \<longleftrightarrow>
        (\<exists>r \<in> set rs. \<not> rc_cow r \<and> b \<in> rc_blocks r \<and> 2 \<le> k \<and> k = ?k r b)" for b k
      unfolding split by (rule bex_cong) (simp_all only: hc)
    then show "\<forall>b k. covers (concat (map h rs)) b k \<longleftrightarrow>
        (if unat s \<le> b \<and> b < unat e then covers rs b (k + 1) \<and> 2 \<le> k else covers rs b k)"
      using ref by (auto simp: covers_def)
  qed
qed

text \<open>The freed runs are the blocks of the extent no record covers.\<close>

lemma release_freeable:
  assumes ok: "records_ok n rs" "n < 2 ^ 32" and e: "unat e \<le> n" and se: "unat s < unat e"
  defines "ts \<equiv> filter (\<lambda>r. \<not> rc_cow r \<and> touches (unat s) (unat e) r) rs"
  assumes gaps: "release_gaps s ts = (gs, at)"
  defines "out \<equiv> gs @ (if at < e then [\<lparr>fe_startblock = ucast at, fe_blockcount = ucast (e - at)\<rparr>] else [])"
  shows "free_ok n out" "free_blocks out = {b. unat s \<le> b \<and> b < unat e \<and> \<not> (\<exists>k. covers rs b k)}"
proof -
  have "\<forall>r \<in> set ts. \<not> rc_cow r \<and> 0 < unat (rc_blockcount r) \<and> rc_stop r \<le> n"
    using ok(1) by (auto simp: ts_def records_ok_def rc_ok_def)
  moreover have "sorted_wrt rc_before ts"
    using ok(1) by (simp add: ts_def records_ok_def sorted_wrt_filter)
  ultimately have spec: "unat s \<le> unat at" "unat at \<le> n" "\<forall>r \<in> set ts. rc_stop r \<le> unat at"
    "free_ok (unat at) gs" "\<forall>g \<in> set gs. \<exists>r \<in> set ts. fe_stop g \<le> unat (rc_startblock r)"
    "free_blocks gs = {b. unat s \<le> b \<and> b < unat at \<and> b \<notin> (\<Union>r \<in> set ts. rc_blocks r)}"
    using release_gaps_spec [of ts n s gs at] ok(2) e se gaps by auto
  define z where "z = \<lparr>fe_startblock = ucast at :: u32, fe_blockcount = ucast (e - at)\<rparr>"
  have z: "unat (fe_startblock z) = unat at" "fe_stop z = unat e" if "at < e"
    using that spec(2) e ok(2) by (auto simp: z_def word_less_nat_alt unat_sub_le unat_ucast_64_32)
  have out: "out = gs @ (if at < e then [z] else [])" by (simp add: out_def z_def)
  show "free_ok n out"
    using spec(2,4) z e by (auto simp: out free_ok_def run_fits_def sorted_wrt_append word_less_nat_alt)
  have uncovered: "b \<notin> (\<Union>r \<in> set ts. rc_blocks r) \<longleftrightarrow> \<not> (\<exists>k. covers rs b k)"
    if "unat s \<le> b" "b < unat e" for b
    using that by (fastforce simp: ts_def covers_def touches_def rc_blocks_def)
  have "free_blocks gs \<subseteq> {b. b < unat e}"
    using spec(5) by (fastforce simp: free_blocks_def run_blocks_def ts_def touches_def)
  then have gs: "free_blocks gs = {b. unat s \<le> b \<and> b < min (unat at) (unat e) \<and> \<not> (\<exists>k. covers rs b k)}"
    unfolding spec(6) using uncovered by auto
  have "\<not> covers rs b k" if "unat at \<le> b" "b < unat e" for b k
    using that spec(1,3) uncovered [of b] by (fastforce simp: rc_blocks_def)
  then have "{b. unat s \<le> b \<and> b < unat e \<and> \<not> (\<exists>k. covers rs b k)} =
      {b. unat s \<le> b \<and> b < min (unat at) (unat e) \<and> \<not> (\<exists>k. covers rs b k)} \<union> {unat at ..< unat e}"
    using spec(1) by auto
  moreover have "free_blocks out = free_blocks gs \<union> {unat at ..< unat e}"
    using z by (auto simp: out free_blocks_def run_blocks_def word_less_nat_alt)
  ultimately show "free_blocks out = {b. unat s \<le> b \<and> b < unat e \<and> \<not> (\<exists>k. covers rs b k)}"
    using gs by simp
qed

text \<open>\<open>release\<close> with its loops replaced by what they compute.\<close>

lemma release_unfold:
  assumes ok: "records_ok n rs" and cow: "\<not> (\<exists>r \<in> set rs. rc_cow r \<and> touches (unat start) (unat start + unat count) r)"
  defines "s \<equiv> ucast start :: u64" and "P \<equiv> \<lambda>r. \<not> rc_cow r \<and> touches (unat start) (unat start + unat count) r"
  defines "e \<equiv> s + ucast count"
  shows "release rs start count =
     (case release_gaps s (filter P rs) of (gaps, at) \<Rightarrow>
        rbind (splice_each (release_pieces s e) (rev (filter (\<lambda>i. P (rs ! i)) [0..<length rs])) rs)
          (\<lambda>rs'. Inr (merge_adjacent rs',
             gaps @ (if at < e then [\<lparr>fe_startblock = ucast at, fe_blockcount = ucast (e - at)\<rparr>] else []))))"
proof -
  have e: "unat e = unat start + unat count" by (simp add: e_def s_def)
  have "sorted_wrt (\<lambda>a b. \<not> rc_cow a \<and> \<not> rc_cow b \<longrightarrow> rc_startblock a \<le> rc_startblock b) rs"
    using ok by (auto simp: records_ok_def rc_before_def to_nat elim!: sorted_wrt_mono_rel [rotated])
  then have "sorted_wrt (\<lambda>a b. rc_startblock a \<le> rc_startblock b) (filter P rs)"
    by (intro sorted_wrt_mono_rel [OF _ sorted_wrt_filter [of _ rs P]]) (auto simp: P_def)
  then have "sorted (map rc_startblock (map ((!) rs) (filter (\<lambda>i. P (rs ! i)) [0..<length rs])))"
    by (simp only: map_nth_filter sorted_map)
  then have idx: "sort_key (\<lambda>i. rc_startblock (rs ! i)) (filter (\<lambda>i. P (rs ! i)) [0..<length rs]) =
      filter (\<lambda>i. P (rs ! i)) [0..<length rs]"
    by (intro sort_key_sorted) (simp add: comp_def)
  have over: "overlaps r start e \<longleftrightarrow> touches (unat start) (unat start + unat count) r" for r
    using overlaps_touches [OF e] by simp
  have Pf: "(\<not> rc_cow r \<and> touches (unat start) (unat start + unat count) r) = P r" for r
    by (simp add: P_def)
  have "check_order rs = Inr ()" using ok by (simp add: records_ok_check)
  then show ?thesis
    unfolding release_def Let_def s_def [symmetric] e_def [symmetric] over if_not_P [OF cow] Pf
      idx map_nth_filter by simp
qed

abbreviation "extent_blocks start count \<equiv> {unat start ..< unat start + unat (count :: u32)}"

text \<open>C4. Giving up a reference to an extent of a sound group that no staging record touches always
  succeeds: the runs it returns are exactly the blocks of the extent with one owner, disjoint and in
  order; every shared block of the extent loses one owner and every other block keeps its owners; the
  records stay sound, joined where they say the same, and cover the same staging blocks.\<close>

theorem release_correct:
  assumes "records_ok n rs" "n < 2 ^ 32" "unat start + unat count \<le> n" "0 < count"
    "\<not> (\<exists>r \<in> set rs. rc_cow r \<and> touches (unat start) (unat start + unat count) r)"
  shows "\<exists>rs' freed. release rs start count = Inr (rs', freed) \<and>
    records_ok n rs' \<and> merged rs' \<and> staged rs' = staged rs \<and> free_ok n freed \<and>
    free_blocks freed = {b \<in> extent_blocks start count. owners rs b = 1} \<and>
    (\<forall>b. owners rs' b = (if b \<in> extent_blocks start count \<and> owners rs b \<noteq> 1 then owners rs b - 1 else owners rs b))"
proof -
  define s where "s = (ucast start :: u64)"
  define e where "e = s + ucast count"
  have nums: "unat s = unat start" "unat e = unat start + unat count" "unat s < unat e" "unat e \<le> n"
    using assms(3,4) by (simp_all add: s_def e_def word_less_nat_alt)
  define P where "P = (\<lambda>r. \<not> rc_cow r \<and> touches (unat s) (unat e) r)"
  obtain gs at where gaps: "release_gaps s (filter P rs) = (gs, at)" by fastforce
  define out where "out = gs @ (if at < e then [\<lparr>fe_startblock = ucast at :: u32, fe_blockcount = ucast (e - at)\<rparr>] else [])"
  obtain rs1 where rs1: "splice_each (release_pieces s e) (rev (filter (\<lambda>i. P (rs ! i)) [0..<length rs])) rs = Inr rs1"
    "records_ok n rs1" "staged rs1 = staged rs"
    "\<forall>b k. covers rs1 b k \<longleftrightarrow> (if unat s \<le> b \<and> b < unat e then covers rs b (k + 1) \<and> 2 \<le> k else covers rs b k)"
    unfolding P_def by (rule release_rewrite [OF assms(1,2) nums(3)])
  note free = release_freeable [OF assms(1,2) nums(4,3), folded P_def, OF gaps, folded out_def]
  have res: "release rs start count = Inr (merge_loop rs1, out)"
    using release_unfold [OF assms(1,5)] gaps rs1(1) merge_adjacent_sorted [OF rs1(2)]
    by (simp add: s_def [symmetric] e_def [symmetric] P_def nums out_def)
  note merge = merge_loop_ok [OF rs1(2) assms(2)]
  have own: "owners (merge_loop rs1) b =
      (if b \<in> extent_blocks start count \<and> owners rs b \<noteq> 1 then owners rs b - 1 else owners rs b)" for b
    using merge rs1(4) by (intro owners_released [OF assms(1)]) (simp_all add: nums)
  have blocks: "free_blocks out = {b \<in> extent_blocks start count. owners rs b = 1}"
    unfolding free(2) owners_one [OF assms(1)] by (auto simp: nums)
  show ?thesis
    by (intro exI [of _ "merge_loop rs1"] exI [of _ out] conjI allI own res blocks free(1) merge_loop_merged)
      (simp_all only: merge rs1(3))
qed

lemma release_correct_witness:
  "\<exists>rs' freed. release [\<lparr>rc_startblock = 24, rc_blockcount = 16, rc_refcount = 2, rc_cow = False\<rparr>] 30 12 =
     Inr (rs', freed) \<and> free_blocks freed = {b \<in> extent_blocks (30 :: u32) 12.
       owners [\<lparr>rc_startblock = 24, rc_blockcount = 16, rc_refcount = 2, rc_cow = False\<rparr>] b = 1}"
  using release_correct [of 1000 "[\<lparr>rc_startblock = 24, rc_blockcount = 16, rc_refcount = 2, rc_cow = False\<rparr>]" 30 12]
  by (auto simp: records_ok_def rc_ok_def)

lemma staged_touches:
  assumes "\<forall>r \<in> set rs. rc_ok r" "0 < count"
  shows "(\<exists>b \<in> extent_blocks start count. staged rs b) \<longleftrightarrow>
    (\<exists>r \<in> set rs. rc_cow r \<and> touches (unat start) (unat start + unat count) r)"
proof
  assume "\<exists>r \<in> set rs. rc_cow r \<and> touches (unat start) (unat start + unat count) r"
  then obtain r where r: "r \<in> set rs" "rc_cow r" "touches (unat start) (unat start + unat count) r" by blast
  have "max (unat start) (unat (rc_startblock r)) \<in> extent_blocks start count \<inter> rc_blocks r"
    using r assms by (auto simp: touches_def rc_blocks_def rc_ok_def word_less_nat_alt)
  with r show "\<exists>b \<in> extent_blocks start count. staged rs b" by (auto simp: staged_def)
qed (auto simp: staged_def touches_def rc_blocks_def)

text \<open>Records the order check refuses are not edited: \<open>release\<close> returns the check's own error.  And
  records it accepts are refused, unedited, when a staging record covers a block of the extent.\<close>

lemma release_refuses:
  assumes "0 < count"
  shows "(case check_order rs of
      Inl e \<Rightarrow> release rs start count = Inl e
    | Inr _ \<Rightarrow> (\<exists>b \<in> extent_blocks start count. staged rs b) \<longrightarrow>
        release rs start count = Inl (UnsupportedFeature ''overlap a copy-on-write staging record''))"
proof (cases "check_order rs")
  case (Inl e)
  then show ?thesis by (simp add: release_def)
next
  case (Inr u)
  then have ok: "\<forall>r \<in> set rs. rc_ok r" using check_order_iff [of rs] by simp
  have "overlaps r start (ucast start + ucast count) \<longleftrightarrow> touches (unat start) (unat start + unat count) r" for r
    by (rule overlaps_touches) simp
  then show ?thesis using Inr staged_touches [OF ok assms] by (auto simp: release_def Let_def)
qed

lemma release_refuses_witness:
  "release [\<lparr>rc_startblock = 24, rc_blockcount = 16, rc_refcount = 1, rc_cow = True\<rparr>] 30 12 =
     Inl (UnsupportedFeature ''overlap a copy-on-write staging record'')"
  using release_refuses [of 12 "[\<lparr>rc_startblock = 24, rc_blockcount = 16, rc_refcount = 1, rc_cow = True\<rparr>]" 30]
  by (auto simp: staged_def rc_blocks_def check_order_def intro: bexI [of _ 30])

section \<open>The record's bytes\<close>

definition refcount_image :: "Refcount \<Rightarrow> bytes" where
  "refcount_image r = be_bytes32 (refcount_start r) @ be_bytes32 (rc_blockcount r) @ be_bytes32 (rc_refcount r)"

lemma bit_COW_FLAG: "bit COW_FLAG n \<longleftrightarrow> n = 31"
  by (simp only: COW_FLAG_def push_bit_eq_mult bit_exp_iff mult_1_left possible_bit_word) auto

lemma and_COW_FLAG: "w AND COW_FLAG \<noteq> 0 \<longleftrightarrow> bit w 31"
proof -
  have "w AND COW_FLAG = (if bit w 31 then COW_FLAG else 0)"
    by (rule bit_word_eqI) (auto simp: bit_COW_FLAG bit_simps)
  moreover have "COW_FLAG \<noteq> 0" using bit_COW_FLAG [of 31] by auto
  ultimately show ?thesis by auto
qed

lemma cow_split:
  assumes "s < 2 ^ 31"
  shows "(if c then s OR COW_FLAG else s) AND NOT COW_FLAG = s"
    "((if c then s OR COW_FLAG else s) AND COW_FLAG \<noteq> 0) = c"
proof -
  have bit: "\<not> bit s 31" using not_high_bit [of s 31 31] assms by (auto simp: word_less_nat_alt)
  show "(if c then s OR COW_FLAG else s) AND NOT COW_FLAG = s"
    using bit by (intro bit_word_eqI) (auto simp: bit_COW_FLAG bit_simps)
  show "((if c then s OR COW_FLAG else s) AND COW_FLAG \<noteq> 0) = c"
    using bit by (auto simp: and_COW_FLAG bit_COW_FLAG bit_simps)
qed

interpretation refcount_codec: record_codec
  12 refcount_encode refcount_decode "\<lambda>r. rc_startblock r < 2 ^ 31" refcount_image
proof
  fix at :: nat and b :: bytes and r :: Refcount
  show "length (refcount_image r) = 12" by (simp add: refcount_image_def)
  show "at + 12 \<le> length b \<Longrightarrow> \<not> panics (refcount_decode b at)"
    by (simp add: refcount_decode_def read_ok)
  show "refcount_encode b at r = Inr (blit b at (refcount_image r))" if "at + 12 \<le> length b"
    using that blit_blit_adjacent [of at "be_bytes32 (refcount_start r)" "be_bytes32 (rc_blockcount r)" b]
      blit_blit_adjacent [of at "be_bytes32 (refcount_start r) @ be_bytes32 (rc_blockcount r)" "be_bytes32 (rc_refcount r)" b]
    by (simp add: refcount_encode_def put_ok refcount_image_def)
  show "refcount_decode b at = Inr r"
    if ok: "rc_startblock r < 2 ^ 31" and "at + 12 \<le> length b" and eq: "take 12 (drop at b) = refcount_image r"
    using that(2) field_at [OF eq, of 0 4] field_at [OF eq, of 4 4] field_at [OF eq, of 8 4]
      cow_split [OF ok, of "rc_cow r"]
    by (simp add: refcount_decode_def read_ok refcount_image_def refcount_start_def)
qed

end
