(* ===== verification/Superblock.thy ===== *)
theory Superblock
  imports Endian
begin

unbundle bit_operations_syntax

text \<open>
  The superblock (\<^verbatim>\<open>src/src/superblock.rs\<close>): parsing and validation, the packed inode and block
  numbers and where a block lies on the device, the feature tests, and the checksum convention every
  self-describing block uses.

  CRC32C comes from the \<^verbatim>\<open>crc32c\<close> crate, which is not part of the repository: its two functions are the
  fields of \<open>crc_crate\<close>, a parameter of every definition that uses them.  The label is kept as its
  bytes with the trailing NULs gone (the code holds the lossy decoding of those bytes).  A shift by a
  count at or past the width masks the count, as a release build does.
\<close>

section \<open>Definitions\<close>

record crc_crate =
  crc32c :: "bytes \<Rightarrow> u32"
  crc32c_append :: "u32 \<Rightarrow> bytes \<Rightarrow> u32"

text \<open>Rust's shifts and tests on unsigned integers.\<close>

definition shl64 :: "u64 \<Rightarrow> nat \<Rightarrow> u64" where "shl64 w n = push_bit (n mod 64) w"
definition shr64 :: "u64 \<Rightarrow> nat \<Rightarrow> u64" where "shr64 w n = drop_bit (n mod 64) w"
definition shl32 :: "u32 \<Rightarrow> nat \<Rightarrow> u32" where "shl32 w n = push_bit (n mod 32) w"

definition checked_shl :: "'a::len word \<Rightarrow> nat \<Rightarrow> 'a word option" where
  "checked_shl w n = (if n < LENGTH('a) then Some (push_bit n w) else None)"

definition is_power_of_two :: "'a::len word \<Rightarrow> bool" where
  "is_power_of_two w \<longleftrightarrow> w \<noteq> 0 \<and> w AND (w - 1) = 0"

fun bit_length :: "nat \<Rightarrow> nat" where
  "bit_length n = (if n = 0 then 0 else Suc (bit_length (n div 2)))"

definition leading_zeros32 :: "u32 \<Rightarrow> u32" where
  "leading_zeros32 w = of_nat (32 - bit_length (unat w))"

definition saturating_mul64 :: "u64 \<Rightarrow> u64 \<Rightarrow> u64" where
  "saturating_mul64 a b = (if unat a * unat b < 2 ^ 64 then a * b else - 1)"

definition saturating_add64 :: "u64 \<Rightarrow> u64 \<Rightarrow> u64" where
  "saturating_add64 a b = (if unat a + unat b < 2 ^ 64 then a + b else - 1)"

definition saturating_sub64 :: "u64 \<Rightarrow> u64 \<Rightarrow> u64" where
  "saturating_sub64 a b = (if b \<le> a then a - b else 0)"

definition checked_add64 :: "u64 \<Rightarrow> u64 \<Rightarrow> u64 option" where
  "checked_add64 a b = (if unat a + unat b < 2 ^ 64 then Some (a + b) else None)"

text \<open>The checksum of a block with its own four checksum bytes read as zero.\<close>

definition crc32c_with_zeroed_crc :: "crc_crate \<Rightarrow> bytes \<Rightarrow> nat \<Rightarrow> u32 res" where
  "crc32c_with_zeroed_crc C buf crc_off =
     rbind (slice buf 0 crc_off) (\<lambda>front.
     if crc_off + 4 \<le> length buf
     then Inr (crc32c_append C (crc32c_append C (crc32c C front) [0, 0, 0, 0]) (drop (crc_off + 4) buf))
     else Inl Panic)"

definition XFS_SB_MAGIC :: u32 where "XFS_SB_MAGIC = 0x58465342"
definition XFS_SB_SIZE :: nat where "XFS_SB_SIZE = 264"
definition SB_CRC_OFFSET :: nat where "SB_CRC_OFFSET = 224"
definition MAX_BLOCKSIZE :: u32 where "MAX_BLOCKSIZE = 65536"
definition XFS_SB_VERSION_NUMBITS :: u16 where "XFS_SB_VERSION_NUMBITS = 0x000f"

definition SHAREDBIT :: u16 where "SHAREDBIT = 0x0200"
definition MOREBITSBIT :: u16 where "MOREBITSBIT = 0x8000"
definition BORGBIT :: u16 where "BORGBIT = 0x4000"

text \<open>\<^verbatim>\<open>incompat::SUPPORTED\<close> and its bits, \<^verbatim>\<open>features2_flags::SUPPORTED\<close>, the \<^verbatim>\<open>ro_compat\<close> bits.\<close>

definition INCOMPAT_FTYPE :: u32 where "INCOMPAT_FTYPE = 1"
definition INCOMPAT_SPINODES :: u32 where "INCOMPAT_SPINODES = 2"
definition INCOMPAT_META_UUID :: u32 where "INCOMPAT_META_UUID = 4"
definition INCOMPAT_NEEDSREPAIR :: u32 where "INCOMPAT_NEEDSREPAIR = 16"
definition INCOMPAT_METADIR :: u32 where "INCOMPAT_METADIR = 256"
definition INCOMPAT_SUPPORTED :: u32 where
  "INCOMPAT_SUPPORTED = INCOMPAT_FTYPE OR INCOMPAT_SPINODES OR INCOMPAT_META_UUID OR 8 OR 32 OR 64 OR 128"
definition FEATURES2_FTYPE :: u32 where "FEATURES2_FTYPE = 0x200"
definition FEATURES2_CRCBIT :: u32 where "FEATURES2_CRCBIT = 0x100"
definition FEATURES2_SUPPORTED :: u32 where "FEATURES2_SUPPORTED = 0x2 OR 0x8 OR 0x80 OR FEATURES2_FTYPE"
definition RO_FINOBT :: u32 where "RO_FINOBT = 1"
definition RO_RMAPBT :: u32 where "RO_RMAPBT = 2"
definition RO_REFLINK :: u32 where "RO_REFLINK = 4"

record Superblock =
  sb_blocksize :: u32
  sb_dblocks :: u64
  sb_rblocks :: u64
  sb_uuid :: bytes
  sb_logstart :: u64
  sb_rootino :: u64
  sb_agblocks :: u32
  sb_agcount :: u32
  sb_logblocks :: u32
  sb_versionnum :: u16
  sb_sectsize :: u16
  sb_inodesize :: u16
  sb_inopblock :: u16
  sb_blocklog :: u8
  sb_sectlog :: u8
  sb_inodelog :: u8
  sb_inopblog :: u8
  sb_agblklog :: u8
  sb_inprogress :: u8
  sb_icount :: u64
  sb_ifree :: u64
  sb_fdblocks :: u64
  sb_inoalignmt :: u32
  sb_dirblklog :: u8
  sb_logsunit :: u32
  sb_features2 :: u32
  sb_features_compat :: u32
  sb_features_ro_compat :: u32
  sb_features_incompat :: u32
  sb_features_log_incompat :: u32
  sb_spino_align :: u32
  sb_meta_uuid :: bytes
  sb_fname :: bytes
  sb_rextents :: u64
  sb_rbmino :: u64
  sb_rsumino :: u64
  sb_rextsize :: u32
  sb_rbmblocks :: u32
  sb_rextslog :: u8
  sb_imax_pct :: u8
  sb_frextents :: u64
  sb_uquotino :: u64
  sb_gquotino :: u64
  sb_qflags :: u16
  sb_flags :: u8
  sb_shared_vn :: u8
  sb_unit :: u32
  sb_width :: u32
  sb_logsectlog :: u8
  sb_logsectsize :: u16
  sb_bad_features2 :: u32
  sb_pquotino :: u64
  sb_lsn :: u64

definition version :: "Superblock \<Rightarrow> u16" where
  "version sb = sb_versionnum sb AND XFS_SB_VERSION_NUMBITS"

definition is_v5 :: "Superblock \<Rightarrow> bool" where
  "is_v5 sb \<longleftrightarrow> version sb = 5"

definition dirblocksize :: "Superblock \<Rightarrow> u32" where
  "dirblocksize sb = shl32 (sb_blocksize sb) (unat (sb_dirblklog sb))"

definition inode_cluster_bytes :: "Superblock \<Rightarrow> u32" where
  "inode_cluster_bytes sb =
     (let raw = (if is_v5 sb then 8192 * (ucast (sb_inodesize sb) div 256) else 8192);
          blocks = max (raw div sb_blocksize sb) 1
      in blocks * sb_blocksize sb)"

definition has_internal_log :: "Superblock \<Rightarrow> bool" where
  "has_internal_log sb \<longleftrightarrow> sb_logstart sb \<noteq> 0"

definition split_ino :: "Superblock \<Rightarrow> u64 \<Rightarrow> u32 \<times> u32 \<times> u32" where
  "split_ino sb ino =
     (let off_mask = shl64 1 (unat (sb_inopblog sb)) - 1;
          blk_mask = shl64 1 (unat (sb_agblklog sb)) - 1;
          offset = ucast (ino AND off_mask);
          ag_block = ucast (shr64 ino (unat (sb_inopblog sb)) AND blk_mask);
          ag = ucast (shr64 ino (unat (sb_inopblog sb + sb_agblklog sb)))
      in (ag, ag_block, offset))"

definition join_ino :: "Superblock \<Rightarrow> u32 \<Rightarrow> u32 \<Rightarrow> u64" where
  "join_ino sb ag agino =
     shl64 (ucast ag) (unat (sb_inopblog sb + sb_agblklog sb)) OR ucast agino"

definition split_fsblock :: "Superblock \<Rightarrow> u64 \<Rightarrow> u32 \<times> u32" where
  "split_fsblock sb fsblock =
     (let m = shl64 1 (unat (sb_agblklog sb)) - 1;
          ag = ucast (shr64 fsblock (unat (sb_agblklog sb)));
          ag_block = ucast (fsblock AND m)
      in (ag, ag_block))"

definition extent_in_bounds :: "Superblock \<Rightarrow> u64 \<Rightarrow> u64 \<Rightarrow> bool" where
  "extent_in_bounds sb start count =
     (if count = 0 then False
      else
        case checked_add64 start (count - 1) of
          None \<Rightarrow> False
        | Some last_block \<Rightarrow>
            let shift = unat (sb_agblklog sb);
                agno = shr64 start shift
            in if ucast (sb_agcount sb) \<le> agno \<or> shr64 last_block shift \<noteq> agno then False
               else
                 let m = shl64 1 shift - 1;
                     first_in = start AND m;
                     last_in = last_block AND m;
                     len = min (saturating_sub64 (sb_dblocks sb) (agno * ucast (sb_agblocks sb)))
                               (ucast (sb_agblocks sb));
                     headers = 3 * ucast (sb_sectsize sb) div ucast (sb_blocksize sb)
                 in headers < first_in \<and> last_in < len)"

definition fsblock_offset :: "Superblock \<Rightarrow> u64 \<Rightarrow> u64" where
  "fsblock_offset sb fsblock =
     (case split_fsblock sb fsblock of (ag, ag_block) \<Rightarrow>
        saturating_mul64
          (saturating_add64 (saturating_mul64 (ucast ag) (ucast (sb_agblocks sb))) (ucast ag_block))
          (ucast (sb_blocksize sb)))"

definition has_sparse_inodes :: "Superblock \<Rightarrow> bool" where
  "has_sparse_inodes sb \<longleftrightarrow> sb_features_incompat sb AND INCOMPAT_SPINODES \<noteq> 0"

definition has_finobt :: "Superblock \<Rightarrow> bool" where
  "has_finobt sb \<longleftrightarrow> sb_features_ro_compat sb AND RO_FINOBT \<noteq> 0"

definition has_rmapbt :: "Superblock \<Rightarrow> bool" where
  "has_rmapbt sb \<longleftrightarrow> sb_features_ro_compat sb AND RO_RMAPBT \<noteq> 0"

definition has_reflink :: "Superblock \<Rightarrow> bool" where
  "has_reflink sb \<longleftrightarrow> sb_features_ro_compat sb AND RO_REFLINK \<noteq> 0"

definition has_case_insensitive_dirs :: "Superblock \<Rightarrow> bool" where
  "has_case_insensitive_dirs sb \<longleftrightarrow> sb_versionnum sb AND BORGBIT \<noteq> 0"

definition has_ftype :: "Superblock \<Rightarrow> bool" where
  "has_ftype sb \<longleftrightarrow> sb_features_incompat sb AND INCOMPAT_FTYPE \<noteq> 0 \<or>
     (sb_versionnum sb AND MOREBITSBIT \<noteq> 0 \<and> sb_features2 sb AND FEATURES2_FTYPE \<noteq> 0)"

definition verify_checksum :: "crc_crate \<Rightarrow> bytes \<Rightarrow> u16 \<Rightarrow> unit res" where
  "verify_checksum C buf sectsize =
     (let stop = unat sectsize
      in if length buf < stop
         then Inl (BadSuperblock ''need a full sector to verify the superblock checksum'')
         else
           rbind (le32 buf SB_CRC_OFFSET) (\<lambda>stored.
           rbind (slice buf 0 stop) (\<lambda>sector.
           rbind (crc32c_with_zeroed_crc C sector SB_CRC_OFFSET) (\<lambda>computed.
             if stored \<noteq> computed then Inl (ChecksumMismatch ''superblock'' 0) else Inr ()))))"

definition reject_unsupported_features :: "u32 \<Rightarrow> unit res" where
  "reject_unsupported_features features_incompat =
     (if features_incompat AND INCOMPAT_NEEDSREPAIR \<noteq> 0
      then Inl (UnsupportedFeature ''this volume is marked as needing repair (incompat needsrepair)'')
      else
        let unknown = features_incompat AND NOT INCOMPAT_SUPPORTED
        in if unknown = 0 then Inr ()
           else
             let metadir = unknown AND INCOMPAT_METADIR \<noteq> 0;
                 unknown' = (if metadir then unknown AND NOT INCOMPAT_METADIR else unknown)
             in Inl (UnsupportedFeature
                  (''incompatible features not implemented: '' @
                   (if metadir then ''the metadata directory tree (metadir)'' else []) @
                   (if metadir \<and> unknown' \<noteq> 0 then '', '' else []) @
                   (if unknown' \<noteq> 0 then ''unknown bits'' else []))))"

text \<open>\<^verbatim>\<open>validate\<close>: the checks in the source's order.\<close>

definition validate_sizes :: "Superblock \<Rightarrow> unit res" where
  "validate_sizes sb =
     (if \<not> (512 \<le> sb_blocksize sb \<and> sb_blocksize sb \<le> 65536) \<or> \<not> is_power_of_two (sb_blocksize sb)
      then Inl (BadSuperblock ''blocksize is not a sane power of two'')
      else if checked_shl (1 :: u32) (unat (sb_blocklog sb)) \<noteq> Some (sb_blocksize sb)
      then Inl (BadSuperblock ''blocklog does not describe blocksize'')
      else if \<not> (512 \<le> sb_sectsize sb \<and> sb_sectsize sb \<le> 32768) \<or> \<not> is_power_of_two (sb_sectsize sb)
      then Inl (BadSuperblock ''sectsize is not a sane power of two'')
      else if checked_shl (1 :: u16) (unat (sb_sectlog sb)) \<noteq> Some (sb_sectsize sb)
      then Inl (BadSuperblock ''sectlog does not describe sectsize'')
      else if \<not> (256 \<le> sb_inodesize sb \<and> sb_inodesize sb \<le> 2048) \<or> \<not> is_power_of_two (sb_inodesize sb)
      then Inl (BadSuperblock ''inodesize is not a sane power of two'')
      else if checked_shl (1 :: u16) (unat (sb_inodelog sb)) \<noteq> Some (sb_inodesize sb)
      then Inl (BadSuperblock ''inodelog does not describe inodesize'')
      else if ucast (sb_inopblock sb) \<noteq> sb_blocksize sb div ucast (sb_inodesize sb)
      then Inl (BadSuperblock ''inopblock disagrees with blocksize / inodesize'')
      else if checked_shl (1 :: u32) (unat (sb_inopblog sb)) \<noteq> Some (ucast (sb_inopblock sb))
      then Inl (BadSuperblock ''inopblog does not describe inopblock'')
      else
        case checked_shl (sb_blocksize sb) (unat (sb_dirblklog sb)) of
          None \<Rightarrow> Inl (BadSuperblock ''dirblklog does not describe a directory block'')
        | Some n \<Rightarrow>
            if sb_blocksize sb \<le> n \<and> n \<le> MAX_BLOCKSIZE then Inr ()
            else Inl (BadSuperblock ''dirblklog does not describe a directory block''))"

definition validate_groups :: "Superblock \<Rightarrow> unit res" where
  "validate_groups sb =
     (if sb_agcount sb = 0 then Inl (BadSuperblock ''agcount is zero'')
      else if sb_agblocks sb = 0 then Inl (BadSuperblock ''agblocks is zero'')
      else
        let need = 32 - leading_zeros32 (sb_agblocks sb - 1)
        in if ucast (sb_agblklog sb) < need \<or> 32 < sb_agblklog sb
           then Inl (BadSuperblock ''agblklog does not describe agblocks'')
           else if ucast (sb_agcount sb) * ucast (sb_agblocks sb) < sb_dblocks sb
           then Inl (BadSuperblock ''agcount * agblocks does not cover dblocks'')
           else if has_internal_log sb \<and>
             (case split_fsblock sb (sb_logstart sb) of (agno, agbno) \<Rightarrow>
                sb_agcount sb \<le> agno \<or>
                \<not> (case checked_add64 (ucast agbno) (ucast (sb_logblocks sb)) of
                     None \<Rightarrow> False
                   | Some e \<Rightarrow> e \<le> ucast (sb_agblocks sb)))
           then Inl (BadSuperblock ''the internal log does not fit its group'')
           else if sb_rootino sb = 0 then Inl (BadSuperblock ''root inode number is zero'')
           else if sb_inprogress sb \<noteq> 0
           then Inl (BadSuperblock ''sb_inprogress set'')
           else Inr ())"

definition validate :: "Superblock \<Rightarrow> unit res" where
  "validate sb = rbind (validate_sizes sb) (\<lambda>_. validate_groups sb)"

text \<open>The part of \<^verbatim>\<open>parse\<close> before any field is trusted: magic, version, sector size, checksum and the
  legacy feature words.  It returns \<open>sb_versionnum\<close> and whether the volume is v5.\<close>

definition parse_gate :: "crc_crate \<Rightarrow> bytes \<Rightarrow> (u16 \<times> bool) res" where
  "parse_gate C buf =
     (if length buf < XFS_SB_SIZE then Inl (BadSuperblock ''need 264 bytes'')
      else
        rbind (be32 buf 0) (\<lambda>magic.
        if magic \<noteq> XFS_SB_MAGIC then Inl (NotXfs magic)
        else
          rbind (be16 buf 100) (\<lambda>versionnum.
          let ver = versionnum AND XFS_SB_VERSION_NUMBITS
          in if \<not> (4 \<le> ver \<and> ver \<le> 5) then Inl (BadSuperblock ''unsupported version'')
             else
               let v5 = (ver = 5)
               in rbind (be16 buf 102) (\<lambda>sectsize.
                  if \<not> (512 \<le> sectsize \<and> sectsize \<le> 32768) \<or> \<not> is_power_of_two sectsize
                  then Inl (BadSuperblock ''sectsize is not a sane power of two'')
                  else
                    rbind (if v5 then verify_checksum C buf sectsize else Inr ()) (\<lambda>_.
                    if versionnum AND SHAREDBIT \<noteq> 0
                    then Inl (UnsupportedFeature ''legacy shared superblock (sharedbit)'')
                    else
                      rbind
                        (if versionnum AND MOREBITSBIT \<noteq> 0
                         then
                           rbind (be32 buf 200) (\<lambda>f2. rbind (be32 buf 204) (\<lambda>bad2.
                             let known = FEATURES2_SUPPORTED OR (if v5 then FEATURES2_CRCBIT else 0);
                                 unknown = (f2 OR bad2) AND NOT known
                             in if unknown \<noteq> 0
                                then Inl (UnsupportedFeature ''unknown legacy features2 bits'')
                                else Inr ()))
                         else Inr ())
                        (\<lambda>_. Inr (versionnum, v5)))))))"

definition trim_nuls :: "bytes \<Rightarrow> bytes" where
  "trim_nuls b = rev (dropWhile (\<lambda>x. x = 0) (rev b))"

text \<open>The fields of the structure, read in the order the source lists them.\<close>

definition parse_fields :: "bytes \<Rightarrow> u16 \<Rightarrow> bool \<Rightarrow> Superblock res" where
  "parse_fields buf versionnum v5 =
     rbind (if v5 then be32 buf 208 else Inr 0) (\<lambda>features_compat.
     rbind (if v5 then be32 buf 212 else Inr 0) (\<lambda>features_ro_compat.
     rbind (if v5 then be32 buf 216 else Inr 0) (\<lambda>features_incompat.
     rbind (if v5 then be32 buf 220 else Inr 0) (\<lambda>features_log_incompat.
     rbind (reject_unsupported_features features_incompat) (\<lambda>_.
     rbind (uuid_at buf 32) (\<lambda>uuid.
     rbind (if v5 \<and> features_incompat AND INCOMPAT_META_UUID \<noteq> 0 then uuid_at buf 248 else Inr uuid) (\<lambda>meta_uuid.
     rbind (slice buf 108 12) (\<lambda>fname_raw.
     rbind (be32 buf 4) (\<lambda>blocksize.
     rbind (be64 buf 8) (\<lambda>dblocks.
     rbind (be64 buf 16) (\<lambda>rblocks.
     rbind (be64 buf 48) (\<lambda>logstart.
     rbind (be64 buf 56) (\<lambda>rootino.
     rbind (be32 buf 84) (\<lambda>agblocks.
     rbind (be32 buf 88) (\<lambda>agcount.
     rbind (be32 buf 96) (\<lambda>logblocks.
     rbind (be16 buf 102) (\<lambda>sectsize.
     rbind (be16 buf 104) (\<lambda>inodesize.
     rbind (be16 buf 106) (\<lambda>inopblock.
     rbind (byte_at buf 120) (\<lambda>blocklog.
     rbind (byte_at buf 121) (\<lambda>sectlog.
     rbind (byte_at buf 122) (\<lambda>inodelog.
     rbind (byte_at buf 123) (\<lambda>inopblog.
     rbind (byte_at buf 124) (\<lambda>agblklog.
     rbind (byte_at buf 126) (\<lambda>inprogress.
     rbind (be64 buf 128) (\<lambda>icount.
     rbind (be64 buf 136) (\<lambda>ifree.
     rbind (be64 buf 144) (\<lambda>fdblocks.
     rbind (be32 buf 180) (\<lambda>inoalignmt.
     rbind (byte_at buf 192) (\<lambda>dirblklog.
     rbind (be32 buf 196) (\<lambda>logsunit.
     rbind (be32 buf 200) (\<lambda>features2.
     rbind (if v5 then be32 buf 228 else Inr 0) (\<lambda>spino_align.
     rbind (be64 buf 24) (\<lambda>rextents.
     rbind (be64 buf 64) (\<lambda>rbmino.
     rbind (be64 buf 72) (\<lambda>rsumino.
     rbind (be32 buf 80) (\<lambda>rextsize.
     rbind (be32 buf 92) (\<lambda>rbmblocks.
     rbind (byte_at buf 125) (\<lambda>rextslog.
     rbind (byte_at buf 127) (\<lambda>imax_pct.
     rbind (be64 buf 152) (\<lambda>frextents.
     rbind (be64 buf 160) (\<lambda>uquotino.
     rbind (be64 buf 168) (\<lambda>gquotino.
     rbind (be16 buf 176) (\<lambda>qflags.
     rbind (byte_at buf 178) (\<lambda>flags.
     rbind (byte_at buf 179) (\<lambda>shared_vn.
     rbind (be32 buf 184) (\<lambda>unit.
     rbind (be32 buf 188) (\<lambda>width.
     rbind (byte_at buf 193) (\<lambda>logsectlog.
     rbind (be16 buf 194) (\<lambda>logsectsize.
     rbind (be32 buf 204) (\<lambda>bad_features2.
     rbind (if v5 then be64 buf 232 else Inr 0) (\<lambda>pquotino.
     rbind (if v5 then be64 buf 240 else Inr 0) (\<lambda>lsn.
       Inr \<lparr>sb_blocksize = blocksize, sb_dblocks = dblocks, sb_rblocks = rblocks, sb_uuid = uuid,
            sb_logstart = logstart, sb_rootino = rootino, sb_agblocks = agblocks, sb_agcount = agcount,
            sb_logblocks = logblocks, sb_versionnum = versionnum, sb_sectsize = sectsize, sb_inodesize = inodesize,
            sb_inopblock = inopblock, sb_blocklog = blocklog, sb_sectlog = sectlog, sb_inodelog = inodelog,
            sb_inopblog = inopblog, sb_agblklog = agblklog, sb_inprogress = inprogress, sb_icount = icount,
            sb_ifree = ifree, sb_fdblocks = fdblocks, sb_inoalignmt = inoalignmt, sb_dirblklog = dirblklog,
            sb_logsunit = logsunit, sb_features2 = features2, sb_features_compat = features_compat, sb_features_ro_compat = features_ro_compat,
            sb_features_incompat = features_incompat, sb_features_log_incompat = features_log_incompat, sb_spino_align = spino_align, sb_meta_uuid = meta_uuid,
            sb_fname = trim_nuls fname_raw, sb_rextents = rextents, sb_rbmino = rbmino, sb_rsumino = rsumino,
            sb_rextsize = rextsize, sb_rbmblocks = rbmblocks, sb_rextslog = rextslog, sb_imax_pct = imax_pct,
            sb_frextents = frextents, sb_uquotino = uquotino, sb_gquotino = gquotino, sb_qflags = qflags,
            sb_flags = flags, sb_shared_vn = shared_vn, sb_unit = unit, sb_width = width,
            sb_logsectlog = logsectlog, sb_logsectsize = logsectsize, sb_bad_features2 = bad_features2, sb_pquotino = pquotino,
            sb_lsn = lsn\<rparr>)))))))))))))))))))))))))))))))))))))))))))))))))))))"

definition superblock_parse :: "crc_crate \<Rightarrow> bytes \<Rightarrow> Superblock res" where
  "superblock_parse C buf =
     rbind (parse_gate C buf) (\<lambda>(versionnum, v5).
     rbind (parse_fields buf versionnum v5) (\<lambda>sb.
     rbind (validate sb) (\<lambda>_. Inr sb)))"

definition parse_copy :: "crc_crate \<Rightarrow> bytes \<Rightarrow> Superblock res" where
  "parse_copy C buf =
     (if superblock_parse C buf = Inl (BadSuperblock ''sb_inprogress set'')
      then
        rbind (put buf 126 [0]) (\<lambda>copy.
        rbind (be16 buf 100) (\<lambda>vn.
        rbind
          (if vn AND XFS_SB_VERSION_NUMBITS = 5
           then
             rbind (be16 buf 102) (\<lambda>ss.
             rbind (slice buf 0 (min (unat ss) (length buf))) (\<lambda>whole.
             rbind (crc32c_with_zeroed_crc C whole SB_CRC_OFFSET) (\<lambda>crc.
             rbind (le32 buf SB_CRC_OFFSET) (\<lambda>stored.
             if crc \<noteq> stored then Inl (ChecksumMismatch ''superblock copy'' 0)
             else
               rbind (slice copy 0 (min (unat ss) (length copy))) (\<lambda>cleared.
               rbind (crc32c_with_zeroed_crc C cleared SB_CRC_OFFSET) (\<lambda>crc'.
                 put copy SB_CRC_OFFSET (le_bytes32 crc')))))))
           else Inr copy) (\<lambda>copy'.
        rbind (superblock_parse C copy') (\<lambda>sb. Inr (sb\<lparr>sb_inprogress := 1\<rparr>)))))
      else superblock_parse C buf)"

declare bit_length.simps [simp del]

section \<open>Words read as numbers\<close>

lemma unat_push_bit_one: "n < LENGTH('a) \<Longrightarrow> unat (push_bit n (1 :: 'a::len word)) = 2 ^ n"
  unfolding unsigned_push_bit_eq by (simp add: push_bit_eq_mult take_bit_eq_mod)

lemma unat_push_bit: "unat (push_bit n (w :: 'a::len word)) = (unat w * 2 ^ n) mod 2 ^ LENGTH('a)"
  unfolding unsigned_push_bit_eq by (simp add: push_bit_eq_mult take_bit_eq_mod)

lemma unat_drop_bit: "unat (drop_bit n (w :: 'a::len word)) = unat w div 2 ^ n"
  unfolding unsigned_drop_bit_eq by (simp add: drop_bit_eq_div take_bit_eq_mod)

lemma checked_shl_one:
  "checked_shl (1 :: 'a::len word) n = Some w \<longleftrightarrow> n < LENGTH('a) \<and> unat w = 2 ^ n"
  unfolding checked_shl_def word_eq_unat option.inject
  using unat_push_bit_one [where 'a = 'a, of n] by (auto simp: word_eq_unat simp del: push_bit_of_1)

lemma is_power_of_two_exp:
  assumes "unat (w :: 'a::len word) = 2 ^ n" "n < LENGTH('a)"
  shows "is_power_of_two w"
proof -
  have w: "w = push_bit n 1" using assms unat_push_bit_one [OF assms(2)] by (simp only: word_eq_unat)
  have "push_bit n 1 - 1 = (mask n :: 'a word)" by (simp add: mask_eq_exp_minus_1 push_bit_eq_mult)
  then have "w AND (w - 1) = 0" unfolding w by (intro bit_word_eqI) (auto simp: bit_simps)
  moreover have "w \<noteq> 0" using assms by auto
  ultimately show ?thesis by (simp add: is_power_of_two_def)
qed

lemma bit_length_le: "bit_length m \<le> k \<longleftrightarrow> m < 2 ^ k"
proof (induction k arbitrary: m)
  case 0
  then show ?case by (subst bit_length.simps) auto
next
  case (Suc k)
  have "bit_length m \<le> Suc k \<longleftrightarrow> m = 0 \<or> bit_length (m div 2) \<le> k"
    by (subst bit_length.simps) auto
  then show ?case using Suc.IH [of "m div 2"] by auto
qed

lemma mask_and64:
  assumes "n < 64"
  shows "w AND (shl64 1 n - 1) = take_bit n w" "unat (w AND (shl64 1 n - 1)) = unat w mod 2 ^ n"
proof -
  have "shl64 1 n - 1 = mask n" using assms by (simp add: shl64_def mask_eq_exp_minus_1 push_bit_eq_mult)
  then show "w AND (shl64 1 n - 1) = take_bit n w" by (simp add: take_bit_eq_mask)
  then show "unat (w AND (shl64 1 n - 1)) = unat w mod 2 ^ n"
    using assms by (metis take_bit_eq_mod unsigned_take_bit_eq)
qed

lemma unat_shr64: "n < 64 \<Longrightarrow> unat (shr64 w n) = unat w div 2 ^ n"
  by (simp add: shr64_def unat_drop_bit)

lemma unat_ucast_mod: "unat (ucast (w :: u64) :: u32) = unat w mod 2 ^ 32"
  by (simp add: unsigned_ucast_eq take_bit_eq_mod)

section \<open>The geometry a superblock promises\<close>

definition sizes_ok :: "Superblock \<Rightarrow> bool" where
  "sizes_ok sb \<longleftrightarrow>
     (unat (sb_blocksize sb) = 2 ^ unat (sb_blocklog sb) \<and>
        512 \<le> unat (sb_blocksize sb) \<and> unat (sb_blocksize sb) \<le> 65536) \<and>
     (unat (sb_sectsize sb) = 2 ^ unat (sb_sectlog sb) \<and>
        512 \<le> unat (sb_sectsize sb) \<and> unat (sb_sectsize sb) \<le> 32768) \<and>
     (unat (sb_inodesize sb) = 2 ^ unat (sb_inodelog sb) \<and>
        256 \<le> unat (sb_inodesize sb) \<and> unat (sb_inodesize sb) \<le> 2048) \<and>
     unat (sb_inopblock sb) = unat (sb_blocksize sb) div unat (sb_inodesize sb) \<and>
     unat (sb_inopblock sb) = 2 ^ unat (sb_inopblog sb) \<and>
     unat (sb_blocksize sb) * 2 ^ unat (sb_dirblklog sb) \<le> 65536"

definition groups_ok :: "Superblock \<Rightarrow> bool" where
  "groups_ok sb \<longleftrightarrow>
     0 < unat (sb_agcount sb) \<and> 0 < unat (sb_agblocks sb) \<and>
     (unat (sb_agblocks sb) \<le> 2 ^ unat (sb_agblklog sb) \<and> unat (sb_agblklog sb) \<le> 32) \<and>
     unat (sb_dblocks sb) \<le> unat (sb_agcount sb) * unat (sb_agblocks sb) \<and>
     (sb_logstart sb \<noteq> 0 \<longrightarrow>
        unat (sb_logstart sb) div 2 ^ unat (sb_agblklog sb) mod 2 ^ 32 < unat (sb_agcount sb) \<and>
        unat (sb_logstart sb) mod 2 ^ unat (sb_agblklog sb) + unat (sb_logblocks sb)
          \<le> unat (sb_agblocks sb)) \<and>
     sb_rootino sb \<noteq> 0 \<and> sb_inprogress sb = 0"

definition geometry_ok :: "Superblock \<Rightarrow> bool" where
  "geometry_ok sb \<longleftrightarrow> sizes_ok sb \<and> groups_ok sb"

lemma pow2_bound: "(2 :: nat) ^ n \<le> 2 ^ k \<longleftrightarrow> n \<le> k"
  by simp

lemma dirblk_ok:
  assumes "unat bs = 2 ^ bl" "9 \<le> bl" "bl \<le> (16 :: nat)"
  shows "(case checked_shl (bs :: u32) d of None \<Rightarrow> False | Some n \<Rightarrow> bs \<le> n \<and> n \<le> MAX_BLOCKSIZE)
     \<longleftrightarrow> unat bs * 2 ^ d \<le> 65536"
proof (cases "bl + d < 32")
  case True
  have "(2 :: nat) ^ (bl + d) < 2 ^ 32" using True by (intro power_strict_increasing) auto
  then have "unat (push_bit d bs) = unat bs * 2 ^ d" using assms(1) by (simp add: unat_push_bit power_add)
  then show ?thesis using True by (auto simp: checked_shl_def MAX_BLOCKSIZE_def to_nat)
next
  case False
  have small: "(2 :: nat) ^ bl * 2 ^ d \<ge> 2 ^ 32"
    using False by (simp only: power_add [symmetric] pow2_bound)
  have "2 ^ 32 dvd (2 :: nat) ^ (bl + d)" using False by (intro le_imp_power_dvd) auto
  then have "unat (push_bit d bs) = 0" using assms(1) by (simp add: unat_push_bit power_add)
  then have "\<not> bs \<le> push_bit d bs" using assms(1) by (simp add: to_nat)
  then show ?thesis using small assms(1) by (auto simp: checked_shl_def)
qed

lemma pow2_range: "2 ^ a \<le> (2 :: nat) ^ n \<Longrightarrow> 2 ^ n \<le> (2 :: nat) ^ b \<Longrightarrow> a \<le> n \<and> n \<le> b"
  by simp

text \<open>A size and its logarithm: the range, the power-of-two test and \<^verbatim>\<open>checked_shl\<close> together.\<close>

lemma sane_exp:
  fixes w lo hi :: "'a::len word"
  shows "((lo \<le> w \<and> w \<le> hi) \<and> is_power_of_two w) \<and> checked_shl 1 n = Some w \<longleftrightarrow>
    unat w = 2 ^ n \<and> unat lo \<le> unat w \<and> unat w \<le> unat hi"
proof -
  have "n < LENGTH('a)" if "unat w = 2 ^ n"
    using that unsigned_less [of w] by (metis nat_power_less_imp_less zero_less_numeral)
  then show ?thesis using is_power_of_two_exp by (auto simp: checked_shl_one word_le_nat_alt)
qed

lemma validate_sizes_tests:
  "validate_sizes sb = Inr () \<longleftrightarrow>
     (((512 \<le> sb_blocksize sb \<and> sb_blocksize sb \<le> 65536) \<and> is_power_of_two (sb_blocksize sb)) \<and>
        checked_shl 1 (unat (sb_blocklog sb)) = Some (sb_blocksize sb)) \<and>
     (((512 \<le> sb_sectsize sb \<and> sb_sectsize sb \<le> 32768) \<and> is_power_of_two (sb_sectsize sb)) \<and>
        checked_shl 1 (unat (sb_sectlog sb)) = Some (sb_sectsize sb)) \<and>
     (((256 \<le> sb_inodesize sb \<and> sb_inodesize sb \<le> 2048) \<and> is_power_of_two (sb_inodesize sb)) \<and>
        checked_shl 1 (unat (sb_inodelog sb)) = Some (sb_inodesize sb)) \<and>
     ucast (sb_inopblock sb) = sb_blocksize sb div ucast (sb_inodesize sb) \<and>
     checked_shl 1 (unat (sb_inopblog sb)) = Some (ucast (sb_inopblock sb) :: u32) \<and>
     (case checked_shl (sb_blocksize sb) (unat (sb_dirblklog sb)) of None \<Rightarrow> False
      | Some n \<Rightarrow> sb_blocksize sb \<le> n \<and> n \<le> MAX_BLOCKSIZE)"
  unfolding validate_sizes_def refuse_Inr
  by (cases "checked_shl (sb_blocksize sb) (unat (sb_dirblklog sb))") (simp_all only: option.case accept_Inr, auto)

lemma validate_sizes_iff: "validate_sizes sb = Inr () \<longleftrightarrow> sizes_ok sb"
proof -
  have inop: "ucast (sb_inopblock sb) = sb_blocksize sb div ucast (sb_inodesize sb) \<longleftrightarrow>
      unat (sb_inopblock sb) = unat (sb_blocksize sb) div unat (sb_inodesize sb)"
    by (simp add: word_eq_unat unat_div)
  have log: "checked_shl 1 (unat (sb_inopblog sb)) = Some (ucast (sb_inopblock sb) :: u32) \<longleftrightarrow>
      unat (sb_inopblock sb) = 2 ^ unat (sb_inopblog sb)"
  proof -
    have "unat (sb_inopblog sb) < 32" if "unat (sb_inopblock sb) = 2 ^ unat (sb_inopblog sb)"
      using that unat_lt16 [of "sb_inopblock sb"] pow2_bound [of 32 "unat (sb_inopblog sb)"] by (cases "unat (sb_inopblog sb) < 32") auto
    then show ?thesis by (auto simp: checked_shl_one)
  qed
  have dir: "(case checked_shl (sb_blocksize sb) (unat (sb_dirblklog sb)) of None \<Rightarrow> False
      | Some n \<Rightarrow> sb_blocksize sb \<le> n \<and> n \<le> MAX_BLOCKSIZE) \<longleftrightarrow>
      unat (sb_blocksize sb) * 2 ^ unat (sb_dirblklog sb) \<le> 65536"
    if "unat (sb_blocksize sb) = 2 ^ unat (sb_blocklog sb) \<and> 512 \<le> unat (sb_blocksize sb) \<and> unat (sb_blocksize sb) \<le> 65536"
    using dirblk_ok [of "sb_blocksize sb" "unat (sb_blocklog sb)"] pow2_range [of 9 "unat (sb_blocklog sb)" 16] that
    by simp
  have nums: "unat (512 :: u32) = 512" "unat (65536 :: u32) = 65536" "unat (512 :: u16) = 512"
    "unat (32768 :: u16) = 32768" "unat (256 :: u16) = 256" "unat (2048 :: u16) = 2048"
    by simp_all
  show ?thesis
    unfolding validate_sizes_tests sane_exp sizes_ok_def inop log nums using dir by blast
qed

lemma split_fsblock_nat:
  assumes "unat (sb_agblklog sb) \<le> 32" "split_fsblock sb f = (ag, b)"
  shows "unat ag = unat f div 2 ^ unat (sb_agblklog sb) mod 2 ^ 32"
    "unat b = unat f mod 2 ^ unat (sb_agblklog sb)"
proof -
  let ?k = "unat (sb_agblklog sb)"
  have k: "?k < 64" using assms(1) by simp
  have "unat f mod 2 ^ ?k < 2 ^ ?k" by simp
  also have "(2 :: nat) ^ ?k \<le> 2 ^ 32" using assms(1) by (simp only: pow2_bound)
  finally have small: "unat f mod 2 ^ ?k < 2 ^ 32" .
  show "unat ag = unat f div 2 ^ ?k mod 2 ^ 32"
    using assms(2) k by (auto simp: split_fsblock_def Let_def unat_ucast_mod unat_shr64)
  show "unat b = unat f mod 2 ^ ?k"
    using assms(2) small mask_and64(2) [OF k, of f] by (auto simp: split_fsblock_def Let_def unat_ucast_mod)
qed

lemma agblklog_test:
  assumes "b \<noteq> 0"
  shows "\<not> (ucast (l :: u8) < 32 - leading_zeros32 (b - 1) \<or> 32 < l) \<longleftrightarrow> unat b \<le> 2 ^ unat l \<and> unat l \<le> 32"
proof -
  have b1: "unat (b - 1) = unat b - 1" using assms by (simp add: unat_sub_le unat_gt_0 [symmetric] Suc_leI)
  have len: "bit_length (unat b - 1) \<le> 32" using unat_lt32 [of b] by (simp add: bit_length_le)
  then have lz: "unat (leading_zeros32 (b - 1)) = 32 - bit_length (unat b - 1)"
    unfolding leading_zeros32_def b1 unat_of_nat by simp
  then have "unat (32 - leading_zeros32 (b - 1)) = bit_length (unat b - 1)"
    using len by (simp add: unat_sub_le)
  then have "ucast l < 32 - leading_zeros32 (b - 1) \<longleftrightarrow> unat l < bit_length (unat b - 1)"
    by (simp add: word_less_nat_alt)
  moreover have "\<not> unat l < bit_length (unat b - 1) \<longleftrightarrow> unat b \<le> 2 ^ unat l"
    using assms bit_length_le [of "unat b - 1" "unat l"] by (auto simp: not_less unat_gt_0 [symmetric])
  ultimately show ?thesis by (auto simp: to_nat)
qed

lemma validate_groups_iff: "validate_groups sb = Inr () \<longleftrightarrow> groups_ok sb"
proof -
  obtain ag b where split: "split_fsblock sb (sb_logstart sb) = (ag, b)" by fastforce
  have log: "\<not> (has_internal_log sb \<and> (sb_agcount sb \<le> ag \<or> \<not> (case checked_add64 (ucast b) (ucast (sb_logblocks sb)) of
        None \<Rightarrow> False | Some e \<Rightarrow> e \<le> ucast (sb_agblocks sb)))) \<longleftrightarrow>
      (sb_logstart sb \<noteq> 0 \<longrightarrow>
        unat (sb_logstart sb) div 2 ^ unat (sb_agblklog sb) mod 2 ^ 32 < unat (sb_agcount sb) \<and>
        unat (sb_logstart sb) mod 2 ^ unat (sb_agblklog sb) + unat (sb_logblocks sb) \<le> unat (sb_agblocks sb))"
    if "unat (sb_agblklog sb) \<le> 32"
    using split_fsblock_nat [OF that split] unat_lt32 [of b] unat_lt32 [of "sb_logblocks sb"]
    by (auto simp: has_internal_log_def checked_add64_def to_nat)
  have dblocks: "\<not> ucast (sb_agcount sb) * ucast (sb_agblocks sb) < sb_dblocks sb \<longleftrightarrow>
      unat (sb_dblocks sb) \<le> unat (sb_agcount sb) * unat (sb_agblocks sb)"
    using unat_mul32_64 by (simp add: to_nat not_less)
  have zero: "c \<noteq> 0 \<longleftrightarrow> 0 < unat c" for c :: u32 by (simp add: unat_gt_0)
  show ?thesis
    unfolding validate_groups_def groups_ok_def Let_def refuse_Inr split prod.case dblocks
    using agblklog_test [of "sb_agblocks sb" "sb_agblklog sb"] log
    by (simp add: zero) blast
qed

lemma validate_iff: "validate sb = Inr () \<longleftrightarrow> geometry_ok sb"
  by (cases "validate_sizes sb = Inr ()")
    (auto simp: validate_def rbind_eq_Inr geometry_ok_def validate_sizes_iff [symmetric] validate_groups_iff [symmetric])

section \<open>Parsing\<close>

lemma parse_fields_no_panic: "264 \<le> length buf \<Longrightarrow> \<not> panics (parse_fields buf vn v5)"
  by (simp add: parse_fields_def reject_unsupported_features_def Let_def read_panics_iff slice_def)

lemma parse_gate_no_panic: "\<not> panics (parse_gate C buf)"
  by (auto simp: parse_gate_def XFS_SB_SIZE_def SB_CRC_OFFSET_def verify_checksum_def crc32c_with_zeroed_crc_def
      Let_def read_panics_iff slice_def to_nat)

lemma parse_gate_length: "parse_gate C buf = Inr r \<Longrightarrow> 264 \<le> length buf"
  by (auto simp: parse_gate_def XFS_SB_SIZE_def split: if_splits)

lemma superblock_parse_no_panic: "\<not> panics (superblock_parse C buf)"
  using parse_gate_no_panic [of C buf] parse_fields_no_panic [of buf] parse_gate_length [of C buf]
  by (auto simp: superblock_parse_def validate_def validate_sizes_def validate_groups_def Let_def
      split: option.splits prod.splits)

lemma parse_fields_versionnum: "parse_fields buf vn v5 = Inr sb \<Longrightarrow> sb_versionnum sb = vn"
  unfolding parse_fields_def rbind_eq_Inr
  by (elim exE conjE, drule sum.inject(2) [THEN iffD1], hypsubst, simp only: Superblock.simps)

lemma parse_fields_features:
  "parse_fields buf vn v5 = Inr sb \<Longrightarrow> \<exists>u. reject_unsupported_features (sb_features_incompat sb) = Inr u"
  unfolding parse_fields_def rbind_eq_Inr
  by (elim exE conjE, drule sum.inject(2) [THEN iffD1], hypsubst, rule exI, simp only: Superblock.simps)

lemma reject_unsupported_iff:
  "reject_unsupported_features f = Inr () \<longleftrightarrow> f AND INCOMPAT_NEEDSREPAIR = 0 \<and> f AND NOT INCOMPAT_SUPPORTED = 0"
  by (auto simp: reject_unsupported_features_def Let_def)

lemma parse_gate_Inr:
  assumes "parse_gate C buf = Inr (vn, v5)"
  shows "be32 buf 0 = Inr XFS_SB_MAGIC" "be16 buf 100 = Inr vn" "v5 = (vn AND XFS_SB_VERSION_NUMBITS = 5)"
    "vn AND XFS_SB_VERSION_NUMBITS = 4 \<or> vn AND XFS_SB_VERSION_NUMBITS = 5"
    "v5 \<Longrightarrow> rbind (be16 buf 102) (verify_checksum C buf) = Inr ()"
    "\<exists>ss. be16 buf 102 = Inr ss \<and> 512 \<le> unat ss"
proof -
  let ?ver = "vn AND XFS_SB_VERSION_NUMBITS"
  have *: "be32 buf 0 = Inr XFS_SB_MAGIC \<and> be16 buf 100 = Inr vn \<and> v5 = (?ver = 5) \<and> (4 \<le> ?ver \<and> ?ver \<le> 5) \<and>
      (v5 \<longrightarrow> rbind (be16 buf 102) (verify_checksum C buf) = Inr ()) \<and> (\<exists>ss. be16 buf 102 = Inr ss \<and> 512 \<le> ss)"
    using assms by (auto simp: parse_gate_def rbind_eq_Inr Let_def split: if_splits)
  have "w = 4 \<or> w = 5" if "4 \<le> w" "w \<le> 5" for w :: u16
    using that by (auto simp: to_nat)
  with * show "be32 buf 0 = Inr XFS_SB_MAGIC" "be16 buf 100 = Inr vn" "v5 = (?ver = 5)" "?ver = 4 \<or> ?ver = 5"
    "v5 \<Longrightarrow> rbind (be16 buf 102) (verify_checksum C buf) = Inr ()"
    "\<exists>ss. be16 buf 102 = Inr ss \<and> 512 \<le> unat ss"
    by (auto simp: word_le_nat_alt)
qed

lemma parse_gate_other_error: "parse_gate C buf \<noteq> Inl (BadSuperblock ''sb_inprogress set'')"
  by (auto simp: parse_gate_def rbind_eq_Inl verify_checksum_def crc32c_with_zeroed_crc_def slice_def
      be16_def be32_def le32_def Let_def split: if_splits)

text \<open>C36. Parsing the superblock never panics, whatever the bytes and whatever the checksum function
  returns, for the primary and for the copies.\<close>

theorem parse_never_panics: "\<not> panics (superblock_parse C buf) \<and> \<not> panics (parse_copy C buf)"
proof (cases "superblock_parse C buf = Inl (BadSuperblock ''sb_inprogress set'')")
  case True
  then obtain vn v5 where "parse_gate C buf = Inr (vn, v5)"
    using parse_gate_other_error [of C buf] by (cases "parse_gate C buf") (auto simp: superblock_parse_def)
  note gate = parse_gate_length [OF this] parse_gate_Inr(2,6) [OF this]
  then show ?thesis
    using superblock_parse_no_panic by (auto simp: parse_copy_def True read_panics_iff slice_def
        crc32c_with_zeroed_crc_def SB_CRC_OFFSET_def put_def)
next
  case False
  then show ?thesis using superblock_parse_no_panic by (simp add: parse_copy_def)
qed

lemma verify_checksum_Inr:
  "verify_checksum C buf ss = Inr () \<Longrightarrow>
    unat ss \<le> length buf \<and> crc32c_with_zeroed_crc C (take (unat ss) buf) 224 = le32 buf 224"
  by (auto simp: verify_checksum_def rbind_eq_Inr Let_def slice_def SB_CRC_OFFSET_def not_less split: if_splits)

lemma parse_fields_sectsize: "parse_fields buf vn v5 = Inr sb \<Longrightarrow> be16 buf 102 = Inr (sb_sectsize sb)"
  unfolding parse_fields_def rbind_eq_Inr
  by (elim exE conjE, drule sum.inject(2) [THEN iffD1], hypsubst, simp only: Superblock.simps)

text \<open>The structural checks accept exactly the superblocks whose geometry holds together: every
  logarithm describes its size, the inodes of a block and the directory block are what the sizes say,
  the groups cover the data section with a group-relative block number that fits its field, and an
  internal log lies inside one group.\<close>

lemma validate_exact: "validate sb = Inr () \<longleftrightarrow> geometry_ok sb"
  by (rule validate_iff)

text \<open>C28. A superblock that is returned can be relied on: it has the magic and a known version, its
  geometry holds together, it sets no incompatible feature the driver does not implement and does not
  ask for repair, and on a v5 volume the whole sector was there and the checksum stored at byte 224 is the one
  computed over the sector with that field taken as zero.\<close>

theorem parse_sound:
  assumes "superblock_parse C buf = Inr sb"
  shows "be32 buf 0 = Inr XFS_SB_MAGIC \<and> (version sb = 4 \<or> version sb = 5) \<and> geometry_ok sb \<and>
    sb_features_incompat sb AND NOT INCOMPAT_SUPPORTED = 0 \<and>
    sb_features_incompat sb AND INCOMPAT_NEEDSREPAIR = 0 \<and>
    (is_v5 sb \<longrightarrow> unat (sb_sectsize sb) \<le> length buf \<and>
       crc32c_with_zeroed_crc C (take (unat (sb_sectsize sb)) buf) 224 = le32 buf 224)"
proof -
  obtain vn v5 where gate: "parse_gate C buf = Inr (vn, v5)" and fields: "parse_fields buf vn v5 = Inr sb"
    and valid: "validate sb = Inr ()"
    using assms by (auto simp: superblock_parse_def rbind_eq_Inr)
  have "version sb = vn AND XFS_SB_VERSION_NUMBITS"
    by (simp add: version_def parse_fields_versionnum [OF fields])
  moreover have "reject_unsupported_features (sb_features_incompat sb) = Inr ()"
    using parse_fields_features [OF fields] by auto
  ultimately show ?thesis
    using parse_gate_Inr [OF gate] valid verify_checksum_Inr [of C buf "sb_sectsize sb"] parse_fields_sectsize [OF fields]
    by (simp add: validate_iff reject_unsupported_iff is_v5_def)
qed

text \<open>A v4 volume of one group of a thousand 4 KiB blocks.\<close>

definition sample_v4 :: bytes where
  "sample_v4 = [88, 70, 83, 66] @ [0, 0, 16, 0] @ replicate 6 0 @ [3, 232] @ replicate 47 0 @ [128] @
     replicate 22 0 @ [3, 232] @ [0, 0, 0, 1] @ replicate 8 0 @ [0, 4] @ [2, 0] @ [1, 0] @ [0, 16] @
     replicate 12 0 @ [12, 9, 8, 4, 10] @ replicate 139 0"

definition sample_crc :: crc_crate where
  "sample_crc = \<lparr>crc32c = (\<lambda>_. 0), crc32c_append = (\<lambda>_ _. 0)\<rparr>"

text \<open>The same volume as v5, with the rest of its sector.\<close>

definition sample_v5_sector :: bytes where
  "sample_v5_sector = sample_v4[101 := 5] @ replicate 248 0"

lemma parse_sound_witness:
  "\<exists>sb. superblock_parse sample_crc sample_v5_sector = Inr sb \<and> is_v5 sb \<and> geometry_ok sb \<and>
     crc32c_with_zeroed_crc sample_crc (take (unat (sb_sectsize sb)) sample_v5_sector) 224 = le32 sample_v5_sector 224"
proof -
  have "(case superblock_parse sample_crc sample_v5_sector of Inl _ \<Rightarrow> False | Inr sb \<Rightarrow> is_v5 sb)" by code_simp
  then obtain sb where "superblock_parse sample_crc sample_v5_sector = Inr sb" "is_v5 sb" by (auto split: sum.splits)
  with parse_sound [OF this(1)] show ?thesis by blast
qed

end
