(* ===== verification/Geometry.thy ===== *)
theory Geometry
  imports Superblock
begin

unbundle bit_operations_syntax

text \<open>
  Block and inode numbers under a sound geometry (\<^verbatim>\<open>src/src/superblock.rs\<close>): which blocks
  \<open>extent_in_bounds\<close> admits, where \<open>fsblock_offset\<close> puts them on the device, and that an inode number
  is its three parts.
\<close>

abbreviation "agshift sb \<equiv> unat (sb_agblklog sb)"
abbreviation "group_of sb f \<equiv> unat f div 2 ^ agshift sb"
abbreviation "block_in sb f \<equiv> unat f mod 2 ^ agshift sb"

text \<open>The blocks a group has: the last one is shorter when the data section is not a whole number of
  groups.\<close>

definition group_length :: "Superblock \<Rightarrow> nat \<Rightarrow> nat" where
  "group_length sb g = min (unat (sb_dblocks sb) - g * unat (sb_agblocks sb)) (unat (sb_agblocks sb))"

definition header_block :: "Superblock \<Rightarrow> nat" where
  "header_block sb = 3 * unat (sb_sectsize sb) div unat (sb_blocksize sb)"

lemma geometry_facts:
  assumes "geometry_ok sb"
  shows "agshift sb \<le> 32" "unat (sb_agblocks sb) \<le> 2 ^ agshift sb" "0 < unat (sb_agblocks sb)"
    "unat (sb_dblocks sb) \<le> unat (sb_agcount sb) * unat (sb_agblocks sb)" "0 < unat (sb_blocksize sb)"
    "unat (sb_blocksize sb) \<le> 65536"
  using assms by (auto simp: geometry_ok_def sizes_ok_def groups_ok_def)

lemma unat_headers:
  assumes "geometry_ok sb"
  shows "unat (3 * ucast (sb_sectsize sb) div ucast (sb_blocksize sb) :: u64) = header_block sb"
proof -
  have "unat (3 * ucast (sb_sectsize sb) :: u64) = 3 * unat (sb_sectsize sb)"
    using unat_lt16 [of "sb_sectsize sb"] by (simp add: unat_word_ariths)
  then show ?thesis by (simp add: unat_div header_block_def)
qed

lemma unat_group_length:
  assumes "unat agno < unat (sb_agcount sb)"
  shows "unat (min (saturating_sub64 (sb_dblocks sb) (agno * ucast (sb_agblocks sb))) (ucast (sb_agblocks sb)) :: u64)
    = group_length sb (unat agno)"
proof -
  have "unat agno * unat (sb_agblocks sb) \<le> (2 ^ 32 - 1) * (2 ^ 32 - 1)"
    using assms unat_lt32 [of "sb_agcount sb"] unat_lt32 [of "sb_agblocks sb"] by (intro mult_le_mono) auto
  then have "unat (agno * ucast (sb_agblocks sb)) = unat agno * unat (sb_agblocks sb)"
    by (simp add: unat_word_ariths)
  then show ?thesis
    by (auto simp: saturating_sub64_def group_length_def unat_min unat_sub_le word_le_nat_alt)
qed

lemma div_mod_pow_add:
  assumes "a mod 2 ^ k + c \<le> (2 :: nat) ^ k" "i < c"
  shows "(a + i) div 2 ^ k = a div 2 ^ k" "(a + i) mod 2 ^ k = a mod 2 ^ k + i"
proof -
  have "a + i = 2 ^ k * (a div 2 ^ k) + (a mod 2 ^ k + i)" by simp
  moreover have "a mod 2 ^ k + i < 2 ^ k" using assms by simp
  ultimately show "(a + i) div 2 ^ k = a div 2 ^ k" "(a + i) mod 2 ^ k = a mod 2 ^ k + i"
    by (metis div_mult_self4 div_less add_cancel_left_right power_not_zero zero_neq_numeral)
      (metis \<open>a + i = _\<close> \<open>a mod 2 ^ k + i < 2 ^ k\<close> mod_less mod_mult_self4)
qed

lemma same_group_add:
  assumes "(a + i) div 2 ^ k = a div (2 :: nat) ^ k"
  shows "(a + i) mod 2 ^ k = a mod 2 ^ k + i"
proof -
  have "2 ^ k * (a div 2 ^ k) + (a + i) mod 2 ^ k = a + i"
    using assms mult_div_mod_eq [of "2 ^ k" "a + i"] by simp
  moreover have "2 ^ k * (a div 2 ^ k) + a mod 2 ^ k = a" by simp
  ultimately show ?thesis by linarith
qed

lemma extent_in_bounds_iff:
  assumes geo: "geometry_ok sb"
  shows "extent_in_bounds sb s c \<longleftrightarrow> 0 < unat c \<and> group_of sb s < unat (sb_agcount sb) \<and>
    header_block sb < block_in sb s \<and> block_in sb s + unat c \<le> group_length sb (group_of sb s)"
    (is "?code \<longleftrightarrow> ?spec")
proof -
  note g = geometry_facts [OF geo]
  let ?k = "agshift sb" and ?z = "unat s + (unat c - 1)"
  have k: "?k < 64" using g(1) by simp
  have m: "unat (w AND (shl64 1 ?k - 1)) = unat w mod 2 ^ ?k" for w by (rule mask_and64(2) [OF k])
  have code: "?code \<longleftrightarrow> 0 < unat c \<and> ?z < 2 ^ 64 \<and> group_of sb s < unat (sb_agcount sb) \<and>
      ?z div 2 ^ ?k = group_of sb s \<and> header_block sb < block_in sb s \<and>
      ?z mod 2 ^ ?k < group_length sb (group_of sb s)"
  proof (cases "0 < unat c \<and> ?z < 2 ^ 64")
    case True
    then have c1: "unat (c - 1) = unat c - 1" by (simp add: unat_sub_le)
    have "?z < 2 ^ LENGTH(64)" using True by auto
    then have z: "unat (s + (c - 1)) = ?z" by (rule unat_add_small [of s "c - 1", unfolded c1])
    have c: "c \<noteq> 0" using True by auto
    show ?thesis
    proof (cases "group_of sb s < unat (sb_agcount sb)")
      case ag: True
      then have glen: "unat (min (saturating_sub64 (sb_dblocks sb) (shr64 s ?k * ucast (sb_agblocks sb))) (ucast (sb_agblocks sb)))
          = group_length sb (group_of sb s)"
        using unat_group_length [of "shr64 s ?k" sb] by (simp add: unat_shr64 [OF k])
      show ?thesis
        using True ag c by (simp add: extent_in_bounds_def checked_add64_def c1 Let_def to_nat unat_shr64 [OF k] z m
            unat_headers [OF geo] glen)
    next
      case False
      then show ?thesis using True c
        by (simp add: extent_in_bounds_def checked_add64_def c1 Let_def to_nat unat_shr64 [OF k])
    qed
  next
    case False
    then show ?thesis
      by (auto simp: extent_in_bounds_def checked_add64_def unat_sub_le unat_gt_0 [symmetric] Suc_le_eq split: if_splits)
  qed
  have fits: "?z < 2 ^ 64 \<and> ?z div 2 ^ ?k = group_of sb s \<and> ?z mod 2 ^ ?k = block_in sb s + (unat c - 1)" if ?spec
  proof -
    have "group_length sb (group_of sb s) \<le> 2 ^ ?k" using g(2) by (simp add: group_length_def)
    with that have room: "block_in sb s + unat c \<le> 2 ^ ?k" "unat c - 1 < unat c" by auto
    note div_mod_pow_add [OF room]
    moreover have "group_of sb s < 2 ^ 32" using that unat_lt32 [of "sb_agcount sb"] by simp
    then have "?z < 2 ^ 32 * 2 ^ ?k"
      using div_mod_pow_add(1) [OF room] by (simp add: div_less_iff_less_mult [symmetric])
    moreover have "(2 :: nat) ^ 32 * 2 ^ ?k \<le> 2 ^ 64"
      using g(1) power_increasing [of ?k 32 "2 :: nat"] by (simp add: mult_le_mono)
    ultimately show ?thesis by linarith
  qed
  show ?thesis
    unfolding code using fits same_group_add [of "unat s" "unat c - 1" ?k] by (auto simp: Suc_le_eq)
qed

lemma extent_no_wrap: "extent_in_bounds sb s c \<Longrightarrow> unat s + unat c \<le> 2 ^ 64"
  by (auto simp: extent_in_bounds_def checked_add64_def unat_sub_le unat_gt_0 [symmetric] Suc_le_eq split: if_splits)

text \<open>Where a block of a group lies, with nothing saturated.\<close>

lemma fsblock_offset_nat:
  assumes geo: "geometry_ok sb" and ag: "group_of sb f < unat (sb_agcount sb)"
    and fits: "(group_of sb f * unat (sb_agblocks sb) + block_in sb f) * unat (sb_blocksize sb) < 2 ^ 64"
  shows "unat (fsblock_offset sb f) =
    (group_of sb f * unat (sb_agblocks sb) + block_in sb f) * unat (sb_blocksize sb)"
proof -
  note g = geometry_facts [OF geo]
  obtain a b where split: "split_fsblock sb f = (a, b)" by fastforce
  have a: "unat a = group_of sb f" and b: "unat b = block_in sb f"
    using split_fsblock_nat [OF g(1) split] ag unat_lt32 [of "sb_agcount sb"] by simp_all
  let ?lin = "group_of sb f * unat (sb_agblocks sb) + block_in sb f"
  have "?lin \<le> ?lin * unat (sb_blocksize sb)" using g(5) by simp
  then have lin: "?lin < 2 ^ 64" using fits by (rule le_less_trans)
  then have "unat (saturating_add64 (saturating_mul64 (ucast a) (ucast (sb_agblocks sb))) (ucast b)) = ?lin"
    by (simp add: saturating_add64_def saturating_mul64_def a b unat_mul32_64 unat_add_small)
  then show ?thesis
    using fits by (simp add: fsblock_offset_def split saturating_mul64_def unat_word_ariths)
qed

text \<open>Four header sectors end at or before the block after the header block, when a sector is no
  larger than a block.\<close>

lemma headers_clear:
  assumes geo: "geometry_ok sb" and sect: "unat (sb_sectsize sb) \<le> unat (sb_blocksize sb)"
  shows "4 * unat (sb_sectsize sb) \<le> (header_block sb + 1) * unat (sb_blocksize sb)"
proof -
  obtain a b where ab: "unat (sb_sectsize sb) = 2 ^ a" "unat (sb_blocksize sb) = 2 ^ b"
    using geo by (auto simp: geometry_ok_def sizes_ok_def)
  then have "a \<le> b" using sect by simp
  then obtain d where d: "unat (sb_blocksize sb) = 2 ^ a * 2 ^ d"
    using ab(2) by (metis le_add_diff_inverse power_add)
  have h: "header_block sb = 3 div 2 ^ d" unfolding header_block_def ab(1) d by simp
  have "4 \<le> (3 div 2 ^ d + 1) * (2 :: nat) ^ d"
  proof (cases "d \<le> 1")
    case True
    then have "d = 0 \<or> d = 1" by auto
    then show ?thesis by auto
  next
    case False
    then have "(2 :: nat) ^ 2 \<le> 2 ^ d" by (intro power_increasing) auto
    then show ?thesis by simp
  qed
  then have "2 ^ a * 4 \<le> 2 ^ a * ((3 div 2 ^ d + 1) * (2 :: nat) ^ d)" by (intro mult_le_mono2)
  then show ?thesis by (simp add: h ab(1) d ac_simps)
qed

text \<open>The blocks of an admitted extent, one by one.\<close>

lemma extent_room:
  assumes geo: "geometry_ok sb" and ok: "extent_in_bounds sb s c"
  shows "block_in sb s + unat c \<le> 2 ^ agshift sb" "block_in sb s + unat c \<le> unat (sb_agblocks sb)"
    "group_of sb s * unat (sb_agblocks sb) + block_in sb s + unat c \<le> unat (sb_dblocks sb)"
proof -
  have "block_in sb s + unat c \<le> group_length sb (group_of sb s)" "0 < unat c"
    using ok by (simp_all add: extent_in_bounds_iff [OF geo])
  then show "block_in sb s + unat c \<le> 2 ^ agshift sb" "block_in sb s + unat c \<le> unat (sb_agblocks sb)"
    "group_of sb s * unat (sb_agblocks sb) + block_in sb s + unat c \<le> unat (sb_dblocks sb)"
    using geometry_facts(2) [OF geo] by (auto simp: group_length_def)
qed

lemma extent_block_offset:
  assumes geo: "geometry_ok sb" and dev: "unat (sb_dblocks sb) * unat (sb_blocksize sb) < 2 ^ 64"
    and ok: "extent_in_bounds sb s c" and j: "j < unat c"
  shows "unat (fsblock_offset sb (s + of_nat j)) =
    (group_of sb s * unat (sb_agblocks sb) + block_in sb s + j) * unat (sb_blocksize sb)"
proof -
  let ?g = "group_of sb s" and ?b = "block_in sb s" and ?bs = "unat (sb_blocksize sb)" and ?n = "unat (sb_agblocks sb)"
  have ag: "?g < unat (sb_agcount sb)" using ok by (simp add: extent_in_bounds_iff [OF geo])
  note room = extent_room [OF geo ok]
  have "unat s + j < 2 ^ LENGTH(64)" using extent_no_wrap [OF ok] j by auto
  moreover have "unat (of_nat j :: u64) = j" using j unat_lt64 [of c] by (simp add: unat_of_nat)
  ultimately have sj: "unat (s + of_nat j) = unat s + j" using unat_add_small [of s "of_nat j"] by simp
  have "(?g * ?n + (?b + j)) * ?bs \<le> unat (sb_dblocks sb) * ?bs" using room(3) j by (intro mult_le_mono1) simp
  then have fits: "(?g * ?n + (?b + j)) * ?bs < 2 ^ 64" using dev by (rule le_less_trans)
  show ?thesis
    using fsblock_offset_nat [OF geo, of "s + of_nat j"] div_mod_pow_add [OF room(1) j] ag fits
    by (simp add: sj add.assoc)
qed

text \<open>A volume of two groups of a thousand 4 KiB blocks.\<close>

definition sample_sb :: Superblock where
  "sample_sb =
    \<lparr>sb_blocksize = 4096, sb_dblocks = 1500, sb_rblocks = 0, sb_uuid = replicate 16 0, sb_logstart = 0,
     sb_rootino = 128, sb_agblocks = 1000, sb_agcount = 2, sb_logblocks = 0, sb_versionnum = 4,
     sb_sectsize = 512, sb_inodesize = 256, sb_inopblock = 16, sb_blocklog = 12, sb_sectlog = 9,
     sb_inodelog = 8, sb_inopblog = 4, sb_agblklog = 10, sb_inprogress = 0, sb_icount = 0,
     sb_ifree = 0, sb_fdblocks = 0, sb_inoalignmt = 0, sb_dirblklog = 0, sb_logsunit = 0,
     sb_features2 = 0, sb_features_compat = 0, sb_features_ro_compat = 0, sb_features_incompat = 0, sb_features_log_incompat = 0,
     sb_spino_align = 0, sb_meta_uuid = replicate 16 0, sb_fname = [], sb_rextents = 0, sb_rbmino = 0,
     sb_rsumino = 0, sb_rextsize = 0, sb_rbmblocks = 0, sb_rextslog = 0, sb_imax_pct = 0,
     sb_frextents = 0, sb_uquotino = 0, sb_gquotino = 0, sb_qflags = 0, sb_flags = 0,
     sb_shared_vn = 0, sb_unit = 0, sb_width = 0, sb_logsectlog = 0, sb_logsectsize = 0,
     sb_bad_features2 = 0, sb_pquotino = 0, sb_lsn = 0\<rparr>"

text \<open>The same volume with sectors of two blocks: the block behind the first half of the last header sector.\<close>

lemma wide_sector_admitted:
  "geometry_ok (sample_sb\<lparr>sb_sectsize := 8192, sb_sectlog := 13\<rparr>) \<and>
   extent_in_bounds (sample_sb\<lparr>sb_sectsize := 8192, sb_sectlog := 13\<rparr>) 7 1 \<and>
   group_of (sample_sb\<lparr>sb_sectsize := 8192, sb_sectlog := 13\<rparr>) (7 :: u64) = 0 \<and>
   3 * unat (sb_sectsize (sample_sb\<lparr>sb_sectsize := 8192, sb_sectlog := 13\<rparr>)) <
     unat (fsblock_offset (sample_sb\<lparr>sb_sectsize := 8192, sb_sectlog := 13\<rparr>) 7) \<and>
   unat (fsblock_offset (sample_sb\<lparr>sb_sectsize := 8192, sb_sectlog := 13\<rparr>) 7) <
     4 * unat (sb_sectsize (sample_sb\<lparr>sb_sectsize := 8192, sb_sectlog := 13\<rparr>))"
  by (simp add: sample_sb_def geometry_ok_def sizes_ok_def groups_ok_def extent_in_bounds_def fsblock_offset_def split_fsblock_def
      checked_add64_def Let_def shl64_def shr64_def saturating_sub64_def saturating_mul64_def saturating_add64_def to_nat)

lemma headers_inside:
  assumes "geometry_ok sb" "\<not> unat (sb_sectsize sb) \<le> unat (sb_blocksize sb)"
  shows "3 * unat (sb_sectsize sb) + unat (sb_blocksize sb) \<le> (header_block sb + 1) * unat (sb_blocksize sb)"
proof -
  have "unat (sb_blocksize sb) = 2 ^ unat (sb_blocklog sb)" "unat (sb_sectsize sb) = 2 ^ unat (sb_sectlog sb)"
    using assms(1) by (simp_all add: geometry_ok_def sizes_ok_def)
  with assms(2) have "unat (sb_blocksize sb) dvd unat (sb_sectsize sb)" by (simp add: le_imp_power_dvd)
  then show ?thesis by (simp add: header_block_def)
qed

text \<open>C29. On a volume with a sound geometry whose size in bytes fits 64 bits, an extent the bounds check admits lies where its blocks
  say: block after block on the device, inside its own group and inside the data section, so that no write
  through it can land in another group.  Where a sector is no larger than a block, it lies past all four header
  sectors of the group.  Where a sector is larger, which \<^verbatim>\<open>validate\<close> does not refuse, it lies past the first
  three and past the first block of the fourth, but no further: there is such a volume and an admitted block
  inside the sector of the group's free list.\<close>

theorem extent_on_device:
  assumes geo: "geometry_ok sb" and dev: "unat (sb_dblocks sb) * unat (sb_blocksize sb) < 2 ^ 64"
    and ok: "extent_in_bounds sb s c" and i: "i < unat c"
  shows "(let bs = unat (sb_blocksize sb); ss = unat (sb_sectsize sb); off = unat (fsblock_offset sb (s + of_nat i));
      group_start = group_of sb s * unat (sb_agblocks sb) * bs in
    off = unat (fsblock_offset sb s) + i * bs \<and>
    off + bs \<le> group_start + unat (sb_agblocks sb) * bs \<and>
    off + bs \<le> unat (sb_dblocks sb) * bs \<and>
    group_start + (if ss \<le> bs then 4 * ss else 3 * ss + bs) \<le> off) \<and>
   (\<exists>sb' f. geometry_ok sb' \<and> extent_in_bounds sb' f 1 \<and> group_of sb' f = 0 \<and>
      3 * unat (sb_sectsize sb') < unat (fsblock_offset sb' f) \<and> unat (fsblock_offset sb' f) < 4 * unat (sb_sectsize sb'))"
proof (rule conjI)
  let ?g = "group_of sb s" and ?b = "block_in sb s" and ?bs = "unat (sb_blocksize sb)" and ?ss = "unat (sb_sectsize sb)"
    and ?n = "unat (sb_agblocks sb)"
  have ok': "header_block sb < ?b" using ok by (simp add: extent_in_bounds_iff [OF geo])
  note room = extent_room [OF geo ok]
  note off = extent_block_offset [OF geo dev ok]
  have "(header_block sb + 1) * ?bs \<le> ?b * ?bs" using ok' by (intro mult_le_mono1) simp
  then have "(if ?ss \<le> ?bs then 4 * ?ss else 3 * ?ss + ?bs) \<le> ?b * ?bs"
    using headers_clear [OF geo] headers_inside [OF geo] by (auto intro: le_trans)
  moreover have "(?b + i + 1) * ?bs \<le> ?n * ?bs" "(?g * ?n + ?b + i + 1) * ?bs \<le> unat (sb_dblocks sb) * ?bs"
    using room i by (intro mult_le_mono1, simp)+
  ultimately show "let bs = ?bs; ss = ?ss; off = unat (fsblock_offset sb (s + of_nat i)); group_start = ?g * ?n * bs in
    off = unat (fsblock_offset sb s) + i * bs \<and> off + bs \<le> group_start + ?n * bs \<and> off + bs \<le> unat (sb_dblocks sb) * bs \<and>
    group_start + (if ss \<le> bs then 4 * ss else 3 * ss + bs) \<le> off"
    using off [OF i] off [of 0] i by (simp add: Let_def algebra_simps)
  show "\<exists>sb' f. geometry_ok sb' \<and> extent_in_bounds sb' f 1 \<and> group_of sb' f = 0 \<and>
      3 * unat (sb_sectsize sb') < unat (fsblock_offset sb' f) \<and> unat (fsblock_offset sb' f) < 4 * unat (sb_sectsize sb')"
    using wide_sector_admitted by blast
qed

lemma extent_on_device_witness:
  "unat (fsblock_offset sample_sb (1024 + 5)) = unat (fsblock_offset sample_sb (1024 + 2)) + 3 * 4096"
proof -
  have pre: "geometry_ok sample_sb" "extent_in_bounds sample_sb (1024 + 2) 8"
    "sb_blocksize sample_sb = 4096" "sb_dblocks sample_sb = 1500" "sb_sectsize sample_sb = 512"
    by (simp_all add: sample_sb_def geometry_ok_def sizes_ok_def groups_ok_def extent_in_bounds_def
        checked_add64_def Let_def shl64_def shr64_def saturating_sub64_def to_nat)
  from extent_on_device [OF pre(1) _ pre(2), of 3] pre(3-5) show ?thesis by (simp add: Let_def)
qed

text \<open>No two blocks share a place: admitted block numbers that map to the same device offset are
  the same block, although a block number is packed and not linear.\<close>

lemma fsblock_offset_injective:
  assumes geo: "geometry_ok sb" and dev: "unat (sb_dblocks sb) * unat (sb_blocksize sb) < 2 ^ 64"
    and ok: "extent_in_bounds sb f 1" "extent_in_bounds sb f' 1"
    and same: "fsblock_offset sb f = fsblock_offset sb f'"
  shows "f = f'"
proof -
  let ?n = "unat (sb_agblocks sb)"
  have "(group_of sb f * ?n + block_in sb f) * unat (sb_blocksize sb) =
      (group_of sb f' * ?n + block_in sb f') * unat (sb_blocksize sb)"
    using extent_block_offset [OF geo dev ok(1), of 0] extent_block_offset [OF geo dev ok(2), of 0] same by simp
  then have lin: "group_of sb f * ?n + block_in sb f = group_of sb f' * ?n + block_in sb f'"
    using geometry_facts(5) [OF geo] by simp
  have in_group: "block_in sb f < ?n" "block_in sb f' < ?n"
    using extent_room(2) [OF geo ok(1)] extent_room(2) [OF geo ok(2)] by simp_all
  have "group_of sb f = (group_of sb f * ?n + block_in sb f) div ?n" using in_group by simp
  also have "\<dots> = group_of sb f'" unfolding lin using in_group by simp
  finally have "group_of sb f = group_of sb f'" .
  moreover from this lin have "block_in sb f = block_in sb f'" by simp
  ultimately have "unat f = unat f'" by (metis div_mult_mod_eq)
  then show ?thesis by (simp add: word_eq_unat)
qed

lemma fsblock_offset_injective_witness:
  "fsblock_offset sample_sb 1026 \<noteq> fsblock_offset sample_sb 26"
proof -
  have pre: "geometry_ok sample_sb" "unat (sb_dblocks sample_sb) * unat (sb_blocksize sample_sb) < 2 ^ 64"
    "extent_in_bounds sample_sb 1026 1" "extent_in_bounds sample_sb 26 1"
    by (simp_all add: sample_sb_def geometry_ok_def sizes_ok_def groups_ok_def extent_in_bounds_def
        checked_add64_def Let_def shl64_def shr64_def saturating_sub64_def to_nat)
  from fsblock_offset_injective [OF pre] show ?thesis by auto
qed

lemma inopblog_bound:
  assumes "geometry_ok sb"
  shows "unat (sb_inopblog sb) \<le> 8"
proof -
  have *: "unat (sb_blocksize sb) \<le> 65536" "256 \<le> unat (sb_inodesize sb)"
    "2 ^ unat (sb_inopblog sb) = unat (sb_blocksize sb) div unat (sb_inodesize sb)"
    using assms by (auto simp: geometry_ok_def sizes_ok_def)
  note *(3)
  also have "unat (sb_blocksize sb) div unat (sb_inodesize sb) \<le> 65536 div unat (sb_inodesize sb)"
    using *(1) by (rule div_le_mono)
  also have "\<dots> \<le> 65536 div 256" using *(2) by (intro div_le_mono2) auto
  also have "\<dots> = (2 :: nat) ^ 8" by simp
  finally show ?thesis by (simp only: pow2_bound)
qed

text \<open>An inode number is its parts: joining a group with a group-relative number and splitting the
  result gives the group, the block and the slot back, for every group-relative number the geometry has
  bits for.\<close>

lemma ino_roundtrip:
  assumes geo: "geometry_ok sb"
    and ag: "unat ag * 2 ^ (unat (sb_inopblog sb) + agshift sb) < 2 ^ 64"
    and agino: "unat agino < 2 ^ (unat (sb_inopblog sb) + agshift sb)"
  shows "split_ino sb (join_ino sb ag agino) =
    (ag, drop_bit (unat (sb_inopblog sb)) agino, take_bit (unat (sb_inopblog sb)) agino)"
proof -
  define i where "i = unat (sb_inopblog sb)"
  define a where "a = agshift sb"
  have i: "i \<le> 8" using inopblog_bound [OF geo] by (simp add: i_def)
  have a: "a \<le> 32" using geometry_facts(1) [OF geo] by (simp add: a_def)
  have K: "unat (sb_inopblog sb + sb_agblklog sb) = i + a" "i + a < 64"
    using i a by (auto simp: i_def a_def unat_word_ariths)
  define J where "J = join_ino sb ag agino"
  have J: "J = push_bit (i + a) (ucast ag) OR ucast agino"
    using K by (simp add: J_def join_ino_def shl64_def)
  have ag_bits: "i + a + j < 64" if "bit ag j" for j
  proof -
    have "unat ag * 2 ^ (i + a) < 2 ^ (64 - (i + a)) * 2 ^ (i + a)"
      using ag K(2) unfolding i_def [symmetric] a_def [symmetric] power_add [symmetric] by simp
    then have "unat ag < 2 ^ (64 - (i + a))" by (simp only: mult_less_cancel2)
    from not_high_bit [OF this that] show ?thesis by simp
  qed
  have lo_bits: "j < i + a" if "bit agino j" for j
    using not_high_bit [OF _ that, of "i + a"] agino by (simp add: i_def a_def)
  have "ucast (drop_bit (i + a) J) = ag"
    using ag_bits lo_bits by (intro bit_word_eqI) (auto simp: J bit_simps)
  moreover have "ucast (take_bit a (drop_bit i J)) = drop_bit i agino"
    using K(2) by (intro bit_word_eqI) (auto simp: J bit_simps dest: lo_bits bit_imp_le_length)
  moreover have "ucast (take_bit i J) = take_bit i agino"
    using lo_bits by (intro bit_word_eqI) (auto simp: J bit_simps)
  ultimately show ?thesis
    using mask_and64(1) [of i J] mask_and64(1) [of a "shr64 J i"] K i a
    by (simp add: split_ino_def J_def [symmetric] Let_def i_def [symmetric] a_def [symmetric] shr64_def)
qed

lemma ino_roundtrip_witness:
  "split_ino sample_sb (join_ino sample_sb 1 133) = (1, 8, 5)"
proof -
  have "geometry_ok sample_sb" "sb_inopblog sample_sb = 4" "sb_agblklog sample_sb = 10"
    by (simp_all add: sample_sb_def geometry_ok_def sizes_ok_def groups_ok_def)
  from ino_roundtrip [OF this(1), of 1 133] this(2,3) show ?thesis by simp
qed

end
