(* ===== verification/Overlay.thy ===== *)
theory Overlay
  imports Endian
begin

text \<open>
  What a mount has logged over its device (\<^verbatim>\<open>src/src/overlay.rs\<close>): whole basic blocks kept by their byte
  offset, and reads that go through them.

  The device is the \<^verbatim>\<open>fs_core\<close> crate's, which is not part of the repository: \<^verbatim>\<open>read_at\<close> is a parameter
  \<open>dev\<close> of the definitions, and \<open>serves dev disk\<close> says it reads an image of the device.  \<^verbatim>\<open>write_at\<close>
  and \<^verbatim>\<open>flush\<close> are parameters of \<open>push\<close>.  The \<^verbatim>\<open>BTreeMap\<close> is an association list in key order.

  The abstraction is \<open>view\<close>, the bytes a reader of the mount sees.
\<close>

section \<open>Definitions\<close>

definition BBSIZE :: nat where "BBSIZE = 512"

type_synonym block_map = "(u64 \<times> bytes) list"

text \<open>\<^verbatim>\<open>BTreeMap::insert\<close>: in key order, replacing an entry of the same key.\<close>

fun bt_insert :: "u64 \<Rightarrow> bytes \<Rightarrow> block_map \<Rightarrow> block_map" where
  "bt_insert k v [] = [(k, v)]"
| "bt_insert k v ((k', v') # m) =
     (if k = k' then (k, v) # m
      else if k < k' then (k, v) # (k', v') # m
      else (k', v') # bt_insert k v m)"

text \<open>\<^verbatim>\<open>wrote\<close>, one chunk at a time: \<open>at\<close> is where the next chunk goes.\<close>

function wrote_from :: "(u64 \<Rightarrow> nat \<Rightarrow> bytes res) \<Rightarrow> block_map \<Rightarrow> u64 \<Rightarrow> bytes \<Rightarrow> block_map" where
  "wrote_from dev logged at data =
     (if data = [] then logged
      else
        let chunk = take BBSIZE data;
            block = (case map_of logged at of
                       Some b \<Rightarrow> b
                     | None \<Rightarrow> (case dev at BBSIZE of Inr b \<Rightarrow> b | Inl _ \<Rightarrow> replicate BBSIZE 0))
        in wrote_from dev (bt_insert at (blit block 0 chunk) logged) (at + of_nat BBSIZE) (drop BBSIZE data))"
  by pat_completeness auto

termination
  by (relation "measure (\<lambda>(_, _, _, data). length data)") (auto simp: BBSIZE_def)

definition wrote ::
  "(u64 \<Rightarrow> nat \<Rightarrow> bytes res) \<Rightarrow> block_map \<Rightarrow> u64 \<Rightarrow> bytes \<Rightarrow> block_map res" where
  "wrote dev logged offset data =
     (if unat offset mod BBSIZE \<noteq> 0 then Inl Panic else Inr (wrote_from dev logged offset data))"

definition forget :: "block_map \<Rightarrow> u64 \<Rightarrow> nat \<Rightarrow> block_map" where
  "forget logged offset len =
     filter (\<lambda>(at, _). \<not> (offset \<le> at \<and> at < offset + of_nat len)) logged"

definition overlay_bytes :: "block_map \<Rightarrow> nat" where
  "overlay_bytes logged = length logged * BBSIZE"

text \<open>A block device that can be written: its state after a write or a flush, and whether it failed.  A write
  that fails may have happened, in part or not at all, so the state comes back either way.\<close>

type_synonym 'd dev_write = "'d \<Rightarrow> u64 \<Rightarrow> bytes \<Rightarrow> 'd \<times> unit res"
type_synonym 'd dev_flush = "'d \<Rightarrow> 'd \<times> unit res"

text \<open>\<^verbatim>\<open>push\<close>: every write in key order, then the flush; nothing is dropped unless all succeeded.\<close>

fun push_writes :: "'d dev_write \<Rightarrow> 'd \<Rightarrow> block_map \<Rightarrow> nat \<Rightarrow> 'd \<times> nat res" where
  "push_writes write_at d [] n = (d, Inr n)"
| "push_writes write_at d ((at, block) # m) n =
     (case write_at d at block of
        (d', Inl e) \<Rightarrow> (d', Inl e)
      | (d', Inr _) \<Rightarrow> push_writes write_at d' m (n + 1))"

definition push :: "'d dev_write \<Rightarrow> 'd dev_flush \<Rightarrow> 'd \<Rightarrow> block_map \<Rightarrow> 'd \<times> block_map \<times> nat res" where
  "push write_at flush d logged =
     (case push_writes write_at d logged 0 of
        (d', Inl e) \<Rightarrow> (d', logged, Inl e)
      | (d', Inr n) \<Rightarrow>
          case flush d' of
            (d'', Inl e) \<Rightarrow> (d'', logged, Inl e)
          | (d'', Inr _) \<Rightarrow> (d'', [], Inr n))"

text \<open>\<^verbatim>\<open>read_at\<close>: the device's bytes, with the blocks of the range laid over them.\<close>

fun lay_over :: "u64 \<Rightarrow> u64 \<Rightarrow> block_map \<Rightarrow> bytes \<Rightarrow> bytes res" where
  "lay_over offset stop [] buf = Inr buf"
| "lay_over offset stop ((at, block) # m) buf =
     (let lo = max at offset;
          hi = min (at + of_nat BBSIZE) stop
      in if hi \<le> lo then lay_over offset stop m buf
         else
           rbind (slice block (unat (lo - at)) (unat (hi - at) - unat (lo - at))) (\<lambda>part.
           rbind (put buf (unat (lo - offset)) part) (lay_over offset stop m)))"

definition overlay_read_at ::
  "(u64 \<Rightarrow> nat \<Rightarrow> bytes res) \<Rightarrow> block_map \<Rightarrow> u64 \<Rightarrow> nat \<Rightarrow> bytes res" where
  "overlay_read_at dev logged offset len =
     rbind (dev offset len) (\<lambda>buf.
       if buf = [] then Inr buf
       else
         let first = offset - offset mod of_nat BBSIZE;
             stop = offset + of_nat len
         in lay_over offset stop (filter (\<lambda>(at, _). first \<le> at \<and> at < stop) logged) buf)"

text \<open>The abstraction: a device that serves an image, and the bytes seen through the overlay.\<close>

definition serves :: "(u64 \<Rightarrow> nat \<Rightarrow> bytes res) \<Rightarrow> bytes \<Rightarrow> bool" where
  "serves dev disk \<longleftrightarrow> (\<forall>off n. unat off + n \<le> length disk \<longrightarrow> dev off n = Inr (take n (drop (unat off) disk)))"

definition overlay_ok :: "bytes \<Rightarrow> block_map \<Rightarrow> bool" where
  "overlay_ok disk logged \<longleftrightarrow> sorted_wrt (\<lambda>a b. fst a < fst b) logged \<and>
     (\<forall>(at, block) \<in> set logged. unat at mod BBSIZE = 0 \<and> unat at + BBSIZE \<le> length disk \<and> length block = BBSIZE)"

definition block_key :: "nat \<Rightarrow> u64" where "block_key p = of_nat (p - p mod BBSIZE)"

definition view :: "bytes \<Rightarrow> block_map \<Rightarrow> bytes" where
  "view disk logged = map (\<lambda>p. case map_of logged (block_key p) of
      Some block \<Rightarrow> block ! (p mod BBSIZE) | None \<Rightarrow> disk ! p) [0..<length disk]"

declare wrote_from.simps [simp del]

section \<open>The block of a byte\<close>

lemma in_block:
  assumes "a mod B = 0" "0 < (B :: nat)"
  shows "p - p mod B = a \<longleftrightarrow> a \<le> p \<and> p < a + B"
proof -
  obtain q where a: "a = B * q" using assms(1) by (auto simp: mod_eq_0_iff_dvd dvd_def)
  have "p - p mod B = a \<longleftrightarrow> p div B = q" using assms(2) by (simp add: minus_mod_eq_mult_div a)
  also have "\<dots> \<longleftrightarrow> a \<le> p \<and> p < a + B"
    using assms(2) unfolding a by (metis add.commute div_nat_eqI mult_Suc_right dividend_less_times_div times_div_less_eq_dividend)
  finally show ?thesis .
qed

lemma unat_block_key: "p < 2 ^ 64 \<Longrightarrow> unat (block_key p) = p - p mod BBSIZE"
  unfolding block_key_def unat_of_nat by (intro mod_less) (simp add: less_imp_diff_less)

lemma aligned_room:
  assumes "a mod B = 0" "L mod B = 0" "a < (L :: nat)"
  shows "a + B \<le> L"
proof -
  obtain r q where "a = B * r" "L = B * q" using assms(1,2) by (auto simp: mod_eq_0_iff_dvd dvd_def)
  moreover from this have "Suc r \<le> q" using assms(3) by simp
  then have "B * Suc r \<le> B * q" by (intro mult_le_mono2)
  ultimately show ?thesis by simp
qed

lemma block_key_eq:
  assumes "unat at mod BBSIZE = 0" "p < 2 ^ 64"
  shows "block_key p = at \<longleftrightarrow> unat at \<le> p \<and> p < unat at + BBSIZE"
proof -
  have "block_key p = at \<longleftrightarrow> p - p mod BBSIZE = unat at"
    using assms(2) by (simp add: word_eq_unat unat_block_key)
  then show ?thesis using in_block [OF assms(1)] by (simp add: BBSIZE_def)
qed

lemma mod_in_block: "unat at mod BBSIZE = 0 \<Longrightarrow> unat at \<le> p \<Longrightarrow> p < unat at + BBSIZE \<Longrightarrow> p mod BBSIZE = p - unat at"
  using in_block [of "unat at" BBSIZE p] by (auto simp: BBSIZE_def)

lemma length_view [simp]: "length (view disk logged) = length disk"
  by (simp add: view_def)

lemma nth_view: "p < length disk \<Longrightarrow> view disk logged ! p =
    (case map_of logged (block_key p) of Some block \<Rightarrow> block ! (p mod BBSIZE) | None \<Rightarrow> disk ! p)"
  by (simp add: view_def split: option.split)

section \<open>Reads\<close>

lemma lay_over_spec:
  assumes "\<forall>(at, block) \<in> set m. unat at mod BBSIZE = 0 \<and> unat at + BBSIZE < 2 ^ 64 \<and> length block = BBSIZE"
    "distinct (map fst m)" "unat off + length buf = unat stop"
  shows "\<exists>buf'. lay_over off stop m buf = Inr buf' \<and> length buf' = length buf \<and>
    (\<forall>i < length buf. buf' ! i = (case map_of m (block_key (unat off + i)) of
        Some block \<Rightarrow> block ! ((unat off + i) mod BBSIZE) | None \<Rightarrow> buf ! i))"
  using assms
proof (induction m arbitrary: buf)
  case Nil
  then show ?case by simp
next
  case (Cons e m)
  obtain at block where e: "e = (at, block)" by fastforce
  have at: "unat at mod BBSIZE = 0" "unat at + BBSIZE < 2 ^ 64" "length block = BBSIZE"
    using Cons.prems(1) by (auto simp: e)
  have p: "unat off + i < 2 ^ 64" if "i < length buf" for i
    using Cons.prems(3) unat_lt64 [of stop] that by simp
  have key: "block_key (unat off + i) = at \<longleftrightarrow> unat at \<le> unat off + i \<and> unat off + i < unat at + BBSIZE"
    if "i < length buf" for i by (rule block_key_eq [OF at(1) p [OF that]])
  define lo where "lo = max at off"
  define hi where "hi = min (at + of_nat BBSIZE) stop"
  have end_at: "unat (at + of_nat BBSIZE) = unat at + BBSIZE"
    using at(2) by (simp add: unat_word_ariths BBSIZE_def)
  have lo: "unat lo = max (unat at) (unat off)" and hi: "unat hi = min (unat at + BBSIZE) (unat stop)"
    by (simp_all add: lo_def hi_def unat_max unat_min end_at)
  have fresh: "map_of m at = None" using Cons.prems(2) by (auto simp: e map_of_eq_None_iff)
  show ?case
  proof (cases "hi \<le> lo")
    case True
    have "block_key (unat off + i) \<noteq> at" if "i < length buf" for i
      using True key [OF that] that Cons.prems(3) by (auto simp: word_le_nat_alt lo hi)
    moreover obtain buf' where "lay_over off stop m buf = Inr buf'" "length buf' = length buf"
      "\<forall>i < length buf. buf' ! i = (case map_of m (block_key (unat off + i)) of
        Some block \<Rightarrow> block ! ((unat off + i) mod BBSIZE) | None \<Rightarrow> buf ! i)"
      using Cons.IH [of buf] Cons.prems by auto
    ultimately show ?thesis using True by (simp add: e Let_def lo_def hi_def)
  next
    case False
    then have lh: "unat lo < unat hi" by (simp add: word_le_nat_alt)
    define part where "part = take (unat hi - unat lo) (drop (unat lo - unat at) block)"
    define buf1 where "buf1 = blit buf (unat lo - unat off) part"
    have d: "unat (lo - at) = unat lo - unat at" "unat (hi - at) = unat hi - unat at" "unat (lo - off) = unat lo - unat off"
      using lh by (auto simp: unat_sub_le lo)
    have part: "slice block (unat (lo - at)) (unat (hi - at) - unat (lo - at)) = Inr part" "length part = unat hi - unat lo"
      using at(3) lh by (auto simp: slice_def d part_def lo hi)
    have fits: "unat lo - unat off + length part \<le> length buf"
      using part(2) Cons.prems(3) lh by (auto simp: lo hi)
    have put1: "put buf (unat (lo - off)) part = Inr buf1" using fits by (simp add: put_ok d buf1_def)
    have len1: "length buf1 = length buf" using fits by (simp add: buf1_def)
    have buf1: "buf1 ! i = (if block_key (unat off + i) = at then block ! ((unat off + i) mod BBSIZE) else buf ! i)"
      if "i < length buf" for i
      using that part(2) key [OF that] mod_in_block [OF at(1), of "unat off + i"] Cons.prems(3) at(3) lh fits
      by (auto simp: buf1_def nth_blit part_def lo hi max_def min_def add.commute split: if_splits)
    obtain buf' where "lay_over off stop m buf1 = Inr buf'" "length buf' = length buf"
      "\<forall>i < length buf. buf' ! i = (case map_of m (block_key (unat off + i)) of
        Some block \<Rightarrow> block ! ((unat off + i) mod BBSIZE) | None \<Rightarrow> buf1 ! i)"
      using Cons.IH [of buf1] Cons.prems len1 by auto
    moreover have "lay_over off stop (e # m) buf = lay_over off stop m buf1"
      using False part(1) put1 by (simp add: e Let_def lo_def [symmetric] hi_def [symmetric])
    moreover have "(case map_of m (block_key (unat off + i)) of Some block \<Rightarrow> block ! ((unat off + i) mod BBSIZE) | None \<Rightarrow> buf1 ! i) =
        (case map_of (e # m) (block_key (unat off + i)) of Some block \<Rightarrow> block ! ((unat off + i) mod BBSIZE) | None \<Rightarrow> buf ! i)"
      if "i < length buf" for i
      using buf1 [OF that] fresh by (cases "block_key (unat off + i) = at") (auto simp: e split: option.split)
    ultimately show ?thesis by auto
  qed
qed

text \<open>A device and an overlay that belong together.\<close>

definition mounted :: "(u64 \<Rightarrow> nat \<Rightarrow> bytes res) \<Rightarrow> bytes \<Rightarrow> block_map \<Rightarrow> bool" where
  "mounted dev disk logged \<longleftrightarrow> serves dev disk \<and> length disk mod BBSIZE = 0 \<and> length disk < 2 ^ 64 \<and>
     overlay_ok disk logged"

lemma map_of_filter_key: "map_of (filter (\<lambda>(k, _). P k) m) k = (if P k then map_of m k else None)"
  by (induction m) auto

lemma overlay_ok_distinct: "overlay_ok disk logged \<Longrightarrow> distinct (map fst logged)"
  by (induction logged) (auto simp: overlay_ok_def)

lemma overlay_read_view:
  assumes m: "mounted dev disk logged" and fits: "unat off + len \<le> length disk"
  shows "overlay_read_at dev logged off len = Inr (take len (drop (unat off) (view disk logged)))"
proof -
  note m' = m [unfolded mounted_def]
  define buf where "buf = take len (drop (unat off) disk)"
  have dev: "dev off len = Inr buf" using m' fits by (simp add: serves_def buf_def)
  have lb: "length buf = len" using fits by (simp add: buf_def)
  define first where "first = off - off mod of_nat BBSIZE"
  define stop where "stop = off + of_nat len"
  have stop: "unat stop = unat off + len"
    using fits m' unat_add_small [of off "of_nat len"] by (simp add: stop_def unat_of_nat)
  have first: "unat first = unat off - unat off mod BBSIZE"
    by (simp add: first_def unat_sub_le unat_mod BBSIZE_def)
  let ?in = "\<lambda>at. first \<le> at \<and> at < stop"
  have range: "?in (block_key (unat off + i))" if "i < len" for i
  proof -
    have "unat (block_key (unat off + i)) = (unat off + i) - (unat off + i) mod BBSIZE"
      using that fits m' by (intro unat_block_key) auto
    moreover have "BBSIZE * (unat off div BBSIZE) \<le> BBSIZE * ((unat off + i) div BBSIZE)"
      by (intro mult_le_mono2 div_le_mono) simp
    ultimately show ?thesis using that by (simp add: to_nat first stop minus_mod_eq_mult_div [symmetric])
  qed
  have "\<exists>buf'. lay_over off stop (filter (\<lambda>(at, _). ?in at) logged) buf = Inr buf' \<and> length buf' = length buf \<and>
    (\<forall>i < length buf. buf' ! i = (case map_of (filter (\<lambda>(at, _). ?in at) logged) (block_key (unat off + i)) of
        Some block \<Rightarrow> block ! ((unat off + i) mod BBSIZE) | None \<Rightarrow> buf ! i))"
    using m' overlay_ok_distinct
    by (intro lay_over_spec) (auto simp: overlay_ok_def stop lb distinct_map_filter)
  then obtain buf' where buf': "lay_over off stop (filter (\<lambda>(at, _). ?in at) logged) buf = Inr buf'" "length buf' = len"
    "\<forall>i < len. buf' ! i = (case map_of logged (block_key (unat off + i)) of
        Some block \<Rightarrow> block ! ((unat off + i) mod BBSIZE) | None \<Rightarrow> buf ! i)"
    using range by (auto simp: lb map_of_filter_key)
  have "buf' = take len (drop (unat off) (view disk logged))"
    using buf'(2,3) fits by (intro nth_equalityI) (auto simp: nth_view buf_def split: option.split)
  then show ?thesis
    using buf'(1) lb dev by (cases "len = 0") (auto simp: overlay_read_at_def first_def [symmetric] stop_def [symmetric] Let_def)
qed

section \<open>Writes\<close>

lemma map_of_bt_insert: "map_of (bt_insert k v m) = (map_of m)(k \<mapsto> v)"
  by (induction m) (auto simp: fun_eq_iff)

lemma set_bt_insert: "set (bt_insert k v m) \<subseteq> insert (k, v) (set m)"
  by (induction m) (auto split: if_splits)

lemma sorted_bt_insert: "sorted_wrt (\<lambda>a b. fst a < fst b) m \<Longrightarrow> sorted_wrt (\<lambda>a b. fst a < fst b) (bt_insert k v m)"
proof (induction m)
  case (Cons e m)
  have "fst x = k \<or> x \<in> set m" if "x \<in> set (bt_insert k v m)" for x
    using set_bt_insert [of k v m] that by auto
  with Cons show ?case by (cases e) fastforce
qed simp

lemma view_bt_insert:
  assumes "unat at mod BBSIZE = 0" "unat at + BBSIZE \<le> length disk" "length disk < 2 ^ 64" "length b = BBSIZE"
  shows "view disk (bt_insert at b logged) = blit (view disk logged) (unat at) b"
proof (rule nth_equalityI)
  show "length (view disk (bt_insert at b logged)) = length (blit (view disk logged) (unat at) b)"
    using assms by simp
  fix p assume "p < length (view disk (bt_insert at b logged))"
  then have p: "p < length disk" by simp
  have "block_key p = at \<longleftrightarrow> unat at \<le> p \<and> p < unat at + BBSIZE"
    using p assms by (intro block_key_eq) auto
  then show "view disk (bt_insert at b logged) ! p = blit (view disk logged) (unat at) b ! p"
    using p assms mod_in_block [OF assms(1), of p] by (auto simp: nth_view map_of_bt_insert nth_blit)
qed

lemma overlay_ok_bt_insert:
  "overlay_ok disk logged \<Longrightarrow> unat at mod BBSIZE = 0 \<Longrightarrow> unat at + BBSIZE \<le> length disk \<Longrightarrow>
     length b = BBSIZE \<Longrightarrow> overlay_ok disk (bt_insert at b logged)"
  using set_bt_insert [of at b logged] sorted_bt_insert [of logged at b] by (fastforce simp: overlay_ok_def)

text \<open>The block an entry starts from is the one the mount sees there.\<close>

lemma entry_is_view:
  assumes m: "mounted dev disk logged" and at: "unat at mod BBSIZE = 0" "unat at + BBSIZE \<le> length disk"
  shows "(case map_of logged at of Some b \<Rightarrow> b
      | None \<Rightarrow> (case dev at BBSIZE of Inr b \<Rightarrow> b | Inl _ \<Rightarrow> replicate BBSIZE 0)) =
    take BBSIZE (drop (unat at) (view disk logged))"
proof -
  note m' = m [unfolded mounted_def]
  have key: "block_key (unat at + i) = at \<and> (unat at + i) mod BBSIZE = i" if "i < BBSIZE" for i
    using that at m' block_key_eq [OF at(1), of "unat at + i"] mod_in_block [OF at(1), of "unat at + i"] by simp
  have len: "length b = BBSIZE" if "map_of logged at = Some b" for b
    using map_of_SomeD [OF that] m' by (auto simp: overlay_ok_def)
  show ?thesis
  proof (cases "map_of logged at")
    case None
    then show ?thesis using m' at key by (auto simp: serves_def nth_view intro!: nth_equalityI)
  next
    case (Some b)
    then show ?thesis using len key at by (auto simp: nth_view intro!: nth_equalityI)
  qed
qed

lemma wrote_from_view:
  assumes "mounted dev disk logged" "unat at mod BBSIZE = 0" "unat at + length data \<le> length disk"
  shows "mounted dev disk (wrote_from dev logged at data) \<and>
    view disk (wrote_from dev logged at data) = blit (view disk logged) (unat at) data"
  using assms
proof (induction dev logged at data rule: wrote_from.induct)
  case (1 dev logged at data)
  show ?case
  proof (cases "data = []")
    case True
    then show ?thesis using 1(2) by (simp add: wrote_from.simps blit_def)
  next
    case False
    note m' = 1(2) [unfolded mounted_def]
    let ?chunk = "take BBSIZE data" and ?V = "view disk logged"
    have "unat at < length disk" using False 1(4) by (cases data) auto
    then have room: "unat at + BBSIZE \<le> length disk" using aligned_room [OF 1(3), of "length disk"] m' by simp
    define block where "block = take BBSIZE (drop (unat at) ?V)"
    define logged' where "logged' = bt_insert at (blit block 0 ?chunk) logged"
    have lb: "length block = BBSIZE" using room by (simp add: block_def)
    then have lb': "length (blit block 0 ?chunk) = BBSIZE" by simp
    have step: "wrote_from dev logged at data = wrote_from dev logged' (at + of_nat BBSIZE) (drop BBSIZE data)"
      using False entry_is_view [OF 1(2,3) room] by (subst wrote_from.simps) (simp add: Let_def block_def logged'_def)
    have m1: "mounted dev disk logged'"
      using m' overlay_ok_bt_insert [OF _ 1(3) room lb'] by (simp add: mounted_def logged'_def)
    have "blit ?V (unat at) (blit block 0 ?chunk) = blit ?V (unat at) ?chunk"
      using blit_blit_inside [of "unat at" BBSIZE ?V ?chunk] room by (simp add: block_def)
    then have v1: "view disk logged' = blit ?V (unat at) ?chunk"
      unfolding logged'_def using view_bt_insert [OF 1(3) room _ lb'] m' by simp
    have nxt: "unat (at + of_nat BBSIZE) = unat at + BBSIZE"
      if "BBSIZE < length data"
      using that 1(4) m' unat_add_small [of at "of_nat BBSIZE"] by (simp add: BBSIZE_def)
    show ?thesis
    proof (cases "BBSIZE < length data")
      case True
      have "mounted dev disk (wrote_from dev logged' (at + of_nat BBSIZE) (drop BBSIZE data)) \<and>
          view disk (wrote_from dev logged' (at + of_nat BBSIZE) (drop BBSIZE data)) =
            blit (view disk logged') (unat at + BBSIZE) (drop BBSIZE data)"
        using 1(1) [OF False refl refl] m1 nxt [OF True] True 1(3,4) entry_is_view [OF 1(2,3) room]
        by (simp add: block_def [symmetric] logged'_def [symmetric])
      moreover have "blit (blit ?V (unat at) ?chunk) (unat at + BBSIZE) (drop BBSIZE data) = blit ?V (unat at) data"
        using blit_blit_adjacent [of "unat at" ?chunk "drop BBSIZE data" ?V] True 1(4) by simp
      ultimately show ?thesis by (simp add: step v1)
    next
      case False
      then show ?thesis using m1 v1 step by (simp add: wrote_from.simps [of _ _ _ "[]"])
    qed
  qed
qed

section \<open>A store of bytes\<close>

text \<open>Writes made one after another.\<close>

fun write_each :: "('s \<Rightarrow> u64 \<Rightarrow> bytes \<Rightarrow> 's res) \<Rightarrow> (u64 \<times> bytes) list \<Rightarrow> 's \<Rightarrow> 's res" where
  "write_each wr [] s = Inr s"
| "write_each wr ((off, b) # ws) s = rbind (wr s off b) (write_each wr ws)"

text \<open>
  What the components above rely on: a range reads as the store's bytes, and a write at an aligned
  offset changes the range it names and nothing else.
\<close>

locale byte_store =
  fixes inv :: "'s \<Rightarrow> bool"
    and contents :: "'s \<Rightarrow> bytes"
    and aligned :: "u64 \<Rightarrow> bool"
    and rd :: "'s \<Rightarrow> u64 \<Rightarrow> nat \<Rightarrow> bytes res"
    and wr :: "'s \<Rightarrow> u64 \<Rightarrow> bytes \<Rightarrow> 's res"
  assumes rd_contents: "inv s \<Longrightarrow> unat off + n \<le> length (contents s) \<Longrightarrow>
      rd s off n = Inr (take n (drop (unat off) (contents s)))"
    and wr_contents: "inv s \<Longrightarrow> aligned off \<Longrightarrow> unat off + length b \<le> length (contents s) \<Longrightarrow>
      \<exists>s'. wr s off b = Inr s' \<and> inv s' \<and> contents s' = blit (contents s) (unat off) b"
begin

lemma read_own_write:
  assumes "inv s" "aligned off" "unat off + length b \<le> length (contents s)"
  shows "rbind (wr s off b) (\<lambda>s'. rd s' off (length b)) = Inr b"
  using wr_contents [OF assms] assms(3) rd_contents [of _ off "length b"]
  by (auto simp: take_drop_blit_same)

lemma read_elsewhere:
  assumes "inv s" "aligned off" "unat off + length b \<le> length (contents s)"
    and "unat at + n \<le> unat off \<or> unat off + length b \<le> unat at" "unat at + n \<le> length (contents s)"
  shows "rbind (wr s off b) (\<lambda>s'. rd s' at n) = rd s at n"
proof -
  obtain s' where s': "wr s off b = Inr s'" "inv s'" "contents s' = blit (contents s) (unat off) b"
    using wr_contents [OF assms(1-3)] by blast
  then have "rd s' at n = Inr (take n (drop (unat at) (blit (contents s) (unat off) b)))"
    using assms by (simp add: rd_contents)
  then show ?thesis using assms s' by (simp add: rd_contents take_drop_blit_other)
qed

lemma write_each_contents:
  assumes "inv s" "\<forall>(off, b) \<in> set ws. aligned off \<and> unat off + length b \<le> length (contents s)"
  shows "\<exists>s'. write_each wr ws s = Inr s' \<and> inv s' \<and>
    contents s' = fold (\<lambda>(off, b) c. blit c (unat off) b) ws (contents s)"
  using assms
proof (induction ws arbitrary: s)
  case (Cons w ws)
  obtain off b where w: "w = (off, b)" by fastforce
  then obtain s1 where s1: "wr s off b = Inr s1" "inv s1" "contents s1 = blit (contents s) (unat off) b"
    using wr_contents [of s off b] Cons.prems by auto
  then have "length (contents s1) = length (contents s)" using Cons.prems by (auto simp: w)
  then show ?case using Cons.IH [of s1] Cons.prems s1 by (auto simp: w)
qed simp

end

lemma wrote_view:
  assumes "mounted dev disk logged" "unat off mod BBSIZE = 0" "unat off + length data \<le> length disk"
  shows "\<exists>logged'. wrote dev logged off data = Inr logged' \<and> mounted dev disk logged' \<and>
    view disk logged' = blit (view disk logged) (unat off) data"
  using wrote_from_view [OF assms] assms(2) by (simp add: wrote_def)

interpretation overlay_store: byte_store
  "mounted dev disk" "view disk" "\<lambda>off. unat off mod BBSIZE = 0" "overlay_read_at dev" "wrote dev" for dev disk
  by unfold_locales (auto intro: overlay_read_view wrote_view)

text \<open>C5. What a mount reads is what it last logged: after any sequence of buffers written at basic-block
  offsets, a read of any range returns the device's bytes with those buffers laid over them in the order
  they were written, and every earlier buffer not written again is still there.\<close>

theorem overlay_reads_logged:
  assumes "mounted dev disk logged"
    "\<forall>(off, b) \<in> set ws. unat off mod BBSIZE = 0 \<and> unat off + length b \<le> length disk"
    "unat at + n \<le> length disk"
  shows "\<exists>logged'. write_each (wrote dev) ws logged = Inr logged' \<and>
    overlay_read_at dev logged' at n =
      Inr (take n (drop (unat at) (fold (\<lambda>(off, b) c. blit c (unat off) b) ws (view disk logged))))"
proof -
  obtain logged' where w: "write_each (wrote dev) ws logged = Inr logged'" "mounted dev disk logged'"
    "view disk logged' = fold (\<lambda>(off, b) c. blit c (unat off) b) ws (view disk logged)"
    using overlay_store.write_each_contents [OF assms(1), of ws] assms(2) by auto
  have "overlay_read_at dev logged' at n = Inr (take n (drop (unat at) (view disk logged')))"
    by (rule overlay_store.rd_contents [OF w(2)]) (simp add: assms(3))
  then show ?thesis using w by simp
qed

text \<open>A device of four basic blocks, as an image read directly.\<close>

definition read_image :: "bytes \<Rightarrow> u64 \<Rightarrow> nat \<Rightarrow> bytes res" where
  "read_image disk off n = slice disk (unat off) n"

lemma read_image_mounted: "length disk mod BBSIZE = 0 \<Longrightarrow> length disk < 2 ^ 64 \<Longrightarrow> mounted (read_image disk) disk []"
  by (simp add: mounted_def serves_def read_image_def slice_def overlay_ok_def)

lemma overlay_reads_logged_witness:
  "\<exists>logged'. write_each (wrote (read_image (replicate 2048 0))) [(512, replicate 700 7), (1024, [9])] [] = Inr logged' \<and>
     overlay_read_at (read_image (replicate 2048 0)) logged' 1022 4 = Inr (replicate 2 7 @ [9, 7])"
proof -
  have "mounted (read_image (replicate 2048 0)) (replicate 2048 0) []"
    by (rule read_image_mounted) (simp_all add: BBSIZE_def)
  from overlay_reads_logged [OF this, of "[(512, replicate 700 7), (1024, [9])]" 1022 4]
  show ?thesis by (simp add: BBSIZE_def view_def blit_def map_replicate_const)
qed

text \<open>A cancelled buffer is let go of: the basic blocks whose offsets lie in the range read as the
  device holds them again, and every other byte of the mount's view is unchanged.\<close>

lemma forget_restores:
  assumes "mounted dev disk logged" "p < length disk"
  shows "mounted dev disk (forget logged off n) \<and>
    view disk (forget logged off n) ! p =
      (if off \<le> block_key p \<and> block_key p < off + of_nat n then disk ! p else view disk logged ! p)"
proof -
  have "mounted dev disk (forget logged off n)"
    using assms(1) by (auto simp: mounted_def overlay_ok_def forget_def sorted_wrt_filter)
  moreover have "map_of (forget logged off n) k = (if off \<le> k \<and> k < off + of_nat n then None else map_of logged k)" for k
    using map_of_filter_key [of "\<lambda>at. \<not> (off \<le> at \<and> at < off + of_nat n)" logged k] by (simp add: forget_def)
  ultimately show ?thesis using assms(2) by (simp add: nth_view)
qed

lemma forget_restores_witness:
  "view (replicate 1024 0) (forget [(512, replicate 512 5)] 512 512) ! 600 = 0"
proof -
  have "mounted (read_image (replicate 1024 0)) (replicate 1024 0) [(512, replicate 512 5)]"
    by (simp add: mounted_def serves_def read_image_def slice_def overlay_ok_def BBSIZE_def)
  from forget_restores [OF this, of 600 512 512] show ?thesis by (simp add: block_key_def BBSIZE_def)
qed

section \<open>Writing the buffers home\<close>

lemma view_Cons:
  assumes "unat at mod BBSIZE = 0" "unat at + BBSIZE \<le> length disk" "length disk < 2 ^ 64" "length b = BBSIZE"
    and "at \<notin> fst ` set m"
  shows "view disk ((at, b) # m) = view (blit disk (unat at) b) m"
proof (rule nth_equalityI)
  fix p assume "p < length (view disk ((at, b) # m))"
  then have p: "p < length disk" by simp
  have "map_of m at = None" using assms(5) by (simp add: map_of_eq_None_iff)
  moreover have "block_key p = at \<longleftrightarrow> unat at \<le> p \<and> p < unat at + BBSIZE"
    using p assms(1,3) by (intro block_key_eq) auto
  ultimately show "view disk ((at, b) # m) ! p = view (blit disk (unat at) b) m ! p"
    using p assms mod_in_block [OF assms(1), of p] by (auto simp: nth_view nth_blit split: option.split)
qed (use assms in simp)

lemma view_Nil [simp]: "view disk [] = disk"
  by (auto simp: view_def map_nth)

text \<open>Pushing settles the mount: on a device whose writes put the bytes they are given where they are
  told, every logged buffer is written home, the device then holds exactly what the mount read through
  the overlay, and the overlay is empty.\<close>

lemma push_settles:
  assumes "overlay_ok (img d) logged" "length (img d) < 2 ^ 64"
    and "\<And>d at b. unat at + length b \<le> length (img d) \<Longrightarrow>
      \<exists>d'. write_at d at b = (d', Inr ()) \<and> img d' = blit (img d) (unat at) b"
    and "\<And>d. \<exists>d'. flush d = (d', Inr ()) \<and> img d' = img d"
  shows "\<exists>d'. push write_at flush d logged = (d', [], Inr (length logged)) \<and> img d' = view (img d) logged"
proof -
  have "\<exists>d'. push_writes write_at d logged k = (d', Inr (k + length logged)) \<and> img d' = view (img d) logged" for k
    using assms(1,2)
  proof (induction logged arbitrary: d k)
    case (Cons e m)
    obtain at b where e: "e = (at, b)" by fastforce
    have e': "unat at mod BBSIZE = 0" "unat at + BBSIZE \<le> length (img d)" "length b = BBSIZE" "at \<notin> fst ` set m"
      using Cons.prems(1) by (auto simp: overlay_ok_def e)
    then obtain d1 where d1: "write_at d at b = (d1, Inr ())" "img d1 = blit (img d) (unat at) b"
      using assms(3) [of at b d] by auto
    have "overlay_ok (img d1) m" "length (img d1) < 2 ^ 64"
      using Cons.prems e' by (auto simp: overlay_ok_def d1(2))
    from Cons.IH [OF this, of "k + 1"] show ?case
      using d1 view_Cons [OF e'(1,2) Cons.prems(2) e'(3,4)] by (auto simp: e)
  qed simp
  from this [of 0] obtain d1 where "push_writes write_at d logged 0 = (d1, Inr (length logged))" "img d1 = view (img d) logged"
    by auto
  moreover obtain d2 where "flush d1 = (d2, Inr ())" "img d2 = img d1" using assms(4) by blast
  ultimately show ?thesis by (simp add: push_def)
qed

text \<open>A device held as its bytes, whose writes succeed inside it.\<close>

definition mem_write :: "bytes dev_write" where
  "mem_write d at b = (case put d (unat at) b of Inr d' \<Rightarrow> (d', Inr ()) | Inl e \<Rightarrow> (d, Inl e))"

definition mem_flush :: "bytes dev_flush" where
  "mem_flush d = (d, Inr ())"

lemma mem_write_fits: "unat at + length b \<le> length d \<Longrightarrow> mem_write d at b = (blit d (unat at) b, Inr ())"
  by (simp add: mem_write_def put_def)

lemma push_settles_witness:
  "\<exists>d'. push mem_write mem_flush (replicate 1024 0) [(512, replicate 512 5)] = (d', [], Inr 1)"
proof -
  have "overlay_ok (id (replicate 1024 0)) [(512, replicate 512 5)]"
    by (simp add: overlay_ok_def BBSIZE_def)
  from push_settles [where img = id, OF this, of mem_write mem_flush] show ?thesis
    by (auto simp: mem_write_fits mem_flush_def)
qed

text \<open>A push that fails drops nothing: whatever the device did, the error comes back with every logged
  buffer still held, so the mount goes on reading what it logged.\<close>

lemma failed_push_keeps:
  "case push write_at flush d logged of
     (_, kept, Inl _) \<Rightarrow> kept = logged
   | (_, kept, Inr n) \<Rightarrow> kept = [] \<and> n = length logged"
proof -
  have "snd (push_writes write_at d logged k) = Inr n \<Longrightarrow> n = k + length logged" for k n
    by (induction write_at d logged k arbitrary: n rule: push_writes.induct) (auto split: prod.splits sum.splits)
  from this [of 0] show ?thesis by (auto simp: push_def split: prod.splits sum.splits)
qed

end
