(* ===== verification/BufItem.thy ===== *)
theory BufItem
  imports Superblock Overlay
begin

unbundle bit_operations_syntax

text \<open>
  The buffer log item (\<^verbatim>\<open>src/src/buf_write.rs\<close>): a block, the bytes it now holds and a bitmap of the
  128-byte chunks that changed, and the operations it contributes to a record.  \<open>changed_chunks\<close> of
  \<^verbatim>\<open>src/src/group_write.rs\<close> builds one from a block before and after.

  Operations of a log item are memory images: the machine is little-endian, so \<^verbatim>\<open>to_ne_bytes\<close> and
  \<^verbatim>\<open>to_le_bytes\<close> agree.
\<close>

section \<open>Definitions\<close>

definition BLF_CHUNK :: nat where "BLF_CHUNK = 128"
definition BLF_HEADER_SIZE :: nat where "BLF_HEADER_SIZE = 20"
definition BLF_TYPE_SHIFT :: nat where "BLF_TYPE_SHIFT = 11"
definition BLF_FLAG_MASK :: u16 where "BLF_FLAG_MASK = 0x07ff"
definition BLF_INODE_BUF :: u16 where "BLF_INODE_BUF = 1"
definition BLF_CANCEL :: u16 where "BLF_CANCEL = 2"
definition XFS_LI_BUF :: u16 where "XFS_LI_BUF = 0x123c"
definition CHUNKS_PER_WORD :: nat where "CHUNKS_PER_WORD = 32"

definition BLFT_BTREE :: u16 where "BLFT_BTREE = 4"
definition BLFT_AGF :: u16 where "BLFT_AGF = 5"
definition BLFT_AGFL :: u16 where "BLFT_AGFL = 6"
definition BLFT_AGI :: u16 where "BLFT_AGI = 7"
definition BLFT_DINO :: u16 where "BLFT_DINO = 8"
definition BLFT_SYMLINK :: u16 where "BLFT_SYMLINK = 9"
definition BLFT_DIR_BLOCK :: u16 where "BLFT_DIR_BLOCK = 10"
definition BLFT_DIR_DATA :: u16 where "BLFT_DIR_DATA = 11"
definition BLFT_DIR_FREE :: u16 where "BLFT_DIR_FREE = 12"
definition BLFT_DIR_LEAF1 :: u16 where "BLFT_DIR_LEAF1 = 13"
definition BLFT_DIR_LEAFN :: u16 where "BLFT_DIR_LEAFN = 14"
definition BLFT_DA_NODE :: u16 where "BLFT_DA_NODE = 15"
definition BLFT_ATTR_LEAF :: u16 where "BLFT_ATTR_LEAF = 16"
definition BLFT_SB :: u16 where "BLFT_SB = 18"
definition BLFT_NONE :: u16 where "BLFT_NONE = 0"

definition XFS_BMAP_MAGIC :: u32 where "XFS_BMAP_MAGIC = 0x424d4150"
definition XFS_BMAP_CRC_MAGIC :: u32 where "XFS_BMAP_CRC_MAGIC = 0x424d4133"

text \<open>\<^verbatim>\<open>log_write::Op\<close>.\<close>

record Op =
  op_flags :: u8
  op_data :: bytes

record BufferItem =
  bi_blkno :: u64
  bi_buf_type :: u16
  bi_flags :: u16
  bi_data :: bytes
  bi_dirty :: "u32 list"

definition div_ceil :: "nat \<Rightarrow> nat \<Rightarrow> nat" where
  "div_ceil a b = a div b + (if a mod b = 0 then 0 else 1)"

definition chunk_count :: "nat \<Rightarrow> nat" where
  "chunk_count n = div_ceil n BLF_CHUNK"

definition bi_new :: "u64 \<Rightarrow> bytes \<Rightarrow> u16 \<Rightarrow> u16 \<Rightarrow> BufferItem res" where
  "bi_new blkno data buf_type flags =
     (if \<not> (length data mod BBSIZE = 0 \<and> data \<noteq> []) then Inl Panic
      else Inr \<lparr>bi_blkno = blkno, bi_buf_type = buf_type, bi_flags = flags AND BLF_FLAG_MASK,
                bi_data = data, bi_dirty = replicate (div_ceil (chunk_count (length data)) CHUNKS_PER_WORD) 0\<rparr>)"

definition bi_cancel :: "u64 \<Rightarrow> u32 \<Rightarrow> BufferItem res" where
  "bi_cancel blkno len_blocks =
     rbind (bi_new blkno (replicate (unat len_blocks * BBSIZE) 0) BLFT_NONE BLF_CANCEL) (\<lambda>item.
       Inr (item\<lparr>bi_dirty := map (\<lambda>_. 0) (bi_dirty item)\<rparr>))"

text \<open>\<^verbatim>\<open>self.dirty[chunk / 32] |= 1 << (chunk % 32)\<close>, for each chunk of a range.\<close>

fun set_chunks :: "u32 list \<Rightarrow> nat list \<Rightarrow> u32 list res" where
  "set_chunks dirty [] = Inr dirty"
| "set_chunks dirty (c # cs) =
     (if c div CHUNKS_PER_WORD < length dirty
      then set_chunks (dirty[c div CHUNKS_PER_WORD :=
             dirty ! (c div CHUNKS_PER_WORD) OR push_bit (c mod CHUNKS_PER_WORD) 1]) cs
      else Inl Panic)"

definition bi_mark :: "BufferItem \<Rightarrow> nat \<Rightarrow> nat \<Rightarrow> BufferItem res" where
  "bi_mark item offset len =
     (if \<not> offset + len \<le> length (bi_data item) then Inl Panic
      else if len = 0 then Inr item
      else rbind (set_chunks (bi_dirty item) [offset div BLF_CHUNK ..< Suc ((offset + len - 1) div BLF_CHUNK)])
             (\<lambda>dirty. Inr (item\<lparr>bi_dirty := dirty\<rparr>)))"

definition bi_edit :: "BufferItem \<Rightarrow> nat \<Rightarrow> bytes \<Rightarrow> BufferItem res" where
  "bi_edit item offset b =
     (if \<not> offset + length b \<le> length (bi_data item) then Inl Panic
      else if b = [] then Inr item
      else bi_mark (item\<lparr>bi_data := blit (bi_data item) offset b\<rparr>) offset (length b))"

definition bit_set :: "u32 list \<Rightarrow> nat \<Rightarrow> bool" where
  "bit_set ws c \<longleftrightarrow> c div 32 < length ws \<and> ws ! (c div 32) AND push_bit (c mod 32) 1 \<noteq> 0"

text \<open>The two nested loops of \<^verbatim>\<open>runs\<close> and of \<^verbatim>\<open>runs_of\<close>.\<close>

function run_end :: "(nat \<Rightarrow> bool) \<Rightarrow> nat \<Rightarrow> nat \<Rightarrow> nat" where
  "run_end p n c = (if c < n \<and> p c then run_end p n (c + 1) else c)"
  by pat_completeness auto

termination by (relation "measure (\<lambda>(_, n, c). n - c)") auto

declare run_end.simps [simp del]

lemma run_end_ge: "c \<le> run_end p n c"
proof (induction p n c rule: run_end.induct)
  case (1 p n c)
  then show ?case by (subst run_end.simps) auto
qed

lemma run_end_gt: "c < n \<Longrightarrow> p c \<Longrightarrow> c < run_end p n c"
  using run_end_ge [of "c + 1" p n] by (subst run_end.simps) simp

function runs_from :: "(nat \<Rightarrow> bool) \<Rightarrow> nat \<Rightarrow> nat \<Rightarrow> (nat \<times> nat) list" where
  "runs_from p n c =
     (if n \<le> c then []
      else if \<not> p c then runs_from p n (c + 1)
      else (c, run_end p n c - c) # runs_from p n (run_end p n c))"
  by pat_completeness auto

termination
  by (relation "measure (\<lambda>(_, n, c). n - c)") (auto simp: run_end_gt intro: diff_less_mono2)

declare runs_from.simps [simp del]

definition bi_runs :: "BufferItem \<Rightarrow> (nat \<times> nat) list res" where
  "bi_runs item =
     (let chunks = chunk_count (length (bi_data item))
      in if length (bi_dirty item) * CHUNKS_PER_WORD < chunks then Inl Panic
         else Inr (runs_from (bit_set (bi_dirty item)) chunks 0))"

definition format_op :: "BufferItem \<Rightarrow> (nat \<times> nat) list \<Rightarrow> bytes res" where
  "format_op item runs =
     (let map_words = length (bi_dirty item);
          v = replicate (BLF_HEADER_SIZE + 4 * map_words) 0
      in rbind (put v 0 (le_bytes16 XFS_LI_BUF)) (\<lambda>v.
         if \<not> 1 + length runs < 65536 then Inl Panic
         else rbind (put v 2 (le_bytes16 (of_nat (1 + length runs)))) (\<lambda>v.
           rbind (put v 4 (le_bytes16 (bi_flags item OR push_bit BLF_TYPE_SHIFT (bi_buf_type item)))) (\<lambda>v.
           if \<not> length (bi_data item) div BBSIZE < 65536 then Inl Panic
           else rbind (put v 6 (le_bytes16 (of_nat (length (bi_data item) div BBSIZE)))) (\<lambda>v.
             rbind (put v 8 (le_bytes64 (bi_blkno item))) (\<lambda>v.
             rbind (put v 16 (le_bytes32 (of_nat map_words))) (\<lambda>v.
               write_records (\<lambda>b at w. put b at (le_bytes32 w)) 4 20 (bi_dirty item) v)))))))"

text \<open>The region of a run: \<^verbatim>\<open>self.data[from..from + len * BLF_CHUNK]\<close>.\<close>

fun run_ops :: "bytes \<Rightarrow> (nat \<times> nat) list \<Rightarrow> Op list res" where
  "run_ops data [] = Inr []"
| "run_ops data ((start, len) # runs) =
     rbind (slice data (start * BLF_CHUNK) (len * BLF_CHUNK)) (\<lambda>region.
     rbind (run_ops data runs) (\<lambda>ops. Inr (\<lparr>op_flags = 0, op_data = region\<rparr> # ops)))"

definition bi_ops :: "BufferItem \<Rightarrow> Op list res" where
  "bi_ops item =
     rbind (bi_runs item) (\<lambda>runs.
     rbind (format_op item runs) (\<lambda>f.
     rbind (run_ops (bi_data item) runs) (\<lambda>ops. Inr (\<lparr>op_flags = 0, op_data = f\<rparr> # ops))))"

definition op_count :: "BufferItem \<Rightarrow> nat res" where
  "op_count item = rbind (bi_runs item) (\<lambda>runs. Inr (1 + length runs))"

text \<open>Where a block of a type keeps its checksum, as \<^verbatim>\<open>image_as_written\<close> has it.\<close>

definition image_crc_at :: "u16 \<Rightarrow> bytes \<Rightarrow> nat option res" where
  "image_crc_at t data =
     (if t = BLFT_AGF then Inr (Some 216)
      else if t = BLFT_AGI then Inr (Some 312)
      else if t = BLFT_AGFL then Inr (Some 32)
      else if t = BLFT_BTREE
      then (if 4 \<le> length data
            then rbind (be32 data 0) (\<lambda>magic. Inr (Some (if magic = XFS_BMAP_CRC_MAGIC then 64 else 52)))
            else Inr (Some 52))
      else if t = BLFT_DIR_BLOCK \<or> t = BLFT_DIR_DATA then Inr (Some 4)
      else if t = BLFT_DIR_LEAF1 \<or> t = BLFT_DIR_LEAFN \<or> t = BLFT_DA_NODE then Inr (Some 12)
      else if t = BLFT_DIR_FREE then Inr (Some 4)
      else if t = BLFT_ATTR_LEAF \<or> t = BLFT_SYMLINK then Inr (Some 12)
      else if t = BLFT_SB
      then (if 101 < length data
            then rbind (be16 data 100) (\<lambda>vn.
                   Inr (if vn AND XFS_SB_VERSION_NUMBITS = 5 then Some SB_CRC_OFFSET else None))
            else Inr None)
      else Inr None)"

definition image_as_written :: "crc_crate \<Rightarrow> BufferItem \<Rightarrow> bytes res" where
  "image_as_written C item =
     rbind (image_crc_at (bi_buf_type item) (bi_data item)) (\<lambda>found.
       case found of
         None \<Rightarrow> Inr (bi_data item)
       | Some at \<Rightarrow>
           if length (bi_data item) < at + 4 then Inr (bi_data item)
           else rbind (crc32c_with_zeroed_crc C (bi_data item) at) (\<lambda>crc.
                  put (bi_data item) at (le_bytes32 crc)))"

text \<open>\<^verbatim>\<open>group_write::changed_chunks\<close>: the loop over the chunks, and the whole.\<close>

fun mark_changed :: "bytes \<Rightarrow> nat list \<Rightarrow> BufferItem \<Rightarrow> BufferItem res" where
  "mark_changed before [] item = Inr item"
| "mark_changed before (c # cs) item =
     (let lo = c * BLF_CHUNK;
          hi = min (lo + BLF_CHUNK) (length before)
      in rbind (slice before lo (hi - lo)) (\<lambda>old.
         rbind (slice (bi_data item) lo (hi - lo)) (\<lambda>new.
         rbind (if old \<noteq> new then bi_mark item lo (hi - lo) else Inr item) (mark_changed before cs))))"

definition changed_chunks :: "u64 \<Rightarrow> bytes \<Rightarrow> bytes \<Rightarrow> u16 \<Rightarrow> BufferItem res" where
  "changed_chunks blkno before after buf_type =
     (if length before \<noteq> length after then Inl Panic
      else rbind (bi_new blkno after buf_type 0)
             (mark_changed before [0..<div_ceil (length before) BLF_CHUNK]))"

end
