(* ===== verification/LogRecord.thy ===== *)
theory LogRecord
  imports BufItem
begin

unbundle bit_operations_syntax

text \<open>
  The records of the journal: building them (\<^verbatim>\<open>src/src/log_write.rs\<close>), the checksum they carry
  (\<^verbatim>\<open>src/src/log.rs\<close>) and reading them back into transactions (\<^verbatim>\<open>src/src/log_recover.rs\<close>).

  The visitor of the transactions is a parameter with its own state, as the closure of \<^verbatim>\<open>walk\<close> has.
\<close>

section \<open>Definitions\<close>

definition XLOG_HEADER_MAGIC :: u32 where "XLOG_HEADER_MAGIC = 0xFEEDBABE"
definition XLOG_VERSION_2 :: u32 where "XLOG_VERSION_2 = 2"
definition XLOG_HEADER_CYCLE_SIZE :: nat where "XLOG_HEADER_CYCLE_SIZE = 32768"
definition XLOG_REC_HEADER_SIZE :: nat where "XLOG_REC_HEADER_SIZE = 328"
definition XLOG_CYCLE_DATA_ENTRIES :: nat where "XLOG_CYCLE_DATA_ENTRIES = 64"
definition OP_HEADER_SIZE :: nat where "OP_HEADER_SIZE = 12"
definition XFS_TRANSACTION :: u8 where "XFS_TRANSACTION = 0x69"
definition XFS_LOG :: u8 where "XFS_LOG = 0xaa"
definition XLOG_START_TRANS :: u8 where "XLOG_START_TRANS = 0x01"
definition XLOG_COMMIT_TRANS :: u8 where "XLOG_COMMIT_TRANS = 0x02"
definition XLOG_OP_CONTINUATION :: u8 where "XLOG_OP_CONTINUATION = 0x18"
definition XLOG_UNMOUNT_TRANS :: u8 where "XLOG_UNMOUNT_TRANS = 0x20"
definition XLOG_UNMOUNT_TYPE :: u16 where "XLOG_UNMOUNT_TYPE = 0x556e"
definition XFS_TRANS_HEADER_MAGIC :: u32 where "XFS_TRANS_HEADER_MAGIC = 0x5452414e"
definition TRANS_HEADER_SIZE :: nat where "TRANS_HEADER_SIZE = 16"
definition XFS_TRANS_CHECKPOINT :: u32 where "XFS_TRANS_CHECKPOINT = 0x28"
definition LINUX_LE :: u32 where "LINUX_LE = 1"

text \<open>\<^verbatim>\<open>log_write.rs\<close>: a transaction's header, an operation's bytes, the unmount operation.\<close>

definition trans_header :: "u32 \<Rightarrow> u32 \<Rightarrow> u32 \<Rightarrow> bytes" where
  "trans_header tid kind item_ops =
     le_bytes32 XFS_TRANS_HEADER_MAGIC @ le_bytes32 kind @ le_bytes32 tid @ le_bytes32 item_ops"

definition op_bytes :: "u32 \<Rightarrow> Op \<Rightarrow> bytes" where
  "op_bytes tid op =
     be_bytes32 tid @ be_bytes32 (of_nat (length (op_data op))) @
     [if op_flags op AND XLOG_UNMOUNT_TRANS \<noteq> 0 then XFS_LOG else XFS_TRANSACTION, op_flags op, 0, 0] @
     op_data op"

definition payload :: "u32 \<Rightarrow> Op list \<Rightarrow> bytes" where
  "payload tid ops = concat (map (op_bytes tid) ops)"

definition unmount_op :: Op where
  "unmount_op = \<lparr>op_flags = XLOG_UNMOUNT_TRANS, op_data = le_bytes16 XLOG_UNMOUNT_TYPE @ replicate 6 0\<rparr>"

definition pad_ops :: "u32 \<Rightarrow> Op list" where
  "pad_ops tid =
     [\<lparr>op_flags = XLOG_START_TRANS, op_data = []\<rparr>,
      \<lparr>op_flags = 0, op_data = trans_header tid XFS_TRANS_CHECKPOINT 0\<rparr>,
      \<lparr>op_flags = XLOG_COMMIT_TRANS, op_data = []\<rparr>]"

definition wraps_first :: "u32 \<Rightarrow> u32 \<Rightarrow> u32 \<Rightarrow> bool" where
  "wraps_first needed free tid =
     (let pad = 1 + of_nat (div_ceil (length (payload tid (pad_ops tid))) BBSIZE)
      in free < needed \<or> (needed < free \<and> free - needed < pad))"

record Placement =
  pl_block :: u32
  pl_cycle :: u32
  pl_prev_block :: u32
  pl_tail_lsn :: u64
  pl_uuid :: bytes
  pl_iclog_size :: u32

text \<open>\<^verbatim>\<open>log::record_checksum\<close>.\<close>

fun ext_headers :: "bytes \<Rightarrow> nat list \<Rightarrow> bytes res" where
  "ext_headers header [] = Inr []"
| "ext_headers header (b # bs) =
     rbind (slice header (b * BBSIZE) 260) (\<lambda>s. rbind (ext_headers header bs) (\<lambda>r. Inr (s @ r)))"

definition record_checksum :: "crc_crate \<Rightarrow> bytes \<Rightarrow> bytes \<Rightarrow> u32 res" where
  "record_checksum C header data =
     rbind (put (take XLOG_REC_HEADER_SIZE header) 32 [0, 0, 0, 0]) (\<lambda>buf.
     rbind (be32 header 8) (\<lambda>ver.
     rbind (if ver AND XLOG_VERSION_2 \<noteq> 0
            then ext_headers header [1..<div_ceil (length data) XLOG_HEADER_CYCLE_SIZE] else Inr []) (\<lambda>ext.
       Inr (crc32c C (buf @ ext @ data)))))"

definition header_blocks :: "bytes \<Rightarrow> nat res" where
  "header_blocks header =
     rbind (be32 header 8) (\<lambda>ver.
     if ver AND XLOG_VERSION_2 = 0 then Inr 1
     else rbind (be32 header 320) (\<lambda>sz.
       if unat sz \<le> XLOG_HEADER_CYCLE_SIZE then Inr 1
       else Inr (div_ceil (unat sz) XLOG_HEADER_CYCLE_SIZE)))"

text \<open>\<^verbatim>\<open>encode_record\<close>: the cycle stamps, then the whole.\<close>

fun stamp_cycles :: "u32 \<Rightarrow> nat list \<Rightarrow> bytes \<Rightarrow> bytes \<Rightarrow> (bytes \<times> bytes) res" where
  "stamp_cycles cycle [] header data = Inr (header, data)"
| "stamp_cycles cycle (k # ks) header data =
     rbind (slice data (k * BBSIZE) 4) (\<lambda>original.
     rbind (put header (44 + k * 4) original) (\<lambda>header'.
     rbind (put data (k * BBSIZE) (be_bytes32 cycle)) (\<lambda>data'.
       stamp_cycles cycle ks header' data')))"

definition record_header :: "Placement \<Rightarrow> u32 \<Rightarrow> nat \<Rightarrow> bytes res" where
  "record_header p num_logops len =
     (let header = replicate BBSIZE 0;
          lsn = push_bit 32 (ucast (pl_cycle p)) OR ucast (pl_block p)
      in rbind (put header 0 (be_bytes32 XLOG_HEADER_MAGIC)) (\<lambda>header.
         rbind (put header 4 (be_bytes32 (pl_cycle p))) (\<lambda>header.
         rbind (put header 8 (be_bytes32 XLOG_VERSION_2)) (\<lambda>header.
         rbind (put header 12 (be_bytes32 (of_nat len))) (\<lambda>header.
         rbind (put header 16 (be_bytes64 lsn)) (\<lambda>header.
         rbind (put header 24 (be_bytes64 (pl_tail_lsn p))) (\<lambda>header.
         rbind (put header 36 (be_bytes32 (pl_prev_block p))) (\<lambda>header.
         rbind (put header 40 (be_bytes32 num_logops)) (\<lambda>header.
         rbind (put header 300 (be_bytes32 LINUX_LE)) (\<lambda>header.
         rbind (put header 304 (pl_uuid p)) (\<lambda>header.
           put header 320 (be_bytes32 (pl_iclog_size p)))))))))))))"

definition encode_record :: "crc_crate \<Rightarrow> Placement \<Rightarrow> u32 \<Rightarrow> bytes \<Rightarrow> bytes res" where
  "encode_record C p num_logops pay =
     (let padded = div_ceil (length pay) BBSIZE * BBSIZE;
          data = pay @ replicate (padded - length pay) 0;
          blocks = padded div BBSIZE
      in rbind (record_header p num_logops (length pay)) (\<lambda>header.
         if \<not> blocks \<le> XLOG_CYCLE_DATA_ENTRIES then Inl Panic
         else
           rbind (stamp_cycles (pl_cycle p) [0..<blocks] header data) (\<lambda>(header, data).
           rbind (record_checksum C header (take (length pay) data)) (\<lambda>crc.
           rbind (put header 32 (le_bytes32 crc)) (\<lambda>header.
             if \<not> XLOG_REC_HEADER_SIZE \<le> length (header @ data) then Inl Panic
             else Inr (header @ data))))))"

definition max_payload :: "u32 \<Rightarrow> nat res" where
  "max_payload iclog_size =
     (if XLOG_HEADER_CYCLE_SIZE < unat iclog_size
      then Inl (UnsupportedFeature ''writing a multi-block record header is not implemented'')
      else if unat iclog_size < BBSIZE
      then Inl (CorruptLog ''the records cannot hold even the header block'')
      else Inr (unat iclog_size - BBSIZE))"

definition record_blocks :: "u32 \<Rightarrow> Op list \<Rightarrow> u32 \<Rightarrow> nat res" where
  "record_blocks tid ops iclog_size =
     (let pay = payload tid ops
      in rbind (max_payload iclog_size) (\<lambda>most.
         if most < length pay
         then Inl (UnsupportedFeature ''splitting one across records is not implemented'')
         else Inr (1 + div_ceil (length pay) BBSIZE)))"

definition record_blocks_for_log :: "u32 \<Rightarrow> Op list \<Rightarrow> u32 \<Rightarrow> u32 \<Rightarrow> nat res" where
  "record_blocks_for_log tid ops iclog_size logsunit =
     (let alignment = max (unat logsunit) BBSIZE
      in if alignment mod BBSIZE \<noteq> 0
         then Inl (UnsupportedFeature ''log stripe unit is not a whole basic block'')
         else
           rbind (record_blocks tid ops iclog_size) (\<lambda>blocks.
           let aligned = div_ceil (blocks * BBSIZE) alignment * alignment
           in if unat iclog_size < aligned
              then Inl (UnsupportedFeature ''stripe-aligned log record does not fit the log buffer'')
              else Inr (aligned div BBSIZE)))"

text \<open>\<^verbatim>\<open>split_into_records\<close>: the loop, with the records made, the one being filled and its size.\<close>

fun split_loop :: "nat \<Rightarrow> Op list \<Rightarrow> Op list list \<Rightarrow> Op list \<Rightarrow> nat \<Rightarrow> (Op list list \<times> Op list) res" where
  "split_loop most [] out current used = Inr (out, current)"
| "split_loop most (op # ops) out current used =
     (let cost = OP_HEADER_SIZE + length (op_data op)
      in if most < cost
         then Inl (UnsupportedFeature ''splitting a single operation across records is not implemented'')
         else if most < used + cost
         then split_loop most ops (out @ [current]) [op] cost
         else split_loop most ops out (current @ [op]) (used + cost))"

definition split_into_records :: "Op list \<Rightarrow> u32 \<Rightarrow> Op list list res" where
  "split_into_records ops iclog_size =
     rbind (max_payload iclog_size) (\<lambda>most.
     rbind (split_loop most ops [] [] 0) (\<lambda>(out, current).
       let out' = (if current \<noteq> [] then out @ [current] else out)
       in Inr (if out' = [] then [[]] else out')))"

definition blocks_for_records :: "u32 \<Rightarrow> Op list list \<Rightarrow> nat" where
  "blocks_for_records tid groups =
     sum_list (map (\<lambda>ops. 1 + div_ceil (length (payload tid ops)) BBSIZE) groups)"

text \<open>\<^verbatim>\<open>log_recover.rs\<close>: an item, and the reading of a record.\<close>

record Item =
  it_regions :: "bytes list"
  it_total :: nat

definition item_kind :: "Item \<Rightarrow> u16 res" where
  "item_kind item =
     (case it_regions item of
        [] \<Rightarrow> Inl Panic
      | f # _ \<Rightarrow> if length f < 2 then Inr 0 else le16 f 0)"

definition check_record :: "crc_crate \<Rightarrow> bytes \<Rightarrow> nat \<Rightarrow> bytes \<Rightarrow> unit res" where
  "check_record C headers hblocks data =
     rbind (le32 headers 32) (\<lambda>stored.
     if stored = 0 then Inr ()
     else
       rbind (be32 headers 8) (\<lambda>ver.
       if ver AND 2 \<noteq> 0 \<and> hblocks < div_ceil (length data) XLOG_HEADER_CYCLE_SIZE
       then Inl (CorruptLog ''too few cycle-data headers'')
       else
         rbind (record_checksum C headers data) (\<lambda>computed.
           if computed \<noteq> stored then Inl (CorruptLog ''the contents give another checksum'') else Inr ())))"

fun unpack_loop :: "bytes \<Rightarrow> nat \<Rightarrow> nat list \<Rightarrow> bytes \<Rightarrow> bytes res" where
  "unpack_loop headers hblocks [] data = Inr data"
| "unpack_loop headers hblocks (i # is) data =
     (if \<not> i < XLOG_CYCLE_DATA_ENTRIES \<and> hblocks \<le> i div XLOG_CYCLE_DATA_ENTRIES then Inr data
      else
        let word = (if i < XLOG_CYCLE_DATA_ENTRIES then 44 + 4 * i
                    else i div XLOG_CYCLE_DATA_ENTRIES * BBSIZE + 4 + 4 * (i mod XLOG_CYCLE_DATA_ENTRIES))
        in rbind (slice headers word 4) (\<lambda>w.
           rbind (put data (i * BBSIZE) w) (unpack_loop headers hblocks is)))"

definition unpack :: "bytes \<Rightarrow> nat \<Rightarrow> bytes \<Rightarrow> nat \<Rightarrow> bytes res" where
  "unpack headers hblocks data len =
     rbind (unpack_loop headers hblocks [0..<length data div BBSIZE] data) (\<lambda>data'. Inr (take len data'))"

text \<open>\<^verbatim>\<open>add_region\<close>.\<close>

definition new_item :: "bytes \<Rightarrow> Item res" where
  "new_item body =
     rbind (if 4 \<le> length body then rbind (le16 body 2) (\<lambda>n. Inr (unat n)) else Inr 1) (\<lambda>total.
       Inr \<lparr>it_regions = [body], it_total = max total 1\<rparr>)"

definition add_region :: "Item list \<Rightarrow> bytes \<Rightarrow> u8 \<Rightarrow> Item list res" where
  "add_region items body flags =
     (if flags AND XLOG_OP_CONTINUATION \<noteq> 0
      then Inr (if items = [] \<or> it_regions (last items) = [] then items
                else butlast items @ [(last items)\<lparr>it_regions :=
                       butlast (it_regions (last items)) @ [last (it_regions (last items)) @ body]\<rparr>])
      else if body = [] then Inr items
      else
        rbind (if items = [] \<and> TRANS_HEADER_SIZE \<le> length body
               then rbind (le32 body 0) (\<lambda>m. Inr (m = XFS_TRANS_HEADER_MAGIC)) else Inr False) (\<lambda>is_header.
          if is_header then Inr items
          else if items \<noteq> [] \<and> length (it_regions (last items)) < it_total (last items)
          then Inr (butlast items @ [(last items)\<lparr>it_regions := it_regions (last items) @ [body]\<rparr>])
          else rbind (new_item body) (\<lambda>item. Inr (items @ [item]))))"

type_synonym in_flight = "u32 \<Rightarrow> Item list option"

text \<open>One operation of \<^verbatim>\<open>read_ops\<close>, after its header and body are cut out of the record.\<close>

definition take_op ::
  "('v \<Rightarrow> Item list \<Rightarrow> 'v res) \<Rightarrow> u32 \<Rightarrow> u8 \<Rightarrow> bytes \<Rightarrow> in_flight \<Rightarrow> 'v \<Rightarrow> (in_flight \<times> 'v) res" where
  "take_op visit tid flags body fl v =
     (if flags AND XLOG_UNMOUNT_TRANS \<noteq> 0 then Inr (fl, v)
      else if flags AND XLOG_START_TRANS \<noteq> 0 then Inr (fl(tid := Some []), v)
      else if flags AND XLOG_COMMIT_TRANS \<noteq> 0
      then (case fl tid of
              None \<Rightarrow> Inr (fl, v)
            | Some items \<Rightarrow>
                if items = [] then Inr (fl(tid := None), v)
                else rbind (visit v items) (\<lambda>v'. Inr (fl(tid := None), v')))
      else (case fl tid of
              None \<Rightarrow> Inr (fl, v)
            | Some items \<Rightarrow> rbind (add_region items body flags) (\<lambda>items'. Inr (fl(tid := Some items'), v))))"

fun read_ops ::
  "('v \<Rightarrow> Item list \<Rightarrow> 'v res) \<Rightarrow> bytes \<Rightarrow> nat \<Rightarrow> nat \<Rightarrow> in_flight \<Rightarrow> 'v \<Rightarrow> (in_flight \<times> 'v) res" where
  "read_ops visit data at 0 fl v = Inr (fl, v)"
| "read_ops visit data at (Suc n) fl v =
     (if length data < at + OP_HEADER_SIZE
      then Inl (CorruptLog ''a log record holds fewer operations than its header counts'')
      else
        rbind (be32 data at) (\<lambda>tid.
        rbind (be32 data (at + 4)) (\<lambda>len.
        rbind (byte_at data (at + 9)) (\<lambda>flags.
        if length data < at + OP_HEADER_SIZE + unat len
        then Inl (CorruptLog ''a log operation runs past the record holding it'')
        else
          rbind (slice data (at + OP_HEADER_SIZE) (unat len)) (\<lambda>body.
          rbind (take_op visit tid flags body fl v) (\<lambda>(fl', v').
            read_ops visit data (at + OP_HEADER_SIZE + unat len) n fl' v'))))))"

section \<open>Operations read back from a record\<close>

text \<open>The operations of one transaction, taken one after another.\<close>

fun take_ops ::
  "('v \<Rightarrow> Item list \<Rightarrow> 'v res) \<Rightarrow> u32 \<Rightarrow> Op list \<Rightarrow> in_flight \<Rightarrow> 'v \<Rightarrow> (in_flight \<times> 'v) res" where
  "take_ops visit tid [] fl v = Inr (fl, v)"
| "take_ops visit tid (op # ops) fl v =
     rbind (take_op visit tid (op_flags op) (op_data op) fl v) (\<lambda>(fl', v'). take_ops visit tid ops fl' v')"

lemma take_ops_append:
  "take_ops visit tid (xs @ ys) fl v = rbind (take_ops visit tid xs fl v) (\<lambda>(fl', v'). take_ops visit tid ys fl' v')"
proof (induction xs arbitrary: fl v)
  case (Cons x xs)
  then show ?case
    by (cases "take_op visit tid (op_flags x) (op_data x) fl v") (auto split: prod.splits)
qed simp

lemma length_op_bytes [simp]: "length (op_bytes tid op) = OP_HEADER_SIZE + length (op_data op)"
  by (simp add: op_bytes_def OP_HEADER_SIZE_def)

lemma payload_simps [simp]:
  "payload tid [] = []" "payload tid (op # ops) = op_bytes tid op @ payload tid ops"
  "payload tid (xs @ ys) = payload tid xs @ payload tid ys"
  by (simp_all add: payload_def)

lemma payload_length: "length (payload tid ops) = sum_list (map (\<lambda>op. OP_HEADER_SIZE + length (op_data op)) ops)"
  by (induction ops) simp_all

lemma read_op_header:
  fixes pre post :: bytes and tid :: u32
  assumes "length (op_data op) < 2 ^ 32"
  defines "data \<equiv> pre @ op_bytes tid op @ post"
  shows "be32 data (length pre) = Inr tid" "be32 data (length pre + 4) = Inr (of_nat (length (op_data op)))"
    "byte_at data (length pre + 9) = Inr (op_flags op)"
    "slice data (length pre + OP_HEADER_SIZE) (length (op_data op)) = Inr (op_data op)"
    "unat (of_nat (length (op_data op)) :: u32) = length (op_data op)"
  using assms by (simp_all add: read_ok op_bytes_def slice_def byte_at_def OP_HEADER_SIZE_def nth_append unat_of_nat)

lemma read_ops_payload:
  assumes "\<forall>op \<in> set ops. length (op_data op) < 2 ^ 32"
  shows "read_ops visit (pre @ payload tid ops @ post) (length pre) (length ops) fl v = take_ops visit tid ops fl v"
  using assms
proof (induction ops arbitrary: pre fl v)
  case (Cons op ops)
  let ?data = "pre @ op_bytes tid op @ payload tid ops @ post"
  note hdr = read_op_header(1-4) [where pre = pre and post = "payload tid ops @ post" and tid = tid and op = op]
  have len: "length (op_data op) < 2 ^ 32" using Cons.prems by simp
  have rest: "read_ops visit ?data (length pre + OP_HEADER_SIZE + length (op_data op)) (length ops) fl' v' =
      take_ops visit tid ops fl' v'" for fl' v'
    using Cons.IH [of "pre @ op_bytes tid op" fl' v'] Cons.prems by (simp add: add.assoc)
  show ?case
    using hdr [OF len] read_op_header(5) [OF len]
    by (cases "take_op visit tid (op_flags op) (op_data op) fl v") (auto simp: rest)
qed simp

text \<open>Splitting a checkpoint into records keeps its operations and their order.\<close>

lemma split_loop_spec:
  assumes "split_loop most ops out current used = Inr (out', current')"
    "used = length (payload tid current)" "used \<le> most" "\<forall>g \<in> set out. g \<noteq> [] \<and> length (payload tid g) \<le> most"
    "current = [] \<Longrightarrow> out = []"
  shows "concat out' @ current' = concat out @ current @ ops \<and> length (payload tid current') \<le> most \<and>
    (\<forall>g \<in> set out'. g \<noteq> [] \<and> length (payload tid g) \<le> most)"
  using assms
proof (induction ops arbitrary: out current used)
  case (Cons op ops)
  let ?cost = "OP_HEADER_SIZE + length (op_data op)"
  have most: "?cost \<le> most" using Cons.prems(1) by (auto simp: Let_def split: if_splits)
  show ?case
  proof (cases "most < used + ?cost")
    case True
    then have cur: "current \<noteq> []" using Cons.prems(2) most by auto
    have step: "split_loop most ops (out @ [current]) [op] ?cost = Inr (out', current')"
      using Cons.prems(1) True most by (simp add: Let_def)
    have outs: "\<forall>g \<in> set (out @ [current]). g \<noteq> [] \<and> length (payload tid g) \<le> most"
      using Cons.prems(2-4) cur by auto
    show ?thesis using Cons.IH [OF step _ most outs] by simp
  next
    case False
    have step: "split_loop most ops out (current @ [op]) (used + ?cost) = Inr (out', current')"
      using Cons.prems(1) False most by (simp add: Let_def)
    show ?thesis using Cons.IH [OF step _ _ Cons.prems(4)] Cons.prems(2) False by simp
  qed
qed auto

lemma split_into_records_spec:
  assumes "split_into_records ops ic = Inr groups"
  shows "concat groups = ops" "\<forall>g \<in> set groups. length (payload tid g) \<le> unat ic - BBSIZE"
    "unat ic \<le> XLOG_HEADER_CYCLE_SIZE"
proof -
  obtain most out cur where most: "max_payload ic = Inr most" and
    split: "split_loop most ops [] [] 0 = Inr (out, cur)" and
    groups: "groups = (let out' = (if cur \<noteq> [] then out @ [cur] else out) in if out' = [] then [[]] else out')"
    using assms by (auto simp: split_into_records_def rbind_eq_Inr Let_def)
  have m: "most = unat ic - BBSIZE" "unat ic \<le> XLOG_HEADER_CYCLE_SIZE"
    using most by (auto simp: max_payload_def split: if_splits)
  have "concat out @ cur = ops \<and> length (payload tid cur) \<le> most \<and> (\<forall>g \<in> set out. g \<noteq> [] \<and> length (payload tid g) \<le> most)"
    using split_loop_spec [OF split, of tid] by simp
  then show "concat groups = ops" "\<forall>g \<in> set groups. length (payload tid g) \<le> unat ic - BBSIZE"
    "unat ic \<le> XLOG_HEADER_CYCLE_SIZE"
    using m by (auto simp: groups Let_def)
qed

text \<open>Records read one after another, the transactions in flight carried from each to the next.\<close>

fun read_records_of :: "('v \<Rightarrow> Item list \<Rightarrow> 'v res) \<Rightarrow> (bytes \<times> nat) list \<Rightarrow> in_flight \<Rightarrow> 'v \<Rightarrow> (in_flight \<times> 'v) res" where
  "read_records_of visit [] fl v = Inr (fl, v)"
| "read_records_of visit ((data, n) # rs) fl v =
     rbind (read_ops visit data 0 n fl v) (\<lambda>(fl', v'). read_records_of visit rs fl' v')"

lemma read_records_payloads:
  assumes "\<forall>g \<in> set groups. \<forall>op \<in> set g. length (op_data op) < 2 ^ 32"
  shows "read_records_of visit (map (\<lambda>g. (payload tid g @ replicate (pad g) 0, length g)) groups) fl v =
    take_ops visit tid (concat groups) fl v"
  using assms
proof (induction groups arbitrary: fl v)
  case (Cons g gs)
  have "read_ops visit (payload tid g @ replicate (pad g) 0) 0 (length g) fl v = take_ops visit tid g fl v"
    using read_ops_payload [of g visit "[]" tid "replicate (pad g) 0" fl v] Cons.prems by simp
  then show ?case
    using Cons by (cases "take_ops visit tid g fl v") (auto simp: take_ops_append)
qed simp

text \<open>C7. A checkpoint larger than one record is not lost in the division: each record's payload fits the
  log's buffer, and reading the records one after another, with whatever zero padding follows each
  payload, hands the transaction its operations exactly as they were, in order.\<close>

theorem split_records_replay:
  assumes "split_into_records ops iclog_size = Inr groups" "\<forall>op \<in> set ops. length (op_data op) < 2 ^ 32"
  shows "(\<forall>g \<in> set groups. length (payload tid g) \<le> unat iclog_size - BBSIZE) \<and>
    read_records_of visit (map (\<lambda>g. (payload tid g @ replicate (pad g) 0, length g)) groups) fl v =
      take_ops visit tid ops fl v"
proof -
  note spec = split_into_records_spec [OF assms(1)]
  have "\<forall>g \<in> set groups. \<forall>op \<in> set g. length (op_data op) < 2 ^ 32"
    using assms(2) spec(1) by auto
  then show ?thesis using spec read_records_payloads [of groups visit tid pad fl v] by auto
qed

lemma split_records_replay_witness:
  "split_into_records [\<lparr>op_flags = 1, op_data = []\<rparr>, \<lparr>op_flags = 0, op_data = replicate 500 7\<rparr>,
      \<lparr>op_flags = 2, op_data = []\<rparr>] 1024 =
     Inr [[\<lparr>op_flags = 1, op_data = []\<rparr>], [\<lparr>op_flags = 0, op_data = replicate 500 7\<rparr>], [\<lparr>op_flags = 2, op_data = []\<rparr>]] \<and>
   length (payload 9 [\<lparr>op_flags = 0, op_data = replicate 500 7\<rparr>]) \<le> 512"
proof -
  let ?ops = "[\<lparr>op_flags = 1, op_data = []\<rparr>, \<lparr>op_flags = 0, op_data = replicate 500 7\<rparr>, \<lparr>op_flags = 2, op_data = []\<rparr>]"
  let ?groups = "[[\<lparr>op_flags = 1, op_data = []\<rparr>], [\<lparr>op_flags = 0, op_data = replicate 500 7\<rparr>], [\<lparr>op_flags = 2, op_data = []\<rparr>]]"
  have s: "split_into_records ?ops 1024 = Inr ?groups"
    by (simp add: split_into_records_def max_payload_def XLOG_HEADER_CYCLE_SIZE_def BBSIZE_def OP_HEADER_SIZE_def Let_def)
  have "\<forall>op \<in> set ?ops. length (op_data op) < 2 ^ 32" by simp
  then have "\<forall>g \<in> set ?groups. length (payload 9 g) \<le> unat (1024 :: u32) - BBSIZE"
    by (rule split_records_replay [OF s, THEN conjunct1])
  then show ?thesis using s by (simp add: BBSIZE_def)
qed

section \<open>A transaction's items\<close>

text \<open>The operations of one item: a format that counts them, then the regions.\<close>

definition item_ops_ok :: "Op list \<Rightarrow> bool" where
  "item_ops_ok ops \<longleftrightarrow> ops \<noteq> [] \<and> (\<forall>op \<in> set ops. op_flags op = 0 \<and> op_data op \<noteq> []) \<and>
     4 \<le> length (op_data (hd ops)) \<and> take 4 (op_data (hd ops)) \<noteq> le_bytes32 XFS_TRANS_HEADER_MAGIC \<and>
     unat (from_be (rev (take 2 (drop 2 (op_data (hd ops))))) :: u16) = length ops"

definition item_of :: "Op list \<Rightarrow> Item" where
  "item_of ops = \<lparr>it_regions = map op_data ops, it_total = length ops\<rparr>"

lemma add_region_more:
  assumes "body \<noteq> []" "length regs < n"
  shows "add_region (items @ [\<lparr>it_regions = regs, it_total = n\<rparr>]) body 0 =
    Inr (items @ [\<lparr>it_regions = regs @ [body], it_total = n\<rparr>])"
  using assms by (simp add: add_region_def)

lemma take_ops_regions:
  assumes "fl tid = Some (items @ [\<lparr>it_regions = regs, it_total = n\<rparr>])"
    "\<forall>op \<in> set ops. op_flags op = 0 \<and> op_data op \<noteq> []" "length regs + length ops \<le> n"
  shows "take_ops visit tid ops fl v =
    Inr (fl(tid := Some (items @ [\<lparr>it_regions = regs @ map op_data ops, it_total = n\<rparr>])), v)"
  using assms
proof (induction ops arbitrary: fl regs)
  case (Cons op ops)
  have "take_op visit tid (op_flags op) (op_data op) fl v =
      Inr (fl(tid := Some (items @ [\<lparr>it_regions = regs @ [op_data op], it_total = n\<rparr>])), v)"
    using Cons.prems add_region_more [of "op_data op" regs n items] by (simp add: take_op_def)
  moreover have "take_ops visit tid ops (fl(tid := Some (items @ [\<lparr>it_regions = regs @ [op_data op], it_total = n\<rparr>]))) v =
      Inr ((fl(tid := Some (items @ [\<lparr>it_regions = regs @ [op_data op], it_total = n\<rparr>])))
        (tid := Some (items @ [\<lparr>it_regions = (regs @ [op_data op]) @ map op_data ops, it_total = n\<rparr>])), v)"
    using Cons.prems by (intro Cons.IH) auto
  ultimately show ?case by (simp add: fun_eq_iff)
qed (simp add: fun_upd_idem)

lemma take_ops_item:
  assumes fl: "fl tid = Some items" and full: "\<forall>i \<in> set items. it_total i = length (it_regions i)" and ops: "item_ops_ok ops"
  shows "take_ops visit tid ops fl v = Inr (fl(tid := Some (items @ [item_of ops])), v)"
proof -
  obtain f rest where o: "ops = f # rest" using ops by (cases ops) (auto simp: item_ops_ok_def)
  have f: "op_flags f = 0" "op_data f \<noteq> []" "4 \<le> length (op_data f)" "take 4 (op_data f) \<noteq> le_bytes32 XFS_TRANS_HEADER_MAGIC"
    "unat (from_be (rev (take 2 (drop 2 (op_data f)))) :: u16) = length ops"
    using ops by (auto simp: item_ops_ok_def o)
  have magic: "from_be (rev (take 4 (op_data f))) \<noteq> XFS_TRANS_HEADER_MAGIC"
  proof
    assume "from_be (rev (take 4 (op_data f))) = XFS_TRANS_HEADER_MAGIC"
    then have "rev (to_be 4 (from_be (rev (take 4 (op_data f))) :: u32)) = le_bytes32 XFS_TRANS_HEADER_MAGIC"
      by (simp add: le_bytes32_def)
    then show False using f(3,4) to_be_from_be [where 'a = 32, of "rev (take 4 (op_data f))"] by simp
  qed
  have "new_item (op_data f) = Inr \<lparr>it_regions = [op_data f], it_total = length ops\<rparr>"
    using f(3,5) by (simp add: new_item_def read_ok o)
  moreover have "\<not> (items \<noteq> [] \<and> length (it_regions (last items)) < it_total (last items))"
    using full by (auto dest: last_in_set)
  ultimately have "add_region items (op_data f) 0 = Inr (items @ [\<lparr>it_regions = [op_data f], it_total = length ops\<rparr>])"
    using f magic by (auto simp: add_region_def read_ok)
  then have first: "take_op visit tid (op_flags f) (op_data f) fl v =
      Inr (fl(tid := Some (items @ [\<lparr>it_regions = [op_data f], it_total = length ops\<rparr>])), v)"
    using f(1) fl by (simp add: take_op_def)
  show ?thesis
    using first take_ops_regions [of "fl(tid := Some (items @ [\<lparr>it_regions = [op_data f], it_total = length ops\<rparr>]))" tid items "[op_data f]" "length ops" rest visit v]
      ops by (simp add: o item_ops_ok_def item_of_def)
qed

lemma take_ops_items:
  assumes "fl tid = Some items" "\<forall>i \<in> set items. it_total i = length (it_regions i)" "\<forall>ops \<in> set groups. item_ops_ok ops"
  shows "take_ops visit tid (concat groups) fl v = Inr (fl(tid := Some (items @ map item_of groups)), v)"
  using assms
proof (induction groups arbitrary: fl items)
  case (Cons g gs)
  have "take_ops visit tid g fl v = Inr (fl(tid := Some (items @ [item_of g])), v)"
    using Cons.prems by (intro take_ops_item) auto
  moreover have "take_ops visit tid (concat gs) (fl(tid := Some (items @ [item_of g]))) v =
      Inr ((fl(tid := Some (items @ [item_of g])))(tid := Some ((items @ [item_of g]) @ map item_of gs)), v)"
    using Cons.prems by (intro Cons.IH) (auto simp: item_of_def)
  ultimately show ?case by (simp add: take_ops_append fun_eq_iff)
qed (simp add: fun_upd_idem)

text \<open>The operations of a checkpoint: its start, its header, its items and its commit.\<close>

definition checkpoint_ops :: "u32 \<Rightarrow> u32 \<Rightarrow> Op list list \<Rightarrow> Op list" where
  "checkpoint_ops tid item_ops groups =
     [\<lparr>op_flags = XLOG_START_TRANS, op_data = []\<rparr>,
      \<lparr>op_flags = 0, op_data = trans_header tid XFS_TRANS_CHECKPOINT item_ops\<rparr>] @
     concat groups @ [\<lparr>op_flags = XLOG_COMMIT_TRANS, op_data = []\<rparr>]"

lemma take_ops_checkpoint:
  assumes "\<forall>ops \<in> set groups. item_ops_ok ops"
  shows "take_ops visit tid (checkpoint_ops tid k groups) fl v =
    (if groups = [] then Inr (fl(tid := None), v)
     else rbind (visit v (map item_of groups)) (\<lambda>v'. Inr (fl(tid := None), v')))"
proof -
  have start: "take_op visit tid XLOG_START_TRANS [] fl v = Inr (fl(tid := Some []), v)"
    by (simp add: take_op_def XLOG_UNMOUNT_TRANS_def XLOG_START_TRANS_def)
  have "take 4 (trans_header tid XFS_TRANS_CHECKPOINT k) = le_bytes32 XFS_TRANS_HEADER_MAGIC"
    by (simp add: trans_header_def)
  then have "add_region [] (trans_header tid XFS_TRANS_CHECKPOINT k) 0 = Inr []"
    by (simp add: add_region_def read_ok trans_header_def TRANS_HEADER_SIZE_def)
  then have header: "take_op visit tid 0 (trans_header tid XFS_TRANS_CHECKPOINT k) (fl(tid := Some [])) v =
      Inr (fl(tid := Some []), v)"
    by (simp add: take_op_def)
  have items: "take_ops visit tid (concat groups) (fl(tid := Some [])) v =
      Inr (fl(tid := Some (map item_of groups)), v)"
    using take_ops_items [of "fl(tid := Some [])" tid "[]" groups] assms by simp
  have "take_op visit tid XLOG_COMMIT_TRANS [] (fl(tid := Some (map item_of groups))) v =
      (if groups = [] then Inr (fl(tid := None), v)
       else rbind (visit v (map item_of groups)) (\<lambda>v'. Inr (fl(tid := None), v')))"
    by (simp add: take_op_def XLOG_UNMOUNT_TRANS_def XLOG_START_TRANS_def XLOG_COMMIT_TRANS_def)
  then show ?thesis
    unfolding checkpoint_ops_def
    by (cases "visit v (map item_of groups)") (auto simp: take_ops_append start header items)
qed

end
