(* ===== verification/JournalRecord.thy ===== *)
theory JournalRecord
  imports LogRecord
begin

unbundle bit_operations_syntax

text \<open>
  A record as it lies in the log (\<^verbatim>\<open>log_write::encode_record\<close>) read back the way recovery reads it
  (\<^verbatim>\<open>log_recover::check_record\<close>, \<^verbatim>\<open>unpack\<close>): the cycle stamps go in and come out, the checksum that
  was written verifies, and the payload is the one that was given.
\<close>

section \<open>Writes that do not meet\<close>

lemma blit_commute:
  assumes "a + length s \<le> length b" "c + length t \<le> length b" "a + length s \<le> c \<or> c + length t \<le> a"
  shows "blit (blit b a s) c t = blit (blit b c t) a s"
  using assms by (intro nth_equalityI) (auto simp: nth_blit)

lemma blit_restore:
  assumes "a + length s \<le> length b"
  shows "blit (blit b a s) a (take (length s) (drop a b)) = b"
  using assms by (intro nth_equalityI) (auto simp: nth_blit)

lemma upt_Cons_dest: "k # ks = [i..<n] \<Longrightarrow> k = i \<and> ks = [Suc i..<n] \<and> i < n"
  by (metis list.distinct(1) list.sel(1) list.sel(3) upt_conv_Nil upt_rec)

section \<open>The cycle stamps\<close>

lemma stamp_step:
  assumes "k * BBSIZE + 4 \<le> length data" "44 + k * 4 + 4 \<le> length header"
  shows "stamp_cycles cycle (k # ks) header data =
    stamp_cycles cycle ks (blit header (44 + k * 4) (take 4 (drop (k * BBSIZE) data)))
      (blit data (k * BBSIZE) (be_bytes32 cycle))"
  using assms by (simp add: slice_def put_def)

lemma stamp_upt:
  assumes "k * BBSIZE + 4 \<le> length data" "44 + k * 4 + 4 \<le> length header" "k < n"
  shows "stamp_cycles cycle [k..<n] header data =
    stamp_cycles cycle [Suc k..<n] (blit header (44 + k * 4) (take 4 (drop (k * BBSIZE) data)))
      (blit data (k * BBSIZE) (be_bytes32 cycle))"
  by (simp only: upt_conv_Cons [OF assms(3)] stamp_step [OF assms(1,2)])

lemma stamp_cycles_ok:
  assumes "\<forall>k \<in> set ks. k * BBSIZE + 4 \<le> length data \<and> 44 + k * 4 + 4 \<le> length header"
  shows "\<exists>header' data'. stamp_cycles cycle ks header data = Inr (header', data') \<and>
    length header' = length header \<and> length data' = length data"
  using assms
proof (induction ks arbitrary: header data)
  case (Cons k ks)
  let ?h = "blit header (44 + k * 4) (take 4 (drop (k * BBSIZE) data))"
  let ?d = "blit data (k * BBSIZE) (be_bytes32 cycle)"
  have k: "k * BBSIZE + 4 \<le> length data" "44 + k * 4 + 4 \<le> length header" using Cons.prems by auto
  then have "length ?h = length header" "length ?d = length data" by simp_all
  then show ?case using Cons.IH [of ?d ?h] Cons.prems stamp_step [OF k] by simp
qed simp

text \<open>The stamps of later blocks leave every other byte of the header alone.\<close>

lemma stamp_cycles_header:
  assumes "stamp_cycles cycle [i..<n] header data = Inr (header', data')"
    "n * BBSIZE \<le> length data" "44 + n * 4 \<le> length header" "at + len \<le> 44 + i * 4 \<or> 44 + n * 4 \<le> at"
  shows "take len (drop at header') = take len (drop at header) \<and> length header' = length header"
  using assms
proof (induction "[i..<n]" arbitrary: i header data)
  case (Cons k ks)
  have i: "k = i" "ks = [Suc i..<n]" "i < n" using upt_Cons_dest [OF Cons.hyps(2)] by auto
  have room: "i * BBSIZE + 4 \<le> length data" "44 + i * 4 + 4 \<le> length header"
    using Cons.prems i(3) mult_le_mono1 [of "Suc i" n BBSIZE] by (simp_all add: BBSIZE_def)
  let ?h = "blit header (44 + i * 4) (take 4 (drop (i * BBSIZE) data))"
  let ?d = "blit data (i * BBSIZE) (be_bytes32 cycle)"
  have "stamp_cycles cycle [Suc i..<n] ?h ?d = Inr (header', data')"
    using Cons.prems(1) by (simp only: stamp_upt [OF room i(3)])
  from Cons.hyps(1) [OF i(2) this] have "take len (drop at header') = take len (drop at ?h) \<and> length header' = length ?h"
    using Cons.prems room by auto
  then show ?case using room Cons.prems(4) i(3) by (auto simp: take_drop_blit_other)
qed simp

text \<open>A block put back and the blocks after it put back do not meet.\<close>

lemma unpack_loop_later:
  assumes "\<forall>k \<in> set ks. i < k \<and> k * BBSIZE + 4 \<le> length data \<and> k < XLOG_CYCLE_DATA_ENTRIES"
    "i * BBSIZE + 4 \<le> length data" "length w = 4" "length header = BBSIZE"
    "unpack_loop header 1 ks data = Inr d"
  shows "unpack_loop header 1 ks (blit data (i * BBSIZE) w) = Inr (blit d (i * BBSIZE) w)"
  using assms
proof (induction ks arbitrary: data)
  case (Cons k ks)
  define v where "v = take 4 (drop (44 + 4 * k) header)"
  have k: "i < k" "k * BBSIZE + 4 \<le> length data" "k < XLOG_CYCLE_DATA_ENTRIES" using Cons.prems(1) by auto
  have apart: "i * BBSIZE + 4 \<le> k * BBSIZE" using k(1) mult_le_mono1 [of "Suc i" k BBSIZE] by (simp add: BBSIZE_def)
  have v: "slice header (44 + 4 * k) 4 = Inr v" "length v = 4"
    using k(3) Cons.prems(4) by (simp_all add: v_def slice_def BBSIZE_def XLOG_CYCLE_DATA_ENTRIES_def)
  have "unpack_loop header 1 ks (blit data (k * BBSIZE) v) = Inr d"
    using Cons.prems(5) k v by (simp add: put_def Let_def)
  then have "unpack_loop header 1 ks (blit (blit data (k * BBSIZE) v) (i * BBSIZE) w) = Inr (blit d (i * BBSIZE) w)"
    using Cons.IH [of "blit data (k * BBSIZE) v"] Cons.prems k v by simp
  moreover have "blit (blit data (k * BBSIZE) v) (i * BBSIZE) w = blit (blit data (i * BBSIZE) w) (k * BBSIZE) v"
    using k v apart Cons.prems by (intro blit_commute) auto
  ultimately show ?case using k v Cons.prems by (simp add: put_def Let_def)
qed simp

lemma unpack_stamped:
  assumes "stamp_cycles cycle [i..<n] header data = Inr (header', data')"
    "n * BBSIZE \<le> length data" "n \<le> XLOG_CYCLE_DATA_ENTRIES" "length header = BBSIZE"
  shows "unpack_loop header' 1 [i..<n] data' = Inr data \<and> length header' = BBSIZE \<and> length data' = length data"
  using assms
proof (induction "[i..<n]" arbitrary: i header data)
  case (Cons k ks)
  have i: "k = i" "ks = [Suc i..<n]" "i < n" using upt_Cons_dest [OF Cons.hyps(2)] by auto
  have n: "44 + n * 4 \<le> BBSIZE" "i < XLOG_CYCLE_DATA_ENTRIES"
    using Cons.prems(3) i(3) by (simp_all add: XLOG_CYCLE_DATA_ENTRIES_def BBSIZE_def)
  have blk: "j * BBSIZE + 4 \<le> length data" if "j < n" for j
    using Cons.prems(2) mult_le_mono1 [of "Suc j" n BBSIZE] that by (simp add: BBSIZE_def)
  let ?w = "take 4 (drop (i * BBSIZE) data)"
  let ?h = "blit header (44 + i * 4) ?w"
  let ?d = "blit data (i * BBSIZE) (be_bytes32 cycle)"
  have room: "i * BBSIZE + 4 \<le> length data" "44 + i * 4 + 4 \<le> length header"
    using blk [OF i(3)] n i(3) Cons.prems(4) by simp_all
  have st: "stamp_cycles cycle [Suc i..<n] ?h ?d = Inr (header', data')"
    using Cons.prems(1) by (simp only: stamp_upt [OF room i(3)])
  have IH: "unpack_loop header' 1 [Suc i..<n] data' = Inr ?d" "length header' = BBSIZE" "length data' = length data"
    using Cons.hyps(1) [OF i(2) st] Cons.prems room by auto
  have "take 4 (drop (44 + i * 4) header') = take 4 (drop (44 + i * 4) ?h)"
    using stamp_cycles_header [OF st, of "44 + i * 4" 4] Cons.prems(2,4) room n by auto
  then have w: "slice header' (44 + 4 * i) 4 = Inr ?w"
    using room IH(2) n i(3) by (simp add: slice_def take_drop_blit_same mult.commute)
  have "unpack_loop header' 1 [Suc i..<n] (blit data' (i * BBSIZE) ?w) = Inr (blit ?d (i * BBSIZE) ?w)"
    by (rule unpack_loop_later [OF _ _ _ IH(2,1)]) (use blk room IH(3) Cons.prems(3) in auto)
  moreover have "blit ?d (i * BBSIZE) ?w = data"
    using blit_restore [of "i * BBSIZE" "be_bytes32 cycle" data] room by simp
  ultimately have "unpack_loop header' 1 (i # [Suc i..<n]) data' = Inr data"
    using w n(2) room IH(3) by (simp add: put_def Let_def)
  then show ?case using IH i(3) by (simp add: upt_conv_Cons)
qed auto

section \<open>Rounding up\<close>

lemma div_ceil_le:
  assumes "0 < b" "a \<le> c * b"
  shows "div_ceil a b \<le> c"
proof (cases "a mod b = 0")
  case True
  then show ?thesis using assms div_le_mono [of a "c * b" b] by (simp add: div_ceil_def)
next
  case False
  then have "a \<noteq> c * b" by auto
  with assms(2) have "a div b < c" by (intro less_mult_imp_div_less) simp
  then show ?thesis using False by (simp add: div_ceil_def)
qed

lemma div_ceil_ge: "0 < b \<Longrightarrow> a \<le> div_ceil a b * b"
  using dividend_less_div_times [of b a] by (auto simp: div_ceil_def)

section \<open>The header\<close>

lemma put_fits: "at + length s \<le> length b \<Longrightarrow> put b at s = Inr (blit b at s)"
  by (simp add: put_def)

lemma record_header_ok:
  assumes "length (pl_uuid p) = 16"
  shows "\<exists>h. record_header p n len = Inr h \<and> length h = BBSIZE \<and>
    take 4 h = be_bytes32 XLOG_HEADER_MAGIC \<and> take 4 (drop 8 h) = be_bytes32 XLOG_VERSION_2 \<and>
    take 4 (drop 12 h) = be_bytes32 (of_nat len) \<and>
    take 8 (drop 16 h) = be_bytes64 (push_bit 32 (ucast (pl_cycle p)) OR ucast (pl_block p)) \<and>
    take 8 (drop 24 h) = be_bytes64 (pl_tail_lsn p) \<and> take 4 (drop 40 h) = be_bytes32 n \<and>
    take 16 (drop 304 h) = pl_uuid p \<and> take 4 (drop 320 h) = be_bytes32 (pl_iclog_size p)"
proof -
  have same: "take 4 (blit b 0 s) = s" if "length s = 4" "4 \<le> length b" for b s
    using take_drop_blit_same [of 0 s b 4] that by simp
  have other: "take 4 (blit b at s) = take 4 b" if "4 \<le> at" "at + length s \<le> length b" for b s and at :: nat
    using take_drop_blit_other [of at s b 0 4] that by simp
  show ?thesis
    unfolding record_header_def Let_def
    by (simp add: put_fits assms BBSIZE_def same other take_drop_blit_same take_drop_blit_other)
qed

text \<open>What a record is read by: the words of its header outside the cycle data and the checksum.\<close>

lemma encode_record_shape:
  assumes uuid: "length (pl_uuid p) = 16" and fit: "length pay \<le> XLOG_CYCLE_DATA_ENTRIES * BBSIZE"
  shows "\<exists>h header data crc.
    record_header p n (length pay) = Inr h \<and> length h = BBSIZE \<and> length header = BBSIZE \<and>
    encode_record C p n pay = Inr (blit header 32 (le_bytes32 crc) @ data) \<and>
    record_checksum C header (take (length pay) data) = Inr crc \<and>
    length data = div_ceil (length pay) BBSIZE * BBSIZE \<and>
    unpack_loop header 1 [0..<length data div BBSIZE] data = Inr (pay @ replicate (length data - length pay) 0) \<and>
    (\<forall>at len. at + len \<le> 44 \<or> 300 \<le> at \<longrightarrow> take len (drop at header) = take len (drop at h))"
proof -
  have pos: "0 < BBSIZE" "36 \<le> BBSIZE" "XLOG_REC_HEADER_SIZE \<le> BBSIZE" by (simp_all add: BBSIZE_def XLOG_REC_HEADER_SIZE_def)
  define blocks where "blocks = div_ceil (length pay) BBSIZE"
  define d where "d = pay @ replicate (blocks * BBSIZE - length pay) 0"
  obtain h where h: "record_header p n (length pay) = Inr h" "length h = BBSIZE"
    using record_header_ok [OF uuid] by blast
  have b: "length pay \<le> blocks * BBSIZE" "blocks \<le> XLOG_CYCLE_DATA_ENTRIES"
    unfolding blocks_def by (rule div_ceil_ge div_ceil_le [OF _ fit]; simp add: BBSIZE_def)+
  have ld: "length d = blocks * BBSIZE" using b(1) by (simp add: d_def)
  obtain header data where st: "stamp_cycles (pl_cycle p) [0..<blocks] h d = Inr (header, data)"
    using stamp_cycles_ok [of "[0..<blocks]" d h "pl_cycle p"] ld h(2) b(2)
    by (fastforce simp: BBSIZE_def XLOG_CYCLE_DATA_ENTRIES_def)
  have up: "unpack_loop header 1 [0..<blocks] data = Inr d" "length header = BBSIZE" "length data = length d"
    using unpack_stamped [OF st] ld b(2) h(2) by auto
  have keep: "take len (drop at header) = take len (drop at h)" if "at + len \<le> 44 \<or> 300 \<le> at" for at len
    using stamp_cycles_header [OF st, of at len] that ld h(2) b(2) by (auto simp: BBSIZE_def XLOG_CYCLE_DATA_ENTRIES_def)
  have dl: "div_ceil (length pay) XLOG_HEADER_CYCLE_SIZE \<le> 1"
    using fit by (intro div_ceil_le) (simp_all add: XLOG_HEADER_CYCLE_SIZE_def XLOG_CYCLE_DATA_ENTRIES_def BBSIZE_def)
  have crc: "\<exists>crc. record_checksum C header (take (length pay) data) = Inr crc"
    using up(2,3) ld b(1) dl by (simp add: record_checksum_def put_def read_ok BBSIZE_def XLOG_REC_HEADER_SIZE_def min_def)
  then obtain crc where crc: "record_checksum C header (take (length pay) data) = Inr crc" ..
  have "encode_record C p n pay = Inr (blit header 32 (le_bytes32 crc) @ data)"
    unfolding encode_record_def Let_def blocks_def [symmetric]
    using h(1) st crc b(2) up(2) pos by (simp add: d_def [symmetric] put_def)
  then show ?thesis
    using h up crc ld keep pos unfolding blocks_def [symmetric]
    by (intro exI [of _ h] exI [of _ header] exI [of _ data] exI [of _ crc]) (simp add: d_def [symmetric])
qed

lemma record_checksum_unstamped:
  assumes "length header = BBSIZE" "length v = 4"
  shows "record_checksum C (blit header 32 v) data = record_checksum C header data \<or>
    1 < div_ceil (length data) XLOG_HEADER_CYCLE_SIZE"
proof (cases "1 < div_ceil (length data) XLOG_HEADER_CYCLE_SIZE")
  case False
  have "blit (take 328 (blit header 32 v)) 32 [0, 0, 0, 0] = blit (take 328 header) 32 [0, 0, 0, 0]"
    using assms by (intro nth_equalityI) (auto simp: nth_blit BBSIZE_def)
  moreover have "take 4 (drop 8 (blit header 32 v)) = take 4 (drop 8 header)"
    using assms by (simp add: take_drop_blit_other BBSIZE_def)
  ultimately show ?thesis
    using False assms by (simp add: record_checksum_def put_def read_ok BBSIZE_def XLOG_REC_HEADER_SIZE_def)
qed simp

lemma unpack_loop_crc:
  assumes "length header = BBSIZE" "length v = 4" "\<forall>k \<in> set ks. k < XLOG_CYCLE_DATA_ENTRIES"
  shows "unpack_loop (blit header 32 v) 1 ks data = unpack_loop header 1 ks data"
  using assms
proof (induction ks arbitrary: data)
  case (Cons k ks)
  then have "slice (blit header 32 v) (44 + 4 * k) 4 = slice header (44 + 4 * k) 4"
    by (simp add: slice_def take_drop_blit_other BBSIZE_def)
  then show ?case using Cons by (simp add: Let_def cong: rbind_cong)
qed simp

lemma check_stamped:
  assumes "length header = BBSIZE" "record_checksum C header data = Inr crc"
    "div_ceil (length data) XLOG_HEADER_CYCLE_SIZE \<le> 1"
  shows "check_record C (blit header 32 (le_bytes32 crc)) 1 data = Inr ()"
proof -
  let ?h = "blit header 32 (le_bytes32 crc)"
  have "le32 ?h 32 = Inr crc"
    using assms(1) by (simp add: read_ok BBSIZE_def take_drop_blit_same from_be_bytes)
  moreover have "record_checksum C ?h data = Inr crc"
    using record_checksum_unstamped [OF assms(1), of "le_bytes32 crc" C data] assms(2,3) by simp
  moreover have "\<exists>ver. be32 ?h 8 = Inr ver" using assms(1) by (simp add: read_ok BBSIZE_def)
  ultimately show ?thesis using assms(3) by (auto simp: check_record_def)
qed

lemma record_reads_back:
  assumes "max_payload (pl_iclog_size p) = Inr most" "length pay \<le> most" "length (pl_uuid p) = 16"
  shows "\<exists>header data. encode_record C p n pay = Inr (header @ data) \<and> length header = BBSIZE \<and>
    length data = div_ceil (length pay) BBSIZE * BBSIZE \<and>
    be32 header 0 = Inr XLOG_HEADER_MAGIC \<and> uuid_at header 304 = Inr (pl_uuid p) \<and>
    be64 header 16 = Inr (push_bit 32 (ucast (pl_cycle p)) OR ucast (pl_block p)) \<and>
    be64 header 24 = Inr (pl_tail_lsn p) \<and> header_blocks header = Inr 1 \<and>
    be32 header 12 = Inr (of_nat (length pay)) \<and> be32 header 40 = Inr n \<and>
    check_record C header 1 (take (length pay) data) = Inr () \<and> unpack header 1 data (length pay) = Inr pay"
proof -
  have small: "length pay \<le> XLOG_CYCLE_DATA_ENTRIES * BBSIZE" "unat (pl_iclog_size p) \<le> XLOG_HEADER_CYCLE_SIZE"
    using assms(1,2) by (auto simp: max_payload_def refuse_Inr XLOG_CYCLE_DATA_ENTRIES_def BBSIZE_def XLOG_HEADER_CYCLE_SIZE_def)
  obtain h header data crc where e: "record_header p n (length pay) = Inr h" "length header = BBSIZE"
    "encode_record C p n pay = Inr (blit header 32 (le_bytes32 crc) @ data)"
    "record_checksum C header (take (length pay) data) = Inr crc"
    "length data = div_ceil (length pay) BBSIZE * BBSIZE"
    "unpack_loop header 1 [0..<length data div BBSIZE] data = Inr (pay @ replicate (length data - length pay) 0)"
    "\<forall>at len. at + len \<le> 44 \<or> 300 \<le> at \<longrightarrow> take len (drop at header) = take len (drop at h)"
    using encode_record_shape [OF assms(3) small(1), of n C] by blast
  let ?header = "blit header 32 (le_bytes32 crc)"
  have lh: "length ?header = BBSIZE" using e(2) by (simp add: BBSIZE_def)
  have field: "take len (drop at ?header) = take len (drop at h)"
    if "at + len \<le> 32 \<or> 36 \<le> at \<and> at + len \<le> 44 \<or> 300 \<le> at" for at len
    using that e(2,7) by (auto simp: take_drop_blit_other BBSIZE_def)
  obtain h' where "record_header p n (length pay) = Inr h'" and hdr: "take 4 h' = be_bytes32 XLOG_HEADER_MAGIC"
    "take 4 (drop 8 h') = be_bytes32 XLOG_VERSION_2" "take 4 (drop 12 h') = be_bytes32 (of_nat (length pay))"
    "take 8 (drop 16 h') = be_bytes64 (push_bit 32 (ucast (pl_cycle p)) OR ucast (pl_block p))"
    "take 8 (drop 24 h') = be_bytes64 (pl_tail_lsn p)" "take 4 (drop 40 h') = be_bytes32 n"
    "take 16 (drop 304 h') = pl_uuid p" "take 4 (drop 320 h') = be_bytes32 (pl_iclog_size p)"
    using record_header_ok [OF assms(3), of n "length pay"] by blast
  with e(1) have h': "h' = h" by simp
  note read = read_ok lh [unfolded BBSIZE_def] BBSIZE_def field hdr [unfolded h']
  have magic: "be32 ?header 0 = Inr XLOG_HEADER_MAGIC"
    using field [of 0 4] hdr(1) h' lh by (simp add: read_ok BBSIZE_def)
  have dl: "div_ceil (length (take (length pay) data)) XLOG_HEADER_CYCLE_SIZE \<le> 1"
    using small(1) by (intro div_ceil_le) (simp_all add: XLOG_HEADER_CYCLE_SIZE_def XLOG_CYCLE_DATA_ENTRIES_def BBSIZE_def)
  have "length data div BBSIZE \<le> XLOG_CYCLE_DATA_ENTRIES"
    using e(5) div_ceil_le [OF _ small(1)] by (simp add: BBSIZE_def)
  then have "unpack_loop ?header 1 [0..<length data div BBSIZE] data = Inr (pay @ replicate (length data - length pay) 0)"
    using e(2,6) by (subst unpack_loop_crc) auto
  then have up: "unpack ?header 1 data (length pay) = Inr pay" by (simp add: unpack_def)
  have one: "header_blocks ?header = Inr 1"
    using small(2) by (simp add: header_blocks_def read)
  have fields: "be32 ?header 12 = Inr (of_nat (length pay))" "be32 ?header 40 = Inr n" "uuid_at ?header 304 = Inr (pl_uuid p)"
    "be64 ?header 16 = Inr (push_bit 32 (ucast (pl_cycle p)) OR ucast (pl_block p))" "be64 ?header 24 = Inr (pl_tail_lsn p)"
    by (simp_all add: read)
  show ?thesis
    using e(3,5) lh magic fields one up check_stamped [OF e(2,4) dl] by (intro exI [of _ ?header] exI [of _ data]) simp
qed

text \<open>C37. A record written to the log is the record recovery reads.  For any payload the log's buffer
  size admits, encoding never panics and gives one header block and the padded payload; the header
  carries the magic, the volume's identifier, the sequence number and the tail, and says one header
  block, the payload's length and the number of operations; the checksum recovery computes is the one
  stored; and putting the displaced words back gives the payload that was written.\<close>

theorem record_roundtrip:
  assumes "max_payload (pl_iclog_size p) = Inr most" "length pay \<le> most" "length (pl_uuid p) = 16"
  shows "\<exists>header data. encode_record C p n pay = Inr (header @ data) \<and> length header = BBSIZE \<and>
    length data = div_ceil (length pay) BBSIZE * BBSIZE \<and>
    be32 header 0 = Inr XLOG_HEADER_MAGIC \<and> uuid_at header 304 = Inr (pl_uuid p) \<and>
    be64 header 16 = Inr (push_bit 32 (ucast (pl_cycle p)) OR ucast (pl_block p)) \<and>
    be64 header 24 = Inr (pl_tail_lsn p) \<and> header_blocks header = Inr 1 \<and>
    be32 header 12 = Inr (of_nat (length pay)) \<and> be32 header 40 = Inr n \<and>
    check_record C header 1 (take (length pay) data) = Inr () \<and> unpack header 1 data (length pay) = Inr pay"
  using assms by (rule record_reads_back)

lemma record_roundtrip_witness:
  "\<exists>header data. encode_record sample_crc \<lparr>pl_block = 7, pl_cycle = 3, pl_prev_block = 1, pl_tail_lsn = 9,
      pl_uuid = replicate 16 5, pl_iclog_size = 1024\<rparr> 2 (replicate 40 8) = Inr (header @ data) \<and>
    length data = 512 \<and> unpack header 1 data 40 = Inr (replicate 40 8)"
proof -
  let ?p = "\<lparr>pl_block = 7, pl_cycle = 3, pl_prev_block = 1, pl_tail_lsn = 9, pl_uuid = replicate 16 5, pl_iclog_size = 1024\<rparr>"
  have most: "max_payload (pl_iclog_size ?p) = Inr 512" by (simp add: max_payload_def XLOG_HEADER_CYCLE_SIZE_def BBSIZE_def)
  have fit: "length (replicate 40 8 :: bytes) \<le> 512" and uuid: "length (pl_uuid ?p) = 16" by simp_all
  show ?thesis
    using record_roundtrip [OF most fit uuid, of sample_crc 2] by (auto simp: div_ceil_def BBSIZE_def)
qed

end
