(* ===== verification/LogDinode.thy ===== *)
theory LogDinode
  imports JournalRecord
begin

unbundle bit_operations_syntax

text \<open>
  The inode core as a record holds it (\<^verbatim>\<open>log_dinode_from_disk\<close>, \<^verbatim>\<open>log_dinode_to_disk\<close> and
  \<^verbatim>\<open>field_layout\<close> of \<^verbatim>\<open>src/src/log_write.rs\<close>): the same structure with every multi-byte field in the
  byte order of the machine, which is little-endian here, and a blank checksum.
\<close>

section \<open>Definitions\<close>

definition LOG_DINODE_SIZE :: nat where "LOG_DINODE_SIZE = 176"
definition V2_LOG_DINODE_SIZE :: nat where "V2_LOG_DINODE_SIZE = 96"
definition DI_FLAGS2_BIGTIME :: u64 where "DI_FLAGS2_BIGTIME = 8"
definition DI_FLAGS2_NREXT64 :: u64 where "DI_FLAGS2_NREXT64 = 16"

type_synonym layout = "(nat \<times> nat) list"

definition COMMON :: layout where
  "COMMON = [(0, 2), (2, 2), (6, 2), (8, 4), (12, 4), (16, 4), (20, 2), (22, 2), (56, 8), (64, 8), (72, 4),
     (84, 4), (88, 2), (90, 2), (92, 4)]"

definition V3_TAIL :: layout where
  "V3_TAIL = [(96, 4), (104, 8), (112, 8), (120, 8), (128, 4), (152, 8)]"

definition field_layout :: "u8 \<Rightarrow> bool \<Rightarrow> bool \<Rightarrow> layout" where
  "field_layout ver bigtime nrext64 =
     (let times = (if bigtime then [(32, 8), (40, 8), (48, 8), (144, 8)]
                   else [(32, 4), (36, 4), (40, 4), (44, 4), (48, 4), (52, 4), (144, 4), (148, 4)]);
          counts = (if nrext64 then [(24, 8), (76, 4)] else [(76, 4), (80, 2)])
      in COMMON @
         (if 3 \<le> ver then V3_TAIL @ times @ counts
          else [(32, 4), (36, 4), (40, 4), (44, 4), (48, 4), (52, 4), (76, 4), (80, 2)]))"

text \<open>\<^verbatim>\<open>out[at..at + width].reverse()\<close>, for each field of the layout.\<close>

fun swap_fields :: "nat \<Rightarrow> layout \<Rightarrow> bytes \<Rightarrow> bytes res" where
  "swap_fields sz [] out = Inr out"
| "swap_fields sz ((at, width) # fs) out =
     (if sz < at + width then swap_fields sz fs out
      else rbind (slice out at width) (\<lambda>f. rbind (put out at (rev f)) (swap_fields sz fs)))"

text \<open>The errors are the source's \<^verbatim>\<open>&'static str\<close>.\<close>

datatype dinode_error = Refused string | Dinode_Panic

definition as_dinode :: "'a res \<Rightarrow> dinode_error + 'a" where
  "as_dinode r = (case r of Inr x \<Rightarrow> Inr x | Inl _ \<Rightarrow> Inl Dinode_Panic)"

definition core_size :: "u8 \<Rightarrow> nat option" where
  "core_size ver = (if ver = 1 \<or> ver = 2 then Some V2_LOG_DINODE_SIZE else if ver = 3 then Some LOG_DINODE_SIZE else None)"

definition log_dinode_from_disk :: "bytes \<Rightarrow> dinode_error + bytes" where
  "log_dinode_from_disk raw =
     (if length raw < V2_LOG_DINODE_SIZE then Inl (Refused ''inode is shorter than a v2 core'')
      else
        case core_size (raw ! 4) of
          None \<Rightarrow> Inl (Refused ''unrecognised inode version'')
        | Some sz \<Rightarrow>
            if length raw < sz then Inl (Refused ''inode is shorter than its version's core'')
            else
              as_dinode
                (rbind (if 3 \<le> raw ! 4 then be64 raw 120 else Inr 0) (\<lambda>flags2.
                 rbind (swap_fields sz (field_layout (raw ! 4) (flags2 AND DI_FLAGS2_BIGTIME \<noteq> 0)
                          (flags2 AND DI_FLAGS2_NREXT64 \<noteq> 0)) (take sz raw)) (\<lambda>out.
                   if 3 \<le> raw ! 4 then put out 100 [0, 0, 0, 0] else Inr out))))"

definition log_dinode_to_disk :: "bytes \<Rightarrow> dinode_error + bytes" where
  "log_dinode_to_disk logged =
     (if length logged < V2_LOG_DINODE_SIZE then Inl (Refused ''logged core is shorter than a v2 core'')
      else
        case core_size (logged ! 4) of
          None \<Rightarrow> Inl (Refused ''unrecognised inode version'')
        | Some sz \<Rightarrow>
            if length logged < sz then Inl (Refused ''logged core is shorter than its version's core'')
            else
              as_dinode
                (rbind (if 3 \<le> logged ! 4 then le64 logged 120 else Inr 0) (\<lambda>flags2.
                   swap_fields sz (field_layout (logged ! 4) (flags2 AND DI_FLAGS2_BIGTIME \<noteq> 0)
                          (flags2 AND DI_FLAGS2_NREXT64 \<noteq> 0)) (take sz logged))))"

section \<open>Reversing fields that do not meet\<close>

definition apart :: "layout \<Rightarrow> bool" where
  "apart fs = sorted_wrt (\<lambda>(a, w) (b, v). a + w \<le> b \<or> b + v \<le> a) fs"

fun mirror :: "layout \<Rightarrow> nat \<Rightarrow> nat" where
  "mirror [] i = i"
| "mirror ((at, w) # fs) i = (if at \<le> i \<and> i < at + w then at + (at + w - 1 - i) else mirror fs i)"

lemma mirror_inside: "(at, w) \<in> set fs \<Longrightarrow> apart fs \<Longrightarrow> at \<le> i \<Longrightarrow> i < at + w \<Longrightarrow> mirror fs i = at + (at + w - 1 - i)"
  by (induction fs) (fastforce simp: apart_def)+

lemma mirror_cases:
  "(\<exists>(at, w) \<in> set fs. at \<le> i \<and> i < at + w \<and> mirror fs i = at + (at + w - 1 - i)) \<or>
   (\<forall>(at, w) \<in> set fs. \<not> (at \<le> i \<and> i < at + w)) \<and> mirror fs i = i"
  by (induction fs) (auto split: if_splits)

lemma mirror_mirror: "apart fs \<Longrightarrow> mirror fs (mirror fs i) = i"
  using mirror_cases [of fs i] by (auto simp: mirror_inside)

lemma mirror_bound: "\<forall>(at, w) \<in> set fs. at + w \<le> n \<Longrightarrow> i < n \<Longrightarrow> mirror fs i < n"
  by (induction fs) (auto split: if_splits)

lemma swap_fields_mirror:
  assumes "apart fs" "\<forall>(at, w) \<in> set fs. at + w \<le> sz" "sz \<le> length out"
  shows "\<exists>out'. swap_fields sz fs out = Inr out' \<and> length out' = length out \<and>
    (\<forall>i < length out. out' ! i = out ! mirror fs i)"
  using assms
proof (induction fs arbitrary: out)
  case (Cons f fs)
  obtain at w where f: "f = (at, w)" by fastforce
  have fit: "at + w \<le> sz" using Cons.prems(2) by (auto simp: f)
  let ?out = "blit out at (rev (take w (drop at out)))"
  have lo: "length ?out = length out" using fit Cons.prems(3) by simp
  have one: "?out ! i = (if at \<le> i \<and> i < at + w then out ! (at + (at + w - 1 - i)) else out ! i)" if "i < length out" for i
    using that fit Cons.prems(3) by (auto simp: nth_blit rev_nth intro!: arg_cong [of _ _ "(!) out"])
  have tail: "apart fs" "\<forall>(at, w) \<in> set fs. at + w \<le> sz" using Cons.prems(1,2) by (auto simp: apart_def f)
  obtain out' where out': "swap_fields sz fs ?out = Inr out'" "length out' = length ?out"
    "\<forall>i < length ?out. out' ! i = ?out ! mirror fs i"
    using Cons.IH [OF tail, of ?out] Cons.prems(3) lo by auto
  have "out' ! i = out ! mirror (f # fs) i" if i: "i < length out" for i
  proof (cases "at \<le> i \<and> i < at + w")
    case True
    have "\<forall>(b, v) \<in> set fs. \<not> (b \<le> i \<and> i < b + v)" using Cons.prems(1) True by (fastforce simp: apart_def f)
    then have "mirror fs i = i" using mirror_cases [of fs i] by blast
    then show ?thesis using out'(3) lo i one [OF i] True by (simp add: f)
  next
    case False
    have "\<not> (at \<le> mirror fs i \<and> mirror fs i < at + w)"
      using mirror_cases [of fs i] Cons.prems(1) False by (fastforce simp: apart_def f)
    moreover have "mirror fs i < length out"
      using mirror_cases [of fs i] i tail(2) Cons.prems(3) by fastforce
    ultimately show ?thesis using out'(3) lo i one [of "mirror fs i"] False by (auto simp: f)
  qed
  then show ?case using out' lo fit Cons.prems(3) by (simp add: f slice_def put_def)
qed simp

section \<open>The layouts\<close>

lemma field_layout_ok:
  "apart (field_layout ver bigtime nrext64)"
  "\<forall>(at, w) \<in> set (field_layout ver bigtime nrext64). at + w \<le> (if 3 \<le> ver then LOG_DINODE_SIZE else V2_LOG_DINODE_SIZE)"
  "\<forall>(at, w) \<in> set (field_layout ver bigtime nrext64). \<not> (at \<le> 4 \<and> 4 < at + w) \<and> (at + w \<le> 100 \<or> 104 \<le> at)"
  "3 \<le> ver \<Longrightarrow> (120, 8) \<in> set (field_layout ver bigtime nrext64)"
  by (cases bigtime; cases nrext64;
      simp add: field_layout_def COMMON_def V3_TAIL_def apart_def Let_def LOG_DINODE_SIZE_def V2_LOG_DINODE_SIZE_def)+

lemma mirror_outside: "\<forall>(at, w) \<in> set fs. \<not> (at \<le> i \<and> i < at + w) \<Longrightarrow> mirror fs i = i"
  using mirror_cases [of fs i] by auto

lemma mirror_version: "mirror (field_layout ver bigtime nrext64) 4 = 4"
  by (rule mirror_outside) (use field_layout_ok(3) in fast)

lemma mirror_crc:
  "100 \<le> mirror (field_layout ver bigtime nrext64) i \<and> mirror (field_layout ver bigtime nrext64) i < 104 \<longleftrightarrow> 100 \<le> i \<and> i < 104"
proof -
  let ?L = "field_layout ver bigtime nrext64"
  have stay: "mirror ?L j = j" if "100 \<le> j" "j < 104" for j
    by (rule mirror_outside) (use that field_layout_ok(3) [of ver bigtime nrext64] in fastforce)
  show ?thesis using stay [of i] stay [of "mirror ?L i"] mirror_mirror [OF field_layout_ok(1), of ver bigtime nrext64 i] by auto
qed

lemma core_size_cases:
  "core_size ver = Some sz \<longleftrightarrow> (ver = 1 \<or> ver = 2) \<and> sz = V2_LOG_DINODE_SIZE \<or> ver = 3 \<and> sz = LOG_DINODE_SIZE"
  by (auto simp: core_size_def)

lemma core_size_layout:
  assumes "core_size ver = Some sz"
  shows "\<forall>(at, w) \<in> set (field_layout ver bigtime nrext64). at + w \<le> sz" "96 \<le> sz" "3 \<le> ver \<Longrightarrow> sz = 176" "\<not> 3 \<le> ver \<Longrightarrow> sz = 96"
  using assms field_layout_ok(2) [of ver bigtime nrext64]
  by (auto simp: core_size_cases LOG_DINODE_SIZE_def V2_LOG_DINODE_SIZE_def word_le_nat_alt)

text \<open>The bytes a core holds on disk once its checksum is blank.\<close>

definition blank_core :: "bytes \<Rightarrow> bytes" where
  "blank_core raw = (if 3 \<le> raw ! 4 then blit (take 176 raw) 100 [0, 0, 0, 0] else take 96 raw)"

text \<open>Converting a core: the size its version gives, the fields mirrored, the checksum blank.\<close>

lemma from_disk_mirror:
  assumes "96 \<le> length raw" "core_size (raw ! 4) = Some sz" "sz \<le> length raw"
  shows "\<exists>logged flags2 bigtime nrext64. log_dinode_from_disk raw = Inr logged \<and> length logged = sz \<and>
    (if 3 \<le> raw ! 4 then be64 raw 120 = Inr flags2 else flags2 = 0) \<and>
    bigtime = (flags2 AND DI_FLAGS2_BIGTIME \<noteq> 0) \<and> nrext64 = (flags2 AND DI_FLAGS2_NREXT64 \<noteq> 0) \<and>
    (\<forall>i < sz. logged ! i = (if 3 \<le> raw ! 4 \<and> 100 \<le> i \<and> i < 104 then 0
                            else raw ! mirror (field_layout (raw ! 4) bigtime nrext64) i))"
proof -
  note cs = core_size_layout [OF assms(2)]
  obtain flags2 where f: "(if 3 \<le> raw ! 4 then be64 raw 120 else Inr 0) = Inr flags2"
    using cs(3) assms(3) by (cases "3 \<le> raw ! 4") (auto simp: read_ok)
  let ?b = "flags2 AND DI_FLAGS2_BIGTIME \<noteq> 0" and ?n = "flags2 AND DI_FLAGS2_NREXT64 \<noteq> 0"
  obtain out where out: "swap_fields sz (field_layout (raw ! 4) ?b ?n) (take sz raw) = Inr out" "length out = sz"
    "\<forall>i < sz. out ! i = take sz raw ! mirror (field_layout (raw ! 4) ?b ?n) i"
    using swap_fields_mirror [OF field_layout_ok(1) cs(1), of "take sz raw" ?b ?n] assms(3) by auto
  have nth: "out ! i = raw ! mirror (field_layout (raw ! 4) ?b ?n) i" if "i < sz" for i
    using out(3) that mirror_bound [OF cs(1) that] assms(3) by simp
  have "\<not> length raw < V2_LOG_DINODE_SIZE" using assms(1) by (simp add: V2_LOG_DINODE_SIZE_def)
  moreover have "log_dinode_from_disk raw = Inr (if 3 \<le> raw ! 4 then blit out 100 [0, 0, 0, 0] else out)"
    using calculation assms(2,3) f out(1,2) cs(3)
    by (auto simp: log_dinode_from_disk_def as_dinode_def put_def)
  moreover have "\<forall>i < sz. (if 3 \<le> raw ! 4 then blit out 100 [0, 0, 0, 0] else out) ! i =
      (if 3 \<le> raw ! 4 \<and> 100 \<le> i \<and> i < 104 then 0 else raw ! mirror (field_layout (raw ! 4) ?b ?n) i)"
  proof (intro allI impI)
    fix i assume i: "i < sz"
    have "[0 :: u8, 0, 0, 0] ! (i - 100) = 0" if "i < 104" using that by (auto simp: nth_Cons split: nat.split)
    then show "(if 3 \<le> raw ! 4 then blit out 100 [0, 0, 0, 0] else out) ! i =
        (if 3 \<le> raw ! 4 \<and> 100 \<le> i \<and> i < 104 then 0 else raw ! mirror (field_layout (raw ! 4) ?b ?n) i)"
      using i nth [OF i] out(2) cs(3) by (auto simp: nth_blit)
  qed
  ultimately show ?thesis using f out(2) cs(3)
    by (intro exI [of _ "if 3 \<le> raw ! 4 then blit out 100 [0, 0, 0, 0] else out"] exI [of _ flags2] exI [of _ ?b] exI [of _ ?n])
      (auto split: if_splits)
qed

lemma from_disk_refuses:
  assumes "\<not> (96 \<le> length raw \<and> (\<exists>sz. core_size (raw ! 4) = Some sz \<and> sz \<le> length raw))"
  shows "\<exists>why. log_dinode_from_disk raw = Inl (Refused why)"
  using assms by (auto simp: log_dinode_from_disk_def V2_LOG_DINODE_SIZE_def not_le split: option.split)

lemma to_disk_total:
  assumes "96 \<le> length b" "core_size (b ! 4) = Some sz" "sz \<le> length b"
    "(if 3 \<le> b ! 4 then le64 b 120 = Inr flags2 else flags2 = 0)"
  shows "\<exists>out. log_dinode_to_disk b = Inr out \<and> length out = sz \<and>
    (\<forall>i < sz. out ! i = b ! mirror (field_layout (b ! 4) (flags2 AND DI_FLAGS2_BIGTIME \<noteq> 0) (flags2 AND DI_FLAGS2_NREXT64 \<noteq> 0)) i)"
proof -
  note cs = core_size_layout [OF assms(2)]
  let ?L = "field_layout (b ! 4) (flags2 AND DI_FLAGS2_BIGTIME \<noteq> 0) (flags2 AND DI_FLAGS2_NREXT64 \<noteq> 0)"
  obtain out where out: "swap_fields sz ?L (take sz b) = Inr out" "length out = sz" "\<forall>i < sz. out ! i = take sz b ! mirror ?L i"
    using swap_fields_mirror [OF field_layout_ok(1) cs(1), of "take sz b" "flags2 AND DI_FLAGS2_BIGTIME \<noteq> 0"
        "flags2 AND DI_FLAGS2_NREXT64 \<noteq> 0"] assms(3) by auto
  have "log_dinode_to_disk b = Inr out"
    using assms out(1) by (auto simp: log_dinode_to_disk_def as_dinode_def V2_LOG_DINODE_SIZE_def split: if_splits)
  then show ?thesis using out(2,3) mirror_bound [OF cs(1)] assms(3) by auto
qed

lemma to_disk_flags:
  assumes "96 \<le> length b" "core_size (b ! 4) = Some sz" "sz \<le> length b"
  shows "\<exists>flags2. if 3 \<le> b ! 4 then le64 b 120 = Inr flags2 else flags2 = 0"
  using core_size_layout(3) [OF assms(2)] assms(3) by (cases "3 \<le> b ! 4") (auto simp: read_ok)

lemma dinode_back:
  "case log_dinode_from_disk raw of
     Inl e \<Rightarrow> \<exists>why. e = Refused why
   | Inr logged \<Rightarrow> log_dinode_to_disk logged = Inr (blank_core raw)"
proof (cases "96 \<le> length raw \<and> (\<exists>sz. core_size (raw ! 4) = Some sz \<and> sz \<le> length raw)")
  case False
  then show ?thesis using from_disk_refuses by fastforce
next
  case True
  then obtain sz where pre: "96 \<le> length raw" "core_size (raw ! 4) = Some sz" "sz \<le> length raw" by auto
  note cs = core_size_layout [OF pre(2)]
  obtain logged flags2 bt nx where fd: "log_dinode_from_disk raw = Inr logged" "length logged = sz"
    "if 3 \<le> raw ! 4 then be64 raw 120 = Inr flags2 else flags2 = 0"
    "bt = (flags2 AND DI_FLAGS2_BIGTIME \<noteq> 0)" "nx = (flags2 AND DI_FLAGS2_NREXT64 \<noteq> 0)"
    "\<forall>i < sz. logged ! i = (if 3 \<le> raw ! 4 \<and> 100 \<le> i \<and> i < 104 then 0 else raw ! mirror (field_layout (raw ! 4) bt nx) i)"
    using from_disk_mirror [OF pre] by metis
  let ?L = "field_layout (raw ! 4) bt nx"
  have ver: "logged ! 4 = raw ! 4" using fd(6) cs(2) by (simp add: mirror_version)
  have flags: "if 3 \<le> logged ! 4 then le64 logged 120 = Inr flags2 else flags2 = 0"
  proof (cases "3 \<le> raw ! 4")
    case v3: True
    have "logged ! (127 - i) = raw ! (120 + i)" if "i < 8" for i
      using fd(6) mirror_inside [OF field_layout_ok(4) [OF v3] field_layout_ok(1), of "127 - i" bt nx] that cs(3) v3 by auto
    then have "rev (take 8 (drop 120 logged)) = take 8 (drop 120 raw)"
      using fd(2) cs(3) v3 pre(3) by (intro nth_equalityI) (auto simp: rev_nth)
    then show ?thesis using v3 fd(2,3) cs(3) ver pre(3) by (simp add: read_ok)
  qed (use fd(3) ver in simp)
  obtain out where out: "log_dinode_to_disk logged = Inr out" "length out = sz" "\<forall>i < sz. out ! i = logged ! mirror ?L i"
    using to_disk_total [OF _ _ _ flags, of sz] fd(2,4,5) ver pre(2) cs(2) by auto
  have "out ! i = (if 3 \<le> raw ! 4 \<and> 100 \<le> i \<and> i < 104 then 0 else raw ! i)" if "i < sz" for i
    using out(3) that fd(6) mirror_bound [OF cs(1) that, of bt nx] mirror_mirror [OF field_layout_ok(1), of "raw ! 4" bt nx i]
      mirror_crc [of "raw ! 4" bt nx i] by auto
  moreover have "[0 :: u8, 0, 0, 0] ! (i - 100) = 0" if "i < 104" for i using that by (auto simp: nth_Cons split: nat.split)
  ultimately have "out = blank_core raw"
    using out(2) pre(3) cs(3,4) by (intro nth_equalityI) (auto simp: blank_core_def nth_blit split: if_splits)
  then show ?thesis using fd(1) out(1) by simp
qed

text \<open>An inode core survives its trip through the journal.  Converting a core for the log never
  panics, and every core it accepts is given back by recovery's conversion byte for byte, with only
  the checksum blank, whatever the version and wherever the inode's own flags move its fields.\<close>

lemma dinode_roundtrip:
  "case log_dinode_from_disk raw of
     Inl e \<Rightarrow> \<exists>why. e = Refused why
   | Inr logged \<Rightarrow> log_dinode_to_disk logged = Inr (blank_core raw)"
  by (rule dinode_back)

end
