(* ===== verification/LogHead.thy ===== *)
theory LogHead
  imports LogDinode Geometry
begin

unbundle bit_operations_syntax

text \<open>
  Where the journal is and where it ends (\<^verbatim>\<open>src/src/log.rs\<close>): the log's place on the device, the search
  for the newest record by cycle numbers and by a scan of the whole ring, the head the next record goes
  to, and what the newest record says about how the filesystem was left.

  Counts of basic blocks are natural numbers: a log is at most \<open>2 ^ 32\<close> filesystem blocks of at most
  64 KiB, so none of these sums reaches the width of the source's \<^verbatim>\<open>u64\<close>.  Device offsets are words.
\<close>

section \<open>Definitions\<close>

type_synonym dev_read = "u64 \<Rightarrow> nat \<Rightarrow> bytes res"

definition SCAN_CHUNK :: nat where "SCAN_CHUNK = 1048576"
definition HEAD_WINDOW_BLOCKS :: nat where "HEAD_WINDOW_BLOCKS = 4096"
definition DEFAULT_ICLOG_SIZE :: u32 where "DEFAULT_ICLOG_SIZE = 32768"

datatype LogState = LogEmpty | CleanlyUnmounted | NeedsReplay

record LogRec =
  lr_bb :: nat
  lr_lsn :: u64
  lr_num_logops :: u32
  lr_len :: u32
  lr_header_blocks :: nat
  lr_header :: bytes

record Head =
  hd_block :: u32
  hd_cycle :: u32
  hd_prev_block :: u32
  hd_free_blocks :: u32
  hd_iclog_size :: u32

definition log_extent :: "Superblock \<Rightarrow> (u64 \<times> u64) res" where
  "log_extent sb =
     (if \<not> has_internal_log sb then Inl (UnsupportedFeature ''the log is on a separate device'')
      else
        let bytes = ucast (sb_logblocks sb) * ucast (sb_blocksize sb)
        in if bytes = 0 then Inl (BadSuperblock ''superblock places an internal log of zero length'')
           else Inr (fsblock_offset sb (sb_logstart sb), bytes))"

definition iclog_size_fits :: "u32 \<Rightarrow> u64 \<Rightarrow> bool" where
  "iclog_size_fits iclog_size log_bytes \<longleftrightarrow>
     is_power_of_two iclog_size \<and> of_nat BBSIZE \<le> (ucast iclog_size :: u64) \<and> ucast iclog_size \<le> log_bytes"

definition default_iclog_size :: "u64 \<Rightarrow> u32 res" where
  "default_iclog_size log_bytes =
     (let capped = min (ucast DEFAULT_ICLOG_SIZE) log_bytes;
          floor = (if capped = 0 then 0 else (2 :: u64) ^ (bit_length (unat capped) - 1));
          sz = (ucast floor :: u32)
      in if \<not> iclog_size_fits sz log_bytes then Inl (BadSuperblock ''the log cannot hold an in-core buffer'') else Inr sz)"

text \<open>\<^verbatim>\<open>chunks_exact\<close>.\<close>

function chunks_exact :: "nat \<Rightarrow> bytes \<Rightarrow> bytes list" where
  "chunks_exact n b = (if n = 0 \<or> length b < n then [] else take n b # chunks_exact n (drop n b))"
  by pat_completeness auto

termination by (relation "measure (\<lambda>(n, b). length b)") auto

declare chunks_exact.simps [simp del]

text \<open>A block is a record's header when it carries the magic and this volume's identifier.\<close>

definition is_header :: "Superblock \<Rightarrow> bytes \<Rightarrow> bool res" where
  "is_header sb block =
     rbind (be32 block 0) (\<lambda>magic.
     if magic \<noteq> XLOG_HEADER_MAGIC then Inr False
     else rbind (uuid_at block 304) (\<lambda>u. Inr (u = sb_uuid sb)))"

definition record_of :: "nat \<Rightarrow> bytes \<Rightarrow> LogRec res" where
  "record_of bb block =
     rbind (be64 block 16) (\<lambda>lsn.
     rbind (be32 block 40) (\<lambda>num.
     rbind (be32 block 12) (\<lambda>len.
     rbind (header_blocks block) (\<lambda>hb.
       Inr \<lparr>lr_bb = bb, lr_lsn = lsn, lr_num_logops = num, lr_len = len, lr_header_blocks = hb, lr_header = block\<rparr>))))"

fun scan_blocks :: "Superblock \<Rightarrow> nat \<Rightarrow> bytes list \<Rightarrow> LogRec option \<Rightarrow> LogRec option res" where
  "scan_blocks sb bb [] newest = Inr newest"
| "scan_blocks sb bb (block # blocks) newest =
     rbind (is_header sb block) (\<lambda>h.
     if \<not> h then scan_blocks sb (bb + 1) blocks newest
     else rbind (be64 block 16) (\<lambda>lsn.
       if (case newest of Some n \<Rightarrow> lsn \<le> lr_lsn n | None \<Rightarrow> False) then scan_blocks sb (bb + 1) blocks newest
       else rbind (record_of bb block) (\<lambda>r. scan_blocks sb (bb + 1) blocks (Some r))))"

function scan_ring :: "dev_read \<Rightarrow> Superblock \<Rightarrow> u64 \<Rightarrow> nat \<Rightarrow> nat \<Rightarrow> LogRec option \<Rightarrow> LogRec option res" where
  "scan_ring dev sb log_start log_bytes at newest =
     (if at < log_bytes
      then
        let want = min SCAN_CHUNK (log_bytes - at)
        in rbind (dev (log_start + of_nat at) want) (\<lambda>chunk.
           rbind (scan_blocks sb (at div BBSIZE) (chunks_exact BBSIZE chunk) newest) (\<lambda>newest'.
             scan_ring dev sb log_start log_bytes (at + want) newest'))
      else Inr newest)"
  by pat_completeness auto

termination
  by (relation "measure (\<lambda>(dev, sb, log_start, log_bytes, at, newest). log_bytes - at)") (auto simp: SCAN_CHUNK_def)

declare scan_ring.simps [simp del]

definition scan_whole_ring :: "dev_read \<Rightarrow> Superblock \<Rightarrow> u64 \<Rightarrow> u64 \<Rightarrow> LogRec option res" where
  "scan_whole_ring dev sb log_start log_bytes = scan_ring dev sb log_start (unat log_bytes) 0 None"

text \<open>The cycle a block was written in, and the search for the place where it changes.\<close>

definition cycle_of :: "bytes \<Rightarrow> u32 res" where
  "cycle_of block =
     rbind (be32 block 0) (\<lambda>magic. if magic = XLOG_HEADER_MAGIC then be32 block 4 else be32 block 0)"

definition cycle_at :: "dev_read \<Rightarrow> u64 \<Rightarrow> nat \<Rightarrow> u32 res" where
  "cycle_at dev log_start bb = rbind (dev (log_start + of_nat (bb * BBSIZE)) BBSIZE) cycle_of"

function cycle_search :: "dev_read \<Rightarrow> u64 \<Rightarrow> u32 \<Rightarrow> u32 \<Rightarrow> nat \<Rightarrow> nat \<Rightarrow> nat option res" where
  "cycle_search dev log_start first lastc lo hi =
     (if 1 < hi - lo
      then
        let mid = lo + (hi - lo) div 2
        in rbind (cycle_at dev log_start mid) (\<lambda>c.
           if c = lastc then cycle_search dev log_start first lastc lo mid
           else if c = first then cycle_search dev log_start first lastc mid hi
           else Inr None)
      else Inr (Some hi))"
  by pat_completeness auto

termination
  by (relation "measure (\<lambda>(dev, log_start, first, lastc, lo, hi). hi - lo)") auto

declare cycle_search.simps [simp del]

text \<open>\<^verbatim>\<open>read_run\<close>: the blocks of a run with their numbers, or nothing if one is of another cycle.\<close>

fun check_cycles :: "u32 \<Rightarrow> bytes list \<Rightarrow> bool res" where
  "check_cycles expect [] = Inr True"
| "check_cycles expect (b # bs) =
     rbind (cycle_of b) (\<lambda>c. if c \<noteq> expect then Inr False else check_cycles expect bs)"

definition read_run :: "dev_read \<Rightarrow> u64 \<Rightarrow> nat \<Rightarrow> nat \<Rightarrow> u32 \<Rightarrow> (nat \<times> bytes) list option res" where
  "read_run dev log_start start count expect =
     rbind (dev (log_start + of_nat (start * BBSIZE)) (count * BBSIZE)) (\<lambda>buf.
     let bs = chunks_exact BBSIZE buf
     in rbind (check_cycles expect bs) (\<lambda>ok.
          Inr (if ok then Some (zip [start..<start + length bs] bs) else None)))"

fun find_header :: "Superblock \<Rightarrow> (nat \<times> bytes) list \<Rightarrow> (nat \<times> bytes) option res" where
  "find_header sb [] = Inr None"
| "find_header sb ((bb, b) # bs) = rbind (is_header sb b) (\<lambda>h. if h then Inr (Some (bb, b)) else find_header sb bs)"

text \<open>The window before the head, in the order it was written.\<close>

definition head_window ::
  "dev_read \<Rightarrow> u64 \<Rightarrow> nat \<Rightarrow> u32 \<Rightarrow> nat \<Rightarrow> u32 option \<Rightarrow> (nat \<times> bytes) list option res" where
  "head_window dev log_start ring first head older =
     (let window = min HEAD_WINDOW_BLOCKS ring
      in if head < window
         then
           rbind (case older of
                    None \<Rightarrow> Inr (Some [])
                  | Some old \<Rightarrow> read_run dev log_start (ring - (window - head)) (window - head) old) (\<lambda>wrapped.
             case wrapped of
               None \<Rightarrow> Inr None
             | Some ws \<Rightarrow>
                 rbind (read_run dev log_start 0 head first) (\<lambda>recent.
                   Inr (case recent of None \<Rightarrow> None | Some rs \<Rightarrow> Some (ws @ rs))))
         else read_run dev log_start (head - window) window first)"

definition last_record :: "Superblock \<Rightarrow> nat \<Rightarrow> nat \<Rightarrow> (nat \<times> bytes) list \<Rightarrow> LogRec option res" where
  "last_record sb ring head blocks =
     rbind (find_header sb (rev blocks)) (\<lambda>found.
       case found of
         None \<Rightarrow> Inr None
       | Some (bb, header) \<Rightarrow>
           rbind (header_blocks header) (\<lambda>hb.
           rbind (be32 header 12) (\<lambda>len.
           let e = bb + hb + div_ceil (unat len) BBSIZE;
               e' = (if ring < e then e - ring else e)
           in if e' \<noteq> head then Inr None else rbind (record_of bb header) (\<lambda>r. Inr (Some r)))))"

definition newest_record_by_cycle :: "dev_read \<Rightarrow> Superblock \<Rightarrow> u64 \<Rightarrow> u64 \<Rightarrow> LogRec option res" where
  "newest_record_by_cycle dev sb log_start log_bytes =
     (let total = unat log_bytes div BBSIZE
      in if total < 2 then Inr None
         else
           rbind (cycle_at dev log_start 0) (\<lambda>first.
           if first = 0 then Inr None
           else
             rbind (cycle_at dev log_start (total - 1)) (\<lambda>last.
             rbind (if last = first then Inr (Some (total, None))
                    else if last = 0 \<or> first - 1 = last
                    then rbind (cycle_search dev log_start first last 0 (total - 1)) (\<lambda>hi.
                           Inr (map_option (\<lambda>h. (h, if last \<noteq> 0 then Some last else None)) hi))
                    else Inr None) (\<lambda>shape.
               case shape of
                 None \<Rightarrow> Inr None
               | Some (head, older) \<Rightarrow>
                   rbind (head_window dev log_start total first head older) (\<lambda>blocks.
                     case blocks of None \<Rightarrow> Inr None | Some bs \<Rightarrow> last_record sb total head bs)))))"

definition scan_for_newest_record :: "dev_read \<Rightarrow> Superblock \<Rightarrow> u64 \<Rightarrow> u64 \<Rightarrow> LogRec option res" where
  "scan_for_newest_record dev sb log_start log_bytes =
     rbind (newest_record_by_cycle dev sb log_start log_bytes) (\<lambda>found.
       case found of Some r \<Rightarrow> Inr (Some r) | None \<Rightarrow> scan_whole_ring dev sb log_start log_bytes)"

definition log_head :: "dev_read \<Rightarrow> Superblock \<Rightarrow> Head res" where
  "log_head dev sb =
     rbind (log_extent sb) (\<lambda>(log_start, log_bytes).
     let total = (ucast (log_bytes div of_nat BBSIZE) :: u32)
     in rbind (scan_for_newest_record dev sb log_start log_bytes) (\<lambda>found.
        case found of
          None \<Rightarrow>
            rbind (default_iclog_size log_bytes) (\<lambda>iclog_size.
              Inr \<lparr>hd_block = 0, hd_cycle = 1, hd_prev_block = - 1, hd_free_blocks = total, hd_iclog_size = iclog_size\<rparr>)
        | Some newest \<Rightarrow>
            let cycle = (ucast (shr64 (lr_lsn newest) 32) :: u32)
            in rbind (be32 (lr_header newest) 320) (\<lambda>iclog_size.
               if \<not> iclog_size_fits iclog_size log_bytes
               then Inl (CorruptLog ''the newest log record says its in-core buffers are of a size the log cannot carry'')
               else
                 let nxt = lr_bb newest + lr_header_blocks newest + div_ceil (unat (lr_len newest)) BBSIZE
                 in if unat total < nxt then Inl (CorruptLog ''the newest log record ends past the ring'')
                    else if nxt = unat total
                    then (if cycle = - 1 then Inl (CorruptLog ''the next record would wrap to a cycle this log cannot express'')
                          else Inr \<lparr>hd_block = 0, hd_cycle = cycle + 1, hd_prev_block = of_nat (lr_bb newest),
                                    hd_free_blocks = total, hd_iclog_size = iclog_size\<rparr>)
                    else Inr \<lparr>hd_block = of_nat nxt, hd_cycle = cycle, hd_prev_block = of_nat (lr_bb newest),
                              hd_free_blocks = total - of_nat nxt, hd_iclog_size = iclog_size\<rparr>)))"

definition log_inspect :: "dev_read \<Rightarrow> Superblock \<Rightarrow> LogState res" where
  "log_inspect dev sb =
     (if \<not> has_internal_log sb
      then Inl (UnsupportedFeature ''the log is on a separate device, so whether it needs replaying cannot be established'')
      else
        rbind (log_extent sb) (\<lambda>(log_start, log_bytes).
        rbind (scan_for_newest_record dev sb log_start log_bytes) (\<lambda>found.
          case found of
            None \<Rightarrow> Inr LogEmpty
          | Some newest \<Rightarrow>
              rbind (be32 (lr_header newest) 300) (\<lambda>fmt.
              if fmt \<noteq> LINUX_LE then Inl (UnsupportedFeature ''the log was written in another format'')
              else if lr_num_logops newest \<noteq> 1 then Inr NeedsReplay
              else
                let op_at = log_start + of_nat ((lr_bb newest + lr_header_blocks newest) * BBSIZE)
                in if log_start + log_bytes < op_at + of_nat BBSIZE then Inr NeedsReplay
                   else rbind (dev op_at BBSIZE) (\<lambda>op.
                          rbind (byte_at op 9) (\<lambda>flags.
                            Inr (if flags AND XLOG_UNMOUNT_TRANS \<noteq> 0 then CleanlyUnmounted else NeedsReplay)))))))"

section \<open>The ring as blocks\<close>

definition ring_block :: "bytes \<Rightarrow> u64 \<Rightarrow> nat \<Rightarrow> bytes" where
  "ring_block disk log_start i = take BBSIZE (drop (unat log_start + i * BBSIZE) disk)"

definition header_block_of :: "Superblock \<Rightarrow> bytes \<Rightarrow> bool" where
  "header_block_of sb b \<longleftrightarrow> from_be (take 4 b) = XLOG_HEADER_MAGIC \<and> take 16 (drop 304 b) = sb_uuid sb"

definition block_lsn :: "bytes \<Rightarrow> u64" where "block_lsn b = from_be (take 8 (drop 16 b))"

definition block_cycle :: "bytes \<Rightarrow> u32" where
  "block_cycle b = (if from_be (take 4 b) = XLOG_HEADER_MAGIC then from_be (take 4 (drop 4 b)) else from_be (take 4 b))"

definition block_record :: "nat \<Rightarrow> bytes \<Rightarrow> LogRec" where
  "block_record bb b = (case record_of bb b of Inr r \<Rightarrow> r | Inl _ \<Rightarrow>
     \<lparr>lr_bb = bb, lr_lsn = 0, lr_num_logops = 0, lr_len = 0, lr_header_blocks = 0, lr_header = b\<rparr>)"

text \<open>The log lies on a device that serves a disk.\<close>

definition log_on :: "dev_read \<Rightarrow> bytes \<Rightarrow> u64 \<Rightarrow> nat \<Rightarrow> bool" where
  "log_on dev disk log_start total_blocks \<longleftrightarrow> serves dev disk \<and> length disk < 2 ^ 64 \<and>
     unat log_start + total_blocks * BBSIZE \<le> length disk"

lemma block_reads:
  assumes "length b = BBSIZE"
  shows "is_header sb b = Inr (header_block_of sb b)" "be64 b 16 = Inr (block_lsn b)" "cycle_of b = Inr (block_cycle b)"
    "record_of bb b = Inr (block_record bb b)" "lr_lsn (block_record bb b) = block_lsn b" "lr_bb (block_record bb b) = bb"
  using assms
  by (auto simp: is_header_def header_block_of_def block_lsn_def cycle_of_def block_cycle_def record_of_def block_record_def
      header_blocks_def read_ok BBSIZE_def)

lemma header_blocks_total: "length b = BBSIZE \<Longrightarrow> \<exists>hb. header_blocks b = Inr hb"
  by (simp add: header_blocks_def read_ok BBSIZE_def)

lemma chunks_exact_map:
  "0 < n \<Longrightarrow> length b = n * k \<Longrightarrow> chunks_exact n b = map (\<lambda>i. take n (drop (i * n) b)) [0..<k]"
proof (induction k arbitrary: b)
  case 0
  then show ?case by (simp add: chunks_exact.simps)
next
  case (Suc k)
  have "chunks_exact n (drop n b) = map (\<lambda>i. take n (drop (i * n) (drop n b))) [0..<k]"
    using Suc.prems by (intro Suc.IH) simp_all
  also have "\<dots> = map (\<lambda>i. take n (drop (i * n) b)) (map Suc [0..<k])"
    by (simp add: add.commute)
  finally have "chunks_exact n b = take n b # map (\<lambda>i. take n (drop (i * n) b)) (map Suc [0..<k])"
    using Suc.prems by (subst chunks_exact.simps) simp
  then show ?case by (simp only: map_Suc_upt upt_conv_Cons) simp
qed

lemma log_on_read:
  assumes "log_on dev disk log_start n" "a * BBSIZE + len \<le> n * BBSIZE"
  shows "dev (log_start + of_nat (a * BBSIZE)) len = Inr (take len (drop (unat log_start + a * BBSIZE) disk))"
proof -
  have "unat (log_start + of_nat (a * BBSIZE)) = unat log_start + a * BBSIZE"
    using assms unat_add_small [of log_start "of_nat (a * BBSIZE)"] by (simp add: log_on_def unat_of_nat del: of_nat_mult)
  then show ?thesis using assms by (simp add: log_on_def serves_def)
qed

lemma log_on_length: "log_on dev disk log_start n \<Longrightarrow> i < n \<Longrightarrow> length (ring_block disk log_start i) = BBSIZE"
  using mult_le_mono1 [of "Suc i" n BBSIZE] by (auto simp: log_on_def ring_block_def min_def)

lemma log_on_block:
  assumes "log_on dev disk log_start n" "i < n"
  shows "dev (log_start + of_nat (i * BBSIZE)) BBSIZE = Inr (ring_block disk log_start i)"
  using log_on_read [OF assms(1), of i BBSIZE] assms(2) mult_le_mono1 [of "Suc i" n BBSIZE] by (simp add: ring_block_def)

lemma log_on_chunks:
  assumes "log_on dev disk log_start n" "a + k \<le> n"
  shows "rbind (dev (log_start + of_nat (a * BBSIZE)) (k * BBSIZE)) (\<lambda>buf. f (chunks_exact BBSIZE buf)) =
    f (map (ring_block disk log_start) [a..<a + k])"
proof -
  let ?d = "drop (unat log_start + a * BBSIZE) disk"
  have fit: "a * BBSIZE + k * BBSIZE \<le> n * BBSIZE" using assms(2) by (metis add_mult_distrib mult_le_mono1)
  have "chunks_exact BBSIZE (take (k * BBSIZE) ?d) = map (\<lambda>i. take BBSIZE (drop (i * BBSIZE) (take (k * BBSIZE) ?d))) [0..<k]"
    using assms(1) fit by (intro chunks_exact_map) (auto simp: log_on_def BBSIZE_def min_def)
  also have "\<dots> = map (\<lambda>i. ring_block disk log_start (a + i)) [0..<k]"
  proof (intro map_cong refl)
    fix i assume "i \<in> set [0..<k]"
    then have "Suc i * BBSIZE \<le> k * BBSIZE" by (intro mult_le_mono1) simp
    then have "take BBSIZE (drop (i * BBSIZE) (take (k * BBSIZE) ?d)) = take BBSIZE (drop (i * BBSIZE) ?d)"
      by (simp add: drop_take min_def)
    then show "take BBSIZE (drop (i * BBSIZE) (take (k * BBSIZE) ?d)) = ring_block disk log_start (a + i)"
      by (simp add: ring_block_def add_mult_distrib add.commute add.left_commute)
  qed
  also have "\<dots> = map (ring_block disk log_start) [a..<a + k]"
    by (intro nth_equalityI) simp_all
  finally show ?thesis using log_on_read [OF assms(1) fit] by simp
qed

section \<open>The scan of the whole ring\<close>

lemma scan_blocks_append:
  "scan_blocks sb bb (xs @ ys) newest = rbind (scan_blocks sb bb xs newest) (scan_blocks sb (bb + length xs) ys)"
proof (induction xs arbitrary: bb newest)
  case (Cons x xs)
  then show ?case by (auto simp: rbind_def split: sum.split option.split)
qed simp

lemma scan_ring_blocks:
  assumes "log_on dev disk log_start n" "a \<le> n"
  shows "scan_ring dev sb log_start (n * BBSIZE) (a * BBSIZE) newest =
    scan_blocks sb a (map (ring_block disk log_start) [a..<n]) newest"
  using assms(2)
proof (induction "n - a" arbitrary: a newest rule: less_induct)
  case less
  show ?case
  proof (cases "a < n")
    case False
    then show ?thesis using less.prems by (simp add: scan_ring.simps)
  next
    case True
    define k where "k = min 2048 (n - a)"
    have k: "0 < k" "a + k \<le> n" using True by (auto simp: k_def)
    have want: "min SCAN_CHUNK (n * BBSIZE - a * BBSIZE) = k * BBSIZE"
      by (auto simp: k_def SCAN_CHUNK_def BBSIZE_def min_def diff_mult_distrib)
    have lt: "a * BBSIZE < n * BBSIZE" and pos: "0 < BBSIZE" using True by (simp_all add: BBSIZE_def)
    have "scan_ring dev sb log_start (n * BBSIZE) (a * BBSIZE) newest =
      rbind (scan_blocks sb a (map (ring_block disk log_start) [a..<a + k]) newest)
        (\<lambda>newest'. scan_ring dev sb log_start (n * BBSIZE) ((a + k) * BBSIZE) newest')"
      using log_on_chunks [OF assms(1) k(2), of "\<lambda>bs. rbind (scan_blocks sb a bs newest)
          (\<lambda>newest'. scan_ring dev sb log_start (n * BBSIZE) ((a + k) * BBSIZE) newest')"] lt
      by (subst scan_ring.simps) (simp add: want add_mult_distrib pos)
    also have "\<dots> = scan_blocks sb a (map (ring_block disk log_start) ([a..<a + k] @ [a + k..<n])) newest"
      using less.hyps [of "a + k"] k True by (simp add: scan_blocks_append)
    also have "[a..<a + k] @ [a + k..<n] = [a..<n]"
      using upt_add_eq_append [of a "a + k" "n - (a + k)"] k(2) by simp
    finally show ?thesis .
  qed
qed

text \<open>What the scan returns: of the headers among the blocks, the one of the greatest sequence number,
  unless one at least as new was known already.\<close>

definition no_newer :: "Superblock \<Rightarrow> bytes list \<Rightarrow> u64 \<Rightarrow> bool" where
  "no_newer sb bs lsn \<longleftrightarrow> (\<forall>b \<in> set bs. header_block_of sb b \<longrightarrow> block_lsn b \<le> lsn)"

definition newest_among :: "Superblock \<Rightarrow> nat \<Rightarrow> bytes list \<Rightarrow> LogRec option \<Rightarrow> LogRec option \<Rightarrow> bool" where
  "newest_among sb bb bs newest res \<longleftrightarrow>
     (case newest of None \<Rightarrow> res = None \<and> (\<forall>b \<in> set bs. \<not> header_block_of sb b)
                   | Some n \<Rightarrow> res = newest \<and> no_newer sb bs (lr_lsn n)) \<or>
     (\<exists>i < length bs. header_block_of sb (bs ! i) \<and> res = Some (block_record (bb + i) (bs ! i)) \<and>
        (case newest of None \<Rightarrow> True | Some n \<Rightarrow> lr_lsn n < block_lsn (bs ! i)) \<and> no_newer sb bs (block_lsn (bs ! i)))"

lemma newest_among_skip:
  assumes "newest_among sb (bb + 1) bs newest res"
    "\<not> (header_block_of sb b \<and> \<not> (case newest of Some n \<Rightarrow> block_lsn b \<le> lr_lsn n | None \<Rightarrow> False))"
  shows "newest_among sb bb (b # bs) newest res"
  using assms unfolding newest_among_def no_newer_def
  by (elim disjE exE conjE) (fastforce split: option.splits)+

lemma newest_among_take:
  assumes "newest_among sb (bb + 1) bs (Some (block_record bb b)) res" "length b = BBSIZE" "header_block_of sb b"
    "\<not> (case newest of Some n \<Rightarrow> block_lsn b \<le> lr_lsn n | None \<Rightarrow> False)"
  shows "newest_among sb bb (b # bs) newest res"
proof -
  note rd = block_reads [OF assms(2)]
  have nw: "case newest of None \<Rightarrow> True | Some n \<Rightarrow> lr_lsn n < block_lsn b" using assms(4) by (auto split: option.splits)
  show ?thesis
    using assms(1) unfolding newest_among_def option.case no_newer_def rd
  proof (elim disjE exE conjE, goal_cases)
    case 1
    then show ?case using nw assms(3) by (intro disjI2 exI [of _ 0]) (auto split: option.splits)
  next
    case (2 i)
    then show ?case using nw assms(3) by (intro disjI2 exI [of _ "Suc i"]) (auto split: option.splits)
  qed
qed

lemma scan_blocks_spec:
  assumes "\<forall>b \<in> set bs. length b = BBSIZE"
  shows "\<exists>res. scan_blocks sb bb bs newest = Inr res \<and> newest_among sb bb bs newest res"
  using assms
proof (induction bs arbitrary: bb newest)
  case Nil
  then show ?case by (simp add: newest_among_def no_newer_def split: option.split)
next
  case (Cons b bs)
  have b: "length b = BBSIZE" "\<forall>b \<in> set bs. length b = BBSIZE" using Cons.prems by auto
  show ?case
  proof (cases "header_block_of sb b \<and> \<not> (case newest of Some n \<Rightarrow> block_lsn b \<le> lr_lsn n | None \<Rightarrow> False)")
    case False
    then have "scan_blocks sb bb (b # bs) newest = scan_blocks sb (bb + 1) bs newest" by (auto simp: block_reads [OF b(1)])
    then show ?thesis using Cons.IH [OF b(2), of "bb + 1" newest] newest_among_skip [OF _ False] by auto
  next
    case True
    then have "scan_blocks sb bb (b # bs) newest = scan_blocks sb (bb + 1) bs (Some (block_record bb b))"
      by (auto simp: block_reads [OF b(1)] split: option.splits)
    then show ?thesis
      using Cons.IH [OF b(2), of "bb + 1" "Some (block_record bb b)"] newest_among_take [OF _ b(1)] True by auto
  qed
qed

lemma scan_whole_ring_spec:
  assumes "log_on dev disk log_start n" "unat log_bytes = n * BBSIZE"
  shows "\<exists>res. scan_whole_ring dev sb log_start log_bytes = Inr res \<and>
    newest_among sb 0 (map (ring_block disk log_start) [0..<n]) None res"
  using scan_ring_blocks [OF assms(1), of 0 sb None] scan_blocks_spec [of "map (ring_block disk log_start) [0..<n]" sb 0 None]
    log_on_length [OF assms(1)] by (auto simp: scan_whole_ring_def assms(2))

section \<open>The search by cycle numbers\<close>

text \<open>A ring the log's writers leave: blocks of one cycle up to the head, of the one before it, or never
  written, from there on; and every record's sequence number is its cycle and its block.\<close>

definition ring_shape :: "(nat \<Rightarrow> bytes) \<Rightarrow> nat \<Rightarrow> nat \<Rightarrow> u32 \<Rightarrow> u32 \<Rightarrow> bool" where
  "ring_shape blk n head first older \<longleftrightarrow> 0 < head \<and> head \<le> n \<and> first \<noteq> 0 \<and> older < first \<and>
     (\<forall>i < head. block_cycle (blk i) = first) \<and> (\<forall>i. head \<le> i \<and> i < n \<longrightarrow> block_cycle (blk i) = older) \<and>
     (older = 0 \<or> older = first - 1)"

definition lsns_placed :: "Superblock \<Rightarrow> (nat \<Rightarrow> bytes) \<Rightarrow> nat \<Rightarrow> bool" where
  "lsns_placed sb blk n \<longleftrightarrow> n < 2 ^ 32 \<and> (\<forall>i < n. header_block_of sb (blk i) \<longrightarrow>
     unat (block_lsn (blk i)) = unat (block_cycle (blk i)) * 2 ^ 32 + i)"

lemma cycle_at_block:
  "log_on dev disk log_start n \<Longrightarrow> i < n \<Longrightarrow> cycle_at dev log_start i = Inr (block_cycle (ring_block disk log_start i))"
  using log_on_block [of dev disk log_start n i] log_on_length [of dev disk log_start n i]
  by (simp add: cycle_at_def block_reads)

lemma cycle_search_finds:
  assumes "log_on dev disk log_start n" "ring_shape (ring_block disk log_start) n head first older" "lo < head" "head \<le> hi" "hi < n"
  shows "cycle_search dev log_start first older lo hi = Inr (Some head)"
  using assms(3-5)
proof (induction "hi - lo" arbitrary: lo hi rule: less_induct)
  case less
  show ?case
  proof (cases "1 < hi - lo")
    case False
    then have "hi = head" using less.prems by simp
    then show ?thesis using False by (subst cycle_search.simps) simp
  next
    case True
    define mid where "mid = lo + (hi - lo) div 2"
    have mid: "lo < mid" "mid < hi" using True by (auto simp: mid_def)
    have c: "cycle_at dev log_start mid = Inr (if mid < head then first else older)" "older \<noteq> first"
      using cycle_at_block [OF assms(1), of mid] assms(2) mid less.prems(3) by (auto simp: ring_shape_def)
    show ?thesis
    proof (cases "mid < head")
      case left: True
      then show ?thesis using c True less.hyps [of hi mid] mid less.prems
        by (subst cycle_search.simps) (simp add: mid_def [symmetric] Let_def)
    next
      case right: False
      then show ?thesis using c True less.hyps [of mid lo] mid less.prems
        by (subst cycle_search.simps) (simp add: mid_def [symmetric] Let_def)
    qed
  qed
qed

lemma check_cycles_total: "\<forall>b \<in> set bs. length b = BBSIZE \<Longrightarrow> \<exists>ok. check_cycles expect bs = Inr ok"
  by (induction bs) (auto simp: block_reads)

definition numbered :: "(nat \<Rightarrow> bytes) \<Rightarrow> nat list \<Rightarrow> (nat \<times> bytes) list" where
  "numbered blk is = map (\<lambda>i. (i, blk i)) is"

lemma read_run_spec:
  assumes "log_on dev disk log_start n" "a + k \<le> n"
  shows "read_run dev log_start a k expect \<in> {Inr None, Inr (Some (numbered (ring_block disk log_start) [a..<a + k]))}"
proof -
  let ?bs = "map (ring_block disk log_start) [a..<a + k]"
  have "\<forall>b \<in> set ?bs. length b = BBSIZE" using log_on_length [OF assms(1)] assms(2) by auto
  then obtain ok where ok: "check_cycles expect ?bs = Inr ok" using check_cycles_total by blast
  have "zip [a..<a + k] ?bs = numbered (ring_block disk log_start) [a..<a + k]"
    by (simp add: numbered_def zip_map2 zip_same_conv_map)
  then show ?thesis
    using log_on_chunks [OF assms, of "\<lambda>bs. rbind (check_cycles expect bs) (\<lambda>ok.
        Inr (if ok then Some (zip [a..<a + length bs] bs) else None))"] ok
    by (simp add: read_run_def Let_def)
qed

text \<open>The blocks the search reads, in the order they were written.\<close>

definition window_blocks :: "nat \<Rightarrow> nat \<Rightarrow> bool \<Rightarrow> nat list" where
  "window_blocks n head wrapped =
     (let window = min HEAD_WINDOW_BLOCKS n
      in if head < window then (if wrapped then [n - (window - head)..<n] else []) @ [0..<head] else [head - window..<head])"

lemma head_window_spec:
  assumes "log_on dev disk log_start n" "head \<le> n"
  shows "head_window dev log_start n first head old \<in>
    {Inr None, Inr (Some (numbered (ring_block disk log_start) (window_blocks n head (old \<noteq> None))))}"
proof -
  let ?w = "min HEAD_WINDOW_BLOCKS n"
  note run = read_run_spec [OF assms(1)]
  show ?thesis
  proof (cases "head < ?w")
    case True
    then have "n - (?w - head) + (?w - head) = n" by simp
    then show ?thesis
      using True run [of "n - (?w - head)" "?w - head" "the old"] run [of 0 head first] assms(2)
      by (cases old) (auto simp: head_window_def window_blocks_def Let_def numbered_def)
  next
    case False
    then show ?thesis using run [of "head - ?w" ?w first] assms(2)
      by (auto simp: head_window_def window_blocks_def Let_def)
  qed
qed

lemma find_header_spec:
  assumes "\<forall>i \<in> set is. length (blk i) = BBSIZE"
  shows "find_header sb (numbered blk is) = Inr None \<and> (\<forall>i \<in> set is. \<not> header_block_of sb (blk i)) \<or>
    (\<exists>xs bb ys. is = xs @ bb # ys \<and> find_header sb (numbered blk is) = Inr (Some (bb, blk bb)) \<and>
       header_block_of sb (blk bb) \<and> (\<forall>i \<in> set xs. \<not> header_block_of sb (blk i)))"
  using assms
proof (induction "is")
  case (Cons i "is")
  show ?case
  proof (cases "header_block_of sb (blk i)")
    case True
    then show ?thesis using Cons.prems
      by (intro disjI2 exI [of _ "[]"] exI [of _ i] exI [of _ "is"]) (simp add: numbered_def block_reads)
  next
    case False
    then have "find_header sb (numbered blk (i # is)) = find_header sb (numbered blk is)"
      using Cons.prems by (simp add: numbered_def block_reads)
    moreover from Cons.IH Cons.prems have "find_header sb (numbered blk is) = Inr None \<and> (\<forall>i \<in> set is. \<not> header_block_of sb (blk i)) \<or>
      (\<exists>xs bb ys. is = xs @ bb # ys \<and> find_header sb (numbered blk is) = Inr (Some (bb, blk bb)) \<and>
         header_block_of sb (blk bb) \<and> (\<forall>i \<in> set xs. \<not> header_block_of sb (blk i)))" by simp
    ultimately show ?thesis
    proof (elim disjE exE conjE, goal_cases)
      case (2 xs bb ys)
      then show ?case using False by (intro disjI2 exI [of _ "i # xs"] exI [of _ bb] exI [of _ ys]) simp
    qed (use False in simp)
  qed
qed (simp add: numbered_def)

lemma last_record_spec:
  assumes "\<forall>i \<in> set is. length (blk i) = BBSIZE"
  shows "last_record sb n head (numbered blk is) = Inr None \<or>
    (\<exists>xs bb ys. is = xs @ bb # ys \<and> last_record sb n head (numbered blk is) = Inr (Some (block_record bb (blk bb))) \<and>
       header_block_of sb (blk bb) \<and> (\<forall>i \<in> set ys. \<not> header_block_of sb (blk i)))"
proof -
  have rev: "rev (numbered blk is) = numbered blk (rev is)" by (simp add: numbered_def rev_map)
  have lens: "\<forall>i \<in> set (rev is). length (blk i) = BBSIZE" using assms by simp
  from find_header_spec [OF lens, of sb] show ?thesis
  proof (elim disjE exE conjE)
    assume "find_header sb (numbered blk (rev is)) = Inr None"
    then show ?thesis by (simp add: last_record_def rev)
  next
    fix xs bb ys
    assume s: "rev is = xs @ bb # ys" "find_header sb (numbered blk (rev is)) = Inr (Some (bb, blk bb))"
      "header_block_of sb (blk bb)" "\<forall>i \<in> set xs. \<not> header_block_of sb (blk i)"
    have len: "length (blk bb) = BBSIZE" using lens s(1) by auto
    then obtain hb where "header_blocks (blk bb) = Inr hb" using header_blocks_total by blast
    moreover have "\<exists>len. be32 (blk bb) 12 = Inr len" using len by (simp add: read_ok BBSIZE_def)
    ultimately have "last_record sb n head (numbered blk is) \<in> {Inr None, Inr (Some (block_record bb (blk bb)))}"
      using s(2) by (auto simp: last_record_def rev block_reads(4) [OF len] Let_def)
    moreover have "is = rev ys @ bb # rev xs"
      using s(1) by (metis rev_append rev_rev_ident rev.simps(2) append_assoc append_Cons append_Nil)
    ultimately show ?thesis using s(3,4) by fastforce
  qed
qed

lemma upt_split: "[a..<b] = xs @ c # ys \<Longrightarrow> a \<le> c \<and> c < b \<and> xs = [a..<c] \<and> ys = [Suc c..<b]"
proof (induction xs arbitrary: a)
  case Nil
  then have "c # ys = [a..<b]" by simp
  then show ?case using upt_Cons_dest by fastforce
next
  case (Cons x xs)
  then have "x # (xs @ c # ys) = [a..<b]" by simp
  from upt_Cons_dest [OF this] show ?case using Cons.IH [of "Suc a"] by (auto simp: upt_conv_Cons)
qed

text \<open>The last header of the window is the newest of the whole ring.\<close>

lemma lsn_less:
  assumes "lsns_placed sb blk n" "i < n" "j < n" "header_block_of sb (blk i)" "header_block_of sb (blk j)"
    "block_cycle (blk i) < block_cycle (blk j) \<or> block_cycle (blk i) = block_cycle (blk j) \<and> i < j"
  shows "block_lsn (blk i) < block_lsn (blk j)"
proof -
  have "unat (block_lsn (blk i)) = unat (block_cycle (blk i)) * 2 ^ 32 + i"
    "unat (block_lsn (blk j)) = unat (block_cycle (blk j)) * 2 ^ 32 + j" "i < 2 ^ 32"
    using assms(1-5) by (auto simp: lsns_placed_def)
  then show ?thesis using assms(6) by (auto simp: word_less_nat_alt)
qed

lemma window_newest:
  assumes shape: "ring_shape blk n head first older" and lsns: "lsns_placed sb blk n"
    and win: "window_blocks n head (older \<noteq> 0 \<and> head < n) = xs @ bb # ys" and bb: "header_block_of sb (blk bb)"
    and late: "\<forall>i \<in> set ys. \<not> header_block_of sb (blk i)" and j: "j < n" "header_block_of sb (blk j)" "j \<noteq> bb"
  shows "bb < n \<and> block_lsn (blk j) < block_lsn (blk bb)"
proof -
  let ?w = "min HEAD_WINDOW_BLOCKS n"
  note sh = shape [unfolded ring_shape_def]
  have cyc: "block_cycle (blk i) = (if i < head then first else older)" if "i < n" for i using sh that by auto
  have recent: "bb < n \<and> block_lsn (blk j) < block_lsn (blk bb)" if "bb < head" "\<forall>i. bb < i \<and> i < head \<longrightarrow> i \<in> set ys"
  proof -
    have "bb < n" "j < head \<longrightarrow> j < bb" using that late j sh by (auto simp: not_less_iff_gr_or_eq)
    then show ?thesis using lsn_less [OF lsns j(1) _ j(2) bb] cyc [of bb] cyc [OF j(1)] that(1) sh by auto
  qed
  show ?thesis
  proof (cases "head < ?w")
    case False
    then have "[head - ?w..<head] = xs @ bb # ys" using win unfolding window_blocks_def Let_def by (simp only: if_False)
    from upt_split [OF this] show ?thesis using recent by auto
  next
    case True
    define W where "W = (if older \<noteq> 0 \<and> head < n then [n - (?w - head)..<n] else [])"
    have "W @ [0..<head] = xs @ bb # ys" using win True by (simp add: window_blocks_def Let_def W_def)
    then consider (old) us where "W = xs @ bb # us" "ys = us @ [0..<head]" | (new) us where "[0..<head] = us @ bb # ys"
      by (auto simp: append_eq_append_conv2 append_eq_Cons_conv Cons_eq_append_conv)
    then show ?thesis
    proof cases
      case new
      from upt_split [OF this] show ?thesis using recent by auto
    next
      case old
      then have w: "older \<noteq> 0" "head < n" "[n - (?w - head)..<n] = xs @ bb # us" by (auto simp: W_def split: if_splits)
      note u = upt_split [OF w(3)]
      have "head \<le> bb" "bb < n" using u True w(2) by auto
      moreover have "\<not> j < head" "\<not> bb < j" using late old(2) u j(1,2) by auto
      then have "head \<le> j" "j < bb" using j(3) by auto
      ultimately show ?thesis using lsn_less [OF lsns j(1) _ j(2) bb] cyc [of bb] cyc [OF j(1)] by simp
    qed
  qed
qed

lemma by_cycle_newest:
  assumes on: "log_on dev disk log_start n" and shape: "ring_shape (ring_block disk log_start) n head first older"
    and lsns: "lsns_placed sb (ring_block disk log_start) n" and n: "unat log_bytes = n * BBSIZE"
  shows "newest_record_by_cycle dev sb log_start log_bytes = Inr None \<or>
    (\<exists>bb < n. newest_record_by_cycle dev sb log_start log_bytes = Inr (Some (block_record bb (ring_block disk log_start bb))) \<and>
       header_block_of sb (ring_block disk log_start bb) \<and>
       (\<forall>j < n. header_block_of sb (ring_block disk log_start j) \<longrightarrow> j \<noteq> bb \<longrightarrow>
          block_lsn (ring_block disk log_start j) < block_lsn (ring_block disk log_start bb)))"
proof -
  let ?blk = "ring_block disk log_start"
  note sh = shape [unfolded ring_shape_def]
  have pos: "unat log_bytes div BBSIZE = n" using n by (simp add: BBSIZE_def)
  define old where "old = (if older \<noteq> 0 \<and> head < n then Some older else None)"
  have old: "(old \<noteq> None) = (older \<noteq> 0 \<and> head < n)" by (simp add: old_def)
  have len: "\<forall>i \<in> set (window_blocks n head (old \<noteq> None)). length (?blk i) = BBSIZE"
    using log_on_length [OF on] sh by (auto simp: window_blocks_def Let_def split: if_splits)
  show ?thesis
  proof (cases "n < 2")
    case True
    then show ?thesis by (simp add: newest_record_by_cycle_def pos)
  next
    case False
    have first: "cycle_at dev log_start 0 = Inr first" "first \<noteq> 0" using cycle_at_block [OF on, of 0] sh False by auto
    have lst: "cycle_at dev log_start (n - 1) = Inr (if head < n then older else first)"
      using cycle_at_block [OF on, of "n - 1"] sh False by auto
    have search: "head < n \<Longrightarrow> cycle_search dev log_start first older 0 (n - 1) = Inr (Some head)"
      using cycle_search_finds [OF on shape, of 0 "n - 1"] sh False by auto
    have "newest_record_by_cycle dev sb log_start log_bytes =
      rbind (head_window dev log_start n first head old) (\<lambda>blocks.
        case blocks of None \<Rightarrow> Inr None | Some bs \<Rightarrow> last_record sb n head bs)"
      using False first lst search sh by (auto simp: newest_record_by_cycle_def pos Let_def old_def)
    then have "newest_record_by_cycle dev sb log_start log_bytes \<in>
      {Inr None, last_record sb n head (numbered ?blk (window_blocks n head (old \<noteq> None)))}"
      using head_window_spec [OF on, of head first old] sh by auto
    then show ?thesis using last_record_spec [OF len, of sb n head]
    proof (elim insertE disjE exE conjE, goal_cases)
      case (4 xs bb ys)
      have w: "window_blocks n head (older \<noteq> 0 \<and> head < n) = xs @ bb # ys" using 4 old by simp
      have "set (window_blocks n head (old \<noteq> None)) \<subseteq> {..<n}"
        using sh by (auto simp: window_blocks_def Let_def split: if_splits)
      then have "bb < n" using 4 by auto
      moreover have "\<forall>j < n. header_block_of sb (?blk j) \<longrightarrow> j \<noteq> bb \<longrightarrow> block_lsn (?blk j) < block_lsn (?blk bb)"
        using window_newest [OF shape lsns w] 4 by blast
      ultimately show ?case using 4 by (intro disjI2 exI [of _ bb]) auto
    qed auto
  qed
qed

text \<open>C38. Finding the newest record by cycle numbers gives the record a scan of the whole log finds.  On a
  log whose blocks are of one cycle up to the head and of the one before it, or never written, from
  there on, and whose records are numbered by cycle and block, the two agree: the search either
  leaves the answer to the scan, or returns the very record the scan would.\<close>

theorem newest_record_agrees:
  assumes "log_on dev disk log_start n" "ring_shape (ring_block disk log_start) n head first older"
    "lsns_placed sb (ring_block disk log_start) n" "unat log_bytes = n * BBSIZE"
  shows "scan_for_newest_record dev sb log_start log_bytes = scan_whole_ring dev sb log_start log_bytes"
proof -
  let ?blk = "ring_block disk log_start"
  obtain res where scan: "scan_whole_ring dev sb log_start log_bytes = Inr res"
    "newest_among sb 0 (map ?blk [0..<n]) None res"
    using scan_whole_ring_spec [OF assms(1,4)] by blast
  from by_cycle_newest [OF assms] show ?thesis
  proof (elim disjE exE conjE)
    fix bb assume bb: "bb < n" "newest_record_by_cycle dev sb log_start log_bytes = Inr (Some (block_record bb (?blk bb)))"
      "header_block_of sb (?blk bb)"
      "\<forall>j < n. header_block_of sb (?blk j) \<longrightarrow> j \<noteq> bb \<longrightarrow> block_lsn (?blk j) < block_lsn (?blk bb)"
    have "\<exists>b \<in> set (map ?blk [0..<n]). header_block_of sb b" using bb(1,3) by auto
    with scan(2) obtain i where i: "i < n" "header_block_of sb (?blk i)" "res = Some (block_record i (?blk i))"
      "no_newer sb (map ?blk [0..<n]) (block_lsn (?blk i))"
      by (auto simp: newest_among_def)
    have "block_lsn (?blk bb) \<le> block_lsn (?blk i)" using i(4) bb(1,3) by (auto simp: no_newer_def)
    then have "i = bb" using bb(4) i(1,2) by (meson leD)
    then show ?thesis using bb(2) i(3) scan(1) by (simp add: scan_for_newest_record_def)
  qed (simp add: scan_for_newest_record_def)
qed

text \<open>A log of two blocks: a record of cycle 1 and a block never written.\<close>

definition sample_header :: bytes where
  "sample_header = be_bytes32 XLOG_HEADER_MAGIC @ be_bytes32 1 @ be_bytes32 XLOG_VERSION_2 @ be_bytes32 0 @
     be_bytes64 0x100000000 @ replicate 280 0 @ sb_uuid sample_sb @ replicate 192 0"

lemma sample_header_fields:
  assumes "length (sb_uuid sample_sb) = 16"
  shows "length sample_header = 512" "from_be (take 4 sample_header) = XLOG_HEADER_MAGIC"
    "from_be (take 4 (drop 4 sample_header)) = (1 :: u32)" "from_be (take 8 (drop 16 sample_header)) = (0x100000000 :: u64)"
  using assms by (simp_all add: sample_header_def)

lemma from_be_zeros: "from_be (replicate n 0) = (0 :: 'a::len word)"
  by (induction n) (simp_all add: from_be_def)

lemma newest_record_agrees_witness:
  "scan_for_newest_record (read_image (sample_header @ replicate 512 0)) sample_sb 0 1024 =
   scan_whole_ring (read_image (sample_header @ replicate 512 0)) sample_sb 0 1024"
proof (rule newest_record_agrees [where n = 2 and head = 1 and first = 1 and older = 0 and disk = "sample_header @ replicate 512 0"])
  let ?disk = "sample_header @ replicate 512 0"
  have u: "length (sb_uuid sample_sb) = 16" by (simp add: sample_sb_def)
  note h = sample_header_fields [OF u]
  have two: "i < 2 \<longleftrightarrow> i = 0 \<or> i = 1" for i :: nat by auto
  have blk: "ring_block ?disk 0 0 = sample_header" "ring_block ?disk 0 1 = replicate 512 0"
    using h(1) by (simp_all add: ring_block_def BBSIZE_def)
  have cyc: "block_cycle sample_header = 1" "block_cycle (replicate 512 0) = 0"
    using h by (simp_all add: block_cycle_def XLOG_HEADER_MAGIC_def from_be_zeros)
  show "log_on (read_image ?disk) ?disk 0 2"
    using h(1) by (simp add: log_on_def serves_def read_image_def slice_def BBSIZE_def)
  show "ring_shape (ring_block ?disk 0) 2 1 1 0"
    using blk cyc by (auto simp: ring_shape_def two)
  show "lsns_placed sample_sb (ring_block ?disk 0) 2"
    using blk cyc h by (auto simp: lsns_placed_def two header_block_of_def block_lsn_def XLOG_HEADER_MAGIC_def from_be_zeros)
  show "unat (1024 :: u64) = 2 * BBSIZE" by (simp add: BBSIZE_def)
qed

section \<open>Where the next record goes\<close>

lemma power_floor:
  assumes "0 < m"
  shows "2 ^ (bit_length m - 1) \<le> m" "m < 2 ^ bit_length m" "0 < bit_length m"
proof -
  show p: "0 < bit_length m" using assms bit_length_le [of m 0] by auto
  show "m < 2 ^ bit_length m" using bit_length_le [of m "bit_length m"] by simp
  show "2 ^ (bit_length m - 1) \<le> m" using bit_length_le [of m "bit_length m - 1"] p by (auto simp: not_less)
qed

text \<open>The buffer size given to a log nothing has written to is the largest power of two that is at most
  32 KiB and at most the log, and it satisfies the very test the next mount reads it back with; a log
  that holds no basic block, and no other, is refused.\<close>

lemma default_iclog_size_exact:
  "case default_iclog_size log_bytes of
     Inl e \<Rightarrow> unat log_bytes < BBSIZE
   | Inr s \<Rightarrow> iclog_size_fits s log_bytes \<and>
       (\<exists>k. unat s = 2 ^ k \<and> 2 ^ k \<le> min 32768 (unat log_bytes) \<and> min 32768 (unat log_bytes) < 2 ^ (k + 1))"
proof -
  define m where "m = min 32768 (unat log_bytes)"
  have capped: "unat (min (ucast DEFAULT_ICLOG_SIZE) log_bytes :: u64) = m"
    by (simp add: unat_min DEFAULT_ICLOG_SIZE_def m_def)
  define k where "k = bit_length m - 1"
  show ?thesis
  proof (cases "m = 0")
    case True
    then have "unat log_bytes = 0" by (auto simp: m_def min_def split: if_splits)
    then show ?thesis using True capped
      by (auto simp: default_iclog_size_def iclog_size_fits_def is_power_of_two_def BBSIZE_def unat_eq_zero Let_def)
  next
    case False
    have k: "2 ^ k \<le> m" "m < 2 ^ (k + 1)" using power_floor [of m] False by (auto simp: k_def)
    have "m \<le> 2 ^ 15" by (simp add: m_def)
    then have "(2 :: nat) ^ k \<le> 2 ^ 15" using k(1) by linarith
    then have k15: "k \<le> 15" by (rule power_le_imp_le_exp [rotated]) simp
    let ?s = "ucast ((2 :: u64) ^ k) :: u32"
    have p: "unat ((2 :: u64) ^ k) = 2 ^ k" using unat_push_bit_one [of k, where 'a = 64] k15 by (simp add: push_bit_of_1)
    then have s: "unat ?s = 2 ^ k" using \<open>2 ^ k \<le> 2 ^ 15\<close> by (simp add: unat_ucast_64_32)
    have pow: "is_power_of_two ?s" by (rule is_power_of_two_exp [OF s]) (use k15 in simp)
    have "2 ^ 9 \<le> (2 :: nat) ^ k \<longleftrightarrow> 2 ^ 9 \<le> m"
    proof
      assume "2 ^ 9 \<le> m"
      then have "(2 :: nat) ^ 9 < 2 ^ (k + 1)" using k(2) by linarith
      then have "9 \<le> k" using power_less_imp_less_exp [of "2 :: nat" 9 "k + 1"] by simp
      then show "2 ^ 9 \<le> (2 :: nat) ^ k" by (intro power_increasing) simp_all
    qed (use k(1) in linarith)
    moreover have "2 ^ k \<le> unat log_bytes" using k(1) by (simp add: m_def)
    ultimately have fits: "iclog_size_fits ?s log_bytes \<longleftrightarrow> BBSIZE \<le> unat log_bytes"
      using pow s by (auto simp: iclog_size_fits_def word_le_nat_alt BBSIZE_def m_def)
    have nz: "min (ucast DEFAULT_ICLOG_SIZE) log_bytes \<noteq> (0 :: u64)" using capped False by (metis unat_0)
    have "default_iclog_size log_bytes = (if BBSIZE \<le> unat log_bytes then Inr ?s
        else Inl (BadSuperblock ''the log cannot hold an in-core buffer''))"
      using capped fits nz by (simp add: default_iclog_size_def Let_def k_def)
    then show ?thesis using fits s k by (auto simp: m_def)
  qed
qed

lemma default_iclog_size_fits: "default_iclog_size b = Inr s \<Longrightarrow> iclog_size_fits s b"
  by (auto simp: default_iclog_size_def Let_def refuse_Inr)

lemma log_head_ring:
  assumes "log_head dev sb = Inr h" "log_extent sb = Inr (log_start, log_bytes)"
    "BBSIZE \<le> unat log_bytes" "unat log_bytes div BBSIZE < 2 ^ 32"
  shows "unat (hd_block h) + unat (hd_free_blocks h) = unat log_bytes div BBSIZE \<and>
    unat (hd_block h) < unat log_bytes div BBSIZE \<and> iclog_size_fits (hd_iclog_size h) log_bytes"
proof -
  define n where "n = unat log_bytes div BBSIZE"
  have tot: "unat (ucast (log_bytes div of_nat BBSIZE) :: u32) = n"
    using assms(4) by (simp add: unat_ucast_64_32 unat_div n_def BBSIZE_def)
  have pos: "0 < n" using assms(3) by (simp add: n_def BBSIZE_def div_greater_zero_iff)
  obtain found where found: "scan_for_newest_record dev sb log_start log_bytes = Inr found"
    using assms(1,2) by (auto simp: log_head_def Let_def rbind_eq_Inr)
  show ?thesis
  proof (cases found)
    case None
    then show ?thesis using assms(1,2) found tot pos
      by (auto simp: log_head_def Let_def rbind_eq_Inr n_def [symmetric] dest: default_iclog_size_fits)
  next
    case (Some newest)
    define nxt where "nxt = lr_bb newest + lr_header_blocks newest + div_ceil (unat (lr_len newest)) BBSIZE"
    obtain ic where ic: "be32 (lr_header newest) 320 = Inr ic" "iclog_size_fits ic log_bytes" "nxt \<le> n"
      using assms(1,2) found tot by (auto simp: Some log_head_def Let_def rbind_eq_Inr refuse_Inr nxt_def [symmetric] not_less)
    then show ?thesis
    proof (cases "nxt = n")
      case True
      then show ?thesis using assms(1,2) found tot ic pos
        by (auto simp: Some log_head_def Let_def refuse_Inr nxt_def [symmetric] n_def [symmetric])
    next
      case False
      then have lt: "nxt < n" using ic(3) by simp
      then have "unat (of_nat nxt :: u32) = nxt" using assms(4) by (simp add: unat_of_nat n_def)
      then show ?thesis using assms(1,2) found tot ic lt False
        by (auto simp: Some log_head_def Let_def refuse_Inr nxt_def [symmetric] n_def [symmetric] unat_sub_le)
    qed
  qed
qed

text \<open>The head found in the log is a place a record can start, whatever the device holds there: it lies
  inside the ring, the blocks left before the wrap are exactly the rest of the ring, and the buffer
  size records are written with is a power of two the log can carry.\<close>

lemma head_in_ring:
  assumes "log_head dev sb = Inr h" "log_extent sb = Inr (log_start, log_bytes)"
    "BBSIZE \<le> unat log_bytes" "unat log_bytes div BBSIZE < 2 ^ 32"
  shows "unat (hd_block h) + unat (hd_free_blocks h) = unat log_bytes div BBSIZE \<and>
    unat (hd_block h) < unat log_bytes div BBSIZE \<and> iclog_size_fits (hd_iclog_size h) log_bytes"
  using assms by (rule log_head_ring)

lemma head_in_ring_witness:
  "\<exists>h. log_head (\<lambda>_ len. Inr (replicate len 0)) (sample_sb\<lparr>sb_blocksize := 512, sb_logstart := 5, sb_logblocks := 1\<rparr>) = Inr h \<and>
     unat (hd_block h) + unat (hd_free_blocks h) = 1"
proof -
  let ?dev = "\<lambda>_ len. Inr (replicate len 0) :: bytes res"
  let ?sb = "sample_sb\<lparr>sb_blocksize := 512, sb_logstart := 5, sb_logblocks := 1\<rparr>"
  have ext: "log_extent ?sb = Inr (fsblock_offset ?sb 5, 512)"
    by (simp add: log_extent_def has_internal_log_def Let_def)
  have ch: "chunks_exact 512 (replicate 512 0) = [replicate 512 0]"
    using chunks_exact_map [of 512 "replicate 512 0" 1] by simp
  have "scan_whole_ring ?dev ?sb a 512 = Inr None" for a
    by (simp add: scan_whole_ring_def scan_ring.simps SCAN_CHUNK_def BBSIZE_def ch is_header_def read_ok from_be_zeros
        XLOG_HEADER_MAGIC_def)
  then have "scan_for_newest_record ?dev ?sb a 512 = Inr None" for a
    by (simp add: scan_for_newest_record_def newest_record_by_cycle_def BBSIZE_def)
  moreover have "\<exists>s. default_iclog_size 512 = Inr s"
    by (simp add: default_iclog_size_def DEFAULT_ICLOG_SIZE_def min_def bit_length.simps iclog_size_fits_def is_power_of_two_def BBSIZE_def)
  ultimately have "\<exists>h. log_head ?dev ?sb = Inr h" by (auto simp: log_head_def ext)
  then show ?thesis
    using head_in_ring [OF _ ext] by (auto simp: BBSIZE_def)
qed

end
