(* ===== verification/LogReplay.thy ===== *)
theory LogReplay
  imports LogHead
begin

unbundle bit_operations_syntax

text \<open>
  Log recovery (\<^verbatim>\<open>src/src/log_recover.rs\<close>): the walk from the log's tail to its newest record and the
  application of the items it finds to the overlay, with the two conversions of a block-map root
  (\<^verbatim>\<open>bmbt_write::logged_root_to_disk\<close>, \<^verbatim>\<open>bmbt::inode_root_from_log\<close>) an inode item needs.

  The closures of \<^verbatim>\<open>replay\<close> carry their captured variables as an explicit state.  Counts of cancelled
  buffers are natural numbers: they are only ever raised by one and lowered while positive.
\<close>

section \<open>The ring and the walk\<close>

function ring_fill :: "dev_read \<Rightarrow> u64 \<Rightarrow> nat \<Rightarrow> nat \<Rightarrow> nat \<Rightarrow> bytes res" where
  "ring_fill dev log_start blocks block want =
     (if want = 0 \<or> blocks \<le> block then Inr []
      else
        let here = min ((blocks - block) * BBSIZE) want
        in rbind (dev (log_start + of_nat (block * BBSIZE)) here) (\<lambda>a.
           rbind (ring_fill dev log_start blocks 0 (want - here)) (\<lambda>b. Inr (a @ b))))"
  by pat_completeness auto

termination
  by (relation "measure (\<lambda>(dev, log_start, blocks, block, want). want)") (auto simp: BBSIZE_def)

declare ring_fill.simps [simp del]

definition ring_read :: "dev_read \<Rightarrow> u64 \<Rightarrow> nat \<Rightarrow> nat \<Rightarrow> nat \<Rightarrow> bytes res" where
  "ring_read dev log_start blocks at count =
     (if blocks < count then Inl (CorruptLog ''a log record claims more basic blocks than the whole ring'')
      else if blocks = 0 then Inl Panic
      else ring_fill dev log_start blocks (at mod blocks) (count * BBSIZE))"

text \<open>One turn of the loop of \<^verbatim>\<open>walk\<close>: the record at a block, its sequence number and where the next is.\<close>

definition walk_record ::
  "crc_crate \<Rightarrow> dev_read \<Rightarrow> Superblock \<Rightarrow> u64 \<Rightarrow> nat \<Rightarrow> nat \<Rightarrow> ('v \<Rightarrow> Item list \<Rightarrow> 'v res) \<Rightarrow> in_flight \<Rightarrow> 'v \<Rightarrow>
     (u64 \<times> nat \<times> in_flight \<times> 'v) res" where
  "walk_record C dev sb log_start blocks at visit fl v =
     rbind (ring_read dev log_start blocks at 1) (\<lambda>header.
     rbind (is_header sb header) (\<lambda>ok.
     if \<not> ok then Inl (CorruptLog ''no log record begins where the record before it said the next one would'')
     else
       rbind (be64 header 16) (\<lambda>lsn.
       rbind (header_blocks header) (\<lambda>hb.
       rbind (be32 header 12) (\<lambda>len32.
       let len = unat len32;
           data_blocks = div_ceil len BBSIZE
       in rbind (ring_read dev log_start blocks (at + hb) data_blocks) (\<lambda>raw.
          rbind (ring_read dev log_start blocks at hb) (\<lambda>headers.
          rbind (slice raw 0 len) (\<lambda>data.
          rbind (check_record C headers hb data) (\<lambda>_.
          rbind (unpack headers hb raw len) (\<lambda>data.
          rbind (be32 header 40) (\<lambda>n.
          rbind (read_ops visit data 0 (unat n) fl v) (\<lambda>(fl', v').
            Inr (lsn, (at + hb + data_blocks) mod blocks, fl', v')))))))))))))"

function walk_loop ::
  "crc_crate \<Rightarrow> dev_read \<Rightarrow> Superblock \<Rightarrow> u64 \<Rightarrow> nat \<Rightarrow> u64 \<Rightarrow> nat \<Rightarrow> nat \<Rightarrow> ('v \<Rightarrow> Item list \<Rightarrow> 'v res) \<Rightarrow> in_flight \<Rightarrow> 'v \<Rightarrow>
     (nat \<times> 'v) res" where
  "walk_loop C dev sb log_start blocks newest_lsn at records visit fl v =
     rbind (walk_record C dev sb log_start blocks at visit fl v) (\<lambda>(lsn, at', fl', v').
     if lsn = newest_lsn then Inr (records + 1, v')
     else if blocks < records + 1 then Inl (CorruptLog ''the log's records loop without ever reaching its newest'')
     else walk_loop C dev sb log_start blocks newest_lsn at' (records + 1) visit fl' v')"
  by pat_completeness auto

termination
  by (relation "measure (\<lambda>(C, dev, sb, log_start, blocks, newest, at, records, visit, fl, v). blocks + 1 - records)") auto

declare walk_loop.simps [simp del]

definition walk ::
  "crc_crate \<Rightarrow> dev_read \<Rightarrow> Superblock \<Rightarrow> LogRec \<Rightarrow> ('v \<Rightarrow> Item list \<Rightarrow> 'v res) \<Rightarrow> 'v \<Rightarrow> (nat \<times> 'v) res" where
  "walk C dev sb newest visit v =
     rbind (log_extent sb) (\<lambda>(log_start, log_bytes).
     let blocks = unat log_bytes div BBSIZE
     in rbind (be64 (lr_header newest) 24) (\<lambda>tail_lsn.
        if tail_lsn = 0 then Inl (CorruptLog ''the newest log record names no tail'')
        else
          let at = unat (tail_lsn AND 0xffffffff)
          in if blocks \<le> at then Inl (CorruptLog ''the log's tail is past the blocks of the ring'')
             else walk_loop C dev sb log_start blocks (lr_lsn newest) at 0 visit Map.empty v))"

section \<open>Checksums of what is replayed\<close>

definition DI_CRC :: nat where "DI_CRC = 100"

definition stamp_inode :: "crc_crate \<Rightarrow> Superblock \<Rightarrow> bytes \<Rightarrow> bytes res" where
  "stamp_inode C sb inode =
     (if \<not> is_v5 sb then Inr inode
      else if length inode < DI_CRC + 4 then Inr inode
      else rbind (crc32c_with_zeroed_crc C inode DI_CRC) (\<lambda>crc. put inode DI_CRC (le_bytes32 crc)))"

definition btree_is_long_form :: "bytes \<Rightarrow> bool res" where
  "btree_is_long_form buffer =
     (if length buffer < 4 then Inr False
      else rbind (be32 buffer 0) (\<lambda>magic. Inr (magic = XFS_BMAP_CRC_MAGIC \<or> magic = XFS_BMAP_MAGIC)))"

fun stamp_slots :: "crc_crate \<Rightarrow> Superblock \<Rightarrow> nat list \<Rightarrow> bytes \<Rightarrow> bytes res" where
  "stamp_slots C sb [] buffer = Inr buffer"
| "stamp_slots C sb (k # ks) buffer =
     (let sz = unat (sb_inodesize sb)
      in rbind (slice buffer (k * sz) sz) (\<lambda>inode.
         rbind (stamp_inode C sb inode) (\<lambda>inode'.
         rbind (put buffer (k * sz) inode') (stamp_slots C sb ks))))"

definition stamp_crc_at :: "u16 \<Rightarrow> bytes \<Rightarrow> nat option res" where
  "stamp_crc_at t buffer =
     (if t = BLFT_AGF then Inr (Some 216)
      else if t = BLFT_AGI then Inr (Some 312)
      else if t = BLFT_AGFL then Inr (Some 32)
      else if t = BLFT_BTREE then rbind (btree_is_long_form buffer) (\<lambda>l. Inr (Some (if l then 64 else 52)))
      else if t = BLFT_DIR_BLOCK \<or> t = BLFT_DIR_DATA \<or> t = BLFT_DIR_FREE then Inr (Some 4)
      else if t = BLFT_DIR_LEAF1 \<or> t = BLFT_DIR_LEAFN \<or> t = BLFT_DA_NODE \<or> t = BLFT_ATTR_LEAF then Inr (Some 12)
      else if t = BLFT_SYMLINK then Inr (Some 12)
      else if t = BLFT_SB then Inr (Some SB_CRC_OFFSET)
      else Inr None)"

definition stamp :: "crc_crate \<Rightarrow> Superblock \<Rightarrow> u16 \<Rightarrow> bytes \<Rightarrow> bytes res" where
  "stamp C sb buf_type buffer =
     (if \<not> is_v5 sb then Inr buffer
      else if buf_type = BLFT_DINO
      then stamp_slots C sb [0..<length buffer div max (unat (sb_inodesize sb)) 1] buffer
      else rbind (stamp_crc_at buf_type buffer) (\<lambda>found.
        case found of
          None \<Rightarrow> Inr buffer
        | Some at \<Rightarrow>
            if length buffer < at + 4 then Inr buffer
            else rbind (crc32c_with_zeroed_crc C buffer at) (\<lambda>crc. put buffer at (le_bytes32 crc))))"

section \<open>Buffer items\<close>

type_synonym cancels = "(u64 \<times> u32) \<Rightarrow> nat option"

definition region0 :: "Item \<Rightarrow> bytes res" where
  "region0 item = (case it_regions item of [] \<Rightarrow> Inl Panic | f # _ \<Rightarrow> Inr f)"

definition is_cancelled :: "cancels \<Rightarrow> u64 \<Rightarrow> u32 \<Rightarrow> bool" where
  "is_cancelled cancelled blkno len \<longleftrightarrow> cancelled (blkno, len) \<noteq> None"

definition runs_of :: "u32 list \<Rightarrow> nat \<Rightarrow> (nat \<times> nat) list" where
  "runs_of m chunks = runs_from (bit_set m) (min (length m * 32) chunks) 0"

fun apply_runs :: "(nat \<times> nat) list \<Rightarrow> bytes list \<Rightarrow> bytes \<Rightarrow> bytes res" where
  "apply_runs ((start, count) # runs) (region # regions) buffer =
     (let lo = start * BLF_CHUNK;
          n = min (min (count * BLF_CHUNK) (length region)) (length buffer - lo)
      in rbind (put buffer lo (take n region)) (apply_runs runs regions))"
| "apply_runs _ _ buffer = Inr buffer"

fun find_run :: "nat \<Rightarrow> nat \<Rightarrow> (nat \<times> nat) list \<Rightarrow> (nat \<times> nat) option" where
  "find_run chunk index [] = None"
| "find_run chunk index ((start, count) # runs) =
     (if start \<le> chunk \<and> chunk < start + count then Some (index, start) else find_run chunk (index + 1) runs)"

fun apply_inode_slots :: "nat \<Rightarrow> (nat \<times> nat) list \<Rightarrow> bytes list \<Rightarrow> nat list \<Rightarrow> bytes \<Rightarrow> bytes res" where
  "apply_inode_slots sz runs regions [] buffer = Inr buffer"
| "apply_inode_slots sz runs regions (slot # slots) buffer =
     (let field = slot * sz + 96
      in case find_run (field div BLF_CHUNK) 0 runs of
           None \<Rightarrow> apply_inode_slots sz runs regions slots buffer
         | Some (index, start) \<Rightarrow>
             if length regions \<le> index + 1 then apply_inode_slots sz runs regions slots buffer
             else
               let region = regions ! (index + 1);
                   within = field - start * BLF_CHUNK
               in if length region < within + 4 \<or> length buffer < field + 4
                  then apply_inode_slots sz runs regions slots buffer
                  else rbind (slice region within 4) (\<lambda>w.
                         rbind (put buffer field w) (apply_inode_slots sz runs regions slots)))"

definition apply_inode_buffer :: "Superblock \<Rightarrow> bytes \<Rightarrow> Item \<Rightarrow> (nat \<times> nat) list \<Rightarrow> bytes res" where
  "apply_inode_buffer sb buffer item runs =
     (let sz = unat (sb_inodesize sb)
      in if sz = 0 then Inr buffer
         else apply_inode_slots sz runs (it_regions item) [0..<length buffer div sz] buffer)"

definition apply_buffer ::
  "crc_crate \<Rightarrow> Superblock \<Rightarrow> dev_read \<Rightarrow> block_map \<Rightarrow> Item \<Rightarrow> cancels \<Rightarrow> (bool \<times> block_map \<times> cancels) res" where
  "apply_buffer C sb dev logged item cancelled =
     rbind (region0 item) (\<lambda>f.
     if length f < BLF_HEADER_SIZE then Inl (CorruptLog ''a buffer log item is shorter than its own header'')
     else
       rbind (le16 f 4) (\<lambda>flags.
       rbind (le64 f 8) (\<lambda>blkno.
       rbind (le16 f 6) (\<lambda>len16.
       let len = (ucast len16 :: u32);
           buf_type = drop_bit BLF_TYPE_SHIFT flags
       in if flags AND BLF_CANCEL \<noteq> 0
          then Inr (False, logged,
                 case cancelled (blkno, len) of
                   None \<Rightarrow> cancelled
                 | Some count \<Rightarrow> cancelled((blkno, len) := (if count - 1 = 0 then None else Some (count - 1))))
          else if is_cancelled cancelled blkno len then Inr (False, logged, cancelled)
          else if len = 0 then Inr (False, logged, cancelled)
          else
            rbind (le32 f 16) (\<lambda>map_size.
            if length f < 20 + 4 * unat map_size then Inl (CorruptLog ''a buffer log item's bitmap does not fit the item'')
            else
              rbind (read_records le32 4 20 (unat map_size) f) (\<lambda>m.
              let at = blkno * of_nat BBSIZE
              in rbind (overlay_read_at dev logged at (unat len * BBSIZE)) (\<lambda>buffer.
                 let runs = runs_of m (length buffer div BLF_CHUNK)
                 in rbind (if flags AND BLF_INODE_BUF \<noteq> 0 then apply_inode_buffer sb buffer item runs
                           else apply_runs runs (tl (it_regions item)) buffer) (\<lambda>buffer'.
                    rbind (stamp C sb buf_type buffer') (\<lambda>buffer''.
                    rbind (wrote dev logged at buffer'') (\<lambda>logged'. Inr (True, logged', cancelled)))))))))))"

section \<open>Inode items\<close>

definition INODE_LOG_FORMAT_SIZE :: nat where "INODE_LOG_FORMAT_SIZE = 56"
definition XFS_ILOG_CORE :: u32 where "XFS_ILOG_CORE = 1"
definition XFS_ILOG_DBROOT :: u32 where "XFS_ILOG_DBROOT = 8"
definition XFS_ILOG_ABROOT :: u32 where "XFS_ILOG_ABROOT = 0x100"
definition FORK_FIELDS :: u32 where "FORK_FIELDS = 2 OR 4 OR 8"
definition ATTR_FORK_FIELDS :: u32 where "ATTR_FORK_FIELDS = 0x40 OR 0x80 OR 0x100"
definition NEXT_UNLINKED :: nat where "NEXT_UNLINKED = 96"
definition XFS_DINODE_V3_SIZE :: nat where "XFS_DINODE_V3_SIZE = 176"
definition XFS_DINODE_V2_SIZE :: nat where "XFS_DINODE_V2_SIZE = 100"
definition BMBT_MAX_LEVELS :: u16 where "BMBT_MAX_LEVELS = 9"

text \<open>\<^verbatim>\<open>bmbt_write::logged_root_to_disk\<close>: the keys and the pointers, moved slot by slot.\<close>

fun move_slots :: "bytes \<Rightarrow> (nat \<times> nat) list \<Rightarrow> bytes \<Rightarrow> bytes res" where
  "move_slots logged [] out = Inr out"
| "move_slots logged ((lo, hi) # ms) out =
     rbind (slice logged lo 8) (\<lambda>w. rbind (put out hi w) (move_slots logged ms))"

definition root_moves :: "nat \<Rightarrow> nat \<Rightarrow> nat \<Rightarrow> nat \<Rightarrow> (nat \<times> nat) list" where
  "root_moves header logged_max disk_max n =
     concat (map (\<lambda>k. [(header + k * 8, 4 + k * 8), (header + logged_max * 8 + k * 8, 4 + disk_max * 8 + k * 8)]) [0..<n])"

definition logged_root_to_disk :: "bytes \<Rightarrow> bool \<Rightarrow> nat \<Rightarrow> bytes res" where
  "logged_root_to_disk logged v5 fork_len =
     (let header = (if v5 then 72 else 24)
      in if length logged < header \<or> fork_len < 4
         then Inl (CorruptLog ''a logged block-map root is shorter than its header'')
         else
           rbind (slice logged 4 2) (\<lambda>level.
           rbind (be16 logged 6) (\<lambda>n16.
           rbind (slice logged 6 2) (\<lambda>numrecs.
           let n = unat n16;
               logged_max = (length logged - header) div 16;
               disk_max = (fork_len - 4) div 16
           in if logged_max < n \<or> disk_max < n then Inl (CorruptLog ''a logged block-map root claims too many entries'')
              else
                rbind (put (replicate fork_len 0) 0 level) (\<lambda>out.
                rbind (put out 2 numrecs) (move_slots logged (root_moves header logged_max disk_max n)))))))"

definition inode_root_from_log :: "bytes \<Rightarrow> Superblock \<Rightarrow> nat \<Rightarrow> bytes res" where
  "inode_root_from_log logged sb capacity =
     (let body = (if is_v5 sb then 72 else 24);
          bad = CorruptLog ''a logged bmbt root does not fit its header or inode fork''
      in if length logged < body \<or> capacity < 4 then Inl bad
         else
           rbind (be16 logged 4) (\<lambda>level.
           rbind (be16 logged 6) (\<lambda>count16.
           rbind (be32 logged 0) (\<lambda>found.
           let magic = (if is_v5 sb then XFS_BMAP_CRC_MAGIC else XFS_BMAP_MAGIC);
               count = unat count16;
               source_slots = (length logged - body) div 16;
               target_slots = (capacity - 4) div 16
           in if found \<noteq> magic \<or> level = 0 \<or> BMBT_MAX_LEVELS < level \<or> count = 0 \<or> source_slots < count \<or> target_slots < count
              then Inl bad
              else
                rbind (put (replicate capacity 0) 0 (be_bytes16 level)) (\<lambda>fork.
                rbind (put fork 2 (be_bytes16 count16)) (\<lambda>fork.
                rbind (slice logged body (count * 8)) (\<lambda>keys.
                rbind (put fork 4 keys) (\<lambda>fork.
                rbind (slice logged (body + source_slots * 8) (count * 8)) (\<lambda>ptrs.
                  put fork (4 + target_slots * 8) ptrs)))))))))"

text \<open>The core of an inode item, with the unlinked pointer the inode had; and its two forks.  Each takes
  the regions not yet used and returns the rest.\<close>

definition apply_core :: "u32 \<Rightarrow> bytes list \<Rightarrow> bytes \<Rightarrow> (bytes list \<times> bytes) res" where
  "apply_core flds regions inode =
     (if flds AND XFS_ILOG_CORE = 0 then Inr (regions, inode)
      else
        case regions of
          [] \<Rightarrow> Inl (CorruptLog ''an inode item says it logs a core and does not carry one'')
        | core # rest \<Rightarrow>
            (case log_dinode_to_disk core of
               Inl Dinode_Panic \<Rightarrow> Inl Panic
             | Inl (Refused why) \<Rightarrow> Inl (CorruptLog ''a logged inode core'')
             | Inr disk \<Rightarrow>
                 if length inode < length disk then Inl (CorruptLog ''a logged inode core is larger than the inode'')
                 else
                   rbind (slice inode NEXT_UNLINKED 4) (\<lambda>keep.
                   rbind (put inode 0 disk) (\<lambda>inode'.
                   rbind (if NEXT_UNLINKED + 4 \<le> length disk then put inode' NEXT_UNLINKED keep else Inr inode') (\<lambda>inode''.
                     Inr (rest, inode''))))))"

definition apply_data_fork :: "u32 \<Rightarrow> nat \<Rightarrow> nat \<Rightarrow> bytes list \<Rightarrow> bytes \<Rightarrow> (bytes list \<times> bytes) res" where
  "apply_data_fork flds dsize fork_start regions inode =
     (if flds AND FORK_FIELDS = 0 \<or> dsize = 0 then Inr (regions, inode)
      else
        case regions of
          [] \<Rightarrow> Inl (CorruptLog ''an inode item says it logs a data fork and does not carry one'')
        | fork # rest \<Rightarrow>
            if flds AND FORK_FIELDS = XFS_ILOG_DBROOT
            then
              rbind (byte_at inode 82) (\<lambda>fo.
              let forkoff = unat fo * 8;
                  stop = (if forkoff = 0 then length inode else fork_start + forkoff)
              in if length fork < dsize then Inl (CorruptLog ''short logged data bmbt root'')
                 else if stop < fork_start \<or> length inode < stop then Inl (CorruptLog ''data fork past its inode'')
                 else
                   rbind (byte_at inode 4) (\<lambda>ver.
                   rbind (logged_root_to_disk (take dsize fork) (3 \<le> ver) (stop - fork_start)) (\<lambda>disk.
                   rbind (put inode fork_start disk) (\<lambda>inode'. Inr (rest, inode')))))
            else if length inode < fork_start then Inl Panic
            else
              rbind (put inode fork_start (take (min (min dsize (length fork)) (length inode - fork_start)) fork)) (\<lambda>inode'.
                Inr (rest, inode')))"

definition apply_attr_fork :: "Superblock \<Rightarrow> u32 \<Rightarrow> nat \<Rightarrow> nat \<Rightarrow> bytes list \<Rightarrow> bytes \<Rightarrow> bytes res" where
  "apply_attr_fork sb flds asize fork_start regions inode =
     (if flds AND ATTR_FORK_FIELDS = 0 \<or> asize = 0 then Inr inode
      else
        case regions of
          [] \<Rightarrow> Inr inode
        | fork # _ \<Rightarrow>
            rbind (byte_at inode 82) (\<lambda>fo.
            let start = fork_start + unat fo * 8
            in if length inode \<le> start then Inr inode
               else if flds AND XFS_ILOG_ABROOT \<noteq> 0
               then
                 if length fork < asize then Inl (CorruptLog ''short logged attribute bmbt root'')
                 else rbind (inode_root_from_log (take asize fork) sb (length inode - start)) (put inode start)
               else put inode start (take (min (min asize (length fork)) (length inode - start)) fork)))"

definition apply_inode ::
  "crc_crate \<Rightarrow> Superblock \<Rightarrow> dev_read \<Rightarrow> block_map \<Rightarrow> Item \<Rightarrow> cancels \<Rightarrow> (bool \<times> block_map) res" where
  "apply_inode C sb dev logged item cancelled =
     rbind (region0 item) (\<lambda>f.
     if length f < INODE_LOG_FORMAT_SIZE then Inl (CorruptLog ''an inode log item is shorter than its own format'')
     else
       rbind (le32 f 4) (\<lambda>flds.
       rbind (le64 f 40) (\<lambda>blkno.
       rbind (le32 f 48) (\<lambda>len.
       rbind (le32 f 52) (\<lambda>boffset.
       rbind (le16 f 10) (\<lambda>dsize.
       rbind (le16 f 8) (\<lambda>asize.
       if is_cancelled cancelled blkno len then Inr (False, logged)
       else
         let at = blkno * of_nat BBSIZE + ucast boffset
         in rbind (overlay_read_at dev logged at (unat (sb_inodesize sb))) (\<lambda>inode.
            rbind (apply_core flds (tl (it_regions item)) inode) (\<lambda>(regions, inode).
            rbind (byte_at inode 4) (\<lambda>ver.
            let fork_start = (if 3 \<le> ver then XFS_DINODE_V3_SIZE else XFS_DINODE_V2_SIZE)
            in rbind (apply_data_fork flds (unat dsize) fork_start regions inode) (\<lambda>(regions, inode).
               rbind (apply_attr_fork sb flds (unat asize) fork_start regions inode) (\<lambda>inode.
               rbind (stamp_inode C sb inode) (\<lambda>inode.
               rbind (wrote dev logged at inode) (\<lambda>logged'. Inr (True, logged')))))))))))))))"

section \<open>Inode chunks and quotas\<close>

definition XFS_DINODE_MAGIC :: u16 where "XFS_DINODE_MAGIC = 0x494e"
definition ICREATE_SIZE :: nat where "ICREATE_SIZE = 28"
definition DQBLK_SIZE :: nat where "DQBLK_SIZE = 136"
definition DQ_MAGIC :: u16 where "DQ_MAGIC = 0x4451"
definition DQ_VERSION :: u8 where "DQ_VERSION = 1"
definition DQ_CRC :: nat where "DQ_CRC = 108"

definition fresh_inode :: "crc_crate \<Rightarrow> Superblock \<Rightarrow> u64 \<Rightarrow> u32 \<Rightarrow> bytes res" where
  "fresh_inode C sb ino gen =
     (let inode = replicate (unat (sb_inodesize sb)) 0
      in rbind (put inode 0 (be_bytes16 XFS_DINODE_MAGIC)) (\<lambda>inode.
         rbind (put inode 4 [3]) (\<lambda>inode.
         rbind (put inode 92 (be_bytes32 gen)) (\<lambda>inode.
         rbind (put inode NEXT_UNLINKED (be_bytes32 0xffffffff)) (\<lambda>inode.
         rbind (put inode 152 (be_bytes64 ino)) (\<lambda>inode.
         rbind (put inode 160 (sb_meta_uuid sb)) (stamp_inode C sb)))))))"

fun icreate_slots ::
  "crc_crate \<Rightarrow> Superblock \<Rightarrow> dev_read \<Rightarrow> u32 \<Rightarrow> u32 \<Rightarrow> u32 \<Rightarrow> u32 \<Rightarrow> u64 \<Rightarrow> nat list \<Rightarrow> block_map \<Rightarrow> block_map res" where
  "icreate_slots C sb dev agno agbno isize gen base [] logged = Inr logged"
| "icreate_slots C sb dev agno agbno isize gen base (slot # slots) logged =
     rbind (fresh_inode C sb (join_ino sb agno (shl32 agbno (unat (sb_inopblog sb)) + of_nat slot)) gen) (\<lambda>inode.
     rbind (wrote dev logged (base + of_nat slot * ucast isize) inode)
       (icreate_slots C sb dev agno agbno isize gen base slots))"

definition apply_icreate :: "crc_crate \<Rightarrow> Superblock \<Rightarrow> dev_read \<Rightarrow> block_map \<Rightarrow> Item \<Rightarrow> block_map res" where
  "apply_icreate C sb dev logged item =
     rbind (region0 item) (\<lambda>f.
     if length f < ICREATE_SIZE then Inl (CorruptLog ''an icreate item is shorter than its own format'')
     else
       rbind (be32 f 4) (\<lambda>agno. rbind (be32 f 8) (\<lambda>agbno. rbind (be32 f 12) (\<lambda>count.
       rbind (be32 f 16) (\<lambda>isize. rbind (be32 f 20) (\<lambda>len. rbind (be32 f 24) (\<lambda>gen.
       if sb_agcount sb \<le> agno then Inl (CorruptLog ''an icreate item names a group the filesystem does not have'')
       else if isize \<noteq> ucast (sb_inodesize sb) then Inl (CorruptLog ''an icreate item makes inodes of another size'')
       else if ucast count * ucast isize \<noteq> (ucast len * ucast (sb_blocksize sb) :: u64)
       then Inl (CorruptLog ''an icreate item's inodes do not fill its blocks'')
       else
         let fsblock = shl64 (ucast agno) (unat (sb_agblklog sb)) OR ucast agbno
         in icreate_slots C sb dev agno agbno isize gen (fsblock_offset sb fsblock) [0..<unat count] logged)))))))"

definition apply_dquot :: "crc_crate \<Rightarrow> Superblock \<Rightarrow> dev_read \<Rightarrow> block_map \<Rightarrow> Item \<Rightarrow> block_map res" where
  "apply_dquot C sb dev logged item =
     rbind (region0 item) (\<lambda>f.
     if length f < 24 \<or> length (it_regions item) \<noteq> 2 \<or> length (it_regions item ! 1) \<noteq> DQBLK_SIZE
     then Inl (CorruptLog ''a dquot log item has an invalid format or record length'')
     else
       rbind (le16 f 2) (\<lambda>sz.
       if sz \<noteq> 2 then Inl (CorruptLog ''a dquot log item has an unexpected number of operations'')
       else
         rbind (le32 f 4) (\<lambda>id. rbind (le64 f 8) (\<lambda>blkno. rbind (le32 f 16) (\<lambda>len. rbind (le32 f 20) (\<lambda>off.
         let offset = unat off;
             rec = it_regions item ! 1;
             bb_per_block = unat (sb_blocksize sb) div 512
         in if sint blkno < 0 \<or> len \<noteq> 1 \<or> unat (sb_blocksize sb) < offset + DQBLK_SIZE
            then Inl (CorruptLog ''a dquot has an invalid buffer address, length or offset'')
            else
              rbind (be16 rec 0) (\<lambda>magic. rbind (byte_at rec 2) (\<lambda>ver. rbind (be32 rec 4) (\<lambda>rid.
              if magic \<noteq> DQ_MAGIC \<or> ver \<noteq> DQ_VERSION \<or> rid \<noteq> id
              then Inl (CorruptLog ''a dquot log item carries a different or malformed record'')
              else if bb_per_block = 0 \<or> unat blkno mod bb_per_block \<noteq> 0
              then Inl (CorruptLog ''a dquot buffer address is not filesystem-block aligned'')
              else
                let at = blkno * 512
                in rbind (overlay_read_at dev logged at (unat (sb_blocksize sb))) (\<lambda>buffer.
                   rbind (put buffer offset rec) (\<lambda>buffer.
                   rbind (slice buffer offset DQBLK_SIZE) (\<lambda>dq.
                   rbind (crc32c_with_zeroed_crc C dq DQ_CRC) (\<lambda>crc.
                   rbind (put buffer (offset + DQ_CRC) (le_bytes32 crc)) (wrote dev logged at))))))))))))))"

section \<open>The two passes\<close>

definition XFS_LI_INODE :: u16 where "XFS_LI_INODE = 0x123b"
definition XFS_LI_DQUOT :: u16 where "XFS_LI_DQUOT = 0x123d"
definition XFS_LI_ICREATE :: u16 where "XFS_LI_ICREATE = 0x123f"

record Recovered =
  rv_records :: nat
  rv_transactions :: nat
  rv_buffers :: nat
  rv_inodes :: nat
  rv_chunks :: nat
  rv_deferred :: "u16 \<Rightarrow> nat option"

fun count_cancels :: "cancels \<Rightarrow> Item list \<Rightarrow> cancels res" where
  "count_cancels cancelled [] = Inr cancelled"
| "count_cancels cancelled (item # items) =
     rbind (item_kind item) (\<lambda>kind.
     if kind \<noteq> XFS_LI_BUF then count_cancels cancelled items
     else
       rbind (region0 item) (\<lambda>f.
       if length f < BLF_HEADER_SIZE then count_cancels cancelled items
       else
         rbind (le16 f 4) (\<lambda>flags.
         if flags AND BLF_CANCEL = 0 then count_cancels cancelled items
         else
           rbind (le64 f 8) (\<lambda>blkno. rbind (le16 f 6) (\<lambda>len.
             let key = (blkno, ucast len :: u32)
             in count_cancels (cancelled(key := Some ((case cancelled key of None \<Rightarrow> 0 | Some n \<Rightarrow> n) + 1))) items)))))"

type_synonym replay_state = "Recovered \<times> block_map \<times> cancels"

definition apply_item :: "crc_crate \<Rightarrow> Superblock \<Rightarrow> dev_read \<Rightarrow> replay_state \<Rightarrow> Item \<Rightarrow> replay_state res" where
  "apply_item C sb dev st item =
     (case st of (out, logged, cancelled) \<Rightarrow>
      rbind (item_kind item) (\<lambda>kind.
      if kind = XFS_LI_BUF
      then rbind (apply_buffer C sb dev logged item cancelled) (\<lambda>(applied, logged', cancelled').
             Inr (if applied then out\<lparr>rv_buffers := rv_buffers out + 1\<rparr> else out, logged', cancelled'))
      else if kind = XFS_LI_INODE
      then rbind (apply_inode C sb dev logged item cancelled) (\<lambda>(applied, logged').
             Inr (if applied then out\<lparr>rv_inodes := rv_inodes out + 1\<rparr> else out, logged', cancelled))
      else if kind = XFS_LI_ICREATE
      then rbind (apply_icreate C sb dev logged item) (\<lambda>logged'.
             Inr (out\<lparr>rv_chunks := rv_chunks out + 1\<rparr>, logged', cancelled))
      else if kind = XFS_LI_DQUOT
      then rbind (apply_dquot C sb dev logged item) (\<lambda>logged'.
             Inr (out\<lparr>rv_buffers := rv_buffers out + 1\<rparr>, logged', cancelled))
      else Inr (out\<lparr>rv_deferred := (rv_deferred out)(kind := Some ((case rv_deferred out kind of None \<Rightarrow> 0 | Some n \<Rightarrow> n) + 1))\<rparr>,
                logged, cancelled)))"

fun apply_items :: "crc_crate \<Rightarrow> Superblock \<Rightarrow> dev_read \<Rightarrow> replay_state \<Rightarrow> Item list \<Rightarrow> replay_state res" where
  "apply_items C sb dev st [] = Inr st"
| "apply_items C sb dev st (item # items) = rbind (apply_item C sb dev st item) (\<lambda>st'. apply_items C sb dev st' items)"

definition apply_transaction :: "crc_crate \<Rightarrow> Superblock \<Rightarrow> dev_read \<Rightarrow> replay_state \<Rightarrow> Item list \<Rightarrow> replay_state res" where
  "apply_transaction C sb dev st items =
     (case st of (out, rest) \<Rightarrow> apply_items C sb dev (out\<lparr>rv_transactions := rv_transactions out + 1\<rparr>, rest) items)"

definition recovered_default :: Recovered where
  "recovered_default = \<lparr>rv_records = 0, rv_transactions = 0, rv_buffers = 0, rv_inodes = 0, rv_chunks = 0, rv_deferred = Map.empty\<rparr>"

definition replay :: "crc_crate \<Rightarrow> dev_read \<Rightarrow> Superblock \<Rightarrow> block_map \<Rightarrow> (Recovered \<times> block_map) res" where
  "replay C dev sb logged =
     rbind (log_extent sb) (\<lambda>(log_start, log_bytes).
     rbind (scan_for_newest_record dev sb log_start log_bytes) (\<lambda>found.
       case found of
         None \<Rightarrow> Inr (recovered_default, logged)
       | Some newest \<Rightarrow>
           rbind (walk C dev sb newest count_cancels Map.empty) (\<lambda>(_, cancelled).
           rbind (walk C dev sb newest (apply_transaction C sb dev) (recovered_default, logged, cancelled))
             (\<lambda>(records, out, logged', _). Inr (out\<lparr>rv_records := records\<rparr>, logged')))))"

end
