(* ===== verification/Commit.thy ===== *)
theory Commit
  imports LogReplay
begin

unbundle bit_operations_syntax

text \<open>
  Writing the journal: a record put on the device (\<^verbatim>\<open>append_at_with_tail\<close>, \<^verbatim>\<open>append_pad\<close> of
  \<^verbatim>\<open>src/src/log_write.rs\<close>) and the mount that does it (\<^verbatim>\<open>commit_record\<close>, \<^verbatim>\<open>sync\<close> and the guards beside them
  in \<^verbatim>\<open>src/src/fs.rs\<close>).

  An operation takes the state and gives the state back with its result, so that what an error leaves
  behind is part of the model.  A panic unwinds: nothing after it runs, not even the flag that stops a mount
  writing.  The device is a parameter: its reads, its writes and its flush, each of which may fail.
\<close>

section \<open>Operations on a state\<close>

type_synonym ('s, 'a) op = "'s \<Rightarrow> 's \<times> 'a res"

definition sbind :: "('s, 'a) op \<Rightarrow> ('a \<Rightarrow> ('s, 'b) op) \<Rightarrow> ('s, 'b) op" where
  "sbind m f s = (case m s of (s', Inl e) \<Rightarrow> (s', Inl e) | (s', Inr x) \<Rightarrow> f x s')"

definition slift :: "'a res \<Rightarrow> ('s, 'a) op" where
  "slift r s = (s, r)"

definition smodify :: "('s \<Rightarrow> 's) \<Rightarrow> ('s, unit) op" where
  "smodify f s = (f s, Inr ())"

record 'd Device =
  dv_read :: "'d \<Rightarrow> dev_read"
  dv_write :: "'d dev_write"
  dv_flush :: "'d dev_flush"

section \<open>One record\<close>

definition lsn_of :: "Head \<Rightarrow> u64" where
  "lsn_of head = push_bit 32 (ucast (hd_cycle head)) OR ucast (hd_block head)"

definition rotate_left32 :: "nat \<Rightarrow> u32 \<Rightarrow> u32" where
  "rotate_left32 n w = push_bit n w OR drop_bit (32 - n) w"

definition transaction_id :: "Head \<Rightarrow> u32" where
  "transaction_id head = 0x80000000 OR ((rotate_left32 16 (hd_cycle head) XOR hd_block head) AND 0x7fffffff)"

definition resize :: "bytes \<Rightarrow> nat \<Rightarrow> bytes" where
  "resize b n = take n b @ replicate (n - length b) 0"

text \<open>The end both appenders share: the record encoded, written where the head is, and flushed.\<close>

definition put_record ::
  "crc_crate \<Rightarrow> 'd Device \<Rightarrow> Superblock \<Rightarrow> Head \<Rightarrow> u64 \<Rightarrow> nat \<Rightarrow> bytes \<Rightarrow> ('d, u64) op" where
  "put_record C D sb head tail_lsn num_logops pay =
     sbind (slift (encode_record C \<lparr>pl_block = hd_block head, pl_cycle = hd_cycle head, pl_prev_block = hd_prev_block head,
         pl_tail_lsn = tail_lsn, pl_uuid = sb_uuid sb, pl_iclog_size = hd_iclog_size head\<rparr> (of_nat num_logops) pay)) (\<lambda>bytes.
     sbind (\<lambda>d. dv_write D d (fsblock_offset sb (sb_logstart sb) + ucast (hd_block head) * of_nat BBSIZE) bytes) (\<lambda>_.
     sbind (dv_flush D) (\<lambda>_. slift (Inr (lsn_of head)))))"

definition append_at_with_tail ::
  "crc_crate \<Rightarrow> 'd Device \<Rightarrow> Superblock \<Rightarrow> Head \<Rightarrow> u32 \<Rightarrow> Op list \<Rightarrow> u64 \<Rightarrow> ('d, u64) op" where
  "append_at_with_tail C D sb head tid ops tail_lsn =
     sbind (slift (max_payload (hd_iclog_size head))) (\<lambda>most.
     if most < length (payload tid ops)
     then slift (Inl (UnsupportedFeature ''the checkpoint is larger than the log's records hold''))
     else
       sbind (slift (record_blocks_for_log tid ops (hd_iclog_size head) (sb_logsunit sb))) (\<lambda>blocks.
       if unat (hd_block head) mod (max (unat (sb_logsunit sb)) BBSIZE div BBSIZE) \<noteq> 0
       then slift (Inl (UnsupportedFeature ''log head block is not aligned to the log stripe unit''))
       else if unat (hd_free_blocks head) < blocks
       then slift (Inl (UnsupportedFeature ''writing across the wrap is not implemented''))
       else put_record C D sb head tail_lsn (length ops) (resize (payload tid ops) ((blocks - 1) * BBSIZE))))"

definition append_at :: "crc_crate \<Rightarrow> 'd Device \<Rightarrow> Superblock \<Rightarrow> Head \<Rightarrow> u32 \<Rightarrow> Op list \<Rightarrow> ('d, u64) op" where
  "append_at C D sb head tid ops = append_at_with_tail C D sb head tid ops (lsn_of head)"

text \<open>A head with no block left subtracts below zero, and the vector of that size cannot be had.\<close>

definition append_pad :: "crc_crate \<Rightarrow> 'd Device \<Rightarrow> Superblock \<Rightarrow> Head \<Rightarrow> u32 \<Rightarrow> u64 \<Rightarrow> ('d, u64) op" where
  "append_pad C D sb head tid tail_lsn =
     (let pay = payload tid (pad_ops tid);
          want = (unat (hd_free_blocks head) - 1) * BBSIZE
      in if hd_free_blocks head = 0 then slift (Inl Panic)
         else if want < length pay
         then slift (Inl (UnsupportedFeature ''the gap at the end of the log is smaller than an empty record''))
         else put_record C D sb head tail_lsn (length (pad_ops tid)) (resize pay want))"

definition append :: "crc_crate \<Rightarrow> 'd Device \<Rightarrow> Superblock \<Rightarrow> (u32 \<Rightarrow> Op list) \<Rightarrow> ('d, u64) op" where
  "append C D sb build =
     sbind (\<lambda>d. (d, log_head (dv_read D d) sb)) (\<lambda>head.
     let tid = transaction_id head in append_at C D sb head tid (build tid))"

section \<open>The mount\<close>

definition MAX_DIRTY_BYTES :: nat where "MAX_DIRTY_BYTES = 16777216"

record 'd Mount =
  mt_device :: 'd
  mt_writable :: bool
  mt_overlay :: "block_map option"
  mt_oldest_record :: "u64 option"
  mt_next_head :: "Head option"
  mt_wraps :: nat
  mt_logged_anything :: bool
  mt_write_failed :: bool

definition on_device :: "('d, 'a) op \<Rightarrow> ('d Mount, 'a) op" where
  "on_device m s = (case m (mt_device s) of (d, r) \<Rightarrow> (s\<lparr>mt_device := d\<rparr>, r))"

definition writable_device :: "('d Mount, unit) op" where
  "writable_device s =
     (s, if mt_write_failed s then Inl (Io ''this mount stopped writing after a log write failed'')
         else if \<not> mt_writable s then Inl ReadOnly else Inr ())"

definition or_stop_writing :: "('d Mount, 'a) op \<Rightarrow> ('d Mount, 'a) op" where
  "or_stop_writing m s =
     (case m s of
        (s', Inl e) \<Rightarrow> (if e = Panic then s' else s'\<lparr>mt_write_failed := True\<rparr>, Inl e)
      | (s', Inr x) \<Rightarrow> (s', Inr x))"

definition refuse_after_checkpoint :: "('d Mount, unit) op" where
  "refuse_after_checkpoint s =
     (s, if mt_logged_anything s then Inl (UnsupportedFeature ''this mount has written a checkpoint that nothing has replayed'')
         else Inr ())"

definition push_overlay :: "'d Device \<Rightarrow> ('d Mount, unit) op" where
  "push_overlay D s =
     (case mt_overlay s of
        None \<Rightarrow> (s, Inr ())
      | Some logged \<Rightarrow>
          case push (dv_write D) (dv_flush D) (mt_device s) logged of
            (d, kept, Inl e) \<Rightarrow> (s\<lparr>mt_device := d, mt_overlay := Some kept\<rparr>, Inl e)
          | (d, kept, Inr _) \<Rightarrow> (s\<lparr>mt_device := d, mt_overlay := Some kept\<rparr>, Inr ()))"

definition sync :: "'d Device \<Rightarrow> ('d Mount, unit) op" where
  "sync D =
     sbind writable_device (\<lambda>_.
     sbind (or_stop_writing (push_overlay D)) (\<lambda>_.
       smodify (mt_oldest_record_update (\<lambda>_. None))))"

text \<open>The space a checkpoint takes: a length for each record, and their sum, which is checked.\<close>

fun record_lengths :: "u32 \<Rightarrow> Op list list \<Rightarrow> u32 \<Rightarrow> u32 \<Rightarrow> nat list res" where
  "record_lengths tid [] iclog_size logsunit = Inr []"
| "record_lengths tid (g # gs) iclog_size logsunit =
     rbind (record_blocks_for_log tid g iclog_size logsunit) (\<lambda>l.
     rbind (record_lengths tid gs iclog_size logsunit) (\<lambda>ls. Inr (l # ls)))"

fun sum_lengths :: "nat list \<Rightarrow> nat \<Rightarrow> nat res" where
  "sum_lengths [] t = Inr t"
| "sum_lengths (l # ls) t =
     (if 2 ^ 32 \<le> t + l then Inl (UnsupportedFeature ''checkpoint log-space reservation overflows'') else sum_lengths ls (t + l))"

definition tail_for :: "Head \<Rightarrow> u64 option \<Rightarrow> u64" where
  "tail_for head oldest = (case oldest of None \<Rightarrow> lsn_of head | Some t \<Rightarrow> t)"

text \<open>The ring started again: the push, the gap at the end filled, and the head at its beginning.\<close>

definition start_again :: "crc_crate \<Rightarrow> 'd Device \<Rightarrow> Superblock \<Rightarrow> u32 \<Rightarrow> Head \<Rightarrow> ('d Mount, Head) op" where
  "start_again C D sb tid head =
     sbind (sync D) (\<lambda>_.
     sbind (if 0 < hd_free_blocks head
            then sbind (\<lambda>s. or_stop_writing (on_device (append_pad C D sb head tid (tail_for head (mt_oldest_record s)))) s)
                   (\<lambda>_. slift (Inr (hd_block head)))
            else slift (Inr (hd_prev_block head))) (\<lambda>previous.
     if hd_cycle head = - 1
     then slift (Inl (UnsupportedFeature ''wrapping would need a cycle this log cannot express''))
     else sbind (smodify (mt_wraps_update Suc)) (\<lambda>_.
       slift (Inr \<lparr>hd_block = 0, hd_cycle = hd_cycle head + 1, hd_prev_block = previous,
                   hd_free_blocks = hd_block head + hd_free_blocks head, hd_iclog_size = hd_iclog_size head\<rparr>))))"

definition advance :: "Head \<Rightarrow> nat \<Rightarrow> Head" where
  "advance at used =
     \<lparr>hd_block = hd_block at + of_nat used, hd_cycle = hd_cycle at, hd_prev_block = hd_block at,
      hd_free_blocks = hd_free_blocks at - of_nat used, hd_iclog_size = hd_iclog_size at\<rparr>"

text \<open>The loop over the records: where the next goes, the first one's number and the last one's.\<close>

fun append_groups ::
  "crc_crate \<Rightarrow> 'd Device \<Rightarrow> Superblock \<Rightarrow> u32 \<Rightarrow> u64 \<Rightarrow> (Op list \<times> nat) list \<Rightarrow> Head \<Rightarrow> u64 option \<Rightarrow> u64 \<Rightarrow>
     ('d Mount, Head \<times> u64 option \<times> u64) op" where
  "append_groups C D sb tid tail [] at earliest lsn = slift (Inr (at, earliest, lsn))"
| "append_groups C D sb tid tail ((g, used) # gs) at earliest lsn =
     sbind (or_stop_writing (on_device (append_at_with_tail C D sb at tid g tail))) (\<lambda>lsn'.
       append_groups C D sb tid tail gs (advance at used) (case earliest of None \<Rightarrow> Some lsn' | Some f \<Rightarrow> Some f) lsn')"

text \<open>What is remembered once every record is down.\<close>

definition remember :: "Head \<Rightarrow> u64 \<Rightarrow> 'd Mount \<Rightarrow> 'd Mount" where
  "remember at f s =
     s\<lparr>mt_oldest_record := Some (case mt_oldest_record s of None \<Rightarrow> f | Some t \<Rightarrow> t),
       mt_logged_anything := True, mt_next_head := Some at\<rparr>"

definition push_if_dirty :: "'d Device \<Rightarrow> ('d Mount, unit) op" where
  "push_if_dirty D s =
     (if (case mt_overlay s of None \<Rightarrow> False | Some logged \<Rightarrow> MAX_DIRTY_BYTES \<le> overlay_bytes logged) then sync D s
      else (s, Inr ()))"

definition write_checkpoint ::
  "crc_crate \<Rightarrow> 'd Device \<Rightarrow> Superblock \<Rightarrow> u32 \<Rightarrow> Op list list \<Rightarrow> nat list \<Rightarrow> nat \<Rightarrow> Head \<Rightarrow> ('d Mount, u64) op" where
  "write_checkpoint C D sb tid groups lengths needed head =
     (if unat (hd_free_blocks head) < needed
      then slift (Inl (UnsupportedFeature ''a checkpoint larger than the log cannot be written''))
      else
        sbind (\<lambda>s. append_groups C D sb tid (tail_for head (mt_oldest_record s)) (zip groups lengths) head None 0 s) (\<lambda>(at, first, lsn).
        case first of
          None \<Rightarrow> slift (Inl Panic)
        | Some f \<Rightarrow>
            sbind (smodify (remember at f)) (\<lambda>_.
            sbind (push_if_dirty D) (\<lambda>_. slift (Inr lsn)))))"

definition commit_record :: "crc_crate \<Rightarrow> 'd Device \<Rightarrow> Superblock \<Rightarrow> (u32 \<Rightarrow> Op list) \<Rightarrow> ('d Mount, u64) op" where
  "commit_record C D sb build =
     sbind writable_device (\<lambda>_.
     sbind (\<lambda>s. (s, case mt_next_head s of Some known \<Rightarrow> Inr known | None \<Rightarrow> log_head (dv_read D (mt_device s)) sb)) (\<lambda>head.
     let tid = transaction_id head
     in sbind (slift (split_into_records (build tid) (hd_iclog_size head))) (\<lambda>groups.
        sbind (slift (record_lengths tid groups (hd_iclog_size head) (sb_logsunit sb))) (\<lambda>lengths.
        sbind (slift (sum_lengths lengths 0)) (\<lambda>needed.
        sbind (if wraps_first (of_nat needed) (hd_free_blocks head) tid then start_again C D sb tid head else slift (Inr head))
          (write_checkpoint C D sb tid groups lengths needed))))))"

text \<open>What a committed record leaves in the overlay.\<close>

definition logged_buffer :: "'d Device \<Rightarrow> u64 \<Rightarrow> bytes \<Rightarrow> ('d Mount, unit) op" where
  "logged_buffer D offset b s =
     (case mt_overlay s of
        None \<Rightarrow> (s, Inr ())
      | Some logged \<Rightarrow>
          case wrote (dv_read D (mt_device s)) logged offset b of
            Inl e \<Rightarrow> (s, Inl e)
          | Inr logged' \<Rightarrow> (s\<lparr>mt_overlay := Some logged'\<rparr>, Inr ()))"

fun logged_buffers :: "crc_crate \<Rightarrow> 'd Device \<Rightarrow> BufferItem list \<Rightarrow> ('d Mount, unit) op" where
  "logged_buffers C D [] = slift (Inr ())"
| "logged_buffers C D (item # items) =
     sbind (slift (image_as_written C item)) (\<lambda>b.
     sbind (logged_buffer D (bi_blkno item * 512) b) (\<lambda>_. logged_buffers C D items))"

fun cancelled_buffers :: "BufferItem list \<Rightarrow> 'd Mount \<Rightarrow> 'd Mount" where
  "cancelled_buffers [] s = s"
| "cancelled_buffers (item # cancels) s =
     cancelled_buffers cancels
       (s\<lparr>mt_overlay := map_option (\<lambda>logged. forget logged (bi_blkno item * 512) (length (bi_data item))) (mt_overlay s)\<rparr>)"


section \<open>What an operation keeps\<close>

text \<open>A triple for operations that may fail: from a state that satisfies the precondition, a result satisfies
  the postcondition and an error leaves a state that satisfies the last argument.\<close>

definition valid :: "('s \<Rightarrow> bool) \<Rightarrow> ('s, 'a) op \<Rightarrow> ('a \<Rightarrow> 's \<Rightarrow> bool) \<Rightarrow> (error \<Rightarrow> 's \<Rightarrow> bool) \<Rightarrow> bool" where
  "valid P m Q E \<longleftrightarrow> (\<forall>s. P s \<longrightarrow> (case m s of (s', Inr x) \<Rightarrow> Q x s' | (s', Inl e) \<Rightarrow> E e s'))"

lemma valid_sbind: "valid P m Q E \<Longrightarrow> (\<And>x. valid (Q x) (f x) R E) \<Longrightarrow> valid P (sbind m f) R E"
  unfolding valid_def sbind_def by (fastforce split: prod.splits sum.splits)

lemma valid_slift: "(\<And>s x. P s \<Longrightarrow> r = Inr x \<Longrightarrow> Q x s) \<Longrightarrow> (\<And>s e. P s \<Longrightarrow> r = Inl e \<Longrightarrow> E e s) \<Longrightarrow> valid P (slift r) Q E"
  by (auto simp: valid_def slift_def split: sum.split)

lemma valid_smodify: "(\<And>s. P s \<Longrightarrow> Q () (f s)) \<Longrightarrow> valid P (smodify f) Q E"
  by (simp add: valid_def smodify_def)

lemma valid_weaken: "valid P' m Q' E' \<Longrightarrow> (\<And>s. P s \<Longrightarrow> P' s) \<Longrightarrow> (\<And>x s. Q' x s \<Longrightarrow> Q x s) \<Longrightarrow> (\<And>e s. E' e s \<Longrightarrow> E e s) \<Longrightarrow>
    valid P m Q E"
  unfolding valid_def by (fastforce split: prod.splits sum.splits)

lemma valid_if: "(b \<Longrightarrow> valid P m Q E) \<Longrightarrow> (\<not> b \<Longrightarrow> valid P m' Q E) \<Longrightarrow> valid P (if b then m else m') Q E"
  by simp

lemma valid_pure: "(b \<Longrightarrow> valid P m Q E) \<Longrightarrow> valid (\<lambda>s. P s \<and> b) m Q E"
  by (simp add: valid_def)

lemma valid_read: "(\<And>t. valid P (m t) Q E) \<Longrightarrow> valid P (\<lambda>s. m (f s) s) Q E"
  by (simp add: valid_def)

lemma valid_lift_bind:
  "(\<And>x. r = Inr x \<Longrightarrow> valid P (f x) Q E) \<Longrightarrow> (\<And>s e. P s \<Longrightarrow> E e s) \<Longrightarrow> valid P (sbind (slift r) f) Q E"
  by (auto simp: valid_def sbind_def slift_def split: sum.splits)

lemma valid_writable_device: "(\<And>s e. P s \<Longrightarrow> E e s) \<Longrightarrow> valid P writable_device (\<lambda>_. P) E"
  by (auto simp: valid_def writable_device_def)

text \<open>Neither the device nor the flag that stops a mount is what these fields hold.\<close>

definition blind :: "('d Mount \<Rightarrow> bool) \<Rightarrow> bool" where
  "blind P \<longleftrightarrow> (\<forall>s d f. P (s\<lparr>mt_device := d\<rparr>) = P s \<and> P (s\<lparr>mt_write_failed := f\<rparr>) = P s)"

lemma valid_or_stop:
  assumes "blind P"
  shows "valid P (or_stop_writing (on_device m)) (\<lambda>_. P) (\<lambda>_. P)"
  using assms by (auto simp: valid_def or_stop_writing_def on_device_def blind_def split: prod.splits sum.splits)

section \<open>The head and the tail\<close>

definition lsn_cycle :: "u64 \<Rightarrow> u32" where "lsn_cycle t = ucast (drop_bit 32 t)"
definition lsn_block :: "u64 \<Rightarrow> nat" where "lsn_block t = unat (t AND 0xffffffff)"

lemma lsn_parts:
  "lsn_cycle (lsn_of h) = hd_cycle h" "lsn_block (lsn_of h) = unat (hd_block h)"
proof -
  show "lsn_cycle (lsn_of h) = hd_cycle h"
    by (rule bit_word_eqI) (auto simp: lsn_cycle_def lsn_of_def bit_simps dest: bit_imp_le_length)
  have "lsn_of h AND mask 32 = ucast (hd_block h)"
    by (rule bit_word_eqI) (auto simp: lsn_of_def bit_simps dest: bit_imp_le_length)
  then show "lsn_block (lsn_of h) = unat (hd_block h)"
    by (simp add: lsn_block_def mask_eq_exp_minus_1 unsigned_ucast_eq take_bit_nat_eq_self less_trans [OF unat_lt32])
qed

definition head_ok :: "nat \<Rightarrow> Head \<Rightarrow> 'd Mount \<Rightarrow> bool" where
  "head_ok n h s \<longleftrightarrow> unat (hd_block h) + unat (hd_free_blocks h) = n \<and>
     (\<forall>t. mt_oldest_record s = Some t \<longrightarrow> lsn_cycle t = hd_cycle h \<and> lsn_block t < unat (hd_block h))"

definition mount_ok :: "nat \<Rightarrow> 'd Mount \<Rightarrow> bool" where
  "mount_ok n s \<longleftrightarrow> (case mt_next_head s of None \<Rightarrow> mt_oldest_record s = None | Some h \<Rightarrow> head_ok n h s)"

lemma blind_ok: "blind (mount_ok n)" "blind (head_ok n h)" "blind P \<Longrightarrow> blind Q \<Longrightarrow> blind (\<lambda>s. P s \<and> Q s)"
    "blind (\<lambda>s. R (mt_oldest_record s))"
  by (simp_all add: blind_def mount_ok_def head_ok_def split: option.split)

lemma head_ok_None: "mt_oldest_record s = None \<Longrightarrow> head_ok n h s \<longleftrightarrow> unat (hd_block h) + unat (hd_free_blocks h) = n"
  by (simp add: head_ok_def)


section \<open>A commit keeps the head and the tail right\<close>

lemma valid_push_overlay:
  assumes "\<And>s d m f. P s \<Longrightarrow> P (s\<lparr>mt_device := d, mt_overlay := m, mt_write_failed := f\<rparr>)"
  shows "valid P (or_stop_writing (push_overlay D)) (\<lambda>_. P) (\<lambda>_. P)"
proof -
  have upd: "P (s\<lparr>mt_device := d, mt_overlay := m\<rparr>)" "P (s\<lparr>mt_write_failed := f\<rparr>)" if "P s" for s d m f
    using assms [OF that, where d = d and m = m and f = "mt_write_failed s"]
      assms [OF that, where d = "mt_device s" and m = "mt_overlay s" and f = f] by simp_all
  show ?thesis
    using assms upd by (auto simp: valid_def or_stop_writing_def push_overlay_def split: prod.splits sum.splits option.splits)
qed

lemma valid_sync:
  assumes "\<And>s d m f. P s \<Longrightarrow> P (s\<lparr>mt_device := d, mt_overlay := m, mt_write_failed := f\<rparr>)"
    and "\<And>s. P s \<Longrightarrow> P (s\<lparr>mt_oldest_record := None\<rparr>)"
  shows "valid P (sync D) (\<lambda>_ s. P s \<and> mt_oldest_record s = None) (\<lambda>_. P)"
  unfolding sync_def
  by (intro valid_sbind [OF valid_writable_device] valid_sbind [OF valid_push_overlay] valid_smodify)
    (use assms in auto)

lemma mount_ok_updates:
  "mount_ok n (s\<lparr>mt_device := d, mt_overlay := m, mt_write_failed := g\<rparr>) = mount_ok n s"
  "mount_ok n s \<Longrightarrow> mount_ok n (s\<lparr>mt_oldest_record := None\<rparr>)"
  "mount_ok n (mt_wraps_update w s) = mount_ok n s"
  by (auto simp: mount_ok_def head_ok_def split: option.splits)

lemma valid_start_again:
  assumes h: "unat (hd_block h) + unat (hd_free_blocks h) = n" and n: "n < 2 ^ 32"
  shows "valid (mount_ok n) (start_again C D sb tid h)
    (\<lambda>h' s. mount_ok n s \<and> head_ok n h' s) (\<lambda>_. mount_ok n)"
proof -
  let ?I = "\<lambda>s. mount_ok n s \<and> mt_oldest_record s = None"
  have b: "blind ?I" by (intro blind_ok)
  have wk: "valid ?I m (\<lambda>_. ?I) (\<lambda>_. mount_ok n)" if "valid ?I m (\<lambda>_. ?I) (\<lambda>_. ?I)" for m :: "('d Mount, 'b) op"
    using that by (rule valid_weaken) auto
  have sync: "valid (mount_ok n) (sync D) (\<lambda>_. ?I) (\<lambda>_. mount_ok n)"
    by (rule valid_sync) (simp_all add: mount_ok_updates)
  have pad: "valid ?I (\<lambda>s. or_stop_writing (on_device (append_pad C D sb h tid (tail_for h (mt_oldest_record s)))) s) (\<lambda>_. ?I) (\<lambda>_. mount_ok n)"
    by (rule wk, rule valid_read [where m = "\<lambda>t. or_stop_writing (on_device (append_pad C D sb h tid t))"], rule valid_or_stop [OF b])
  have wrap: "valid ?I (smodify (mt_wraps_update Suc)) (\<lambda>_. ?I) (\<lambda>_. mount_ok n)"
    by (rule valid_smodify) (simp add: mount_ok_updates)
  have total: "unat (hd_block h + hd_free_blocks h) = n" using h n by (simp add: unat_word_ariths)
  show ?thesis
    unfolding start_again_def
    by (intro valid_sbind [OF sync] valid_sbind [where Q = "\<lambda>_. ?I"] valid_if valid_sbind [OF pad] valid_sbind [OF wrap] valid_slift)
      (auto simp: head_ok_None total)
qed


lemma append_lsn:
  assumes "append_at_with_tail C D sb h tid ops tail d = (d', Inr lsn)"
  shows "lsn = lsn_of h"
  using assms
  by (auto simp: append_at_with_tail_def put_record_def sbind_def slift_def split: prod.splits sum.splits if_splits)

definition grown :: "Head \<Rightarrow> nat \<Rightarrow> Head \<Rightarrow> bool" where
  "grown h k h' \<longleftrightarrow> unat (hd_block h') = unat (hd_block h) + k \<and> unat (hd_free_blocks h') = unat (hd_free_blocks h) - k \<and>
     hd_cycle h' = hd_cycle h \<and> hd_iclog_size h' = hd_iclog_size h"

lemma grown_advance:
  assumes "k \<le> unat (hd_free_blocks h)" "unat (hd_block h) + unat (hd_free_blocks h) < 2 ^ 32"
  shows "grown h k (advance h k)"
proof -
  have k: "unat (of_nat k :: u32) = k" using assms by (simp add: unat_of_nat)
  then show ?thesis using assms unat_add_small [of "hd_block h" "of_nat k"]
    by (simp add: grown_def advance_def unat_sub_le)
qed

lemma grown_trans: "grown h j h' \<Longrightarrow> grown h' k h'' \<Longrightarrow> grown h (j + k) h''"
  by (auto simp: grown_def)

lemma grown_0: "grown h 0 h"
  by (simp add: grown_def)

definition first_of :: "u64 option \<Rightarrow> 'b list \<Rightarrow> Head \<Rightarrow> u64 option" where
  "first_of earliest gs h = (case earliest of Some f \<Rightarrow> Some f | None \<Rightarrow> if gs = [] then None else Some (lsn_of h))"

lemma valid_append_groups:
  assumes "blind P" "sum_list (map snd gs) \<le> unat (hd_free_blocks h)" "unat (hd_block h) + unat (hd_free_blocks h) < 2 ^ 32"
  shows "valid P (append_groups C D sb tid tail gs h earliest lsn)
    (\<lambda>(h', f, _) s. P s \<and> grown h (sum_list (map snd gs)) h' \<and> f = first_of earliest gs h) (\<lambda>_. P)"
  using assms(2,3)
proof (induction gs arbitrary: h earliest lsn)
  case Nil
  then show ?case by (auto intro!: valid_slift simp: grown_0 first_of_def split: option.split)
next
  case (Cons g gs)
  obtain ops k where g: "g = (ops, k)" by fastforce
  have adv: "grown h k (advance h k)" using Cons.prems by (intro grown_advance) (auto simp: g)
  have one: "valid P (or_stop_writing (on_device (append_at_with_tail C D sb h tid ops tail)))
      (\<lambda>x s. P s \<and> x = lsn_of h) (\<lambda>_. P)"
    using assms(1) by (auto simp: valid_def or_stop_writing_def on_device_def blind_def dest: append_lsn split: prod.splits sum.splits)
  have rest: "valid (\<lambda>s. P s \<and> x = lsn_of h)
      (append_groups C D sb tid tail gs (advance h k) (case earliest of None \<Rightarrow> Some x | Some f \<Rightarrow> Some f) x)
      (\<lambda>(h', f, _) s. P s \<and> grown h (sum_list (map snd (g # gs))) h' \<and> f = first_of earliest (g # gs) h) (\<lambda>_. P)" for x
    using Cons.prems adv
    by (intro valid_pure valid_weaken [OF Cons.IH [of "advance h k" "case earliest of None \<Rightarrow> Some x | Some f \<Rightarrow> Some f" x]])
      (auto simp: g grown_def first_of_def split: option.splits)
  show ?case unfolding g append_groups.simps by (rule valid_sbind [OF one rest [unfolded g]])
qed


lemma sum_lengths_Inr: "sum_lengths ls t = Inr k \<Longrightarrow> k = t + sum_list ls \<and> (t < 2 ^ 32 \<longrightarrow> k < 2 ^ 32)"
  by (induction ls arbitrary: t) (fastforce simp: refuse_Inr)+

lemma record_blocks_for_log_pos:
  assumes "record_blocks_for_log tid ops iclog_size unit = Inr k"
  shows "0 < k"
proof -
  let ?a = "max (unat unit) BBSIZE"
  obtain b where b: "record_blocks tid ops iclog_size = Inr b" "k = div_ceil (b * BBSIZE) ?a * ?a div BBSIZE"
    using assms by (auto simp: record_blocks_for_log_def Let_def rbind_eq_Inr refuse_Inr)
  have "0 < b" using b(1) by (auto simp: record_blocks_def Let_def rbind_eq_Inr refuse_Inr)
  then have "BBSIZE \<le> b * BBSIZE" by (cases b) auto
  also have "\<dots> \<le> div_ceil (b * BBSIZE) ?a * ?a" by (rule div_ceil_ge) (simp add: BBSIZE_def)
  finally show ?thesis by (simp add: b(2) BBSIZE_def div_greater_zero_iff)
qed

lemma record_lengths_Inr:
  "record_lengths tid gs iclog_size unit = Inr ls \<Longrightarrow> length ls = length gs \<and> (\<forall>l \<in> set ls. 0 < l)"
  by (induction gs arbitrary: ls) (auto simp: rbind_eq_Inr dest: record_blocks_for_log_pos)

lemma split_not_empty: "split_into_records ops iclog_size = Inr gs \<Longrightarrow> gs \<noteq> []"
  by (auto simp: split_into_records_def rbind_eq_Inr Let_def split: if_splits)

lemma remember_ok:
  assumes "head_ok n h s" "grown h k h'" "0 < k" "f = lsn_of h"
    "k \<le> unat (hd_free_blocks h)"
  shows "mount_ok n (remember h' f s)"
  using assms by (auto simp: mount_ok_def head_ok_def remember_def grown_def lsn_parts split: option.split)

lemma valid_head:
  assumes "log_extent sb = Inr (log_start, log_bytes)" "BBSIZE \<le> unat log_bytes"
    "unat log_bytes div BBSIZE = n" "n < 2 ^ 32"
  shows "valid (mount_ok n)
    (\<lambda>s. (s, case mt_next_head s of Some known \<Rightarrow> Inr known | None \<Rightarrow> log_head (dv_read D (mt_device s)) sb))
    (\<lambda>h s. mount_ok n s \<and> head_ok n h s) (\<lambda>_. mount_ok n)"
  using log_head_ring [OF _ assms(1,2)] assms(3,4)
  by (auto simp: valid_def mount_ok_def head_ok_def split: option.splits sum.splits)

lemma valid_place:
  assumes "n < 2 ^ 32"
  shows "valid (\<lambda>s. mount_ok n s \<and> head_ok n h s) (if b then start_again C D sb tid h else slift (Inr h))
    (\<lambda>h' s. mount_ok n s \<and> head_ok n h' s) (\<lambda>_. mount_ok n)"
proof (cases "unat (hd_block h) + unat (hd_free_blocks h) = n")
  case True
  show ?thesis
    by (intro valid_if valid_weaken [OF valid_start_again [OF True assms]] valid_slift) auto
qed (simp add: valid_def head_ok_def)


lemma valid_push_if_dirty: "valid (mount_ok n) (push_if_dirty D) (\<lambda>_. mount_ok n) (\<lambda>_. mount_ok n)"
proof -
  have "valid (mount_ok n) (sync D) (\<lambda>_ s. mount_ok n s \<and> mt_oldest_record s = None) (\<lambda>_. mount_ok n)"
    by (rule valid_sync) (simp_all add: mount_ok_updates)
  then have "valid (mount_ok n) (sync D) (\<lambda>_. mount_ok n) (\<lambda>_. mount_ok n)" by (rule valid_weaken) auto
  then show ?thesis by (simp add: valid_def push_if_dirty_def)
qed

lemma valid_write_groups:
  assumes "n < 2 ^ 32" "length ls = length gs" "gs \<noteq> []" "sum_list ls \<le> unat (hd_free_blocks h)"
  shows "valid (\<lambda>s. mount_ok n s \<and> head_ok n h s)
    (\<lambda>s. append_groups C D sb tid (tail_for h (mt_oldest_record s)) (zip gs ls) h None 0 s)
    (\<lambda>(h', f, _) s. (mount_ok n s \<and> head_ok n h s) \<and> grown h (sum_list ls) h' \<and> f = Some (lsn_of h)) (\<lambda>_. mount_ok n)"
proof (cases "unat (hd_block h) + unat (hd_free_blocks h) = n")
  case True
  let ?P = "\<lambda>s. mount_ok n s \<and> head_ok n h s"
  have zip: "map snd (zip gs ls) = ls" "zip gs ls \<noteq> []" using assms(2,3) by (auto simp: zip_eq_Nil_iff)
  have blind: "blind ?P" by (intro blind_ok)
  have "valid ?P (append_groups C D sb tid t (zip gs ls) h None 0)
      (\<lambda>(h', f, _) s. ?P s \<and> grown h (sum_list ls) h' \<and> f = Some (lsn_of h)) (\<lambda>_. ?P)" for t
    using valid_append_groups [OF blind, of "zip gs ls" h C D sb tid t None 0] assms(1,4) True zip
    by (simp add: first_of_def)
  then have "valid ?P (append_groups C D sb tid t (zip gs ls) h None 0)
      (\<lambda>(h', f, _) s. ?P s \<and> grown h (sum_list ls) h' \<and> f = Some (lsn_of h)) (\<lambda>_. mount_ok n)" for t
    by (rule valid_weaken) auto
  then show ?thesis by (rule valid_read [where m = "\<lambda>t. append_groups C D sb tid t (zip gs ls) h None 0"])
qed (simp add: valid_def head_ok_def)

lemma valid_write_checkpoint:
  assumes "n < 2 ^ 32" "length ls = length gs" "gs \<noteq> []" "\<forall>l \<in> set ls. 0 < l" "needed = sum_list ls"
  shows "valid (\<lambda>s. mount_ok n s \<and> head_ok n h s) (write_checkpoint C D sb tid gs ls needed h) (\<lambda>_. mount_ok n) (\<lambda>_. mount_ok n)"
  unfolding write_checkpoint_def
proof (rule valid_if)
  assume fits: "\<not> unat (hd_free_blocks h) < needed"
  have pos: "0 < sum_list ls" using assms(2-4) by (cases ls) auto
  let ?Q = "\<lambda>(h', f, _) s. (mount_ok n s \<and> head_ok n h s) \<and> grown h (sum_list ls) h' \<and> f = Some (lsn_of h)"
  have "valid (?Q x) (case x of (at, first, lsn) \<Rightarrow> case first of None \<Rightarrow> slift (Inl Panic)
      | Some f \<Rightarrow> sbind (smodify (remember at f)) (\<lambda>_. sbind (push_if_dirty D) (\<lambda>_. slift (Inr lsn)))) (\<lambda>_. mount_ok n) (\<lambda>_. mount_ok n)"
    for x :: "Head \<times> u64 option \<times> u64"
  proof -
    obtain at first lsn where x: "x = (at, first, lsn)" by (cases x)
    have "valid (?Q x) (smodify (remember at f)) (\<lambda>_. mount_ok n) (\<lambda>_. mount_ok n)" if "first = Some f" for f
      using that pos fits assms(5) by (auto simp: x intro!: valid_smodify remember_ok [of n h _ "sum_list ls"])
    then show ?thesis
      by (cases first) (auto simp: x intro!: valid_slift valid_sbind [OF valid_push_if_dirty] elim!: valid_sbind)
  qed
  then show "valid (\<lambda>s. mount_ok n s \<and> head_ok n h s)
     (sbind (\<lambda>s. append_groups C D sb tid (tail_for h (mt_oldest_record s)) (zip gs ls) h None 0 s) (\<lambda>(at, first, lsn).
       case first of None \<Rightarrow> slift (Inl Panic)
       | Some f \<Rightarrow> sbind (smodify (remember at f)) (\<lambda>_. sbind (push_if_dirty D) (\<lambda>_. slift (Inr lsn)))))
     (\<lambda>_. mount_ok n) (\<lambda>_. mount_ok n)"
    using assms fits by (intro valid_sbind [OF valid_write_groups]) auto
qed (auto intro: valid_slift)

lemma valid_commit:
  assumes ext: "log_extent sb = Inr (log_start, log_bytes)" "BBSIZE \<le> unat log_bytes"
    "unat log_bytes div BBSIZE = n" "n < 2 ^ 32"
  shows "valid (mount_ok n) (commit_record C D sb build) (\<lambda>_. mount_ok n) (\<lambda>_. mount_ok n)"
proof -
  let ?P = "\<lambda>h s. mount_ok n s \<and> head_ok n h s"
  have body: "valid (?P h) (sbind (slift (split_into_records ops ic)) (\<lambda>groups.
      sbind (slift (record_lengths tid groups ic unit)) (\<lambda>lengths.
      sbind (slift (sum_lengths lengths 0)) (\<lambda>needed.
      sbind (if b needed then start_again C D sb tid h else slift (Inr h)) (write_checkpoint C D sb tid groups lengths needed)))))
    (\<lambda>_. mount_ok n) (\<lambda>_. mount_ok n)" for h ops ic unit tid b
  proof (rule valid_lift_bind, rule valid_lift_bind, rule valid_lift_bind)
    fix groups lengths needed
    assume g: "split_into_records ops ic = Inr groups" "record_lengths tid groups ic unit = Inr lengths" "sum_lengths lengths 0 = Inr needed"
    have "valid (?P h') (write_checkpoint C D sb tid groups lengths needed h') (\<lambda>_. mount_ok n) (\<lambda>_. mount_ok n)" for h'
      using valid_write_checkpoint [OF ext(4), of lengths groups needed] record_lengths_Inr [OF g(2)] split_not_empty [OF g(1)]
        sum_lengths_Inr [OF g(3)] by simp
    then show "valid (?P h) (sbind (if b needed then start_again C D sb tid h else slift (Inr h)) (write_checkpoint C D sb tid groups lengths needed))
      (\<lambda>_. mount_ok n) (\<lambda>_. mount_ok n)"
      by (rule valid_sbind [OF valid_place [OF ext(4)]])
  qed auto
  show ?thesis
    unfolding commit_record_def Let_def
    by (intro valid_sbind [OF valid_writable_device] valid_sbind [OF valid_head [OF ext]] body)
qed


lemma valid_case: "valid P m Q E \<Longrightarrow> P s \<Longrightarrow> m s = (s', r) \<Longrightarrow> (case r of Inl e \<Rightarrow> E e s' | Inr x \<Rightarrow> Q x s')"
  by (auto simp: valid_def split: sum.splits)

definition mem_device :: "bytes Device" where
  "mem_device = \<lparr>dv_read = read_image, dv_write = mem_write, dv_flush = mem_flush\<rparr>"

definition fresh_mount :: "'d \<Rightarrow> 'd Mount" where
  "fresh_mount d = \<lparr>mt_device = d, mt_writable = True, mt_overlay = Some [], mt_oldest_record = None, mt_next_head = None,
     mt_wraps = 0, mt_logged_anything = False, mt_write_failed = False\<rparr>"

section \<open>What a commit may overwrite\<close>

text \<open>A device that changes only the bytes a write names, whether or not the write succeeds.\<close>

definition frames :: "'d Device \<Rightarrow> ('d \<Rightarrow> bytes) \<Rightarrow> bool" where
  "frames D img \<longleftrightarrow>
     (\<forall>d at b. length (img (fst (dv_write D d at b))) = length (img d) \<and>
        (\<forall>p < length (img d). p < unat at \<or> unat at + length b \<le> p \<longrightarrow> img (fst (dv_write D d at b)) ! p = img d ! p)) \<and>
     (\<forall>d. img (fst (dv_flush D d)) = img d)"

text \<open>The bytes from one address to another are still what they were.\<close>

definition same_bytes :: "nat \<Rightarrow> nat \<Rightarrow> bytes \<Rightarrow> bytes \<Rightarrow> bool" where
  "same_bytes lo hi a b \<longleftrightarrow> length a = length b \<and> (\<forall>p < length a. lo \<le> p \<and> p < hi \<longrightarrow> a ! p = b ! p)"

lemma same_bytes_write:
  assumes "frames D img" "same_bytes lo hi (img d) b0" "hi \<le> unat at \<or> unat at + length b \<le> lo"
  shows "same_bytes lo hi (img (fst (dv_write D d at b))) b0"
  using assms by (auto simp: frames_def same_bytes_def)

lemma same_bytes_put_record:
  assumes f: "frames D img" and s: "same_bytes lo hi (img d) b0"
    and at: "hi \<le> unat (fsblock_offset sb (sb_logstart sb) + ucast (hd_block h) * of_nat BBSIZE)"
  shows "same_bytes lo hi (img (fst (put_record C D sb h tail k pay d))) b0"
  using same_bytes_write [OF f s disjI1, OF at] f s
  by (auto simp: put_record_def sbind_def slift_def frames_def split: prod.splits sum.splits) (metis fst_conv)+

lemma same_bytes_append:
  assumes "frames D img" "same_bytes lo hi (img d) b0"
    "hi \<le> unat (fsblock_offset sb (sb_logstart sb) + ucast (hd_block h) * of_nat BBSIZE)"
  shows "same_bytes lo hi (img (fst (append_at_with_tail C D sb h tid ops tail d))) b0"
    "same_bytes lo hi (img (fst (append_pad C D sb h tid tail d))) b0"
  using assms same_bytes_put_record [OF assms]
  by (auto simp: append_at_with_tail_def append_pad_def sbind_def slift_def Let_def split: prod.splits sum.splits)

lemma same_bytes_push:
  assumes f: "frames D img" and s: "same_bytes lo hi (img d) b0"
    and out: "\<forall>(at, b) \<in> set m. hi \<le> unat at \<or> unat at + length b \<le> lo"
  shows "same_bytes lo hi (img (fst (push (dv_write D) (dv_flush D) d m))) b0"
proof -
  have "same_bytes lo hi (img (fst (push_writes (dv_write D) d m k))) b0" for k
    using s out
  proof (induction "dv_write D" d m k rule: push_writes.induct)
    case (2 d at b m n)
    have "same_bytes lo hi (img (fst (dv_write D d at b))) b0" using 2(2,3) by (intro same_bytes_write [OF f]) auto
    then show ?case using 2 by (auto split: prod.splits sum.splits)
  qed simp
  from this [of 0] show ?thesis
    using f by (auto simp: push_def frames_def split: prod.splits sum.splits) (metis fst_conv)+
qed


text \<open>Until the ring starts again: the bytes below the head are as they were, and no logged buffer has its
  home there.\<close>

definition below_kept :: "('d \<Rightarrow> bytes) \<Rightarrow> nat \<Rightarrow> nat \<Rightarrow> bytes \<Rightarrow> nat \<Rightarrow> 'd Mount \<Rightarrow> bool" where
  "below_kept img lo hi b0 w s \<longleftrightarrow> w \<le> mt_wraps s \<and>
     (mt_wraps s = w \<longrightarrow> same_bytes lo hi (img (mt_device s)) b0 \<and>
       (\<forall>m. mt_overlay s = Some m \<longrightarrow> (\<forall>(at, b) \<in> set m. hi \<le> unat at \<or> unat at + length b \<le> lo)))"

lemma below_kept_updates [simp]:
  "below_kept img lo hi b0 w (s\<lparr>mt_write_failed := f\<rparr>) = below_kept img lo hi b0 w s"
  "below_kept img lo hi b0 w (s\<lparr>mt_oldest_record := t\<rparr>) = below_kept img lo hi b0 w s"
  "below_kept img lo hi b0 w (remember h u s) = below_kept img lo hi b0 w s"
  by (simp_all add: below_kept_def remember_def)

lemma below_kept_wrap: "below_kept img lo hi b0 w s \<Longrightarrow> below_kept img lo hi b0 w (mt_wraps_update Suc s)"
  by (simp add: below_kept_def)

lemma valid_sync_below:
  assumes "frames D img"
  shows "valid (below_kept img lo hi b0 w) (sync D) (\<lambda>_. below_kept img lo hi b0 w) (\<lambda>_. below_kept img lo hi b0 w)"
proof -
  have push: "valid (below_kept img lo hi b0 w) (push_overlay D) (\<lambda>_. below_kept img lo hi b0 w) (\<lambda>_. below_kept img lo hi b0 w)"
    unfolding valid_def
  proof (intro allI impI)
    fix s :: "'a Mount" assume k: "below_kept img lo hi b0 w s"
    have "below_kept img lo hi b0 w (fst (push_overlay D s))"
    proof (cases "mt_overlay s")
      case None
      then show ?thesis using k by (simp add: push_overlay_def)
    next
      case (Some m)
      obtain d kept r where p: "push (dv_write D) (dv_flush D) (mt_device s) m = (d, kept, r)" by (cases "push (dv_write D) (dv_flush D) (mt_device s) m")
      have "kept = m \<or> kept = []" using p by (auto simp: push_def split: prod.splits sum.splits)
      moreover have "same_bytes lo hi (img d) b0" if "mt_wraps s = w"
        using same_bytes_push [OF assms, of lo hi "mt_device s" b0 m] k Some that p by (auto simp: below_kept_def)
      ultimately show ?thesis using k Some p by (auto simp: push_overlay_def below_kept_def split: sum.splits)
    qed
    then show "case push_overlay D s of (s', Inl e) \<Rightarrow> below_kept img lo hi b0 w s' | (s', Inr x) \<Rightarrow> below_kept img lo hi b0 w s'"
      by (auto split: prod.splits sum.splits)
  qed
  have stop: "valid (below_kept img lo hi b0 w) (or_stop_writing (push_overlay D)) (\<lambda>_. below_kept img lo hi b0 w) (\<lambda>_. below_kept img lo hi b0 w)"
    using push by (fastforce simp: valid_def or_stop_writing_def split: prod.splits sum.splits)
  show ?thesis
    unfolding sync_def by (intro valid_sbind [OF valid_writable_device] valid_sbind [OF stop] valid_smodify) simp_all
qed

lemma valid_append_below:
  assumes "frames D img" and "\<And>d. same_bytes lo hi (img d) b0 \<Longrightarrow> b \<Longrightarrow> same_bytes lo hi (img (fst (m d))) b0"
  shows "valid (\<lambda>s. below_kept img lo hi b0 w s \<and> (mt_wraps s = w \<longrightarrow> b)) (or_stop_writing (on_device m))
    (\<lambda>_ s. below_kept img lo hi b0 w s \<and> (mt_wraps s = w \<longrightarrow> b)) (\<lambda>_. below_kept img lo hi b0 w)"
  unfolding valid_def
proof (intro allI impI)
  fix s :: "'a Mount" assume k: "below_kept img lo hi b0 w s \<and> (mt_wraps s = w \<longrightarrow> b)"
  obtain d r where d: "m (mt_device s) = (d, r)" by fastforce
  have "same_bytes lo hi (img d) b0" if "mt_wraps s = w" using assms(2) [of "mt_device s"] k that d by (simp add: below_kept_def)
  then have "below_kept img lo hi b0 w (s\<lparr>mt_device := d\<rparr>)" using k by (simp add: below_kept_def)
  then show "case or_stop_writing (on_device m) s of
      (s', Inl e) \<Rightarrow> below_kept img lo hi b0 w s'
    | (s', Inr x) \<Rightarrow> below_kept img lo hi b0 w s' \<and> (mt_wraps s' = w \<longrightarrow> b)"
    using k by (auto simp: or_stop_writing_def on_device_def d split: sum.splits)
qed

lemma log_address:
  assumes "unat log_start + n * BBSIZE < 2 ^ 64" "unat (blk :: u32) \<le> n"
  shows "unat ((log_start :: u64) + ucast blk * of_nat BBSIZE) = unat log_start + unat blk * BBSIZE"
proof -
  have "unat blk * BBSIZE \<le> n * BBSIZE" using assms(2) by simp
  then have "unat log_start + unat blk * BBSIZE < 2 ^ 64" using assms(1) by linarith
  then show ?thesis by (simp add: unat_word_ariths unsigned_ucast_eq take_bit_nat_eq_self less_trans [OF unat_lt32] BBSIZE_def)
qed

lemma valid_groups_below:
  assumes "frames D img" "log_start = fsblock_offset sb (sb_logstart sb)" "unat log_start + n * BBSIZE < 2 ^ 64" "n < 2 ^ 32"
    and "sum_list (map snd gs) \<le> unat (hd_free_blocks h)" "unat (hd_block h) + unat (hd_free_blocks h) \<le> n"
  shows "valid (\<lambda>s. below_kept img lo (unat log_start + B * BBSIZE) b0 w s \<and> (mt_wraps s = w \<longrightarrow> B \<le> unat (hd_block h)))
    (append_groups C D sb tid tail gs h earliest lsn)
    (\<lambda>_. below_kept img lo (unat log_start + B * BBSIZE) b0 w) (\<lambda>_. below_kept img lo (unat log_start + B * BBSIZE) b0 w)"
  using assms(5,6)
proof (induction gs arbitrary: h earliest lsn)
  case Nil
  then show ?case by (auto intro: valid_slift)
next
  case (Cons g gs)
  let ?K = "below_kept img lo (unat log_start + B * BBSIZE) b0 w"
  obtain ops k where g: "g = (ops, k)" by fastforce
  have adv: "grown h k (advance h k)" using Cons.prems assms(4) by (intro grown_advance) (auto simp: g)
  have one: "valid (\<lambda>s. ?K s \<and> (mt_wraps s = w \<longrightarrow> B \<le> unat (hd_block h)))
      (or_stop_writing (on_device (append_at_with_tail C D sb h tid ops tail)))
      (\<lambda>_ s. ?K s \<and> (mt_wraps s = w \<longrightarrow> B \<le> unat (hd_block h))) (\<lambda>_. ?K)"
  proof (rule valid_append_below [OF assms(1)])
    fix d assume "same_bytes lo (unat log_start + B * BBSIZE) (img d) b0" "B \<le> unat (hd_block h)"
    then show "same_bytes lo (unat log_start + B * BBSIZE) (img (fst (append_at_with_tail C D sb h tid ops tail d))) b0"
      using log_address [OF assms(3), of "hd_block h"] Cons.prems
      by (intro same_bytes_append(1) [OF assms(1)]) (simp_all add: assms(2))
  qed
  have rest: "valid (\<lambda>s. ?K s \<and> (mt_wraps s = w \<longrightarrow> B \<le> unat (hd_block h)))
      (append_groups C D sb tid tail gs (advance h k) (case earliest of None \<Rightarrow> Some x | Some f \<Rightarrow> Some f) x) (\<lambda>_. ?K) (\<lambda>_. ?K)" for x
    using adv Cons.prems by (intro valid_weaken [OF Cons.IH [of "advance h k"]]) (auto simp: grown_def g)
  show ?case unfolding g append_groups.simps by (rule valid_sbind [OF one rest])
qed


lemma valid_start_below:
  assumes "frames D img" "log_start = fsblock_offset sb (sb_logstart sb)" "unat log_start + n * BBSIZE < 2 ^ 64"
    and "unat (hd_block h) + unat (hd_free_blocks h) = n" "n < 2 ^ 32"
  shows "valid (below_kept img lo (unat log_start + unat (hd_block h) * BBSIZE) b0 w) (start_again C D sb tid h)
    (\<lambda>h' s. below_kept img lo (unat log_start + unat (hd_block h) * BBSIZE) b0 w s \<and> w < mt_wraps s \<and>
       unat (hd_block h') + unat (hd_free_blocks h') = n)
    (\<lambda>_. below_kept img lo (unat log_start + unat (hd_block h) * BBSIZE) b0 w)"
proof -
  let ?K = "below_kept img lo (unat log_start + unat (hd_block h) * BBSIZE) b0 w"
  have "valid (\<lambda>s. ?K s \<and> (mt_wraps s = w \<longrightarrow> True)) (or_stop_writing (on_device (append_pad C D sb h tid t)))
      (\<lambda>_ s. ?K s \<and> (mt_wraps s = w \<longrightarrow> True)) (\<lambda>_. ?K)" for t
  proof (rule valid_append_below [OF assms(1)])
    fix d assume "same_bytes lo (unat log_start + unat (hd_block h) * BBSIZE) (img d) b0"
    then show "same_bytes lo (unat log_start + unat (hd_block h) * BBSIZE) (img (fst (append_pad C D sb h tid t d))) b0"
      using log_address [OF assms(3), of "hd_block h"] assms(4)
      by (intro same_bytes_append(2) [OF assms(1)]) (simp_all add: assms(2))
  qed
  then have pad: "valid ?K (\<lambda>s. or_stop_writing (on_device (append_pad C D sb h tid (tail_for h (mt_oldest_record s)))) s) (\<lambda>_. ?K) (\<lambda>_. ?K)"
    by - (rule valid_read [where m = "\<lambda>t. or_stop_writing (on_device (append_pad C D sb h tid t))"], simp)
  have wrap: "valid ?K (smodify (mt_wraps_update Suc)) (\<lambda>_ s. ?K s \<and> w < mt_wraps s) (\<lambda>_. ?K)"
    by (rule valid_smodify) (auto simp: below_kept_wrap below_kept_def)
  have total: "unat (hd_block h + hd_free_blocks h) = n" using assms(4,5) by (simp add: unat_word_ariths)
  show ?thesis
    unfolding start_again_def
    by (intro valid_sbind [OF valid_sync_below [OF assms(1)]] valid_sbind [where Q = "\<lambda>_. ?K"] valid_if valid_sbind [OF pad]
        valid_sbind [OF wrap] valid_slift) (auto simp: total)
qed

lemma valid_checkpoint_below:
  assumes "frames D img" "log_start = fsblock_offset sb (sb_logstart sb)" "unat log_start + n * BBSIZE < 2 ^ 64" "n < 2 ^ 32"
    and "length ls = length gs" "needed = sum_list ls" "unat (hd_block h) + unat (hd_free_blocks h) = n"
  shows "valid (\<lambda>s. below_kept img lo (unat log_start + B * BBSIZE) b0 w s \<and> (mt_wraps s = w \<longrightarrow> B \<le> unat (hd_block h)))
    (write_checkpoint C D sb tid gs ls needed h)
    (\<lambda>_. below_kept img lo (unat log_start + B * BBSIZE) b0 w) (\<lambda>_. below_kept img lo (unat log_start + B * BBSIZE) b0 w)"
  unfolding write_checkpoint_def
proof (rule valid_if)
  let ?K = "below_kept img lo (unat log_start + B * BBSIZE) b0 w"
  assume fits: "\<not> unat (hd_free_blocks h) < needed"
  have zip: "map snd (zip gs ls) = ls" using assms(5) by simp
  have "valid (\<lambda>s. ?K s \<and> (mt_wraps s = w \<longrightarrow> B \<le> unat (hd_block h)))
      (append_groups C D sb tid t (zip gs ls) h None 0) (\<lambda>_. ?K) (\<lambda>_. ?K)" for t
    using assms fits zip by (intro valid_groups_below [where n = n]) auto
  then have groups: "valid (\<lambda>s. ?K s \<and> (mt_wraps s = w \<longrightarrow> B \<le> unat (hd_block h)))
      (\<lambda>s. append_groups C D sb tid (tail_for h (mt_oldest_record s)) (zip gs ls) h None 0 s) (\<lambda>_. ?K) (\<lambda>_. ?K)"
    by (rule valid_read [where m = "\<lambda>t. append_groups C D sb tid t (zip gs ls) h None 0"])
  have dirty: "valid ?K (push_if_dirty D) (\<lambda>_. ?K) (\<lambda>_. ?K)"
    using valid_sync_below [OF assms(1)] by (auto simp: valid_def push_if_dirty_def)
  have rem: "valid ?K (smodify (remember at f)) (\<lambda>_. ?K) (\<lambda>_. ?K)" for at f by (rule valid_smodify) simp
  have "valid ?K (case x of (at, first, lsn) \<Rightarrow> case first of None \<Rightarrow> slift (Inl Panic)
      | Some f \<Rightarrow> sbind (smodify (remember at f)) (\<lambda>_. sbind (push_if_dirty D) (\<lambda>_. slift (Inr lsn)))) (\<lambda>_. ?K) (\<lambda>_. ?K)"
    for x :: "Head \<times> u64 option \<times> u64"
    by (cases x, cases "fst (snd x)") (auto intro!: valid_slift valid_sbind [OF rem] valid_sbind [OF dirty])
  then show "valid (\<lambda>s. ?K s \<and> (mt_wraps s = w \<longrightarrow> B \<le> unat (hd_block h)))
     (sbind (\<lambda>s. append_groups C D sb tid (tail_for h (mt_oldest_record s)) (zip gs ls) h None 0 s) (\<lambda>(at, first, lsn).
       case first of None \<Rightarrow> slift (Inl Panic)
       | Some f \<Rightarrow> sbind (smodify (remember at f)) (\<lambda>_. sbind (push_if_dirty D) (\<lambda>_. slift (Inr lsn)))))
     (\<lambda>_. ?K) (\<lambda>_. ?K)" by (rule valid_sbind [OF groups])
qed (auto intro: valid_slift)

lemma wraps_kept:
  "valid (\<lambda>s. mt_wraps s = w) (write_checkpoint C D sb tid gs ls needed h) (\<lambda>_ s. mt_wraps s = w) (\<lambda>_ s. mt_wraps s = w)"
proof -
  let ?P = "\<lambda>s. mt_wraps s = w"
  have b: "blind ?P" by (simp add: blind_def)
  have "valid ?P (append_groups C D sb tid t zs at earliest lsn) (\<lambda>_. ?P) (\<lambda>_. ?P)" for t zs at earliest lsn
    by (induction zs arbitrary: at earliest lsn) (auto intro!: valid_slift valid_sbind [OF valid_or_stop [OF b]])
  then have groups: "valid ?P (\<lambda>s. append_groups C D sb tid (tail_for h (mt_oldest_record s)) (zip gs ls) h None 0 s) (\<lambda>_. ?P) (\<lambda>_. ?P)"
    by (rule valid_read [where m = "\<lambda>t. append_groups C D sb tid t (zip gs ls) h None 0"])
  have "valid ?P (sync D) (\<lambda>_ s. ?P s \<and> mt_oldest_record s = None) (\<lambda>_. ?P)" by (rule valid_sync) auto
  then have "valid ?P (sync D) (\<lambda>_. ?P) (\<lambda>_. ?P)" by (rule valid_weaken) auto
  then have dirty: "valid ?P (push_if_dirty D) (\<lambda>_. ?P) (\<lambda>_. ?P)" by (simp add: valid_def push_if_dirty_def)
  have rem: "valid ?P (smodify (remember at f)) (\<lambda>_. ?P) (\<lambda>_. ?P)" for at f by (rule valid_smodify) (simp add: remember_def)
  have "valid ?P (case x of (at, first, lsn) \<Rightarrow> case first of None \<Rightarrow> slift (Inl Panic)
      | Some f \<Rightarrow> sbind (smodify (remember at f)) (\<lambda>_. sbind (push_if_dirty D) (\<lambda>_. slift (Inr lsn)))) (\<lambda>_. ?P) (\<lambda>_. ?P)"
    for x :: "Head \<times> u64 option \<times> u64"
    by (cases x, cases "fst (snd x)") (auto intro!: valid_slift valid_sbind [OF rem] valid_sbind [OF dirty])
  then show ?thesis unfolding write_checkpoint_def by (intro valid_if valid_sbind [OF groups]) (auto intro: valid_slift)
qed

text \<open>A mount two blocks into a ring of eight, and the smallest checkpoint there is.\<close>

definition sample_head :: Head where
  "sample_head = \<lparr>hd_block = 2, hd_cycle = 1, hd_prev_block = 0, hd_free_blocks = 6, hd_iclog_size = 32768\<rparr>"

definition sample_log_sb :: Superblock where
  "sample_log_sb = sample_sb\<lparr>sb_blocksize := 512, sb_blocklog := 9, sb_logstart := 5, sb_logblocks := 8\<rparr>"

lemma sample_log: "log_extent sample_log_sb = Inr (2560, 4096)" "fsblock_offset sample_log_sb (sb_logstart sample_log_sb) = 2560"
  by (simp_all add: sample_log_sb_def sample_sb_def log_extent_def has_internal_log_def Let_def fsblock_offset_def split_fsblock_def
      shr64_def shl64_def saturating_mul64_def saturating_add64_def to_nat)

lemma pad_ops_sizes: "length (payload tid (pad_ops tid)) = 52"
  by (simp add: payload_length pad_ops_def OP_HEADER_SIZE_def trans_header_def)

text \<open>Operations that make one record of two blocks.\<close>

definition small_build :: "(u32 \<Rightarrow> Op list) \<Rightarrow> bool" where
  "small_build build \<longleftrightarrow>
     (\<forall>t. split_into_records (build t) 32768 = Inr [build t] \<and> record_blocks_for_log t (build t) 32768 0 = Inr 2)"

lemma pad_small: "small_build pad_ops"
proof -
  have "split_into_records (pad_ops t) 32768 = Inr [pad_ops t]" for t
    by (simp add: split_into_records_def max_payload_def XLOG_HEADER_CYCLE_SIZE_def BBSIZE_def pad_ops_def OP_HEADER_SIZE_def trans_header_def Let_def)
  moreover have "record_blocks_for_log t (pad_ops t) 32768 0 = Inr 2" for t
    by (simp add: record_blocks_for_log_def record_blocks_def max_payload_def pad_ops_sizes XLOG_HEADER_CYCLE_SIZE_def BBSIZE_def div_ceil_def Let_def)
  ultimately show ?thesis by (simp add: small_build_def)
qed

lemma sample_commit_place:
  assumes b: "small_build build" and s: "mt_next_head s = Some h" "mt_writable s" "\<not> mt_write_failed s" and h: "hd_iclog_size h = 32768"
  shows "commit_record C D sample_log_sb build s =
    sbind (if wraps_first 2 (hd_free_blocks h) (transaction_id h) then start_again C D sample_log_sb (transaction_id h) h else slift (Inr h))
      (write_checkpoint C D sample_log_sb (transaction_id h) [build (transaction_id h)] [2] 2) s"
proof -
  let ?tid = "transaction_id h"
  have b: "split_into_records (build ?tid) 32768 = Inr [build ?tid]" "record_lengths ?tid [build ?tid] 32768 0 = Inr [2]"
    using b by (simp_all add: small_build_def)
  have unit: "sb_logsunit sample_log_sb = 0" by (simp add: sample_log_sb_def sample_sb_def)
  show ?thesis
    using s b h by (simp add: commit_record_def sbind_def slift_def writable_device_def Let_def unit numeral_2_eq_2 [symmetric] del: record_lengths.simps)
qed

lemma sample_commit:
  assumes "small_build build" "mt_next_head s = Some h" "mt_writable s" "\<not> mt_write_failed s" "hd_iclog_size h = 32768"
    "\<not> wraps_first 2 (hd_free_blocks h) (transaction_id h)"
  shows "commit_record C D sample_log_sb build s =
    write_checkpoint C D sample_log_sb (transaction_id h) [build (transaction_id h)] [2] 2 h s"
  unfolding sample_commit_place [OF assms(1-5)] using assms(6) by (simp add: sbind_def slift_def)

text \<open>A ring with no block left is started again without a filler.\<close>

lemma sample_full_ring:
  assumes "small_build build" "mt_next_head s = Some h" "mt_writable s" "\<not> mt_write_failed s" "hd_iclog_size h = 32768"
    and "hd_free_blocks h = 0" "hd_cycle h \<noteq> - 1" "sync D s = (s1, Inr ())"
  shows "commit_record C D sample_log_sb build s =
    write_checkpoint C D sample_log_sb (transaction_id h) [build (transaction_id h)] [2] 2
      \<lparr>hd_block = 0, hd_cycle = hd_cycle h + 1, hd_prev_block = hd_prev_block h, hd_free_blocks = hd_block h, hd_iclog_size = 32768\<rparr>
      (mt_wraps_update Suc s1)"
proof -
  have "wraps_first 2 0 t" for t by (simp add: wraps_first_def Let_def)
  then show ?thesis
    unfolding sample_commit_place [OF assms(1-5)] using assms(5-)
    by (simp add: sbind_def slift_def start_again_def smodify_def)
qed

lemma mem_frames: "frames mem_device (\<lambda>d. d)"
  by (auto simp: frames_def mem_device_def mem_write_def mem_flush_def put_def nth_blit)

section \<open>A write that fails\<close>

lemma stopped_mount:
  assumes "mt_write_failed s"
  shows "commit_record C D sb build s = (s, Inl (Io ''this mount stopped writing after a log write failed''))"
    "sync D s = (s, Inl (Io ''this mount stopped writing after a log write failed''))"
  using assms by (simp_all add: commit_record_def sync_def sbind_def writable_device_def)

section \<open>The gap at the end of the ring\<close>

lemma put_panics: "put b at s = Inl e \<Longrightarrow> e = Panic"
  by (auto simp: put_def split: if_splits)

lemma record_header_panics: "record_header p k n = Inl e \<Longrightarrow> e = Panic"
  by (auto simp: record_header_def Let_def rbind_eq_Inl dest: put_panics)

text \<open>C39. A gap too wide for one record is not refused but panics: filling the end of the ring asks for a record
  of the whole gap, and when more than sixty-five blocks are left the record's own assertion fails, although
  the operation promises an error there; a checkpoint of several records meets it.\<close>

theorem wide_gap_panics:
  assumes gap: "66 \<le> unat (hd_free_blocks h)" and s: "mt_next_head s = Some h" "mt_writable s" "\<not> mt_write_failed s"
    and ops: "split_into_records (build (transaction_id h)) (hd_iclog_size h) = Inr groups"
      "record_lengths (transaction_id h) groups (hd_iclog_size h) (sb_logsunit sb) = Inr lengths" "sum_lengths lengths 0 = Inr needed"
    and wide: "unat (hd_free_blocks h) < needed" and sync: "sync D s = (s1, Inr ())"
  shows "append_pad C D sb h (transaction_id h) tail d = (d, Inl Panic) \<and> snd (commit_record C D sb build s) = Inl Panic"
proof -
  let ?f = "unat (hd_free_blocks h)"
  have fits: "52 \<le> (?f - 1) * BBSIZE" using gap by (simp add: BBSIZE_def)
  have "div_ceil ((?f - 1) * BBSIZE) BBSIZE * BBSIZE div BBSIZE = ?f - 1" by (simp add: div_ceil_def BBSIZE_def)
  then have enc: "encode_record C p k (resize (payload t (pad_ops t)) ((?f - 1) * BBSIZE)) = Inl Panic" for p k t
    using gap fits record_header_panics [of p k "(?f - 1) * BBSIZE"]
    by (cases "record_header p k ((?f - 1) * BBSIZE)")
      (auto simp: encode_record_def resize_def pad_ops_sizes Let_def XLOG_CYCLE_DATA_ENTRIES_def)
  have pad: "append_pad C D sb h t tail d = (d, Inl Panic)" for t tail d
    using enc fits by (simp add: append_pad_def put_record_def sbind_def slift_def Let_def pad_ops_sizes)
  have nz: "0 < hd_free_blocks h" using gap by (simp add: word_less_nat_alt)
  have n32: "needed < 2 ^ 32" using sum_lengths_Inr [OF ops(3)] by simp
  then have "wraps_first (of_nat needed) (hd_free_blocks h) t" for t
    using wide by (simp add: wraps_first_def Let_def word_less_nat_alt unat_of_nat)
  then have "snd (commit_record C D sb build s) = Inl Panic"
    using s ops sync nz pad
    by (simp add: commit_record_def sbind_def slift_def writable_device_def Let_def start_again_def or_stop_writing_def on_device_def)
  then show ?thesis using pad by simp
qed


lemma wide_gap_panics_witness:
  "snd (commit_record sample_crc mem_device sample_log_sb 
       (\<lambda>_. [\<lparr>op_flags = 0, op_data = replicate 20000 0\<rparr>, \<lparr>op_flags = 0, op_data = replicate 20000 0\<rparr>])
     ((fresh_mount [])\<lparr>mt_next_head := Some (sample_head\<lparr>hd_block := 100, hd_free_blocks := 70\<rparr>)\<rparr>)) = Inl Panic"
proof -
  define op where "op = \<lparr>op_flags = 0, op_data = replicate 20000 (0 :: u8)\<rparr>"
  let ?h = "sample_head\<lparr>hd_block := 100, hd_free_blocks := 70\<rparr>"
  let ?s = "(fresh_mount [])\<lparr>mt_next_head := Some ?h\<rparr>"
  have op: "length (op_data op) = 20000" by (simp add: op_def)
  have ops: "split_into_records [op, op] 32768 = Inr [[op], [op]]"
    by (simp add: split_into_records_def max_payload_def XLOG_HEADER_CYCLE_SIZE_def BBSIZE_def OP_HEADER_SIZE_def op Let_def)
  have len: "record_blocks_for_log t [op] 32768 0 = Inr 41" for t
    by (simp add: record_blocks_for_log_def record_blocks_def max_payload_def payload_length op XLOG_HEADER_CYCLE_SIZE_def
        OP_HEADER_SIZE_def BBSIZE_def div_ceil_def Let_def)
  have sync: "sync mem_device ?s = (?s, Inr ())"
    by (simp add: sync_def sbind_def writable_device_def or_stop_writing_def push_overlay_def push_def smodify_def
        fresh_mount_def mem_device_def mem_flush_def)
  have f: "hd_iclog_size ?h = 32768" "hd_free_blocks ?h = 70" "sb_logsunit sample_log_sb = 0"
    by (simp_all add: sample_head_def sample_log_sb_def sample_sb_def)
  have "record_lengths t [[op], [op]] 32768 0 = Inr [41, 41]" for t by (simp add: len)
  moreover have "sum_lengths [41, 41] 0 = Inr 82" by simp
  ultimately show ?thesis
    using wide_gap_panics [of ?h ?s "\<lambda>_. [op, op]" "[[op], [op]]" sample_log_sb "[41, 41]" 82 mem_device ?s] ops sync f
    by (simp add: fresh_mount_def op_def [symmetric] del: record_lengths.simps sum_lengths.simps)
qed

end
