(* ===== verification/MountHistory.thy ===== *)
theory MountHistory
  imports Commit
begin

unbundle bit_operations_syntax

text \<open>
  What the operations of a writable mount leave behind, over any history of them (\<^verbatim>\<open>src/src/fs.rs\<close>): the tail and
  the head of the log, the bytes a commit may not overwrite, the push before the ring is started again, and the
  stop after a write that failed.
\<close>

section \<open>What each step leaves\<close>

definition head_known :: "'d Device \<Rightarrow> Superblock \<Rightarrow> 'd Mount \<Rightarrow> Head res" where
  "head_known D sb s = (case mt_next_head s of Some known \<Rightarrow> Inr known | None \<Rightarrow> log_head (dv_read D (mt_device s)) sb)"

definition overlay_full :: "'d Mount \<Rightarrow> bool" where
  "overlay_full s \<longleftrightarrow> (case mt_overlay s of None \<Rightarrow> False | Some logged \<Rightarrow> MAX_DIRTY_BYTES \<le> overlay_bytes logged)"

text \<open>An overlay with everything pushed home.\<close>

abbreviation emptied :: "block_map option \<Rightarrow> block_map option" where
  "emptied m \<equiv> map_option (\<lambda>_. []) m"

lemma emptied_not_full: "mt_overlay s = emptied m \<Longrightarrow> \<not> overlay_full s"
  by (cases m) (simp_all add: overlay_full_def overlay_bytes_def MAX_DIRTY_BYTES_def)

text \<open>Only the device and the flag that stops a mount are touched.\<close>

definition steady :: "'d Mount \<Rightarrow> 'd Mount \<Rightarrow> bool" where
  "steady s s' \<longleftrightarrow> mt_overlay s' = mt_overlay s \<and> mt_oldest_record s' = mt_oldest_record s \<and> mt_next_head s' = mt_next_head s \<and>
     mt_wraps s' = mt_wraps s \<and> mt_writable s' = mt_writable s"

text \<open>Everything logged is home, and the tail is forgotten.\<close>

definition pushed :: "'d Mount \<Rightarrow> 'd Mount \<Rightarrow> bool" where
  "pushed s s' \<longleftrightarrow> mt_overlay s' = emptied (mt_overlay s) \<and> mt_oldest_record s' = None \<and> mt_next_head s' = mt_next_head s \<and>
     mt_writable s' = mt_writable s"

lemma sync_outcome:
  assumes "sync D s = (s', r)"
  shows "case r of Inr _ \<Rightarrow> pushed s s' \<and> mt_wraps s' = mt_wraps s | Inl e \<Rightarrow> steady s s' \<and> (mt_writable s \<longrightarrow> mt_write_failed s' \<or> e = Panic)"
  using assms
  by (auto simp: sync_def sbind_def writable_device_def or_stop_writing_def push_overlay_def push_def smodify_def steady_def pushed_def
      split: if_splits prod.splits sum.splits option.splits)

lemma on_device_outcome:
  assumes "or_stop_writing (on_device m) s = (s', r)"
  shows "steady s s' \<and> (case r of Inr _ \<Rightarrow> True | Inl e \<Rightarrow> mt_write_failed s' \<or> e = Panic)"
  using assms by (auto simp: or_stop_writing_def on_device_def steady_def split: prod.splits sum.splits if_splits)

lemma pad_outcome:
  assumes "(if b then sbind (\<lambda>s. or_stop_writing (on_device (m s)) s) (\<lambda>_. slift r) else slift r') s = (s', x)"
  shows "steady s s'"
  using assms
  by (auto simp: sbind_def slift_def split: if_splits prod.splits sum.splits dest!: on_device_outcome) (auto simp: steady_def)

lemma start_again_outcome:
  assumes "start_again C D sb tid h s = (s', r)"
  shows "case r of
      Inl e \<Rightarrow> (mt_oldest_record s' = mt_oldest_record s \<or> mt_oldest_record s' = None \<and> mt_overlay s' = emptied (mt_overlay s)) \<and>
        mt_next_head s' = mt_next_head s \<and> mt_wraps s' = mt_wraps s
    | Inr h' \<Rightarrow> (\<exists>s1. sync D s = (s1, Inr ())) \<and> pushed s s' \<and> mt_wraps s' = Suc (mt_wraps s) \<and> hd_cycle h \<noteq> - 1 \<and>
        hd_block h' = 0 \<and> hd_cycle h' = hd_cycle h + 1 \<and> hd_free_blocks h' = hd_block h + hd_free_blocks h \<and> hd_iclog_size h' = hd_iclog_size h"
proof -
  obtain s1 r1 where s1: "sync D s = (s1, r1)" by fastforce
  show ?thesis
  proof (cases r1)
    case (Inl e)
    then show ?thesis using assms s1 sync_outcome [OF s1] by (auto simp: start_again_def sbind_def steady_def)
  next
    case (Inr u)
    let ?pad = "if 0 < hd_free_blocks h
            then sbind (\<lambda>s. or_stop_writing (on_device (append_pad C D sb h tid (tail_for h (mt_oldest_record s)))) s)
                   (\<lambda>_. slift (Inr (hd_block h)))
            else slift (Inr (hd_prev_block h))"
    obtain s2 r2 where s2: "?pad s1 = (s2, r2)" by fastforce
    note k = sync_outcome [OF s1] pad_outcome [OF s2]
    have "start_again C D sb tid h s = (case r2 of Inl e \<Rightarrow> (s2, Inl e) | Inr previous \<Rightarrow>
        (if hd_cycle h = - 1
         then slift (Inl (UnsupportedFeature ''wrapping would need a cycle this log cannot express''))
         else sbind (smodify (mt_wraps_update Suc)) (\<lambda>_.
           slift (Inr \<lparr>hd_block = 0, hd_cycle = hd_cycle h + 1, hd_prev_block = previous,
                       hd_free_blocks = hd_block h + hd_free_blocks h, hd_iclog_size = hd_iclog_size h\<rparr>))) s2)"
      unfolding start_again_def using s1 s2 Inr by (simp add: sbind_def split: sum.splits)
    with assms k Inr s1 show ?thesis
      by (auto simp: sbind_def slift_def smodify_def steady_def pushed_def split: sum.splits if_splits)
  qed
qed

fun head_after :: "('b \<times> nat) list \<Rightarrow> Head \<Rightarrow> Head" where
  "head_after [] h = h"
| "head_after ((_, k) # gs) h = head_after gs (advance h k)"

lemma append_groups_outcome:
  assumes "append_groups C D sb tid tail gs h earliest lsn s = (s', r)"
  shows "steady s s' \<and> (case r of
      Inl e \<Rightarrow> mt_write_failed s' \<or> e = Panic
    | Inr (at, f, l) \<Rightarrow> at = head_after gs h \<and> f = first_of earliest gs h)"
  using assms
proof (induction gs arbitrary: h earliest lsn s)
  case Nil
  then show ?case by (auto simp: slift_def first_of_def steady_def split: option.split)
next
  case (Cons g gs)
  obtain ops k where g: "g = (ops, k)" by fastforce
  obtain s1 r1 where s1: "or_stop_writing (on_device (append_at_with_tail C D sb h tid ops tail)) s = (s1, r1)" by fastforce
  note out = on_device_outcome [OF s1]
  show ?case
  proof (cases r1)
    case (Inl e)
    then show ?thesis using Cons.prems s1 out by (auto simp: g sbind_def)
  next
    case (Inr x)
    then have "x = lsn_of h" using s1 by (auto simp: or_stop_writing_def on_device_def split: prod.splits sum.splits dest: append_lsn)
    moreover have "append_groups C D sb tid tail gs (advance h k) (case earliest of None \<Rightarrow> Some x | Some f \<Rightarrow> Some f) x s1 = (s', r)"
      using Cons.prems s1 Inr by (simp add: g sbind_def)
    ultimately show ?thesis using Cons.IH [of "advance h k" "case earliest of None \<Rightarrow> Some x | Some f \<Rightarrow> Some f" x s1] out Inr
      by (auto simp: g first_of_def steady_def split: option.splits sum.splits)
  qed
qed

text \<open>A checkpoint that is written: the tail is the one there was, or the checkpoint's first record; a push at the
  end, when the overlay is full, forgets it.\<close>

lemma write_checkpoint_outcome:
  assumes run: "write_checkpoint C D sb tid gs ls needed h s = (s', r)" and ne: "gs \<noteq> []" "length ls = length gs"
    and w: "mt_writable s"
  defines "t \<equiv> case mt_oldest_record s of None \<Rightarrow> lsn_of h | Some t \<Rightarrow> t"
  shows "mt_wraps s' = mt_wraps s \<and> (\<not> overlay_full s \<longrightarrow> mt_overlay s' = mt_overlay s) \<and> (case r of
      Inl e \<Rightarrow> mt_write_failed s' \<or> e = Panic \<or> steady s s'
    | Inr _ \<Rightarrow> mt_next_head s' = Some (head_after (zip gs ls) h) \<and> mt_oldest_record s' = (if overlay_full s then None else Some t) \<and>
        mt_overlay s' = (if overlay_full s then emptied (mt_overlay s) else mt_overlay s))"
proof (cases "unat (hd_free_blocks h) < needed")
  case True
  then show ?thesis using run by (auto simp: write_checkpoint_def slift_def steady_def)
next
  case False
  let ?tail = "tail_for h (mt_oldest_record s)"
  obtain s1 r1 where s1: "append_groups C D sb tid ?tail (zip gs ls) h None 0 s = (s1, r1)" by fastforce
  note out = append_groups_outcome [OF s1]
  show ?thesis
  proof (cases r1)
    case (Inl e)
    then show ?thesis using run False s1 out by (auto simp: write_checkpoint_def sbind_def steady_def)
  next
    case (Inr x)
    obtain at f l where x: "x = (at, f, l)" by (cases x)
    have f: "at = head_after (zip gs ls) h" "f = Some (lsn_of h)" using out Inr x ne by (auto simp: first_of_def zip_eq_Nil_iff)
    let ?s2 = "remember at (lsn_of h) s1"
    have s2: "mt_oldest_record ?s2 = Some t" "mt_next_head ?s2 = Some at" "mt_overlay ?s2 = mt_overlay s" "mt_wraps ?s2 = mt_wraps s"
      "mt_writable ?s2" "overlay_full ?s2 = overlay_full s"
      using out w by (auto simp: remember_def steady_def t_def overlay_full_def split: option.split)
    have r: "write_checkpoint C D sb tid gs ls needed h s = sbind (push_if_dirty D) (\<lambda>_. slift (Inr l)) ?s2"
      using False s1 Inr x f by (simp add: write_checkpoint_def sbind_def smodify_def)
    have dirty: "push_if_dirty D ?s2 = (if overlay_full ?s2 then sync D ?s2 else (?s2, Inr ()))"
      by (simp add: push_if_dirty_def overlay_full_def)
    show ?thesis
    proof (cases "overlay_full s")
      case False
      then show ?thesis using run r dirty s2 f by (auto simp: sbind_def slift_def)
    next
      case True
      obtain s3 r3 where s3: "sync D ?s2 = (s3, r3)" by fastforce
      show ?thesis using run r dirty s2 f True s3 sync_outcome [OF s3]
        by (auto simp: sbind_def slift_def steady_def pushed_def split: sum.splits)
    qed
  qed
qed

text \<open>A commit that returns a number: where its first record went, and what wrote it.\<close>

lemma commit_cases:
  assumes "commit_record C D sb build s = (s', r)"
  obtains (early) e where "r = Inl e" "s' = s"
  | (placed) h groups lengths needed where "mt_writable s" "\<not> mt_write_failed s" "head_known D sb s = Inr h"
      "split_into_records (build (transaction_id h)) (hd_iclog_size h) = Inr groups"
      "record_lengths (transaction_id h) groups (hd_iclog_size h) (sb_logsunit sb) = Inr lengths" "sum_lengths lengths 0 = Inr needed"
      "write_checkpoint C D sb (transaction_id h) groups lengths needed h s = (s', r)"
  | (refused) h e where "mt_writable s" "\<not> mt_write_failed s" "head_known D sb s = Inr h"
      "start_again C D sb (transaction_id h) h s = (s', Inl e)" "r = Inl e"
  | (restarted) h h' s1 groups lengths needed where "mt_writable s" "\<not> mt_write_failed s" "head_known D sb s = Inr h"
      "split_into_records (build (transaction_id h)) (hd_iclog_size h) = Inr groups"
      "record_lengths (transaction_id h) groups (hd_iclog_size h) (sb_logsunit sb) = Inr lengths" "sum_lengths lengths 0 = Inr needed"
      "start_again C D sb (transaction_id h) h s = (s1, Inr h')"
      "write_checkpoint C D sb (transaction_id h) groups lengths needed h' s1 = (s', r)"
proof -
  have run: "commit_record C D sb build s =
     sbind writable_device (\<lambda>_. sbind (\<lambda>s. (s, head_known D sb s)) (\<lambda>h.
       sbind (slift (split_into_records (build (transaction_id h)) (hd_iclog_size h))) (\<lambda>groups.
       sbind (slift (record_lengths (transaction_id h) groups (hd_iclog_size h) (sb_logsunit sb))) (\<lambda>lengths.
       sbind (slift (sum_lengths lengths 0)) (\<lambda>needed.
       sbind (if wraps_first (of_nat needed) (hd_free_blocks h) (transaction_id h) then start_again C D sb (transaction_id h) h else slift (Inr h))
         (write_checkpoint C D sb (transaction_id h) groups lengths needed)))))) s"
    by (simp add: commit_record_def head_known_def Let_def)
  show thesis
  proof (cases "mt_write_failed s \<or> \<not> mt_writable s")
    case True
    then have "\<exists>e. r = Inl e \<and> s' = s" using assms run by (auto simp: sbind_def writable_device_def split: if_splits)
    then show thesis using early by blast
  next
    case w: False
    show thesis
    proof (cases "\<exists>h groups lengths needed. head_known D sb s = Inr h \<and>
        split_into_records (build (transaction_id h)) (hd_iclog_size h) = Inr groups \<and>
        record_lengths (transaction_id h) groups (hd_iclog_size h) (sb_logsunit sb) = Inr lengths \<and> sum_lengths lengths 0 = Inr needed")
      case True
      then obtain h groups lengths needed where g: "head_known D sb s = Inr h"
        "split_into_records (build (transaction_id h)) (hd_iclog_size h) = Inr groups"
        "record_lengths (transaction_id h) groups (hd_iclog_size h) (sb_logsunit sb) = Inr lengths" "sum_lengths lengths 0 = Inr needed" by blast
      have rest: "sbind (if wraps_first (of_nat needed) (hd_free_blocks h) (transaction_id h) then start_again C D sb (transaction_id h) h else slift (Inr h))
         (write_checkpoint C D sb (transaction_id h) groups lengths needed) s = (s', r)"
        using assms run w g by (simp add: sbind_def slift_def writable_device_def)
      obtain s1 r1 where s1: "start_again C D sb (transaction_id h) h s = (s1, r1)" by fastforce
      show thesis
      proof (cases "wraps_first (of_nat needed) (hd_free_blocks h) (transaction_id h)")
        case False
        then show thesis using rest w g by (intro placed) (auto simp: sbind_def slift_def)
      next
        case True
        then show thesis using rest w g s1 refused restarted by (cases r1) (auto simp: sbind_def)
      qed
    next
      case False
      then have "\<exists>e. r = Inl e \<and> s' = s" using assms run w
        by (auto simp: sbind_def slift_def writable_device_def split: sum.splits)
      then show thesis using early by blast
    qed
  qed
qed


section \<open>Histories of a mount\<close>

text \<open>What a writable mount does between two commits: it commits, pushes, and keeps or forgets buffers in its
  overlay.  A panic ends the history.\<close>

inductive mount_step :: "crc_crate \<Rightarrow> 'd Device \<Rightarrow> Superblock \<Rightarrow> 'd Mount \<Rightarrow> 'd Mount \<Rightarrow> bool"
  for C :: crc_crate and D :: "'d Device" and sb :: Superblock where
  commits: "commit_record C D sb build s = (s', r) \<Longrightarrow> r \<noteq> Inl Panic \<Longrightarrow> mount_step C D sb s s'"
| syncs: "sync D s = (s', r) \<Longrightarrow> r \<noteq> Inl Panic \<Longrightarrow> mount_step C D sb s s'"
| keeps: "logged_buffers C D items s = (s', r) \<Longrightarrow> r \<noteq> Inl Panic \<Longrightarrow> mount_step C D sb s s'"
| forgets: "mount_step C D sb s (cancelled_buffers items s)"

inductive_cases mount_stepE: "mount_step C D sb s s'"

lemma mount_ok_overlay: "mount_ok n (s\<lparr>mt_overlay := m\<rparr>) = mount_ok n s"
  by (simp add: mount_ok_def head_ok_def split: option.split)

lemma mount_ok_logged_buffers: "mount_ok n s \<Longrightarrow> mount_ok n (fst (logged_buffers C D items s))"
  by (induction C D items arbitrary: s rule: logged_buffers.induct)
    (auto simp: sbind_def slift_def logged_buffer_def mount_ok_overlay split: sum.splits option.splits prod.splits)

lemma mount_ok_cancelled_buffers: "mount_ok n s \<Longrightarrow> mount_ok n (cancelled_buffers items s)"
  by (induction items s rule: cancelled_buffers.induct) (auto simp: mount_ok_overlay)

lemma history_ok:
  assumes "(mount_step C D sb)\<^sup>*\<^sup>* s0 s" "\<forall>h. mt_next_head s0 = Some h \<longrightarrow> unat (hd_block h) + unat (hd_free_blocks h) = unat log_bytes div BBSIZE"
    "mt_oldest_record s0 = None"
    and ext: "log_extent sb = Inr (log_start, log_bytes)" "BBSIZE \<le> unat log_bytes" "unat log_bytes div BBSIZE < 2 ^ 32"
  shows "mount_ok (unat log_bytes div BBSIZE) s"
proof -
  let ?n = "unat log_bytes div BBSIZE"
  have step: "mount_ok ?n s \<Longrightarrow> mount_step C D sb s s' \<Longrightarrow> mount_ok ?n s'" for s s'
  proof (elim mount_stepE)
    fix build r assume "mount_ok ?n s" "commit_record C D sb build s = (s', r)"
    from valid_case [OF valid_commit [OF ext(1,2) refl ext(3)] this] show "mount_ok ?n s'" by (simp split: sum.splits)
  next
    fix r assume *: "mount_ok ?n s" "sync D s = (s', r)"
    have "valid (mount_ok ?n) (sync D) (\<lambda>_ s. mount_ok ?n s \<and> mt_oldest_record s = None) (\<lambda>_. mount_ok ?n)"
      by (rule valid_sync) (simp_all add: mount_ok_updates)
    from valid_case [OF this *] show "mount_ok ?n s'" by (simp split: sum.splits)
  next
    fix items r assume "mount_ok ?n s" "logged_buffers C D items s = (s', r)"
    then show "mount_ok ?n s'" using mount_ok_logged_buffers [of ?n s C D items] by simp
  qed (simp add: mount_ok_cancelled_buffers)
  show "mount_ok ?n s"
    using assms(1)
  proof (induction rule: rtranclp_induct)
    case base
    show ?case using assms(2,3) by (simp add: mount_ok_def head_ok_def split: option.split)
  qed (rule step)
qed

text \<open>C2. The tail is the oldest record recovery still needs, and it never passes the head. With a log of at
  least one and fewer than \<open>2 ^ 32\<close> basic blocks, from a mount with nothing outstanding, through any
  history of commits, pushes and overlay changes, failed ones included, a writable mount that knows a head has one whose
  block and remaining blocks make up the whole ring, and its tail lies in the head's own cycle, strictly before it. A
  further commit that succeeds keeps the tail there was, or, where there was none, takes its own first record, which
  lies where the head was; where it started the ring again everything older had been pushed home and its first record is
  the first block of the next cycle. A commit that fails and leaves the mount writing keeps the tail, or has pushed
  everything home. The exception is a commit that finds the overlay full: it pushes after its records are down and
  forgets the tail altogether, its own records included.\<close>

theorem tail_behind_head:
  assumes hist: "(mount_step C D sb)\<^sup>*\<^sup>* s0 s" "\<forall>h. mt_next_head s0 = Some h \<longrightarrow> unat (hd_block h) + unat (hd_free_blocks h) = unat log_bytes div BBSIZE"
      "mt_oldest_record s0 = None"
    and ext: "log_extent sb = Inr (log_start, log_bytes)" "BBSIZE \<le> unat log_bytes" "unat log_bytes div BBSIZE < 2 ^ 32"
    and run: "commit_record C D sb build s = (s', r)"
  shows "(case mt_next_head s of
      None \<Rightarrow> mt_oldest_record s = None
    | Some h \<Rightarrow> unat (hd_block h) + unat (hd_free_blocks h) = unat log_bytes div BBSIZE \<and>
        (\<forall>t. mt_oldest_record s = Some t \<longrightarrow> lsn_cycle t = hd_cycle h \<and> lsn_block t < unat (hd_block h))) \<and>
    (case r of
      Inl e \<Rightarrow> mt_write_failed s' \<or> e = Panic \<or> mt_oldest_record s' = mt_oldest_record s \<or>
        mt_oldest_record s' = None \<and> mt_overlay s' = emptied (mt_overlay s)
    | Inr lsn \<Rightarrow> (\<exists>h. head_known D sb s = Inr h \<and>
        mt_oldest_record s' =
          (if mt_wraps s' \<noteq> mt_wraps s then Some (lsn_of (h\<lparr>hd_block := 0, hd_cycle := hd_cycle h + 1\<rparr>))
           else if overlay_full s then None
           else Some (case mt_oldest_record s of Some t \<Rightarrow> t | None \<Rightarrow> lsn_of h)) \<and>
        (mt_wraps s' \<noteq> mt_wraps s \<or> overlay_full s \<longrightarrow> mt_overlay s' = emptied (mt_overlay s))))"
proof (rule conjI)
  have "mount_ok (unat log_bytes div BBSIZE) s" by (rule history_ok [OF hist ext])
  then show "case mt_next_head s of
      None \<Rightarrow> mt_oldest_record s = None
    | Some h \<Rightarrow> unat (hd_block h) + unat (hd_free_blocks h) = unat log_bytes div BBSIZE \<and>
        (\<forall>t. mt_oldest_record s = Some t \<longrightarrow> lsn_cycle t = hd_cycle h \<and> lsn_block t < unat (hd_block h))"
    by (simp add: mount_ok_def head_ok_def split: option.splits)
  show "case r of
      Inl e \<Rightarrow> mt_write_failed s' \<or> e = Panic \<or> mt_oldest_record s' = mt_oldest_record s \<or>
        mt_oldest_record s' = None \<and> mt_overlay s' = emptied (mt_overlay s)
    | Inr lsn \<Rightarrow> (\<exists>h. head_known D sb s = Inr h \<and>
        mt_oldest_record s' =
          (if mt_wraps s' \<noteq> mt_wraps s then Some (lsn_of (h\<lparr>hd_block := 0, hd_cycle := hd_cycle h + 1\<rparr>))
           else if overlay_full s then None
           else Some (case mt_oldest_record s of Some t \<Rightarrow> t | None \<Rightarrow> lsn_of h)) \<and>
        (mt_wraps s' \<noteq> mt_wraps s \<or> overlay_full s \<longrightarrow> mt_overlay s' = emptied (mt_overlay s)))"
    using run
  proof (cases rule: commit_cases)
    case early
    then show ?thesis by simp
  next
    case (placed h groups lengths needed)
    have "groups \<noteq> []" "length lengths = length groups"
      using split_not_empty [OF placed(4)] record_lengths_Inr [OF placed(5)] by simp_all
    from write_checkpoint_outcome [OF placed(7) this placed(1)] placed(3) show ?thesis
      by (auto simp: steady_def split: sum.splits option.splits)
  next
    case (refused h e)
    from start_again_outcome [OF refused(4)] refused(5) show ?thesis by auto
  next
    case (restarted h h' s1 groups lengths needed)
    note again = start_again_outcome [OF restarted(7)]
    have g: "groups \<noteq> []" "length lengths = length groups"
      using split_not_empty [OF restarted(4)] record_lengths_Inr [OF restarted(5)] by simp_all
    have w: "mt_writable s1" "mt_oldest_record s1 = None" "mt_overlay s1 = emptied (mt_overlay s)" "mt_wraps s1 = Suc (mt_wraps s)"
      using again restarted(1) by (auto simp: pushed_def)
    have "\<not> overlay_full s1" using w(3) by (rule emptied_not_full)
    moreover have "lsn_of h' = lsn_of (h\<lparr>hd_block := 0, hd_cycle := hd_cycle h + 1\<rparr>)" using again by (simp add: lsn_of_def)
    ultimately show ?thesis using write_checkpoint_outcome [OF restarted(8) g w(1)] w restarted(3)
      by (auto simp: steady_def split: sum.splits)
  qed
qed

text \<open>What the exception costs.  A commit that finds the overlay full forgets the tail, its caller then keeps the
  buffers it logged, and the next commit names itself as the tail, although those buffers are in memory only:
  recovery would start behind the records that carry them.\<close>

lemma full_commit_forgets_itself:
  assumes one: "commit_record C D sb build s = (s1, Inr l1)" "overlay_full s" "mt_wraps s1 = mt_wraps s"
    and kept: "s2 = s1\<lparr>mt_overlay := Some logged\<rparr>" "logged \<noteq> []" "overlay_bytes logged < MAX_DIRTY_BYTES"
    and two: "commit_record C D sb build' s2 = (s3, Inr l2)" "mt_wraps s3 = mt_wraps s2"
  shows "\<exists>h. mt_next_head s1 = Some h \<and> mt_oldest_record s3 = Some (lsn_of h) \<and> mt_overlay s3 = Some logged"
proof -
  have none: "mt_oldest_record s1 = None \<and> mt_next_head s1 \<noteq> None"
    using one(1)
  proof (cases rule: commit_cases)
    case (placed h groups lengths needed)
    have "groups \<noteq> []" "length lengths = length groups"
      using split_not_empty [OF placed(4)] record_lengths_Inr [OF placed(5)] by simp_all
    from write_checkpoint_outcome [OF placed(7) this placed(1)] one(2) show ?thesis by simp
  next
    case (restarted h h' s0 groups lengths needed)
    then show ?thesis using start_again_outcome [OF restarted(7)] valid_case [OF wraps_kept refl restarted(8)] one(3) by simp
  qed simp_all
  then obtain h where h: "mt_next_head s1 = Some h" by blast
  have full: "\<not> overlay_full s2" using kept by (simp add: overlay_full_def)
  from two(1) show ?thesis
  proof (cases rule: commit_cases)
    case (placed k groups lengths needed)
    have "groups \<noteq> []" "length lengths = length groups"
      using split_not_empty [OF placed(4)] record_lengths_Inr [OF placed(5)] by simp_all
    from write_checkpoint_outcome [OF placed(7) this placed(1)] placed(3) h none kept full show ?thesis
      by (auto simp: head_known_def)
  next
    case (restarted k h' s0 groups lengths needed)
    then show ?thesis using start_again_outcome [OF restarted(7)] valid_case [OF wraps_kept refl restarted(8)] two(2) by simp
  qed simp_all
qed

text \<open>No logged buffer has its home in the log.\<close>

definition homes_outside :: "u64 \<Rightarrow> nat \<Rightarrow> 'd Mount \<Rightarrow> bool" where
  "homes_outside log_start n s \<longleftrightarrow>
     (\<forall>m. mt_overlay s = Some m \<longrightarrow> (\<forall>(at, b) \<in> set m. unat log_start + n * BBSIZE \<le> unat at \<or> unat at + length b \<le> unat log_start))"

lemma homes_outsideD:
  "homes_outside log_start n s \<Longrightarrow> mt_overlay s = Some m \<Longrightarrow> (at, b) \<in> set m \<Longrightarrow>
    unat log_start + n * BBSIZE \<le> unat at \<or> unat at + length b \<le> unat log_start"
  by (auto simp: homes_outside_def)

section \<open>What a commit keeps\<close>

lemma commit_below:
  assumes f: "frames D img" and ext: "log_extent sb = Inr (log_start, log_bytes)" "unat log_start + unat log_bytes < 2 ^ 64"
    and n: "n = unat log_bytes div BBSIZE" "n < 2 ^ 32" and h: "head_known D sb s = Inr h" "unat (hd_block h) + unat (hd_free_blocks h) = n"
    and out: "homes_outside log_start n s"
    and run: "commit_record C D sb build s = (s', r)" "mt_wraps s' = mt_wraps s"
  shows "same_bytes (unat log_start) (unat log_start + unat (hd_block h) * BBSIZE) (img (mt_device s')) (img (mt_device s))"
proof -
  let ?K = "below_kept img (unat log_start) (unat log_start + unat (hd_block h) * BBSIZE) (img (mt_device s)) (mt_wraps s)"
  let ?P = "\<lambda>h' s'. ?K s' \<and> (mt_wraps s' = mt_wraps s \<longrightarrow> unat (hd_block h) \<le> unat (hd_block h')) \<and>
      unat (hd_block h') + unat (hd_free_blocks h') = n"
  have st: "log_start = fsblock_offset sb (sb_logstart sb)" using ext(1) by (auto simp: log_extent_def Let_def refuse_Inr)
  have fit: "unat log_start + n * BBSIZE < 2 ^ 64" unfolding n(1) using ext(2) div_times_less_eq_dividend [of "unat log_bytes" BBSIZE] by linarith
  have le: "unat (hd_block h) * BBSIZE \<le> n * BBSIZE" using h(2) by (intro mult_le_mono1) simp
  have "unat log_start + unat (hd_block h) * BBSIZE \<le> unat at \<or> unat at + length b \<le> unat log_start"
    if m: "mt_overlay s = Some m" "(at, b) \<in> set m" for m at b
  proof -
    from homes_outsideD [OF out m] show ?thesis using le by linarith
  qed
  then have K0: "?K s" by (auto simp: below_kept_def same_bytes_def)
  have place: "valid ?K (if b then start_again C D sb tid h else slift (Inr h)) ?P (\<lambda>_. ?K)" for b tid
    using h(2) by (intro valid_if valid_weaken [OF valid_start_below [OF f st fit h(2) n(2)]] valid_slift) auto
  have body: "valid ?K (sbind (slift (split_into_records ops ic)) (\<lambda>groups.
      sbind (slift (record_lengths tid groups ic unit)) (\<lambda>lengths.
      sbind (slift (sum_lengths lengths 0)) (\<lambda>needed.
      sbind (if b needed then start_again C D sb tid h else slift (Inr h)) (write_checkpoint C D sb tid groups lengths needed)))))
    (\<lambda>_. ?K) (\<lambda>_. ?K)" for ops ic unit tid b
  proof (rule valid_lift_bind, rule valid_lift_bind, rule valid_lift_bind, rule valid_sbind [OF place])
    fix groups lengths needed h'
    assume g: "split_into_records ops ic = Inr groups" "record_lengths tid groups ic unit = Inr lengths" "sum_lengths lengths 0 = Inr needed"
    have "valid (\<lambda>s'. ?K s' \<and> (mt_wraps s' = mt_wraps s \<longrightarrow> unat (hd_block h) \<le> unat (hd_block h')))
        (write_checkpoint C D sb tid groups lengths needed h') (\<lambda>_. ?K) (\<lambda>_. ?K)"
      if "unat (hd_block h') + unat (hd_free_blocks h') = n"
      using valid_checkpoint_below [OF f st fit n(2) _ _ that] record_lengths_Inr [OF g(2)] sum_lengths_Inr [OF g(3)] by simp
    then show "valid (?P h') (write_checkpoint C D sb tid groups lengths needed h') (\<lambda>_. ?K) (\<lambda>_. ?K)"
      unfolding conj_assoc [symmetric] by (rule valid_pure)
  qed auto
  have "valid (\<lambda>s'. ?K s' \<and> head_known D sb s' = Inr h) (commit_record C D sb build) (\<lambda>_. ?K) (\<lambda>_. ?K)"
    unfolding commit_record_def Let_def head_known_def [symmetric]
  proof (rule valid_sbind [OF valid_writable_device], simp, rule valid_sbind)
    show "valid (\<lambda>s'. ?K s' \<and> head_known D sb s' = Inr h) (\<lambda>s. (s, head_known D sb s)) (\<lambda>h' s'. ?K s' \<and> h' = h) (\<lambda>_. ?K)"
      by (auto simp: valid_def)
  qed (rule valid_pure, simp add: body)
  from valid_case [OF this _ run(1)] K0 h(1) have "?K s'" by (simp split: sum.splits)
  then show ?thesis using run(2) by (simp add: below_kept_def)
qed

lemma sync_below:
  assumes f: "frames D img" and out: "homes_outside log_start n s" and hi: "hi \<le> unat log_start + n * BBSIZE" and run: "sync D s = (s', r)"
  shows "same_bytes (unat log_start) hi (img (mt_device s')) (img (mt_device s))"
proof -
  let ?K = "below_kept img (unat log_start) hi (img (mt_device s)) (mt_wraps s)"
  have "hi \<le> unat at \<or> unat at + length b \<le> unat log_start" if "mt_overlay s = Some m" "(at, b) \<in> set m" for m at b
    using homes_outsideD [OF out that] hi by linarith
  then have "?K s" by (auto simp: below_kept_def same_bytes_def)
  from valid_case [OF valid_sync_below [OF f] this run] have "?K s'" by (simp split: sum.splits)
  moreover have "mt_wraps s' = mt_wraps s" using sync_outcome [OF run] by (auto simp: steady_def split: sum.splits)
  ultimately show ?thesis by (simp add: below_kept_def)
qed

text \<open>C8. A commit overwrites nothing recovery may need.  On a device that changes only the bytes a write names, for a
  mount none of whose logged buffers has its home in the log, and whether or not the commit succeeds: unless it
  started the ring again, every byte of the log below the head it started from, known or found by reading the log, is
  what it was.  If it did start the ring again, it had first pushed everything the mount had logged to its home, with
  success and without touching those bytes, and holds nothing logged any more.\<close>

theorem commit_keeps_older_records:
  assumes f: "frames D img" and ext: "log_extent sb = Inr (log_start, log_bytes)" "unat log_start + unat log_bytes < 2 ^ 64"
    and n: "n = unat log_bytes div BBSIZE" "n < 2 ^ 32" and h: "head_known D sb s = Inr h" "unat (hd_block h) + unat (hd_free_blocks h) = n"
    and out: "homes_outside log_start n s"
    and run: "commit_record C D sb build s = (s', r)"
  defines "kept d \<equiv> same_bytes (unat log_start) (unat log_start + unat (hd_block h) * BBSIZE) (img d) (img (mt_device s))"
  shows "if mt_wraps s' = mt_wraps s then kept (mt_device s')
    else (\<exists>s1. sync D s = (s1, Inr ()) \<and> mt_overlay s1 = emptied (mt_overlay s) \<and> mt_oldest_record s1 = None \<and> kept (mt_device s1)) \<and>
      mt_overlay s' = emptied (mt_overlay s)"
proof (cases "mt_wraps s' = mt_wraps s")
  case True
  then show ?thesis using commit_below [OF f ext n h out run True] by (simp add: kept_def)
next
  case False
  have hi: "unat log_start + unat (hd_block h) * BBSIZE \<le> unat log_start + n * BBSIZE"
    using h(2) by (intro add_left_mono mult_le_mono1) simp
  from run False obtain h' s1 s2 groups lengths needed where "head_known D sb s = Inr h"
    and g: "groups \<noteq> []" "length lengths = length groups" and s2: "start_again C D sb (transaction_id h) h s = (s2, Inr h')"
    and w: "write_checkpoint C D sb (transaction_id h) groups lengths needed h' s2 = (s', r)" and s1: "sync D s = (s1, Inr ())" "mt_writable s"
  proof (cases rule: commit_cases)
    case (placed k groups lengths needed)
    then show ?thesis using False valid_case [OF wraps_kept refl placed(7)] by (simp split: sum.splits)
  next
    case (refused k e)
    then show ?thesis using False start_again_outcome [OF refused(4)] by simp
  next
    case (restarted k h' s2 groups lengths needed)
    then show ?thesis using that [of groups lengths s2 h' needed] start_again_outcome [OF restarted(7)] h(1)
        split_not_empty [OF restarted(4)] record_lengths_Inr [OF restarted(5)] by auto
  qed simp
  have "pushed s s2" using start_again_outcome [OF s2] by simp
  then have full: "mt_overlay s2 = emptied (mt_overlay s)" "mt_writable s2" using s1(2) by (simp_all add: pushed_def)
  have "mt_overlay s' = mt_overlay s2"
    using write_checkpoint_outcome [OF w g full(2)] emptied_not_full [OF full(1)] by simp
  moreover have "kept (mt_device s1)" unfolding kept_def by (rule sync_below [OF f out hi s1(1)])
  ultimately show ?thesis using False s1(1) sync_outcome [OF s1(1)] full(1) by (auto simp: pushed_def)
qed

section \<open>A write that fails\<close>

text \<open>Any device, watched: whether a write or a flush has failed, and whether anything was written or flushed after
  that.\<close>

record 'd Watched =
  wt_device :: 'd
  wt_failed :: bool
  wt_after :: bool

definition watch :: "('d \<Rightarrow> 'd \<times> 'a res) \<Rightarrow> 'd Watched \<Rightarrow> 'd Watched \<times> 'a res" where
  "watch m w = (case m (wt_device w) of (d, r) \<Rightarrow>
     (\<lparr>wt_device = d, wt_failed = (wt_failed w \<or> isl r), wt_after = (wt_after w \<or> wt_failed w)\<rparr>, r))"

definition watched :: "'d Device \<Rightarrow> 'd Watched Device" where
  "watched D = \<lparr>dv_read = (\<lambda>w. dv_read D (wt_device w)), dv_write = (\<lambda>w at b. watch (\<lambda>d. dv_write D d at b) w),
     dv_flush = watch (dv_flush D)\<rparr>"

definition no_failure :: "'d Watched \<Rightarrow> bool" where
  "no_failure w \<longleftrightarrow> \<not> wt_failed w \<and> \<not> wt_after w"

lemma valid_watch: "valid no_failure (watch m) (\<lambda>_. no_failure) (\<lambda>_ w. \<not> wt_after w)"
  by (auto simp: valid_def watch_def no_failure_def split: prod.splits sum.splits)

lemma watched_writes:
  "valid no_failure (\<lambda>w. dv_write (watched D) w at b) (\<lambda>_. no_failure) (\<lambda>_ w. \<not> wt_after w)"
  "valid no_failure (dv_flush (watched D)) (\<lambda>_. no_failure) (\<lambda>_ w. \<not> wt_after w)"
  unfolding watched_def Device.simps by (rule valid_watch)+

lemma no_failure_after: "no_failure w \<Longrightarrow> \<not> wt_after w"
  by (simp add: no_failure_def)

lemma watched_put_record:
  "valid no_failure (put_record C (watched D) sb h tail k pay) (\<lambda>_. no_failure) (\<lambda>_ w. \<not> wt_after w)"
  unfolding put_record_def
  by (intro valid_lift_bind valid_sbind [OF watched_writes(1)] valid_sbind [OF watched_writes(2)] valid_slift)
    (auto simp: no_failure_after)

lemma watched_append:
  "valid no_failure (append_at_with_tail C (watched D) sb h tid ops tail) (\<lambda>_. no_failure) (\<lambda>_ w. \<not> wt_after w)"
  "valid no_failure (append_pad C (watched D) sb h tid tail) (\<lambda>_. no_failure) (\<lambda>_ w. \<not> wt_after w)"
  unfolding append_at_with_tail_def append_pad_def Let_def
  by (intro valid_lift_bind valid_if watched_put_record valid_slift; simp add: no_failure_after)+

lemma watched_push:
  "no_failure w \<Longrightarrow> push (dv_write (watched D)) (dv_flush (watched D)) w m = (w', kept, r) \<Longrightarrow>
    \<not> wt_after w' \<and> (\<not> isl r \<longrightarrow> no_failure w')"
proof -
  assume w: "no_failure w" and p: "push (dv_write (watched D)) (dv_flush (watched D)) w m = (w', kept, r)"
  have "valid no_failure (\<lambda>w. push_writes (dv_write (watched D)) w m k) (\<lambda>_. no_failure) (\<lambda>_ w. \<not> wt_after w)" for k
  proof (induction m arbitrary: k)
    case (Cons e m)
    obtain at b where e: "e = (at, b)" by fastforce
    have "(\<lambda>w. push_writes (dv_write (watched D)) w (e # m) k) =
        sbind (\<lambda>w. dv_write (watched D) w at b) (\<lambda>_ w. push_writes (dv_write (watched D)) w m (k + 1))"
      by (auto simp: e sbind_def fun_eq_iff split: prod.splits sum.splits)
    then show ?case using valid_sbind [OF watched_writes(1) Cons.IH] by simp
  qed (simp add: valid_def)
  note writes = valid_case [OF this w]
  obtain w1 r1 where w1: "push_writes (dv_write (watched D)) w m 0 = (w1, r1)" by fastforce
  show ?thesis
  proof (cases r1)
    case (Inl e)
    then show ?thesis using writes [OF w1] p w1 by (auto simp: push_def)
  next
    case (Inr n)
    then have n: "no_failure w1" using writes [OF w1] by simp
    obtain w2 r2 where w2: "dv_flush (watched D) w1 = (w2, r2)" by fastforce
    from valid_case [OF watched_writes(2) n w2] show ?thesis
      using p w1 w2 Inr by (cases r2) (auto simp: push_def no_failure_after)
  qed
qed

text \<open>Through an operation of the mount: no failure so far, and after an error either none or the mount has
  stopped.\<close>

abbreviation clear :: "'d Watched Mount \<Rightarrow> bool" where "clear s \<equiv> no_failure (mt_device s)"
abbreviation halted :: "error \<Rightarrow> 'd Watched Mount \<Rightarrow> bool" where
  "halted e s \<equiv> \<not> wt_after (mt_device s) \<and> (wt_failed (mt_device s) \<longrightarrow> mt_write_failed s \<or> e = Panic)"

lemma clear_halted: "clear s \<Longrightarrow> halted e s"
  by (simp add: no_failure_def)

lemma valid_or_stop_watched:
  assumes "valid no_failure m (\<lambda>_. no_failure) (\<lambda>_ w. \<not> wt_after w)"
  shows "valid clear (or_stop_writing (on_device m)) (\<lambda>_. clear) halted"
  using assms by (fastforce simp: valid_def or_stop_writing_def on_device_def split: prod.splits sum.splits)

lemma valid_sync_watched: "valid clear (sync (watched D)) (\<lambda>_. clear) halted"
proof -
  have push: "valid clear (or_stop_writing (push_overlay (watched D))) (\<lambda>_. clear) halted"
    unfolding valid_def
  proof (intro allI impI)
    fix s :: "'a Watched Mount" assume s: "clear s"
    show "case or_stop_writing (push_overlay (watched D)) s of (s', Inl e) \<Rightarrow> halted e s' | (s', Inr x) \<Rightarrow> clear s'"
    proof (cases "mt_overlay s")
      case None
      then show ?thesis using s by (simp add: or_stop_writing_def push_overlay_def)
    next
      case (Some m)
      obtain w kept r where p: "push (dv_write (watched D)) (dv_flush (watched D)) (mt_device s) m = (w, kept, r)"
        by (cases "push (dv_write (watched D)) (dv_flush (watched D)) (mt_device s) m")
      show ?thesis using watched_push [OF s p] Some p by (cases r) (auto simp: or_stop_writing_def push_overlay_def)
    qed
  qed
  show ?thesis
    unfolding sync_def by (intro valid_sbind [OF valid_writable_device] valid_sbind [OF push] valid_smodify) (simp_all add: clear_halted)
qed

lemma valid_clear_slift: "valid clear (slift r) (\<lambda>_. clear) halted"
  by (rule valid_slift) (auto simp: clear_halted)

lemma valid_start_watched: "valid clear (start_again C (watched D) sb tid h) (\<lambda>_. clear) halted"
proof -
  have pad: "valid clear (\<lambda>s. or_stop_writing (on_device (append_pad C (watched D) sb h tid (tail_for h (mt_oldest_record s)))) s) (\<lambda>_. clear) halted"
    by (rule valid_read [where m = "\<lambda>t. or_stop_writing (on_device (append_pad C (watched D) sb h tid t))"])
      (rule valid_or_stop_watched [OF watched_append(2)])
  have wrap: "valid clear (smodify (mt_wraps_update Suc)) (\<lambda>_. clear) halted" by (rule valid_smodify) simp
  show ?thesis
    unfolding start_again_def
    by (intro valid_sbind [OF valid_sync_watched] valid_sbind [where Q = "\<lambda>_. clear"] valid_if valid_sbind [OF pad] valid_sbind [OF wrap]
        valid_clear_slift)
qed

lemma valid_checkpoint_watched: "valid clear (write_checkpoint C (watched D) sb tid gs ls needed h) (\<lambda>_. clear) halted"
proof -
  have "valid clear (append_groups C (watched D) sb tid t zs at earliest lsn) (\<lambda>_. clear) halted" for t zs at earliest lsn
    by (induction zs arbitrary: at earliest lsn)
      (auto intro!: valid_clear_slift valid_sbind [OF valid_or_stop_watched [OF watched_append(1)]])
  then have groups: "valid clear (\<lambda>s. append_groups C (watched D) sb tid (tail_for h (mt_oldest_record s)) (zip gs ls) h None 0 s) (\<lambda>_. clear) halted"
    by (rule valid_read [where m = "\<lambda>t. append_groups C (watched D) sb tid t (zip gs ls) h None 0"])
  have dirty: "valid clear (push_if_dirty (watched D)) (\<lambda>_. clear) halted"
    using valid_sync_watched [of D] by (auto simp: valid_def push_if_dirty_def)
  have rem: "valid clear (smodify (remember at f)) (\<lambda>_. clear) halted" for at f by (rule valid_smodify) (simp add: remember_def)
  have "valid clear (case x of (at, first, lsn) \<Rightarrow> case first of None \<Rightarrow> slift (Inl Panic)
      | Some f \<Rightarrow> sbind (smodify (remember at f)) (\<lambda>_. sbind (push_if_dirty (watched D)) (\<lambda>_. slift (Inr lsn)))) (\<lambda>_. clear) halted"
    for x :: "Head \<times> u64 option \<times> u64"
    by (cases x, cases "fst (snd x)") (auto intro!: valid_clear_slift valid_sbind [OF rem] valid_sbind [OF dirty])
  then show ?thesis unfolding write_checkpoint_def by (intro valid_if valid_sbind [OF groups] valid_clear_slift)
qed

lemma failed_commit_head:
  assumes run: "commit_record C D sb build s = (s', Inl e)" and e: "e \<noteq> Panic"
  shows "mt_next_head s' = mt_next_head s \<or> mt_write_failed s'"
proof -
  let ?P = "\<lambda>s'. mt_next_head s' = mt_next_head s \<and> mt_writable s'"
  let ?E = "\<lambda>e s'. mt_next_head s' = mt_next_head s \<or> mt_write_failed s' \<or> e = Panic"
  have b: "blind ?P" by (simp add: blind_def)
  have wk: "valid ?P m (\<lambda>_. ?P) ?E" if "valid ?P m (\<lambda>_. ?P) (\<lambda>_. ?P)" for m :: "('d Mount, 'b) op"
    using that by (rule valid_weaken) auto
  have sync: "valid ?P (sync D) (\<lambda>_. ?P) ?E"
    by (rule wk, rule valid_weaken [OF valid_sync [of ?P]]) auto
  have pad: "valid ?P (\<lambda>s. or_stop_writing (on_device (append_pad C D sb h tid (tail_for h (mt_oldest_record s)))) s) (\<lambda>_. ?P) ?E" for h tid
    by (rule wk, rule valid_read [where m = "\<lambda>t. or_stop_writing (on_device (append_pad C D sb h tid t))"], rule valid_or_stop [OF b])
  have start: "valid ?P (start_again C D sb tid h) (\<lambda>_. ?P) ?E" for tid h
    unfolding start_again_def
    by (intro valid_sbind [OF sync] valid_sbind [where Q = "\<lambda>_. ?P"] valid_if valid_sbind [OF pad] valid_slift valid_smodify) auto
  have "valid ?P (append_groups C D sb tid t zs at earliest lsn) (\<lambda>_. ?P) ?E" for tid t zs at earliest lsn
    by (induction zs arbitrary: at earliest lsn) (auto intro!: valid_slift valid_sbind [OF wk [OF valid_or_stop [OF b]]])
  then have groups: "valid ?P (\<lambda>s. append_groups C D sb tid (tail_for h (mt_oldest_record s)) zs h None 0 s) (\<lambda>_. ?P) ?E" for tid zs h
    by (rule valid_read [where m = "\<lambda>t. append_groups C D sb tid t zs h None 0"])
  have "valid mt_writable (sync D) (\<lambda>_ _. True) (\<lambda>e s. mt_write_failed s \<or> e = Panic)"
    by (auto simp: valid_def sync_def sbind_def writable_device_def or_stop_writing_def smodify_def split: prod.splits sum.splits)
  then have dirty: "valid mt_writable (push_if_dirty D) (\<lambda>_ _. True) ?E"
    by (auto simp: valid_def push_if_dirty_def split: prod.splits sum.splits)
  have rem: "valid ?P (smodify (remember at f)) (\<lambda>_. mt_writable) ?E" for at f by (rule valid_smodify) (simp add: remember_def)
  have "valid ?P (case x of (at, first, lsn) \<Rightarrow> case first of None \<Rightarrow> slift (Inl Panic)
      | Some f \<Rightarrow> sbind (smodify (remember at f)) (\<lambda>_. sbind (push_if_dirty D) (\<lambda>_. slift (Inr lsn)))) (\<lambda>_ _. True) ?E"
    for x :: "Head \<times> u64 option \<times> u64"
    by (cases x, cases "fst (snd x)") (auto intro!: valid_slift valid_sbind [OF rem] valid_sbind [OF dirty])
  then have wr: "valid ?P (write_checkpoint C D sb tid gs ls needed h) (\<lambda>_ _. True) ?E" for tid gs ls needed h
    unfolding write_checkpoint_def by (intro valid_if valid_sbind [OF groups]) (auto intro: valid_slift)
  have head: "valid ?P (\<lambda>s. (s, case mt_next_head s of Some known \<Rightarrow> Inr known | None \<Rightarrow> log_head (dv_read D (mt_device s)) sb)) (\<lambda>_. ?P) ?E"
    by (simp add: valid_def split: option.splits sum.splits)
  have first: "valid (\<lambda>s'. s' = s) writable_device (\<lambda>_. ?P) ?E" by (simp add: valid_def writable_device_def)
  have place: "valid ?P (if b then start_again C D sb tid h else slift (Inr h)) (\<lambda>_. ?P) ?E" for b tid h
    by (intro valid_if start valid_slift) auto
  have "valid (\<lambda>s'. s' = s) (commit_record C D sb build) (\<lambda>_ _. True) ?E"
    unfolding commit_record_def Let_def
    by (rule valid_sbind [OF first], rule valid_sbind [OF head], rule valid_lift_bind, rule valid_lift_bind, rule valid_lift_bind,
        rule valid_sbind [OF place], rule wr) auto
  from valid_case [OF this refl run] show ?thesis using e by auto
qed

text \<open>C27. A mount that lost track of its log writes nothing more.  On any device, watched for failures: once a write
  or a flush that a commit asks for has failed, be it of a record, of the filler at the end of the ring or of a buffer
  pushed home, the commit asks the device for nothing else and returns an error, and every later commit and
  push is refused and changes nothing.  An error that does not stop the mount leaves the place of the next record as it was.  A
  panic ends the mount and is left aside.\<close>

theorem failed_commit_stops:
  assumes run: "commit_record C (watched D) sb build s = (s', r)" and r: "r \<noteq> Inl Panic"
    and ok: "\<not> wt_failed (mt_device s)" "\<not> wt_after (mt_device s)"
  shows "\<not> wt_after (mt_device s') \<and>
    (wt_failed (mt_device s') \<longrightarrow> isl r \<and>
      (\<forall>build'. commit_record C (watched D) sb build' s' = (s', Inl (Io ''this mount stopped writing after a log write failed''))) \<and>
      sync (watched D) s' = (s', Inl (Io ''this mount stopped writing after a log write failed''))) \<and>
    (isl r \<longrightarrow> mt_next_head s' = mt_next_head s \<or> mt_write_failed s')"
proof -
  have head: "valid clear (\<lambda>s. (s, case mt_next_head s of Some known \<Rightarrow> Inr known | None \<Rightarrow> log_head (dv_read (watched D) (mt_device s)) sb))
      (\<lambda>_. clear) halted"
    by (auto simp: valid_def clear_halted split: sum.splits)
  have "valid clear (commit_record C (watched D) sb build) (\<lambda>_. clear) halted"
    unfolding commit_record_def Let_def
    by (rule valid_sbind [OF valid_writable_device], rule clear_halted, assumption, rule valid_sbind [OF head],
        (rule valid_lift_bind)+, rule valid_sbind, rule valid_if, rule valid_start_watched, rule valid_clear_slift,
        rule valid_checkpoint_watched) (auto simp: clear_halted)
  from valid_case [OF this _ run] ok have "case r of Inl e \<Rightarrow> halted e s' | Inr _ \<Rightarrow> clear s'" by (simp add: no_failure_def split: sum.splits)
  then show ?thesis
    using r failed_commit_head [of C "watched D" sb build s s'] run stopped_mount [of s'] by (cases r) (auto simp: no_failure_def)
qed


section \<open>A record that is written\<close>

text \<open>The bytes of a record as a reader takes them apart.\<close>

definition reads_as :: "crc_crate \<Rightarrow> Superblock \<Rightarrow> bytes \<Rightarrow> bytes \<Rightarrow> u64 \<Rightarrow> u64 \<Rightarrow> nat \<Rightarrow> bytes \<Rightarrow> bool" where
  "reads_as C sb header data lsn tail nops pay \<longleftrightarrow>
     length header = BBSIZE \<and> length data = div_ceil (length pay) BBSIZE * BBSIZE \<and>
     is_header sb header = Inr True \<and> be64 header 16 = Inr lsn \<and> be64 header 24 = Inr tail \<and> header_blocks header = Inr 1 \<and>
     be32 header 12 = Inr (of_nat (length pay)) \<and> be32 header 40 = Inr (of_nat nops) \<and>
     check_record C header 1 (take (length pay) data) = Inr () \<and> unpack header 1 data (length pay) = Inr pay"

lemma encode_reads_as:
  assumes "max_payload (hd_iclog_size h) = Inr most" "length pay \<le> most" "length (sb_uuid sb) = 16"
  shows "\<exists>header data. encode_record C \<lparr>pl_block = hd_block h, pl_cycle = hd_cycle h, pl_prev_block = hd_prev_block h,
      pl_tail_lsn = tail, pl_uuid = sb_uuid sb, pl_iclog_size = hd_iclog_size h\<rparr> (of_nat nops) pay = Inr (header @ data) \<and>
    reads_as C sb header data (lsn_of h) tail nops pay"
proof -
  let ?p = "\<lparr>pl_block = hd_block h, pl_cycle = hd_cycle h, pl_prev_block = hd_prev_block h,
      pl_tail_lsn = tail, pl_uuid = sb_uuid sb, pl_iclog_size = hd_iclog_size h\<rparr>"
  have "max_payload (pl_iclog_size ?p) = Inr most" "length (pl_uuid ?p) = 16" using assms by simp_all
  from record_reads_back [OF this(1) assms(2) this(2), of C "of_nat nops"] obtain header data where
    "encode_record C ?p (of_nat nops) pay = Inr (header @ data)" "reads_as C sb header data (lsn_of h) tail nops pay"
    by (auto simp: reads_as_def is_header_def lsn_of_def)
  then show ?thesis by blast
qed

definition group_fits :: "u32 \<Rightarrow> Op list \<times> nat \<Rightarrow> bool" where
  "group_fits tid gk \<longleftrightarrow> 0 < snd gk \<and> length (payload tid (fst gk)) \<le> (snd gk - 1) * BBSIZE \<and> (snd gk - 1) * BBSIZE < 2 ^ 32"

lemma length_resize [simp]: "length (resize b n) = n"
  by (simp add: resize_def)

lemma resize_grows: "length b \<le> n \<Longrightarrow> resize b n = b @ replicate (n - length b) 0"
  by (simp add: resize_def)

lemma div_ceil_whole: "0 < b \<Longrightarrow> div_ceil (a * b) b = a"
  by (simp add: div_ceil_def)

lemma record_blocks_for_log_fits:
  assumes "record_blocks_for_log tid g ic unit = Inr k"
  shows "group_fits tid (g, k)" "\<exists>most. max_payload ic = Inr most \<and> (k - 1) * BBSIZE \<le> most \<and> length (payload tid g) \<le> most"
proof -
  let ?a = "max (unat unit) BBSIZE"
  obtain most where most: "max_payload ic = Inr most" "length (payload tid g) \<le> most"
    and al: "?a mod BBSIZE = 0" and k: "k = div_ceil ((1 + div_ceil (length (payload tid g)) BBSIZE) * BBSIZE) ?a * ?a div BBSIZE"
    and le: "div_ceil ((1 + div_ceil (length (payload tid g)) BBSIZE) * BBSIZE) ?a * ?a \<le> unat ic"
    using assms by (auto simp: record_blocks_for_log_def record_blocks_def Let_def rbind_eq_Inr refuse_Inr)
  let ?L = "div_ceil ((1 + div_ceil (length (payload tid g)) BBSIZE) * BBSIZE) ?a * ?a"
  have pos: "0 < BBSIZE" "0 < ?a" by (simp_all add: BBSIZE_def)
  have "?L mod BBSIZE = 0" using al by (simp add: mod_mult_right_eq [symmetric])
  then have kL: "k * BBSIZE = ?L" unfolding k by (simp add: mod_eq_0_iff_dvd)
  have "(1 + div_ceil (length (payload tid g)) BBSIZE) * BBSIZE \<le> ?L" by (rule div_ceil_ge [OF pos(2)])
  then have "1 + div_ceil (length (payload tid g)) BBSIZE \<le> k"
    unfolding kL [symmetric] using pos(1) by (rule mult_right_le_imp_le)
  then have k1: "0 < k" "div_ceil (length (payload tid g)) BBSIZE \<le> k - 1" by simp_all
  have "length (payload tid g) \<le> div_ceil (length (payload tid g)) BBSIZE * BBSIZE" by (rule div_ceil_ge [OF pos(1)])
  also have "\<dots> \<le> (k - 1) * BBSIZE" using k1(2) by (rule mult_le_mono1)
  finally have fit: "length (payload tid g) \<le> (k - 1) * BBSIZE" .
  have m: "most = unat ic - BBSIZE" "unat ic \<le> XLOG_HEADER_CYCLE_SIZE" using most(1) by (auto simp: max_payload_def split: if_splits)
  have "(k - 1) * BBSIZE = k * BBSIZE - BBSIZE" by (simp add: diff_mult_distrib)
  moreover have "k * BBSIZE \<le> unat ic" "k * BBSIZE < 2 ^ 32" using le m(2) unfolding kL by (simp_all add: XLOG_HEADER_CYCLE_SIZE_def)
  ultimately have "(k - 1) * BBSIZE \<le> most" "(k - 1) * BBSIZE < 2 ^ 32" unfolding m(1) by linarith+
  then show "group_fits tid (g, k)" "\<exists>most. max_payload ic = Inr most \<and> (k - 1) * BBSIZE \<le> most \<and> length (payload tid g) \<le> most"
    using fit k1(1) most by (auto simp: group_fits_def)
qed

lemma mem_append:
  assumes k: "record_blocks_for_log tid g (hd_iclog_size h) (sb_logsunit sb) = Inr k" "k \<le> unat (hd_free_blocks h)"
    and al: "unat (hd_block h) mod (max (unat (sb_logsunit sb)) BBSIZE div BBSIZE) = 0" and uuid: "length (sb_uuid sb) = 16"
    and at: "unat (fsblock_offset sb (sb_logstart sb) + ucast (hd_block h) * of_nat BBSIZE) + k * BBSIZE \<le> length d"
  shows "\<exists>d'. append_at_with_tail C mem_device sb h tid g tail d = (d', Inr (lsn_of h))"
proof -
  obtain most where most: "max_payload (hd_iclog_size h) = Inr most" "(k - 1) * BBSIZE \<le> most" "length (payload tid g) \<le> most"
    using record_blocks_for_log_fits(2) [OF k(1)] by blast
  let ?pay = "resize (payload tid g) ((k - 1) * BBSIZE)"
  obtain header data where enc: "encode_record C \<lparr>pl_block = hd_block h, pl_cycle = hd_cycle h, pl_prev_block = hd_prev_block h,
      pl_tail_lsn = tail, pl_uuid = sb_uuid sb, pl_iclog_size = hd_iclog_size h\<rparr> (of_nat (length g)) ?pay = Inr (header @ data)"
    and rd: "reads_as C sb header data (lsn_of h) tail (length g) ?pay"
    using encode_reads_as [OF most(1) _ uuid, of ?pay C tail "length g"] most(2) by auto
  obtain j where j: "k = Suc j" using record_blocks_for_log_pos [OF k(1)] by (cases k) auto
  have "length (header @ data) = k * BBSIZE" using rd div_ceil_whole [of BBSIZE j] by (simp add: reads_as_def j BBSIZE_def)
  then have "mem_write d (fsblock_offset sb (sb_logstart sb) + ucast (hd_block h) * of_nat BBSIZE) (header @ data) =
      (blit d (unat (fsblock_offset sb (sb_logstart sb) + ucast (hd_block h) * of_nat BBSIZE)) (header @ data), Inr ())"
    using at by (intro mem_write_fits) simp
  then show ?thesis
    using most k al enc
    by (simp add: append_at_with_tail_def put_record_def sbind_def slift_def mem_device_def mem_flush_def)
qed

lemma sample_mem_commit:
  assumes b: "small_build build" and s: "mt_next_head s = Some h" "mt_writable s" "\<not> mt_write_failed s" "length (mt_device s) = 8192" "\<not> overlay_full s"
    and h: "hd_iclog_size h = 32768" "\<not> wraps_first 2 (hd_free_blocks h) (transaction_id h)" "2 \<le> unat (hd_free_blocks h)"
      "unat (hd_block h) + 2 \<le> 8"
  shows "\<exists>d. length d = 8192 \<and> commit_record sample_crc mem_device sample_log_sb build s =
    (remember (advance h 2) (lsn_of h) (s\<lparr>mt_device := d\<rparr>), Inr (lsn_of h))"
proof -
  let ?tid = "transaction_id h" and ?tail = "tail_for h (mt_oldest_record s)"
  have len: "record_blocks_for_log ?tid (build ?tid) 32768 0 = Inr 2" using b by (simp add: small_build_def)
  have sb: "sb_logsunit sample_log_sb = 0" "length (sb_uuid sample_log_sb) = 16" by (simp_all add: sample_log_sb_def sample_sb_def)
  have at: "unat (2560 + ucast (hd_block h) * of_nat BBSIZE :: u64) = 2560 + unat (hd_block h) * BBSIZE"
    using log_address [of 2560 8 "hd_block h"] h(4) by (simp add: BBSIZE_def)
  have "\<exists>d'. append_at_with_tail sample_crc mem_device sample_log_sb h ?tid (build ?tid) ?tail (mt_device s) = (d', Inr (lsn_of h))"
    using len h s(4) sb at by (intro mem_append [where k = 2]) (simp_all add: sample_log(2) BBSIZE_def)
  then obtain d where d: "append_at_with_tail sample_crc mem_device sample_log_sb h ?tid (build ?tid) ?tail (mt_device s) = (d, Inr (lsn_of h))"
    by blast
  have "same_bytes 0 0 (fst (append_at_with_tail sample_crc mem_device sample_log_sb h ?tid (build ?tid) ?tail (mt_device s))) (mt_device s)"
    by (rule same_bytes_append(1) [OF mem_frames]) (simp_all add: same_bytes_def)
  then have "length d = 8192" using d s(4) by (simp add: same_bytes_def)
  moreover have "commit_record sample_crc mem_device sample_log_sb build s =
      (remember (advance h 2) (lsn_of h) (s\<lparr>mt_device := d\<rparr>), Inr (lsn_of h))"
    unfolding sample_commit [OF b s(1-3) h(1,2)]
    using d h(3) s(5) by (simp add: write_checkpoint_def sbind_def slift_def smodify_def or_stop_writing_def on_device_def push_if_dirty_def
        overlay_full_def remember_def split: option.splits)
  ultimately show ?thesis by blast
qed

text \<open>A mount two blocks into the ring: the first commit is remembered as the tail, and the second keeps it.\<close>

lemma sample_not_wrapped: "\<not> wraps_first 2 6 t" "\<not> wraps_first 2 4 t"
  by (simp_all add: wraps_first_def pad_ops_sizes div_ceil_def BBSIZE_def)

lemma tail_behind_head_witness:
  "\<exists>s1 s2. commit_record sample_crc mem_device sample_log_sb pad_ops ((fresh_mount (replicate 8192 0))\<lparr>mt_next_head := Some sample_head\<rparr>) =
      (s1, Inr (lsn_of sample_head)) \<and> mt_oldest_record s1 = Some (lsn_of sample_head) \<and>
    commit_record sample_crc mem_device sample_log_sb pad_ops s1 = (s2, Inr (lsn_of (advance sample_head 2))) \<and>
    mt_oldest_record s2 = Some (lsn_of sample_head)"
proof -
  define z :: bytes where "z = replicate 8192 0"
  let ?s = "(fresh_mount z)\<lparr>mt_next_head := Some sample_head\<rparr>" and ?h = "advance sample_head 2"
  have not_full: "\<not> overlay_full s" if "mt_overlay s = Some []" for s :: "bytes Mount"
    using that by (simp add: overlay_full_def overlay_bytes_def MAX_DIRTY_BYTES_def)
  obtain d where d: "length d = 8192" and one: "commit_record sample_crc mem_device sample_log_sb pad_ops ?s =
      (remember ?h (lsn_of sample_head) (?s\<lparr>mt_device := d\<rparr>), Inr (lsn_of sample_head))"
    using sample_mem_commit [OF pad_small, of ?s sample_head] not_full [of ?s] sample_not_wrapped by (auto simp: fresh_mount_def z_def sample_head_def)
  let ?s1 = "remember ?h (lsn_of sample_head) (?s\<lparr>mt_device := d\<rparr>)"
  obtain d' where two: "commit_record sample_crc mem_device sample_log_sb pad_ops ?s1 =
      (remember (advance ?h 2) (lsn_of ?h) (?s1\<lparr>mt_device := d'\<rparr>), Inr (lsn_of ?h))"
    using sample_mem_commit [OF pad_small, of ?s1 ?h] not_full [of ?s1] sample_not_wrapped d by (auto simp: fresh_mount_def sample_head_def advance_def remember_def)
  have hist: "(mount_step sample_crc mem_device sample_log_sb)\<^sup>*\<^sup>* ?s ?s1"
    using commits [OF one] by (intro r_into_rtranclp) simp
  have "BBSIZE \<le> unat (4096 :: u64)" "unat (4096 :: u64) div BBSIZE < 2 ^ 32"
    "\<forall>h. mt_next_head ?s = Some h \<longrightarrow> unat (hd_block h) + unat (hd_free_blocks h) = unat (4096 :: u64) div BBSIZE" "mt_oldest_record ?s = None"
    by (simp_all add: BBSIZE_def fresh_mount_def sample_head_def)
  note start = this
  have "mt_oldest_record ?s1 = Some (lsn_of sample_head)"
    using tail_behind_head [OF rtranclp.rtrancl_refl start(3,4) sample_log(1) start(1,2) one] not_full [of ?s]
    by (simp add: head_known_def fresh_mount_def remember_def)
  moreover have "mt_oldest_record (remember (advance ?h 2) (lsn_of ?h) (?s1\<lparr>mt_device := d'\<rparr>)) = Some (lsn_of sample_head)"
    using tail_behind_head [OF hist start(3,4) sample_log(1) start(1,2) two] not_full [of ?s1] calculation
    by (simp add: fresh_mount_def remember_def)
  ultimately show ?thesis using one two unfolding z_def by blast
qed

text \<open>The ring full, with a buffer logged: the next commit starts it again, after the push.\<close>

lemma commit_keeps_older_records_witness:
  "(\<exists>s'. fst (commit_record sample_crc mem_device sample_log_sb pad_ops
       ((fresh_mount (replicate 8192 9))\<lparr>mt_next_head := Some sample_head\<rparr>)) = s' \<and>
     same_bytes 2560 3584 (mt_device s') (replicate 8192 9)) \<and>
   (\<exists>s'. fst (commit_record sample_crc mem_device sample_log_sb pad_ops
       ((fresh_mount (replicate 8192 9))\<lparr>mt_next_head := Some (sample_head\<lparr>hd_block := 8, hd_free_blocks := 0\<rparr>),
          mt_overlay := Some [(0, replicate 512 7)]\<rparr>)) = s' \<and> mt_wraps s' = 1 \<and> mt_overlay s' = Some [])"
proof (rule conjI)
  define d :: bytes where "d = replicate 8192 9"
  have log: "unat (2560 :: u64) + unat (4096 :: u64) < 2 ^ 64" "8 = unat (4096 :: u64) div BBSIZE" "(8 :: nat) < 2 ^ 32" by (simp_all add: BBSIZE_def)
  note keeps = commit_keeps_older_records [OF mem_frames sample_log(1) log]
  let ?s = "(fresh_mount d)\<lparr>mt_next_head := Some sample_head\<rparr>"
  obtain s' r where run: "commit_record sample_crc mem_device sample_log_sb pad_ops ?s = (s', r)" by fastforce
  have "commit_record sample_crc mem_device sample_log_sb pad_ops ?s =
      write_checkpoint sample_crc mem_device sample_log_sb (transaction_id sample_head) [pad_ops (transaction_id sample_head)] [2] 2 sample_head ?s"
    using sample_not_wrapped by (intro sample_commit [OF pad_small]) (simp_all add: fresh_mount_def sample_head_def)
  note w = valid_case [OF wraps_kept [where w = 0] _ trans [OF this [symmetric] run]]
  have wraps: "mt_wraps s' = mt_wraps ?s" using w by (simp add: fresh_mount_def split: sum.splits)
  have "head_known mem_device sample_log_sb ?s = Inr sample_head" "unat (hd_block sample_head) + unat (hd_free_blocks sample_head) = 8"
    "homes_outside 2560 8 ?s"
    by (simp_all add: head_known_def fresh_mount_def sample_head_def homes_outside_def)
  from keeps [OF this run] have "same_bytes 2560 3584 (mt_device s') d"
    using wraps by (simp add: fresh_mount_def sample_head_def BBSIZE_def)
  then show "\<exists>s'. fst (commit_record sample_crc mem_device sample_log_sb pad_ops
       ((fresh_mount (replicate 8192 9))\<lparr>mt_next_head := Some sample_head\<rparr>)) = s' \<and> same_bytes 2560 3584 (mt_device s') (replicate 8192 9)"
    using run by (simp add: d_def)
  let ?h = "sample_head\<lparr>hd_block := 8, hd_free_blocks := 0\<rparr>"
  let ?t = "(fresh_mount d)\<lparr>mt_next_head := Some ?h, mt_overlay := Some [(0, replicate 512 7)]\<rparr>"
  obtain t' r' where run': "commit_record sample_crc mem_device sample_log_sb pad_ops ?t = (t', r')" by fastforce
  have "mem_write d 0 (replicate 512 7) = (blit d 0 (replicate 512 7), Inr ())" using mem_write_fits [of 0 "replicate 512 7" d] by (simp add: d_def)
  then obtain t1 where t1: "sync mem_device ?t = (t1, Inr ())" "mt_wraps t1 = 0"
    by (simp add: sync_def sbind_def writable_device_def or_stop_writing_def push_overlay_def push_def smodify_def fresh_mount_def mem_device_def mem_flush_def)
  have "mt_next_head ?t = Some ?h" "mt_writable ?t" "\<not> mt_write_failed ?t" "hd_iclog_size ?h = 32768" "hd_free_blocks ?h = 0" "hd_cycle ?h \<noteq> - 1"
    by (simp_all add: fresh_mount_def sample_head_def)
  note full = sample_full_ring [OF pad_small this t1(1), of sample_crc]
  have "mt_wraps (mt_wraps_update Suc t1) = 1" using t1(2) by simp
  from valid_case [OF wraps_kept this trans [OF full [symmetric] run']] have wraps': "mt_wraps t' = 1" by (simp split: sum.splits)
  have "head_known mem_device sample_log_sb ?t = Inr ?h" "unat (hd_block ?h) + unat (hd_free_blocks ?h) = 8" "homes_outside 2560 8 ?t"
    by (simp_all add: head_known_def fresh_mount_def homes_outside_def)
  from keeps [OF this run'] have "mt_overlay t' = Some []" using wraps' by (simp add: fresh_mount_def split: if_splits)
  with wraps' run' show "\<exists>s'. fst (commit_record sample_crc mem_device sample_log_sb pad_ops
       ((fresh_mount (replicate 8192 9))\<lparr>mt_next_head := Some (sample_head\<lparr>hd_block := 8, hd_free_blocks := 0\<rparr>),
          mt_overlay := Some [(0, replicate 512 7)]\<rparr>)) = s' \<and> mt_wraps s' = 1 \<and> mt_overlay s' = Some []"
    by (simp add: d_def)
qed

text \<open>A device whose writes fail.\<close>

lemma failing_append:
  assumes k: "record_blocks_for_log tid g (hd_iclog_size h) (sb_logsunit sb) = Inr k" "k \<le> unat (hd_free_blocks h)"
    and al: "unat (hd_block h) mod (max (unat (sb_logsunit sb)) BBSIZE div BBSIZE) = 0" and uuid: "length (sb_uuid sb) = 16"
    and bad: "\<And>at b. dv_write D d at b = (d', Inl e)"
  shows "append_at_with_tail C D sb h tid g tail d = (d', Inl e)"
proof -
  obtain most where most: "max_payload (hd_iclog_size h) = Inr most" "(k - 1) * BBSIZE \<le> most" "length (payload tid g) \<le> most"
    using record_blocks_for_log_fits(2) [OF k(1)] by blast
  obtain bytes where "encode_record C \<lparr>pl_block = hd_block h, pl_cycle = hd_cycle h, pl_prev_block = hd_prev_block h,
      pl_tail_lsn = tail, pl_uuid = sb_uuid sb, pl_iclog_size = hd_iclog_size h\<rparr> (of_nat (length g)) (resize (payload tid g) ((k - 1) * BBSIZE)) = Inr bytes"
    using encode_reads_as [OF most(1) _ uuid, of "resize (payload tid g) ((k - 1) * BBSIZE)" C tail "length g"] most(2) by auto
  then show ?thesis
    using most k al bad by (simp add: append_at_with_tail_def put_record_def sbind_def slift_def)
qed

definition broken_device :: "bytes Device" where
  "broken_device = mem_device\<lparr>dv_write := \<lambda>d at b. (d, Inl (Io ''gone''))\<rparr>"

lemma failed_commit_stops_witness:
  "\<exists>s'. commit_record sample_crc (watched broken_device) sample_log_sb pad_ops
      ((fresh_mount \<lparr>wt_device = [], wt_failed = False, wt_after = False\<rparr>)\<lparr>mt_next_head := Some sample_head\<rparr>) = (s', Inl (Io ''gone'')) \<and>
    wt_failed (mt_device s') \<and> \<not> wt_after (mt_device s') \<and>
    sync (watched broken_device) s' = (s', Inl (Io ''this mount stopped writing after a log write failed''))"
proof -
  let ?w = "\<lparr>wt_device = [], wt_failed = False, wt_after = False\<rparr> :: bytes Watched" and ?D = "watched broken_device"
  let ?s = "(fresh_mount ?w)\<lparr>mt_next_head := Some sample_head\<rparr>" and ?tid = "transaction_id sample_head"
  have len: "record_blocks_for_log ?tid (pad_ops ?tid) 32768 0 = Inr 2"
    by (simp add: record_blocks_for_log_def record_blocks_def max_payload_def pad_ops_sizes XLOG_HEADER_CYCLE_SIZE_def BBSIZE_def div_ceil_def Let_def)
  have sb: "sb_logsunit sample_log_sb = 0" "length (sb_uuid sample_log_sb) = 16" by (simp_all add: sample_log_sb_def sample_sb_def)
  have h: "hd_iclog_size sample_head = 32768" "hd_free_blocks sample_head = 6" "hd_block sample_head = 2" by (simp_all add: sample_head_def)
  have "dv_write ?D ?w at b = (?w\<lparr>wt_failed := True\<rparr>, Inl (Io ''gone''))" for at b
    by (simp add: watched_def watch_def broken_device_def)
  then have ap: "append_at_with_tail sample_crc ?D sample_log_sb sample_head ?tid (pad_ops ?tid) t ?w = (?w\<lparr>wt_failed := True\<rparr>, Inl (Io ''gone''))" for t
    using len sb h by (intro failing_append [where k = 2]) (simp_all add: BBSIZE_def)
  have "commit_record sample_crc ?D sample_log_sb pad_ops ?s =
      write_checkpoint sample_crc ?D sample_log_sb ?tid [pad_ops ?tid] [2] 2 sample_head ?s"
    using sample_not_wrapped h by (intro sample_commit [OF pad_small]) (simp_all add: fresh_mount_def)
  also have "\<dots> = (?s\<lparr>mt_device := ?w\<lparr>wt_failed := True\<rparr>, mt_write_failed := True\<rparr>, Inl (Io ''gone''))"
    using ap h by (simp add: write_checkpoint_def sbind_def or_stop_writing_def on_device_def fresh_mount_def)
  finally have run: "commit_record sample_crc ?D sample_log_sb pad_ops ?s =
      (?s\<lparr>mt_device := ?w\<lparr>wt_failed := True\<rparr>, mt_write_failed := True\<rparr>, Inl (Io ''gone''))" .
  from failed_commit_stops [OF run] run show ?thesis by (simp add: fresh_mount_def)
qed

end
