(* ===== verification/BufReplay.thy ===== *)
theory BufReplay
  imports LogReplay
begin

unbundle bit_operations_syntax

text \<open>
  A buffer logged and replayed: the item \<^verbatim>\<open>group_write::changed_chunks\<close> builds from a block before and
  after a change, the operations it contributes, and recovery's application of them to the block the
  log found.
\<close>

section \<open>Runs of chunks\<close>

definition in_run :: "nat \<times> nat \<Rightarrow> nat \<Rightarrow> bool" where
  "in_run r k \<longleftrightarrow> fst r \<le> k \<and> k < fst r + snd r"

lemma run_end_spec: "c \<le> n \<Longrightarrow> run_end p n c \<le> n \<and> (\<forall>k. c \<le> k \<and> k < run_end p n c \<longrightarrow> p k)"
proof (induction p n c rule: run_end.induct)
  case (1 p n c)
  show ?case
  proof (cases "c < n \<and> p c")
    case True
    then have "run_end p n c = run_end p n (c + 1)" by (subst run_end.simps) simp
    moreover have "run_end p n (c + 1) \<le> n" "\<forall>k. c + 1 \<le> k \<and> k < run_end p n (c + 1) \<longrightarrow> p k" using "1.IH" True by auto
    ultimately show ?thesis using True by (metis Suc_eq_plus1 Suc_leI le_eq_less_or_eq)
  next
    case False
    then have "run_end p n c = c" by (subst run_end.simps) auto
    then show ?thesis using "1.prems" by auto
  qed
qed

lemma runs_from_bounds: "\<forall>r \<in> set (runs_from p n c). c \<le> fst r \<and> 0 < snd r \<and> fst r + snd r \<le> n"
proof (induction p n c rule: runs_from.induct)
  case (1 p n c)
  show ?case
  proof (cases "n \<le> c")
    case True
    then show ?thesis by (simp add: runs_from.simps)
  next
    case False
    show ?thesis
    proof (cases "p c")
      case True
      have e: "c < run_end p n c" "run_end p n c \<le> n" using run_end_gt [of c n p] run_end_spec [of c n p] False True by auto
      then show ?thesis using "1.IH"(2) False True by (subst runs_from.simps) fastforce
    next
      case np: False
      then show ?thesis using "1.IH"(1) False by (subst runs_from.simps) fastforce
    qed
  qed
qed

lemma runs_from_covers: "(\<exists>r \<in> set (runs_from p n c). in_run r k) \<longleftrightarrow> c \<le> k \<and> k < n \<and> p k"
proof (induction p n c rule: runs_from.induct)
  case (1 p n c)
  show ?case
  proof (cases "n \<le> c")
    case True
    then show ?thesis by (simp add: runs_from.simps)
  next
    case False
    show ?thesis
    proof (cases "p c")
      case True
      let ?e = "run_end p n c"
      have e: "c < ?e" "?e \<le> n" "\<forall>k. c \<le> k \<and> k < ?e \<longrightarrow> p k"
        using run_end_gt [of c n p] run_end_spec [of c n p] False True by auto
      have "(\<exists>r \<in> set (runs_from p n c). in_run r k) \<longleftrightarrow> in_run (c, ?e - c) k \<or> ?e \<le> k \<and> k < n \<and> p k"
        using "1.IH"(2) False True by (subst runs_from.simps) simp
      then show ?thesis using e by (auto simp: in_run_def)
    next
      case np: False
      then have "(\<exists>r \<in> set (runs_from p n c). in_run r k) \<longleftrightarrow> c + 1 \<le> k \<and> k < n \<and> p k"
        using "1.IH"(1) False by (subst runs_from.simps) simp
      then show ?thesis using np by (auto simp: Suc_le_eq le_less)
    qed
  qed
qed

text \<open>The regions of the runs laid over a buffer: each byte of a covered chunk is the region's.\<close>

definition regions_of :: "bytes \<Rightarrow> (nat \<times> nat) list \<Rightarrow> bytes list" where
  "regions_of data runs = map (\<lambda>(s, l). take (l * BLF_CHUNK) (drop (s * BLF_CHUNK) data)) runs"

lemma run_ops_regions:
  assumes "\<forall>(s, l) \<in> set runs. (s + l) * BLF_CHUNK \<le> length data"
  shows "run_ops data runs = Inr (map (\<lambda>r. \<lparr>op_flags = 0, op_data = r\<rparr>) (regions_of data runs))"
  using assms
  by (induction data runs rule: run_ops.induct) (auto simp: regions_of_def slice_def add_mult_distrib)

lemma apply_runs_spec:
  assumes "\<forall>(s, l) \<in> set runs. (s + l) * BLF_CHUNK \<le> length data" "length buffer = length data"
  shows "\<exists>out. apply_runs runs (regions_of data runs) buffer = Inr out \<and> length out = length data \<and>
    (\<forall>i < length data. out ! i = (if \<exists>r \<in> set runs. in_run r (i div BLF_CHUNK) then data ! i else buffer ! i))"
  using assms
proof (induction runs arbitrary: buffer)
  case (Cons r runs)
  obtain s l where r: "r = (s, l)" by fastforce
  have pos: "0 < BLF_CHUNK" by (simp add: BLF_CHUNK_def)
  have fit: "s * BLF_CHUNK + l * BLF_CHUNK \<le> length data" using Cons.prems(1) by (auto simp: r add_mult_distrib)
  let ?reg = "take (l * BLF_CHUNK) (drop (s * BLF_CHUNK) data)"
  let ?b = "blit buffer (s * BLF_CHUNK) ?reg"
  have lr: "length ?reg = l * BLF_CHUNK" using fit by simp
  have lb: "length ?b = length data" using fit Cons.prems(2) lr by simp
  have step: "apply_runs (r # runs) (regions_of data (r # runs)) buffer = apply_runs runs (regions_of data runs) ?b"
    using fit Cons.prems(2) lr by (simp add: r regions_of_def put_def Let_def min_def)
  have inr: "in_run r (i div BLF_CHUNK) \<longleftrightarrow> s * BLF_CHUNK \<le> i \<and> i < s * BLF_CHUNK + l * BLF_CHUNK" for i
    using pos by (simp add: in_run_def r less_eq_div_iff_mult_less_eq div_less_iff_less_mult distrib_left mult.commute)
  have b: "?b ! i = (if in_run r (i div BLF_CHUNK) then data ! i else buffer ! i)" if "i < length data" for i
    using that fit Cons.prems(2) lr by (auto simp: inr nth_blit)
  obtain out where out: "apply_runs runs (regions_of data runs) ?b = Inr out" "length out = length data"
    "\<forall>i < length data. out ! i = (if \<exists>r \<in> set runs. in_run r (i div BLF_CHUNK) then data ! i else ?b ! i)"
    using Cons.IH [OF _ lb] Cons.prems(1) by auto
  show ?case unfolding step using out b by auto
qed (simp add: regions_of_def)

section \<open>Marking what changed\<close>

lemma bit_set_bit: "bit_set ws c \<longleftrightarrow> c div 32 < length ws \<and> bit (ws ! (c div 32)) (c mod 32)"
  by (simp add: bit_set_def bit_iff_and_push_bit_not_eq_0)

lemma bit_set_update:
  assumes "c div 32 < length ws"
  shows "bit_set (ws[c div 32 := ws ! (c div 32) OR push_bit (c mod 32) 1]) k \<longleftrightarrow> bit_set ws k \<or> k = c"
proof (cases "k div 32 = c div 32")
  case False
  then show ?thesis using assms by (auto simp: bit_set_bit)
next
  case True
  have "bit (push_bit (c mod 32) (1 :: u32)) (k mod 32) \<longleftrightarrow> k mod 32 = c mod 32"
    by (auto simp: bit_simps)
  moreover have "k = c \<longleftrightarrow> k mod 32 = c mod 32" using True by (metis div_mult_mod_eq)
  ultimately show ?thesis using assms True by (auto simp: bit_set_bit bit_or_iff simp del: push_bit_of_1)
qed

lemma set_chunks_spec:
  assumes "\<forall>c \<in> set cs. c div 32 < length dirty"
  shows "\<exists>dirty'. set_chunks dirty cs = Inr dirty' \<and> length dirty' = length dirty \<and>
    (\<forall>k. bit_set dirty' k \<longleftrightarrow> bit_set dirty k \<or> k \<in> set cs)"
  using assms
proof (induction cs arbitrary: dirty)
  case (Cons c cs)
  let ?d = "dirty[c div 32 := dirty ! (c div 32) OR push_bit (c mod 32) 1]"
  have "set_chunks dirty (c # cs) = set_chunks ?d cs" using Cons.prems by (simp add: CHUNKS_PER_WORD_def)
  moreover have "bit_set ?d k \<longleftrightarrow> bit_set dirty k \<or> k = c" for k using Cons.prems by (intro bit_set_update) simp
  ultimately show ?case using Cons.IH [of ?d] Cons.prems by auto
qed simp

definition chunk :: "bytes \<Rightarrow> nat \<Rightarrow> bytes" where
  "chunk b c = take BLF_CHUNK (drop (c * BLF_CHUNK) b)"

lemma mark_one:
  assumes "length (bi_data item) = m * BLF_CHUNK" "c < m" "m \<le> length (bi_dirty item) * 32"
  shows "\<exists>dirty'. bi_mark item (c * BLF_CHUNK) BLF_CHUNK = Inr (item\<lparr>bi_dirty := dirty'\<rparr>) \<and>
    length dirty' = length (bi_dirty item) \<and> (\<forall>k. bit_set dirty' k \<longleftrightarrow> bit_set (bi_dirty item) k \<or> k = c)"
proof -
  have fit: "c * BLF_CHUNK + BLF_CHUNK \<le> length (bi_data item)"
    using assms(1,2) mult_le_mono1 [of "Suc c" m BLF_CHUNK] by simp
  have "(c * BLF_CHUNK + BLF_CHUNK - 1) div BLF_CHUNK = c" by (simp add: BLF_CHUNK_def)
  then have "[c * BLF_CHUNK div BLF_CHUNK ..< Suc ((c * BLF_CHUNK + BLF_CHUNK - 1) div BLF_CHUNK)] = [c]"
    by (simp add: BLF_CHUNK_def)
  moreover have "c div 32 < length (bi_dirty item)" using assms(2,3) by (simp add: div_less_iff_less_mult)
  ultimately show ?thesis
    using fit set_chunks_spec [of "[c]" "bi_dirty item"] by (auto simp: bi_mark_def BLF_CHUNK_def simp del: set_chunks.simps)
qed

lemma mark_changed_spec:
  assumes "length before = m * BLF_CHUNK" "length (bi_data item) = m * BLF_CHUNK" "m \<le> length (bi_dirty item) * 32"
    "\<forall>c \<in> set cs. c < m"
  shows "\<exists>dirty'. mark_changed before cs item = Inr (item\<lparr>bi_dirty := dirty'\<rparr>) \<and> length dirty' = length (bi_dirty item) \<and>
    (\<forall>k. bit_set dirty' k \<longleftrightarrow> bit_set (bi_dirty item) k \<or> k \<in> set cs \<and> chunk before k \<noteq> chunk (bi_data item) k)"
  using assms
proof (induction cs arbitrary: item)
  case Nil
  then show ?case by (intro exI [of _ "bi_dirty item"]) simp
next
  case (Cons c cs)
  have c: "c < m" "c * BLF_CHUNK + BLF_CHUNK \<le> m * BLF_CHUNK"
    using Cons.prems(4) mult_le_mono1 [of "Suc c" m BLF_CHUNK] by auto
  have step: "mark_changed before (c # cs) item =
      rbind (if chunk before c \<noteq> chunk (bi_data item) c then bi_mark item (c * BLF_CHUNK) BLF_CHUNK else Inr item) (mark_changed before cs)"
    using c Cons.prems(1,2) by (simp add: slice_def chunk_def Let_def)
  show ?case
  proof (cases "chunk before c = chunk (bi_data item) c")
    case True
    then show ?thesis using Cons.IH [of item] Cons.prems unfolding step by auto
  next
    case False
    obtain d where d: "bi_mark item (c * BLF_CHUNK) BLF_CHUNK = Inr (item\<lparr>bi_dirty := d\<rparr>)" "length d = length (bi_dirty item)"
      "\<forall>k. bit_set d k \<longleftrightarrow> bit_set (bi_dirty item) k \<or> k = c"
      using mark_one [OF Cons.prems(2) c(1) Cons.prems(3)] by blast
    then show ?thesis using Cons.IH [of "item\<lparr>bi_dirty := d\<rparr>"] Cons.prems False unfolding step by auto
  qed
qed

text \<open>A block of whole basic blocks: its chunks, its bitmap.\<close>

lemma changed_chunks_spec:
  assumes "length before = length after" "length after = b * BBSIZE" "0 < b"
  shows "\<exists>dirty. changed_chunks blkno before after t =
      Inr \<lparr>bi_blkno = blkno, bi_buf_type = t, bi_flags = 0, bi_data = after, bi_dirty = dirty\<rparr> \<and>
    length dirty = div_ceil (b * 4) 32 \<and> (\<forall>k. bit_set dirty k \<longleftrightarrow> k < b * 4 \<and> chunk before k \<noteq> chunk after k)"
proof -
  let ?n = "div_ceil (b * 4) 32"
  have len: "length after = (b * 4) * BLF_CHUNK" using assms(2) by (simp add: BBSIZE_def BLF_CHUNK_def)
  have cc: "div_ceil (length after) BLF_CHUNK = b * 4" unfolding len by (simp add: div_ceil_def BLF_CHUNK_def)
  have new: "bi_new blkno after t 0 = Inr \<lparr>bi_blkno = blkno, bi_buf_type = t, bi_flags = 0, bi_data = after, bi_dirty = replicate ?n 0\<rparr>"
    using assms(2,3) cc by (auto simp: bi_new_def chunk_count_def CHUNKS_PER_WORD_def BBSIZE_def BLF_FLAG_MASK_def)
  have room: "b * 4 \<le> length (replicate ?n (0 :: u32)) * 32" using div_ceil_ge [of 32 "b * 4"] by simp
  have none: "\<not> bit_set (replicate ?n 0) k" for k by (simp add: bit_set_def)
  show ?thesis
    using mark_changed_spec [of before "b * 4" "\<lparr>bi_blkno = blkno, bi_buf_type = t, bi_flags = 0, bi_data = after,
        bi_dirty = replicate ?n 0\<rparr>" "[0..<b * 4]"] len room assms(1) none cc
    by (auto simp: changed_chunks_def new)
qed

section \<open>The format operation read back\<close>

interpretation word_codec: record_codec 4 "\<lambda>b at w. put b at (le_bytes32 w)" le32 "\<lambda>_. True" le_bytes32
proof unfold_locales
  fix b :: bytes and at :: nat and r :: u32
  show "at + 4 \<le> length b \<Longrightarrow> put b at (le_bytes32 r) = Inr (blit b at (le_bytes32 r))" by (simp add: put_def)
  show "length (le_bytes32 r) = 4" by simp
  show "at + 4 \<le> length b \<Longrightarrow> take 4 (drop at b) = le_bytes32 r \<Longrightarrow> le32 b at = Inr r" by (simp add: read_ok)
  show "at + 4 \<le> length b \<Longrightarrow> \<not> panics (le32 b at)" by (simp add: read_ok)
qed

definition item_flags :: "BufferItem \<Rightarrow> u16" where
  "item_flags item = bi_flags item OR push_bit BLF_TYPE_SHIFT (bi_buf_type item)"

lemma format_op_ok:
  assumes "1 + length runs < 65536" "length (bi_data item) div BBSIZE < 65536"
  shows "\<exists>f. format_op item runs = Inr f \<and> length f = 20 + 4 * length (bi_dirty item) \<and>
    take 2 f = le_bytes16 XFS_LI_BUF \<and> take 2 (drop 2 f) = le_bytes16 (of_nat (1 + length runs)) \<and>
    take 2 (drop 4 f) = le_bytes16 (item_flags item) \<and>
    take 2 (drop 6 f) = le_bytes16 (of_nat (length (bi_data item) div BBSIZE)) \<and>
    take 8 (drop 8 f) = le_bytes64 (bi_blkno item) \<and> take 4 (drop 16 f) = le_bytes32 (of_nat (length (bi_dirty item))) \<and>
    read_records le32 4 20 (length (bi_dirty item)) f = Inr (bi_dirty item)"
proof -
  let ?w = "length (bi_dirty item)"
  have same: "take 2 (blit b 0 s) = s" if "length s = 2" "2 \<le> length b" for b s
    using take_drop_blit_same [of 0 s b 2] that by simp
  have other: "take 2 (blit b at s) = take 2 b" if "2 \<le> at" "at + length s \<le> length b" for b s and at :: nat
    using take_drop_blit_other [of at s b 0 2] that by simp
  define v where "v = blit (blit (blit (blit (blit (blit (replicate (20 + 4 * ?w) 0) 0 (le_bytes16 XFS_LI_BUF))
    2 (le_bytes16 (of_nat (1 + length runs)))) 4 (le_bytes16 (item_flags item)))
    6 (le_bytes16 (of_nat (length (bi_data item) div BBSIZE)))) 8 (le_bytes64 (bi_blkno item))) 16 (le_bytes32 (of_nat ?w))"
  have lv: "length v = 20 + 4 * ?w" by (simp add: v_def)
  have "format_op item runs = write_records (\<lambda>b at w. put b at (le_bytes32 w)) 4 20 (bi_dirty item) v"
    using assms by (simp add: format_op_def Let_def put_fits BLF_HEADER_SIZE_def v_def item_flags_def)
  moreover obtain f where f: "write_records (\<lambda>b at w. put b at (le_bytes32 w)) 4 20 (bi_dirty item) v = Inr f"
    "length f = length v" "\<forall>i. i < length v \<and> (i < 20 \<or> 20 + 4 * ?w \<le> i) \<longrightarrow> f ! i = v ! i"
    using word_codec.write_records_ok [of 20 "bi_dirty item" v] lv by auto
  moreover have "read_records le32 4 20 ?w f = Inr (bi_dirty item)"
    using word_codec.read_write_records [of 20 "bi_dirty item" v] lv f(1) by simp
  moreover have keep: "take n (drop at f) = take n (drop at v)" if "at + n \<le> 20" for at n
    using f(2,3) lv that by (intro take_drop_cong) auto
  have "take 2 (drop 0 f) = take 2 (drop 0 v)" "take 2 (drop 2 f) = take 2 (drop 2 v)" "take 2 (drop 4 f) = take 2 (drop 4 v)"
    "take 2 (drop 6 f) = take 2 (drop 6 v)" "take 8 (drop 8 f) = take 8 (drop 8 v)" "take 4 (drop 16 f) = take 4 (drop 16 v)"
    by (rule keep, simp)+
  ultimately show ?thesis
    using lv by (simp add: v_def same other take_drop_blit_same take_drop_blit_other)
qed

text \<open>The operations an item contributes: its format, and a region for each run.\<close>

lemma bi_ops_ok:
  assumes "length (bi_data item) = b * BBSIZE" "b < 65536" "length (bi_dirty item) = div_ceil (b * 4) 32"
    "runs = runs_from (bit_set (bi_dirty item)) (b * 4) 0" "1 + length runs < 65536"
  shows "\<exists>f. format_op item runs = Inr f \<and>
    bi_ops item = Inr (\<lparr>op_flags = 0, op_data = f\<rparr> # map (\<lambda>r. \<lparr>op_flags = 0, op_data = r\<rparr>) (regions_of (bi_data item) runs))"
proof -
  have cc: "chunk_count (length (bi_data item)) = b * 4"
    by (simp add: chunk_count_def assms(1) div_ceil_def BBSIZE_def BLF_CHUNK_def)
  have "\<not> length (bi_dirty item) * CHUNKS_PER_WORD < b * 4"
    using div_ceil_ge [of 32 "b * 4"] by (simp add: assms(3) CHUNKS_PER_WORD_def)
  then have r: "bi_runs item = Inr runs" by (simp add: bi_runs_def cc assms(4) Let_def)
  obtain f where f: "format_op item runs = Inr f"
    using format_op_ok [OF assms(5), of item] assms(1,2) by (auto simp: BBSIZE_def)
  have "\<forall>(s, l) \<in> set runs. (s + l) * BLF_CHUNK \<le> length (bi_data item)"
    using runs_from_bounds [of "bit_set (bi_dirty item)" "b * 4" 0]
    by (auto simp: assms(1,4) BBSIZE_def BLF_CHUNK_def)
  then show ?thesis using r f by (simp add: bi_ops_def run_ops_regions)
qed

section \<open>Replaying what was logged\<close>

lemma apply_changed:
  assumes "length before = length after" "length after = b * BBSIZE" "length dirty = div_ceil (b * 4) 32"
    "\<forall>k. bit_set dirty k \<longleftrightarrow> k < b * 4 \<and> chunk before k \<noteq> chunk after k"
  shows "apply_runs (runs_of dirty (b * 4)) (regions_of after (runs_from (bit_set dirty) (b * 4) 0)) before = Inr after"
proof -
  let ?runs = "runs_from (bit_set dirty) (b * 4) 0"
  have "b * 4 \<le> length dirty * 32" using div_ceil_ge [of 32 "b * 4"] by (simp add: assms(3))
  then have runs: "runs_of dirty (b * 4) = ?runs" by (simp only: runs_of_def min_absorb2)
  have "\<forall>(s, l) \<in> set ?runs. (s + l) * BLF_CHUNK \<le> length after"
    using runs_from_bounds [of "bit_set dirty" "b * 4" 0] by (auto simp: assms(2) BBSIZE_def BLF_CHUNK_def)
  from apply_runs_spec [OF this assms(1)] obtain out where out:
    "apply_runs ?runs (regions_of after ?runs) before = Inr out" "length out = length after"
    "\<forall>i < length after. out ! i = (if \<exists>r \<in> set ?runs. in_run r (i div BLF_CHUNK) then after ! i else before ! i)" by blast
  have "out ! i = after ! i" if i: "i < length after" for i
  proof (cases "\<exists>r \<in> set ?runs. in_run r (i div BLF_CHUNK)")
    case True
    then show ?thesis using out(3) i by simp
  next
    case False
    let ?c = "i div BLF_CHUNK" and ?j = "i mod BLF_CHUNK"
    have c: "?c < b * 4" using i by (simp add: assms(2) BBSIZE_def BLF_CHUNK_def div_less_iff_less_mult)
    then have eq: "chunk before ?c = chunk after ?c" using False assms(4) by (auto simp: runs_from_covers)
    have j: "?j < BLF_CHUNK" "?c * BLF_CHUNK + ?j = i" by (simp_all add: BLF_CHUNK_def)
    have "chunk x ?c ! ?j = x ! i" if "i < length x" for x :: bytes
    proof -
      have "?c * BLF_CHUNK \<le> length x" using that j(2) by linarith
      then have "drop (?c * BLF_CHUNK) x ! ?j = x ! (?c * BLF_CHUNK + ?j)" by (rule nth_drop)
      then show ?thesis using j by (simp add: chunk_def)
    qed
    then have "before ! i = after ! i" using eq i assms(1) by metis
    then show ?thesis using out(3) i False by simp
  qed
  then have "out = after" using out(2) by (intro nth_equalityI) auto
  then show ?thesis using out(1) runs by simp
qed

text \<open>A block whose checksum the two sides put in the same place: not an inode cluster, not a v4 block-map
  node, and a superblock only when it is a v5 one.\<close>

definition stamped_alike :: "u16 \<Rightarrow> bytes \<Rightarrow> bool" where
  "stamped_alike t data \<longleftrightarrow> t < 32 \<and> t \<noteq> BLFT_DINO \<and>
     (t = BLFT_BTREE \<longrightarrow> from_be (take 4 data) \<noteq> XFS_BMAP_MAGIC) \<and>
     (t = BLFT_SB \<longrightarrow> 102 \<le> length data \<and> from_be (take 2 (drop 100 data)) AND XFS_SB_VERSION_NUMBITS = 5)"

lemmas blft_defs = BLFT_BTREE_def BLFT_AGF_def BLFT_AGFL_def BLFT_AGI_def BLFT_DINO_def BLFT_SYMLINK_def BLFT_DIR_BLOCK_def
  BLFT_DIR_DATA_def BLFT_DIR_FREE_def BLFT_DIR_LEAF1_def BLFT_DIR_LEAFN_def BLFT_DA_NODE_def BLFT_ATTR_LEAF_def BLFT_SB_def

lemma crc_places:
  assumes "stamped_alike t data"
  shows "stamp_crc_at t data = image_crc_at t data"
proof (cases "t = BLFT_BTREE \<or> t = BLFT_SB \<or> t = BLFT_DIR_FREE")
  case False
  then show ?thesis by (simp add: stamp_crc_at_def image_crc_at_def)
next
  case True
  then show ?thesis
  proof (elim disjE)
    assume t: "t = BLFT_BTREE"
    have "btree_is_long_form data = Inr (4 \<le> length data \<and> from_be (take 4 data) = XFS_BMAP_CRC_MAGIC)"
      using assms t by (auto simp: btree_is_long_form_def stamped_alike_def read_ok)
    then show ?thesis by (simp add: t stamp_crc_at_def image_crc_at_def blft_defs read_ok)
  next
    assume t: "t = BLFT_SB"
    then show ?thesis using assms by (simp add: stamp_crc_at_def image_crc_at_def stamped_alike_def blft_defs read_ok)
  qed (simp add: stamp_crc_at_def image_crc_at_def blft_defs)
qed

lemma image_is_stamp:
  assumes "is_v5 sb" "stamped_alike (bi_buf_type item) (bi_data item)"
  shows "stamp C sb (bi_buf_type item) (bi_data item) = image_as_written C item"
  using assms crc_places [OF assms(2)] by (simp add: stamp_def image_as_written_def stamped_alike_def)

lemma image_as_written_length:
  assumes "image_as_written C item = Inr img"
  shows "length img = length (bi_data item)"
  using assms by (auto simp: image_as_written_def rbind_eq_Inr put_Inr_iff split: option.splits if_splits)

lemma image_as_written_total:
  assumes "stamped_alike (bi_buf_type item) (bi_data item)"
  shows "\<exists>img. image_as_written C item = Inr img"
proof -
  have "\<exists>found. image_crc_at (bi_buf_type item) (bi_data item) = Inr found"
    using assms by (auto simp: image_crc_at_def stamped_alike_def read_ok)
  then show ?thesis
    by (auto simp: image_as_written_def crc32c_with_zeroed_crc_def put_def slice_def split: option.split)
qed

lemma format_op_Inr:
  "format_op item runs = Inr f \<Longrightarrow> 1 + length runs < 65536 \<and> length (bi_data item) div BBSIZE < 65536"
  by (auto simp: format_op_def Let_def rbind_eq_Inr refuse_Inr)


lemma buf_type_flags:
  assumes "t < 32"
  shows "drop_bit BLF_TYPE_SHIFT (push_bit BLF_TYPE_SHIFT t) = (t :: u16)"
    "push_bit BLF_TYPE_SHIFT t AND BLF_CANCEL = 0" "push_bit BLF_TYPE_SHIFT t AND BLF_INODE_BUF = 0"
proof -
  have t: "bit t n \<Longrightarrow> n < 5" for n
  proof -
    have "take_bit 5 t = t" using assms by (simp add: take_bit_eq_mod word_less_nat_alt word_unat_eq_iff unat_mod)
    then show "bit t n \<Longrightarrow> n < 5" by (metis bit_take_bit_iff)
  qed
  show "drop_bit BLF_TYPE_SHIFT (push_bit BLF_TYPE_SHIFT t) = t"
    by (rule bit_word_eqI) (use t in \<open>auto simp: bit_simps BLF_TYPE_SHIFT_def\<close>)
  show "push_bit BLF_TYPE_SHIFT t AND BLF_CANCEL = 0"
    by (rule bit_word_eqI) (auto simp: bit_simps BLF_TYPE_SHIFT_def BLF_CANCEL_def)
  show "push_bit BLF_TYPE_SHIFT t AND BLF_INODE_BUF = 0"
    by (rule bit_word_eqI) (auto simp: bit_simps BLF_TYPE_SHIFT_def BLF_INODE_BUF_def)
qed

lemma blkno_offset:
  assumes "unat (blkno :: u64) * BBSIZE < 2 ^ 64"
  shows "unat (blkno * of_nat BBSIZE) = unat blkno * BBSIZE"
  using assms by (simp add: unat_mult_lem BBSIZE_def unat_word_ariths)


text \<open>Recovery of one logged buffer, over any overlay that shows the block as it was before the change.\<close>

lemma replay_logged:
  assumes v5: "is_v5 sb" and t: "stamped_alike t after" and m: "mounted dev disk logged"
    and len: "length after = b * BBSIZE" "0 < b" "b < 65536" and room: "unat blkno * BBSIZE + length after \<le> length disk"
    and before: "before = take (length after) (drop (unat blkno * BBSIZE) (view disk logged))"
    and free: "cancelled (blkno, of_nat b) = None"
    and item: "item = \<lparr>bi_blkno = blkno, bi_buf_type = t, bi_flags = 0, bi_data = after, bi_dirty = dirty\<rparr>"
    and dirty: "length dirty = div_ceil (b * 4) 32" "\<forall>k. bit_set dirty k \<longleftrightarrow> k < b * 4 \<and> chunk before k \<noteq> chunk after k"
    and runs: "runs = runs_from (bit_set dirty) (b * 4) 0" "1 + length runs < 65536"
    and f: "format_op item runs = Inr f" and img: "image_as_written C item = Inr img"
    and w: "wrote dev logged (blkno * of_nat BBSIZE) img = Inr logged'"
  shows "apply_buffer C sb dev logged \<lparr>it_regions = f # regions_of after runs, it_total = n\<rparr> cancelled =
    Inr (True, logged', cancelled)"
proof -
  have m': "length disk < 2 ^ 64" using m by (simp add: mounted_def)
  have lb: "length before = length after" using before room by simp
  obtain F: "length f = 20 + 4 * length dirty" "take 2 (drop 4 f) = le_bytes16 (item_flags item)"
    "take 2 (drop 6 f) = le_bytes16 (of_nat b)" "take 8 (drop 8 f) = le_bytes64 blkno"
    "take 4 (drop 16 f) = le_bytes32 (of_nat (length dirty))" "read_records le32 4 20 (length dirty) f = Inr dirty"
    using format_op_ok [OF runs(2), of item] len f by (auto simp: item BBSIZE_def)
  have fl: "item_flags item = push_bit BLF_TYPE_SHIFT t" by (simp add: item_flags_def item)
  have t32: "t < 32" using t by (simp add: stamped_alike_def)
  have dw: "length dirty < 2 ^ 32" using dirty(1) len(3) div_ceil_le [of 32 "b * 4" "b * 4"] by simp
  have off: "unat (blkno * of_nat BBSIZE) = unat blkno * BBSIZE" using room m' len by (intro blkno_offset) (auto simp: BBSIZE_def)
  have rd: "overlay_read_at dev logged (blkno * of_nat BBSIZE) (b * BBSIZE) = Inr before"
    using overlay_read_view [OF m, of "blkno * of_nat BBSIZE" "b * BBSIZE"] room by (simp add: off before len(1))
  have ap: "apply_runs (runs_of dirty (b * 4)) (regions_of after runs) before = Inr after"
    using apply_changed [OF lb len(1) dirty] by (simp add: runs(1))
  have st: "stamp C sb t after = Inr img" using image_is_stamp [OF v5, of item C] t img by (simp add: item)
  have bw: "unat (of_nat b :: u16) = b" "(ucast (of_nat b :: u16) :: u32) = of_nat b" "(of_nat b :: u32) \<noteq> 0"
      "unat (of_nat b :: u32) = b"
    using len(2,3) by (auto simp: unat_of_nat word_unat_eq_iff unsigned_ucast_eq take_bit_nat_eq_self)
  have cc: "length before div BLF_CHUNK = b * 4" by (simp add: lb len(1) BBSIZE_def BLF_CHUNK_def)
  show ?thesis
    using F dw rd ap st w free buf_type_flags [OF t32] bw
    by (simp add: apply_buffer_def region0_def BLF_HEADER_SIZE_def read_ok fl Let_def is_cancelled_def cc unat_of_nat
        del: of_nat_mult)
qed


lemma changed_chunks_whole:
  assumes "changed_chunks blkno before after t = Inr item"
  shows "\<exists>b. length after = b * BBSIZE \<and> 0 < b \<and> length before = length after"
proof -
  have "length after mod BBSIZE = 0" "after \<noteq> []" "length before = length after"
    using assms by (auto simp: changed_chunks_def bi_new_def split: if_splits)
  moreover have "length after = length after div BBSIZE * BBSIZE" using calculation(1) div_mult_mod_eq [of "length after" BBSIZE] by linarith
  ultimately show ?thesis by (intro exI [of _ "length after div BBSIZE"]) (auto simp: BBSIZE_def div_greater_zero_iff dvd_imp_le)
qed

lemma bi_ops_Inr:
  assumes "bi_ops item = Inr ops" "length (bi_data item) = b * BBSIZE"
  shows "\<exists>f. format_op item (runs_from (bit_set (bi_dirty item)) (b * 4) 0) = Inr f"
proof -
  have "chunk_count (length (bi_data item)) = b * 4" by (simp add: assms(2) chunk_count_def div_ceil_def BBSIZE_def BLF_CHUNK_def)
  then show ?thesis using assms(1) by (auto simp: bi_ops_def bi_runs_def Let_def rbind_eq_Inr simp del: mult.commute split: if_splits)
qed

lemma logged_ops_ok:
  assumes "format_op item runs = Inr f" "1 + length runs < 65536" "length (bi_data item) div BBSIZE < 65536"
    "\<forall>r \<in> set (regions_of (bi_data item) runs). r \<noteq> []"
  shows "item_ops_ok (\<lparr>op_flags = 0, op_data = f\<rparr> # map (\<lambda>r. \<lparr>op_flags = 0, op_data = r\<rparr>) (regions_of (bi_data item) runs))"
proof -
  have F: "20 \<le> length f" "take 2 f = le_bytes16 XFS_LI_BUF" "take 2 (drop 2 f) = le_bytes16 (of_nat (1 + length runs))"
    using format_op_ok [OF assms(2,3)] assms(1) by auto
  have "take 4 f \<noteq> le_bytes32 XFS_TRANS_HEADER_MAGIC"
  proof
    assume "take 4 f = le_bytes32 XFS_TRANS_HEADER_MAGIC"
    then have "take 2 (take 4 f) = take 2 (le_bytes32 XFS_TRANS_HEADER_MAGIC)" by simp
    then show False using F(2) by (simp add: min_def) code_simp
  qed
  moreover have "unat (of_nat (1 + length runs) :: u16) = 1 + length runs"
    using assms(2) by (subst unat_of_nat) simp
  ultimately show ?thesis
    using F assms(4) by (auto simp: item_ops_ok_def regions_of_def simp del: of_nat_add of_nat_Suc)
qed


text \<open>C6. A buffer logged is the buffer recovery brings back: for a block of a v5 volume, the item built from
  its bytes before and after a change contributes operations which recovery, finding the block as it was,
  lays over it to give exactly the image the mount itself keeps, checksum included, and nothing else on the
  device changes.\<close>

theorem logged_buffer_replays:
  assumes "is_v5 sb" "stamped_alike t after" "mounted dev disk logged"
    and room: "unat blkno * BBSIZE + length after \<le> length disk"
    and before: "before = take (length after) (drop (unat blkno * BBSIZE) (view disk logged))"
    and item: "changed_chunks blkno before after t = Inr item" and ops: "bi_ops item = Inr ops"
    and free: "cancelled (blkno, of_nat (length after div BBSIZE)) = None"
  shows "item_ops_ok ops \<and> (\<exists>img logged'. image_as_written C item = Inr img \<and>
    apply_buffer C sb dev logged (item_of ops) cancelled = Inr (True, logged', cancelled) \<and>
    mounted dev disk logged' \<and> view disk logged' = blit (view disk logged) (unat blkno * BBSIZE) img)"
proof -
  obtain b where b: "length after = b * BBSIZE" "0 < b" "length before = length after"
    using changed_chunks_whole [OF item] by blast
  obtain dirty where it: "item = \<lparr>bi_blkno = blkno, bi_buf_type = t, bi_flags = 0, bi_data = after, bi_dirty = dirty\<rparr>"
    and d: "length dirty = div_ceil (b * 4) 32" "\<forall>k. bit_set dirty k \<longleftrightarrow> k < b * 4 \<and> chunk before k \<noteq> chunk after k"
    using changed_chunks_spec [OF b(3,1,2), of blkno t] item by auto
  define runs where "runs = runs_from (bit_set dirty) (b * 4) 0"
  have lim: "1 + length runs < 65536" "b < 65536"
    using bi_ops_Inr [OF ops, of b] format_op_Inr [of item runs] b(1) by (auto simp: it runs_def BBSIZE_def)
  obtain f where f: "format_op item runs = Inr f" and opsf:
    "ops = \<lparr>op_flags = 0, op_data = f\<rparr> # map (\<lambda>r. \<lparr>op_flags = 0, op_data = r\<rparr>) (regions_of after runs)"
    using bi_ops_ok [of item b runs] b(1) lim d(1) ops by (auto simp: it runs_def)
  have ne: "\<forall>r \<in> set (regions_of after runs). r \<noteq> []"
    using runs_from_bounds [of "bit_set dirty" "b * 4" 0] b(1)
    by (fastforce simp: regions_of_def runs_def BBSIZE_def BLF_CHUNK_def)
  obtain img where img: "image_as_written C item = Inr img" using image_as_written_total [of item] assms(2) by (auto simp: it)
  have lim2: "length img = length after" using image_as_written_length [OF img] by (simp add: it)
  have off: "unat (blkno * of_nat BBSIZE) = unat blkno * BBSIZE"
    using room assms(3) b by (intro blkno_offset) (auto simp: BBSIZE_def mounted_def)
  obtain logged' where w: "wrote dev logged (blkno * of_nat BBSIZE) img = Inr logged'" "mounted dev disk logged'"
    "view disk logged' = blit (view disk logged) (unat blkno * BBSIZE) img"
    using wrote_view [OF assms(3), of "blkno * of_nat BBSIZE" img] room by (auto simp: off lim2)
  have c: "cancelled (blkno, of_nat b) = None" using free b by (simp add: BBSIZE_def)
  have "item_of ops = \<lparr>it_regions = f # regions_of after runs, it_total = length ops\<rparr>"
    by (simp add: item_of_def opsf comp_def)
  then have "apply_buffer C sb dev logged (item_of ops) cancelled = Inr (True, logged', cancelled)"
    using replay_logged [where cancelled = cancelled, OF assms(1-3) b(1,2) lim(2) room before c it d runs_def lim(1) f img w(1)] by simp
  moreover have "item_ops_ok ops" using logged_ops_ok [OF f lim(1)] ne lim(2) b(1) by (simp add: opsf it BBSIZE_def)
  ultimately show ?thesis using img w by blast
qed


lemma runs_from_length: "length (runs_from p n c) \<le> n - c"
proof (induction p n c rule: runs_from.induct)
  case (1 p n c)
  show ?case
  proof (cases "n \<le> c \<or> \<not> p c")
    case True
    then show ?thesis using "1.IH"(1) by (subst runs_from.simps) fastforce
  next
    case False
    then show ?thesis using "1.IH"(2) run_end_gt [of c n p] run_end_spec [of c n p] by (subst runs_from.simps) fastforce
  qed
qed

lemma logged_buffer_replays_witness:
  "\<exists>item ops logged'. changed_chunks 1 (replicate 512 0) (replicate 512 7) BLFT_AGF = Inr item \<and> bi_ops item = Inr ops \<and>
     apply_buffer sample_crc (sample_sb\<lparr>sb_versionnum := 5\<rparr>) (read_image (replicate 2048 0)) [] (item_of ops) Map.empty = Inr (True, logged', Map.empty)"
proof -
  have m: "mounted (read_image (replicate 2048 0)) (replicate 2048 0) []"
    by (rule read_image_mounted) (simp_all add: BBSIZE_def)
  obtain item where item: "changed_chunks 1 (replicate 512 0) (replicate 512 7) BLFT_AGF = Inr item"
    "length (bi_data item) = 1 * BBSIZE" "length (bi_dirty item) = div_ceil (1 * 4) 32"
    using changed_chunks_spec [of "replicate 512 0" "replicate 512 7" 1 1 BLFT_AGF] by (auto simp: BBSIZE_def)
  have "length (runs_from (bit_set (bi_dirty item)) (1 * 4) 0) \<le> 4" using runs_from_length [of _ 4 0] by simp
  then obtain ops where ops: "bi_ops item = Inr ops" using bi_ops_ok [OF item(2) _ item(3)] by fastforce
  have "is_v5 (sample_sb\<lparr>sb_versionnum := 5\<rparr>)" "stamped_alike BLFT_AGF (replicate 512 7)"
    by (simp_all add: is_v5_def version_def sample_sb_def XFS_SB_VERSION_NUMBITS_def stamped_alike_def blft_defs)
  from logged_buffer_replays [OF this m _ _ item(1) ops, of Map.empty sample_crc] item(1) ops show ?thesis
    by (auto simp: BBSIZE_def)
qed

end
