(* ===== verification/Recovery.thy ===== *)
theory Recovery
  imports MountHistory BufReplay
begin

unbundle bit_operations_syntax

text \<open>
  The journal end to end: what \<^verbatim>\<open>commit_record\<close> puts on the device is what \<^verbatim>\<open>walk\<close> finds there.  The records
  of a checkpoint lie one after another in the ring, each with a header and a payload that read back, and
  recovery hands the transaction they carry to its visitor once, with the items it was committed with.
\<close>

section \<open>A record on the device\<close>

definition record_on :: "crc_crate \<Rightarrow> Superblock \<Rightarrow> bytes \<Rightarrow> u64 \<Rightarrow> nat \<Rightarrow> u64 \<Rightarrow> u64 \<Rightarrow> nat \<Rightarrow> bytes \<Rightarrow> bool" where
  "record_on C sb disk log_start b lsn tail nops pay \<longleftrightarrow>
     (\<exists>header data. reads_as C sb header data lsn tail nops pay \<and>
        take (length (header @ data)) (drop (unat log_start + b * BBSIZE) disk) = header @ data)"

lemma ring_read_plain:
  assumes "log_on dev disk log_start n" "at + count \<le> n" "0 < n"
  shows "ring_read dev log_start n at count = Inr (take (count * BBSIZE) (drop (unat log_start + at * BBSIZE) disk))"
proof (cases "count = 0")
  case True
  then show ?thesis using assms(3) by (simp add: ring_read_def ring_fill.simps)
next
  case False
  note on = assms(1) [unfolded log_on_def]
  have at: "at < n" using assms(2) False by simp
  have bnd: "unat log_start + at * BBSIZE + count * BBSIZE \<le> length disk"
  proof -
    have "(at + count) * BBSIZE \<le> n * BBSIZE" using assms(2) by (rule mult_le_mono1)
    then show ?thesis using on by (simp add: add_mult_distrib)
  qed
  have addr: "unat (log_start + of_nat (at * BBSIZE)) = unat log_start + at * BBSIZE"
    using bnd on unat_add_small [of log_start "of_nat (at * BBSIZE)"] by (simp add: unat_of_nat del: of_nat_mult)
  have m: "min ((n - at) * BBSIZE) (count * BBSIZE) = count * BBSIZE"
    using assms(2) by (intro min_absorb2 mult_le_mono1) simp
  have "dev (log_start + of_nat (at * BBSIZE)) (count * BBSIZE) = Inr (take (count * BBSIZE) (drop (unat log_start + at * BBSIZE) disk))"
    using on bnd by (simp add: serves_def addr del: of_nat_mult)
  moreover have "count * BBSIZE \<noteq> 0" using False by (simp add: BBSIZE_def)
  ultimately show ?thesis
    using at assms(2) m unfolding ring_read_def
    by (subst ring_fill.simps) (simp add: Let_def ring_fill.simps [of _ _ _ _ 0] del: of_nat_mult)
qed

lemma walk_record_on:
  assumes on: "log_on dev disk log_start n" and r: "record_on C sb disk log_start b lsn tail nops pay"
    and fit: "b + 1 + div_ceil (length pay) BBSIZE \<le> n" and small: "length pay < 2 ^ 32" "nops < 2 ^ 32"
  shows "walk_record C dev sb log_start n b visit fl v =
    rbind (read_ops visit pay 0 nops fl v) (\<lambda>(fl', v'). Inr (lsn, (b + 1 + div_ceil (length pay) BBSIZE) mod n, fl', v'))"
proof -
  let ?K = "div_ceil (length pay) BBSIZE"
  obtain header data where hd: "reads_as C sb header data lsn tail nops pay"
    and bytes: "take (length (header @ data)) (drop (unat log_start + b * BBSIZE) disk) = header @ data"
    using r by (auto simp: record_on_def)
  have len: "length header = BBSIZE" "length data = ?K * BBSIZE" using hd by (simp_all add: reads_as_def)
  have n: "0 < n" using fit by simp
  have "take BBSIZE (take (length (header @ data)) (drop (unat log_start + b * BBSIZE) disk)) = header"
    unfolding bytes by (simp add: len)
  then have h: "ring_read dev log_start n b 1 = Inr header"
    using ring_read_plain [OF on _ n, of b 1] fit len by (simp add: min_absorb1)
  have "drop BBSIZE (take (length (header @ data)) (drop (unat log_start + b * BBSIZE) disk)) = data"
    unfolding bytes by (simp add: len)
  then have d: "ring_read dev log_start n (b + 1) ?K = Inr data"
    using ring_read_plain [OF on _ n, of "b + 1" ?K] fit len by (simp add: drop_take add_ac)
  have "length pay \<le> length data" using len div_ceil_ge [of BBSIZE "length pay"] by (simp add: BBSIZE_def)
  then have sl: "slice data 0 (length pay) = Inr (take (length pay) data)" by (simp add: slice_def)
  have w: "unat (of_nat (length pay) :: u32) = length pay" "unat (of_nat nops :: u32) = nops"
    using small by (simp_all add: unat_of_nat)
  show ?thesis
    using hd h d sl unfolding walk_record_def reads_as_def by (simp add: w Let_def)
qed

section \<open>A checkpoint on the device\<close>

fun last_head :: "(Op list \<times> nat) list \<Rightarrow> Head \<Rightarrow> Head" where
  "last_head [] h = h"
| "last_head [_] h = h"
| "last_head ((_, k) # gs) h = last_head gs (advance h k)"

fun records_on :: "crc_crate \<Rightarrow> Superblock \<Rightarrow> bytes \<Rightarrow> u64 \<Rightarrow> u32 \<Rightarrow> u64 \<Rightarrow> (Op list \<times> nat) list \<Rightarrow> Head \<Rightarrow> bool" where
  "records_on C sb disk log_start tid tail [] h = True"
| "records_on C sb disk log_start tid tail ((g, k) # gs) h =
     (record_on C sb disk log_start (unat (hd_block h)) (lsn_of h) tail (length g) (resize (payload tid g) ((k - 1) * BBSIZE)) \<and>
      records_on C sb disk log_start tid tail gs (advance h k))"

lemma payload_bounds: "length g \<le> length (payload tid g)" "op \<in> set g \<Longrightarrow> length (op_data op) \<le> length (payload tid g)"
  by (induction g) (auto simp: OP_HEADER_SIZE_def)

text \<open>The step over one record of a checkpoint.\<close>

lemma walk_group:
  assumes "log_on dev disk log_start n" "record_on C sb disk log_start b lsn tail (length g) (resize (payload tid g) ((k - 1) * BBSIZE))"
    "group_fits tid (g, k)" "b + k \<le> n"
  shows "walk_record C dev sb log_start n b visit fl v =
    rbind (take_ops visit tid g fl v) (\<lambda>(fl', v'). Inr (lsn, (b + k) mod n, fl', v'))"
proof -
  note fit = assms(3) [unfolded group_fits_def fst_conv snd_conv]
  let ?pay = "resize (payload tid g) ((k - 1) * BBSIZE)"
  have K: "div_ceil (length ?pay) BBSIZE = k - 1" by (simp add: div_ceil_whole BBSIZE_def)
  have "length (op_data op) < 2 ^ 32" if "op \<in> set g" for op using payload_bounds(2) [OF that, of tid] fit by linarith
  then have ops: "\<forall>op \<in> set g. length (op_data op) < 2 ^ 32" "length g < 2 ^ 32"
    using payload_bounds(1) [of g tid] fit by auto
  have "read_ops visit ?pay 0 (length g) fl v = take_ops visit tid g fl v"
    using read_ops_payload [OF ops(1), of visit "[]" tid "replicate ((k - 1) * BBSIZE - length (payload tid g)) 0" fl v] fit
    by (simp add: resize_grows)
  then show ?thesis
    using walk_record_on [OF assms(1,2), of visit fl v] K fit assms(4) ops(2) by (simp add: Suc_pred')
qed

lemma last_head_block:
  assumes "sum_list (map snd gs) \<le> unat (hd_free_blocks h)" "unat (hd_block h) + unat (hd_free_blocks h) < 2 ^ 32" "gs \<noteq> []"
    "\<forall>gk \<in> set gs. 0 < snd gk"
  shows "unat (hd_block h) \<le> unat (hd_block (last_head gs h)) \<and>
    unat (hd_block (last_head gs h)) < unat (hd_block h) + sum_list (map snd gs)"
  using assms
proof (induction gs h rule: last_head.induct)
  case (3 g k g2 gs h)
  have adv: "grown h k (advance h k)" using "3.prems" by (intro grown_advance) auto
  then have "sum_list (map snd (g2 # gs)) \<le> unat (hd_free_blocks (advance h k))"
    using "3.prems"(1) by (simp add: grown_def le_diff_conv2)
  then show ?case using "3.IH" "3.prems" adv by (auto simp: grown_def)
qed auto

lemma walk_groups:
  assumes "log_on dev disk log_start n" "records_on C sb disk log_start tid tail gs h" "\<forall>gk \<in> set gs. group_fits tid gk"
    "unat (hd_block h) + unat (hd_free_blocks h) = n" "n < 2 ^ 32" "sum_list (map snd gs) \<le> unat (hd_free_blocks h)"
    "gs \<noteq> []" "records + length gs \<le> n"
  shows "walk_loop C dev sb log_start n (lsn_of (last_head gs h)) (unat (hd_block h)) records visit fl v =
    rbind (take_ops visit tid (concat (map fst gs)) fl v) (\<lambda>(_, v'). Inr (records + length gs, v'))"
  using assms(2-4,6-8)
proof (induction gs h arbitrary: records fl v rule: last_head.induct)
  case (2 g h)
  obtain ops k where g: "g = (ops, k)" by fastforce
  have "walk_record C dev sb log_start n (unat (hd_block h)) visit fl v =
      rbind (take_ops visit tid ops fl v) (\<lambda>(fl', v'). Inr (lsn_of h, (unat (hd_block h) + k) mod n, fl', v'))"
    using 2 by (intro walk_group [OF assms(1)]) (auto simp: g)
  then show ?case by (subst walk_loop.simps) (cases "take_ops visit tid ops fl v"; auto simp: g)
next
  case (3 g k g2 gs h)
  have adv: "grown h k (advance h k)" using "3.prems" assms(5) by (intro grown_advance) auto
  have k: "0 < k" and pos: "\<forall>gk \<in> set (g2 # gs). 0 < snd gk" using "3.prems"(2) by (auto simp: group_fits_def)
  have "walk_record C dev sb log_start n (unat (hd_block h)) visit fl v =
      rbind (take_ops visit tid g fl v) (\<lambda>(fl', v'). Inr (lsn_of h, (unat (hd_block h) + k) mod n, fl', v'))"
    using 3 by (intro walk_group [OF assms(1)]) auto
  moreover have "unat (hd_block (advance h k)) \<le> unat (hd_block (last_head (g2 # gs) (advance h k)))"
    using "3.prems" adv assms(5) pos by (intro conjunct1 [OF last_head_block]) (auto simp: grown_def)
  then have "lsn_of h \<noteq> lsn_of (last_head (g2 # gs) (advance h k))"
    using adv k by (auto simp: grown_def dest!: arg_cong [of _ _ lsn_block] simp: lsn_parts)
  moreover have "(unat (hd_block h) + k) mod n = unat (hd_block (advance h k))"
    using adv "3.prems" pos by (auto simp: grown_def)
  moreover have "walk_loop C dev sb log_start n (lsn_of (last_head (g2 # gs) (advance h k))) (unat (hd_block (advance h k))) (records + 1) visit fl' v' =
      rbind (take_ops visit tid (concat (map fst (g2 # gs))) fl' v') (\<lambda>(_, v''). Inr (records + 1 + length (g2 # gs), v''))" for fl' v'
    using "3.prems" adv by (intro "3.IH") (auto simp: grown_def)
  ultimately show ?case
    using "3.prems"(6) by (subst walk_loop.simps) (cases "take_ops visit tid g fl v"; auto simp: take_ops_append split: prod.splits)
qed simp


section \<open>What a commit stores\<close>

text \<open>A device that keeps what it is given: a write that succeeds puts its bytes where they belong, no write
  touches anything else, and a read serves what is there.\<close>

definition stores :: "'d Device \<Rightarrow> ('d \<Rightarrow> bytes) \<Rightarrow> bool" where
  "stores D img \<longleftrightarrow> frames D img \<and> (\<forall>d. serves (dv_read D d) (img d)) \<and>
     (\<forall>d at b d'. dv_write D d at b = (d', Inr ()) \<and> unat at + length b \<le> length (img d) \<longrightarrow> img d' = blit (img d) (unat at) b)"

lemma append_stores:
  assumes D: "stores D img" and uuid: "length (sb_uuid sb) = 16" and st: "log_start = fsblock_offset sb (sb_logstart sb)"
    and k: "record_blocks_for_log tid g (hd_iclog_size h) (sb_logsunit sb) = Inr k"
    and room: "unat (hd_block h) + k \<le> n" "unat log_start + n * BBSIZE \<le> length (img d)" "length (img d) < 2 ^ 64"
    and run: "append_at_with_tail C D sb h tid g tail d = (d', Inr lsn)"
  shows "lsn = lsn_of h \<and> length (img d') = length (img d) \<and>
    record_on C sb (img d') log_start (unat (hd_block h)) (lsn_of h) tail (length g) (resize (payload tid g) ((k - 1) * BBSIZE)) \<and>
    same_bytes 0 (unat log_start + unat (hd_block h) * BBSIZE) (img d') (img d)"
proof -
  let ?pay = "resize (payload tid g) ((k - 1) * BBSIZE)" and ?at = "log_start + ucast (hd_block h) * of_nat BBSIZE"
  obtain most where most: "max_payload (hd_iclog_size h) = Inr most" "(k - 1) * BBSIZE \<le> most" "length (payload tid g) \<le> most"
    using record_blocks_for_log_fits(2) [OF k] by blast
  obtain header data where enc: "encode_record C \<lparr>pl_block = hd_block h, pl_cycle = hd_cycle h, pl_prev_block = hd_prev_block h,
      pl_tail_lsn = tail, pl_uuid = sb_uuid sb, pl_iclog_size = hd_iclog_size h\<rparr> (of_nat (length g)) ?pay = Inr (header @ data)"
    and rd: "reads_as C sb header data (lsn_of h) tail (length g) ?pay"
    using encode_reads_as [OF most(1) _ uuid, of ?pay C tail "length g"] most(2) by auto
  obtain d1 where w: "dv_write D d ?at (header @ data) = (d1, Inr ())" and fl: "dv_flush D d1 = (d', Inr ())" and l: "lsn = lsn_of h"
    using run most k enc
    by (auto simp: append_at_with_tail_def put_record_def sbind_def slift_def st split: prod.splits sum.splits if_splits)
  have "0 < k" using record_blocks_for_log_pos [OF k] .
  then obtain j where j: "k = Suc j" by (cases k) auto
  have hd: "length (header @ data) = k * BBSIZE"
    using rd div_ceil_whole [of BBSIZE j] by (simp add: reads_as_def j BBSIZE_def)
  have fit: "unat log_start + n * BBSIZE < 2 ^ 64" using room(2,3) by simp
  have at: "unat ?at = unat log_start + unat (hd_block h) * BBSIZE" using room(1) by (intro log_address [OF fit]) simp
  have "(unat (hd_block h) + k) * BBSIZE \<le> n * BBSIZE" using room(1) by (rule mult_le_mono1)
  then have inside: "unat ?at + length (header @ data) \<le> length (img d)" using room(2) at hd by (simp add: add_mult_distrib)
  have "img d1 = blit (img d) (unat ?at) (header @ data)" using D w inside unfolding stores_def by blast
  moreover have "img (fst (dv_flush D d1)) = img d1" using D unfolding stores_def frames_def by blast
  ultimately have img: "img d' = blit (img d) (unat ?at) (header @ data)" by (simp add: fl)
  have "take (length (header @ data)) (drop (unat log_start + unat (hd_block h) * BBSIZE) (img d')) = header @ data"
    using inside unfolding img at by (intro take_drop_blit_same) auto
  then have "record_on C sb (img d') log_start (unat (hd_block h)) (lsn_of h) tail (length g) ?pay"
    using rd by (auto simp: record_on_def)
  moreover have "same_bytes 0 (unat log_start + unat (hd_block h) * BBSIZE) (img d') (img d)"
    using inside by (simp add: img same_bytes_def nth_blit at)
  ultimately show ?thesis using l inside by (simp add: img)
qed


lemma record_on_kept:
  assumes r: "record_on C sb disk log_start b lsn tail nops pay" and s: "same_bytes lo hi disk' disk" "lo \<le> unat log_start"
    and hi: "unat log_start + (b + 1 + div_ceil (length pay) BBSIZE) * BBSIZE \<le> hi" "hi \<le> length disk"
  shows "record_on C sb disk' log_start b lsn tail nops pay"
proof -
  obtain header data where hd: "reads_as C sb header data lsn tail nops pay"
    "take (length (header @ data)) (drop (unat log_start + b * BBSIZE) disk) = header @ data"
    using r by (auto simp: record_on_def)
  have len: "unat log_start + b * BBSIZE + length (header @ data) \<le> hi"
    using hd(1) hi(1) by (simp add: reads_as_def add_mult_distrib)
  have "take (length (header @ data)) (drop (unat log_start + b * BBSIZE) disk') =
      take (length (header @ data)) (drop (unat log_start + b * BBSIZE) disk)"
    using s len hi(2) by (intro take_drop_cong) (auto simp: same_bytes_def)
  then show ?thesis using hd by (auto simp: record_on_def)
qed

lemma same_bytes_trans: "same_bytes lo hi a b \<Longrightarrow> same_bytes lo hi' b c \<Longrightarrow> hi'' \<le> hi \<Longrightarrow> hi'' \<le> hi' \<Longrightarrow> same_bytes lo hi'' a c"
  by (simp add: same_bytes_def)

lemma or_stop_writing_Inr:
  "or_stop_writing (on_device m) s = (s', Inr x) \<longleftrightarrow> (\<exists>d. m (mt_device s) = (d, Inr x) \<and> s' = s\<lparr>mt_device := d\<rparr>)"
  by (auto simp: or_stop_writing_def on_device_def split: prod.splits sum.splits)

lemma append_groups_stores:
  assumes D: "stores D img" and uuid: "length (sb_uuid sb) = 16" and st: "log_start = fsblock_offset sb (sb_logstart sb)"
    and "\<forall>(g, k) \<in> set gs. record_blocks_for_log tid g (hd_iclog_size h) (sb_logsunit sb) = Inr k"
    and "sum_list (map snd gs) \<le> unat (hd_free_blocks h)" "unat (hd_block h) + unat (hd_free_blocks h) = n" and n: "n < 2 ^ 32"
    and "unat log_start + n * BBSIZE \<le> length (img (mt_device s))" "length (img (mt_device s)) < 2 ^ 64"
    and "append_groups C D sb tid tail gs h earliest lsn s = (s', Inr (h', f, l))"
  shows "length (img (mt_device s')) = length (img (mt_device s)) \<and>
    records_on C sb (img (mt_device s')) log_start tid tail gs h \<and>
    same_bytes 0 (unat log_start + unat (hd_block h) * BBSIZE) (img (mt_device s')) (img (mt_device s)) \<and>
    (gs \<noteq> [] \<longrightarrow> l = lsn_of (last_head gs h)) \<and> (gs = [] \<longrightarrow> l = lsn)"
  using assms(4-6,8-10)
proof (induction gs arbitrary: h earliest lsn s)
  case Nil
  then show ?case by (auto simp: slift_def same_bytes_def)
next
  case (Cons gk gs)
  obtain g k where gk: "gk = (g, k)" by fastforce
  have k: "record_blocks_for_log tid g (hd_iclog_size h) (sb_logsunit sb) = Inr k" using Cons.prems(1) by (simp add: gk)
  have adv: "grown h k (advance h k)" using Cons.prems(2,3) n by (intro grown_advance) (auto simp: gk)
  obtain d lsn' where run: "append_at_with_tail C D sb h tid g tail (mt_device s) = (d, Inr lsn')"
    and rest: "append_groups C D sb tid tail gs (advance h k) (case earliest of None \<Rightarrow> Some lsn' | Some f \<Rightarrow> Some f) lsn' (s\<lparr>mt_device := d\<rparr>) = (s', Inr (h', f, l))"
    using Cons.prems(6) by (auto simp: gk sbind_def or_stop_writing_Inr split: prod.splits sum.splits)
  have room: "unat (hd_block h) + k \<le> n" using Cons.prems(2,3) by (simp add: gk)
  note one = append_stores [OF D uuid st k room Cons.prems(4,5) run]
  have IH: "length (img (mt_device s')) = length (img d) \<and>
      records_on C sb (img (mt_device s')) log_start tid tail gs (advance h k) \<and>
      same_bytes 0 (unat log_start + unat (hd_block (advance h k)) * BBSIZE) (img (mt_device s')) (img d) \<and>
      (gs \<noteq> [] \<longrightarrow> l = lsn_of (last_head gs (advance h k))) \<and> (gs = [] \<longrightarrow> l = lsn')"
    using Cons.IH [OF _ _ _ _ _ rest] Cons.prems one adv by (auto simp: grown_def gk)
  have k0: "0 < k" using record_blocks_for_log_pos [OF k] .
  have up: "(unat (hd_block h) + k) * BBSIZE \<le> n * BBSIZE" using room by (rule mult_le_mono1)
  have blk: "unat (hd_block (advance h k)) = unat (hd_block h) + k" using adv by (simp add: grown_def)
  have K: "unat (hd_block h) + 1 + div_ceil (length (resize (payload tid g) ((k - 1) * BBSIZE))) BBSIZE = unat (hd_block h) + k"
    using k0 div_ceil_whole [of BBSIZE "k - 1"] by (simp add: BBSIZE_def)
  have "record_on C sb (img (mt_device s')) log_start (unat (hd_block h)) (lsn_of h) tail (length g) (resize (payload tid g) ((k - 1) * BBSIZE))"
  proof (rule record_on_kept)
    show "record_on C sb (img d) log_start (unat (hd_block h)) (lsn_of h) tail (length g) (resize (payload tid g) ((k - 1) * BBSIZE))"
      using one by blast
    show "same_bytes 0 (unat log_start + (unat (hd_block h) + k) * BBSIZE) (img (mt_device s')) (img d)"
      using IH unfolding blk by blast
    show "unat log_start + (unat (hd_block h) + k) * BBSIZE \<le> length (img d)" using up Cons.prems(4) one by linarith
  qed (simp_all only: K order_refl zero_le)
  moreover have "same_bytes 0 (unat log_start + unat (hd_block h) * BBSIZE) (img (mt_device s')) (img (mt_device s))"
  proof (rule same_bytes_trans)
    show "same_bytes 0 (unat log_start + (unat (hd_block h) + k) * BBSIZE) (img (mt_device s')) (img d)"
      using IH unfolding blk by blast
    show "same_bytes 0 (unat log_start + unat (hd_block h) * BBSIZE) (img d) (img (mt_device s))" using one by blast
  qed (simp_all add: add_mult_distrib)
  ultimately show ?case using IH one by (cases gs) (auto simp: gk)
qed


lemma records_on_kept:
  assumes "records_on C sb disk log_start tid tail gs h" "same_bytes lo hi disk' disk" "lo \<le> unat log_start" "hi \<le> length disk"
    "\<forall>gk \<in> set gs. group_fits tid gk" "unat (hd_block h) + unat (hd_free_blocks h) < 2 ^ 32" "sum_list (map snd gs) \<le> unat (hd_free_blocks h)"
    "unat log_start + (unat (hd_block h) + sum_list (map snd gs)) * BBSIZE \<le> hi"
  shows "records_on C sb disk' log_start tid tail gs h"
  using assms(1,5-)
proof (induction gs arbitrary: h)
  case (Cons gk gs)
  obtain g k where gk: "gk = (g, k)" by fastforce
  have adv: "grown h k (advance h k)" using Cons.prems by (intro grown_advance) (auto simp: gk)
  have k: "0 < k" using Cons.prems(2) by (auto simp: gk group_fits_def)
  have K: "unat (hd_block h) + 1 + div_ceil (length (resize (payload tid g) ((k - 1) * BBSIZE))) BBSIZE = unat (hd_block h) + k"
    using k div_ceil_whole [of BBSIZE "k - 1"] by (simp add: BBSIZE_def)
  have "(unat (hd_block h) + k) * BBSIZE \<le> (unat (hd_block h) + sum_list (map snd (gk # gs))) * BBSIZE" by (rule mult_le_mono1) (simp add: gk)
  then have up: "unat log_start + (unat (hd_block h) + k) * BBSIZE \<le> hi" using Cons.prems(5) by linarith
  have "record_on C sb disk' log_start (unat (hd_block h)) (lsn_of h) tail (length g) (resize (payload tid g) ((k - 1) * BBSIZE))"
    using Cons.prems(1) up by (intro record_on_kept [OF _ assms(2,3) _ assms(4)]) (simp_all only: K gk records_on.simps)
  moreover have "records_on C sb disk' log_start tid tail gs (advance h k)"
    using Cons.prems adv by (intro Cons.IH) (auto simp: gk grown_def add.assoc)
  ultimately show ?case by (simp add: gk)
qed simp

lemma last_record_on:
  assumes "records_on C sb disk log_start tid tail gs h" "gs \<noteq> []"
  shows "\<exists>nops pay. record_on C sb disk log_start (unat (hd_block (last_head gs h))) (lsn_of (last_head gs h)) tail nops pay"
  using assms by (induction gs h rule: last_head.induct) (auto, blast)

lemma record_on_block:
  assumes "record_on C sb disk log_start b lsn tail nops pay"
  shows "header_block_of sb (ring_block disk log_start b)" "lr_lsn (block_record b (ring_block disk log_start b)) = lsn"
    "be64 (lr_header (block_record b (ring_block disk log_start b))) 24 = Inr tail"
proof -
  obtain header data where r: "reads_as C sb header data lsn tail nops pay"
    "take (length (header @ data)) (drop (unat log_start + b * BBSIZE) disk) = header @ data"
    using assms by (auto simp: record_on_def)
  have len: "length header = BBSIZE" using r(1) by (simp add: reads_as_def)
  have "take BBSIZE (take (length (header @ data)) (drop (unat log_start + b * BBSIZE) disk)) = header" unfolding r(2) by (simp add: len)
  then have h: "ring_block disk log_start b = header" by (simp add: ring_block_def len)
  show "header_block_of sb (ring_block disk log_start b)" "lr_lsn (block_record b (ring_block disk log_start b)) = lsn"
    using r(1) block_reads [OF len] by (auto simp: h reads_as_def)
  have "lr_header (block_record b header) = header" by (auto simp: block_record_def record_of_def rbind_eq_Inr split: sum.splits)
  then show "be64 (lr_header (block_record b (ring_block disk log_start b))) 24 = Inr tail" using r(1) by (simp add: h reads_as_def)
qed

text \<open>The last step of a commit pushes buffers home, none of which is in the ring.\<close>

lemma push_if_dirty_ring:
  assumes D: "frames D img" and run: "push_if_dirty D s = (s', r)"
    and out: "\<forall>m. mt_overlay s = Some m \<longrightarrow> (\<forall>(at, b) \<in> set m. hi \<le> unat at \<or> unat at + length b \<le> lo)"
    and w: "mt_wraps s' = mt_wraps s"
  shows "same_bytes lo hi (img (mt_device s')) (img (mt_device s))"
proof -
  let ?K = "below_kept img lo hi (img (mt_device s)) (mt_wraps s)"
  have K: "?K s" using out by (simp add: below_kept_def same_bytes_def)
  have "valid ?K (push_if_dirty D) (\<lambda>_. ?K) (\<lambda>_. ?K)"
    using valid_sync_below [OF D] by (auto simp: valid_def push_if_dirty_def)
  from valid_case [OF this K run] have "?K s'" by (simp split: sum.splits)
  then show ?thesis using w by (simp add: below_kept_def)
qed

lemma checkpoint_stored:
  assumes D: "stores D img" and uuid: "length (sb_uuid sb) = 16" and st: "log_start = fsblock_offset sb (sb_logstart sb)"
    and n: "unat (hd_block h) + unat (hd_free_blocks h) = n" "n < 2 ^ 32"
    and disk: "unat log_start + n * BBSIZE \<le> length (img (mt_device s))" "length (img (mt_device s)) < 2 ^ 64"
    and out: "homes_outside log_start n s"
    and g: "groups \<noteq> []" "record_lengths tid groups (hd_iclog_size h) (sb_logsunit sb) = Inr lengths" "sum_lengths lengths 0 = Inr needed"
    and run: "write_checkpoint C D sb tid groups lengths needed h s = (s', Inr lsn)"
  shows "records_on C sb (img (mt_device s')) log_start tid (tail_for h (mt_oldest_record s)) (zip groups lengths) h \<and>
    lsn = lsn_of (last_head (zip groups lengths) h) \<and> sum_list (map snd (zip groups lengths)) \<le> unat (hd_free_blocks h) \<and>
    (\<forall>gk \<in> set (zip groups lengths). group_fits tid gk) \<and> length (img (mt_device s')) = length (img (mt_device s))"
proof -
  let ?gs = "zip groups lengths" and ?tail = "tail_for h (mt_oldest_record s)"
  have len: "length lengths = length groups" using record_lengths_Inr [OF g(2)] by simp
  have blocks: "\<forall>(g, k) \<in> set ?gs. record_blocks_for_log tid g (hd_iclog_size h) (sb_logsunit sb) = Inr k"
    using g(2) by (induction groups arbitrary: lengths) (auto simp: rbind_eq_Inr)
  have sum: "sum_list (map snd ?gs) \<le> unat (hd_free_blocks h)"
    using run sum_lengths_Inr [OF g(3)] len by (auto simp: write_checkpoint_def slift_def split: if_splits)
  obtain s1 at f where s1: "append_groups C D sb tid ?tail ?gs h None 0 s = (s1, Inr (at, Some f, lsn))"
    and fin: "push_if_dirty D (remember at f s1) = (s', Inr ())"
    using run by (auto simp: write_checkpoint_def sbind_def slift_def smodify_def split: if_splits prod.splits sum.splits option.splits)
  have stored: "length (img (mt_device s1)) = length (img (mt_device s)) \<and> records_on C sb (img (mt_device s1)) log_start tid ?tail ?gs h \<and>
      lsn = lsn_of (last_head ?gs h)"
    using append_groups_stores [OF D uuid st blocks sum n disk s1] g(1) len by (auto simp: zip_eq_Nil_iff)
  have fields: "mt_overlay s1 = mt_overlay s" "mt_wraps s1 = mt_wraps s" using append_groups_outcome [OF s1] by (simp_all add: steady_def)
  have "mt_wraps s' = mt_wraps (remember at f s1)"
    using valid_case [OF wraps_kept [of "mt_wraps s"] refl run] fields by (simp add: remember_def)
  then have "same_bytes (unat log_start) (unat log_start + n * BBSIZE) (img (mt_device s')) (img (mt_device (remember at f s1)))"
    using D out fields by (intro push_if_dirty_ring [OF _ fin]) (auto simp: stores_def remember_def homes_outside_def)
  then have same: "same_bytes (unat log_start) (unat log_start + n * BBSIZE) (img (mt_device s')) (img (mt_device s1))" by (simp add: remember_def)
  have "(unat (hd_block h) + sum_list (map snd ?gs)) * BBSIZE \<le> n * BBSIZE" using sum n(1) by (intro mult_le_mono1) simp
  then have up: "unat log_start + (unat (hd_block h) + sum_list (map snd ?gs)) * BBSIZE \<le> unat log_start + n * BBSIZE" by simp
  have fits: "\<forall>gk \<in> set ?gs. group_fits tid gk" using blocks record_blocks_for_log_fits(1) by fastforce
  have "records_on C sb (img (mt_device s')) log_start tid ?tail ?gs h"
    using stored disk fits n sum up by (intro records_on_kept [OF _ same order_refl]) auto
  then show ?thesis using stored sum fits same by (simp add: same_bytes_def)
qed

section \<open>The checkpoints outstanding\<close>

text \<open>A checkpoint in the ring: the records it was divided into, one after another from a head, and the head behind
  them.  The number is that of its last record.\<close>

definition checkpoint_on ::
  "crc_crate \<Rightarrow> Superblock \<Rightarrow> bytes \<Rightarrow> u64 \<Rightarrow> u64 \<Rightarrow> u64 \<times> Op list list \<Rightarrow> Head \<Rightarrow> Head \<Rightarrow> bool" where
  "checkpoint_on C sb disk log_start tail c h h' \<longleftrightarrow>
     (\<exists>tid k gs. gs \<noteq> [] \<and> records_on C sb disk log_start tid tail gs h \<and> (\<forall>gk \<in> set gs. group_fits tid gk) \<and>
        sum_list (map snd gs) \<le> unat (hd_free_blocks h) \<and> concat (map fst gs) = checkpoint_ops tid k (snd c) \<and>
        snd c \<noteq> [] \<and> (\<forall>ops \<in> set (snd c). item_ops_ok ops) \<and> h' = head_after gs h \<and> fst c = lsn_of (last_head gs h))"

fun chain :: "crc_crate \<Rightarrow> Superblock \<Rightarrow> bytes \<Rightarrow> u64 \<Rightarrow> u64 \<Rightarrow> (u64 \<times> Op list list) list \<Rightarrow> Head \<Rightarrow> Head \<Rightarrow> bool" where
  "chain C sb disk log_start tail [] h h' \<longleftrightarrow> h' = h"
| "chain C sb disk log_start tail (c # cs) h h' \<longleftrightarrow>
     (\<exists>m. checkpoint_on C sb disk log_start tail c h m \<and> chain C sb disk log_start tail cs m h')"

lemma chain_append:
  "chain C sb disk log_start tail (cs @ ds) h h' \<longleftrightarrow>
    (\<exists>m. chain C sb disk log_start tail cs h m \<and> chain C sb disk log_start tail ds m h')"
  by (induction cs arbitrary: h) auto

lemma head_after_grown:
  "sum_list (map snd gs) \<le> unat (hd_free_blocks h) \<Longrightarrow> unat (hd_block h) + unat (hd_free_blocks h) < 2 ^ 32 \<Longrightarrow>
    grown h (sum_list (map snd gs)) (head_after gs h)"
proof (induction gs arbitrary: h)
  case (Cons g gs)
  obtain ops k where g: "g = (ops, k)" by fastforce
  have adv: "grown h k (advance h k)" using Cons.prems by (intro grown_advance) (auto simp: g)
  moreover have "grown (advance h k) (sum_list (map snd gs)) (head_after gs (advance h k))"
    using Cons.prems adv by (intro Cons.IH) (auto simp: g grown_def)
  ultimately show ?case by (auto simp: g dest: grown_trans)
qed (simp add: grown_0)

lemma fits_length: "\<forall>gk \<in> set gs. group_fits tid gk \<Longrightarrow> length gs \<le> sum_list (map snd gs)"
  by (induction gs) (auto simp: group_fits_def)

lemma last_head_cycle: "hd_cycle (last_head gs h) = hd_cycle h"
  by (induction gs h rule: last_head.induct) (auto simp: advance_def)

lemma checkpoint_grown:
  assumes "checkpoint_on C sb disk log_start tail c h h'" "unat (hd_block h) + unat (hd_free_blocks h) < 2 ^ 32"
  shows "\<exists>k > 0. k \<le> unat (hd_free_blocks h) \<and> grown h k h' \<and> unat (hd_block h) \<le> lsn_block (fst c) \<and> lsn_block (fst c) < unat (hd_block h')"
proof -
  obtain tid k gs where g: "gs \<noteq> []" "\<forall>gk \<in> set gs. group_fits tid gk" "sum_list (map snd gs) \<le> unat (hd_free_blocks h)"
    "h' = head_after gs h" "fst c = lsn_of (last_head gs h)"
    using assms(1) by (auto simp: checkpoint_on_def)
  have "0 < sum_list (map snd gs)" using fits_length [OF g(2)] g(1) by (cases gs) auto
  moreover have gr: "grown h (sum_list (map snd gs)) h'" using head_after_grown [OF g(3) assms(2)] g(4) by simp
  moreover have "\<forall>gk \<in> set gs. 0 < snd gk" using g(2) by (simp add: group_fits_def)
  from last_head_block [OF g(3) assms(2) g(1) this]
  have "unat (hd_block h) \<le> lsn_block (fst c)" "lsn_block (fst c) < unat (hd_block h')" using gr by (simp_all add: g(5) lsn_parts grown_def)
  ultimately show ?thesis using g(3) by blast
qed

lemma chain_grown:
  assumes "chain C sb disk log_start tail cs h h'" "unat (hd_block h) + unat (hd_free_blocks h) < 2 ^ 32"
  shows "\<exists>k. k \<le> unat (hd_free_blocks h) \<and> grown h k h' \<and>
    (cs \<noteq> [] \<longrightarrow> unat (hd_block h) \<le> lsn_block (fst (last cs)) \<and> lsn_block (fst (last cs)) < unat (hd_block h'))"
  using assms
proof (induction cs arbitrary: h)
  case Nil
  then show ?case by (auto simp: grown_0)
next
  case (Cons c cs)
  obtain m where m: "checkpoint_on C sb disk log_start tail c h m" "chain C sb disk log_start tail cs m h'" using Cons.prems(1) by auto
  obtain k where k: "0 < k" "k \<le> unat (hd_free_blocks h)" "grown h k m" "unat (hd_block h) \<le> lsn_block (fst c)" "lsn_block (fst c) < unat (hd_block m)"
    using checkpoint_grown [OF m(1) Cons.prems(2)] by blast
  have "unat (hd_block m) + unat (hd_free_blocks m) < 2 ^ 32" using k Cons.prems(2) by (simp add: grown_def)
  from Cons.IH [OF m(2) this] obtain j where j: "j \<le> unat (hd_free_blocks m)" "grown m j h'"
    "cs \<noteq> [] \<longrightarrow> unat (hd_block m) \<le> lsn_block (fst (last cs)) \<and> lsn_block (fst (last cs)) < unat (hd_block h')" by blast
  have "k + j \<le> unat (hd_free_blocks h)" "grown h (k + j) h'" using k j by (auto simp: grown_def)
  moreover have "unat (hd_block h) \<le> unat (hd_block m)" "unat (hd_block m) \<le> unat (hd_block h')" using k(3) j(2) by (simp_all add: grown_def)
  ultimately show ?case using k(4,5) j(3) by (intro exI [of _ "k + j"]) auto
qed


text \<open>Bytes below the head behind them are all a chain needs.\<close>

lemma chain_kept:
  assumes "chain C sb disk log_start tail cs h h'" "same_bytes lo (unat log_start + unat (hd_block h') * BBSIZE) disk' disk" "lo \<le> unat log_start"
    "unat log_start + unat (hd_block h') * BBSIZE \<le> length disk" "unat (hd_block h) + unat (hd_free_blocks h) < 2 ^ 32"
  shows "chain C sb disk' log_start tail cs h h'"
  using assms(1,5)
proof (induction cs arbitrary: h)
  case (Cons c cs)
  obtain m where m: "checkpoint_on C sb disk log_start tail c h m" "chain C sb disk log_start tail cs m h'" using Cons.prems(1) by auto
  obtain k where k: "k \<le> unat (hd_free_blocks h)" "grown h k m" using checkpoint_grown [OF m(1) Cons.prems(2)] by blast
  have m32: "unat (hd_block m) + unat (hd_free_blocks m) < 2 ^ 32" using k Cons.prems(2) by (simp add: grown_def)
  then have "unat (hd_block m) \<le> unat (hd_block h')" using chain_grown [OF m(2)] by (auto simp: grown_def)
  then have le: "unat (hd_block m) * BBSIZE \<le> unat (hd_block h') * BBSIZE" by (rule mult_le_mono1)
  obtain tid k gs where g: "gs \<noteq> []" "records_on C sb disk log_start tid tail gs h" "\<forall>gk \<in> set gs. group_fits tid gk"
    "sum_list (map snd gs) \<le> unat (hd_free_blocks h)" "concat (map fst gs) = checkpoint_ops tid k (snd c)" "snd c \<noteq> []"
    "\<forall>ops \<in> set (snd c). item_ops_ok ops" "m = head_after gs h" "fst c = lsn_of (last_head gs h)"
    using m(1) by (auto simp: checkpoint_on_def)
  have "unat (hd_block h) + sum_list (map snd gs) = unat (hd_block m)"
    using head_after_grown [OF g(4) Cons.prems(2)] g(8) by (simp add: grown_def)
  then have "records_on C sb disk' log_start tid tail gs h"
    using le by (intro records_on_kept [OF g(2) assms(2-4) g(3) Cons.prems(2) g(4)]) simp
  then have "checkpoint_on C sb disk' log_start tail c h m" unfolding checkpoint_on_def using g by blast
  then show ?case using Cons.IH [OF m(2) m32] by auto
qed simp

text \<open>The walk goes over records that are not the newest, and hands over what they carry.\<close>

lemma walk_past_groups:
  assumes on: "log_on dev disk log_start n" and n: "n < 2 ^ 32"
    and "records_on C sb disk log_start tid tail gs h" "\<forall>gk \<in> set gs. group_fits tid gk" "unat (hd_block h) + unat (hd_free_blocks h) = n"
    "sum_list (map snd gs) \<le> unat (hd_free_blocks h)" "unat (hd_block h) + sum_list (map snd gs) < n"
    "unat (hd_block h) + sum_list (map snd gs) \<le> lsn_block newest" "records + length gs \<le> n"
  shows "walk_loop C dev sb log_start n newest (unat (hd_block h)) records visit fl v =
    rbind (take_ops visit tid (concat (map fst gs)) fl v) (\<lambda>(fl', v').
      walk_loop C dev sb log_start n newest (unat (hd_block (head_after gs h))) (records + length gs) visit fl' v')"
  using assms(3-)
proof (induction gs arbitrary: h records fl v)
  case (Cons gk gs)
  obtain g k where gk: "gk = (g, k)" by fastforce
  have adv: "grown h k (advance h k)" using Cons.prems n by (intro grown_advance) (auto simp: gk)
  have k: "0 < k" using Cons.prems(2) by (auto simp: gk group_fits_def)
  have "walk_record C dev sb log_start n (unat (hd_block h)) visit fl v =
      rbind (take_ops visit tid g fl v) (\<lambda>(fl', v'). Inr (lsn_of h, (unat (hd_block h) + k) mod n, fl', v'))"
    using Cons.prems by (intro walk_group [OF on]) (auto simp: gk)
  moreover have "lsn_of h \<noteq> newest" using Cons.prems(6) k by (auto simp: gk lsn_parts)
  moreover have "(unat (hd_block h) + k) mod n = unat (hd_block (advance h k))" using adv Cons.prems(5) by (simp add: gk grown_def)
  moreover have "walk_loop C dev sb log_start n newest (unat (hd_block (advance h k))) (records + 1) visit fl' v' =
      rbind (take_ops visit tid (concat (map fst gs)) fl' v') (\<lambda>(fl'', v'').
        walk_loop C dev sb log_start n newest (unat (hd_block (head_after gs (advance h k)))) (records + 1 + length gs) visit fl'' v'')" for fl' v'
    using Cons.prems adv by (intro Cons.IH) (auto simp: gk grown_def)
  ultimately show ?case
    using Cons.prems(7) by (subst walk_loop.simps) (cases "take_ops visit tid g fl v"; auto simp: gk take_ops_append split: prod.splits)
qed simp


fun visit_all :: "('v \<Rightarrow> 'i \<Rightarrow> 'v res) \<Rightarrow> 'v \<Rightarrow> 'i list \<Rightarrow> 'v res" where
  "visit_all visit v [] = Inr v"
| "visit_all visit v (t # ts) = rbind (visit v t) (\<lambda>v'. visit_all visit v' ts)"

definition transactions :: "(u64 \<times> Op list list) list \<Rightarrow> Item list list" where
  "transactions cs = map (\<lambda>c. map item_of (snd c)) cs"

lemma walk_chain:
  assumes on: "log_on dev disk log_start n" and n: "n < 2 ^ 32" and "chain C sb disk log_start tail cs h h'" "cs \<noteq> []"
    "unat (hd_block h) + unat (hd_free_blocks h) = n" "records \<le> unat (hd_block h)"
  shows "\<exists>rc. \<forall>v. walk_loop C dev sb log_start n (fst (last cs)) (unat (hd_block h)) records visit Map.empty v =
    rbind (visit_all visit v (transactions cs)) (\<lambda>v'. Inr (rc, v'))"
  using assms(3-)
proof (induction cs arbitrary: h records)
  case (Cons c cs)
  obtain m where m: "checkpoint_on C sb disk log_start tail c h m" "chain C sb disk log_start tail cs m h'" using Cons.prems(1) by auto
  obtain tid k gs where g: "gs \<noteq> []" "records_on C sb disk log_start tid tail gs h" "\<forall>gk \<in> set gs. group_fits tid gk"
    "sum_list (map snd gs) \<le> unat (hd_free_blocks h)" "concat (map fst gs) = checkpoint_ops tid k (snd c)" "snd c \<noteq> []"
    "\<forall>ops \<in> set (snd c). item_ops_ok ops" "m = head_after gs h" "fst c = lsn_of (last_head gs h)"
    using m(1) by (auto simp: checkpoint_on_def)
  have ops: "take_ops visit tid (concat (map fst gs)) Map.empty v = rbind (visit v (map item_of (snd c))) (\<lambda>v'. Inr (Map.empty, v'))" for v
    using take_ops_checkpoint [OF g(7), of visit tid k Map.empty v] g(5,6) by simp
  have h32: "unat (hd_block h) + unat (hd_free_blocks h) < 2 ^ 32" using Cons.prems(3) n by simp
  have gr: "grown h (sum_list (map snd gs)) m" using head_after_grown [OF g(4) h32] g(8) by simp
  have mn: "unat (hd_block m) + unat (hd_free_blocks m) = n" using gr g(4) Cons.prems(3) by (simp add: grown_def)
  have room: "records + length gs \<le> unat (hd_block m)" using fits_length [OF g(3)] Cons.prems(4) gr by (simp add: grown_def)
  show ?case
  proof (cases "cs = []")
    case True
    have "walk_loop C dev sb log_start n (fst c) (unat (hd_block h)) records visit Map.empty v =
        rbind (visit v (map item_of (snd c))) (\<lambda>v'. Inr (records + length gs, v'))" for v
      unfolding g(9) using walk_groups [OF on g(2,3) Cons.prems(3) n g(4,1), of records visit Map.empty v] room mn ops [of v]
      by (cases "visit v (map item_of (snd c))") simp_all
    then have "walk_loop C dev sb log_start n (fst c) (unat (hd_block h)) records visit Map.empty v =
        rbind (visit_all visit v (transactions [c])) (\<lambda>v'. Inr (records + length gs, v'))" for v
      by (cases "visit v (map item_of (snd c))") (simp_all add: transactions_def)
    then show ?thesis using True by auto
  next
    case False
    have "unat (hd_block m) \<le> lsn_block (fst (last cs))" "lsn_block (fst (last cs)) < unat (hd_block h')" "unat (hd_block h') \<le> n"
      using chain_grown [OF m(2)] mn n False by (auto simp: grown_def)
    then have past: "walk_loop C dev sb log_start n (fst (last cs)) (unat (hd_block h)) records visit Map.empty v =
        rbind (take_ops visit tid (concat (map fst gs)) Map.empty v) (\<lambda>(fl', v').
          walk_loop C dev sb log_start n (fst (last cs)) (unat (hd_block m)) (records + length gs) visit fl' v')" for v
      unfolding g(8) using gr room mn
      by (intro walk_past_groups [OF on n g(2,3) Cons.prems(3) g(4)]) (auto simp: grown_def g(8))
    obtain rc where "\<forall>v. walk_loop C dev sb log_start n (fst (last cs)) (unat (hd_block m)) (records + length gs) visit Map.empty v =
        rbind (visit_all visit v (transactions cs)) (\<lambda>v'. Inr (rc, v'))"
      using Cons.IH [OF m(2) False mn room] by blast
    then have "walk_loop C dev sb log_start n (fst (last cs)) (unat (hd_block h)) records visit Map.empty v =
        rbind (visit_all visit v (transactions (c # cs))) (\<lambda>v'. Inr (rc, v'))" for v
      using past [of v] ops [of v] by (cases "visit v (map item_of (snd c))") (simp_all add: transactions_def)
    then show ?thesis using False by auto
  qed
qed simp


section \<open>A history of commits and pushes\<close>

text \<open>From a mount \<open>s0\<close>: the checkpoints committed since the last push or restart of the ring, each with the number its commit
  returned, through commits, pushes and whatever is laid in the overlay or taken from it between them.  No commit meets a
  full overlay, and no buffer has its home in the log.\<close>

inductive journal :: "crc_crate \<Rightarrow> 'd Device \<Rightarrow> Superblock \<Rightarrow> u64 \<Rightarrow> nat \<Rightarrow> 'd Mount \<Rightarrow> (u64 \<times> Op list list) list \<Rightarrow> 'd Mount \<Rightarrow> bool"
  for C :: crc_crate and D :: "'d Device" and sb :: Superblock and log_start :: u64 and n :: nat and s0 :: "'d Mount" where
  begun: "journal C D sb log_start n s0 [] s0"
| committed: "journal C D sb log_start n s0 pending s \<Longrightarrow> commit_record C D sb (\<lambda>tid. checkpoint_ops tid k items) s = (s', Inr lsn) \<Longrightarrow>
    items \<noteq> [] \<Longrightarrow> \<forall>ops \<in> set items. item_ops_ok ops \<Longrightarrow> \<not> overlay_full s \<Longrightarrow>
    journal C D sb log_start n s0 ((if mt_wraps s' = mt_wraps s then pending else []) @ [(lsn, items)]) s'"
| synced: "journal C D sb log_start n s0 pending s \<Longrightarrow> sync D s = (s', Inr u) \<Longrightarrow> journal C D sb log_start n s0 [] s'"
| laid: "journal C D sb log_start n s0 pending s \<Longrightarrow> homes_outside log_start n (s\<lparr>mt_overlay := m\<rparr>) \<Longrightarrow>
    journal C D sb log_start n s0 pending (s\<lparr>mt_overlay := m\<rparr>)"

text \<open>What holds all along.\<close>

definition placed_head :: "nat \<Rightarrow> Head \<Rightarrow> bool" where
  "placed_head n h \<longleftrightarrow> unat (hd_block h) + unat (hd_free_blocks h) = n \<and> lsn_of h \<noteq> 0"

definition journal_ok ::
  "crc_crate \<Rightarrow> Superblock \<Rightarrow> ('d \<Rightarrow> bytes) \<Rightarrow> u64 \<Rightarrow> nat \<Rightarrow> nat \<Rightarrow> (u64 \<times> Op list list) list \<Rightarrow> 'd Mount \<Rightarrow> bool" where
  "journal_ok C sb img log_start n len pending s \<longleftrightarrow> length (img (mt_device s)) = len \<and> homes_outside log_start n s \<and>
     (\<forall>h. mt_next_head s = Some h \<longrightarrow> placed_head n h) \<and>
     (if pending = [] then mt_oldest_record s = None
      else \<exists>h h'. placed_head n h \<and> mt_oldest_record s = Some (lsn_of h) \<and> mt_next_head s = Some h' \<and>
        chain C sb (img (mt_device s)) log_start (lsn_of h) pending h h')"

text \<open>A head found in the log names a record number that is not zero.\<close>

lemma header_blocks_pos: "header_blocks b = Inr k \<Longrightarrow> 0 < k"
  by (auto simp: header_blocks_def rbind_eq_Inr refuse_Inr div_ceil_def XLOG_HEADER_CYCLE_SIZE_def div_greater_zero_iff split: if_splits)

lemma record_of_pos: "record_of bb b = Inr r \<Longrightarrow> 0 < lr_header_blocks r"
  by (auto simp: record_of_def rbind_eq_Inr dest: header_blocks_pos)

definition some_blocks :: "LogRec option \<Rightarrow> bool" where
  "some_blocks found \<longleftrightarrow> (\<forall>r. found = Some r \<longrightarrow> 0 < lr_header_blocks r)"

lemma scan_blocks_pos: "scan_blocks sb bb blocks newest = Inr found \<Longrightarrow> some_blocks newest \<Longrightarrow> some_blocks found"
proof (induction blocks arbitrary: bb newest)
  case (Cons block blocks)
  have rec: "some_blocks (Some r)" if "record_of bb block = Inr r" for r using record_of_pos [OF that] by (simp add: some_blocks_def)
  from Cons.prems(1) consider "scan_blocks sb (bb + 1) blocks newest = Inr found"
    | r where "record_of bb block = Inr r" "scan_blocks sb (bb + 1) blocks (Some r) = Inr found"
    by (auto simp: rbind_eq_Inr split: if_splits)
  then show ?case using Cons.IH Cons.prems(2) rec by cases blast+
qed simp

lemma scan_ring_pos: "scan_ring dev sb log_start log_bytes at newest = Inr found \<Longrightarrow> some_blocks newest \<Longrightarrow> some_blocks found"
proof (induction dev sb log_start log_bytes at newest rule: scan_ring.induct)
  case (1 dev sb log_start log_bytes at newest)
  show ?case
  proof (cases "at < log_bytes")
    case True
    let ?want = "min SCAN_CHUNK (log_bytes - at)"
    obtain buf newest' where "dev (log_start + of_nat at) ?want = Inr buf"
      "scan_blocks sb (at div BBSIZE) (chunks_exact BBSIZE buf) newest = Inr newest'"
      "scan_ring dev sb log_start log_bytes (at + ?want) newest' = Inr found"
      using "1.prems"(1) True by (subst (asm) scan_ring.simps) (auto simp: Let_def rbind_eq_Inr)
    then show ?thesis using "1.IH" [OF True refl] scan_blocks_pos "1.prems"(2) by blast
  next
    case False
    then show ?thesis using "1.prems" by (subst (asm) scan_ring.simps) simp
  qed
qed

lemma scan_newest_pos: "scan_for_newest_record dev sb log_start log_bytes = Inr (Some r) \<Longrightarrow> 0 < lr_header_blocks r"
proof -
  assume scan: "scan_for_newest_record dev sb log_start log_bytes = Inr (Some r)"
  have last: "0 < lr_header_blocks r" if "last_record sb ring head blocks = Inr (Some r)" for ring head blocks
    using that by (auto simp: last_record_def rbind_eq_Inr Let_def dest: record_of_pos split: option.splits if_splits prod.splits)
  have "newest_record_by_cycle dev sb log_start log_bytes = Inr (Some r) \<or> scan_whole_ring dev sb log_start log_bytes = Inr (Some r)"
    using scan by (auto simp: scan_for_newest_record_def rbind_eq_Inr split: option.splits)
  then show ?thesis
  proof
    assume "newest_record_by_cycle dev sb log_start log_bytes = Inr (Some r)"
    then show ?thesis
      by (auto simp: newest_record_by_cycle_def Let_def rbind_eq_Inr dest: last split: if_splits option.splits prod.splits)
  next
    assume "scan_whole_ring dev sb log_start log_bytes = Inr (Some r)"
    then show ?thesis using scan_ring_pos [of dev sb log_start "unat log_bytes" 0 None] by (auto simp: scan_whole_ring_def some_blocks_def)
  qed
qed


lemma log_head_placed:
  assumes "log_head dev sb = Inr h" "log_extent sb = Inr (log_start, log_bytes)" "BBSIZE \<le> unat log_bytes" "unat log_bytes div BBSIZE < 2 ^ 32"
  shows "placed_head (unat log_bytes div BBSIZE) h"
proof -
  note ring = log_head_ring [OF assms]
  have "hd_cycle h \<noteq> 0 \<or> unat (hd_block h) \<noteq> 0"
  proof (rule ccontr)
    assume "\<not> (hd_cycle h \<noteq> 0 \<or> unat (hd_block h) \<noteq> 0)"
    then have zero: "hd_cycle h = 0" "hd_block h = 0" by (simp_all add: word_eq_unat)
    let ?nxt = "\<lambda>r. lr_bb r + lr_header_blocks r + div_ceil (unat (lr_len r)) BBSIZE" and ?tot = "ucast (log_bytes div of_nat BBSIZE) :: u32"
    obtain r where r: "scan_for_newest_record dev sb log_start log_bytes = Inr (Some r)" "?nxt r < unat ?tot" "(of_nat (?nxt r) :: u32) = 0"
      using assms(1,2) zero
      by (auto simp: log_head_def Let_def rbind_eq_Inr eq_neg_iff_add_eq_0 not_less split: option.splits if_splits dest: le_neq_implies_less)
    have "?nxt r < 4294967296" using less_trans [OF r(2) unat_lt32 [of ?tot]] by simp
    then have "unat (of_nat (?nxt r) :: u32) = ?nxt r" by (simp add: unat_of_nat del: of_nat_add)
    then have "?nxt r = 0" unfolding r(3) by simp
    then show False using scan_newest_pos [OF r(1)] by simp
  qed
  then have "lsn_of h \<noteq> 0" using lsn_parts [of h] by (auto simp: lsn_cycle_def lsn_block_def)
  then show ?thesis using ring by (simp add: placed_head_def)
qed

section \<open>The history keeps the journal\<close>

text \<open>No operation changes the size of the device.\<close>

lemma sync_length:
  assumes f: "frames D img" and run: "sync D s = (s', r)"
  shows "length (img (mt_device s')) = length (img (mt_device s))"
proof (cases "mt_overlay s")
  case None
  then show ?thesis using run
    by (auto simp: sync_def sbind_def writable_device_def or_stop_writing_def push_overlay_def smodify_def split: if_splits)
next
  case (Some m)
  obtain d kept r' where p: "push (dv_write D) (dv_flush D) (mt_device s) m = (d, kept, r')" by (cases "push (dv_write D) (dv_flush D) (mt_device s) m")
  have "same_bytes 0 0 (img (fst (push (dv_write D) (dv_flush D) (mt_device s) m))) (img (mt_device s))"
    by (rule same_bytes_push [OF f]) (auto simp: same_bytes_def)
  then have "length (img d) = length (img (mt_device s))" by (simp add: p same_bytes_def)
  then show ?thesis using run Some p
    by (cases r') (auto simp: sync_def sbind_def writable_device_def or_stop_writing_def push_overlay_def smodify_def split: if_splits)
qed

lemma start_again_length:
  assumes f: "frames D img" and run: "start_again C D sb tid h s = (s', r)"
  shows "length (img (mt_device s')) = length (img (mt_device s))"
proof -
  let ?P = "\<lambda>s'. length (img (mt_device s')) = length (img (mt_device s))"
  have ap: "length (img (fst (append_pad C D sb h tid t d))) = length (img d)" for t d
    using same_bytes_append(2) [OF f, of 0 0 d "img d"] by (simp add: same_bytes_def)
  have sync: "valid ?P (sync D) (\<lambda>_. ?P) (\<lambda>_. ?P)"
    unfolding valid_def using sync_length [OF f] by (auto split: prod.splits sum.splits)
  have "valid ?P (or_stop_writing (on_device (append_pad C D sb h tid t))) (\<lambda>_. ?P) (\<lambda>_. ?P)" for t
    unfolding valid_def
  proof (intro allI impI)
    fix s2 :: "'a Mount" assume P: "?P s2"
    obtain d r where d: "append_pad C D sb h tid t (mt_device s2) = (d, r)" by fastforce
    then have "length (img d) = length (img (mt_device s2))" using ap [of t "mt_device s2"] by simp
    then show "case or_stop_writing (on_device (append_pad C D sb h tid t)) s2 of (s', Inl e) \<Rightarrow> ?P s' | (s', Inr x) \<Rightarrow> ?P s'"
      using P d by (cases r) (auto simp: or_stop_writing_def on_device_def)
  qed
  then have pad: "valid ?P (\<lambda>s. or_stop_writing (on_device (append_pad C D sb h tid (tail_for h (mt_oldest_record s)))) s) (\<lambda>_. ?P) (\<lambda>_. ?P)"
    by (rule valid_read [where m = "\<lambda>t. or_stop_writing (on_device (append_pad C D sb h tid t))"])
  have wrap: "valid ?P (smodify (mt_wraps_update Suc)) (\<lambda>_. ?P) (\<lambda>_. ?P)" by (rule valid_smodify) simp
  have "valid ?P (start_again C D sb tid h) (\<lambda>_. ?P) (\<lambda>_. ?P)"
    unfolding start_again_def
    by (intro valid_sbind [OF sync] valid_sbind [where Q = "\<lambda>_. ?P"] valid_if valid_sbind [OF pad] valid_sbind [OF wrap] valid_slift) auto
  from valid_case [OF this _ run] show ?thesis by (simp split: sum.splits)
qed

text \<open>A checkpoint written from a head, the tail it names, and what it leaves.\<close>

lemma checkpoint_written:
  assumes D: "stores D img" and uuid: "length (sb_uuid sb) = 16" and st: "log_start = fsblock_offset sb (sb_logstart sb)"
    and h: "placed_head n h" "n < 2 ^ 32"
    and disk: "unat log_start + n * BBSIZE \<le> length (img (mt_device s))" "length (img (mt_device s)) < 2 ^ 64"
    and s: "homes_outside log_start n s" "\<not> overlay_full s" "mt_writable s"
    and g: "split_into_records (checkpoint_ops tid k items) ic = Inr groups" "record_lengths tid groups ic (sb_logsunit sb) = Inr lengths"
      "sum_lengths lengths 0 = Inr needed" "ic = hd_iclog_size h"
    and items: "items \<noteq> []" "\<forall>ops \<in> set items. item_ops_ok ops"
    and run: "write_checkpoint C D sb tid groups lengths needed h s = (s', Inr lsn)"
  shows "\<exists>h'. checkpoint_on C sb (img (mt_device s')) log_start (tail_for h (mt_oldest_record s)) (lsn, items) h h' \<and>
    mt_next_head s' = Some h' \<and> placed_head n h' \<and> mt_oldest_record s' = Some (tail_for h (mt_oldest_record s)) \<and>
    mt_overlay s' = mt_overlay s \<and> length (img (mt_device s')) = length (img (mt_device s))"
proof -
  let ?gs = "zip groups lengths" and ?h' = "head_after (zip groups lengths) h"
  have ring: "unat (hd_block h) + unat (hd_free_blocks h) = n" using h(1) by (simp add: placed_head_def)
  have ne: "groups \<noteq> []" "length lengths = length groups"
    using split_not_empty [OF g(1)] record_lengths_Inr [OF g(2)] by auto
  have c: "records_on C sb (img (mt_device s')) log_start tid (tail_for h (mt_oldest_record s)) ?gs h" "lsn = lsn_of (last_head ?gs h)"
    "sum_list (map snd ?gs) \<le> unat (hd_free_blocks h)" "\<forall>gk \<in> set ?gs. group_fits tid gk" "length (img (mt_device s')) = length (img (mt_device s))"
    using checkpoint_stored [OF D uuid st ring h(2) disk s(1) ne(1) g(2) [unfolded g(4)] g(3) run] by auto
  have gs: "?gs \<noteq> []" "concat (map fst ?gs) = checkpoint_ops tid k items"
    using ne split_into_records_spec(1) [OF g(1)] by (auto simp: zip_eq_Nil_iff)
  have gr: "grown h (sum_list (map snd ?gs)) ?h'" using head_after_grown [OF c(3)] ring h(2) by simp
  have "0 < sum_list (map snd ?gs)" using fits_length [OF c(4)] gs(1) by (cases ?gs) auto
  moreover have blk: "unat (hd_block ?h') = unat (hd_block h) + sum_list (map snd ?gs)" using gr unfolding grown_def by blast
  ultimately have "lsn_block (lsn_of ?h') \<noteq> 0" unfolding lsn_parts by linarith
  then have "lsn_of ?h' \<noteq> 0" by (auto simp: lsn_block_def)
  then have "placed_head n ?h'" using gr c(3) ring by (auto simp: placed_head_def grown_def)
  moreover have "checkpoint_on C sb (img (mt_device s')) log_start (tail_for h (mt_oldest_record s)) (lsn, items) h ?h'"
    unfolding checkpoint_on_def using c gs items by (intro exI [of _ tid] exI [of _ k] exI [of _ ?gs]) simp
  ultimately show ?thesis
    using write_checkpoint_outcome [OF run ne s(3)] s(2) c(5) by (auto simp: tail_for_def split: option.splits)
qed


lemma journal_step_commit:
  assumes D: "stores D img" and uuid: "length (sb_uuid sb) = 16" and ext: "log_extent sb = Inr (log_start, log_bytes)"
    and n: "n = unat log_bytes div BBSIZE" "n < 2 ^ 32" "BBSIZE \<le> unat log_bytes"
    and disk: "unat log_start + unat log_bytes \<le> len" "len < 2 ^ 64"
    and ok: "journal_ok C sb img log_start n len pending s"
    and items: "items \<noteq> []" "\<forall>ops \<in> set items. item_ops_ok ops" and full: "\<not> overlay_full s"
    and run: "commit_record C D sb (\<lambda>tid. checkpoint_ops tid k items) s = (s', Inr lsn)"
  shows "journal_ok C sb img log_start n len ((if mt_wraps s' = mt_wraps s then pending else []) @ [(lsn, items)]) s'"
proof -
  have f: "frames D img" using D by (simp add: stores_def)
  have st: "log_start = fsblock_offset sb (sb_logstart sb)" using ext by (auto simp: log_extent_def Let_def refuse_Inr)
  have log64: "unat log_start + unat log_bytes < 2 ^ 64" using disk by simp
  have "n * BBSIZE \<le> unat log_bytes" unfolding n(1) by simp
  then have ring: "unat log_start + n * BBSIZE \<le> len" using disk(1) by linarith
  have len: "length (img (mt_device s)) = len" and out: "homes_outside log_start n s" using ok by (simp_all add: journal_ok_def)
  have placed: "placed_head n h" if "head_known D sb s = Inr h" for h
    using that ok log_head_placed [OF _ ext n(3)] n(1,2) by (auto simp: head_known_def journal_ok_def split: option.splits)
  from run show ?thesis
  proof (cases rule: commit_cases)
    case (placed h groups lengths needed)
    have ph: "placed_head n h" by (rule \<open>\<And>h. head_known D sb s = Inr h \<Longrightarrow> placed_head n h\<close> [OF placed(3)])
    have same: "mt_wraps s' = mt_wraps s" using valid_case [OF wraps_kept refl placed(7)] by simp
    have fit: "unat log_start + n * BBSIZE \<le> length (img (mt_device s))" "length (img (mt_device s)) < 2 ^ 64" using ring len disk(2) by simp_all
    obtain h' where w: "checkpoint_on C sb (img (mt_device s')) log_start (tail_for h (mt_oldest_record s)) (lsn, items) h h'"
      "mt_next_head s' = Some h'" "placed_head n h'" "mt_oldest_record s' = Some (tail_for h (mt_oldest_record s))"
      "mt_overlay s' = mt_overlay s" "length (img (mt_device s')) = length (img (mt_device s))"
      using checkpoint_written [OF D uuid st ph n(2) fit out full placed(1,4,5,6) refl items placed(7)] by blast
    have out': "homes_outside log_start n s'" using out w(5) by (simp add: homes_outside_def)
    show ?thesis
    proof (cases "pending = []")
      case True
      then have "mt_oldest_record s = None" using ok by (simp add: journal_ok_def)
      then show ?thesis using w out' ph len same True by (auto simp: journal_ok_def tail_for_def)
    next
      case False
      then obtain h0 where h0: "placed_head n h0" "mt_oldest_record s = Some (lsn_of h0)" "mt_next_head s = Some h"
        "chain C sb (img (mt_device s)) log_start (lsn_of h0) pending h0 h"
        using ok placed(3) by (auto simp: journal_ok_def head_known_def)
      have "unat (hd_block h) \<le> n" "unat (hd_block h) + unat (hd_free_blocks h) = n" using ph by (auto simp: placed_head_def)
      then have "unat (hd_block h) * BBSIZE \<le> n * BBSIZE" by (intro mult_le_mono1)
      then have "unat log_start + unat (hd_block h) * BBSIZE \<le> length (img (mt_device s))" using fit(1) by linarith
      then have "chain C sb (img (mt_device s')) log_start (lsn_of h0) pending h0 h"
        using commit_below [OF f ext log64 n(1,2) placed(3) _ out run same] ph h0(1) n(2)
        by (intro chain_kept [OF h0(4) _ order_refl]) (auto simp: placed_head_def)
      then have "chain C sb (img (mt_device s')) log_start (lsn_of h0) (pending @ [(lsn, items)]) h0 h'"
        using w(1) h0(2) by (auto simp: chain_append tail_for_def)
      then show ?thesis using w out' len same h0 by (auto simp: journal_ok_def tail_for_def)
    qed
  next
    case (restarted h h1 s1 groups lengths needed)
    have ph: "placed_head n h" by (rule placed [OF restarted(3)])
    note again = start_again_outcome [OF restarted(7)]
    have s1: "mt_writable s1" "mt_oldest_record s1 = None" "mt_overlay s1 = emptied (mt_overlay s)" "mt_wraps s1 = Suc (mt_wraps s)"
      using again restarted(1) by (auto simp: pushed_def)
    have "hd_cycle h + 1 \<noteq> 0" using again by (auto simp: eq_neg_iff_add_eq_0)
    then have "lsn_cycle (lsn_of h1) \<noteq> 0" using again by (simp add: lsn_parts)
    moreover have "unat (hd_block h + hd_free_blocks h) = n" using ph n(2) by (simp add: placed_head_def unat_word_ariths)
    ultimately have p1: "placed_head n h1" using again by (auto simp: placed_head_def lsn_cycle_def)
    have out1: "homes_outside log_start n s1" using s1(3) by (cases "mt_overlay s") (simp_all add: homes_outside_def)
    have len1: "length (img (mt_device s1)) = len" using start_again_length [OF f restarted(7)] len by simp
    then have fit: "unat log_start + n * BBSIZE \<le> length (img (mt_device s1))" "length (img (mt_device s1)) < 2 ^ 64" using ring disk(2) by simp_all
    have ic: "hd_iclog_size h = hd_iclog_size h1" using again by simp
    obtain h' where w: "checkpoint_on C sb (img (mt_device s')) log_start (tail_for h1 (mt_oldest_record s1)) (lsn, items) h1 h'"
      "mt_next_head s' = Some h'" "placed_head n h'" "mt_oldest_record s' = Some (tail_for h1 (mt_oldest_record s1))"
      "mt_overlay s' = mt_overlay s1" "length (img (mt_device s')) = length (img (mt_device s1))"
      using checkpoint_written [OF D uuid st p1 n(2) fit out1 emptied_not_full [OF s1(3)] s1(1) restarted(4,5,6) ic items restarted(8)] by blast
    have "mt_wraps s' = Suc (mt_wraps s)" using valid_case [OF wraps_kept s1(4) restarted(8)] by simp
    then show ?thesis using w p1 s1(2) len1 out1 by (auto simp: journal_ok_def tail_for_def homes_outside_def)
  qed simp_all
qed

text \<open>C1. Committed checkpoints are recovered.  On a device that keeps what it is given and holds the whole log, from a
  mount with nothing outstanding, through any history of commits that succeed (the first of the mount, which finds its head
  in the log, later ones, and ones that start the ring again), of pushes and of buffers laid in the overlay or taken from
  it, where no buffer has its home in the log and no commit finds the overlay full: when checkpoints are outstanding
  since the last push or restart, the log holds a record with this volume's identifier and the number the last commit
  returned, and the walk recovery makes from it, through however many records the checkpoints were divided into, hands
  their transactions to its visitor in the order they were committed, each exactly once and with exactly the items that
  were committed.\<close>

theorem committed_checkpoint_recovered:
  assumes D: "stores D img" and uuid: "length (sb_uuid sb) = 16" and ext: "log_extent sb = Inr (log_start, log_bytes)"
    and n: "n = unat log_bytes div BBSIZE" "n < 2 ^ 32" "BBSIZE \<le> unat log_bytes"
    and disk: "unat log_start + unat log_bytes \<le> length (img (mt_device s0))" "length (img (mt_device s0)) < 2 ^ 64"
    and start: "mt_oldest_record s0 = None" "homes_outside log_start n s0"
      "\<forall>h. mt_next_head s0 = Some h \<longrightarrow> unat (hd_block h) + unat (hd_free_blocks h) = n \<and> lsn_of h \<noteq> 0"
    and hist: "journal C D sb log_start n s0 pending s" "pending \<noteq> []"
  shows "\<exists>b records. let block = ring_block (img (mt_device s)) log_start b in
    header_block_of sb block \<and> lr_lsn (block_record b block) = fst (last pending) \<and>
    walk C (dv_read D (mt_device s)) sb (block_record b block) visit v =
      rbind (visit_all visit v (transactions pending)) (\<lambda>v'. Inr (records, v'))"
proof -
  let ?len = "length (img (mt_device s0))" and ?disk = "img (mt_device s)"
  have f: "frames D img" using D by (simp add: stores_def)
  have "journal_ok C sb img log_start n ?len pending s"
    using hist(1)
  proof induction
    case begun
    then show ?case using start by (auto simp: journal_ok_def placed_head_def)
  next
    case (committed pending s k items s' lsn)
    then show ?case using journal_step_commit [OF D uuid ext n disk] by blast
  next
    case (synced pending s s' u)
    then show ?case using sync_outcome [OF synced.hyps(2)] sync_length [OF f synced.hyps(2)]
      by (auto simp: journal_ok_def pushed_def homes_outside_def)
  next
    case (laid pending s m)
    then show ?case by (auto simp: journal_ok_def)
  qed
  then obtain h h' where len: "length ?disk = ?len" and h: "placed_head n h" and c: "chain C sb ?disk log_start (lsn_of h) pending h h'"
    using hist(2) by (auto simp: journal_ok_def)
  have hn: "unat (hd_block h) + unat (hd_free_blocks h) = n" and nz: "lsn_of h \<noteq> 0" using h by (simp_all add: placed_head_def)
  obtain cs c0 m where cs: "pending = cs @ [c0]" "chain C sb ?disk log_start (lsn_of h) cs h m" "checkpoint_on C sb ?disk log_start (lsn_of h) c0 m h'"
    using c hist(2) by (cases pending rule: rev_cases) (auto simp: chain_append)
  then obtain nops pay where "record_on C sb ?disk log_start (lsn_block (fst c0)) (fst c0) (lsn_of h) nops pay"
    using last_record_on by (fastforce simp: checkpoint_on_def lsn_parts)
  note blk = record_on_block [OF this]
  have "n * BBSIZE \<le> unat log_bytes" unfolding n(1) by simp
  then have on: "log_on (dv_read D (mt_device s)) ?disk log_start n" using D disk len by (simp add: log_on_def stores_def)
  obtain rc where loop: "walk_loop C (dv_read D (mt_device s)) sb log_start n (fst (last pending)) (unat (hd_block h)) 0 visit Map.empty v =
      rbind (visit_all visit v (transactions pending)) (\<lambda>v'. Inr (rc, v'))"
    using walk_chain [OF on n(2) c hist(2) hn, of 0 visit] by auto
  have "unat (hd_block h) < n" using chain_grown [OF c] hist(2) hn n(2) by (auto simp: grown_def)
  moreover have "unat (lsn_of h AND 0xffffffff) = unat (hd_block h)" using lsn_parts(2) [of h] by (simp add: lsn_block_def)
  ultimately have "walk C (dv_read D (mt_device s)) sb (block_record (lsn_block (fst c0)) (ring_block ?disk log_start (lsn_block (fst c0)))) visit v =
      rbind (visit_all visit v (transactions pending)) (\<lambda>v'. Inr (rc, v'))"
    using loop nz blk(2,3) cs(1) by (simp add: walk_def ext Let_def n(1) [symmetric])
  then show ?thesis using blk(1,2) cs(1) by (auto simp: Let_def)
qed


lemma mem_stores: "stores mem_device (\<lambda>d. d)"
  unfolding stores_def
proof (intro conjI allI impI)
  show "frames mem_device (\<lambda>d. d)" by (rule mem_frames)
  show "serves (dv_read mem_device d) d" for d by (simp add: serves_def mem_device_def read_image_def slice_def)
qed (auto simp: mem_device_def mem_write_fits)

definition sample_item :: "Op list" where
  "sample_item = [\<lparr>op_flags = 0, op_data = [0x34, 0x12, 1, 0]\<rparr>]"

text \<open>Two checkpoints, one after the other: the walk from the second hands over both.\<close>

lemma sample_small: "small_build (\<lambda>tid. checkpoint_ops tid 1 [sample_item])"
proof -
  have sz: "length (payload t (checkpoint_ops t 1 [sample_item])) = 68" for t
    by (simp add: payload_length checkpoint_ops_def sample_item_def OP_HEADER_SIZE_def trans_header_def)
  have "split_into_records (checkpoint_ops t 1 [sample_item]) 32768 = Inr [checkpoint_ops t 1 [sample_item]]" for t
    by (simp add: split_into_records_def max_payload_def XLOG_HEADER_CYCLE_SIZE_def BBSIZE_def checkpoint_ops_def sample_item_def
        OP_HEADER_SIZE_def trans_header_def Let_def)
  moreover have "record_blocks_for_log t (checkpoint_ops t 1 [sample_item]) 32768 0 = Inr 2" for t
    by (simp add: record_blocks_for_log_def record_blocks_def max_payload_def sz XLOG_HEADER_CYCLE_SIZE_def BBSIZE_def div_ceil_def Let_def)
  ultimately show ?thesis by (simp add: small_build_def)
qed

lemma committed_checkpoint_recovered_witness:
  "\<exists>s1 s2 b records. let build = \<lambda>tid. checkpoint_ops tid 1 [sample_item] in
    commit_record sample_crc mem_device sample_log_sb build ((fresh_mount (replicate 8192 0))\<lparr>mt_next_head := Some sample_head\<rparr>) =
      (s1, Inr (lsn_of sample_head)) \<and>
    commit_record sample_crc mem_device sample_log_sb build s1 = (s2, Inr (lsn_of (advance sample_head 2))) \<and>
    walk sample_crc (dv_read mem_device (mt_device s2)) sample_log_sb (block_record b (ring_block (mt_device s2) 2560 b))
      (\<lambda>seen items. Inr (seen @ [items])) [] = Inr (records, [[item_of sample_item], [item_of sample_item]])"
proof -
  define z :: bytes where "z = replicate 8192 0"
  let ?s = "(fresh_mount z)\<lparr>mt_next_head := Some sample_head\<rparr>" and ?h = "advance sample_head 2" and ?build = "\<lambda>tid. checkpoint_ops tid 1 [sample_item]"
  have not_full: "\<not> overlay_full s" if "mt_overlay s = Some []" for s :: "bytes Mount"
    using that by (simp add: overlay_full_def overlay_bytes_def MAX_DIRTY_BYTES_def)
  obtain d where d: "length d = 8192" and one: "commit_record sample_crc mem_device sample_log_sb ?build ?s =
      (remember ?h (lsn_of sample_head) (?s\<lparr>mt_device := d\<rparr>), Inr (lsn_of sample_head))"
    using sample_mem_commit [OF sample_small, of ?s sample_head] not_full [of ?s] sample_not_wrapped by (auto simp: fresh_mount_def z_def sample_head_def)
  let ?s1 = "remember ?h (lsn_of sample_head) (?s\<lparr>mt_device := d\<rparr>)"
  obtain d' where two: "commit_record sample_crc mem_device sample_log_sb ?build ?s1 =
      (remember (advance ?h 2) (lsn_of ?h) (?s1\<lparr>mt_device := d'\<rparr>), Inr (lsn_of ?h))"
    using sample_mem_commit [OF sample_small, of ?s1 ?h] not_full [of ?s1] sample_not_wrapped d
    by (auto simp: fresh_mount_def sample_head_def advance_def remember_def)
  let ?s2 = "remember (advance ?h 2) (lsn_of ?h) (?s1\<lparr>mt_device := d'\<rparr>)"
  have ok: "\<forall>ops \<in> set [sample_item]. item_ops_ok ops" by (simp add: item_ops_ok_def sample_item_def) code_simp
  have full: "\<not> overlay_full ?s" "\<not> overlay_full ?s1" by (rule not_full; simp add: fresh_mount_def remember_def)+
  have "journal sample_crc mem_device sample_log_sb 2560 8 ?s [(lsn_of sample_head, [sample_item])] ?s1"
    using committed [OF begun one _ ok full(1)] by (simp add: fresh_mount_def remember_def)
  from committed [OF this two _ ok full(2)]
  have hist: "journal sample_crc mem_device sample_log_sb 2560 8 ?s [(lsn_of sample_head, [sample_item]), (lsn_of ?h, [sample_item])] ?s2"
    by (simp add: fresh_mount_def remember_def)
  have uuid: "length (sb_uuid sample_log_sb) = 16" by (simp add: sample_log_sb_def sample_sb_def)
  have nz: "lsn_of sample_head \<noteq> 0" by (simp add: lsn_of_def sample_head_def)
  have "\<exists>b records. let block = ring_block (mt_device ?s2) 2560 b in
      header_block_of sample_log_sb block \<and> lr_lsn (block_record b block) = fst (last [(lsn_of sample_head, [sample_item]), (lsn_of ?h, [sample_item])]) \<and>
      walk sample_crc (dv_read mem_device (mt_device ?s2)) sample_log_sb (block_record b block) (\<lambda>seen items. Inr (seen @ [items])) [] =
        rbind (visit_all (\<lambda>seen items. Inr (seen @ [items])) [] (transactions [(lsn_of sample_head, [sample_item]), (lsn_of ?h, [sample_item])]))
          (\<lambda>v'. Inr (records, v'))"
    by (rule committed_checkpoint_recovered [OF mem_stores uuid sample_log(1) _ _ _ _ _ _ _ _ hist])
      (simp_all add: fresh_mount_def z_def sample_head_def BBSIZE_def homes_outside_def nz [unfolded sample_head_def])
  then show ?thesis using one two by (auto simp: Let_def transactions_def z_def)
qed

end
