(* ===== verification/InodeItem.thy ===== *)
theory InodeItem
  imports Commit
begin

unbundle bit_operations_syntax

text \<open>
  The inode log item (\<^verbatim>\<open>InodeBuffer\<close>, \<^verbatim>\<open>inode_log_format\<close> and its variants, \<^verbatim>\<open>inode_ops_with_attr\<close> of
  \<^verbatim>\<open>src/src/log_write.rs\<close>), where an inode lies (\<^verbatim>\<open>inode_offset\<close> of \<^verbatim>\<open>src/src/fs.rs\<close>), and the mount's own
  \<^verbatim>\<open>log_inode_core\<close> and \<^verbatim>\<open>logged_inode\<close>; and what recovery does with an item that logs a core.
\<close>

section \<open>Definitions\<close>

record InodeBuffer =
  ib_blkno :: u64
  ib_len :: u32
  ib_boffset :: u32

definition containing :: "u64 \<Rightarrow> u32 \<Rightarrow> InodeBuffer res" where
  "containing at cluster_bytes =
     (if cluster_bytes = 0 then Inl Panic
      else
        let start = at - at mod ucast cluster_bytes
        in Inr \<lparr>ib_blkno = start div of_nat BBSIZE, ib_len = cluster_bytes div of_nat BBSIZE, ib_boffset = ucast (at - start)\<rparr>)"

definition inode_log_format :: "u64 \<Rightarrow> u32 \<Rightarrow> InodeBuffer \<Rightarrow> bytes res" where
  "inode_log_format ino flds buffer =
     rbind (put (replicate INODE_LOG_FORMAT_SIZE 0) 0 (le_bytes16 XFS_LI_INODE)) (\<lambda>v.
     rbind (put v 2 (le_bytes16 2)) (\<lambda>v.
     rbind (put v 4 (le_bytes32 flds)) (\<lambda>v.
     rbind (put v 16 (le_bytes64 ino)) (\<lambda>v.
     rbind (put v 40 (le_bytes64 (ib_blkno buffer))) (\<lambda>v.
     rbind (put v 48 (le_bytes32 (ib_len buffer))) (\<lambda>v.
       put v 52 (le_bytes32 (ib_boffset buffer))))))))"

definition inode_log_format_with_fork :: "u64 \<Rightarrow> u32 \<Rightarrow> InodeBuffer \<Rightarrow> u16 \<Rightarrow> bytes res" where
  "inode_log_format_with_fork ino flds buffer dsize =
     rbind (inode_log_format ino flds buffer) (\<lambda>v.
     rbind (put v 2 (le_bytes16 3)) (\<lambda>v. put v 10 (le_bytes16 dsize)))"

definition inode_log_format_with_forks :: "u64 \<Rightarrow> u32 \<Rightarrow> InodeBuffer \<Rightarrow> u16 \<Rightarrow> u16 \<Rightarrow> bytes res" where
  "inode_log_format_with_forks ino flds buffer dsize asize =
     rbind (inode_log_format ino flds buffer) (\<lambda>v.
     rbind (put v 2 (le_bytes16 (2 + (if 0 < dsize then 1 else 0) + (if 0 < asize then 1 else 0)))) (\<lambda>v.
     rbind (put v 10 (le_bytes16 dsize)) (\<lambda>v. put v 8 (le_bytes16 asize))))"

definition inode_ops_with_attr :: "u64 \<Rightarrow> InodeBuffer \<Rightarrow> bytes \<Rightarrow> bytes \<Rightarrow> u32 \<Rightarrow> Op list res" where
  "inode_ops_with_attr ino buffer logged_core afork afields =
     (if afork = []
      then rbind (inode_log_format ino XFS_ILOG_CORE buffer) (\<lambda>f.
             Inr [\<lparr>op_flags = 0, op_data = f\<rparr>, \<lparr>op_flags = 0, op_data = logged_core\<rparr>])
      else
        rbind (inode_log_format_with_forks ino (XFS_ILOG_CORE OR afields) buffer 0 (of_nat (length afork))) (\<lambda>f.
          Inr [\<lparr>op_flags = 0, op_data = f\<rparr>, \<lparr>op_flags = 0, op_data = logged_core\<rparr>,
               \<lparr>op_flags = 0, op_data = resize afork (div_ceil (length afork) 4 * 4)\<rparr>]))"

definition ag_offset :: "Superblock \<Rightarrow> u32 \<Rightarrow> u64" where
  "ag_offset sb ag = ucast ag * ucast (sb_agblocks sb) * ucast (sb_blocksize sb)"

definition inode_offset :: "Superblock \<Rightarrow> u64 \<Rightarrow> u64 res" where
  "inode_offset sb ino =
     (case split_ino sb ino of (ag, ag_block, offset) \<Rightarrow>
        if sb_agcount sb \<le> ag then Inl (BadSuperblock ''inode names an allocation group the filesystem does not have'')
        else Inr (ag_offset sb ag + ucast ag_block * ucast (sb_blocksize sb) + ucast offset * ucast (sb_inodesize sb)))"

text \<open>The image an inode has once a record rewrote it: its core, its data fork behind it, its checksum.\<close>

definition inode_image :: "crc_crate \<Rightarrow> Superblock \<Rightarrow> bytes \<Rightarrow> bytes \<Rightarrow> bytes res" where
  "inode_image C sb core fork =
     (let at = (if 4 < length core \<and> core ! 4 = 3 then XFS_DINODE_V3_SIZE else XFS_DINODE_V2_SIZE);
          sz = unat (sb_inodesize sb)
      in rbind (if fork = [] then Inr core
                else put (if length core < at + length fork then resize core (at + length fork) else core) at fork) (\<lambda>image.
         let image = (if length image < sz then resize image sz else image)
         in if 4 < length image \<and> image ! 4 = 3
            then rbind (slice image 0 sz) (\<lambda>whole.
                 rbind (crc32c_with_zeroed_crc C whole DI_CRC) (\<lambda>crc. put image DI_CRC (le_bytes32 crc)))
            else Inr image))"

definition logged_inode :: "crc_crate \<Rightarrow> 'd Device \<Rightarrow> Superblock \<Rightarrow> u64 \<Rightarrow> bytes \<Rightarrow> bytes \<Rightarrow> ('d Mount, unit) op" where
  "logged_inode C D sb ino core fork s =
     (case mt_overlay s of
        None \<Rightarrow> (s, Inr ())
      | Some _ \<Rightarrow>
          sbind (slift (inode_image C sb core fork)) (\<lambda>image.
          sbind (slift (inode_offset sb ino)) (\<lambda>at. logged_buffer D at image)) s)"

definition inode_checkpoint :: "u64 \<Rightarrow> InodeBuffer \<Rightarrow> bytes \<Rightarrow> u32 \<Rightarrow> Op list res" where
  "inode_checkpoint ino buffer core tid =
     rbind (inode_log_format ino XFS_ILOG_CORE buffer) (\<lambda>f.
       Inr [\<lparr>op_flags = XLOG_START_TRANS, op_data = []\<rparr>,
            \<lparr>op_flags = 0, op_data = trans_header tid XFS_TRANS_CHECKPOINT 2\<rparr>,
            \<lparr>op_flags = 0, op_data = f\<rparr>, \<lparr>op_flags = 0, op_data = core\<rparr>,
            \<lparr>op_flags = XLOG_COMMIT_TRANS, op_data = []\<rparr>])"

text \<open>Building the operations cannot fail: every field fits the format.\<close>

definition log_inode_core :: "crc_crate \<Rightarrow> 'd Device \<Rightarrow> Superblock \<Rightarrow> u64 \<Rightarrow> bytes \<Rightarrow> ('d Mount, u64) op" where
  "log_inode_core C D sb ino disk_core =
     sbind writable_device (\<lambda>_.
     case log_dinode_from_disk disk_core of
       Inl Dinode_Panic \<Rightarrow> slift (Inl Panic)
     | Inl (Refused why) \<Rightarrow> slift (Inl (UnsupportedFeature ''inode cannot be logged''))
     | Inr core \<Rightarrow>
         sbind (slift (inode_offset sb ino)) (\<lambda>at.
         sbind (slift (containing at (inode_cluster_bytes sb))) (\<lambda>buffer.
         sbind (commit_record C D sb (\<lambda>tid. case inode_checkpoint ino buffer core tid of Inr ops \<Rightarrow> ops | Inl _ \<Rightarrow> [])) (\<lambda>lsn.
         sbind (logged_inode C D sb ino disk_core []) (\<lambda>_. slift (Inr lsn))))))"

section \<open>The format read back\<close>

lemma containing_ok:
  assumes "0 < unat c" "unat c mod BBSIZE = 0"
  shows "\<exists>b. containing at c = Inr b \<and> ib_blkno b * of_nat BBSIZE + ucast (ib_boffset b) = at \<and> unat (ib_len b) = unat c div BBSIZE"
proof -
  let ?c = "unat c" and ?a = "unat at"
  have c: "unat (ucast c :: u64) = ?c" by (simp add: unsigned_ucast_eq take_bit_nat_eq_self less_trans [OF unat_lt32])
  define start where "start = at - at mod ucast c"
  have m: "unat (at mod ucast c) = ?a mod ?c" by (simp add: unat_mod c)
  have s: "unat start = ?a - ?a mod ?c" using m by (simp add: start_def unat_sub_le word_le_nat_alt)
  have "?a - ?a mod ?c = ?a div ?c * ?c" by (simp add: minus_mod_eq_div_mult)
  then have s512: "unat start mod BBSIZE = 0" using assms(2) s by (simp add: mod_mult_right_eq [symmetric])
  have "start mod of_nat BBSIZE = 0" using s512 by (simp add: word_unat_eq_iff unat_mod BBSIZE_def)
  then have blk: "start div of_nat BBSIZE * of_nat BBSIZE = start" using div_mult_mod_eq [of start "of_nat BBSIZE"] by simp
  have off: "at - start = at mod ucast c" by (simp add: start_def)
  have "?a mod ?c < 2 ^ 32" using less_trans [OF mod_less_divisor [of ?c ?a] unat_lt32 [of c]] assms(1) by simp
  then have "ucast (ucast (at - start) :: u32) = at - start"
    using m by (simp add: off word_unat_eq_iff unsigned_ucast_eq unsigned_take_bit_eq take_bit_nat_eq_self)
  then have "start div of_nat BBSIZE * of_nat BBSIZE + ucast (ucast (at - start) :: u32) = at" unfolding blk by simp
  moreover have "c \<noteq> 0" using assms(1) by auto
  moreover have "unat (c div of_nat BBSIZE) = ?c div BBSIZE" by (simp add: unat_div BBSIZE_def)
  ultimately show ?thesis by (simp add: containing_def Let_def start_def)
qed

lemma containing_at:
  assumes "containing at c = Inr b" "unat c mod BBSIZE = 0"
  shows "ib_blkno b * of_nat BBSIZE + ucast (ib_boffset b) = at"
proof -
  have "c \<noteq> 0" using assms(1) by (auto simp: containing_def)
  then have "0 < unat c" by (simp add: word_unat_eq_iff)
  then show ?thesis using containing_ok [OF _ assms(2), of at] assms(1) by auto
qed

lemma drop_blit_end: "at + length s = length b \<Longrightarrow> drop at (blit b at s) = s"
  by (simp add: blit_def)

lemma inode_log_format_ok:
  "\<exists>f. inode_log_format ino flds b = Inr f \<and> length f = INODE_LOG_FORMAT_SIZE \<and> le32 f 4 = Inr flds \<and> le16 f 8 = Inr 0 \<and>
    le16 f 10 = Inr 0 \<and> le64 f 40 = Inr (ib_blkno b) \<and> le32 f 48 = Inr (ib_len b) \<and> le32 f 52 = Inr (ib_boffset b)"
  by (simp add: inode_log_format_def put_fits INODE_LOG_FORMAT_SIZE_def read_ok take_drop_blit_same take_drop_blit_other from_be_zeros
      drop_blit_end)


section \<open>An inode core replayed\<close>

text \<open>The core laid over an inode, keeping the unlinked pointer the inode had.\<close>

definition core_over :: "bytes \<Rightarrow> bytes \<Rightarrow> bytes" where
  "core_over inode disk =
     (if NEXT_UNLINKED + 4 \<le> length disk then blit (blit inode 0 disk) NEXT_UNLINKED (take 4 (drop NEXT_UNLINKED inode))
      else blit inode 0 disk)"

lemma core_over_length [simp]: "length disk \<le> length inode \<Longrightarrow> 100 \<le> length inode \<Longrightarrow> length (core_over inode disk) = length inode"
  by (simp add: core_over_def NEXT_UNLINKED_def)

lemma apply_core_over:
  assumes "log_dinode_to_disk core = Inr disk" "length disk \<le> length inode" "100 \<le> length inode"
  shows "apply_core XFS_ILOG_CORE (core # rest) inode = Inr (rest, core_over inode disk)"
  using assms by (simp add: apply_core_def XFS_ILOG_CORE_def slice_def put_fits core_over_def NEXT_UNLINKED_def)

text \<open>An item that logs a core and nothing else: the inode read, the core laid over it, the checksum and the
  write.\<close>

lemma apply_inode_core:
  assumes f: "inode_log_format ino XFS_ILOG_CORE b = Inr f" and at: "ib_blkno b * of_nat BBSIZE + ucast (ib_boffset b) = at"
    and core: "log_dinode_to_disk core = Inr disk" and len: "length disk \<le> unat (sb_inodesize sb)" "100 \<le> unat (sb_inodesize sb)"
    and rd: "overlay_read_at dev logged at (unat (sb_inodesize sb)) = Inr inode" "length inode = unat (sb_inodesize sb)"
    and free: "cancelled (ib_blkno b, ib_len b) = None"
  shows "apply_inode C sb dev logged \<lparr>it_regions = [f, core], it_total = n\<rparr> cancelled =
    rbind (stamp_inode C sb (core_over inode disk)) (\<lambda>image. rbind (wrote dev logged at image) (\<lambda>logged'. Inr (True, logged')))"
proof -
  have F: "\<not> length f < INODE_LOG_FORMAT_SIZE" "le32 f 4 = Inr XFS_ILOG_CORE" "le16 f 8 = Inr 0" "le16 f 10 = Inr 0"
    "le64 f 40 = Inr (ib_blkno b)" "le32 f 48 = Inr (ib_len b)" "le32 f 52 = Inr (ib_boffset b)"
    using inode_log_format_ok [of ino XFS_ILOG_CORE b] f by auto
  have none: "XFS_ILOG_CORE AND FORK_FIELDS = 0" "XFS_ILOG_CORE AND ATTR_FORK_FIELDS = 0"
    by (simp_all add: XFS_ILOG_CORE_def FORK_FIELDS_def ATTR_FORK_FIELDS_def)
  have "apply_core XFS_ILOG_CORE [core] inode = Inr ([], core_over inode disk)"
    using apply_core_over [OF core, of inode "[]"] len rd(2) by simp
  moreover have "byte_at (core_over inode disk) 4 = Inr (core_over inode disk ! 4)"
    using len rd(2) by (simp add: byte_at_def)
  ultimately show ?thesis
    using F none rd(1) at free
    by (simp add: apply_inode_def region0_def is_cancelled_def Let_def apply_data_fork_def apply_attr_fork_def)
qed

text \<open>C9. An inode core logged is the core recovery brings back: on a v5 volume, at any basic-block address,
  the item for an inode's new core, replayed over the inode as it was, gives an inode whose core is the new
  one byte for byte, except the unlinked pointer, which stays what the inode had, and the checksum, which
  matches; the bytes behind the core and the rest of the device are untouched.\<close>

theorem logged_core_replays:
  assumes v5: "is_v5 sb" and m: "mounted dev disk logged" and at: "unat at mod BBSIZE = 0" "unat at + unat (sb_inodesize sb) \<le> length disk"
    and sz: "176 \<le> unat (sb_inodesize sb)" "length raw = unat (sb_inodesize sb)" and core: "log_dinode_from_disk raw = Inr core"
    and b: "containing at c = Inr b" "unat c mod BBSIZE = 0" and f: "inode_log_format ino XFS_ILOG_CORE b = Inr f"
    and free: "cancelled (ib_blkno b, ib_len b) = None"
  defines "old \<equiv> take (unat (sb_inodesize sb)) (drop (unat at) (view disk logged))"
  shows "\<exists>crc logged'. apply_inode C sb dev logged \<lparr>it_regions = [f, core], it_total = 2\<rparr> cancelled = Inr (True, logged') \<and>
    crc32c_with_zeroed_crc C (core_over old (blank_core raw)) DI_CRC = Inr crc \<and>
    mounted dev disk logged' \<and>
    view disk logged' = blit (view disk logged) (unat at) (blit (core_over old (blank_core raw)) DI_CRC (le_bytes32 crc))"
proof -
  let ?n = "unat (sb_inodesize sb)"
  note b' = containing_at [OF b]
  have disk: "log_dinode_to_disk core = Inr (blank_core raw)" using dinode_back [of raw] core by simp
  have bl: "length (blank_core raw) \<le> ?n" using sz by (simp add: blank_core_def)
  have rd: "overlay_read_at dev logged at ?n = Inr old" "length old = ?n"
    using overlay_read_view [OF m at(2)] at(2) by (simp_all add: old_def)
  let ?new = "core_over old (blank_core raw)"
  have ln: "length ?new = ?n" using bl sz rd(2) by simp
  obtain crc where crc: "crc32c_with_zeroed_crc C ?new DI_CRC = Inr crc"
    using ln sz by (simp add: crc32c_with_zeroed_crc_def put_def DI_CRC_def slice_def)
  have st: "stamp_inode C sb ?new = Inr (blit ?new DI_CRC (le_bytes32 crc))"
    using v5 ln sz crc by (simp add: stamp_inode_def DI_CRC_def put_fits)
  have "length (blit ?new DI_CRC (le_bytes32 crc)) = ?n" using ln sz by (simp add: DI_CRC_def)
  then obtain logged' where w: "wrote dev logged at (blit ?new DI_CRC (le_bytes32 crc)) = Inr logged'" "mounted dev disk logged'"
    "view disk logged' = blit (view disk logged) (unat at) (blit ?new DI_CRC (le_bytes32 crc))"
    using wrote_view [OF m at(1), of "blit ?new DI_CRC (le_bytes32 crc)"] at(2) by auto
  have "apply_inode C sb dev logged \<lparr>it_regions = [f, core], it_total = 2\<rparr> cancelled = Inr (True, logged')"
    using apply_inode_core [where cancelled = cancelled, OF f b' disk bl _ rd free] sz st w(1) by simp
  then show ?thesis using crc w by blast
qed

lemma core_accepted:
  assumes "raw ! 4 = 2 \<or> raw ! 4 = 3" "176 \<le> length raw"
  shows "\<exists>core. log_dinode_from_disk raw = Inr core"
proof -
  obtain sz where "core_size (raw ! 4) = Some sz" "sz \<le> length raw"
    using assms by (auto simp: core_size_def V2_LOG_DINODE_SIZE_def LOG_DINODE_SIZE_def)
  then show ?thesis using from_disk_mirror [of raw sz] assms(2) by auto
qed

lemma sample_buffer: "\<exists>b. containing at 8192 = Inr b"
  by (simp add: containing_def Let_def)

lemma logged_core_replays_witness:
  "\<exists>core b f logged'. log_dinode_from_disk (replicate 4 0 @ [3] @ replicate 251 0) = Inr core \<and> containing 512 8192 = Inr b \<and>
     inode_log_format 133 XFS_ILOG_CORE b = Inr f \<and>
     apply_inode sample_crc (sample_sb\<lparr>sb_versionnum := 5\<rparr>) (read_image (replicate 8192 0)) [] \<lparr>it_regions = [f, core], it_total = 2\<rparr> Map.empty =
       Inr (True, logged')"
proof -
  let ?raw = "replicate 4 0 @ [3] @ replicate 251 0 :: bytes" and ?sb = "sample_sb\<lparr>sb_versionnum := 5\<rparr>"
  have m: "mounted (read_image (replicate 8192 0)) (replicate 8192 0) []" by (rule read_image_mounted) (simp_all add: BBSIZE_def)
  obtain core where core: "log_dinode_from_disk ?raw = Inr core" using core_accepted [of ?raw] by (auto simp: nth_append)
  obtain b where b: "containing 512 8192 = Inr b" using sample_buffer by blast
  obtain f where f: "inode_log_format 133 XFS_ILOG_CORE b = Inr f" using inode_log_format_ok by blast
  have "is_v5 ?sb" by (simp add: is_v5_def version_def XFS_SB_VERSION_NUMBITS_def)
  from logged_core_replays [where cancelled = Map.empty and C = sample_crc, OF this m _ _ _ _ core b _ f] core b f show ?thesis
    by (auto simp: BBSIZE_def sample_sb_def)
qed

text \<open>C40. An inode in an odd slot of a v4 volume stops recovery with a panic: where inodes are 256 bytes, every
  other one starts in the middle of a basic block, and replaying its logged core asks the overlay to write
  there, which it asserts never happens.\<close>

theorem odd_slot_panics:
  assumes v4: "\<not> is_v5 sb" and m: "mounted dev disk logged" and sz: "sb_inodesize sb = 256" "length raw = 256"
    and at: "unat at mod BBSIZE = 256" "unat at + 256 \<le> length disk" and core: "log_dinode_from_disk raw = Inr core"
    and b: "containing at c = Inr b" "unat c mod BBSIZE = 0" and f: "inode_log_format ino XFS_ILOG_CORE b = Inr f"
    and free: "cancelled (ib_blkno b, ib_len b) = None"
  shows "apply_inode C sb dev logged \<lparr>it_regions = [f, core], it_total = 2\<rparr> cancelled = Inl Panic"
proof -
  note b' = containing_at [OF b]
  have disk: "log_dinode_to_disk core = Inr (blank_core raw)" using dinode_back [of raw] core by simp
  have bl: "length (blank_core raw) \<le> unat (sb_inodesize sb)" using sz by (simp add: blank_core_def)
  let ?old = "take 256 (drop (unat at) (view disk logged))"
  have rd: "overlay_read_at dev logged at (unat (sb_inodesize sb)) = Inr ?old" "length ?old = unat (sb_inodesize sb)"
    using overlay_read_view [OF m, of at 256] at(2) sz by simp_all
  show ?thesis
    using apply_inode_core [where cancelled = cancelled and C = C and n = 2, OF f b' disk bl _ rd free] sz v4 at(1)
    by (simp add: stamp_inode_def wrote_def)
qed

lemma odd_slot_panics_witness:
  "\<exists>core b f. log_dinode_from_disk (replicate 4 0 @ [2] @ replicate 251 0) = Inr core \<and> containing 256 8192 = Inr b \<and>
     inode_log_format 129 XFS_ILOG_CORE b = Inr f \<and>
     apply_inode sample_crc sample_sb (read_image (replicate 8192 0)) [] \<lparr>it_regions = [f, core], it_total = 2\<rparr> Map.empty = Inl Panic"
proof -
  let ?raw = "replicate 4 0 @ [2] @ replicate 251 0 :: bytes"
  have m: "mounted (read_image (replicate 8192 0)) (replicate 8192 0) []" by (rule read_image_mounted) (simp_all add: BBSIZE_def)
  obtain core where core: "log_dinode_from_disk ?raw = Inr core" using core_accepted [of ?raw] by (auto simp: nth_append)
  obtain b where b: "containing 256 8192 = Inr b" using sample_buffer by blast
  obtain f where f: "inode_log_format 129 XFS_ILOG_CORE b = Inr f" using inode_log_format_ok by blast
  have "\<not> is_v5 sample_sb" by (simp add: is_v5_def version_def XFS_SB_VERSION_NUMBITS_def sample_sb_def)
  from odd_slot_panics [where cancelled = Map.empty and C = sample_crc, OF this m _ _ _ _ core b _ f] core b f show ?thesis
    by (auto simp: BBSIZE_def sample_sb_def)
qed


section \<open>The mount and recovery agree\<close>

lemma core_over_same:
  assumes "length raw = length old" "176 \<le> length raw" "raw ! 4 = 3" "take 4 (drop 96 raw) = take 4 (drop 96 old)" "drop 176 raw = drop 176 old"
  shows "core_over old (blank_core raw) = blit raw 100 [0, 0, 0, 0]"
proof (rule nth_equalityI)
  have bl: "blank_core raw = blit (take 176 raw) 100 [0, 0, 0, 0]" using assms(3) by (simp add: blank_core_def)
  show "length (core_over old (blank_core raw)) = length (blit raw 100 [0, 0, 0, 0])" using assms(1,2) bl by simp
  fix i assume "i < length (core_over old (blank_core raw))"
  then have i: "i < length raw" using assms(1,2) bl by simp
  have far: "old ! i = raw ! i" if "176 \<le> i"
    using arg_cong [OF assms(5), of "\<lambda>l. l ! (i - 176)"] that i assms(1,2) by simp
  have unlinked: "old ! i = raw ! i" if "96 \<le> i" "i < 100"
    using arg_cong [OF assms(4), of "\<lambda>l. l ! (i - 96)"] that i assms(1) by simp
  show "core_over old (blank_core raw) ! i = blit raw 100 [0, 0, 0, 0] ! i"
  proof (cases "i < 96")
    case True
    then show ?thesis using i assms(1,2) by (simp add: core_over_def NEXT_UNLINKED_def nth_blit bl)
  next
    case False
    then show ?thesis using i assms(1,2) far unlinked
      by (cases "i < 100"; cases "i < 104"; cases "i < 176") (simp_all add: core_over_def NEXT_UNLINKED_def nth_blit bl)
  qed
qed

lemma crc_of_blank:
  assumes "104 \<le> length raw"
  shows "crc32c_with_zeroed_crc C (blit raw 100 [0, 0, 0, 0]) DI_CRC = crc32c_with_zeroed_crc C raw DI_CRC"
proof -
  have "take 100 (blit raw 100 [0, 0, 0, 0]) = take 100 raw" "drop 104 (blit raw 100 [0, 0, 0, 0]) = drop 104 raw"
    using assms by (auto simp: blit_def)
  then show ?thesis using assms by (simp add: crc32c_with_zeroed_crc_def DI_CRC_def put_def slice_def blit_def)
qed

lemma image_as_replayed:
  assumes "is_v5 sb" "length raw = unat (sb_inodesize sb)" "length old = unat (sb_inodesize sb)" "176 \<le> unat (sb_inodesize sb)" "raw ! 4 = 3"
    "take 4 (drop 96 raw) = take 4 (drop 96 old)" "drop 176 raw = drop 176 old"
  shows "inode_image C sb raw [] = stamp_inode C sb (core_over old (blank_core raw))"
proof -
  have len: "length raw = length old" "176 \<le> length raw" using assms by simp_all
  have n: "unat (sb_inodesize sb) = length raw" using assms(2) by simp
  have same: "blit (blit raw 100 [0, 0, 0, 0]) 100 (le_bytes32 crc) = blit raw 100 (le_bytes32 crc)" for crc
    using len by (intro nth_equalityI) (auto simp: nth_blit)
  show ?thesis
    unfolding core_over_same [OF len assms(5-7)]
    using assms(1,5) len crc_of_blank [of raw C]
    by (cases "crc32c_with_zeroed_crc C raw DI_CRC")
      (simp_all add: inode_image_def stamp_inode_def Let_def n slice_def put_fits DI_CRC_def same)
qed

text \<open>C10. A mount reads what recovery would give.  On a v5 volume, for an inode at a basic-block address of the device
  whose buffer no record cancelled, when the new core keeps the unlinked pointer and the bytes behind the core, what the mount lays in its overlay when it logs an inode's new core is exactly, checksum
  included, what a replay of the logged item leaves there: the core turned into its logged form and back, read
  over the inode as it was, stamped, and written to the address the item's buffer names.\<close>

theorem mount_agrees_with_recovery:
  assumes v5: "is_v5 sb" and o: "mt_overlay s = Some logged" and m: "mounted (dv_read D (mt_device s)) disk logged"
    and at: "inode_offset sb ino = Inr at" "unat at mod BBSIZE = 0" "unat at + unat (sb_inodesize sb) \<le> length disk"
    and sz: "176 \<le> unat (sb_inodesize sb)" "length raw = unat (sb_inodesize sb)" and v3: "raw ! 4 = 3"
    and core: "log_dinode_from_disk raw = Inr core"
    and b: "containing at c = Inr b" "unat c mod BBSIZE = 0" and f: "inode_log_format ino XFS_ILOG_CORE b = Inr f"
    and free: "cancelled (ib_blkno b, ib_len b) = None"
    and keeps: "take 4 (drop 96 raw) = take 4 (drop (unat at + 96) (view disk logged))"
      "drop 176 raw = take (unat (sb_inodesize sb) - 176) (drop (unat at + 176) (view disk logged))"
  shows "\<exists>logged'. logged_inode C D sb ino raw [] s = (s\<lparr>mt_overlay := Some logged'\<rparr>, Inr ()) \<and>
    apply_inode C sb (dv_read D (mt_device s)) logged \<lparr>it_regions = [f, core], it_total = 2\<rparr> cancelled = Inr (True, logged')"
proof -
  let ?n = "unat (sb_inodesize sb)" and ?dev = "dv_read D (mt_device s)"
  define old where "old = take ?n (drop (unat at) (view disk logged))"
  note b' = containing_at [OF b]
  have disk: "log_dinode_to_disk core = Inr (blank_core raw)" using dinode_back [of raw] core by simp
  have bl: "length (blank_core raw) \<le> ?n" using sz by (simp add: blank_core_def)
  have rd: "overlay_read_at ?dev logged at ?n = Inr old" "length old = ?n"
    using overlay_read_view [OF m at(3)] at(3) by (simp_all add: old_def)
  have "take 4 (drop 96 raw) = take 4 (drop 96 old)" "drop 176 raw = drop 176 old"
    using keeps sz(1) by (simp_all add: old_def drop_take add.commute min_absorb1)
  with v5 sz v3 rd(2) have image: "inode_image C sb raw [] = stamp_inode C sb (core_over old (blank_core raw))"
    by (intro image_as_replayed) auto
  have ln: "length (core_over old (blank_core raw)) = ?n" using bl sz rd(2) by simp
  then obtain crc where "stamp_inode C sb (core_over old (blank_core raw)) = Inr (blit (core_over old (blank_core raw)) DI_CRC (le_bytes32 crc))"
    using v5 sz by (auto simp: stamp_inode_def DI_CRC_def put_fits crc32c_with_zeroed_crc_def put_def slice_def)
  then obtain im where st: "stamp_inode C sb (core_over old (blank_core raw)) = Inr im" "length im = ?n"
    using ln sz by (auto simp: DI_CRC_def)
  obtain logged' where w: "wrote ?dev logged at im = Inr logged'" using wrote_view [OF m at(2), of im] at(3) st(2) by auto
  have "apply_inode C sb ?dev logged \<lparr>it_regions = [f, core], it_total = 2\<rparr> cancelled = Inr (True, logged')"
    using apply_inode_core [where cancelled = cancelled, OF f b' disk bl _ rd free] sz st(1) w by simp
  moreover have "logged_inode C D sb ino raw [] s = (s\<lparr>mt_overlay := Some logged'\<rparr>, Inr ())"
    using o image st(1) at(1) w by (simp add: logged_inode_def sbind_def slift_def logged_buffer_def)
  ultimately show ?thesis by blast
qed

lemma mount_agrees_with_recovery_witness:
  "\<exists>core b f logged'. log_dinode_from_disk (replicate 4 0 @ [3] @ replicate 251 0) = Inr core \<and> containing 512 8192 = Inr b \<and>
     inode_log_format 2 XFS_ILOG_CORE b = Inr f \<and>
     logged_inode sample_crc mem_device (sample_sb\<lparr>sb_versionnum := 5\<rparr>) 2 (replicate 4 0 @ [3] @ replicate 251 0) []
       (fresh_mount (replicate 8192 0)) = ((fresh_mount (replicate 8192 0))\<lparr>mt_overlay := Some logged'\<rparr>, Inr ()) \<and>
     apply_inode sample_crc (sample_sb\<lparr>sb_versionnum := 5\<rparr>) (read_image (replicate 8192 0)) [] \<lparr>it_regions = [f, core], it_total = 2\<rparr> Map.empty =
       Inr (True, logged')"
proof -
  let ?raw = "replicate 4 0 @ [3] @ replicate 251 0 :: bytes" and ?sb = "sample_sb\<lparr>sb_versionnum := 5\<rparr>"
    and ?s = "fresh_mount (replicate 8192 0) :: bytes Mount"
  have m: "mounted (dv_read mem_device (mt_device ?s)) (replicate 8192 0) []"
    unfolding mem_device_def fresh_mount_def by simp (rule read_image_mounted, simp_all add: BBSIZE_def)
  obtain core where core: "log_dinode_from_disk ?raw = Inr core" using core_accepted [of ?raw] by (auto simp: nth_append)
  obtain b where b: "containing 512 8192 = Inr b" using sample_buffer by blast
  obtain f where f: "inode_log_format 2 XFS_ILOG_CORE b = Inr f" using inode_log_format_ok by blast
  have v5: "is_v5 ?sb" by (simp add: is_v5_def version_def XFS_SB_VERSION_NUMBITS_def)
  have at: "inode_offset ?sb 2 = Inr 512"
    by (simp add: inode_offset_def split_ino_def ag_offset_def sample_sb_def Let_def shl64_def shr64_def)
  have same: "view (replicate 8192 0) [] = replicate 8192 0" using map_nth [of "replicate 8192 0 :: bytes"] by (simp add: view_def)
  have "\<exists>logged'. logged_inode sample_crc mem_device ?sb 2 ?raw [] ?s = (?s\<lparr>mt_overlay := Some logged'\<rparr>, Inr ()) \<and>
      apply_inode sample_crc ?sb (dv_read mem_device (mt_device ?s)) [] \<lparr>it_regions = [f, core], it_total = 2\<rparr> Map.empty = Inr (True, logged')"
    by (rule mount_agrees_with_recovery [OF v5 _ m at _ _ _ _ _ core b _ f])
      (simp_all add: fresh_mount_def BBSIZE_def sample_sb_def nth_append same)
  then show ?thesis using core b f by (auto simp: fresh_mount_def mem_device_def)
qed

end
