(* ===== verification/Rmap.thy ===== *)
theory Rmap
  imports FreeSpace "HOL-Library.Product_Lexorder" "HOL-Library.Multiset"
begin

unbundle bit_operations_syntax

text \<open>
  The reverse mapping of a group (\<^verbatim>\<open>src/src/rmap.rs\<close>): the record and its codec, the keys a node holds for
  the records below it (\<open>high_key\<close>, \<open>write_keys\<close>), and the three edits of the list of records: \<open>insert\<close> where
  blocks have one owner, \<open>insert_shared\<close> where they may have several, and \<open>remove\<close>.

  The abstraction is the multiset of single-block mappings, \<open>owned\<close>: a block, its owner, the flags and the
  place in the file.  Every edit is shown to add or take exactly the mappings of its record, and to keep the
  records in the order of the tree; where no block is shared the records are also shown to stay disjoint and
  as few as the code can make them.

  The owner is an \<^verbatim>\<open>i64\<close>, kept as its 64 bits and read with \<^term>\<open>sint\<close>.
\<close>

section \<open>Definitions\<close>

definition RMAP_RECORD :: nat where "RMAP_RECORD = 24"
definition OWN_AG :: u64 where "OWN_AG = - 5"
definition OWN_INOBT :: u64 where "OWN_INOBT = - 6"
definition OFF_BMBT_BLOCK :: u64 where "OFF_BMBT_BLOCK = push_bit 62 1"
definition OFF_UNWRITTEN :: u64 where "OFF_UNWRITTEN = push_bit 61 1"
definition OFF_MASK :: u64 where "OFF_MASK = push_bit 54 1 - 1"
definition RMAP_KEY :: nat where "RMAP_KEY = 20"

record Rmap =
  rm_startblock :: u32
  rm_blockcount :: u32
  rm_owner :: u64
  rm_offset :: u64

definition file_offset :: "Rmap \<Rightarrow> u64" where
  "file_offset r = rm_offset r AND OFF_MASK"

definition rm_flags :: "Rmap \<Rightarrow> u64" where
  "rm_flags r = rm_offset r AND NOT OFF_MASK"

definition is_reserved_owner :: "Rmap \<Rightarrow> bool" where
  "is_reserved_owner r \<longleftrightarrow> sint (rm_owner r) < 0"

definition checked_add32 :: "u32 \<Rightarrow> u32 \<Rightarrow> u32 option" where
  "checked_add32 a b = (if unat a + unat b < 2 ^ 32 then Some (a + b) else None)"

definition saturating_add32 :: "u32 \<Rightarrow> u32 \<Rightarrow> u32" where
  "saturating_add32 a b = (if unat a + unat b < 2 ^ 32 then a + b else - 1)"

definition continues_into :: "Rmap \<Rightarrow> Rmap \<Rightarrow> bool" where
  "continues_into r other \<longleftrightarrow>
     \<not> (rm_owner r \<noteq> rm_owner other \<or> rm_flags r \<noteq> rm_flags other) \<and>
     checked_add32 (rm_startblock r) (rm_blockcount r) = Some (rm_startblock other) \<and>
     (is_reserved_owner r \<or> file_offset r + ucast (rm_blockcount r) = file_offset other)"

definition rmap_decode :: "bytes \<Rightarrow> nat \<Rightarrow> Rmap res" where
  "rmap_decode buf at =
     rbind (be32 buf at) (\<lambda>s. rbind (be32 buf (at + 4)) (\<lambda>c. rbind (be64 buf (at + 8)) (\<lambda>ow. rbind (be64 buf (at + 16)) (\<lambda>off.
       Inr \<lparr>rm_startblock = s, rm_blockcount = c, rm_owner = ow, rm_offset = off\<rparr>))))"

definition rmap_encode :: "bytes \<Rightarrow> nat \<Rightarrow> Rmap \<Rightarrow> bytes res" where
  "rmap_encode buf at r =
     rbind (put buf at (be_bytes32 (rm_startblock r))) (\<lambda>buf.
     rbind (put buf (at + 4) (be_bytes32 (rm_blockcount r))) (\<lambda>buf.
     rbind (put buf (at + 8) (be_bytes64 (rm_owner r))) (\<lambda>buf.
       put buf (at + 16) (be_bytes64 (rm_offset r)))))"

definition rmap_encode_key :: "bytes \<Rightarrow> nat \<Rightarrow> Rmap \<Rightarrow> bytes res" where
  "rmap_encode_key buf at r =
     rbind (put buf at (be_bytes32 (rm_startblock r))) (\<lambda>buf.
     rbind (put buf (at + 4) (be_bytes64 (rm_owner r))) (\<lambda>buf.
       put buf (at + 12) (be_bytes64 (rm_offset r))))"

definition off_record :: "Rmap \<Rightarrow> bool" where
  "off_record r \<longleftrightarrow> is_reserved_owner r \<or> rm_offset r AND OFF_BMBT_BLOCK \<noteq> 0"

definition high_key :: "Rmap \<Rightarrow> Rmap" where
  "high_key r =
     (let adjust = (if rm_blockcount r = 0 then 0 else rm_blockcount r - 1)
      in \<lparr>rm_startblock = saturating_add32 (rm_startblock r) adjust, rm_blockcount = 0, rm_owner = rm_owner r,
          rm_offset = (if off_record r then rm_offset r
                       else ((rm_offset r AND OFF_MASK) + ucast adjust) OR rm_flags r)\<rparr>)"

text \<open>\<^verbatim>\<open>Iterator::max_by_key\<close>, which keeps the last of equals, with the kernel's order of keys.\<close>

definition high_order :: "Rmap \<Rightarrow> u32 \<times> u64 \<times> u64" where
  "high_order k = (rm_startblock k, rm_owner k, rm_offset k AND OFF_MASK)"

fun max_key :: "Rmap \<Rightarrow> Rmap list \<Rightarrow> Rmap" where
  "max_key best [] = best"
| "max_key best (k # ks) = max_key (if high_order best \<le> high_order k then k else best) ks"

definition rmap_write_keys :: "bytes \<Rightarrow> nat \<Rightarrow> Rmap list \<Rightarrow> bytes res" where
  "rmap_write_keys buf at records =
     (case records of
        [] \<Rightarrow> Inr buf
      | r # rs \<Rightarrow>
          rbind (rmap_encode_key buf at r) (\<lambda>buf.
            rmap_encode_key buf (at + RMAP_KEY) (max_key (high_key r) (map high_key rs))))"

text \<open>\<^verbatim>\<open>insert\<close>.  An error is returned without the list: where three records would overflow the count the source
  has by then taken the last of them out of the vector it was lent.\<close>

definition rmap_overlap :: error where
  "rmap_overlap = UnsupportedFeature ''an extent overlaps the reverse-mapping record''"

definition rmap_overflow :: error where
  "rmap_overflow = UnsupportedFeature ''merging reverse-mapping records would overflow the block count''"

definition insert_index :: "Rmap list \<Rightarrow> Rmap \<Rightarrow> nat" where
  "insert_index records rec =
     (case position (\<lambda>r. rm_startblock rec < rm_startblock r) records of Some i \<Rightarrow> i | None \<Rightarrow> length records)"

definition rmap_insert :: "Rmap list \<Rightarrow> Rmap \<Rightarrow> Rmap list res" where
  "rmap_insert records rec =
     (let at = insert_index records rec;
          before = vec_before records at;
          after = vec_get records at
      in if (case before of
               Some b \<Rightarrow> (ucast (rm_startblock rec) :: u64) < ucast (rm_startblock b) + ucast (rm_blockcount b) | None \<Rightarrow> False)
         then Inl rmap_overlap
         else
           let joins_before = (case before of Some b \<Rightarrow> continues_into b rec | None \<Rightarrow> False);
               joins_after = (case after of Some a \<Rightarrow> continues_into rec a | None \<Rightarrow> False)
           in if joins_before \<and> joins_after then
                (let a = records ! at; records = vec_remove at records; b = records ! (at - 1)
                 in case Option.bind (checked_add32 (rm_blockcount b) (rm_blockcount rec)) (\<lambda>n. checked_add32 n (rm_blockcount a)) of
                      None \<Rightarrow> Inl (UnsupportedFeature ''merging three reverse-mapping records would overflow the block count'')
                    | Some n \<Rightarrow> Inr (records[at - 1 := b\<lparr>rm_blockcount := n\<rparr>]))
              else if joins_before then
                (let b = records ! (at - 1)
                 in case checked_add32 (rm_blockcount b) (rm_blockcount rec) of
                      None \<Rightarrow> Inl rmap_overflow
                    | Some n \<Rightarrow> Inr (records[at - 1 := b\<lparr>rm_blockcount := n\<rparr>]))
              else if joins_after then
                (let a = records ! at
                 in case checked_add32 (rm_blockcount a) (rm_blockcount rec) of
                      None \<Rightarrow> Inl rmap_overflow
                    | Some n \<Rightarrow> Inr (records[at := a\<lparr>rm_blockcount := n, rm_startblock := rm_startblock rec, rm_offset := rm_offset rec\<rparr>]))
              else Inr (vec_insert at rec records))"

text \<open>\<^verbatim>\<open>remove\<close>.\<close>

definition rm_stop :: "Rmap \<Rightarrow> u64" where
  "rm_stop r = ucast (rm_startblock r) + ucast (rm_blockcount r)"

definition key_order :: "Rmap \<Rightarrow> u32 \<times> u64 \<times> u64" where
  "key_order r = (rm_startblock r, rm_owner r, rm_offset r AND NOT OFF_UNWRITTEN)"

definition rmap_holds :: "Rmap \<Rightarrow> Rmap \<Rightarrow> bool" where
  "rmap_holds rec r \<longleftrightarrow>
     rm_owner r = rm_owner rec \<and> rm_flags r = rm_flags rec \<and>
     (ucast (rm_startblock r) :: u64) \<le> ucast (rm_startblock rec) \<and> rm_stop rec \<le> rm_stop r"

definition lines_up :: "Rmap \<Rightarrow> Rmap \<Rightarrow> bool" where
  "lines_up rec r \<longleftrightarrow>
     is_reserved_owner r \<or> rm_offset r AND OFF_BMBT_BLOCK \<noteq> 0 \<or>
     file_offset r + (ucast (rm_startblock rec) - ucast (rm_startblock r)) = file_offset rec"

definition cut_left :: "Rmap \<Rightarrow> Rmap \<Rightarrow> Rmap list" where
  "cut_left rec whole =
     (let s = ucast (rm_startblock rec) :: u64; ws = ucast (rm_startblock whole)
      in if ws < s then [whole\<lparr>rm_blockcount := ucast (s - ws)\<rparr>] else [])"

definition cut_right :: "Rmap \<Rightarrow> Rmap \<Rightarrow> Rmap list" where
  "cut_right rec whole =
     (if rm_stop rec < rm_stop whole
      then [\<lparr>rm_startblock = ucast (rm_stop rec), rm_blockcount = ucast (rm_stop whole - rm_stop rec), rm_owner = rm_owner whole,
             rm_offset = (if off_record whole then rm_offset whole
                          else ((rm_offset whole AND OFF_MASK) + (rm_stop rec - ucast (rm_startblock whole))) OR rm_flags whole)\<rparr>]
      else [])"

definition rmap_remove :: "Rmap list \<Rightarrow> Rmap \<Rightarrow> Rmap list res" where
  "rmap_remove records rec =
     (case (case position (\<lambda>r. rmap_holds rec r \<and> lines_up rec r) records of
              Some i \<Rightarrow> Some i | None \<Rightarrow> position (rmap_holds rec) records) of
        None \<Rightarrow> Inl (UnsupportedFeature ''no reverse-mapping record of that owner holds them'')
      | Some at \<Rightarrow>
          let whole = records ! at;
              records = vec_remove at records
          in Inr (sort_key key_order (take at records @ (cut_left rec whole @ cut_right rec whole) @ drop at records)))"

text \<open>\<^verbatim>\<open>insert_shared\<close>.\<close>

definition rmap_clash :: "Rmap \<Rightarrow> Rmap \<Rightarrow> bool" where
  "rmap_clash rec r \<longleftrightarrow>
     (ucast (rm_startblock r) :: u64) < rm_stop rec \<and> ucast (rm_startblock rec) < rm_stop r \<and>
     (off_record r \<or> off_record rec \<or>
      rm_owner r = rm_owner rec \<and> rm_flags r = rm_flags rec \<and>
      int (unat (file_offset r)) - int (unat (rm_startblock r)) = int (unat (file_offset rec)) - int (unat (rm_startblock rec)))"

definition join_before :: "Rmap list \<Rightarrow> Rmap \<Rightarrow> (Rmap list \<times> Rmap) res" where
  "join_before records rec =
     (case position (\<lambda>r. continues_into r rec) records of
        None \<Rightarrow> Inr (records, rec)
      | Some i \<Rightarrow>
          let before = records ! i
          in case checked_add32 (rm_blockcount before) (rm_blockcount rec) of
               None \<Rightarrow> Inl rmap_overflow
             | Some n \<Rightarrow> Inr (vec_remove i records, before\<lparr>rm_blockcount := n\<rparr>))"

definition join_after :: "Rmap list \<Rightarrow> Rmap \<Rightarrow> (Rmap list \<times> Rmap) res" where
  "join_after records rec =
     (case position (\<lambda>r. continues_into rec r) records of
        None \<Rightarrow> Inr (records, rec)
      | Some i \<Rightarrow>
          let after = records ! i
          in case checked_add32 (rm_blockcount rec) (rm_blockcount after) of
               None \<Rightarrow> Inl rmap_overflow
             | Some n \<Rightarrow> Inr (vec_remove i records, rec\<lparr>rm_blockcount := n\<rparr>))"

definition rmap_insert_shared :: "Rmap list \<Rightarrow> Rmap \<Rightarrow> Rmap list res" where
  "rmap_insert_shared records rec =
     (if list_ex (rmap_clash rec) records then Inl rmap_overlap
      else
        rbind (join_before records rec) (\<lambda>(records, rec).
        rbind (join_after records rec) (\<lambda>(records, rec).
          Inr (vec_insert (partition_point (\<lambda>r. key_order r < key_order rec) records) rec records))))"


section \<open>The mappings of a record\<close>

abbreviation rstart :: "Rmap \<Rightarrow> nat" where "rstart r \<equiv> unat (rm_startblock r)"
abbreviation rcount :: "Rmap \<Rightarrow> nat" where "rcount r \<equiv> unat (rm_blockcount r)"
abbreviation rend :: "Rmap \<Rightarrow> nat" where "rend r \<equiv> unat (rm_startblock r) + unat (rm_blockcount r)"

type_synonym mapping = "nat \<times> u64 \<times> u64 \<times> nat"

definition span :: "nat \<Rightarrow> u64 \<Rightarrow> u64 \<Rightarrow> bool \<Rightarrow> nat \<Rightarrow> nat \<Rightarrow> mapping multiset" where
  "span s ow fl meta f n = mset (map (\<lambda>i. (s + i, ow, fl, if meta then 0 else f + i)) [0..<n])"

definition maps :: "Rmap \<Rightarrow> mapping multiset" where
  "maps r = span (rstart r) (rm_owner r) (rm_flags r) (off_record r) (unat (file_offset r)) (rcount r)"

definition owned :: "Rmap list \<Rightarrow> mapping multiset" where
  "owned rs = \<Sum>\<^sub># (mset (map maps rs))"

text \<open>What every record of a group satisfies: it names blocks, they have 32-bit numbers, and the offsets of a
  file's blocks fit the field.\<close>

definition rmap_ok :: "Rmap \<Rightarrow> bool" where
  "rmap_ok r \<longleftrightarrow> 0 < rcount r \<and> rend r \<le> 2 ^ 32 \<and> (\<not> off_record r \<longrightarrow> unat (file_offset r) + rcount r \<le> 2 ^ 54)"

lemma owned_simps [simp]:
  "owned [] = {#}"
  "owned (r # rs) = maps r + owned rs"
  "owned (xs @ ys) = owned xs + owned ys"
  by (simp_all add: owned_def)

lemma owned_sort [simp]: "owned (sort_key f rs) = owned rs"
  by (simp add: owned_def)

lemma span_add: "span s ow fl meta f (m + n) = span s ow fl meta f m + span (s + m) ow fl meta (f + m) n"
proof -
  have shift: "[m..<m + n] = map (\<lambda>i. i + m) [0..<n]" by (simp add: map_add_upt add.commute)
  have "[0..<m + n] = [0..<m] @ map (\<lambda>i. i + m) [0..<n]" unfolding shift [symmetric] by (rule upt_add_eq_append) simp
  then show ?thesis unfolding span_def by (cases meta) (simp_all add: comp_def ac_simps del: upt_Suc)
qed

lemma span_off: "span s ow fl True f n = span s ow fl True g n"
  by (simp add: span_def)

lemma span_0 [simp]: "span s ow fl meta f 0 = {#}"
  by (simp add: span_def)

text \<open>The flags are the top ten bits of the offset, the place in the file the rest.\<close>

lemma OFF_MASK_mask: "OFF_MASK = mask 54"
  by (simp add: OFF_MASK_def mask_eq_exp_minus_1 push_bit_eq_mult)

lemma bit_BMBT: "x AND OFF_BMBT_BLOCK \<noteq> 0 \<longleftrightarrow> bit x 62" for x :: u64
proof -
  have "OFF_BMBT_BLOCK = 2 ^ 62" by (simp add: OFF_BMBT_BLOCK_def push_bit_eq_mult)
  then show ?thesis using and_exp_eq_0_iff_not_bit [of x 62] by metis
qed


lemma off_record_flags: "off_record r \<longleftrightarrow> sint (rm_owner r) < 0 \<or> bit (rm_flags r) 62"
  by (simp add: off_record_def is_reserved_owner_def bit_BMBT rm_flags_def OFF_MASK_mask bit_simps)

lemma off_record_same: "rm_owner r = rm_owner q \<Longrightarrow> rm_flags r = rm_flags q \<Longrightarrow> off_record r = off_record q"
  by (simp add: off_record_flags)

lemma off_record_upd [simp]:
  "off_record (r\<lparr>rm_blockcount := n\<rparr>) = off_record r" "rm_flags (r\<lparr>rm_blockcount := n\<rparr>) = rm_flags r"
  "file_offset (r\<lparr>rm_blockcount := n\<rparr>) = file_offset r" "off_record (r\<lparr>rm_startblock := b\<rparr>) = off_record r"
  "rm_flags (r\<lparr>rm_startblock := b\<rparr>) = rm_flags r" "file_offset (r\<lparr>rm_startblock := b\<rparr>) = file_offset r"
  by (simp_all add: off_record_def is_reserved_owner_def rm_flags_def file_offset_def)

lemma file_offset_less: "unat (file_offset r) < 2 ^ 54"
proof -
  have "file_offset r = take_bit 54 (rm_offset r)" by (simp add: file_offset_def OFF_MASK_mask take_bit_eq_mask)
  then show ?thesis by (metis unsigned_take_bit_eq take_bit_nat_less_exp)
qed

lemma small_take_bit: "unat f < 2 ^ 54 \<Longrightarrow> take_bit 54 f = f" for f :: u64
  by (metis take_bit_nat_eq_self unsigned_take_bit_eq word_unat_eq_iff)

lemma offset_parts:
  assumes "unat f < 2 ^ 54"
  shows "(f OR (x AND NOT OFF_MASK)) AND OFF_MASK = f" "(f OR (x AND NOT OFF_MASK)) AND NOT OFF_MASK = x AND NOT OFF_MASK"
proof -
  have b: "bit f i \<Longrightarrow> i < 54" for i using small_take_bit [OF assms] by (metis bit_take_bit_iff)
  show "(f OR (x AND NOT OFF_MASK)) AND OFF_MASK = f" "(f OR (x AND NOT OFF_MASK)) AND NOT OFF_MASK = x AND NOT OFF_MASK"
    by (rule bit_eqI; use b in \<open>auto simp: OFF_MASK_mask bit_simps\<close>)+
qed

lemma checked_add32_Some: "checked_add32 a b = Some n \<longleftrightarrow> unat n = unat a + unat b"
proof
  assume "checked_add32 a b = Some n"
  then show "unat n = unat a + unat b" using unat_add_small [of a b] by (auto simp: checked_add32_def split: if_splits)
next
  assume *: "unat n = unat a + unat b"
  then have "unat a + unat b < 2 ^ 32" using unat_lt32 [of n] by simp
  then show "checked_add32 a b = Some n" using * by (simp add: checked_add32_def word_eq_unat unat_add_small)
qed

lemma unat_place: "unat (file_offset r + ucast (rm_blockcount q)) = unat (file_offset r) + rcount q"
  using file_offset_less [of r] unat_lt32 [of "rm_blockcount q"] by (subst unat_add_small) simp_all

text \<open>A record that continues another: the same owner and flags, the next block, and the next place.\<close>

lemma continues_iff: "continues_into r q \<longleftrightarrow>
    rm_owner r = rm_owner q \<and> rm_flags r = rm_flags q \<and> rend r = rstart q \<and>
    (is_reserved_owner r \<or> unat (file_offset r) + rcount r = unat (file_offset q))"
  unfolding continues_into_def word_eq_unat [of "file_offset r + _"] unat_place by (auto simp: checked_add32_Some)

lemma continues_maps:
  assumes "continues_into r q"
  shows "maps r + maps q = span (rstart r) (rm_owner r) (rm_flags r) (off_record r) (unat (file_offset r)) (rcount r + rcount q)"
proof -
  have c: "rm_owner q = rm_owner r" "rm_flags q = rm_flags r" "rstart q = rend r" "off_record q = off_record r"
    using assms off_record_same [of r q] by (auto simp: continues_iff)
  show ?thesis
  proof (cases "is_reserved_owner r")
    case True
    then have "off_record r" by (simp add: off_record_def)
    then show ?thesis unfolding maps_def c span_add [of _ _ _ _ _ "rcount r"] by (simp add: span_off [of _ _ _ "unat (file_offset q)"])
  next
    case False
    then have "unat (file_offset q) = unat (file_offset r) + rcount r" using assms by (auto simp: continues_iff)
    then show ?thesis unfolding maps_def c span_add [of _ _ _ _ _ "rcount r"] by simp
  qed
qed

lemma maps_upd: "maps (r\<lparr>rm_blockcount := n\<rparr>) = span (rstart r) (rm_owner r) (rm_flags r) (off_record r) (unat (file_offset r)) (unat n)"
  by (simp add: maps_def)


section \<open>Where a record goes\<close>

lemma insert_cut:
  obtains L R where "records = L @ R" "\<forall>l \<in> set L. rstart l \<le> rstart rec" "\<forall>a R'. R = a # R' \<longrightarrow> rstart rec < rstart a"
proof
  let ?P = "\<lambda>r. rstart r \<le> rstart rec"
  show "records = takeWhile ?P records @ dropWhile ?P records" by simp
  show "\<forall>l \<in> set (takeWhile ?P records). ?P l" by (auto dest: set_takeWhileD)
  show "\<forall>a R'. dropWhile ?P records = a # R' \<longrightarrow> rstart rec < rstart a"
    by (metis dropWhile_eq_Cons_conv not_le)
qed

lemma position_skip: "\<forall>x \<in> set xs. \<not> P x \<Longrightarrow> position P (xs @ ys) = map_option (\<lambda>i. length xs + i) (position P ys)"
  by (induction xs) (cases "position P ys"; simp)+

lemma insert_index:
  assumes "\<forall>l \<in> set L. rstart l \<le> rstart rec" "\<forall>a R'. R = a # R' \<longrightarrow> rstart rec < rstart a"
  shows "insert_index (L @ R) rec = length L"
proof -
  have "\<forall>l \<in> set L. \<not> rm_startblock rec < rm_startblock l" using assms(1) by (simp add: word_less_nat_alt not_less)
  then have "position (\<lambda>r. rm_startblock rec < rm_startblock r) (L @ R) =
      map_option (\<lambda>i. length L + i) (position (\<lambda>r. rm_startblock rec < rm_startblock r) R)" by (rule position_skip)
  then show ?thesis using assms(2) by (cases R) (simp_all add: insert_index_def word_less_nat_alt)
qed

text \<open>The record an insertion ends with, from the neighbours it joins.\<close>

definition joined :: "Rmap list \<Rightarrow> Rmap \<Rightarrow> Rmap list \<Rightarrow> Rmap \<Rightarrow> bool" where
  "joined B rec A m \<longleftrightarrow>
     (case (B, A) of
        ([], []) \<Rightarrow> m = rec
      | ([b], []) \<Rightarrow> continues_into b rec \<and> (\<exists>n. unat n = rcount b + rcount rec \<and> m = b\<lparr>rm_blockcount := n\<rparr>)
      | ([], [a]) \<Rightarrow> continues_into rec a \<and> (\<exists>n. unat n = rcount a + rcount rec \<and>
          m = a\<lparr>rm_blockcount := n, rm_startblock := rm_startblock rec, rm_offset := rm_offset rec\<rparr>)
      | ([b], [a]) \<Rightarrow> continues_into b rec \<and> continues_into rec a \<and>
          (\<exists>n. unat n = rcount b + rcount rec + rcount a \<and> m = b\<lparr>rm_blockcount := n\<rparr>)
      | _ \<Rightarrow> False)"

text \<open>The list cut where the record goes, with the neighbours it joined taken out.\<close>

definition placed :: "Rmap list \<Rightarrow> Rmap \<Rightarrow> Rmap list \<Rightarrow> Rmap list \<Rightarrow> Rmap list \<Rightarrow> Rmap list \<Rightarrow> Rmap \<Rightarrow> bool" where
  "placed records rec L B A R m \<longleftrightarrow>
     records = L @ B @ A @ R \<and> joined B rec A m \<and>
     (\<forall>l \<in> set (L @ B). rstart l \<le> rstart rec) \<and> (\<forall>a R'. A @ R = a # R' \<longrightarrow> rstart rec < rstart a) \<and>
     (\<forall>L' l. L @ B = L' @ [l] \<longrightarrow> rend l \<le> rstart rec) \<and>
     (\<forall>L' l. B = [] \<longrightarrow> L = L' @ [l] \<longrightarrow> \<not> continues_into l rec) \<and>
     (\<forall>a R'. A = [] \<longrightarrow> R = a # R' \<longrightarrow> \<not> continues_into rec a)"

lemma rmap_insert_first:
  assumes ins: "rmap_insert R rec = Inr out" and R: "\<forall>a R'. R = a # R' \<longrightarrow> rstart rec < rstart a"
  shows "\<exists>A R' m. placed R rec [] [] A R' m \<and> out = m # R'"
proof (cases R)
  case Nil
  then have "out = [rec]" using ins by (simp add: rmap_insert_def insert_index_def vec_get_def vec_insert_def)
  then show ?thesis using Nil by (intro exI [of _ "[]"] exI [of _ rec]) (simp add: placed_def joined_def)
next
  case (Cons a R0)
  then have at: "rm_startblock rec < rm_startblock a" using R by (simp add: word_less_nat_alt)
  show ?thesis
  proof (cases "continues_into rec a")
    case True
    then obtain n where "checked_add32 (rm_blockcount a) (rm_blockcount rec) = Some n"
      "out = a\<lparr>rm_blockcount := n, rm_startblock := rm_startblock rec, rm_offset := rm_offset rec\<rparr> # R0"
      using ins Cons at by (auto simp: rmap_insert_def insert_index_def vec_get_def split: option.splits)
    then show ?thesis using True Cons R
      by (intro exI [of _ "[a]"] exI [of _ R0] exI) (auto simp: placed_def joined_def checked_add32_Some)
  next
    case False
    then have "out = rec # R" using ins Cons at by (simp add: rmap_insert_def insert_index_def vec_get_def vec_insert_def)
    then show ?thesis using False Cons R by (intro exI [of _ "[]"] exI [of _ R] exI [of _ rec]) (simp add: placed_def joined_def)
  qed
qed

lemma rmap_insert_later:
  assumes ins: "rmap_insert (L @ b # R) rec = Inr out"
    and L: "\<forall>l \<in> set (L @ [b]). rstart l \<le> rstart rec" and R: "\<forall>a R'. R = a # R' \<longrightarrow> rstart rec < rstart a"
  shows "\<exists>L' B A R' m. placed (L @ b # R) rec L' B A R' m \<and> out = L' @ m # R'"
proof -
  have at: "insert_index (L @ b # R) rec = Suc (length L)" using insert_index [OF L R] by simp
  have get: "vec_get (L @ b # R) (Suc (length L)) = (case R of [] \<Rightarrow> None | a # _ \<Rightarrow> Some a)"
    using vec_get_append [of "L @ [b]" R] by simp
  note ins' = ins [unfolded rmap_insert_def Let_def at get vec_before_snoc option.case]
  have fits: "rend b \<le> rstart rec" using ins' by (auto simp: word_less_nat_alt not_less split: if_splits)
  then have "\<not> (ucast (rm_startblock rec) :: u64) < ucast (rm_startblock b) + ucast (rm_blockcount b)" by (simp add: word_less_nat_alt)
  note out = ins' [simplified this if_False]
  show ?thesis
  proof (cases "continues_into b rec")
    case joins: True
    show ?thesis
    proof (cases "\<exists>a R0. R = a # R0 \<and> continues_into rec a")
      case True
      then obtain a R0 where a: "R = a # R0" "continues_into rec a" by blast
      have "\<exists>n. unat n = rcount b + rcount rec + rcount a \<and> out = L @ b\<lparr>rm_blockcount := n\<rparr> # R0"
        using out joins a vec_remove_append [of "L @ [b]" a R0]
        by (auto simp: checked_add32_Some bind_eq_Some_conv nth_append split: option.splits)
      then obtain n where "unat n = rcount b + rcount rec + rcount a" "out = L @ b\<lparr>rm_blockcount := n\<rparr> # R0" by blast
      then show ?thesis using joins a L R fits
        by (intro exI [of _ L] exI [of _ "[b]"] exI [of _ "[a]"] exI [of _ R0] exI [of _ "b\<lparr>rm_blockcount := n\<rparr>"])
          (auto simp: placed_def joined_def)
    next
      case False
      then have "\<exists>n. unat n = rcount b + rcount rec \<and> out = L @ b\<lparr>rm_blockcount := n\<rparr> # R"
        using out joins by (auto simp: checked_add32_Some nth_append split: option.splits list.splits)
      then obtain n where "unat n = rcount b + rcount rec" "out = L @ b\<lparr>rm_blockcount := n\<rparr> # R" by blast
      then show ?thesis using joins False L R fits
        by (intro exI [of _ L] exI [of _ "[b]"] exI [of _ "[]"] exI [of _ R] exI [of _ "b\<lparr>rm_blockcount := n\<rparr>"])
          (auto simp: placed_def joined_def)
    qed
  next
    case apart: False
    show ?thesis
    proof (cases "\<exists>a R0. R = a # R0 \<and> continues_into rec a")
      case True
      then obtain a R0 where a: "R = a # R0" "continues_into rec a" by blast
      have "\<exists>n. unat n = rcount a + rcount rec \<and>
          out = (L @ [b]) @ a\<lparr>rm_blockcount := n, rm_startblock := rm_startblock rec, rm_offset := rm_offset rec\<rparr> # R0"
        using out apart a by (auto simp: checked_add32_Some nth_append list_update_append split: option.splits)
      then obtain n where "unat n = rcount a + rcount rec"
        "out = (L @ [b]) @ a\<lparr>rm_blockcount := n, rm_startblock := rm_startblock rec, rm_offset := rm_offset rec\<rparr> # R0" by blast
      then show ?thesis using apart a L R fits
        by (intro exI [of _ "L @ [b]"] exI [of _ "[]"] exI [of _ "[a]"] exI [of _ R0] exI) (auto simp: placed_def joined_def)
    next
      case False
      then have "out = (L @ [b]) @ rec # R" using out apart vec_insert_append [of "L @ [b]" rec R] by (auto split: list.splits)
      then show ?thesis using apart False L R fits
        by (intro exI [of _ "L @ [b]"] exI [of _ "[]"] exI [of _ "[]"] exI [of _ R] exI [of _ rec]) (auto simp: placed_def joined_def)
    qed
  qed
qed

lemma rmap_insert_placed:
  assumes "rmap_insert records rec = Inr out"
  shows "\<exists>L B A R m. placed records rec L B A R m \<and> out = L @ m # R"
proof -
  obtain L R where cut: "records = L @ R" "\<forall>l \<in> set L. rstart l \<le> rstart rec" "\<forall>a R'. R = a # R' \<longrightarrow> rstart rec < rstart a"
    by (rule insert_cut [of records rec])
  then show ?thesis using rmap_insert_first [of R rec out] rmap_insert_later [of _ _ R rec out] assms
    by (cases L rule: rev_cases) fastforce+
qed


section \<open>What an insertion adds\<close>

lemma joined_cases:
  assumes "joined B rec A m"
  obtains "B = []" "A = []" "m = rec"
  | b n where "B = [b]" "A = []" "continues_into b rec" "unat n = rcount b + rcount rec" "m = b\<lparr>rm_blockcount := n\<rparr>"
  | a n where "B = []" "A = [a]" "continues_into rec a" "unat n = rcount a + rcount rec"
      "m = a\<lparr>rm_blockcount := n, rm_startblock := rm_startblock rec, rm_offset := rm_offset rec\<rparr>"
  | b a n where "B = [b]" "A = [a]" "continues_into b rec" "continues_into rec a" "unat n = rcount b + rcount rec + rcount a"
      "m = b\<lparr>rm_blockcount := n\<rparr>"
  using assms by (auto simp: joined_def split: list.splits)

lemma upd_after:
  fixes a rec :: Rmap and n :: u32
  defines "m \<equiv> a\<lparr>rm_blockcount := n, rm_startblock := rm_startblock rec, rm_offset := rm_offset rec\<rparr>"
  assumes "continues_into rec a"
  shows "rm_flags m = rm_flags rec" "file_offset m = file_offset rec" "off_record m = off_record rec" "rm_owner m = rm_owner rec"
    "is_reserved_owner m = is_reserved_owner rec" "rstart m = rstart rec" "rcount m = unat n"
  using assms by (auto simp: rm_flags_def file_offset_def off_record_def is_reserved_owner_def continues_iff)

text \<open>The joined record: the same owner and flags, from the first block of the three to the last.\<close>

lemma continues_same:
  assumes "continues_into r q"
  shows "rm_owner r = rm_owner q" "rm_flags r = rm_flags q" "rend r = rstart q" "off_record r = off_record q"
    "is_reserved_owner r = is_reserved_owner q"
  using assms off_record_same [of r q] by (auto simp: continues_iff is_reserved_owner_def)

lemma is_reserved_upd [simp]: "is_reserved_owner (r\<lparr>rm_blockcount := n\<rparr>) = is_reserved_owner r"
  by (simp add: is_reserved_owner_def)

lemma joined_record:
  assumes "joined B rec A m"
  shows "rm_owner m = rm_owner rec \<and> rm_flags m = rm_flags rec \<and> off_record m = off_record rec \<and>
      is_reserved_owner m = is_reserved_owner rec \<and>
      rstart m = (case B of [] \<Rightarrow> rstart rec | b # _ \<Rightarrow> rstart b) \<and> rend m = (case A of [] \<Rightarrow> rend rec | a # _ \<Rightarrow> rend a) \<and>
      file_offset m = (case B of [] \<Rightarrow> file_offset rec | b # _ \<Rightarrow> file_offset b)"
    "\<And>b. b \<in> set B \<Longrightarrow> continues_into b rec" "\<And>a. a \<in> set A \<Longrightarrow> continues_into rec a"
proof -
  show "rm_owner m = rm_owner rec \<and> rm_flags m = rm_flags rec \<and> off_record m = off_record rec \<and>
      is_reserved_owner m = is_reserved_owner rec \<and>
      rstart m = (case B of [] \<Rightarrow> rstart rec | b # _ \<Rightarrow> rstart b) \<and> rend m = (case A of [] \<Rightarrow> rend rec | a # _ \<Rightarrow> rend a) \<and>
      file_offset m = (case B of [] \<Rightarrow> file_offset rec | b # _ \<Rightarrow> file_offset b)"
    using assms
  proof (cases rule: joined_cases)
    case (2 b n)
    then show ?thesis using continues_same [OF 2(3)] by simp
  next
    case (3 a n)
    then show ?thesis using continues_same [OF 3(3)] upd_after [OF 3(3), of n] by simp
  next
    case (4 b a n)
    then show ?thesis using continues_same [OF 4(3)] continues_same [OF 4(4)] by simp
  qed simp
  show "continues_into b rec" if "b \<in> set B" for b using assms that by (cases rule: joined_cases) auto
  show "continues_into rec a" if "a \<in> set A" for a using assms that by (cases rule: joined_cases) auto
qed

lemma joined_maps:
  assumes "joined B rec A m"
  shows "maps m = owned B + maps rec + owned A"
  using assms
proof (cases rule: joined_cases)
  case (2 b n)
  then show ?thesis by (simp add: maps_upd continues_maps)
next
  case (3 a n)
  then show ?thesis using continues_maps [of rec a] upd_after [of rec a n] by (simp add: maps_def add.commute)
next
  case (4 b a n)
  let ?m = "b\<lparr>rm_blockcount := rm_blockcount b + rm_blockcount rec\<rparr>"
  have c: "unat (rm_blockcount b + rm_blockcount rec) = rcount b + rcount rec"
    using 4(5) unat_lt32 [of n] by (intro unat_add_small) simp
  have "continues_into ?m a" using 4(3,4) c by (auto simp: continues_iff is_reserved_owner_def)
  from continues_maps [OF this] c 4(5,6) have "maps m = maps ?m + maps a" by (simp add: maps_upd add.assoc)
  also have "maps ?m = maps b + maps rec" using continues_maps [OF 4(3)] c by (simp add: maps_upd)
  finally show ?thesis using 4 by simp
qed simp

lemma insert_owned: "rmap_insert records rec = Inr out \<Longrightarrow> owned out = owned records + maps rec"
  using rmap_insert_placed [of records rec out] by (auto simp: placed_def joined_maps ac_simps)


section \<open>The order of the records\<close>

definition rmap_sorted :: "Rmap list \<Rightarrow> bool" where
  "rmap_sorted rs \<longleftrightarrow> (\<forall>r \<in> set rs. rmap_ok r) \<and> sorted (map key_order rs)"

lemma key_less: "rstart a < rstart b \<Longrightarrow> key_order a < key_order b"
  by (simp add: key_order_def word_less_nat_alt)

lemma key_start: "key_order a \<le> key_order b \<Longrightarrow> rstart a \<le> rstart b"
  by (auto simp: key_order_def less_eq_prod_def word_le_nat_alt word_less_nat_alt)

lemma key_order_upd [simp]: "key_order (r\<lparr>rm_blockcount := n\<rparr>) = key_order r"
  by (simp add: key_order_def)

lemma rmap_sorted_append:
  "rmap_sorted (xs @ ys) \<longleftrightarrow> rmap_sorted xs \<and> rmap_sorted ys \<and> (\<forall>x \<in> set xs. \<forall>y \<in> set ys. key_order x \<le> key_order y)"
  by (auto simp: rmap_sorted_def sorted_append)

lemma rmap_sorted_Cons:
  "rmap_sorted (x # ys) \<longleftrightarrow> rmap_ok x \<and> rmap_sorted ys \<and> (\<forall>y \<in> set ys. key_order x \<le> key_order y)"
  by (auto simp: rmap_sorted_def)

lemma rmap_sorted_Nil [simp]: "rmap_sorted []"
  by (simp add: rmap_sorted_def)

lemma joined_ok:
  assumes j: "joined B rec A m" and ok: "rmap_ok rec" "\<forall>b \<in> set B. rmap_ok b" "\<forall>a \<in> set A. rmap_ok a"
  shows "rmap_ok m"
  using j
proof (cases rule: joined_cases)
  case 1
  then show ?thesis using ok by simp
next
  case (2 b n)
  then show ?thesis using ok continues_same [OF 2(3)] by (auto simp: rmap_ok_def continues_iff off_record_def)
next
  case (3 a n)
  then show ?thesis using ok continues_same [OF 3(3)] upd_after [OF 3(3), of n] by (auto simp: rmap_ok_def continues_iff off_record_def)
next
  case (4 b a n)
  then show ?thesis using ok continues_same [OF 4(3)] continues_same [OF 4(4)] by (auto simp: rmap_ok_def continues_iff off_record_def)
qed

lemma placed_before:
  assumes "placed records rec L B A R m" "rmap_sorted records" "l \<in> set (L @ B)"
  shows "rstart l < rstart rec"
proof -
  obtain LB x where x: "L @ B = LB @ [x]" using assms(3) by (cases "L @ B" rule: rev_cases) auto
  have "rend x \<le> rstart rec" "rmap_ok x" using assms(1,2) x by (auto simp: placed_def rmap_sorted_append rmap_sorted_Cons simp flip: append_assoc)
  then have xr: "rstart x < rstart rec" by (auto simp: rmap_ok_def)
  have "rmap_sorted (LB @ [x])" using assms(1,2) x by (metis append_assoc placed_def rmap_sorted_append)
  then have "key_order l \<le> key_order x" using assms(3) x by (auto simp: rmap_sorted_append)
  then show ?thesis using xr key_start by fastforce
qed

lemma placed_after:
  assumes "placed records rec L B A R m" "rmap_sorted records" "r \<in> set (A @ R)"
  shows "rstart rec < rstart r"
proof -
  obtain x AR where x: "A @ R = x # AR" using assms(3) by (cases "A @ R") auto
  have "rstart rec < rstart x" using assms(1) x by (simp add: placed_def)
  moreover have "rmap_sorted (x # AR)" using assms(1,2) x by (metis placed_def rmap_sorted_append)
  then have "key_order x \<le> key_order r" using assms(3) x by (auto simp: rmap_sorted_Cons)
  ultimately show ?thesis using key_start by fastforce
qed

lemma insert_sorted:
  assumes "rmap_insert records rec = Inr out" "rmap_sorted records" "rmap_ok rec"
  shows "rmap_sorted out"
proof -
  obtain L B A R m where p: "placed records rec L B A R m" and out: "out = L @ m # R" using rmap_insert_placed [OF assms(1)] by blast
  have rec: "records = L @ B @ A @ R" and j: "joined B rec A m" using p by (simp_all add: placed_def)
  have s: "rmap_sorted L" "rmap_sorted B" "rmap_sorted A" "rmap_sorted R" "\<forall>x \<in> set L. \<forall>y \<in> set R. key_order x \<le> key_order y"
    "\<forall>x \<in> set L. \<forall>y \<in> set B. key_order x \<le> key_order y" "\<forall>x \<in> set B. \<forall>y \<in> set R. key_order x \<le> key_order y"
    using assms(2) unfolding rec by (auto simp: rmap_sorted_append)
  have "rmap_ok m" using joined_ok [OF j assms(3)] s(2,3) by (simp add: rmap_sorted_def)
  moreover have "(\<forall>x \<in> set L. key_order x \<le> key_order m) \<and> (\<forall>y \<in> set R. key_order m \<le> key_order y)"
  proof (cases B)
    case Nil
    then have "rstart m = rstart rec" using joined_record(1) [OF j] by simp
    then show ?thesis using placed_before [OF p assms(2)] placed_after [OF p assms(2)] by (auto intro!: less_imp_le key_less)
  next
    case (Cons b B')
    with j have "B = [b]" "key_order m = key_order b" by (cases rule: joined_cases; simp)+
    then show ?thesis using s(6,7) by simp
  qed
  ultimately show ?thesis using s unfolding out by (auto simp: rmap_sorted_append rmap_sorted_Cons)
qed


section \<open>What a removal takes\<close>

lemma unat_rm_stop [simp]: "unat (rm_stop r) = rend r"
  by (simp add: rm_stop_def)

lemma holds_iff: "rmap_holds rec r \<longleftrightarrow>
    rm_owner r = rm_owner rec \<and> rm_flags r = rm_flags rec \<and> rstart r \<le> rstart rec \<and> rend rec \<le> rend r"
  by (simp add: rmap_holds_def word_le_nat_alt)

lemma lines_up_iff:
  assumes "rmap_holds rec r" "rmap_ok r"
  shows "lines_up rec r \<longleftrightarrow> off_record r \<or> unat (file_offset r) + (rstart rec - rstart r) = unat (file_offset rec)"
proof -
  have le: "rstart r \<le> rstart rec" using assms(1) by (simp add: holds_iff)
  have "unat (ucast (rm_startblock rec) - ucast (rm_startblock r) :: u64) = rstart rec - rstart r"
    using le by (simp add: unat_sub_le)
  moreover have "unat (file_offset r) + (rstart rec - rstart r) < 2 ^ 64"
    using file_offset_less [of r] unat_lt32 [of "rm_startblock rec"] by simp
  ultimately have "unat (file_offset r + (ucast (rm_startblock rec) - ucast (rm_startblock r))) = unat (file_offset r) + (rstart rec - rstart r)"
    by (subst unat_add_small) simp_all
  then show ?thesis unfolding lines_up_def off_record_def word_eq_unat [of "file_offset r + _"] by simp
qed

lemma cut_right_record:
  assumes "rmap_holds rec whole" "rmap_ok whole" "r \<in> set (cut_right rec whole)"
  shows "rm_owner r = rm_owner whole \<and> rm_flags r = rm_flags whole \<and> rstart r = rend rec \<and> rend r = rend whole \<and> rend rec < rend whole \<and>
    (\<not> off_record whole \<longrightarrow> unat (file_offset r) = unat (file_offset whole) + (rend rec - rstart whole))"
proof -
  have b0: "rend rec < rend whole" "rend whole \<le> 2 ^ 32" "rstart whole \<le> rend rec"
    using assms by (auto simp: holds_iff rmap_ok_def cut_right_def word_less_nat_alt split: if_splits)
  then have "rend whole - rend rec < 2 ^ 32" using unat_lt32 [of "rm_blockcount whole"] by simp
  note b = b0 this
  define f where "f = (rm_offset whole AND OFF_MASK) + (rm_stop rec - ucast (rm_startblock whole))"
  have r: "r = \<lparr>rm_startblock = ucast (rm_stop rec), rm_blockcount = ucast (rm_stop whole - rm_stop rec), rm_owner = rm_owner whole,
      rm_offset = (if off_record whole then rm_offset whole else f OR rm_flags whole)\<rparr>"
    using assms(3) by (auto simp: cut_right_def f_def split: if_splits)
  have sub: "unat (rm_stop whole - rm_stop rec) = rend whole - rend rec" "unat (rm_stop rec - ucast (rm_startblock whole)) = rend rec - rstart whole"
    using b by (simp_all add: unat_sub_le)
  have at: "rstart r = rend rec" "rcount r = rend whole - rend rec" using b sub unfolding r by (simp_all add: unat_ucast_64_32)
  have f: "unat f = unat (file_offset whole) + (rend rec - rstart whole)"
    unfolding f_def sub(2) [symmetric] file_offset_def [symmetric]
    using file_offset_less [of whole] sub(2) b(1,2) by (intro unat_add_small) simp
  have fl: "unat f < 2 ^ 54" if "\<not> off_record whole"
  proof -
    have "rend rec - rstart whole < rcount whole" using b(1,3) by linarith
    then show ?thesis unfolding f using that assms(2) by (simp add: rmap_ok_def)
  qed
  have "rm_flags r = rm_flags whole \<and> (\<not> off_record whole \<longrightarrow> file_offset r = f)"
    using offset_parts [OF fl, of "rm_offset whole"] by (auto simp: r rm_flags_def file_offset_def)
  then show ?thesis using at b f by (auto simp: r)
qed


text \<open>A record that holds the blocks falls into the part before them, the mapping of the blocks, and the part
  after.\<close>

lemma cut_maps:
  assumes h: "rmap_holds rec whole" and ok: "rmap_ok whole"
  shows "maps whole = owned (cut_left rec whole) +
      span (rstart rec) (rm_owner rec) (rm_flags rec) (off_record rec) (unat (file_offset whole) + (rstart rec - rstart whole)) (rcount rec) +
      owned (cut_right rec whole)"
proof -
  let ?sp = "span" and ?o = "rm_owner rec" and ?fl = "rm_flags rec" and ?f = "unat (file_offset whole)"
  have same: "rm_owner whole = ?o" "rm_flags whole = ?fl" "off_record whole = off_record rec" and le: "rstart whole \<le> rstart rec" "rend rec \<le> rend whole"
    using h off_record_same [of whole rec] by (auto simp: holds_iff)
  define d where "d = rstart rec - rstart whole"
  have left: "owned (cut_left rec whole) = ?sp (rstart whole) ?o ?fl (off_record rec) ?f d"
  proof (cases "rstart whole < rstart rec")
    case True
    then have "unat (ucast (ucast (rm_startblock rec) - ucast (rm_startblock whole) :: u64) :: u32) = d"
      unfolding d_def using unat_lt32 [of "rm_startblock rec"] by (subst unat_ucast_64_32) (simp_all add: unat_sub_le)
    then show ?thesis using True same by (simp add: cut_left_def word_less_nat_alt maps_upd)
  next
    case False
    then show ?thesis by (simp add: cut_left_def word_less_nat_alt d_def)
  qed
  have right: "owned (cut_right rec whole) = ?sp (rend rec) ?o ?fl (off_record rec) (?f + d + rcount rec) (rend whole - rend rec)"
  proof (cases "rend rec < rend whole")
    case True
    then obtain r where r: "cut_right rec whole = [r]" by (simp add: cut_right_def word_less_nat_alt)
    note c = cut_right_record [OF h ok, of r, unfolded r, simplified]
    have "off_record r = off_record rec" using c same off_record_same [of r whole] by simp
    moreover have "rcount r = rend whole - rend rec" using c by linarith
    moreover have "?f + d + rcount rec = ?f + (rend rec - rstart whole)" using le unfolding d_def by linarith
    ultimately show ?thesis using c same r
      by (cases "off_record rec") (simp_all add: maps_def span_off [of _ _ _ "unat (file_offset r)" _ "?f + d + rcount rec"] add.assoc)
  next
    case False
    then show ?thesis using le by (simp add: cut_right_def word_less_nat_alt)
  qed
  define e where "e = rend whole - rend rec"
  have n: "rcount whole = d + (rcount rec + e)" "rstart whole + d = rstart rec" using le unfolding d_def e_def by linarith+
  show ?thesis unfolding left right d_def [symmetric] e_def [symmetric] unfolding maps_def same n(1) span_add n(2) by (simp add: add.assoc)
qed


text \<open>The record a removal picks: one that holds the blocks at the place asked for if there is one, and any that
  holds them otherwise.\<close>

definition picked :: "Rmap list \<Rightarrow> Rmap \<Rightarrow> nat option" where
  "picked records rec =
     (case position (\<lambda>r. rmap_holds rec r \<and> lines_up rec r) records of Some i \<Rightarrow> Some i | None \<Rightarrow> position (rmap_holds rec) records)"

lemma picked_Some:
  assumes "picked records rec = Some i"
  obtains xs whole ys where "records = xs @ whole # ys" "length xs = i" "rmap_holds rec whole"
    "(\<exists>r \<in> set records. rmap_holds rec r \<and> lines_up rec r) \<Longrightarrow> lines_up rec whole"
proof (cases "position (\<lambda>r. rmap_holds rec r \<and> lines_up rec r) records")
  case None
  with assms have "position (rmap_holds rec) records = Some i" by (simp add: picked_def)
  from position_split [OF this] obtain xs whole ys where "records = xs @ whole # ys" "length xs = i" "rmap_holds rec whole" by blast
  moreover have "\<not> (\<exists>r \<in> set records. rmap_holds rec r \<and> lines_up rec r)" using None by (auto simp: position_None)
  ultimately show thesis using that by blast
next
  case (Some j)
  with assms have "j = i" by (simp add: picked_def)
  with position_split [OF Some] show thesis using that by blast
qed

lemma picked_None: "picked records rec = None \<longleftrightarrow> (\<forall>r \<in> set records. \<not> rmap_holds rec r)"
  unfolding picked_def by (auto simp: position_None dest: position_split split: option.split)

lemma remove_picked:
  "picked records rec = None \<Longrightarrow> rmap_remove records rec = Inl (UnsupportedFeature ''no reverse-mapping record of that owner holds them'')"
  "picked (xs @ whole # ys) rec = Some (length xs) \<Longrightarrow>
     rmap_remove (xs @ whole # ys) rec = Inr (sort_key key_order (xs @ (cut_left rec whole @ cut_right rec whole) @ ys))"
  by (simp_all add: rmap_remove_def flip: picked_def)

lemma cut_ok:
  assumes h: "rmap_holds rec whole" and ok: "rmap_ok whole" and r: "r \<in> set (cut_left rec whole @ cut_right rec whole)"
  shows "rmap_ok r"
proof (cases "r \<in> set (cut_right rec whole)")
  case True
  note c = cut_right_record [OF h ok True]
  have o: "off_record r = off_record whole" using c off_record_same [of r whole] by simp
  have le: "rstart whole \<le> rend rec" using h by (simp add: holds_iff)
  have n: "0 < rcount r" "rend r \<le> 2 ^ 32" using c ok by (auto simp: rmap_ok_def)
  have "unat (file_offset r) + rcount r \<le> 2 ^ 54" if "\<not> off_record r"
  proof -
    have "unat (file_offset r) + rcount r = unat (file_offset whole) + rcount whole" using c le that o by linarith
    then show ?thesis using ok that o by (simp add: rmap_ok_def)
  qed
  then show ?thesis using n by (simp add: rmap_ok_def)
next
  case False
  then have lt: "rstart whole < rstart rec" and r': "r = whole\<lparr>rm_blockcount := ucast (ucast (rm_startblock rec) - ucast (rm_startblock whole) :: u64)\<rparr>"
    using r by (auto simp: cut_left_def Let_def word_less_nat_alt split: if_splits)
  have "rcount r = rstart rec - rstart whole" unfolding r' using lt unat_lt32 [of "rm_startblock rec"]
    by (simp, subst unat_ucast_64_32) (simp_all add: unat_sub_le)
  then have n: "0 < rcount r" "rcount r \<le> rcount whole" using lt h ok by (auto simp: holds_iff rmap_ok_def)
  have "rstart r = rstart whole" "off_record r = off_record whole" "file_offset r = file_offset whole" unfolding r' by simp_all
  then show ?thesis using ok n by (auto simp: rmap_ok_def)
qed

lemma remove_sorted:
  assumes "rmap_remove records rec = Inr out" "\<forall>r \<in> set records. rmap_ok r"
  shows "rmap_sorted out"
proof (cases "picked records rec")
  case None
  then show ?thesis using assms(1) remove_picked(1) by simp
next
  case (Some i)
  then obtain xs whole ys where w: "records = xs @ whole # ys" "length xs = i" "rmap_holds rec whole" by (rule picked_Some)
  have out: "out = sort_key key_order (xs @ (cut_left rec whole @ cut_right rec whole) @ ys)"
    using assms(1) remove_picked(2) [of xs whole ys rec] w Some by simp
  have "rmap_ok whole" using assms(2) w by simp
  then show ?thesis using cut_ok [OF w(3)] assms(2) w(1) unfolding out by (auto simp: rmap_sorted_def)
qed

lemma remove_owned:
  assumes "\<forall>r \<in> set records. rmap_ok r" "\<exists>r \<in> set records. rmap_holds rec r \<and> lines_up rec r"
  shows "\<exists>out. rmap_remove records rec = Inr out \<and> owned records = owned out + maps rec"
proof -
  obtain i where i: "picked records rec = Some i" using assms(2) picked_None [of records rec] by (cases "picked records rec") auto
  then obtain xs whole ys where w: "records = xs @ whole # ys" "length xs = i" "rmap_holds rec whole" "lines_up rec whole"
    using assms(2) by (metis picked_Some)
  have ok: "rmap_ok whole" using assms(1) w by simp
  have "maps rec = span (rstart rec) (rm_owner rec) (rm_flags rec) (off_record rec) (unat (file_offset whole) + (rstart rec - rstart whole)) (rcount rec)"
    using lines_up_iff [OF w(3) ok] w(3,4) off_record_same [of whole rec] by (auto simp: maps_def holds_iff span_def)
  then have "maps whole = owned (cut_left rec whole) + maps rec + owned (cut_right rec whole)" using cut_maps [OF w(3) ok] by simp
  then show ?thesis using remove_picked(2) [of xs whole ys rec] i w by (auto simp: ac_simps)
qed


section \<open>Shared blocks\<close>

lemma rmap_sorted_drop: "rmap_sorted (xs @ x # ys) \<Longrightarrow> rmap_sorted (xs @ ys)"
  by (auto simp: rmap_sorted_append rmap_sorted_Cons)

lemma join_before_Inr:
  assumes "join_before records rec = Inr (records', rec')" "rmap_sorted records" "rmap_ok rec"
  shows "owned records + maps rec = owned records' + maps rec' \<and> rmap_sorted records' \<and> rmap_ok rec'"
proof (cases "position (\<lambda>r. continues_into r rec) records")
  case None
  then show ?thesis using assms by (simp add: join_before_def)
next
  case (Some i)
  from position_split [OF Some] obtain xs b ys where w: "records = xs @ b # ys" "length xs = i" "continues_into b rec" by blast
  then obtain n where n: "unat n = rcount b + rcount rec" "records' = xs @ ys" "rec' = b\<lparr>rm_blockcount := n\<rparr>"
    using assms(1) Some by (auto simp: join_before_def Let_def checked_add32_Some split: option.splits)
  have j: "joined [b] rec [] rec'" using w n by (auto simp: joined_def)
  have ok: "rmap_ok b" using assms(2) w by (simp add: rmap_sorted_def)
  show ?thesis using joined_maps [OF j] joined_ok [OF j assms(3)] ok rmap_sorted_drop [of xs b ys] assms(2) w n by (auto simp: ac_simps)
qed

lemma join_after_Inr:
  assumes "join_after records rec = Inr (records', rec')" "rmap_sorted records" "rmap_ok rec"
  shows "owned records + maps rec = owned records' + maps rec' \<and> rmap_sorted records' \<and> rmap_ok rec'"
proof (cases "position (continues_into rec) records")
  case None
  then show ?thesis using assms by (simp add: join_after_def)
next
  case (Some i)
  from position_split [OF Some] obtain xs a ys where w: "records = xs @ a # ys" "length xs = i" "continues_into rec a" by blast
  then obtain n where n: "unat n = rcount rec + rcount a" "records' = xs @ ys" "rec' = rec\<lparr>rm_blockcount := n\<rparr>"
    using assms(1) Some by (auto simp: join_after_def Let_def checked_add32_Some split: option.splits)
  have j: "joined [rec] a [] rec'" using w n by (auto simp: joined_def)
  have ok: "rmap_ok a" using assms(2) w by (simp add: rmap_sorted_def)
  show ?thesis using joined_maps [OF j] joined_ok [OF j ok] assms(3) rmap_sorted_drop [of xs a ys] assms(2) w n by (auto simp: ac_simps)
qed

lemma insert_shared_Inr:
  assumes "rmap_insert_shared records rec = Inr out" "rmap_sorted records" "rmap_ok rec"
  shows "owned out = owned records + maps rec \<and> rmap_sorted out"
proof -
  obtain rs1 r1 rs2 r2 where j: "join_before records rec = Inr (rs1, r1)" "join_after rs1 r1 = Inr (rs2, r2)"
    and out: "out = vec_insert (partition_point (\<lambda>r. key_order r < key_order r2) rs2) r2 rs2"
    using assms(1) by (auto simp: rmap_insert_shared_def rbind_eq_Inr split: if_splits)
  note b = join_before_Inr [OF j(1) assms(2,3)]
  note a = join_after_Inr [OF j(2)]
  have s: "rmap_sorted rs2" "rmap_ok r2" "owned rs2 + maps r2 = owned records + maps rec" using a b by simp_all
  obtain L R where cut: "rs2 = L @ R" "\<forall>x \<in> set L. key_order x < key_order r2" "\<forall>x \<in> set R. key_order r2 \<le> key_order x"
    using sorted_cut_less [of key_order rs2] s(1) unfolding rmap_sorted_def by metis
  have "partition_point (\<lambda>r. key_order r < key_order r2) rs2 = length L"
    unfolding cut(1) by (rule partition_point_append) (use cut in \<open>auto simp: not_less\<close>)
  then have "out = L @ r2 # R" by (simp add: out cut(1))
  then show ?thesis using s cut by (auto simp: rmap_sorted_append rmap_sorted_Cons less_imp_le simp flip: s(3))
qed

section \<open>The contract of the reverse map\<close>

text \<open>A keeper of a multiset: each step adds some elements and takes others, and a run of steps adds and takes
  what its steps do.\<close>

fun run_steps :: "('s \<Rightarrow> 'o \<Rightarrow> 's res) \<Rightarrow> 's \<Rightarrow> 'o list \<Rightarrow> 's res" where
  "run_steps step s [] = Inr s"
| "run_steps step s (e # es) = rbind (step s e) (\<lambda>s'. run_steps step s' es)"

fun allowed_run :: "('s \<Rightarrow> 'o \<Rightarrow> 's res) \<Rightarrow> ('s \<Rightarrow> 'o \<Rightarrow> bool) \<Rightarrow> 's \<Rightarrow> 'o list \<Rightarrow> bool" where
  "allowed_run step allowed s [] = True"
| "allowed_run step allowed s (e # es) =
     (allowed s e \<and> (case step s e of Inl _ \<Rightarrow> True | Inr s' \<Rightarrow> allowed_run step allowed s' es))"

locale multiset_keeper =
  fixes inv :: "'s \<Rightarrow> bool" and abs :: "'s \<Rightarrow> 'm multiset"
    and step :: "'s \<Rightarrow> 'o \<Rightarrow> 's res" and allowed :: "'s \<Rightarrow> 'o \<Rightarrow> bool"
    and adds :: "'o \<Rightarrow> 'm multiset" and takes :: "'o \<Rightarrow> 'm multiset"
  assumes step_law: "inv s \<Longrightarrow> allowed s e \<Longrightarrow> step s e = Inr s' \<Longrightarrow> inv s' \<and> abs s' + takes e = abs s + adds e"
begin

lemma run_law:
  "inv s \<Longrightarrow> allowed_run step allowed s es \<Longrightarrow> run_steps step s es = Inr s' \<Longrightarrow>
     inv s' \<and> abs s' + \<Sum>\<^sub># (mset (map takes es)) = abs s + \<Sum>\<^sub># (mset (map adds es))"
proof (induction es arbitrary: s)
  case Nil
  then show ?case by simp
next
  case (Cons e es)
  then obtain t where t: "step s e = Inr t" "run_steps step t es = Inr s'" by (auto simp: rbind_eq_Inr)
  have law: "inv t" "abs t + takes e = abs s + adds e" using step_law [of s e t] Cons.prems t by simp_all
  then have "inv s'" "abs s' + \<Sum>\<^sub># (mset (map takes es)) = abs t + \<Sum>\<^sub># (mset (map adds es))"
    using Cons.IH [of t] Cons.prems t by simp_all
  then show ?case using law(2) by (simp add: ac_simps) (metis add.assoc add.commute)
qed

end


datatype rmap_op = Own Rmap | Share Rmap | Disown Rmap

fun rmap_step :: "Rmap list \<Rightarrow> rmap_op \<Rightarrow> Rmap list res" where
  "rmap_step rs (Own r) = rmap_insert rs r"
| "rmap_step rs (Share r) = rmap_insert_shared rs r"
| "rmap_step rs (Disown r) = rmap_remove rs r"

fun rmap_allowed :: "Rmap list \<Rightarrow> rmap_op \<Rightarrow> bool" where
  "rmap_allowed rs (Own r) = rmap_ok r"
| "rmap_allowed rs (Share r) = rmap_ok r"
| "rmap_allowed rs (Disown r) = list_ex (\<lambda>x. rmap_holds r x \<and> lines_up r x) rs"

fun rmap_adds :: "rmap_op \<Rightarrow> mapping multiset" where
  "rmap_adds (Own r) = maps r"
| "rmap_adds (Share r) = maps r"
| "rmap_adds (Disown r) = {#}"

fun rmap_takes :: "rmap_op \<Rightarrow> mapping multiset" where
  "rmap_takes (Disown r) = maps r"
| "rmap_takes _ = {#}"

interpretation rmap_keeper: multiset_keeper rmap_sorted owned rmap_step rmap_allowed rmap_adds rmap_takes
proof
  fix s e s'
  assume s: "rmap_sorted s" and a: "rmap_allowed s e" and st: "rmap_step s e = Inr s'"
  have ok: "\<forall>r \<in> set s. rmap_ok r" using s by (simp add: rmap_sorted_def)
  show "rmap_sorted s' \<and> owned s' + rmap_takes e = owned s + rmap_adds e"
  proof (cases e)
    case (Own r)
    then show ?thesis using insert_sorted [of s r s'] insert_owned [of s r s'] s a st by simp
  next
    case (Share r)
    then show ?thesis using insert_shared_Inr [of s r s'] s a st by simp
  next
    case (Disown r)
    then show ?thesis using remove_sorted [OF _ ok] remove_owned [OF ok, of r] a st by (auto simp: list_ex_iff)
  qed
qed

text \<open>C19. The reverse map is the multiset of mappings it stands for: over any run of insertions, insertions of
  shared mappings and removals, each removal of a mapping the map has, the mappings at the end are those at the
  beginning with every inserted one added and every removed one taken away, once for each time, and the
  records are still in the order of the tree.\<close>

theorem rmap_refines:
  assumes "rmap_sorted rs" "allowed_run rmap_step rmap_allowed rs es" "run_steps rmap_step rs es = Inr rs'"
  shows "rmap_sorted rs' \<and> owned rs' + \<Sum>\<^sub># (mset (map rmap_takes es)) = owned rs + \<Sum>\<^sub># (mset (map rmap_adds es))"
  using rmap_keeper.run_law [OF assms] .

definition sample_rmap :: "u32 \<Rightarrow> u32 \<Rightarrow> u64 \<Rightarrow> u64 \<Rightarrow> Rmap" where
  "sample_rmap s c w f = \<lparr>rm_startblock = s, rm_blockcount = c, rm_owner = w, rm_offset = f\<rparr>"

lemmas rmap_eval = sample_rmap_def rmap_ok_def off_record_def is_reserved_owner_def file_offset_def rm_flags_def OFF_MASK_def
  OFF_BMBT_BLOCK_def rmap_holds_def lines_up_def rm_stop_def continues_into_def checked_add32_def

lemma rmap_refines_witness:
  "let es = [Own (sample_rmap 13 3 131 1), Share (sample_rmap 13 1 140 0), Disown (sample_rmap 14 1 131 2)];
       rs = [sample_rmap 12 1 131 0];
       rs' = [sample_rmap 12 2 131 0, sample_rmap 13 1 140 0, sample_rmap 15 1 131 3]
   in run_steps rmap_step rs es = Inr rs' \<and> rmap_sorted rs' \<and>
      owned rs' + \<Sum>\<^sub># (mset (map rmap_takes es)) = owned rs + \<Sum>\<^sub># (mset (map rmap_adds es))"
proof -
  let ?es = "[Own (sample_rmap 13 3 131 1), Share (sample_rmap 13 1 140 0), Disown (sample_rmap 14 1 131 2)]"
  let ?rs = "[sample_rmap 12 1 131 0]" and ?rs' = "[sample_rmap 12 2 131 0, sample_rmap 13 1 140 0, sample_rmap 15 1 131 3]"
  have s1: "rmap_insert ?rs (sample_rmap 13 3 131 1) = Inr [sample_rmap 12 4 131 0]"
    by (simp add: rmap_eval rmap_insert_def insert_index_def vec_before_def vec_get_def)
  have s2: "rmap_insert_shared [sample_rmap 12 4 131 0] (sample_rmap 13 1 140 0) = Inr [sample_rmap 12 4 131 0, sample_rmap 13 1 140 0]"
    by (simp add: rmap_eval rmap_insert_shared_def rmap_clash_def join_before_def join_after_def partition_point_def pp_loop.simps vec_insert_def
      key_order_def OFF_UNWRITTEN_def)
  have s3: "rmap_remove [sample_rmap 12 4 131 0, sample_rmap 13 1 140 0] (sample_rmap 14 1 131 2) = Inr ?rs'"
    by (simp add: rmap_eval rmap_remove_def vec_remove_def cut_left_def cut_right_def key_order_def OFF_UNWRITTEN_def)
  have run: "run_steps rmap_step ?rs ?es = Inr ?rs'" using s1 s2 s3 by simp
  have ok: "rmap_ok (sample_rmap 13 3 131 1)" "rmap_ok (sample_rmap 13 1 140 0)" "rmap_sorted ?rs" by (simp_all add: rmap_eval rmap_sorted_def)
  have "list_ex (\<lambda>x. rmap_holds (sample_rmap 14 1 131 2) x \<and> lines_up (sample_rmap 14 1 131 2) x)
      [sample_rmap 12 4 131 0, sample_rmap 13 1 140 0]" by (simp add: rmap_eval)
  then have "allowed_run rmap_step rmap_allowed ?rs ?es" using s1 s2 s3 ok by simp
  from rmap_refines [OF ok(3) this run] run show ?thesis unfolding Let_def by blast
qed


section \<open>Blocks with one owner\<close>

text \<open>Where nothing is shared the records are disjoint, inside the group, and no record continues the one
  before it.  A record that is not at a place in a file has offset zero.\<close>

definition rmap_plain :: "Rmap \<Rightarrow> bool" where
  "rmap_plain r \<longleftrightarrow> rmap_ok r \<and> (off_record r \<longrightarrow> file_offset r = 0)"

definition rmap_disjoint :: "nat \<Rightarrow> Rmap list \<Rightarrow> bool" where
  "rmap_disjoint n rs \<longleftrightarrow> (\<forall>r \<in> set rs. rmap_plain r \<and> rend r \<le> n) \<and> sorted_wrt (\<lambda>a b. rend a \<le> rstart b) rs"

definition rmap_compact :: "Rmap list \<Rightarrow> bool" where
  "rmap_compact rs \<longleftrightarrow> successively (\<lambda>a b. \<not> continues_into a b) rs"

definition rmap_apart :: "Rmap list \<Rightarrow> Rmap \<Rightarrow> bool" where
  "rmap_apart rs rec \<longleftrightarrow> (\<forall>r \<in> set rs. rend r \<le> rstart rec \<or> rend rec \<le> rstart r)"

lemma disjoint_append: "rmap_disjoint n (xs @ ys) \<longleftrightarrow>
    rmap_disjoint n xs \<and> rmap_disjoint n ys \<and> (\<forall>x \<in> set xs. \<forall>y \<in> set ys. rend x \<le> rstart y)"
  by (auto simp: rmap_disjoint_def sorted_wrt_append)

lemma disjoint_Cons: "rmap_disjoint n (x # ys) \<longleftrightarrow> rmap_plain x \<and> rend x \<le> n \<and> rmap_disjoint n ys \<and> (\<forall>y \<in> set ys. rend x \<le> rstart y)"
  by (auto simp: rmap_disjoint_def)

lemma disjoint_elem: "rmap_disjoint n rs \<Longrightarrow> r \<in> set rs \<Longrightarrow> rmap_plain r \<and> rend r \<le> n"
  by (simp add: rmap_disjoint_def)

lemma disjoint_Nil [simp]: "rmap_disjoint n []"
  by (simp add: rmap_disjoint_def)

lemma disjoint_sorted: "rmap_disjoint n rs \<Longrightarrow> rmap_sorted rs"
proof (induction rs)
  case (Cons r rs)
  have "key_order r \<le> key_order y" if "y \<in> set rs" for y
    using Cons.prems that by (intro less_imp_le key_less) (auto simp: disjoint_Cons rmap_plain_def rmap_ok_def)
  then show ?case using Cons by (simp add: disjoint_Cons rmap_sorted_Cons rmap_plain_def)
qed simp

lemma continues_left:
  assumes "rm_owner x = rm_owner y" "rm_flags x = rm_flags y" "rend x = rend y"
    "\<not> is_reserved_owner x \<Longrightarrow> unat (file_offset x) + rcount x = unat (file_offset y) + rcount y"
  shows "continues_into x r = continues_into y r"
  using assms by (cases "is_reserved_owner x") (auto simp: continues_iff is_reserved_owner_def)

lemma continues_right:
  assumes "rm_owner x = rm_owner y" "rm_flags x = rm_flags y" "rm_startblock x = rm_startblock y" "file_offset x = file_offset y"
  shows "continues_into r x = continues_into r y"
  using assms by (auto simp: continues_iff)

text \<open>An insertion into disjoint records succeeds when the blocks are nobody's.\<close>

lemma insert_total:
  assumes d: "rmap_disjoint n rs" and n: "n < 2 ^ 32" and ok: "rmap_ok rec" "rend rec \<le> n" and ap: "rmap_apart rs rec"
  shows "\<exists>out. rmap_insert rs rec = Inr out"
proof -
  obtain L R where cut: "rs = L @ R" "\<forall>l \<in> set L. rstart l \<le> rstart rec" "\<forall>a R'. R = a # R' \<longrightarrow> rstart rec < rstart a"
    by (rule insert_cut [of rs rec])
  have at: "insert_index rs rec = length L" using insert_index [OF cut(2,3)] by (simp add: cut(1))
  have before: "rend b \<le> rstart rec" "rs ! (length L - 1) = b" "vec_remove (length L) rs ! (length L - 1) = b"
    if "vec_before rs (length L) = Some b" for b
  proof -
    from that obtain L' where L: "L = L' @ [b]"
      by (cases L rule: rev_cases) (simp_all add: cut(1) vec_before_def vec_get_def nth_append split: if_splits)
    then show "rend b \<le> rstart rec" using cut ap ok by (auto simp: rmap_apart_def rmap_ok_def)
    show "rs ! (length L - 1) = b" "vec_remove (length L) rs ! (length L - 1) = b" by (simp_all add: cut(1) L vec_remove_def nth_append)
  qed
  have after: "rs ! length L = a" "rend a \<le> n" if "vec_get rs (length L) = Some a" for a
    using that d by (auto simp: vec_get_def rmap_disjoint_def split: if_splits)
  have room: "\<exists>m. checked_add32 x y = Some m \<and> unat m = unat x + unat y" if "unat x + unat y \<le> n" for x y
    using that n unat_add_small [of x y] by (simp add: checked_add32_def)
  have two: "rcount x + rcount y \<le> n" if "continues_into x y" "rend y \<le> n" for x y using that by (simp add: continues_iff)
  have three: "rcount x + rcount y + rcount z \<le> n" if "continues_into x y" "continues_into y z" "rend z \<le> n" for x y z
    using that by (simp add: continues_iff)
  have ov: "\<not> (case vec_before rs (length L) of
      Some b \<Rightarrow> (ucast (rm_startblock rec) :: u64) < ucast (rm_startblock b) + ucast (rm_blockcount b) | None \<Rightarrow> False)"
    using before(1) by (auto simp: word_less_nat_alt split: option.split)
  show ?thesis
  proof (cases "vec_before rs (length L)"; cases "vec_get rs (length L)")
    assume "vec_before rs (length L) = None" "vec_get rs (length L) = None"
    then show ?thesis unfolding rmap_insert_def Let_def at by simp
  next
    fix a assume bf: "vec_before rs (length L) = None" and af: "vec_get rs (length L) = Some a"
    show ?thesis unfolding rmap_insert_def Let_def at
      using bf af after [OF af] two [of rec a] room [of "rm_blockcount a" "rm_blockcount rec"] by (auto simp: add.commute)
  next
    fix b assume bf: "vec_before rs (length L) = Some b" and af: "vec_get rs (length L) = None"
    show ?thesis unfolding rmap_insert_def Let_def at if_not_P [OF ov]
      using bf af before [OF bf] two [of b rec] ok(2) room [of "rm_blockcount b" "rm_blockcount rec"] by auto
  next
    fix b a assume bf: "vec_before rs (length L) = Some b" and af: "vec_get rs (length L) = Some a"
    have all: "\<exists>m k. checked_add32 (rm_blockcount b) (rm_blockcount rec) = Some m \<and> checked_add32 m (rm_blockcount a) = Some k"
      if "continues_into b rec" "continues_into rec a"
    proof -
      have sum: "rcount b + rcount rec + rcount a \<le> n" using three [OF that] after [OF af] by simp
      then obtain m where m: "checked_add32 (rm_blockcount b) (rm_blockcount rec) = Some m" "unat m = rcount b + rcount rec"
        using room [of "rm_blockcount b" "rm_blockcount rec"] by auto
      then show ?thesis using room [of m "rm_blockcount a"] sum by auto
    qed
    show ?thesis unfolding rmap_insert_def Let_def at if_not_P [OF ov]
      using bf af before [OF bf] after [OF af] two [of b rec] two [of rec a] all ok(2)
        room [of "rm_blockcount b" "rm_blockcount rec"] room [of "rm_blockcount a" "rm_blockcount rec"]
      by (auto simp: add.commute)
  qed
qed


lemma insert_canonical:
  assumes ins: "rmap_insert rs rec = Inr out" and d: "rmap_disjoint n rs" and c: "rmap_compact rs"
    and pl: "rmap_plain rec" and n: "rend rec \<le> n" and ap: "rmap_apart rs rec"
  shows "rmap_disjoint n out \<and> rmap_compact out"
proof -
  have ok: "rmap_ok rec" "rend rec \<le> n" using pl n by (simp_all add: rmap_plain_def)
  obtain L B A R m where p: "placed rs rec L B A R m" and out: "out = L @ m # R" using rmap_insert_placed [OF ins] by blast
  have rs: "rs = L @ B @ A @ R" and j: "joined B rec A m" using p by (simp_all add: placed_def)
  note m = joined_record [OF j]
  note sorted = disjoint_sorted [OF d]
  have left: "rend l \<le> rstart rec" if "l \<in> set (L @ B)" for l
    using placed_before [OF p sorted that] ap that ok(1) by (auto simp: rmap_apart_def rs rmap_ok_def)
  have right: "rend rec \<le> rstart r" if "r \<in> set (A @ R)" for r
  proof -
    have "rend r \<le> rstart rec \<or> rend rec \<le> rstart r" using ap that by (auto simp: rmap_apart_def rs)
    then show ?thesis using placed_after [OF p sorted that] by linarith
  qed
  have parts: "rmap_disjoint n L" "rmap_disjoint n R" "\<forall>x \<in> set L. \<forall>y \<in> set R. rend x \<le> rstart y" "\<forall>x \<in> set L. \<forall>b \<in> set B. rend x \<le> rstart b"
    "\<forall>a \<in> set A. \<forall>y \<in> set R. rend a \<le> rstart y" "\<forall>b \<in> set B. rmap_plain b" "\<forall>a \<in> set A. rmap_plain a \<and> rend a \<le> n"
    using d unfolding rs by (auto simp: disjoint_append disjoint_elem)
  have "rmap_ok m" using joined_ok [OF j ok(1)] parts(6,7) by (simp add: rmap_plain_def)
  then have mok: "rmap_plain m" using m(1) continues_same(4) [OF m(2)] parts(6) pl by (cases B) (simp_all add: rmap_plain_def)
  have mL: "rend l \<le> rstart m" if "l \<in> set L" for l using left [of l] that parts(4) m(1) by (cases B) auto
  have mR: "rend m \<le> rstart r" if "r \<in> set R" for r using right [of r] that parts(5) m(1) by (cases A) auto
  have mn: "rend m \<le> n" using m(1) ok(2) parts(7) by (cases A) auto
  have dis: "rmap_disjoint n out" unfolding out using parts(1,2,3) mok mL mR mn by (simp add: disjoint_append disjoint_Cons)
  have cont: "\<not> is_reserved_owner rec \<Longrightarrow> unat (file_offset m) + rcount m = (case A of [] \<Rightarrow> unat (file_offset rec) + rcount rec | a # _ \<Rightarrow> unat (file_offset a) + rcount a)"
    using j by (cases rule: joined_cases) (auto simp: continues_iff is_reserved_owner_def upd_after)
  have cL: "\<not> continues_into l m" if "L = L' @ [l]" for L' l
  proof (cases B)
    case Nil
    then have "continues_into l m = continues_into l rec" using m(1) by (intro continues_right) (auto simp: word_eq_unat)
    then show ?thesis using p Nil that by (simp add: placed_def)
  next
    case (Cons b B')
    have "continues_into l m = continues_into l b" using j Cons by (cases rule: joined_cases) (simp_all add: continues_iff)
    then show ?thesis using c that Cons unfolding rs rmap_compact_def by (simp add: successively_append_iff)
  qed
  have cR: "\<not> continues_into m r" if "R = r # R'" for r R'
  proof (cases A)
    case Nil
    then have "continues_into m r = continues_into rec r" using m(1) cont by (intro continues_left) auto
    then show ?thesis using p Nil that by (simp add: placed_def)
  next
    case (Cons a A')
    have a: "A = [a]" using j Cons by (cases rule: joined_cases) auto
    have "continues_into m r = continues_into a r" using m(1) m(3) [of a] a cont by (intro continues_left) (auto simp: continues_iff)
    then show ?thesis using c that a unfolding rs rmap_compact_def by (simp add: successively_append_iff)
  qed
  have "successively (\<lambda>a b. \<not> continues_into a b) L" "successively (\<lambda>a b. \<not> continues_into a b) R"
    using c unfolding rs rmap_compact_def by (simp_all add: successively_append_iff)
  then have "rmap_compact out" unfolding out rmap_compact_def
    using cL cR by (cases L rule: rev_cases; cases R) (auto simp: successively_append_iff)
  then show ?thesis using dis by simp
qed


lemma sort_canonical: "rmap_disjoint n rs \<Longrightarrow> sort_key key_order rs = rs"
  using disjoint_sorted [of n rs] by (simp add: rmap_sorted_def sort_key_id_if_sorted)

lemma cut_left_record:
  assumes "rmap_holds rec whole" "rmap_ok whole" "r \<in> set (cut_left rec whole)"
  shows "rm_owner r = rm_owner whole \<and> rm_flags r = rm_flags whole \<and> rm_startblock r = rm_startblock whole \<and>
    file_offset r = file_offset whole \<and> rend r = rstart rec \<and> rstart whole < rstart rec"
proof -
  have lt: "rstart whole < rstart rec" and r: "r = whole\<lparr>rm_blockcount := ucast (ucast (rm_startblock rec) - ucast (rm_startblock whole) :: u64)\<rparr>"
    using assms(3) by (auto simp: cut_left_def Let_def word_less_nat_alt split: if_splits)
  have "rcount r = rstart rec - rstart whole" unfolding r using lt unat_lt32 [of "rm_startblock rec"]
    by (simp, subst unat_ucast_64_32) (simp_all add: unat_sub_le)
  then show ?thesis using lt by (simp add: r)
qed

lemma cut_shapes: "(cut_left rec whole = [] \<or> (\<exists>l. cut_left rec whole = [l])) \<and> (cut_right rec whole = [] \<or> (\<exists>r. cut_right rec whole = [r]))"
  by (simp add: cut_left_def cut_right_def Let_def)

lemma cut_canonical:
  assumes d: "rmap_disjoint n (xs @ whole # ys)" and c: "rmap_compact (xs @ whole # ys)" and h: "rmap_holds rec whole" and ok: "rmap_ok rec"
  shows "rmap_disjoint n (xs @ (cut_left rec whole @ cut_right rec whole) @ ys) \<and> rmap_compact (xs @ (cut_left rec whole @ cut_right rec whole) @ ys)"
proof -
  have w: "rmap_ok whole" "rend whole \<le> n" "rmap_plain whole" using d by (simp_all add: disjoint_append disjoint_Cons rmap_plain_def)
  note l = cut_left_record [OF h w(1)] and r = cut_right_record [OF h w(1)] and pok = cut_ok [OF h w(1)]
  have hb: "rstart whole \<le> rstart rec" "rend rec \<le> rend whole" "rstart rec < rend rec" using h ok by (simp_all add: holds_iff rmap_ok_def)
  have inside: "rstart whole \<le> rstart p \<and> rend p \<le> rend whole" if "p \<in> set (cut_left rec whole @ cut_right rec whole)" for p
    using that l [of p] r [of p] hb by auto
  have lr: "rend p < rstart q" if "p \<in> set (cut_left rec whole)" "q \<in> set (cut_right rec whole)" for p q
  proof -
    have "rend p = rstart rec" "rstart q = rend rec" using l [OF that(1)] r [OF that(2)] by blast+
    then show ?thesis using hb(3) by linarith
  qed
  have plain: "rmap_plain p" if "p \<in> set (cut_left rec whole @ cut_right rec whole)" for p
  proof (cases "off_record whole")
    case True
    have "file_offset p = file_offset whole"
    proof (cases "p \<in> set (cut_left rec whole)")
      case True
      then show ?thesis using l by blast
    next
      case False
      then have "rm_offset p = rm_offset whole" using that \<open>off_record whole\<close> by (simp add: cut_right_def split: if_splits)
      then show ?thesis by (simp add: file_offset_def)
    qed
    then show ?thesis using pok [OF that] w(3) True by (simp add: rmap_plain_def)
  next
    case False
    then have "\<not> off_record p" using that l [of p] r [of p] off_record_same [of p whole] by auto
    then show ?thesis using pok [OF that] by (simp add: rmap_plain_def)
  qed
  have pieces: "rmap_disjoint n (cut_left rec whole @ cut_right rec whole)"
    using cut_shapes [of rec whole] plain inside w(2) lr by (fastforce simp: rmap_disjoint_def)
  have dis: "rmap_disjoint n (xs @ (cut_left rec whole @ cut_right rec whole) @ ys)"
    using d inside pieces by (fastforce simp: disjoint_append disjoint_Cons)
  have same_r: "\<not> continues_into p y" if "p \<in> set (cut_right rec whole)" "ys = y # ys'" "\<not> continues_into whole y" for p y ys'
  proof (cases "off_record whole \<and> \<not> is_reserved_owner whole")
    case True
    have "off_record p" using r [OF that(1)] off_record_same [of p whole] True by simp
    moreover have "rmap_plain p" "rmap_plain y" using plain [of p] d that by (auto simp: disjoint_append disjoint_Cons)
    ultimately show ?thesis using True r [OF that(1)] off_record_same [of p y]
      by (auto simp: continues_iff rmap_plain_def rmap_ok_def is_reserved_owner_def)
  next
    case False
    then have "continues_into p y = continues_into whole y"
      using r [OF that(1)] hb by (intro continues_left) (auto simp: off_record_def is_reserved_owner_def)
    then show ?thesis using that(3) by simp
  qed
  have same_l: "continues_into x p = continues_into x whole" if "p \<in> set (cut_left rec whole)" for p x
    using l [OF that] by (intro continues_right) auto
  have far: "\<not> continues_into x y" if "rend x < rstart y" for x y using that by (simp add: continues_iff)
  have x: "rend x \<le> rstart whole \<and> \<not> continues_into x whole" if "xs = xs' @ [x]" for x xs'
    using c d that by (auto simp: rmap_compact_def successively_append_iff disjoint_append disjoint_Cons)
  have y: "rend whole \<le> rstart y \<and> \<not> continues_into whole y" if "ys = y # ys'" for y ys'
    using c d that by (auto simp: rmap_compact_def successively_append_iff disjoint_append disjoint_Cons)
  have xq: "\<not> continues_into x q" if "xs = xs' @ [x]" "q \<in> set (cut_right rec whole)" for x xs' q
    using x [OF that(1)] r [OF that(2)] hb by (intro far) linarith
  have py: "\<not> continues_into p y" if "ys = y # ys'" "p \<in> set (cut_left rec whole)" for y ys' p
    using y [OF that(1)] l [OF that(2)] hb by (intro far) linarith
  have xy: "\<not> continues_into x y" if "xs = xs' @ [x]" "ys = y # ys'" for x xs' y ys'
    using x [OF that(1)] y [OF that(2)] hb by (intro far) linarith
  have su: "successively (\<lambda>a b. \<not> continues_into a b) xs" "successively (\<lambda>a b. \<not> continues_into a b) ys"
    using c by (auto simp: rmap_compact_def successively_append_iff successively_Cons)
  have xs: "\<And>q. q \<in> set (cut_right rec whole) \<Longrightarrow> \<not> continues_into (last xs) q" "\<And>p. p \<in> set (cut_left rec whole) \<Longrightarrow> \<not> continues_into (last xs) p"
    "ys \<noteq> [] \<Longrightarrow> \<not> continues_into (last xs) (hd ys)" if "xs \<noteq> []"
    using that x [of "butlast xs" "last xs"] xq [of "butlast xs" "last xs"] xy [of "butlast xs" "last xs" "hd ys" "tl ys"] same_l by simp_all
  have ys: "\<And>q. q \<in> set (cut_right rec whole) \<Longrightarrow> \<not> continues_into q (hd ys)" "\<And>p. p \<in> set (cut_left rec whole) \<Longrightarrow> \<not> continues_into p (hd ys)"
    if "ys \<noteq> []"
    using that y [of "hd ys" "tl ys"] py [of "hd ys" "tl ys"] same_r [of _ "hd ys" "tl ys"] by simp_all
  have mid: "\<not> continues_into p q" if "p \<in> set (cut_left rec whole)" "q \<in> set (cut_right rec whole)" for p q
    using far [OF lr [OF that]] .
  consider "cut_left rec whole = []" "cut_right rec whole = []" | q where "cut_left rec whole = []" "cut_right rec whole = [q]"
    | p where "cut_left rec whole = [p]" "cut_right rec whole = []" | p q where "cut_left rec whole = [p]" "cut_right rec whole = [q]"
    using cut_shapes [of rec whole] by blast
  then have "rmap_compact (xs @ (cut_left rec whole @ cut_right rec whole) @ ys)"
    unfolding rmap_compact_def
    by cases (use xs ys mid su in \<open>auto simp: successively_append_iff successively_Cons\<close>)
  then show ?thesis using dis by simp
qed


lemma remove_canonical:
  assumes d: "rmap_disjoint n rs" and c: "rmap_compact rs" and h: "\<exists>r \<in> set rs. rmap_holds rec r" and ok: "rmap_ok rec"
  shows "\<exists>out. rmap_remove rs rec = Inr out \<and> rmap_disjoint n out \<and> rmap_compact out"
proof -
  obtain i where i: "picked rs rec = Some i" using h picked_None [of rs rec] by (cases "picked rs rec") auto
  then obtain xs whole ys where w: "rs = xs @ whole # ys" "length xs = i" "rmap_holds rec whole" by (metis picked_Some)
  let ?out = "xs @ (cut_left rec whole @ cut_right rec whole) @ ys"
  have out: "rmap_disjoint n ?out" "rmap_compact ?out" using cut_canonical [OF d [unfolded w(1)] c [unfolded w(1)] w(3) ok] by simp_all
  then show ?thesis using remove_picked(2) [of xs whole ys rec] i w sort_canonical [OF out(1)] by auto
qed

text \<open>Two neighbouring records that should be one: the same owner and the same flags, the second beginning at the block
  where the first ends and, unless the owner is one of the reserved negative ones, at the place in the file where
  the first ends.\<close>

definition one_run :: "Rmap \<Rightarrow> Rmap \<Rightarrow> bool" where
  "one_run a b \<longleftrightarrow> rm_owner a = rm_owner b \<and> drop_bit 54 (rm_offset a) = drop_bit 54 (rm_offset b) \<and>
     unat (rm_startblock a) + unat (rm_blockcount a) = unat (rm_startblock b) \<and>
     (sint (rm_owner a) < 0 \<or>
      unat (take_bit 54 (rm_offset a)) + unat (rm_blockcount a) = unat (take_bit 54 (rm_offset b)))"

lemma continues_one_run: "continues_into a b \<longleftrightarrow> one_run a b"
proof -
  have "file_offset r = take_bit 54 (rm_offset r)" for r by (simp add: file_offset_def OFF_MASK_mask take_bit_eq_mask)
  moreover have "rm_flags a = rm_flags b \<longleftrightarrow> drop_bit 54 (rm_offset a) = drop_bit 54 (rm_offset b)"
  proof
    assume eq: "rm_flags a = rm_flags b"
    have "drop_bit 54 (rm_flags r) = drop_bit 54 (rm_offset r)" for r
      by (rule bit_word_eqI) (auto simp: rm_flags_def OFF_MASK_mask bit_simps dest: bit_imp_le_length)
    from arg_cong [OF eq, of "drop_bit 54"] this show "drop_bit 54 (rm_offset a) = drop_bit 54 (rm_offset b)" by simp
  next
    assume eq: "drop_bit 54 (rm_offset a) = drop_bit 54 (rm_offset b)"
    have "bit (rm_offset a) i = bit (rm_offset b) i" if "54 \<le> i" for i
      using arg_cong [OF eq, of "\<lambda>w. bit w (i - 54)"] that by (simp add: bit_simps)
    then show "rm_flags a = rm_flags b" by (auto simp: rm_flags_def OFF_MASK_mask bit_eq_iff bit_simps not_less)
  qed
  ultimately show ?thesis by (simp add: continues_iff one_run_def is_reserved_owner_def)
qed

text \<open>Two neighbouring blocks of an inode's own map have no place in the file, and are still told apart by it: a
  list that the order of the tree would hold as one record stays two.\<close>

lemma map_blocks_not_merged:
  "rmap_insert [sample_rmap 10 1 131 OFF_BMBT_BLOCK] (sample_rmap 11 1 131 OFF_BMBT_BLOCK) =
     Inr [sample_rmap 10 1 131 OFF_BMBT_BLOCK, sample_rmap 11 1 131 OFF_BMBT_BLOCK]"
  by (simp add: rmap_eval rmap_insert_def insert_index_def vec_before_def vec_get_def vec_insert_def)

text \<open>C25. Where no block has two owners the reverse map stays in order and merged.  Into records that are ordered,
  disjoint and inside the group, a record of blocks that nobody owns goes in without an error, and a record of
  blocks its owner holds comes out (the record not empty, inside the group, and at place zero where it has none in a file); each leaves records that are ordered, disjoint and inside the group, and no two
  neighbours of one reserved owner, and no two of one inode whose places in the file continue, are left apart if none
  were before.  The blocks of an inode's extent map, whose place in the file is always zero, are left apart: two
  neighbouring ones stay two records, against the comment that there is one per contiguous run.\<close>

theorem rmap_stays_canonical:
  assumes "rmap_disjoint n rs" "successively (\<lambda>a b. \<not> one_run a b) rs" "n < 2 ^ 32" "rmap_plain rec" "rend rec \<le> n"
  shows "(rmap_apart rs rec \<longrightarrow>
      (\<exists>out. rmap_insert rs rec = Inr out \<and> rmap_disjoint n out \<and> successively (\<lambda>a b. \<not> one_run a b) out)) \<and>
    ((\<exists>r \<in> set rs. rmap_holds rec r) \<longrightarrow>
      (\<exists>out. rmap_remove rs rec = Inr out \<and> rmap_disjoint n out \<and> successively (\<lambda>a b. \<not> one_run a b) out)) \<and>
    rmap_insert [sample_rmap 10 1 131 OFF_BMBT_BLOCK] (sample_rmap 11 1 131 OFF_BMBT_BLOCK) =
      Inr [sample_rmap 10 1 131 OFF_BMBT_BLOCK, sample_rmap 11 1 131 OFF_BMBT_BLOCK]"
proof -
  have compact: "rmap_compact xs \<longleftrightarrow> successively (\<lambda>a b. \<not> one_run a b) xs" for xs by (simp add: rmap_compact_def continues_one_run)
  have ok: "rmap_ok rec" using assms(4) by (simp add: rmap_plain_def)
  note c = assms(2) [folded compact]
  show ?thesis
    unfolding compact [symmetric]
    using insert_total [OF assms(1,3) ok assms(5)] insert_canonical [OF _ assms(1) c assms(4,5)] remove_canonical [OF assms(1) c _ ok]
      map_blocks_not_merged by blast
qed

text \<open>A file's blocks joined on both sides, and the blocks of two neighbouring inode chunks, whose owner is reserved.\<close>

lemma rmap_stays_canonical_witness:
  "(\<exists>out. rmap_insert [sample_rmap 12 2 131 0, sample_rmap 17 1 131 5] (sample_rmap 14 3 131 2) = Inr out \<and> rmap_disjoint 100 out \<and>
      successively (\<lambda>a b. \<not> one_run a b) out) \<and>
   (\<exists>out. rmap_remove [sample_rmap 12 2 131 0, sample_rmap 17 1 131 5] (sample_rmap 13 1 131 1) = Inr out \<and> rmap_disjoint 100 out) \<and>
   (\<exists>out. rmap_insert [sample_rmap 16 8 (- 7) 0] (sample_rmap 24 8 (- 7) 0) = Inr out \<and> successively (\<lambda>a b. \<not> one_run a b) out)"
proof -
  let ?rs = "[sample_rmap 12 2 131 0, sample_rmap 17 1 131 5]" and ?ino = "[sample_rmap 16 8 (- 7) 0]"
  have "rmap_disjoint 100 ?rs" "successively (\<lambda>a b. \<not> one_run a b) ?rs" "(100 :: nat) < 2 ^ 32"
    by (simp_all add: rmap_eval rmap_disjoint_def one_run_def rmap_plain_def)
  note joined = rmap_stays_canonical [OF this]
  have "rmap_disjoint 100 ?ino" "successively (\<lambda>a b. \<not> one_run a b) ?ino" "(100 :: nat) < 2 ^ 32"
    by (simp_all add: rmap_eval rmap_disjoint_def one_run_def rmap_plain_def)
  note inodes = rmap_stays_canonical [OF this]
  have "rmap_plain (sample_rmap 14 3 131 2)" "rend (sample_rmap 14 3 131 2) \<le> 100" "rmap_apart ?rs (sample_rmap 14 3 131 2)"
    "rmap_plain (sample_rmap 24 8 (- 7) 0)" "rend (sample_rmap 24 8 (- 7) 0) \<le> 100" "rmap_apart ?ino (sample_rmap 24 8 (- 7) 0)"
    by (simp_all add: rmap_eval rmap_plain_def rmap_apart_def)
  moreover have "rmap_plain (sample_rmap 13 1 131 1)" "rend (sample_rmap 13 1 131 1) \<le> 100" "\<exists>r \<in> set ?rs. rmap_holds (sample_rmap 13 1 131 1) r"
    by (simp_all add: rmap_eval rmap_plain_def)
  ultimately show ?thesis using joined inodes by blast
qed

text \<open>The overlap check looks at the record before only: a record that runs into the one after it goes in.\<close>

lemma insert_accepts_overlap:
  "rmap_insert [sample_rmap 10 5 131 0] (sample_rmap 8 5 140 0) = Inr [sample_rmap 8 5 140 0, sample_rmap 10 5 131 0]"
  by (simp add: rmap_eval rmap_insert_def insert_index_def vec_before_def vec_get_def vec_insert_def)

section \<open>The codec\<close>

definition rmap_image :: "Rmap \<Rightarrow> bytes" where
  "rmap_image r = be_bytes32 (rm_startblock r) @ be_bytes32 (rm_blockcount r) @ be_bytes64 (rm_owner r) @ be_bytes64 (rm_offset r)"

interpretation rmap_codec: record_codec 24 rmap_encode rmap_decode "\<lambda>_. True" rmap_image
proof
  fix at :: nat and b :: bytes and r :: Rmap
  show "length (rmap_image r) = 24" by (simp add: rmap_image_def)
  show "at + 24 \<le> length b \<Longrightarrow> \<not> panics (rmap_decode b at)" by (simp add: rmap_decode_def read_ok)
  let ?s = "be_bytes32 (rm_startblock r)" and ?c = "be_bytes32 (rm_blockcount r)" and ?w = "be_bytes64 (rm_owner r)" and ?f = "be_bytes64 (rm_offset r)"
  show "rmap_encode b at r = Inr (blit b at (rmap_image r))" if "at + 24 \<le> length b"
    using that blit_blit_adjacent [of at ?s ?c b] blit_blit_adjacent [of at "?s @ ?c" ?w b] blit_blit_adjacent [of at "?s @ ?c @ ?w" ?f b]
    by (simp add: rmap_encode_def put_ok rmap_image_def)
  show "rmap_decode b at = Inr r" if "at + 24 \<le> length b" and eq: "take 24 (drop at b) = rmap_image r"
    using that(1) field_at [OF eq, of 0 4] field_at [OF eq, of 4 4] field_at [OF eq, of 8 8] field_at [OF eq, of 16 8]
    by (simp add: rmap_decode_def read_ok rmap_image_def)
qed

end
