(* ===== verification/AgHeaders.thy ===== *)
theory AgHeaders
  imports Geometry
begin

unbundle bit_operations_syntax

text \<open>
  The headers of an allocation group (\<^verbatim>\<open>src/src/ag.rs\<close>): the free-space header \<open>Agf\<close>, the inode header \<open>Agi\<close>,
  the identity every v5 header is checked for and its checksum.

  A header that is accepted is shown to be the one of its group and its volume, checksummed, with counters that
  fit the group; a buffer of a sector never panics the parser, and a shorter one may.
\<close>

section \<open>Definitions\<close>

definition XFS_AGF_MAGIC :: u32 where "XFS_AGF_MAGIC = 0x58414746"
definition XFS_AGI_MAGIC :: u32 where "XFS_AGI_MAGIC = 0x58414749"
definition XFS_AGFL_MAGIC :: u32 where "XFS_AGFL_MAGIC = 0x5841464c"
definition XFS_AGF_SIZE :: nat where "XFS_AGF_SIZE = 224"
definition XFS_AGI_SIZE :: nat where "XFS_AGI_SIZE = 344"
definition XFS_AGI_UNLINKED_BUCKETS :: nat where "XFS_AGI_UNLINKED_BUCKETS = 64"

definition check_identity :: "string \<Rightarrow> bytes \<Rightarrow> Superblock \<Rightarrow> nat \<Rightarrow> nat \<Rightarrow> u32 \<Rightarrow> unit res" where
  "check_identity what buf sb uuid_off seqno_off expected_ag =
     rbind (uuid_at buf uuid_off) (\<lambda>uuid.
     if uuid \<noteq> sb_meta_uuid sb then Inl (BlockIdentityMismatch what (ucast expected_ag) (- 1))
     else
       rbind (be32 buf seqno_off) (\<lambda>seqno.
         if seqno \<noteq> expected_ag then Inl (BlockIdentityMismatch what (ucast expected_ag) (ucast seqno)) else Inr ()))"

definition verify_crc :: "crc_crate \<Rightarrow> string \<Rightarrow> bytes \<Rightarrow> nat \<Rightarrow> nat \<Rightarrow> u32 \<Rightarrow> unit res" where
  "verify_crc C what buf sz crc_off ag =
     rbind (le32 buf crc_off) (\<lambda>stored.
     rbind (slice buf 0 sz) (\<lambda>sector.
     rbind (crc32c_with_zeroed_crc C sector crc_off) (\<lambda>computed.
       if stored \<noteq> computed then Inl (ChecksumMismatch what (ucast ag)) else Inr ())))"

record Agf =
  agf_seqno :: u32
  agf_length :: u32
  agf_roots :: "u32 list"
  agf_levels :: "u32 list"
  agf_flfirst :: u32
  agf_fllast :: u32
  agf_flcount :: u32
  agf_freeblks :: u32
  agf_longest :: u32
  agf_btreeblks :: u32
  agf_rmap_blocks :: u32
  agf_refcount_root :: u32
  agf_refcount_level :: u32

definition AGF_BNO :: nat where "AGF_BNO = 0"
definition AGF_CNT :: nat where "AGF_CNT = 1"
definition AGF_RMAP :: nat where "AGF_RMAP = 2"

definition agf_fields :: "bytes \<Rightarrow> Agf res" where
  "agf_fields buf =
     rbind (be32 buf 8) (\<lambda>seqno. rbind (be32 buf 12) (\<lambda>len.
     rbind (be32 buf 16) (\<lambda>r0. rbind (be32 buf 20) (\<lambda>r1. rbind (be32 buf 24) (\<lambda>r2.
     rbind (be32 buf 28) (\<lambda>l0. rbind (be32 buf 32) (\<lambda>l1. rbind (be32 buf 36) (\<lambda>l2.
     rbind (be32 buf 40) (\<lambda>flfirst. rbind (be32 buf 44) (\<lambda>fllast. rbind (be32 buf 48) (\<lambda>flcount.
     rbind (be32 buf 52) (\<lambda>freeblks. rbind (be32 buf 56) (\<lambda>longest. rbind (be32 buf 60) (\<lambda>btreeblks.
     rbind (be32 buf 80) (\<lambda>rmap_blocks. rbind (be32 buf 88) (\<lambda>refcount_root. rbind (be32 buf 92) (\<lambda>refcount_level.
       Inr \<lparr>agf_seqno = seqno, agf_length = len, agf_roots = [r0, r1, r2], agf_levels = [l0, l1, l2], agf_flfirst = flfirst,
            agf_fllast = fllast, agf_flcount = flcount, agf_freeblks = freeblks, agf_longest = longest, agf_btreeblks = btreeblks,
            agf_rmap_blocks = rmap_blocks, agf_refcount_root = refcount_root, agf_refcount_level = refcount_level\<rparr>)))))))))))))))))"

definition agf_parse :: "crc_crate \<Rightarrow> bytes \<Rightarrow> Superblock \<Rightarrow> u32 \<Rightarrow> Agf res" where
  "agf_parse C buf sb expected_ag =
     (if length buf < XFS_AGF_SIZE then Inl (BadSuperblock ''AGF needs more bytes'')
      else
        rbind (be32 buf 0) (\<lambda>magic.
        if magic \<noteq> XFS_AGF_MAGIC then Inl (BadSuperblock ''AGF has the wrong magic'')
        else
          rbind (if is_v5 sb
                 then rbind (verify_crc C ''AGF'' buf (unat (sb_sectsize sb)) 216 expected_ag) (\<lambda>_.
                        check_identity ''AGF'' buf sb 64 8 expected_ag)
                 else Inr ()) (\<lambda>_.
          rbind (agf_fields buf) (\<lambda>agf.
            if sb_agblocks sb < agf_length agf then Inl (BadSuperblock ''AGF length exceeds sb_agblocks'')
            else if agf_length agf < agf_freeblks agf then Inl (BadSuperblock ''AGF freeblks exceeds its own length'')
            else if agf_length agf < agf_longest agf then Inl (BadSuperblock ''AGF longest extent exceeds its own length'')
            else Inr agf))))"

definition has_rmap :: "Agf \<Rightarrow> bool" where
  "has_rmap agf \<longleftrightarrow> 0 < agf_levels agf ! AGF_RMAP"

record Agi =
  agi_seqno :: u32
  agi_length :: u32
  agi_count :: u32
  agi_root :: u32
  agi_level :: u32
  agi_freecount :: u32
  agi_newino :: u32
  agi_free_root :: u32
  agi_free_level :: u32
  agi_unlinked :: "u32 list"

definition agi_fields :: "bytes \<Rightarrow> Agi res" where
  "agi_fields buf =
     rbind (read_records be32 4 40 XFS_AGI_UNLINKED_BUCKETS buf) (\<lambda>unlinked.
     rbind (be32 buf 8) (\<lambda>seqno. rbind (be32 buf 12) (\<lambda>len. rbind (be32 buf 16) (\<lambda>count. rbind (be32 buf 20) (\<lambda>root.
     rbind (be32 buf 24) (\<lambda>level. rbind (be32 buf 28) (\<lambda>freecount. rbind (be32 buf 32) (\<lambda>newino.
     rbind (be32 buf 328) (\<lambda>free_root. rbind (be32 buf 332) (\<lambda>free_level.
       Inr \<lparr>agi_seqno = seqno, agi_length = len, agi_count = count, agi_root = root, agi_level = level, agi_freecount = freecount,
            agi_newino = newino, agi_free_root = free_root, agi_free_level = free_level, agi_unlinked = unlinked\<rparr>))))))))))"

definition agi_parse :: "crc_crate \<Rightarrow> bytes \<Rightarrow> Superblock \<Rightarrow> u32 \<Rightarrow> Agi res" where
  "agi_parse C buf sb expected_ag =
     (if length buf < XFS_AGI_SIZE then Inl (BadSuperblock ''AGI needs more bytes'')
      else
        rbind (be32 buf 0) (\<lambda>magic.
        if magic \<noteq> XFS_AGI_MAGIC then Inl (BadSuperblock ''AGI has the wrong magic'')
        else
          rbind (if is_v5 sb
                 then rbind (verify_crc C ''AGI'' buf (unat (sb_sectsize sb)) 312 expected_ag) (\<lambda>_.
                        check_identity ''AGI'' buf sb 296 8 expected_ag)
                 else Inr ()) (\<lambda>_.
          rbind (agi_fields buf) (\<lambda>agi.
            if agi_count agi < agi_freecount agi then Inl (BadSuperblock ''AGI freecount exceeds count'')
            else if agi_level agi = 0 then Inl (BadSuperblock ''AGI inode btree has level 0'')
            else Inr agi))))"

definition has_unlinked_inodes :: "Agi \<Rightarrow> bool" where
  "has_unlinked_inodes agi \<longleftrightarrow> list_ex (\<lambda>b. b \<noteq> - 1) (agi_unlinked agi)"

definition agf_lsn :: "bytes \<Rightarrow> u64 res" where "agf_lsn buf = be64 buf 208"
definition agi_lsn :: "bytes \<Rightarrow> u64 res" where "agi_lsn buf = be64 buf 320"

section \<open>What an accepted header says\<close>

lemma verify_crc_Inr: "verify_crc C what buf sz off ag = Inr () \<longleftrightarrow>
    off + 4 \<le> sz \<and> sz \<le> length buf \<and> crc32c_with_zeroed_crc C (take sz buf) off = Inr (from_be (rev (take 4 (drop off buf))))"
  by (auto simp: verify_crc_def rbind_eq_Inr le32_def slice_def crc32c_with_zeroed_crc_def split: if_splits)

lemma check_identity_Inr: "check_identity what buf sb u q ag = Inr () \<longleftrightarrow>
    u + 16 \<le> length buf \<and> q + 4 \<le> length buf \<and> take 16 (drop u buf) = sb_meta_uuid sb \<and> from_be (take 4 (drop q buf)) = ag"
  by (auto simp: check_identity_def rbind_eq_Inr uuid_at_def be32_def slice_def split: if_splits)

interpretation word_codec: record_codec 4 "\<lambda>b at w. put b at (be_bytes32 w)" be32 "\<lambda>_. True" be_bytes32
proof
  fix at :: nat and b :: bytes and w :: u32
  show "be32 b at = Inr w" if "at + 4 \<le> length b" "take 4 (drop at b) = be_bytes32 w" using that by (simp add: read_ok)
qed (simp_all add: put_ok read_ok)

lemma agf_fields_total: "XFS_AGF_SIZE \<le> length buf \<Longrightarrow> \<exists>agf. agf_fields buf = Inr agf"
  by (simp add: agf_fields_def XFS_AGF_SIZE_def read_ok)

lemma agf_fields_seqno: "agf_fields buf = Inr agf \<Longrightarrow> agf_seqno agf = from_be (take 4 (drop 8 buf))"
  by (auto simp: agf_fields_def rbind_eq_Inr read_Inr_iff)

lemma agi_fields_total: "XFS_AGI_SIZE \<le> length buf \<Longrightarrow> \<exists>agi. agi_fields buf = Inr agi"
  using read_records_total [of 4 buf be32 40 XFS_AGI_UNLINKED_BUCKETS]
  by (auto simp: agi_fields_def XFS_AGI_SIZE_def XFS_AGI_UNLINKED_BUCKETS_def read_ok)

lemma agi_fields_seqno: "agi_fields buf = Inr agi \<Longrightarrow> agi_seqno agi = from_be (take 4 (drop 8 buf))"
  by (auto simp: agi_fields_def rbind_eq_Inr read_Inr_iff)

text \<open>C26. A group header that is accepted can be relied on: on a v5 volume the checksum of its whole sector
  holds, it carries the volume's identity and it is the header of the group it was read for; the group is no
  longer than the superblock allows, no free count or longest run exceeds the group, no more inodes are free
  than there are, and the inode tree has a root.\<close>

theorem ag_headers_sound:
  "(case agf_parse C buf sb ag of Inl _ \<Rightarrow> True | Inr agf \<Rightarrow>
      be32 buf 0 = Inr XFS_AGF_MAGIC \<and> agf_length agf \<le> sb_agblocks sb \<and> agf_freeblks agf \<le> agf_length agf \<and>
      agf_longest agf \<le> agf_length agf \<and>
      (if is_v5 sb then agf_seqno agf = ag \<and> uuid_at buf 64 = Inr (sb_meta_uuid sb) \<and>
        rbind (slice buf 0 (unat (sb_sectsize sb))) (\<lambda>sector. crc32c_with_zeroed_crc C sector 216) = le32 buf 216 else True)) \<and>
   (case agi_parse C buf sb ag of Inl _ \<Rightarrow> True | Inr agi \<Rightarrow>
      be32 buf 0 = Inr XFS_AGI_MAGIC \<and> agi_freecount agi \<le> agi_count agi \<and> 0 < agi_level agi \<and>
      (if is_v5 sb then agi_seqno agi = ag \<and> uuid_at buf 296 = Inr (sb_meta_uuid sb) \<and>
        rbind (slice buf 0 (unat (sb_sectsize sb))) (\<lambda>sector. crc32c_with_zeroed_crc C sector 312) = le32 buf 312 else True))"
proof (rule conjI)
  show "case agf_parse C buf sb ag of Inl _ \<Rightarrow> True | Inr agf \<Rightarrow>
      be32 buf 0 = Inr XFS_AGF_MAGIC \<and> agf_length agf \<le> sb_agblocks sb \<and> agf_freeblks agf \<le> agf_length agf \<and>
      agf_longest agf \<le> agf_length agf \<and>
      (if is_v5 sb then agf_seqno agf = ag \<and> uuid_at buf 64 = Inr (sb_meta_uuid sb) \<and>
        rbind (slice buf 0 (unat (sb_sectsize sb))) (\<lambda>sector. crc32c_with_zeroed_crc C sector 216) = le32 buf 216 else True)"
  proof (cases "agf_parse C buf sb ag")
    case (Inr agf)
    then show ?thesis
      by (auto simp: agf_parse_def rbind_eq_Inr verify_crc_Inr check_identity_Inr not_less read_ok slice_def dest!: agf_fields_seqno split: if_splits)
  qed simp
  show "case agi_parse C buf sb ag of Inl _ \<Rightarrow> True | Inr agi \<Rightarrow>
      be32 buf 0 = Inr XFS_AGI_MAGIC \<and> agi_freecount agi \<le> agi_count agi \<and> 0 < agi_level agi \<and>
      (if is_v5 sb then agi_seqno agi = ag \<and> uuid_at buf 296 = Inr (sb_meta_uuid sb) \<and>
        rbind (slice buf 0 (unat (sb_sectsize sb))) (\<lambda>sector. crc32c_with_zeroed_crc C sector 312) = le32 buf 312 else True)"
  proof (cases "agi_parse C buf sb ag")
    case (Inr agi)
    then show ?thesis
      by (auto simp: agi_parse_def rbind_eq_Inr verify_crc_Inr check_identity_Inr not_less read_ok slice_def word_neq_0_conv dest!: agi_fields_seqno
        split: if_splits)
  qed simp
qed

section \<open>Panics\<close>

text \<open>A buffer of at least a sector never panics the parsers; that is what the mount reads.\<close>

lemma agf_parse_no_panic:
  assumes "512 \<le> unat (sb_sectsize sb)" "unat (sb_sectsize sb) \<le> length buf"
  shows "\<not> panics (agf_parse C buf sb ag) \<and> \<not> panics (agi_parse C buf sb ag)"
proof -
  obtain agf where f: "agf_fields buf = Inr agf" using agf_fields_total [of buf] assms by (auto simp: XFS_AGF_SIZE_def)
  obtain agi where g: "agi_fields buf = Inr agi" using agi_fields_total [of buf] assms by (auto simp: XFS_AGI_SIZE_def)
  have v: "\<not> panics (verify_crc C w buf (unat (sb_sectsize sb)) off ag)" if "off + 4 \<le> 512" for w off
    using assms that by (auto simp: verify_crc_def read_ok slice_def crc32c_with_zeroed_crc_def panics_def)
  have i: "\<not> panics (check_identity w buf sb u q ag)" if "u + 16 \<le> 512" "q + 4 \<le> 512" for w u q
    using assms that by (auto simp: check_identity_def read_panics_iff read_ok panics_def)
  show ?thesis
    using assms v [of 216 "''AGF''"] v [of 312 "''AGI''"] i [of 64 8 "''AGF''"] i [of 296 8 "''AGI''"]
    by (simp add: agf_parse_def agi_parse_def read_panics_iff f g read_ok)
qed

text \<open>The checks on the length are of the structure and not of the sector the checksum covers: a buffer of 224
  bytes with the right magic panics on a v5 volume.\<close>

lemma short_header_panics:
  assumes "is_v5 sb" "512 \<le> unat (sb_sectsize sb)" "length buf = 224" "be32 buf 0 = Inr XFS_AGF_MAGIC"
  shows "agf_parse C buf sb ag = Inl Panic"
  using assms by (simp add: agf_parse_def XFS_AGF_SIZE_def verify_crc_def read_ok slice_def)

end
