(* ===== verification/Agfl.thy ===== *)
theory Agfl
  imports AgHeaders
begin

unbundle bit_operations_syntax

text \<open>
  The free list of a group (\<^verbatim>\<open>src/src/agfl.rs\<close>): a ring of block numbers in the group's fourth sector, whose
  first index, last index and count are in the free-space header.

  The abstraction is the list of blocks from the oldest to the newest.  The ring is shown to be a queue of
  bounded length, through the interface \<open>bounded_queue\<close>: what is put comes out in the order it went in, a
  full ring refuses, and an entry that is not a block of the group past its headers is refused and left alone.
\<close>

section \<open>Definitions\<close>

definition AGFL_V5_HEADER_LEN :: nat where "AGFL_V5_HEADER_LEN = 36"
definition AGFL_ENTRY_LEN :: nat where "AGFL_ENTRY_LEN = 4"
definition NULLAGBLOCK :: u32 where "NULLAGBLOCK = - 1"

definition agfl_header :: "Superblock \<Rightarrow> nat" where
  "agfl_header sb = (if is_v5 sb then AGFL_V5_HEADER_LEN else 0)"

definition agfl_capacity :: "Superblock \<Rightarrow> nat" where
  "agfl_capacity sb = (unat (sb_sectsize sb) - agfl_header sb) div AGFL_ENTRY_LEN"

definition last_header_block :: "Superblock \<Rightarrow> u32" where
  "last_header_block sb = ucast (3 * ucast (sb_sectsize sb) div ucast (sb_blocksize sb) :: u64)"

record Agfl =
  fl_raw :: bytes
  fl_first :: u32
  fl_last :: u32
  fl_count :: u32
  fl_capacity :: nat
  fl_length :: u32

definition agfl_span :: "Agf \<Rightarrow> u32 \<Rightarrow> u32" where
  "agfl_span agf cap = (if agf_flcount agf = 0 then 0 else (agf_fllast agf + cap - agf_flfirst agf) mod cap + 1)"

definition agfl_identity :: "crc_crate \<Rightarrow> bytes \<Rightarrow> Superblock \<Rightarrow> u32 \<Rightarrow> unit res" where
  "agfl_identity C buf sb agno =
     rbind (be32 buf 0) (\<lambda>magic.
     if magic \<noteq> XFS_AGFL_MAGIC then Inl (BadSuperblock ''the free list has the wrong magic'')
     else
       rbind (le32 buf 32) (\<lambda>stored.
       rbind (crc32c_with_zeroed_crc C buf 32) (\<lambda>computed.
       if stored \<noteq> computed then Inl (ChecksumMismatch ''AGFL'' (ucast agno))
       else
         rbind (uuid_at buf 8) (\<lambda>uuid.
         if uuid \<noteq> sb_meta_uuid sb then Inl (BlockIdentityMismatch ''AGFL'' (ucast agno) (- 1))
         else
           rbind (be32 buf 4) (\<lambda>seqno.
             if seqno \<noteq> agno then Inl (BlockIdentityMismatch ''AGFL'' (ucast agno) (ucast seqno)) else Inr ())))))"

definition agfl_parse :: "crc_crate \<Rightarrow> bytes \<Rightarrow> Superblock \<Rightarrow> Agf \<Rightarrow> u32 \<Rightarrow> Agfl res" where
  "agfl_parse C buf sb agf agno =
     (let capacity = agfl_capacity sb; cap = of_nat capacity :: u32
      in if length buf < unat (sb_sectsize sb) then Inl (BadSuperblock ''the free list is shorter than a sector'')
         else
           rbind (if is_v5 sb then agfl_identity C buf sb agno else Inr ()) (\<lambda>_.
           if agf_flcount agf \<noteq> 0 \<and> (cap \<le> agf_flfirst agf \<or> cap \<le> agf_fllast agf)
           then Inl (BadSuperblock ''the free list runs outside the entries the sector holds'')
           else if capacity < unat (agf_flcount agf) \<or> agfl_span agf cap \<noteq> agf_flcount agf
           then Inl (BadSuperblock ''the free list does not span its count'')
           else
             rbind (slice buf 0 (unat (sb_sectsize sb))) (\<lambda>raw.
               Inr \<lparr>fl_raw = raw, fl_first = agf_flfirst agf, fl_last = agf_fllast agf, fl_count = agf_flcount agf,
                    fl_capacity = capacity, fl_length = agf_length agf\<rparr>)))"

definition entry_at :: "Superblock \<Rightarrow> u32 \<Rightarrow> nat" where
  "entry_at sb index = agfl_header sb + unat index * AGFL_ENTRY_LEN"

text \<open>\<^verbatim>\<open>entries\<close>: the loop over the count.  A remainder by a capacity of zero panics.\<close>

fun entries_from :: "Agfl \<Rightarrow> Superblock \<Rightarrow> u32 \<Rightarrow> nat \<Rightarrow> u32 list res" where
  "entries_from fl sb i 0 = Inr []"
| "entries_from fl sb i (Suc n) =
     (if (of_nat (fl_capacity fl) :: u32) = 0 then Inl Panic
      else
        rbind (be32 (fl_raw fl) (entry_at sb ((fl_first fl + i) mod of_nat (fl_capacity fl)))) (\<lambda>b.
        rbind (entries_from fl sb (i + 1) n) (\<lambda>bs. Inr (b # bs))))"

definition agfl_entries :: "Agfl \<Rightarrow> Superblock \<Rightarrow> u32 list res" where
  "agfl_entries fl sb = entries_from fl sb 0 (unat (fl_count fl))"

definition agfl_take :: "Agfl \<Rightarrow> Superblock \<Rightarrow> u32 \<Rightarrow> (Agfl \<times> u32) res" where
  "agfl_take fl sb agno =
     (if fl_count fl = 0 then Inl (UnsupportedFeature ''free list is empty, and refilling it is not implemented'')
      else
        rbind (be32 (fl_raw fl) (entry_at sb (fl_first fl))) (\<lambda>block.
        if block = NULLAGBLOCK \<or> block \<le> last_header_block sb \<or> fl_length fl \<le> block
        then Inl (BadSuperblock ''free-list entry is not a block of the group past its headers'')
        else if (of_nat (fl_capacity fl) :: u32) = 0 then Inl Panic
        else Inr (fl\<lparr>fl_first := (fl_first fl + 1) mod of_nat (fl_capacity fl), fl_count := fl_count fl - 1\<rparr>, block)))"

definition agfl_put :: "Agfl \<Rightarrow> Superblock \<Rightarrow> u32 \<Rightarrow> u32 \<Rightarrow> Agfl res" where
  "agfl_put fl sb agno block =
     (if fl_capacity fl \<le> unat (fl_count fl)
      then Inl (UnsupportedFeature ''free list is full, and returning one to free space instead is not implemented'')
      else if fl_count fl \<noteq> 0 \<and> (of_nat (fl_capacity fl) :: u32) = 0 then Inl Panic
      else
        let index = (if fl_count fl = 0 then fl_first fl else (fl_last fl + 1) mod of_nat (fl_capacity fl))
        in rbind (put (fl_raw fl) (entry_at sb index) (be_bytes32 block)) (\<lambda>raw.
             Inr (fl\<lparr>fl_raw := raw, fl_last := index, fl_first := (if fl_count fl = 0 then index else fl_first fl),
                     fl_count := fl_count fl + 1\<rparr>)))"

definition agfl_after :: "crc_crate \<Rightarrow> Agfl \<Rightarrow> Superblock \<Rightarrow> bytes res" where
  "agfl_after C fl sb =
     (if is_v5 sb
      then rbind (crc32c_with_zeroed_crc C (fl_raw fl) 32) (\<lambda>crc. put (fl_raw fl) 32 (le_bytes32 crc))
      else Inr (fl_raw fl))"


section \<open>The contract of a bounded queue\<close>

datatype 'a queue_op = Put 'a | Get

fun queue_step :: "nat \<Rightarrow> ('a \<Rightarrow> bool) \<Rightarrow> 'a list \<Rightarrow> 'a queue_op \<Rightarrow> ('a list \<times> 'a list) option" where
  "queue_step cap good q (Put x) = (if length q < cap then Some (q @ [x], []) else None)"
| "queue_step cap good [] Get = None"
| "queue_step cap good (x # q) Get = (if good x then Some (q, [x]) else None)"

fun queue_run :: "nat \<Rightarrow> ('a \<Rightarrow> bool) \<Rightarrow> 'a list \<Rightarrow> 'a queue_op list \<Rightarrow> ('a list \<times> 'a list) option" where
  "queue_run cap good q [] = Some (q, [])"
| "queue_run cap good q (a # as) =
     (case queue_step cap good q a of None \<Rightarrow> None
      | Some (q', xs) \<Rightarrow> (case queue_run cap good q' as of None \<Rightarrow> None | Some (q'', ys) \<Rightarrow> Some (q'', xs @ ys)))"

fun ring_step :: "('s \<Rightarrow> 'a \<Rightarrow> 's res) \<Rightarrow> ('s \<Rightarrow> ('s \<times> 'a) res) \<Rightarrow> 's \<Rightarrow> 'a queue_op \<Rightarrow> ('s \<times> 'a list) res" where
  "ring_step enq deq s (Put x) = rbind (enq s x) (\<lambda>s'. Inr (s', []))"
| "ring_step enq deq s Get = rbind (deq s) (\<lambda>(s', x). Inr (s', [x]))"

fun ring_run :: "('s \<Rightarrow> 'a \<Rightarrow> 's res) \<Rightarrow> ('s \<Rightarrow> ('s \<times> 'a) res) \<Rightarrow> 's \<Rightarrow> 'a queue_op list \<Rightarrow> ('s \<times> 'a list) res" where
  "ring_run enq deq s [] = Inr (s, [])"
| "ring_run enq deq s (a # as) =
     rbind (ring_step enq deq s a) (\<lambda>(s', xs). rbind (ring_run enq deq s' as) (\<lambda>(s'', ys). Inr (s'', xs @ ys)))"

text \<open>One step of the ring against one step of the queue: the same answer, or an error where the queue has none.\<close>

definition simulates :: "('s \<Rightarrow> bool) \<Rightarrow> ('s \<Rightarrow> 'a list) \<Rightarrow> ('s \<times> 'a list) res \<Rightarrow> ('a list \<times> 'a list) option \<Rightarrow> bool" where
  "simulates ok list r q \<longleftrightarrow>
     (case r of Inl e \<Rightarrow> e \<noteq> Panic \<and> q = None | Inr (s, xs) \<Rightarrow> ok s \<and> q = Some (list s, xs))"

locale bounded_queue =
  fixes inv :: "'s \<Rightarrow> bool" and abs :: "'s \<Rightarrow> 'a list" and cap :: nat and good :: "'a \<Rightarrow> bool"
    and enq :: "'s \<Rightarrow> 'a \<Rightarrow> 's res" and deq :: "'s \<Rightarrow> ('s \<times> 'a) res"
  assumes enq_law: "inv s \<Longrightarrow> simulates inv abs (ring_step enq deq s (Put x)) (queue_step cap good (abs s) (Put x))"
    and deq_law: "inv s \<Longrightarrow> simulates inv abs (ring_step enq deq s Get) (queue_step cap good (abs s) Get)"
begin

lemma run_simulates: "inv s \<Longrightarrow> simulates inv abs (ring_run enq deq s as) (queue_run cap good (abs s) as)"
proof (induction as arbitrary: s)
  case Nil
  then show ?case by (simp add: simulates_def)
next
  case (Cons a as)
  have st: "simulates inv abs (ring_step enq deq s a) (queue_step cap good (abs s) a)"
    using Cons.prems enq_law deq_law by (cases a) auto
  show ?case
  proof (cases "ring_step enq deq s a")
    case (Inl e)
    then show ?thesis using st by (simp add: simulates_def)
  next
    case (Inr p)
    obtain t xs where p: "p = (t, xs)" by force
    have t: "inv t" "queue_step cap good (abs s) a = Some (abs t, xs)" using st Inr p by (simp_all add: simulates_def)
    show ?thesis using Cons.IH [OF t(1)] Inr p t(2) by (auto simp: simulates_def split: sum.splits)
  qed
qed

end

section \<open>The ring\<close>

definition ring_entry :: "Superblock \<Rightarrow> bytes \<Rightarrow> nat \<Rightarrow> u32" where
  "ring_entry sb raw i = from_be (take 4 (drop (agfl_header sb + 4 * i) raw))"

definition ring_list :: "Superblock \<Rightarrow> Agfl \<Rightarrow> u32 list" where
  "ring_list sb fl = map (\<lambda>i. ring_entry sb (fl_raw fl) ((unat (fl_first fl) + i) mod agfl_capacity sb)) [0..<unat (fl_count fl)]"

definition ring_block :: "Superblock \<Rightarrow> u32 \<Rightarrow> u32 \<Rightarrow> bool" where
  "ring_block sb len b \<longleftrightarrow> b \<noteq> NULLAGBLOCK \<and> last_header_block sb < b \<and> b < len"

definition agfl_ok :: "Superblock \<Rightarrow> u32 \<Rightarrow> Agfl \<Rightarrow> bool" where
  "agfl_ok sb len fl \<longleftrightarrow>
     agfl_header sb \<le> unat (sb_sectsize sb) \<and> fl_capacity fl = agfl_capacity sb \<and> fl_length fl = len \<and> length (fl_raw fl) = unat (sb_sectsize sb) \<and>
     unat (fl_first fl) < agfl_capacity sb \<and> unat (fl_count fl) \<le> agfl_capacity sb \<and>
     (fl_count fl \<noteq> 0 \<longrightarrow> unat (fl_last fl) = (unat (fl_first fl) + (unat (fl_count fl) - 1)) mod agfl_capacity sb)"

lemma capacity_fits: "agfl_header sb \<le> unat (sb_sectsize sb) \<Longrightarrow> agfl_header sb + 4 * agfl_capacity sb \<le> unat (sb_sectsize sb)"
  by (simp add: agfl_capacity_def AGFL_ENTRY_LEN_def)

lemma capacity_small: "agfl_capacity sb < 65536" "unat (of_nat (agfl_capacity sb) :: u32) = agfl_capacity sb"
proof -
  have "agfl_capacity sb \<le> unat (sb_sectsize sb)" unfolding agfl_capacity_def by (rule le_trans [OF div_le_dividend]) simp
  then show "agfl_capacity sb < 65536" using unat_lt16 [of "sb_sectsize sb"] by simp
  then show "unat (of_nat (agfl_capacity sb) :: u32) = agfl_capacity sb" by (simp add: unat_of_nat)
qed

lemma ring_next:
  assumes "unat i < agfl_capacity sb"
  shows "unat ((i + 1) mod of_nat (agfl_capacity sb) :: u32) = (unat i + 1) mod agfl_capacity sb"
proof -
  have "unat (i + 1) = unat i + 1" using assms capacity_small(1) [of sb] unat_add_small [of i 1] by simp
  then show ?thesis by (simp add: unat_mod capacity_small(2))
qed

lemma mod_apart:
  fixes i j cap :: nat
  assumes "i < j" "j < cap + i" "0 < cap"
  shows "(f + i) mod cap \<noteq> (f + j) mod cap"
proof
  assume "(f + i) mod cap = (f + j) mod cap"
  then have "cap dvd (f + j) - (f + i)" using assms(1) by (metis mod_eq_dvd_iff_nat add_le_mono1 add.commute less_imp_le)
  then have "cap dvd j - i" using assms(1) by simp
  then show False using assms by (auto dest!: dvd_imp_le)
qed


lemma entry_at_eq: "entry_at sb i = agfl_header sb + 4 * unat i"
  by (simp add: entry_at_def AGFL_ENTRY_LEN_def)

lemma ring_entry_put:
  assumes "agfl_header sb + 4 * j + 4 \<le> length raw" "agfl_header sb + 4 * k + 4 \<le> length raw"
  shows "ring_entry sb (blit raw (agfl_header sb + 4 * j) (be_bytes32 b)) k = (if k = j then b else ring_entry sb raw k)"
proof (cases "k = j")
  case True
  have "take 4 (drop (agfl_header sb + 4 * j) (blit raw (agfl_header sb + 4 * j) (be_bytes32 b))) = be_bytes32 b"
    using assms take_drop_blit_same [of "agfl_header sb + 4 * j" "be_bytes32 b" raw] by simp
  then show ?thesis using True by (simp add: ring_entry_def)
next
  case False
  then have "take 4 (drop (agfl_header sb + 4 * k) (blit raw (agfl_header sb + 4 * j) (be_bytes32 b))) = take 4 (drop (agfl_header sb + 4 * k) raw)"
    using assms by (intro take_drop_blit_other) auto
  then show ?thesis using False by (simp add: ring_entry_def)
qed

lemma ring_list_length [simp]: "length (ring_list sb fl) = unat (fl_count fl)"
  by (simp add: ring_list_def)

lemma put_index:
  assumes "agfl_ok sb len fl"
  shows "unat (if fl_count fl = 0 then fl_first fl else (fl_last fl + 1) mod of_nat (fl_capacity fl)) =
    (unat (fl_first fl) + unat (fl_count fl)) mod agfl_capacity sb"
proof (cases "fl_count fl = 0")
  case False
  then have c: "0 < unat (fl_count fl)" by (simp add: unat_gt_0)
  let ?cap = "agfl_capacity sb"
  have l: "unat (fl_last fl) = (unat (fl_first fl) + (unat (fl_count fl) - 1)) mod ?cap" "fl_capacity fl = ?cap" "0 < ?cap"
    using assms False by (auto simp: agfl_ok_def)
  then have "unat ((fl_last fl + 1) mod of_nat (fl_capacity fl)) = (unat (fl_last fl) + 1) mod ?cap" by (simp add: ring_next)
  also have "\<dots> = (unat (fl_first fl) + unat (fl_count fl)) mod ?cap"
  proof -
    have "unat (fl_first fl) + (unat (fl_count fl) - 1) + 1 = unat (fl_first fl) + unat (fl_count fl)" using c by simp
    then show ?thesis unfolding l(1) mod_add_left_eq by simp
  qed
  finally show ?thesis using False by simp
qed (use assms in \<open>simp add: agfl_ok_def\<close>)

lemma put_law:
  assumes ok: "agfl_ok sb len fl"
  shows "simulates (agfl_ok sb len) (ring_list sb) (rbind (agfl_put fl sb agno b) (\<lambda>s. Inr (s, []))) (queue_step (agfl_capacity sb) (ring_block sb len) (ring_list sb fl) (Put b))"
proof (cases "unat (fl_count fl) < agfl_capacity sb")
  case False
  then show ?thesis using ok by (simp add: simulates_def agfl_put_def agfl_ok_def)
next
  case True
  let ?cap = "agfl_capacity sb" and ?f = "unat (fl_first fl)" and ?c = "unat (fl_count fl)"
  define index where "index = (if fl_count fl = 0 then fl_first fl else (fl_last fl + 1) mod of_nat (fl_capacity fl))"
  have i: "unat index = (?f + ?c) mod ?cap" unfolding index_def by (rule put_index [OF ok])
  have cap: "fl_capacity fl = ?cap" "0 < ?cap" "(of_nat ?cap :: u32) \<noteq> 0" "length (fl_raw fl) = unat (sb_sectsize sb)" "?f < ?cap"
    and h: "agfl_header sb \<le> unat (sb_sectsize sb)"
    using ok True capacity_small(2) [of sb] by (auto simp: agfl_ok_def)
  have fits: "agfl_header sb + 4 * k + 4 \<le> length (fl_raw fl)" if "k < ?cap" for k
    using that capacity_fits [OF h] cap(4) by linarith
  have ib: "unat index < ?cap" using i cap(2) by simp
  let ?raw = "blit (fl_raw fl) (agfl_header sb + 4 * unat index) (be_bytes32 b)"
  let ?fl = "fl\<lparr>fl_raw := ?raw, fl_last := index, fl_first := (if fl_count fl = 0 then index else fl_first fl), fl_count := fl_count fl + 1\<rparr>"
  have put: "agfl_put fl sb agno b = Inr ?fl"
    unfolding agfl_put_def Let_def index_def [symmetric] entry_at_eq using True cap(1-4) fits [OF ib] by (simp add: put_ok)
  have n: "unat (fl_count fl + 1) = ?c + 1" using True capacity_small(1) [of sb] unat_add_small [of "fl_count fl" 1] by simp
  have first: "unat (fl_first ?fl) = ?f" using index_def by simp
  have "ring_list sb ?fl = ring_list sb fl @ [b]"
  proof -
    have e: "ring_entry sb ?raw ((?f + k) mod ?cap) = (if k = ?c then b else ring_entry sb (fl_raw fl) ((?f + k) mod ?cap))" if "k \<le> ?c" for k
      using that ring_entry_put [OF fits [OF ib] fits, of "(?f + k) mod ?cap" b] cap(2) i mod_apart [of k ?c ?cap ?f] True by auto
    have "ring_list sb ?fl = map (\<lambda>k. ring_entry sb ?raw ((?f + k) mod ?cap)) [0..<Suc ?c]" unfolding ring_list_def first using n by simp
    also have "\<dots> = map (\<lambda>k. if k = ?c then b else ring_entry sb (fl_raw fl) ((?f + k) mod ?cap)) [0..<Suc ?c]" by (intro map_cong) (auto simp: e)
    finally show ?thesis by (simp add: ring_list_def)
  qed
  moreover have "agfl_ok sb len ?fl" using ok i n True first fits [OF ib] by (auto simp: agfl_ok_def)
  ultimately show ?thesis using put True by (simp add: simulates_def)
qed


lemma take_law:
  assumes ok: "agfl_ok sb len fl"
  shows "simulates (agfl_ok sb len) (ring_list sb) (rbind (agfl_take fl sb agno) (\<lambda>(s, x). Inr (s, [x]))) (queue_step (agfl_capacity sb) (ring_block sb len) (ring_list sb fl) Get)"
proof (cases "fl_count fl = 0")
  case True
  then show ?thesis by (simp add: simulates_def agfl_take_def ring_list_def)
next
  case False
  let ?cap = "agfl_capacity sb" and ?f = "unat (fl_first fl)" and ?c = "unat (fl_count fl)"
  have c: "0 < ?c" using False by (simp add: unat_gt_0)
  have cap: "fl_capacity fl = ?cap" "0 < ?cap" "(of_nat ?cap :: u32) \<noteq> 0" "length (fl_raw fl) = unat (sb_sectsize sb)" "?f < ?cap" "fl_length fl = len"
    and h: "agfl_header sb \<le> unat (sb_sectsize sb)"
    using ok capacity_small(2) [of sb] by (auto simp: agfl_ok_def)
  let ?x = "ring_entry sb (fl_raw fl) ?f"
  let ?fl = "fl\<lparr>fl_first := (fl_first fl + 1) mod of_nat (fl_capacity fl), fl_count := fl_count fl - 1\<rparr>"
  have "agfl_header sb + 4 * ?f + 4 \<le> length (fl_raw fl)" using cap(4,5) capacity_fits [OF h] by linarith
  then have rd: "be32 (fl_raw fl) (entry_at sb (fl_first fl)) = Inr ?x" by (simp add: entry_at_eq read_ok ring_entry_def)
  have tk: "agfl_take fl sb agno = (if ring_block sb len ?x then Inr (?fl, ?x)
      else Inl (BadSuperblock ''free-list entry is not a block of the group past its headers''))"
    using False cap(1,3,6) rd by (auto simp: agfl_take_def ring_block_def not_less)
  have first: "unat (fl_first ?fl) = (?f + 1) mod ?cap" using cap(5) by (simp add: cap(1) ring_next)
  have n: "unat (fl_count ?fl) = ?c - 1" using unat_sub_le [of 1 "fl_count fl"] c by simp
  have tail: "(unat (fl_first ?fl) + k) mod ?cap = (?f + Suc k) mod ?cap" for k unfolding first by (simp add: mod_add_left_eq)
  have "ring_list sb fl = ?x # ring_list sb ?fl"
  proof -
    have "[0..<?c] = 0 # map Suc [0..<?c - 1]" using c by (simp add: upt_conv_Cons map_Suc_upt del: upt_Suc)
    then have "ring_list sb fl = map (\<lambda>k. ring_entry sb (fl_raw fl) ((?f + k) mod ?cap)) (0 # map Suc [0..<?c - 1])"
      by (simp only: ring_list_def)
    moreover have "ring_list sb ?fl = map (\<lambda>k. ring_entry sb (fl_raw fl) ((?f + Suc k) mod ?cap)) [0..<?c - 1]"
      unfolding ring_list_def n tail by simp
    ultimately show ?thesis using cap(5) by (simp add: comp_def)
  qed
  moreover have "agfl_ok sb len ?fl"
  proof -
    have "unat (fl_last fl) = (unat (fl_first ?fl) + (unat (fl_count ?fl) - 1)) mod ?cap" if "fl_count ?fl \<noteq> 0"
    proof -
      have "0 < unat (fl_count ?fl)" using that unat_gt_0 by blast
      then have "1 < ?c" using n by simp
      then have "?f + Suc (?c - 1 - 1) = ?f + (?c - 1)" by simp
      then show ?thesis using ok False unfolding tail n by (simp add: agfl_ok_def)
    qed
    moreover have "unat (fl_first ?fl) < ?cap" unfolding first using cap(2) by simp
    moreover have "unat (fl_count ?fl) \<le> ?cap" using ok unfolding n by (auto simp: agfl_ok_def)
    ultimately show ?thesis using ok by (simp add: agfl_ok_def)
  qed
  ultimately show ?thesis using tk by (simp add: simulates_def)
qed


interpretation agfl_queue: bounded_queue "agfl_ok sb len" "ring_list sb" "agfl_capacity sb" "ring_block sb len"
  "\<lambda>fl b. agfl_put fl sb agno b" "\<lambda>fl. agfl_take fl sb agno" for sb len agno
  by unfold_locales (simp_all only: ring_step.simps put_law take_law)

text \<open>The header is checked so that the ring it describes is one, except for an empty list.\<close>

lemma parse_ok:
  assumes "agfl_parse C buf sb agf agno = Inr fl" "agf_flcount agf \<noteq> 0 \<or> unat (agf_flfirst agf) < agfl_capacity sb"
    "agfl_header sb \<le> unat (sb_sectsize sb)"
  shows "agfl_ok sb (agf_length agf) fl"
proof -
  let ?cap = "agfl_capacity sb" and ?f = "unat (agf_flfirst agf)" and ?l = "unat (agf_fllast agf)"
  have fl: "fl = \<lparr>fl_raw = take (unat (sb_sectsize sb)) buf, fl_first = agf_flfirst agf, fl_last = agf_fllast agf, fl_count = agf_flcount agf,
      fl_capacity = ?cap, fl_length = agf_length agf\<rparr>"
    and bound: "agf_flcount agf \<noteq> 0 \<Longrightarrow> ?f < ?cap \<and> ?l < ?cap" "unat (agf_flcount agf) \<le> ?cap" "agfl_span agf (of_nat ?cap) = agf_flcount agf"
    and len: "unat (sb_sectsize sb) \<le> length buf"
    using assms(1) by (auto simp: agfl_parse_def Let_def rbind_eq_Inr slice_def word_le_nat_alt capacity_small not_le not_less split: if_splits)
  have "?l = (?f + (unat (agf_flcount agf) - 1)) mod ?cap" if n: "agf_flcount agf \<noteq> 0"
  proof -
    have b: "?f < ?cap" "?l < ?cap" using bound(1) [OF n] by simp_all
    have s: "unat (agf_fllast agf + of_nat ?cap) = ?l + ?cap" using b capacity_small [of sb] by (subst unat_add_small) simp_all
    have "unat (agf_fllast agf + of_nat ?cap - agf_flfirst agf) = ?l + ?cap - ?f" using s b by (subst unat_sub_le) simp_all
    then have m: "unat ((agf_fllast agf + of_nat ?cap - agf_flfirst agf) mod of_nat ?cap) = (?l + ?cap - ?f) mod ?cap"
      by (simp add: unat_mod capacity_small)
    have small: "(?l + ?cap - ?f) mod ?cap < 65536" using capacity_small(1) [of sb] b(1) mod_less_divisor [of ?cap] by (metis gr_zeroI less_trans not_less_zero)
    have "unat (agfl_span agf (of_nat ?cap)) = (?l + ?cap - ?f) mod ?cap + 1"
      unfolding agfl_span_def if_not_P [OF n] using m small by (subst unat_add_small) simp_all
    then have "unat (agf_flcount agf) = (?l + ?cap - ?f) mod ?cap + 1" unfolding bound(3) .
    then have "(?f + (unat (agf_flcount agf) - 1)) mod ?cap = (?f + (?l + ?cap - ?f)) mod ?cap" by (simp add: mod_add_right_eq)
    then show ?thesis using b by simp
  qed
  then show ?thesis using assms(2,3) bound len by (auto simp: agfl_ok_def fl)
qed


lemma entries_ring:
  assumes ok: "agfl_ok sb len fl" and n: "unat i + n \<le> agfl_capacity sb"
  shows "entries_from fl sb i n = Inr (map (\<lambda>k. ring_entry sb (fl_raw fl) ((unat (fl_first fl) + unat i + k) mod agfl_capacity sb)) [0..<n])"
  using n
proof (induction n arbitrary: i)
  case 0
  then show ?case by simp
next
  case (Suc n)
  let ?cap = "agfl_capacity sb"
  have cap: "fl_capacity fl = ?cap" "unat (fl_first fl) < ?cap" "agfl_header sb \<le> unat (sb_sectsize sb)" "length (fl_raw fl) = unat (sb_sectsize sb)"
    using ok by (simp_all add: agfl_ok_def)
  have nz: "(of_nat ?cap :: u32) \<noteq> 0" using cap(2) capacity_small(2) [of sb] by auto
  have "unat (fl_first fl + i) = unat (fl_first fl) + unat i"
    using cap(2) Suc.prems capacity_small(1) [of sb] by (intro unat_add_small) simp
  then have m: "unat ((fl_first fl + i) mod of_nat ?cap) = (unat (fl_first fl) + unat i) mod ?cap" by (simp add: unat_mod capacity_small)
  have "(unat (fl_first fl) + unat i) mod ?cap < ?cap" using cap(2) by simp
  then have rd: "be32 (fl_raw fl) (entry_at sb ((fl_first fl + i) mod of_nat ?cap)) = Inr (ring_entry sb (fl_raw fl) ((unat (fl_first fl) + unat i) mod ?cap))"
    using capacity_fits [OF cap(3)] cap(4) by (simp add: entry_at_eq m read_ok ring_entry_def)
  have i: "unat (i + 1) = unat i + 1" using Suc.prems capacity_small(1) [of sb] by (subst unat_add_small) simp_all
  have up: "[0..<Suc n] = 0 # map Suc [0..<n]" by (simp add: upt_conv_Cons map_Suc_upt del: upt_Suc)
  show ?case using Suc.IH [of "i + 1"] Suc.prems nz rd by (simp add: cap(1) i up comp_def del: upt_Suc)
qed

text \<open>C21. The free list of a group is a bounded first-in first-out queue: from a header that is accepted with
  blocks on the list, or with a first index inside the ring, the blocks listed are those from the oldest to the
  newest, and any run of puts and takes does on the ring what it does on that queue.  It takes the oldest block
  and never another, refuses when the ring is full, when it is empty and when the entry is not a block of the
  group past its headers, and never panics.\<close>

theorem agfl_is_queue:
  assumes "agfl_parse C buf sb agf agno = Inr fl" "agf_flcount agf \<noteq> 0 \<or> unat (agf_flfirst agf) < agfl_capacity sb"
    "512 \<le> unat (sb_sectsize sb)"
  shows "agfl_entries fl sb = Inr (ring_list sb fl) \<and>
    (case ring_run (\<lambda>fl b. agfl_put fl sb agno b) (\<lambda>fl. agfl_take fl sb agno) fl ops of
       Inl e \<Rightarrow> e \<noteq> Panic \<and> queue_run (agfl_capacity sb) (ring_block sb (agf_length agf)) (ring_list sb fl) ops = None
     | Inr (fl', taken) \<Rightarrow> agfl_entries fl' sb = Inr (ring_list sb fl') \<and>
         queue_run (agfl_capacity sb) (ring_block sb (agf_length agf)) (ring_list sb fl) ops = Some (ring_list sb fl', taken))"
proof -
  have ok: "agfl_ok sb (agf_length agf) fl"
    using parse_ok [OF assms(1,2)] assms(3) by (simp add: agfl_header_def AGFL_V5_HEADER_LEN_def split: if_splits)
  have listed: "agfl_entries f sb = Inr (ring_list sb f)" if "agfl_ok sb (agf_length agf) f" for f
    using entries_ring [OF that, of 0 "unat (fl_count f)"] that by (simp add: agfl_entries_def ring_list_def agfl_ok_def)
  show ?thesis using listed [OF ok] listed agfl_queue.run_simulates [OF ok, of agno ops]
    by (auto simp: simulates_def split: sum.splits)
qed

definition sample_agf :: "u32 \<Rightarrow> u32 \<Rightarrow> u32 \<Rightarrow> Agf" where
  "sample_agf f l n = \<lparr>agf_seqno = 0, agf_length = 1000, agf_roots = [1, 2, 0], agf_levels = [1, 1, 0], agf_flfirst = f, agf_fllast = l,
     agf_flcount = n, agf_freeblks = 0, agf_longest = 0, agf_btreeblks = 0, agf_rmap_blocks = 0, agf_refcount_root = 0, agf_refcount_level = 0\<rparr>"

lemma sample_agfl:
  "agfl_parse C (replicate 512 0) sample_sb (sample_agf f l 0) 0 =
     Inr \<lparr>fl_raw = replicate 512 0, fl_first = f, fl_last = l, fl_count = 0, fl_capacity = 128, fl_length = 1000\<rparr>"
  by (simp add: agfl_parse_def sample_agf_def sample_sb_def is_v5_def version_def XFS_SB_VERSION_NUMBITS_def agfl_capacity_def agfl_header_def
      AGFL_ENTRY_LEN_def agfl_span_def slice_def)

lemma agfl_is_queue_witness:
  "\<exists>fl. agfl_parse sample_crc (replicate 512 0) sample_sb (sample_agf 127 0 0) 0 = Inr fl \<and>
    (case ring_run (\<lambda>fl b. agfl_put fl sample_sb 0 b) (\<lambda>fl. agfl_take fl sample_sb 0) fl [Put 12, Put 13, Get] of
       Inl e \<Rightarrow> False | Inr (fl', taken) \<Rightarrow> taken = [12] \<and> ring_list sample_sb fl' = [13])"
proof -
  let ?fl = "\<lparr>fl_raw = replicate 512 0, fl_first = 127, fl_last = 0, fl_count = 0, fl_capacity = 128, fl_length = 1000\<rparr> :: Agfl"
  have "agfl_capacity sample_sb = 128" "ring_list sample_sb ?fl = []" "last_header_block sample_sb = 0"
    by (simp_all add: agfl_capacity_def agfl_header_def sample_sb_def is_v5_def version_def XFS_SB_VERSION_NUMBITS_def AGFL_ENTRY_LEN_def
        ring_list_def last_header_block_def)
  then have "queue_run (agfl_capacity sample_sb) (ring_block sample_sb 1000) (ring_list sample_sb ?fl) [Put 12, Put 13, Get] = Some ([13], [12])"
    by (simp add: ring_block_def NULLAGBLOCK_def)
  then show ?thesis
    using agfl_is_queue [OF sample_agfl [of sample_crc 127 0], of "[Put 12, Put 13, Get]"] \<open>agfl_capacity sample_sb = 128\<close> sample_agfl
    by (simp add: sample_agf_def sample_sb_def split: sum.splits) (auto simp: sample_agf_def)
qed

text \<open>An empty list is accepted with any first index, and the first block put on it goes there: an index past the
  sector panics.\<close>

lemma empty_list_wild_first_panics:
  "rbind (agfl_parse C (replicate 512 0) sample_sb (sample_agf 200 0 0) 0) (\<lambda>fl. agfl_put fl sample_sb 0 12) = Inl Panic"
  unfolding sample_agfl
  by (simp add: agfl_put_def entry_at_eq agfl_header_def put_def sample_sb_def is_v5_def version_def XFS_SB_VERSION_NUMBITS_def)

end
