(* ===== verification/GroupAlloc.thy ===== *)
theory GroupAlloc
  imports Refcount Rmap Agfl LogHead
begin

unbundle bit_operations_syntax

text \<open>
  The allocator of one operation (\<^verbatim>\<open>GroupAlloc\<close> in \<^verbatim>\<open>src/src/group_write.rs\<close>): a group's free space, its reverse
  map, its reference counts and its free list, read once and edited together, so that each take sees the ones
  before it.  Opening the group and turning the edits into buffer items go through the shared tree layout and
  are in \<^verbatim>\<open>GroupTrees\<close>; the fields only they need are left out of the state here.

  An edit that fails ends the operation and drops the state, so an error carries none.
\<close>

section \<open>Definitions\<close>

record GroupAlloc =
  ga_agno :: u32
  ga_agf_raw :: bytes
  ga_by_block :: "FreeExtent list"
  ga_settled :: "FreeExtent list"
  ga_rmap :: "Rmap list option"
  ga_agfl :: Agfl
  ga_refcount :: "Refcount list option"
  ga_took :: bool

text \<open>The free blocks of the whole volume: the loop over the groups.\<close>

fun free_from :: "crc_crate \<Rightarrow> Superblock \<Rightarrow> dev_read \<Rightarrow> u32 \<Rightarrow> nat \<Rightarrow> u64 \<Rightarrow> u64 res" where
  "free_from C sb dev agno 0 free = Inr free"
| "free_from C sb dev agno (Suc k) free =
     rbind (dev (ucast agno * ucast (sb_agblocks sb) * ucast (sb_blocksize sb) + ucast (sb_sectsize sb)) (unat (sb_sectsize sb))) (\<lambda>raw.
     rbind (agf_parse C raw sb agno) (\<lambda>agf. free_from C sb dev (agno + 1) k (free + ucast (agf_freeblks agf))))"

definition volume_free_blocks :: "crc_crate \<Rightarrow> Superblock \<Rightarrow> dev_read \<Rightarrow> u64 res" where
  "volume_free_blocks C sb dev = free_from C sb dev 0 (unat (sb_agcount sb)) 0"

fun first_common_run :: "FreeExtent list \<Rightarrow> FreeExtent list \<Rightarrow> u32 \<Rightarrow> u32 option" where
  "first_common_run (x # xs) (y # ys) want =
     (let start = max (fe_startblock x) (fe_startblock y)
      in if ucast start + ucast want \<le> min (fe_end x) (fe_end y) then Some start
         else if fe_end x \<le> fe_end y then first_common_run xs (y # ys) want
         else first_common_run (x # xs) ys want)"
| "first_common_run _ _ want = None"

text \<open>The rest of a remainder and a count, as the allocator rounds up to an alignment.\<close>

definition div_ceil64 :: "u64 \<Rightarrow> u64 \<Rightarrow> u64" where
  "div_ceil64 a b = (if a mod b = 0 then a div b else a div b + 1)"

fun find_aligned :: "u32 \<Rightarrow> u64 \<Rightarrow> FreeExtent list \<Rightarrow> u32 option" where
  "find_aligned want align [] = None"
| "find_aligned want align (run # runs) =
     (let start = div_ceil64 (ucast (fe_startblock run)) align * align
      in if start + ucast want \<le> fe_end run then Some (ucast start) else find_aligned want align runs)"

definition take_at :: "GroupAlloc \<Rightarrow> u32 \<Rightarrow> u32 \<Rightarrow> u64 \<Rightarrow> u64 \<Rightarrow> (GroupAlloc \<times> u32) res" where
  "take_at g start want owner offset =
     rbind (alloc_extent (ga_by_block g) \<lparr>fe_startblock = start, fe_blockcount = want\<rparr>) (\<lambda>(free, _).
     rbind (case ga_rmap g of
              None \<Rightarrow> Inr None
            | Some records \<Rightarrow>
                rbind (rmap_insert records \<lparr>rm_startblock = start, rm_blockcount = want, rm_owner = owner, rm_offset = offset\<rparr>)
                  (\<lambda>records'. Inr (Some records'))) (\<lambda>rmap.
       Inr (g\<lparr>ga_by_block := free, ga_rmap := rmap, ga_took := True\<rparr>, start)))"

definition take_aligned :: "crc_crate \<Rightarrow> Superblock \<Rightarrow> dev_read \<Rightarrow> GroupAlloc \<Rightarrow> u32 \<Rightarrow> u32 \<Rightarrow> u64 \<Rightarrow> u64 \<Rightarrow> (GroupAlloc \<times> u32) res" where
  "take_aligned C sb dev g want align owner offset =
     (case find_aligned want (ucast (max align 1)) (ga_by_block g) of
        Some start \<Rightarrow> take_at g start want owner offset
      | None \<Rightarrow>
          rbind (volume_free_blocks C sb dev) (\<lambda>free.
            if free < ucast want then Inl (NoSpace ''the whole volume has fewer blocks free'')
            else Inl (UnsupportedFeature ''no single free run of the group is long enough'')))"

definition ga_take :: "crc_crate \<Rightarrow> Superblock \<Rightarrow> dev_read \<Rightarrow> GroupAlloc \<Rightarrow> u32 \<Rightarrow> u64 \<Rightarrow> u64 \<Rightarrow> (GroupAlloc \<times> u32) res" where
  "ga_take C sb dev g want owner offset = take_aligned C sb dev g want 1 owner offset"

definition take_up_to :: "crc_crate \<Rightarrow> Superblock \<Rightarrow> dev_read \<Rightarrow> GroupAlloc \<Rightarrow> u32 \<Rightarrow> u64 \<Rightarrow> u64 \<Rightarrow> (GroupAlloc \<times> (u32 \<times> u32) option) res" where
  "take_up_to C sb dev g want owner offset =
     (let got = (if list_ex (\<lambda>run. want \<le> fe_blockcount run) (ga_by_block g) then want else min (longest (ga_by_block g)) want)
      in if got = 0 then Inr (g, None)
         else rbind (ga_take C sb dev g got owner offset) (\<lambda>(g', start). Inr (g', Some (start, got))))"

definition take_settled :: "GroupAlloc \<Rightarrow> u32 \<Rightarrow> u64 \<Rightarrow> u64 \<Rightarrow> (GroupAlloc \<times> u32) res" where
  "take_settled g want owner offset =
     (case first_common_run (ga_settled g) (ga_by_block g) want of
        None \<Rightarrow> Inl (UnsupportedFeature ''no single free run that was free before this record began'')
      | Some start \<Rightarrow> take_at g start want owner offset)"

definition give_back :: "GroupAlloc \<Rightarrow> FreeExtent \<Rightarrow> (GroupAlloc \<times> Freed) res" where
  "give_back g ext = rbind (free_extent (ga_by_block g) ext) (\<lambda>(free, freed). Inr (g\<lparr>ga_by_block := free, ga_took := True\<rparr>, freed))"

definition forget_rmap :: "GroupAlloc \<Rightarrow> Rmap \<Rightarrow> GroupAlloc res" where
  "forget_rmap g r =
     (case ga_rmap g of
        None \<Rightarrow> Inr g
      | Some records \<Rightarrow> rbind (rmap_remove records r) (\<lambda>records'. Inr (g\<lparr>ga_rmap := Some records', ga_took := True\<rparr>)))"

definition remember_rmap :: "GroupAlloc \<Rightarrow> Rmap \<Rightarrow> GroupAlloc res" where
  "remember_rmap g r =
     (case ga_rmap g of
        None \<Rightarrow> Inr g
      | Some records \<Rightarrow> rbind (rmap_insert records r) (\<lambda>records'. Inr (g\<lparr>ga_rmap := Some records', ga_took := True\<rparr>)))"

definition remember_moved_rmap :: "GroupAlloc \<Rightarrow> Rmap \<Rightarrow> GroupAlloc res" where
  "remember_moved_rmap g r =
     (if ga_refcount g = None then remember_rmap g r
      else
        case ga_rmap g of
          None \<Rightarrow> Inr g
        | Some records \<Rightarrow> rbind (rmap_insert_shared records r) (\<lambda>records'. Inr (g\<lparr>ga_rmap := Some records', ga_took := True\<rparr>)))"

definition release_shared :: "GroupAlloc \<Rightarrow> u32 \<Rightarrow> u32 \<Rightarrow> (GroupAlloc \<times> FreeExtent list) res" where
  "release_shared g startblock blockcount =
     (case ga_refcount g of
        None \<Rightarrow> Inr (g, [\<lparr>fe_startblock = startblock, fe_blockcount = blockcount\<rparr>])
      | Some records \<Rightarrow>
          rbind (release records startblock blockcount) (\<lambda>(records', ranges).
            Inr (g\<lparr>ga_refcount := Some records', ga_took := (ga_took g \<or> records' \<noteq> records)\<rparr>, ranges)))"

text \<open>Blocks for the inode trees: one block at a time, owned by the trees.\<close>

definition inode_tree_take :: "crc_crate \<Rightarrow> Superblock \<Rightarrow> dev_read \<Rightarrow> GroupAlloc \<Rightarrow> (GroupAlloc \<times> u32) res" where
  "inode_tree_take C sb dev g = ga_take C sb dev g 1 OWN_INOBT 0"

definition inode_tree_put :: "GroupAlloc \<Rightarrow> u32 \<Rightarrow> GroupAlloc res" where
  "inode_tree_put g agblock =
     rbind (forget_rmap g \<lparr>rm_startblock = agblock, rm_blockcount = 1, rm_owner = OWN_INOBT, rm_offset = 0\<rparr>) (\<lambda>g.
     rbind (give_back g \<lparr>fe_startblock = agblock, fe_blockcount = 1\<rparr>) (\<lambda>(g, _). Inr g))"

text \<open>Refilling the free list out of free space: what the list should hold, one block moved onto it, and the loop.\<close>

definition refill_need :: "GroupAlloc \<Rightarrow> Superblock \<Rightarrow> u32 res" where
  "refill_need g sb =
     rbind (be32 (ga_agf_raw g) (28 + 4 * AGF_BNO)) (\<lambda>bno.
     rbind (be32 (ga_agf_raw g) (28 + 4 * AGF_CNT)) (\<lambda>cnt.
     rbind (if ga_rmap g \<noteq> None then rbind (be32 (ga_agf_raw g) (28 + 4 * AGF_RMAP)) (\<lambda>l. Inr (2 * l)) else Inr 0) (\<lambda>rmap.
       Inr (min (2 * bno + 2 * cnt + rmap) (of_nat (agfl_capacity sb))))))"

definition refill_one :: "Superblock \<Rightarrow> GroupAlloc \<Rightarrow> GroupAlloc res" where
  "refill_one sb g =
     (case ga_by_block g of
        [] \<Rightarrow> Inl (UnsupportedFeature ''no free space left to refill its free list'')
      | run # _ \<Rightarrow>
          let block = fe_startblock run
          in rbind (alloc_extent (ga_by_block g) \<lparr>fe_startblock = block, fe_blockcount = 1\<rparr>) (\<lambda>(free, _).
             rbind (agfl_put (ga_agfl g) sb (ga_agno g) block) (\<lambda>agfl.
             rbind (case ga_rmap g of
                      None \<Rightarrow> Inr None
                    | Some records \<Rightarrow>
                        rbind (rmap_insert records \<lparr>rm_startblock = block, rm_blockcount = 1, rm_owner = OWN_AG, rm_offset = 0\<rparr>)
                          (\<lambda>records'. Inr (Some records'))) (\<lambda>rmap.
               Inr (g\<lparr>ga_by_block := free, ga_agfl := agfl, ga_rmap := rmap\<rparr>)))))"

lemma agfl_put_count: "agfl_put fl sb agno b = Inr fl' \<Longrightarrow> fl_count fl' = fl_count fl + 1"
  by (auto simp: agfl_put_def Let_def rbind_eq_Inr split: if_splits)

lemma refill_one_count:
  assumes "refill_one sb g = Inr g'" "fl_count (ga_agfl g) < need"
  shows "unat (fl_count (ga_agfl g')) = unat (fl_count (ga_agfl g)) + 1"
proof -
  obtain agfl where p: "agfl_put (ga_agfl g) sb (ga_agno g) (fe_startblock (hd (ga_by_block g))) = Inr agfl" "ga_agfl g' = agfl"
    using assms(1) by (auto simp: refill_one_def Let_def rbind_eq_Inr split: list.splits)
  then have "fl_count agfl = fl_count (ga_agfl g) + 1" using agfl_put_count by blast
  moreover have "unat (fl_count (ga_agfl g)) + 1 < 2 ^ 32" using assms(2) unat_lt32 [of need] by (simp add: word_less_nat_alt)
  ultimately show ?thesis using p unat_add_small [of "fl_count (ga_agfl g)" 1] by simp
qed

function refill_loop :: "Superblock \<Rightarrow> u32 \<Rightarrow> GroupAlloc \<Rightarrow> GroupAlloc res" where
  "refill_loop sb need g =
     (if fl_count (ga_agfl g) < need then rbind (refill_one sb g) (\<lambda>g'. refill_loop sb need g') else Inr g)"
  by pat_completeness auto
termination
  by (relation "measure (\<lambda>(sb, need, g). unat need - unat (fl_count (ga_agfl g)))")
    (auto simp: word_less_nat_alt dest: refill_one_count)

declare refill_loop.simps [simp del]

definition refill_free_list :: "Superblock \<Rightarrow> GroupAlloc \<Rightarrow> GroupAlloc res" where
  "refill_free_list sb g = rbind (refill_need g sb) (\<lambda>need. refill_loop sb need g)"


section \<open>Where blocks are\<close>

definition rmap_blocks :: "Rmap list \<Rightarrow> nat set" where
  "rmap_blocks rs = (\<Union>r \<in> set rs. {rstart r ..< rend r})"

text \<open>The group in order: its free runs ordered and inside it, and its reverse map canonical and of blocks that are
  not free.\<close>

definition group_ok :: "nat \<Rightarrow> GroupAlloc \<Rightarrow> bool" where
  "group_ok n g \<longleftrightarrow>
     free_ok n (ga_by_block g) \<and>
     (case ga_rmap g of
        None \<Rightarrow> True
      | Some rs \<Rightarrow> rmap_disjoint n rs \<and> rmap_compact rs \<and> rmap_blocks rs \<inter> free_blocks (ga_by_block g) = {})"

text \<open>What the reverse map says, where there is one.\<close>

definition group_owned :: "GroupAlloc \<Rightarrow> mapping multiset" where
  "group_owned g = (case ga_rmap g of None \<Rightarrow> {#} | Some rs \<Rightarrow> owned rs)"

lemma maps_blocks: "fst ` set_mset (maps r) = {rstart r ..< rend r}"
  by (auto simp: maps_def span_def image_image)

lemma owned_blocks: "fst ` set_mset (owned rs) = rmap_blocks rs"
  by (induction rs) (simp_all add: rmap_blocks_def image_Un maps_blocks)

lemma insert_blocks: "rmap_insert rs r = Inr rs' \<Longrightarrow> rmap_blocks rs' = rmap_blocks rs \<union> {rstart r ..< rend r}"
  unfolding owned_blocks [symmetric] by (simp add: insert_owned image_Un maps_blocks)

lemma apart_of_free:
  assumes "rmap_blocks rs \<inter> F = {}" "{rstart r ..< rend r} \<subseteq> F" "rmap_ok r" "\<forall>x \<in> set rs. rmap_ok x"
  shows "rmap_apart rs r"
  unfolding rmap_apart_def
proof
  fix x assume x: "x \<in> set rs"
  have "{rstart x ..< rend x} \<subseteq> rmap_blocks rs" using x by (auto simp: rmap_blocks_def)
  then have dis: "{rstart x ..< rend x} \<inter> {rstart r ..< rend r} = {}" using assms(1,2) by blast
  have pos: "0 < rcount x" "0 < rcount r" using assms(3,4) x by (auto simp: rmap_ok_def)
  show "rend x \<le> rstart r \<or> rend r \<le> rstart x"
  proof (rule ccontr)
    assume "\<not> ?thesis"
    then have "max (rstart x) (rstart r) \<in> {rstart x ..< rend x} \<inter> {rstart r ..< rend r}" using pos by auto
    then show False using dis by blast
  qed
qed


text \<open>The record of the blocks a take hands to an owner.\<close>

definition taken :: "u32 \<Rightarrow> u32 \<Rightarrow> u64 \<Rightarrow> u64 \<Rightarrow> Rmap" where
  "taken start want owner offset = \<lparr>rm_startblock = start, rm_blockcount = want, rm_owner = owner, rm_offset = offset\<rparr>"

abbreviation ext_of :: "Rmap \<Rightarrow> FreeExtent" where
  "ext_of r \<equiv> \<lparr>fe_startblock = rm_startblock r, fe_blockcount = rm_blockcount r\<rparr>"

lemma free_inside: "free_ok n free \<Longrightarrow> r \<in> set free \<Longrightarrow> run_blocks e \<subseteq> run_blocks r \<Longrightarrow> 0 < unat (fe_blockcount e) \<Longrightarrow> fe_stop e \<le> n"
  by (auto simp: free_ok_def run_fits_def run_blocks_def atLeastLessThan_subset_iff)

lemma free_cover: "x \<in> set free \<Longrightarrow> run_blocks (ext_of r) \<subseteq> run_blocks x \<Longrightarrow> {rstart r ..< rend r} \<subseteq> free_blocks free"
  using in_free_blocks [of _ free] by (force simp: run_blocks_def)

lemma take_at_total:
  assumes g: "group_ok n g" and n: "n < 2 ^ 32" and r: "r = taken start want owner offset" "rmap_plain r"
    and run: "\<exists>x \<in> set (ga_by_block g). run_blocks (ext_of r) \<subseteq> run_blocks x"
  shows "\<exists>g'. take_at g start want owner offset = Inr (g', start)"
proof -
  have ok: "rmap_ok r" using r(2) by (simp add: rmap_plain_def)
  have e: "ext_of r = \<lparr>fe_startblock = start, fe_blockcount = want\<rparr>" by (simp add: r(1) taken_def)
  have free: "free_ok n (ga_by_block g)" using g by (simp add: group_ok_def)
  have nz: "want \<noteq> 0" using ok by (auto simp: rmap_ok_def r(1) taken_def)
  obtain free' how where al: "alloc_extent (ga_by_block g) \<lparr>fe_startblock = start, fe_blockcount = want\<rparr> = Inr (free', how)"
    using alloc_extent_Inl [OF free, of "ext_of r"] run nz unfolding e by (cases "alloc_extent (ga_by_block g) \<lparr>fe_startblock = start, fe_blockcount = want\<rparr>") auto
  have sub: "{rstart r ..< rend r} \<subseteq> free_blocks (ga_by_block g)" using run free_cover by blast
  obtain x where x: "x \<in> set (ga_by_block g)" "run_blocks (ext_of r) \<subseteq> run_blocks x" using run by blast
  have stop: "rend r \<le> n" using free_inside [OF free x] ok by (simp add: rmap_ok_def)
  show ?thesis
  proof (cases "ga_rmap g")
    case None
    then show ?thesis using al by (simp add: take_at_def)
  next
    case (Some rs)
    have rs: "rmap_disjoint n rs" "rmap_blocks rs \<inter> free_blocks (ga_by_block g) = {}" using g Some by (simp_all add: group_ok_def)
    have "rmap_apart rs r" using apart_of_free [OF rs(2) sub ok] disjoint_elem [OF rs(1)] by (simp add: rmap_plain_def)
    then obtain rs' where "rmap_insert rs r = Inr rs'" using insert_total [OF rs(1) n ok stop] by blast
    then show ?thesis using al Some by (simp add: take_at_def r(1) taken_def)
  qed
qed

lemma take_at_keeps:
  assumes g: "group_ok n g" and n: "n < 2 ^ 32" and r: "r = taken start want owner offset" "rmap_plain r"
    and tk: "take_at g start want owner offset = Inr (g', at)"
  shows "group_ok n g'" "at = start" "{rstart r ..< rend r} \<subseteq> free_blocks (ga_by_block g)"
    "free_blocks (ga_by_block g') = free_blocks (ga_by_block g) - {rstart r ..< rend r}"
    "group_owned g' = group_owned g + (if ga_rmap g = None then {#} else maps r)"
    "ga_rmap g' = None \<longleftrightarrow> ga_rmap g = None" "ga_agfl g' = ga_agfl g" "ga_settled g' = ga_settled g"
proof -
  have ok: "rmap_ok r" using r(2) by (simp add: rmap_plain_def)
  have e: "\<lparr>fe_startblock = start, fe_blockcount = want\<rparr> = ext_of r" by (simp add: r(1) taken_def)
  have free: "free_ok n (ga_by_block g)" using g by (simp add: group_ok_def)
  obtain free' how where al: "alloc_extent (ga_by_block g) (ext_of r) = Inr (free', how)" and f: "ga_by_block g' = free'" and at: "at = start"
    and rest: "ga_agfl g' = ga_agfl g" "ga_settled g' = ga_settled g"
    using tk unfolding take_at_def e by (auto simp: rbind_eq_Inr)
  note al' = alloc_extent_Inr [OF free n al]
  have blocks: "run_blocks (ext_of r) = {rstart r ..< rend r}" by (simp add: run_blocks_def)
  obtain x where x: "x \<in> set (ga_by_block g)" "run_blocks (ext_of r) \<subseteq> run_blocks x" using al'(3) by blast
  have sub: "{rstart r ..< rend r} \<subseteq> free_blocks (ga_by_block g)" using free_cover [OF x] .
  have stop: "rend r \<le> n" using free_inside [OF free x] ok by (simp add: rmap_ok_def)
  show "at = start" "{rstart r ..< rend r} \<subseteq> free_blocks (ga_by_block g)" "ga_agfl g' = ga_agfl g" "ga_settled g' = ga_settled g"
    "free_blocks (ga_by_block g') = free_blocks (ga_by_block g) - {rstart r ..< rend r}"
    using at sub rest al'(2) by (simp_all add: f blocks)
  show "group_ok n g'" "group_owned g' = group_owned g + (if ga_rmap g = None then {#} else maps r)" "ga_rmap g' = None \<longleftrightarrow> ga_rmap g = None"
  proof -
    consider "ga_rmap g = None" "ga_rmap g' = None" | rs rs' where "ga_rmap g = Some rs" "rmap_insert rs r = Inr rs'" "ga_rmap g' = Some rs'"
      using tk unfolding take_at_def e by (cases "ga_rmap g") (auto simp: rbind_eq_Inr r(1) taken_def)
    then have "group_ok n g' \<and> group_owned g' = group_owned g + (if ga_rmap g = None then {#} else maps r) \<and> (ga_rmap g' = None \<longleftrightarrow> ga_rmap g = None)"
    proof cases
      case 1
      then show ?thesis using al'(1) by (simp add: group_ok_def group_owned_def f)
    next
      case (2 rs rs')
      have rs: "rmap_disjoint n rs" "rmap_compact rs" "rmap_blocks rs \<inter> free_blocks (ga_by_block g) = {}" using g 2 by (simp_all add: group_ok_def)
      have "rmap_apart rs r" using apart_of_free [OF rs(3) sub ok] disjoint_elem [OF rs(1)] by (simp add: rmap_plain_def)
      from insert_canonical [OF 2(2) rs(1,2) r(2) stop this] insert_blocks [OF 2(2)] rs(3) al'(1,2) insert_owned [OF 2(2)]
      show ?thesis using 2 by (auto simp: group_ok_def group_owned_def f blocks)
    qed
    then show "group_ok n g'" "group_owned g' = group_owned g + (if ga_rmap g = None then {#} else maps r)" "ga_rmap g' = None \<longleftrightarrow> ga_rmap g = None"
      by simp_all
  qed
qed


section \<open>Giving blocks back\<close>

text \<open>The two halves of a free: the owner's record comes out of the reverse map, and the blocks go back.\<close>

definition give_record :: "GroupAlloc \<Rightarrow> Rmap \<Rightarrow> (GroupAlloc \<times> Freed) res" where
  "give_record g r = rbind (forget_rmap g r) (\<lambda>g. give_back g (ext_of r))"

lemma disjoint_blocks:
  assumes "rmap_disjoint n (xs @ whole # ys)"
  shows "{rstart whole ..< rend whole} \<inter> rmap_blocks (xs @ ys) = {}"
  using assms by (fastforce simp: rmap_blocks_def disjoint_append disjoint_Cons)

lemma remove_blocks:
  assumes d: "rmap_disjoint n rs" and c: "rmap_compact rs" and ok: "rmap_ok r" and rm: "rmap_remove rs r = Inr rs'"
  shows "rmap_disjoint n rs' \<and> rmap_compact rs' \<and> {rstart r ..< rend r} \<subseteq> rmap_blocks rs \<and> rmap_blocks rs' = rmap_blocks rs - {rstart r ..< rend r}"
proof -
  obtain i where "picked rs r = Some i" using rm remove_picked(1) [of rs r] by (cases "picked rs r") auto
  then obtain xs whole ys where w: "rs = xs @ whole # ys" "length xs = i" "rmap_holds r whole" and i: "picked rs r = Some i" by (metis picked_Some)
  let ?out = "xs @ (cut_left r whole @ cut_right r whole) @ ys"
  note can = cut_canonical [OF d [unfolded w(1)] c [unfolded w(1)] w(3) ok]
  have out: "rs' = ?out" using rm remove_picked(2) [of xs whole ys r] i w sort_canonical [OF can [THEN conjunct1]] by simp
  have wok: "rmap_ok whole" using d w(1) by (simp add: disjoint_append disjoint_Cons rmap_plain_def)
  have le: "rstart whole \<le> rstart r" "rend r \<le> rend whole" using w(3) by (simp_all add: holds_iff)
  note l = cut_left_record [OF w(3) wok] and q = cut_right_record [OF w(3) wok]
  have left: "rmap_blocks (cut_left r whole) = {rstart whole ..< rstart r}"
  proof (cases "cut_left r whole")
    case Nil
    then have "\<not> rstart whole < rstart r" by (simp add: cut_left_def Let_def word_less_nat_alt split: if_splits)
    then show ?thesis using Nil by (simp add: rmap_blocks_def)
  next
    case (Cons p ps)
    then have "cut_left r whole = [p]" using cut_shapes [of r whole] by auto
    then show ?thesis using l [of p] by (auto simp: rmap_blocks_def)
  qed
  have right: "rmap_blocks (cut_right r whole) = {rend r ..< rend whole}"
  proof (cases "cut_right r whole")
    case Nil
    then have "\<not> rend r < rend whole" by (simp add: cut_right_def word_less_nat_alt split: if_splits)
    then show ?thesis using Nil by (simp add: rmap_blocks_def)
  next
    case (Cons p ps)
    then have "cut_right r whole = [p]" using cut_shapes [of r whole] by auto
    then show ?thesis using q [of p] by (auto simp: rmap_blocks_def)
  qed
  have app: "rmap_blocks (as @ bs) = rmap_blocks as \<union> rmap_blocks bs" for as bs by (simp add: rmap_blocks_def)
  have one: "rmap_blocks (whole # ys) = {rstart whole ..< rend whole} \<union> rmap_blocks ys" by (simp add: rmap_blocks_def)
  have "rmap_blocks rs' = rmap_blocks rs - {rstart r ..< rend r}"
  proof -
    have "{rstart r ..< rend r} \<subseteq> {rstart whole ..< rend whole}" using le by auto
    moreover have "{rstart whole ..< rstart r} \<union> {rend r ..< rend whole} = {rstart whole ..< rend whole} - {rstart r ..< rend r}" using le by auto
    ultimately show ?thesis unfolding out w(1) app one left right using disjoint_blocks [OF d [unfolded w(1)], unfolded app] by blast
  qed
  moreover have "{rstart r ..< rend r} \<subseteq> rmap_blocks rs" unfolding w(1) app one using le by auto
  ultimately show ?thesis using can out by simp
qed

lemma give_record_keeps:
  assumes g: "group_ok n g" and n: "n < 2 ^ 32" and r: "rmap_plain r" "rend r \<le> n" and gv: "give_record g r = Inr (g', how)"
  shows "group_ok n g' \<and> free_blocks (ga_by_block g) \<inter> {rstart r ..< rend r} = {} \<and>
    free_blocks (ga_by_block g') = free_blocks (ga_by_block g) \<union> {rstart r ..< rend r}"
proof -
  obtain g1 where f: "forget_rmap g r = Inr g1" and b: "give_back g1 (ext_of r) = Inr (g', how)" using gv by (auto simp: give_record_def rbind_eq_Inr)
  have same: "ga_by_block g1 = ga_by_block g" using f by (auto simp: forget_rmap_def rbind_eq_Inr split: option.splits)
  obtain free' where fr: "free_extent (ga_by_block g) (ext_of r) = Inr (free', how)" and g': "ga_by_block g' = free'" "ga_rmap g' = ga_rmap g1"
    using b by (auto simp: give_back_def rbind_eq_Inr same)
  have ok: "rmap_ok r" using r(1) by (simp add: rmap_plain_def)
  have free: "free_ok n (ga_by_block g)" using g by (simp add: group_ok_def)
  have fits: "run_fits n (ext_of r)" using r(2) by (simp add: run_fits_def)
  have blocks: "run_blocks (ext_of r) = {rstart r ..< rend r}" by (simp add: run_blocks_def)
  note fr' = free_extent_Inr [OF free n fits fr, unfolded blocks]
  have "group_ok n g'"
  proof (cases "ga_rmap g")
    case None
    then have "ga_rmap g1 = None" using f by (simp add: forget_rmap_def)
    then show ?thesis using fr'(1) by (simp add: group_ok_def g')
  next
    case (Some rs)
    then obtain rs' where rm: "rmap_remove rs r = Inr rs'" "ga_rmap g1 = Some rs'" using f by (auto simp: forget_rmap_def rbind_eq_Inr)
    have rs: "rmap_disjoint n rs" "rmap_compact rs" "rmap_blocks rs \<inter> free_blocks (ga_by_block g) = {}" using g Some by (simp_all add: group_ok_def)
    from remove_blocks [OF rs(1,2) ok rm(1)] rs(3) fr'(1,2) rm(2) show ?thesis by (auto simp: group_ok_def g')
  qed
  then show ?thesis using fr'(2,3) by (simp add: g')
qed

section \<open>One place for every block\<close>

interpretation group_ledger: block_ledger "\<lambda>g. group_ok n g \<and> n < 2 ^ 32" "\<lambda>g. free_blocks (ga_by_block g)"
  "\<lambda>r. rmap_plain r \<and> rend r \<le> n" "\<lambda>r. {rstart r ..< rend r}" give_record
  "\<lambda>g r. take_at g (rm_startblock r) (rm_blockcount r) (rm_owner r) (rm_offset r)" for n
proof
  fix g r g' how
  assume g: "group_ok n g \<and> n < 2 ^ 32" and r: "rmap_plain r \<and> rend r \<le> n"
  have t: "r = taken (rm_startblock r) (rm_blockcount r) (rm_owner r) (rm_offset r)" by (simp add: taken_def)
  show "(group_ok n g' \<and> n < 2 ^ 32) \<and> free_blocks (ga_by_block g) \<inter> {rstart r ..< rend r} = {} \<and>
      free_blocks (ga_by_block g') = free_blocks (ga_by_block g) \<union> {rstart r ..< rend r}" if "give_record g r = Inr (g', how)"
    using give_record_keeps [of n g r g' how] g r that by simp
  show "(group_ok n g' \<and> n < 2 ^ 32) \<and> {rstart r ..< rend r} \<subseteq> free_blocks (ga_by_block g) \<and>
      free_blocks (ga_by_block g') = free_blocks (ga_by_block g) - {rstart r ..< rend r}"
    if "take_at g (rm_startblock r) (rm_blockcount r) (rm_owner r) (rm_offset r) = Inr (g', at)" for at
  proof -
    have "group_ok n g" "n < 2 ^ 32" "rmap_plain r" using g r by simp_all
    note tk = take_at_keeps [OF this(1,2) t this(3) that]
    then show ?thesis using g by simp
  qed
  show "\<exists>err. give_record g r = Inl err" if "free_blocks (ga_by_block g) \<inter> {rstart r ..< rend r} \<noteq> {}"
    using that give_record_keeps [of n g r] g r by (cases "give_record g r") auto
qed


text \<open>C20. Within one operation every block of a group is in one place: over any run of takes and frees, each free
  of blocks the operation holds, a block is either free or held and never both, no block is gained or lost, and
  the reverse map stays canonical and names no free block.\<close>

theorem group_conserved:
  assumes "group_ok n g" "n < 2 ^ 32" "free_blocks (ga_by_block g) \<inter> held = {}"
    and "disciplined (\<lambda>r. rmap_plain r \<and> rend r \<le> n) (\<lambda>r. {rstart r ..< rend r}) held ops"
    and "run_space give_record (\<lambda>g r. take_at g (rm_startblock r) (rm_blockcount r) (rm_owner r) (rm_offset r))
        (\<lambda>r. {rstart r ..< rend r}) g held ops = Inr (g', held')"
  shows "group_ok n g' \<and> free_blocks (ga_by_block g') \<inter> held' = {} \<and>
    free_blocks (ga_by_block g') \<union> held' = free_blocks (ga_by_block g) \<union> held"
  using group_ledger.run_conserves [OF _ assms(3-5)] assms(1,2) by blast

definition sample_group :: GroupAlloc where
  "sample_group = \<lparr>ga_agno = 0, ga_agf_raw = replicate 224 0, ga_by_block = [\<lparr>fe_startblock = 20, fe_blockcount = 10\<rparr>],
     ga_settled = [\<lparr>fe_startblock = 20, fe_blockcount = 10\<rparr>], ga_rmap = Some [sample_rmap 12 8 131 0],
     ga_agfl = \<lparr>fl_raw = replicate 512 0, fl_first = 0, fl_last = 0, fl_count = 0, fl_capacity = 128, fl_length = 100\<rparr>,
     ga_refcount = None, ga_took = False\<rparr>"

lemma sample_group_ok: "group_ok 100 sample_group"
  by (auto simp: group_ok_def sample_group_def free_ok_def run_fits_def rmap_disjoint_def rmap_compact_def rmap_plain_def rmap_blocks_def
      rmap_eval free_blocks_def run_blocks_def)

lemma group_conserved_witness:
  "\<exists>g' held'. run_space give_record (\<lambda>g r. take_at g (rm_startblock r) (rm_blockcount r) (rm_owner r) (rm_offset r))
      (\<lambda>r. {rstart r ..< rend r}) sample_group {} [Take (sample_rmap 20 2 131 8), Give (sample_rmap 21 1 131 9)] = Inr (g', held') \<and>
    group_ok 100 g' \<and> free_blocks (ga_by_block g') \<inter> held' = {} \<and> free_blocks (ga_by_block g') \<union> held' = {20..<30}"
proof -
  let ?tak = "\<lambda>g r. take_at g (rm_startblock r) (rm_blockcount r) (rm_owner r) (rm_offset r)" and ?b = "\<lambda>r. {rstart r ..< rend r}"
  let ?ops = "[Take (sample_rmap 20 2 131 8), Give (sample_rmap 21 1 131 9)]"
  have al: "alloc_extent [\<lparr>fe_startblock = 20, fe_blockcount = 10\<rparr>] \<lparr>fe_startblock = 20, fe_blockcount = 2\<rparr> =
      Inr ([\<lparr>fe_startblock = 22, fe_blockcount = 8\<rparr>], TookFront)" by code_simp
  have fr: "free_extent [\<lparr>fe_startblock = 22, fe_blockcount = 8\<rparr>] \<lparr>fe_startblock = 21, fe_blockcount = 1\<rparr> =
      Inr ([\<lparr>fe_startblock = 21, fe_blockcount = 9\<rparr>], MergedWithFollowing)" by code_simp
  have ins: "rmap_insert [sample_rmap 12 8 131 0] (sample_rmap 20 2 131 8) = Inr [sample_rmap 12 10 131 0]"
    by (simp add: rmap_eval rmap_insert_def insert_index_def vec_before_def vec_get_def)
  have rm: "rmap_remove [sample_rmap 12 10 131 0] (sample_rmap 21 1 131 9) = Inr [sample_rmap 12 9 131 0]"
    by (simp add: rmap_eval rmap_remove_def vec_remove_def cut_left_def cut_right_def key_order_def OFF_UNWRITTEN_def)
  obtain g' held' where run: "run_space give_record ?tak ?b sample_group {} ?ops = Inr (g', held')"
    using al fr ins rm by (simp add: take_at_def sample_group_def give_record_def forget_rmap_def give_back_def sample_rmap_def)
  have d: "disciplined (\<lambda>r. rmap_plain r \<and> rend r \<le> 100) ?b {} ?ops" by (simp add: rmap_plain_def rmap_eval)
  from group_conserved [OF sample_group_ok _ _ d run] run show ?thesis by (auto simp: sample_group_def)
qed


section \<open>Choosing blocks\<close>

lemma div_ceil_mult:
  fixes a b :: nat
  assumes "0 < b"
  shows "(if a mod b = 0 then a div b else a div b + 1) * b \<ge> a" "\<And>s. b dvd s \<Longrightarrow> a \<le> s \<Longrightarrow> (if a mod b = 0 then a div b else a div b + 1) * b \<le> s"
    "(if a mod b = 0 then a div b else a div b + 1) * b < a + b"
proof -
  define q m where qm: "q = a div b" "m = a mod b"
  have d: "a = q * b + m" and m: "m < b" using assms by (simp_all add: qm)
  show "(if a mod b = 0 then a div b else a div b + 1) * b \<ge> a" "(if a mod b = 0 then a div b else a div b + 1) * b < a + b"
    unfolding qm [symmetric] using d m assms by (simp_all add: add_mult_distrib)
  show "(if a mod b = 0 then a div b else a div b + 1) * b \<le> s" if "b dvd s" "a \<le> s" for s
  proof -
    from that(1) obtain k where k: "s = k * b" by (auto simp: dvd_def mult.commute)
    have d: "a = a div b * b + a mod b" by simp
    have "a div b \<le> k" using that(2) k assms by (metis div_le_mono nonzero_mult_div_cancel_right not_less_zero)
    moreover have "a div b \<noteq> k" if "a mod b \<noteq> 0"
    proof
      assume "a div b = k"
      then have "s = a div b * b" using k by simp
      then show False using d \<open>a \<le> s\<close> that by linarith
    qed
    ultimately show ?thesis unfolding k by (auto intro: mult_le_mono1)
  qed
qed

lemma unat_div_ceil:
  fixes a :: u32 and b :: u32
  assumes "b \<noteq> 0"
  shows "unat (div_ceil64 (ucast a) (ucast b) * ucast b) = (if unat a mod unat b = 0 then unat a div unat b else unat a div unat b + 1) * unat b"
    (is "_ = ?c * _")
proof -
  have u: "unat (ucast a :: u64) = unat a" "unat (ucast b :: u64) = unat b" by simp_all
  have q: "unat (div_ceil64 (ucast a) (ucast b)) = ?c"
  proof -
    have "unat (ucast a div ucast b + 1 :: u64) = unat a div unat b + 1"
      using le_less_trans [OF div_le_dividend unat_lt32, of a "unat b"] by (subst unat_add_small) (simp_all add: unat_div)
    moreover have "(ucast a mod ucast b :: u64) = 0 \<longleftrightarrow> unat a mod unat b = 0" by (simp add: word_eq_unat unat_mod)
    ultimately show ?thesis by (simp add: div_ceil64_def unat_div)
  qed
  have b: "0 < unat b" using assms by (simp add: unat_gt_0)
  have "?c * unat b < 2 ^ 64" using div_ceil_mult(3) [where a = "unat a", OF b] unat_lt32 [of a] unat_lt32 [of b] by simp
  then show ?thesis using q by (simp add: unat_word_ariths)
qed


lemma find_aligned_spec:
  fixes align :: u32
  assumes "free_ok n runs" "n < 2 ^ 32" "align \<noteq> 0"
  shows "case find_aligned want (ucast align) runs of
      Some s \<Rightarrow> unat align dvd unat s \<and> (\<exists>run \<in> set runs. unat (fe_startblock run) \<le> unat s \<and> unat s + unat want \<le> fe_stop run)
    | None \<Rightarrow> (\<forall>run \<in> set runs. \<forall>s. unat align dvd s \<and> unat (fe_startblock run) \<le> s \<longrightarrow> fe_stop run < s + unat want)"
  using assms(1)
proof (induction runs)
  case Nil
  then show ?case by simp
next
  case (Cons run runs)
  define st where "st = div_ceil64 (ucast (fe_startblock run)) (ucast align) * ucast align"
  have b: "0 < unat align" using assms(3) by (simp add: unat_gt_0)
  let ?c = "(if unat (fe_startblock run) mod unat align = 0 then unat (fe_startblock run) div unat align else unat (fe_startblock run) div unat align + 1) * unat align"
  have st: "unat st = ?c" unfolding st_def by (rule unat_div_ceil [OF assms(3)])
  note c = div_ceil_mult [where a = "unat (fe_startblock run)", OF b]
  have lt: "unat st < 2 ^ 33" using c(3) st unat_lt32 [of "fe_startblock run"] unat_lt32 [of align] by simp
  have sum: "unat (st + ucast want) = unat st + unat want" using lt unat_lt32 [of want] by (subst unat_add_small) simp_all
  have fit: "st + ucast want \<le> fe_end run \<longleftrightarrow> unat st + unat want \<le> fe_stop run" by (simp add: word_le_nat_alt sum)
  have find: "find_aligned want (ucast align) (run # runs) = (if unat st + unat want \<le> fe_stop run then Some (ucast st) else find_aligned want (ucast align) runs)"
    using fit by (simp add: st_def Let_def)
  show ?case
  proof (cases "unat st + unat want \<le> fe_stop run")
    case True
    have "fe_stop run \<le> n" using Cons.prems by (simp add: free_ok_Cons run_fits_def)
    then have "unat (ucast st :: u32) = unat st" using True assms(2) by (intro unat_ucast_64_32) simp
    moreover have "unat align dvd unat st" "unat (fe_startblock run) \<le> unat st" using st c(1) by simp_all
    ultimately show ?thesis unfolding find using True by auto
  next
    case False
    have "fe_stop run < s + unat want" if "unat align dvd s" "unat (fe_startblock run) \<le> s" for s using False c(2) [OF that] st by linarith
    then show ?thesis unfolding find using Cons False by (auto simp: free_ok_Cons split: option.splits)
  qed
qed

text \<open>C24. A take gives out blocks that are free, and gives them to one owner: from a group in order, blocks handed
  out start on the alignment asked for, were free, are no longer, and are recorded in the reverse map as the
  owner's at the offset asked for, which is the only change to it; and the group stays in order.  A take is
  refused only when no free run has room for the blocks from an aligned start.\<close>

theorem take_aligned_correct:
  assumes "group_ok n g" "n < 2 ^ 32" "align \<noteq> 0" "\<forall>s. unat s + unat want \<le> n \<longrightarrow> rmap_plain (taken s want owner offset)"
  shows "case take_aligned C sb dev g want align owner offset of
      Inr (g', s) \<Rightarrow> unat align dvd unat s \<and> {unat s ..< unat s + unat want} \<subseteq> free_blocks (ga_by_block g) \<and>
        free_blocks (ga_by_block g') = free_blocks (ga_by_block g) - {unat s ..< unat s + unat want} \<and>
        group_owned g' = group_owned g + (if ga_rmap g = None then {#} else maps (taken s want owner offset)) \<and> group_ok n g'
    | Inl e \<Rightarrow> \<forall>run \<in> set (ga_by_block g). \<forall>s. unat align dvd s \<and> unat (fe_startblock run) \<le> s \<longrightarrow> fe_stop run < s + unat want"
proof -
  have free: "free_ok n (ga_by_block g)" using assms(1) by (simp add: group_ok_def)
  have "1 \<le> align" using assms(3) by (simp add: word_le_nat_alt Suc_le_eq unat_gt_0)
  then have al: "max align 1 = align" by (rule max_absorb1)
  show ?thesis
  proof (cases "find_aligned want (ucast align) (ga_by_block g)")
    case None
    then have "\<exists>e. take_aligned C sb dev g want align owner offset = Inl e"
      by (cases "volume_free_blocks C sb dev") (simp_all add: take_aligned_def al)
    then show ?thesis using find_aligned_spec [OF free assms(2,3), of want] None by auto
  next
    case (Some s)
    obtain run where run: "run \<in> set (ga_by_block g)" "unat (fe_startblock run) \<le> unat s" "unat s + unat want \<le> fe_stop run" and dvd: "unat align dvd unat s"
      using find_aligned_spec [OF free assms(2,3), of want] Some by auto
    have "fe_stop run \<le> n" using free run(1) by (auto simp: free_ok_def run_fits_def)
    then have plain: "rmap_plain (taken s want owner offset)" using assms(4) run(3) by simp
    have ex: "\<exists>x \<in> set (ga_by_block g). run_blocks (ext_of (taken s want owner offset)) \<subseteq> run_blocks x"
      using run by (intro bexI [of _ run]) (auto simp: taken_def run_blocks_def)
    obtain g' where tk: "take_at g s want owner offset = Inr (g', s)" using take_at_total [OF assms(1,2) refl plain ex] by blast
    note k = take_at_keeps [OF assms(1,2) refl plain tk]
    have "take_aligned C sb dev g want align owner offset = Inr (g', s)" using tk Some by (simp add: take_aligned_def al)
    then show ?thesis using k dvd by (simp add: taken_def)
  qed
qed

lemma take_aligned_correct_witness:
  "case take_aligned sample_crc sample_sb (read_image []) sample_group 2 4 131 8 of
      Inr (g', s) \<Rightarrow> s = 20 \<and> 4 dvd unat s \<and> free_blocks (ga_by_block g') = free_blocks (ga_by_block sample_group) - {unat s ..< unat s + 2} \<and> group_ok 100 g'
    | Inl e \<Rightarrow> False"
proof -
  have plain: "\<forall>s. unat s + unat (2 :: u32) \<le> 100 \<longrightarrow> rmap_plain (taken s 2 131 8)"
    by (auto simp: taken_def rmap_plain_def rmap_eval)
  have "find_aligned 2 4 [\<lparr>fe_startblock = 20, fe_blockcount = 10\<rparr>] = Some 20" by code_simp
  moreover have "alloc_extent [\<lparr>fe_startblock = 20, fe_blockcount = 10\<rparr>] \<lparr>fe_startblock = 20, fe_blockcount = 2\<rparr> =
      Inr ([\<lparr>fe_startblock = 22, fe_blockcount = 8\<rparr>], TookFront)" by code_simp
  moreover have "rmap_insert [sample_rmap 12 8 131 0] (sample_rmap 20 2 131 8) = Inr [sample_rmap 12 10 131 0]"
    by (simp add: rmap_eval rmap_insert_def insert_index_def vec_before_def vec_get_def)
  ultimately obtain g' where tk: "take_aligned sample_crc sample_sb (read_image []) sample_group 2 4 131 8 = Inr (g', 20)"
    by (simp add: take_aligned_def take_at_def sample_group_def sample_rmap_def)
  from take_aligned_correct [OF sample_group_ok _ _ plain, where C = sample_crc and sb = sample_sb and dev = "read_image []" and align = 4] tk
  show ?thesis by simp
qed


section \<open>Blocks that were free before\<close>

text \<open>A start from which the wanted blocks are free in both lists.\<close>

definition common_start :: "FreeExtent list \<Rightarrow> FreeExtent list \<Rightarrow> nat \<Rightarrow> nat \<Rightarrow> bool" where
  "common_start a b want s \<longleftrightarrow>
     (\<exists>x \<in> set a. \<exists>y \<in> set b. unat (fe_startblock x) \<le> s \<and> unat (fe_startblock y) \<le> s \<and> s + want \<le> fe_stop x \<and> s + want \<le> fe_stop y)"

lemma common_drop:
  assumes "free_ok n (x # xs)" "free_ok n (y # ys)" "\<not> max (unat (fe_startblock x)) (unat (fe_startblock y)) + want \<le> min (fe_stop x) (fe_stop y)"
  shows "fe_stop x \<le> fe_stop y \<Longrightarrow> common_start (x # xs) (y # ys) want s \<longleftrightarrow> common_start xs (y # ys) want s"
    "fe_stop y \<le> fe_stop x \<Longrightarrow> common_start (x # xs) (y # ys) want s \<longleftrightarrow> common_start (x # xs) ys want s"
proof -
  have later: "unat (fe_startblock x) \<le> unat (fe_startblock x')" if "x' \<in> set (x # xs)" for x' using assms(1) that by (auto simp: free_ok_Cons)
  have later': "unat (fe_startblock y) \<le> unat (fe_startblock y')" if "y' \<in> set (y # ys)" for y' using assms(2) that by (auto simp: free_ok_Cons)
  show "common_start (x # xs) (y # ys) want s \<longleftrightarrow> common_start xs (y # ys) want s" if "fe_stop x \<le> fe_stop y"
  proof -
    have "\<not> (unat (fe_startblock x) \<le> s \<and> unat (fe_startblock y') \<le> s \<and> s + want \<le> fe_stop x)" if "y' \<in> set (y # ys)" for y'
      using assms(3) later' [OF that] \<open>fe_stop x \<le> fe_stop y\<close> by auto
    then show ?thesis by (auto simp: common_start_def)
  qed
  show "common_start (x # xs) (y # ys) want s \<longleftrightarrow> common_start (x # xs) ys want s" if "fe_stop y \<le> fe_stop x"
  proof -
    have "\<not> (unat (fe_startblock x') \<le> s \<and> unat (fe_startblock y) \<le> s \<and> s + want \<le> fe_stop y)" if "x' \<in> set (x # xs)" for x'
      using assms(3) later [OF that] \<open>fe_stop y \<le> fe_stop x\<close> by auto
    then show ?thesis by (auto simp: common_start_def)
  qed
qed

lemma first_common_run_spec:
  "free_ok n a \<Longrightarrow> free_ok n b \<Longrightarrow>
   (case first_common_run a b want of
      Some s \<Rightarrow> common_start a b (unat want) (unat s) \<and> (\<forall>t. common_start a b (unat want) t \<longrightarrow> unat s \<le> t)
    | None \<Rightarrow> \<forall>t. \<not> common_start a b (unat want) t)"
proof (induction a b want rule: first_common_run.induct)
  case (1 x xs y ys want)
  let ?s = "max (fe_startblock x) (fe_startblock y)"
  have m: "unat ?s = max (unat (fe_startblock x)) (unat (fe_startblock y))" by (rule unat_max)
  have sum: "unat (ucast ?s + ucast want :: u64) = unat ?s + unat want" by (rule unat_sum32_64)
  have fit: "ucast ?s + ucast want \<le> min (fe_end x) (fe_end y) \<longleftrightarrow> unat ?s + unat want \<le> min (fe_stop x) (fe_stop y)"
    by (simp add: word_le_nat_alt sum unat_min)
  have le: "fe_end x \<le> fe_end y \<longleftrightarrow> fe_stop x \<le> fe_stop y" by (simp add: word_le_nat_alt)
  show ?case
  proof (cases "ucast ?s + ucast want \<le> min (fe_end x) (fe_end y)")
    case True
    have "unat ?s \<le> t" if t: "common_start (x # xs) (y # ys) (unat want) t" for t
    proof -
      obtain x' y' where "x' \<in> set (x # xs)" "y' \<in> set (y # ys)" "unat (fe_startblock x') \<le> t" "unat (fe_startblock y') \<le> t"
        using t by (auto simp: common_start_def)
      then show ?thesis using 1(3,4) unfolding m by (auto simp: free_ok_Cons)
    qed
    moreover have "common_start (x # xs) (y # ys) (unat want) (unat ?s)" using True unfolding fit by (auto simp: common_start_def m)
    ultimately show ?thesis using True by (simp add: Let_def)
  next
    case False
    then have f: "\<not> max (unat (fe_startblock x)) (unat (fe_startblock y)) + unat want \<le> min (fe_stop x) (fe_stop y)" unfolding fit m .
    note drop = common_drop [OF 1(3,4) f]
    show ?thesis
    proof (cases "fe_end x \<le> fe_end y")
      case True
      then have "common_start (x # xs) (y # ys) (unat want) = common_start xs (y # ys) (unat want)" using drop(1) unfolding le by blast
      moreover have "first_common_run (x # xs) (y # ys) want = first_common_run xs (y # ys) want" using False True by (simp add: Let_def)
      moreover have "free_ok n xs" using 1(3) by (simp add: free_ok_Cons)
      ultimately show ?thesis using 1(1) [OF refl False True _ 1(4)] by (simp only:)
    next
      case nle: False
      then have "fe_stop y \<le> fe_stop x" unfolding le by simp
      then have "common_start (x # xs) (y # ys) (unat want) = common_start (x # xs) ys (unat want)" using drop(2) by blast
      moreover have "first_common_run (x # xs) (y # ys) want = first_common_run (x # xs) ys want" using False nle by (simp add: Let_def)
      moreover have "free_ok n ys" using 1(4) by (simp add: free_ok_Cons)
      ultimately show ?thesis using 1(2) [OF refl False nle 1(3)] by (simp only:)
    qed
  qed
qed (auto simp: common_start_def)


text \<open>C22. A block that is written ahead of its record was free before the record began: a settled take hands out the
  first blocks that are free now and were free when the group was opened, so none that the operation gave back
  itself; and it is refused only when no such run of the wanted length exists.\<close>

theorem take_settled_safe:
  assumes "group_ok n g" "n < 2 ^ 32" "free_ok n (ga_settled g)" "\<forall>s. unat s + unat want \<le> n \<longrightarrow> rmap_plain (taken s want owner offset)"
  shows "case take_settled g want owner offset of
      Inr (g', s) \<Rightarrow> {unat s ..< unat s + unat want} \<subseteq> free_blocks (ga_settled g) \<inter> free_blocks (ga_by_block g) \<and>
        free_blocks (ga_by_block g') = free_blocks (ga_by_block g) - {unat s ..< unat s + unat want} \<and> group_ok n g' \<and>
        (\<forall>t. common_start (ga_settled g) (ga_by_block g) (unat want) t \<longrightarrow> unat s \<le> t)
    | Inl e \<Rightarrow> \<forall>t. \<not> common_start (ga_settled g) (ga_by_block g) (unat want) t"
proof -
  have free: "free_ok n (ga_by_block g)" using assms(1) by (simp add: group_ok_def)
  note spec = first_common_run_spec [OF assms(3) free, of want]
  show ?thesis
  proof (cases "first_common_run (ga_settled g) (ga_by_block g) want")
    case None
    then show ?thesis using spec by (simp add: take_settled_def)
  next
    case (Some s)
    then obtain x y where x: "x \<in> set (ga_settled g)" "unat (fe_startblock x) \<le> unat s" "unat s + unat want \<le> fe_stop x"
      and y: "y \<in> set (ga_by_block g)" "unat (fe_startblock y) \<le> unat s" "unat s + unat want \<le> fe_stop y"
      using spec by (auto simp: common_start_def)
    have "fe_stop y \<le> n" using free y(1) by (auto simp: free_ok_def run_fits_def)
    then have plain: "rmap_plain (taken s want owner offset)" using assms(4) y(3) by simp
    have inside: "run_blocks (ext_of (taken s want owner offset)) \<subseteq> run_blocks r" if "unat (fe_startblock r) \<le> unat s" "unat s + unat want \<le> fe_stop r" for r
      using that by (auto simp: taken_def run_blocks_def)
    obtain g' where tk: "take_at g s want owner offset = Inr (g', s)" using take_at_total [OF assms(1,2) refl plain] inside [OF y(2,3)] y(1) by blast
    note k = take_at_keeps [OF assms(1,2) refl plain tk]
    have "{unat s ..< unat s + unat want} \<subseteq> free_blocks (ga_settled g)" using free_cover [OF x(1) inside [OF x(2,3)]] by (simp add: taken_def)
    then show ?thesis using k spec Some tk by (simp add: take_settled_def taken_def)
  qed
qed

lemma take_settled_safe_witness:
  "case take_settled sample_group 3 131 8 of
      Inr (g', s) \<Rightarrow> s = 20 \<and> {20 ..< 23} \<subseteq> free_blocks (ga_settled sample_group) \<and> free_blocks (ga_by_block g') = free_blocks (ga_by_block sample_group) - {20 ..< 23}
    | Inl e \<Rightarrow> False"
proof -
  have plain: "\<forall>s. unat s + unat (3 :: u32) \<le> 100 \<longrightarrow> rmap_plain (taken s 3 131 8)"
    by (auto simp: taken_def rmap_plain_def rmap_eval)
  have settled: "free_ok 100 (ga_settled sample_group)" by (simp add: sample_group_def free_ok_def run_fits_def)
  have "first_common_run [\<lparr>fe_startblock = 20, fe_blockcount = 10\<rparr>] [\<lparr>fe_startblock = 20, fe_blockcount = 10\<rparr>] 3 = Some 20" by code_simp
  moreover have "alloc_extent [\<lparr>fe_startblock = 20, fe_blockcount = 10\<rparr>] \<lparr>fe_startblock = 20, fe_blockcount = 3\<rparr> =
      Inr ([\<lparr>fe_startblock = 23, fe_blockcount = 7\<rparr>], TookFront)" by code_simp
  moreover have "rmap_insert [sample_rmap 12 8 131 0] (sample_rmap 20 3 131 8) = Inr [sample_rmap 12 11 131 0]"
    by (simp add: rmap_eval rmap_insert_def insert_index_def vec_before_def vec_get_def)
  ultimately obtain g' where tk: "take_settled sample_group 3 131 8 = Inr (g', 20)"
    by (simp add: take_settled_def take_at_def sample_group_def sample_rmap_def)
  from take_settled_safe [OF sample_group_ok _ settled plain] tk show ?thesis by simp
qed


section \<open>Refilling the free list\<close>

lemma own_ag_plain: "rmap_plain (taken b 1 OWN_AG 0)"
  using unat_lt32 [of b] by (simp add: rmap_plain_def rmap_ok_def taken_def off_record_def is_reserved_owner_def OWN_AG_def file_offset_def)

lemma refill_one_ok:
  assumes g: "group_ok n g" and n: "n < 2 ^ 32" and fl: "agfl_ok sb len (ga_agfl g)" "unat (fl_count (ga_agfl g)) < agfl_capacity sb"
    and run: "ga_by_block g = run # runs"
  shows "\<exists>g'. refill_one sb g = Inr g' \<and> group_ok n g' \<and> agfl_ok sb len (ga_agfl g') \<and>
    ring_list sb (ga_agfl g') = ring_list sb (ga_agfl g) @ [fe_startblock run] \<and> unat (fe_startblock run) \<in> free_blocks (ga_by_block g) \<and>
    free_blocks (ga_by_block g') = free_blocks (ga_by_block g) - {unat (fe_startblock run)} \<and>
    group_owned g' = group_owned g + (if ga_rmap g = None then {#} else maps (taken (fe_startblock run) 1 OWN_AG 0)) \<and>
    (ga_rmap g' = None \<longleftrightarrow> ga_rmap g = None)"
proof -
  let ?b = "fe_startblock run"
  note plain = own_ag_plain [of ?b]
  have "0 < unat (fe_blockcount run)" using g run by (simp add: group_ok_def free_ok_Cons)
  then have ex: "\<exists>x \<in> set (ga_by_block g). run_blocks (ext_of (taken ?b 1 OWN_AG 0)) \<subseteq> run_blocks x"
    by (auto simp: run taken_def run_blocks_def)
  obtain g1 where tk: "take_at g ?b 1 OWN_AG 0 = Inr (g1, ?b)" using take_at_total [OF g n refl plain ex] by blast
  note k = take_at_keeps [OF g n refl plain tk]
  have "simulates (agfl_ok sb len) (ring_list sb) (rbind (agfl_put (ga_agfl g) sb (ga_agno g) ?b) (\<lambda>s. Inr (s, [])))
      (Some (ring_list sb (ga_agfl g) @ [?b], []))"
    using put_law [OF fl(1), of "ga_agno g" ?b] fl(2) by simp
  then obtain fl' where put: "agfl_put (ga_agfl g) sb (ga_agno g) ?b = Inr fl'" "agfl_ok sb len fl'" "ring_list sb fl' = ring_list sb (ga_agfl g) @ [?b]"
    by (cases "agfl_put (ga_agfl g) sb (ga_agno g) ?b") (auto simp: simulates_def)
  have "\<exists>g'. refill_one sb g = Inr g' \<and> ga_by_block g' = ga_by_block g1 \<and> ga_rmap g' = ga_rmap g1 \<and> ga_agfl g' = fl'"
    using tk put(1) by (auto simp: refill_one_def run take_at_def rbind_eq_Inr Let_def)
  then obtain g' where g': "refill_one sb g = Inr g'" "ga_by_block g' = ga_by_block g1" "ga_rmap g' = ga_rmap g1" "ga_agfl g' = fl'" by blast
  have blk: "{rstart (taken ?b 1 OWN_AG 0) ..< rend (taken ?b 1 OWN_AG 0)} = {unat ?b}" by (auto simp: taken_def)
  have same: "group_ok n g' = group_ok n g1" "group_owned g' = group_owned g1" unfolding group_ok_def group_owned_def g' by simp_all
  show ?thesis using k(1,3-6) put(2,3) unfolding blk by (intro exI [of _ g']) (simp add: g' same)
qed

text \<open>The blocks a refill moves, in the order it moves them.\<close>

definition refilled :: "Superblock \<Rightarrow> GroupAlloc \<Rightarrow> u32 list \<Rightarrow> GroupAlloc \<Rightarrow> bool" where
  "refilled sb g moved g' \<longleftrightarrow>
     ring_list sb (ga_agfl g') = ring_list sb (ga_agfl g) @ moved \<and> distinct (map unat moved) \<and>
     set (map unat moved) \<subseteq> free_blocks (ga_by_block g) \<and> free_blocks (ga_by_block g') = free_blocks (ga_by_block g) - set (map unat moved) \<and>
     group_owned g' = group_owned g + (if ga_rmap g = None then {#} else owned (map (\<lambda>b. taken b 1 OWN_AG 0) moved))"

lemma refilled_step:
  assumes "refilled sb g1 moved g'" "ring_list sb (ga_agfl g1) = ring_list sb (ga_agfl g) @ [b]" "unat b \<in> free_blocks (ga_by_block g)"
    "free_blocks (ga_by_block g1) = free_blocks (ga_by_block g) - {unat b}"
    "group_owned g1 = group_owned g + (if ga_rmap g = None then {#} else maps (taken b 1 OWN_AG 0))" "ga_rmap g1 = None \<longleftrightarrow> ga_rmap g = None"
  shows "refilled sb g (b # moved) g'"
  using assms by (auto simp: refilled_def ac_simps)

lemma finite_free [simp]: "finite (free_blocks free)"
  by (auto simp: free_blocks_def run_blocks_def)

lemma refill_loop_ok:
  assumes "group_ok n g" "n < 2 ^ 32" "agfl_ok sb len (ga_agfl g)" "unat need \<le> agfl_capacity sb"
  shows "case refill_loop sb need g of
      Inl e \<Rightarrow> e = UnsupportedFeature ''no free space left to refill its free list'' \<and>
        card (free_blocks (ga_by_block g)) < unat need - unat (fl_count (ga_agfl g))
    | Inr g' \<Rightarrow> group_ok n g' \<and> agfl_ok sb len (ga_agfl g') \<and> fl_count (ga_agfl g') = max need (fl_count (ga_agfl g)) \<and> (\<exists>moved. refilled sb g moved g')"
  using assms(1,3,4)
proof (induction sb need g rule: refill_loop.induct)
  case (1 sb need g)
  show ?case
  proof (cases "fl_count (ga_agfl g) < need")
    case False
    then show ?thesis using 1(2,3) by (subst refill_loop.simps) (auto simp: refilled_def max_def intro!: exI [of _ "[]"])
  next
    case more: True
    then have room: "unat (fl_count (ga_agfl g)) < agfl_capacity sb" using 1(4) by (simp add: word_less_nat_alt)
    show ?thesis
    proof (cases "ga_by_block g")
      case Nil
      then show ?thesis using more by (subst refill_loop.simps) (simp add: refill_one_def word_less_nat_alt)
    next
      case (Cons run runs)
      obtain g1 where g1: "refill_one sb g = Inr g1" "group_ok n g1" "agfl_ok sb len (ga_agfl g1)"
        "ring_list sb (ga_agfl g1) = ring_list sb (ga_agfl g) @ [fe_startblock run]" "unat (fe_startblock run) \<in> free_blocks (ga_by_block g)"
        "free_blocks (ga_by_block g1) = free_blocks (ga_by_block g) - {unat (fe_startblock run)}"
        "group_owned g1 = group_owned g + (if ga_rmap g = None then {#} else maps (taken (fe_startblock run) 1 OWN_AG 0))"
        "ga_rmap g1 = None \<longleftrightarrow> ga_rmap g = None"
        using refill_one_ok [OF 1(2) assms(2) 1(3) room Cons] by (elim exE conjE) (rule that)
      note n1 = refill_one_count [OF g1(1) more]
      have loop: "refill_loop sb need g = refill_loop sb need g1" using more g1(1) by (subst refill_loop.simps) simp
      have mx: "max need (fl_count (ga_agfl g1)) = max need (fl_count (ga_agfl g))"
      proof -
        have "fl_count (ga_agfl g) \<le> need" "fl_count (ga_agfl g1) \<le> need" using more n1 by (auto simp: word_le_nat_alt word_less_nat_alt)
        then show ?thesis by (simp only: max_absorb1)
      qed
      have "card (free_blocks (ga_by_block g)) = Suc (card (free_blocks (ga_by_block g1)))"
        unfolding g1(6) by (rule card_Suc_Diff1 [OF finite_free g1(5), symmetric])
      then have card: "card (free_blocks (ga_by_block g1)) < unat need - unat (fl_count (ga_agfl g1)) \<Longrightarrow>
          card (free_blocks (ga_by_block g)) < unat need - unat (fl_count (ga_agfl g))" unfolding n1 by linarith
      note IH = 1(1) [OF more g1(1,2,3) 1(4)]
      show ?thesis unfolding loop
      proof (cases "refill_loop sb need g1")
        case (Inl e)
        then show "case refill_loop sb need g1 of Inl e \<Rightarrow> e = UnsupportedFeature ''no free space left to refill its free list'' \<and>
            card (free_blocks (ga_by_block g)) < unat need - unat (fl_count (ga_agfl g))
          | Inr g' \<Rightarrow> group_ok n g' \<and> agfl_ok sb len (ga_agfl g') \<and> fl_count (ga_agfl g') = max need (fl_count (ga_agfl g)) \<and> (\<exists>moved. refilled sb g moved g')"
          using IH card by simp
      next
        case (Inr g')
        then show "case refill_loop sb need g1 of Inl e \<Rightarrow> e = UnsupportedFeature ''no free space left to refill its free list'' \<and>
            card (free_blocks (ga_by_block g)) < unat need - unat (fl_count (ga_agfl g))
          | Inr g' \<Rightarrow> group_ok n g' \<and> agfl_ok sb len (ga_agfl g') \<and> fl_count (ga_agfl g') = max need (fl_count (ga_agfl g)) \<and> (\<exists>moved. refilled sb g moved g')"
          using IH refilled_step [OF _ g1(4-8)] unfolding mx by auto
      qed
    qed
  qed
qed


text \<open>C23. The free list is refilled, and from free space alone: the loop ends, with the list holding what the
  heights of the trees call for or what it held if that was more; the blocks put on it are distinct, were free and
  are no longer, and are the group's own in the reverse map; nothing else changes hands.  It fails only when the
  group has fewer free blocks than the list lacks, and it never panics.\<close>

theorem refill_correct:
  assumes "group_ok n g" "n < 2 ^ 32" "agfl_ok sb len (ga_agfl g)" "refill_need g sb = Inr need"
  shows "case refill_free_list sb g of
      Inl e \<Rightarrow> e = UnsupportedFeature ''no free space left to refill its free list'' \<and>
        card (free_blocks (ga_by_block g)) < unat need - unat (fl_count (ga_agfl g))
    | Inr g' \<Rightarrow> group_ok n g' \<and> agfl_ok sb len (ga_agfl g') \<and> fl_count (ga_agfl g') = max need (fl_count (ga_agfl g)) \<and>
        (\<exists>moved. refilled sb g moved g')"
proof -
  have "need \<le> of_nat (agfl_capacity sb)" using assms(4) by (auto simp: refill_need_def rbind_eq_Inr split: if_splits)
  then have "unat need \<le> agfl_capacity sb" by (simp add: word_le_nat_alt capacity_small)
  then show ?thesis using refill_loop_ok [OF assms(1,2,3)] assms(4) by (simp add: refill_free_list_def)
qed

lemma refill_correct_witness:
  "let g = sample_group\<lparr>ga_agf_raw := replicate 28 0 @ [0, 0, 0, 1, 0, 0, 0, 1] @ replicate 188 0, ga_rmap := None\<rparr>
   in refill_need g sample_sb = Inr 4 \<and>
      (case refill_free_list sample_sb g of Inl e \<Rightarrow> False | Inr g' \<Rightarrow> fl_count (ga_agfl g') = 4)"
proof -
  let ?g = "sample_group\<lparr>ga_agf_raw := replicate 28 0 @ [0, 0, 0, 1, 0, 0, 0, 1] @ replicate 188 0, ga_rmap := None\<rparr>"
  have "be32 (replicate 28 0 @ [0, 0, 0, 1, 0, 0, 0, 1] @ replicate 188 0) 28 = Inr 1" "be32 (replicate 28 0 @ [0, 0, 0, 1, 0, 0, 0, 1] @ replicate 188 0) 32 = Inr 1"
    by (simp_all add: be32_def slice_def from_be_def)
  moreover have cap: "agfl_capacity sample_sb = 128"
    by (simp add: agfl_capacity_def agfl_header_def sample_sb_def is_v5_def version_def XFS_SB_VERSION_NUMBITS_def AGFL_ENTRY_LEN_def)
  ultimately have need: "refill_need ?g sample_sb = Inr 4" by (simp add: refill_need_def AGF_BNO_def AGF_CNT_def)
  have ok: "group_ok 100 ?g" using sample_group_ok by (simp add: group_ok_def)
  have fl: "agfl_ok sample_sb 100 (ga_agfl ?g)"
    using cap by (simp add: agfl_ok_def sample_group_def agfl_header_def AGFL_V5_HEADER_LEN_def sample_sb_def)
  have count: "fl_count (ga_agfl ?g) = 0" by (simp add: sample_group_def)
  have "card (free_blocks (ga_by_block ?g)) = 10" by (simp add: sample_group_def run_blocks_def)
  with refill_correct [OF ok _ fl need] need count show ?thesis unfolding Let_def by (simp split: sum.splits)
qed

end
