(* ===== verification/AgBtree.thy ===== *)
theory AgBtree
  imports AgHeaders BufItem
begin

unbundle bit_operations_syntax

text \<open>
  The short-form trees of a group (\<^verbatim>\<open>src/src/ag_btree.rs\<close>): one block read and checked (\<open>parse_block\<close>), the walk of a
  whole tree with its stack and its budget (\<open>walk_blocks\<close>), and a tree laid out from nothing: how many blocks each
  level takes (\<open>plan\<close>), how the entries are spread over them (\<open>share\<close>), the blocks themselves (\<open>build\<close>), and the
  layout over the blocks the tree already holds (\<open>relay\<close>).

  The tree is a parameter of the code, its record width, its key width and its magic numbers in a \<open>Shape\<close> and its
  encoder, decoder and key writer passed as functions; it is one here, the locale \<open>tree_codec\<close>.  What is shown is that
  a tree that was built is walked back to the records it was built from and the blocks it was built over, that the
  plan is the shallowest and every block below the root at least half full, and that the walk ends.
\<close>

section \<open>Definitions\<close>

definition SHORT_V4_HEADER_LEN :: nat where "SHORT_V4_HEADER_LEN = 16"
definition SHORT_V5_HEADER_LEN :: nat where "SHORT_V5_HEADER_LEN = 56"
definition PTR_LEN :: nat where "PTR_LEN = 4"
definition MAX_LEVELS :: nat where "MAX_LEVELS = 9"

record Shape =
  sh_name :: string
  sh_magic_v4 :: "u32 option"
  sh_magic_v5 :: u32
  sh_record_len :: nat
  sh_key_len :: nat
  sh_overlapping :: bool

definition keys_per_entry :: "Shape \<Rightarrow> nat" where
  "keys_per_entry shape = (if sh_overlapping shape then 2 else 1)"

record Node =
  nd_level :: u16
  nd_numrecs :: u16
  nd_body :: nat
  nd_maxrecs :: nat

definition maxrecs :: "nat \<Rightarrow> nat \<Rightarrow> nat" where
  "maxrecs space per = space div max per 1"

text \<open>The difference of two \<^verbatim>\<open>usize\<close> values, which wraps.\<close>

definition usize_sub :: "nat \<Rightarrow> nat \<Rightarrow> nat" where
  "usize_sub a b = (if b \<le> a then a - b else 2 ^ 64 + a - b)"

definition short_header :: "bool \<Rightarrow> nat" where
  "short_header v5 = (if v5 then SHORT_V5_HEADER_LEN else SHORT_V4_HEADER_LEN)"

definition blkno_of_linear_block :: "Superblock \<Rightarrow> u64 \<Rightarrow> u64" where
  "blkno_of_linear_block sb linear = linear * ucast (sb_blocksize sb) div of_nat BBSIZE"

definition expected_blkno :: "Superblock \<Rightarrow> u32 \<Rightarrow> u32 \<Rightarrow> u64" where
  "expected_blkno sb agno agblock = blkno_of_linear_block sb (ucast agno * ucast (sb_agblocks sb) + ucast agblock)"

definition block_identity :: "crc_crate \<Rightarrow> bytes \<Rightarrow> Superblock \<Rightarrow> u32 \<Rightarrow> u32 \<Rightarrow> unit res" where
  "block_identity C buf sb agno agblock =
     rbind (le32 buf 52) (\<lambda>stored.
     rbind (crc32c_with_zeroed_crc C buf 52) (\<lambda>crc.
     if stored \<noteq> crc then Inl (ChecksumMismatch ''group btree block'' (ucast agblock))
     else
       rbind (uuid_at buf 32) (\<lambda>uuid.
       if uuid \<noteq> sb_meta_uuid sb then Inl (BlockIdentityMismatch ''group btree block'' (ucast agblock) (- 1))
       else
         rbind (be32 buf 48) (\<lambda>owner.
         if owner \<noteq> agno then Inl (BlockIdentityMismatch ''group btree block owner'' (ucast agno) (ucast owner))
         else
           rbind (be64 buf 16) (\<lambda>stated.
           if stated \<noteq> expected_blkno sb agno agblock
           then Inl (BlockIdentityMismatch ''group btree block address'' (expected_blkno sb agno agblock) stated)
           else Inr ())))))"

definition parse_block :: "crc_crate \<Rightarrow> bytes \<Rightarrow> Superblock \<Rightarrow> Shape \<Rightarrow> u32 \<Rightarrow> u32 \<Rightarrow> u16 \<Rightarrow> Node res" where
  "parse_block C buf sb shape agno agblock expect_level =
     (let header = short_header (is_v5 sb)
      in if length buf < header then Inl (BadSuperblock ''block is shorter than its header'')
         else
           rbind (if is_v5 sb then Inr (sh_magic_v5 shape)
                  else case sh_magic_v4 shape of
                         Some magic \<Rightarrow> Inr magic
                       | None \<Rightarrow> Inl (UnsupportedFeature ''the tree is a v5 feature and this filesystem is v4'')) (\<lambda>want.
           rbind (be32 buf 0) (\<lambda>magic.
           if magic \<noteq> want then Inl (BadSuperblock ''block has the wrong magic'')
           else
             rbind (if is_v5 sb then block_identity C buf sb agno agblock else Inr ()) (\<lambda>_.
             rbind (be16 buf 4) (\<lambda>level.
             if level \<noteq> expect_level then Inl (BadSuperblock ''block is not at the level its parent points to it as'')
             else
               let space = length buf - header;
                   per = (if level = 0 then sh_record_len shape else keys_per_entry shape * sh_key_len shape + PTR_LEN);
                   most = maxrecs space per
               in rbind (be16 buf 6) (\<lambda>numrecs.
                  if most < unat numrecs then Inl (BadSuperblock ''block claims more records than it has room for'')
                  else Inr \<lparr>nd_level = level, nd_numrecs = numrecs, nd_body = header, nd_maxrecs = most\<rparr>))))))"

text \<open>
  The walk.  The head of the list is the top of the stack: the code pushes the children from the last to the
  first, so they come off in order.  The blocks seen are kept by level.
\<close>

fun tree_loop ::
  "crc_crate \<Rightarrow> Superblock \<Rightarrow> Shape \<Rightarrow> u32 \<Rightarrow> (u32 \<Rightarrow> bytes res) \<Rightarrow> (bytes \<Rightarrow> nat \<Rightarrow> 'r res) \<Rightarrow>
   nat \<Rightarrow> 'r list \<Rightarrow> u32 list list \<Rightarrow> (u32 \<times> u16) list \<Rightarrow> ('r list \<times> u32 list list) res" where
  "tree_loop C sb shape agno read decode budget out seen [] = Inr (out, seen)"
| "tree_loop C sb shape agno read decode 0 out seen (entry # stack) =
     Inl (BadSuperblock ''the walk visited more blocks than the group holds; the tree points back into itself'')"
| "tree_loop C sb shape agno read decode (Suc budget) out seen ((agblock, expect_level) # stack) =
     rbind (read agblock) (\<lambda>buf.
     rbind (parse_block C buf sb shape agno agblock expect_level) (\<lambda>node.
     if length seen \<le> unat (nd_level node) then Inl Panic
     else
       let seen = seen[unat (nd_level node) := seen ! unat (nd_level node) @ [agblock]]
       in if nd_level node = 0
          then
            if length buf < nd_body node + unat (nd_numrecs node) * sh_record_len shape
            then Inl (BadSuperblock ''leaf needs more bytes for its records'')
            else rbind (read_records decode (sh_record_len shape) (nd_body node) (unat (nd_numrecs node)) buf) (\<lambda>rs.
                   tree_loop C sb shape agno read decode budget (out @ rs) seen stack)
          else
            let begins = nd_body node + nd_maxrecs node * keys_per_entry shape * sh_key_len shape
            in if length buf < begins + unat (nd_numrecs node) * PTR_LEN
               then Inl (BadSuperblock ''node needs more bytes for its pointer array'')
               else rbind (read_records be32 PTR_LEN begins (unat (nd_numrecs node)) buf) (\<lambda>ptrs.
                      tree_loop C sb shape agno read decode budget out seen (map (\<lambda>p. (p, nd_level node - 1)) ptrs @ stack))))"

definition walk_budget :: "Superblock \<Rightarrow> nat" where
  "walk_budget sb = max (unat (sb_agblocks sb)) 64"

definition walk_blocks ::
  "crc_crate \<Rightarrow> Superblock \<Rightarrow> Shape \<Rightarrow> u32 \<Rightarrow> u32 \<Rightarrow> u32 \<Rightarrow> (u32 \<Rightarrow> bytes res) \<Rightarrow> (bytes \<Rightarrow> nat \<Rightarrow> 'r res) \<Rightarrow>
   ('r list \<times> u32 list) res" where
  "walk_blocks C sb shape agno root levels read decode =
     (if levels = 0 \<or> MAX_LEVELS < unat levels then Inl (BadSuperblock ''the tree claims a number of levels which is not a tree'')
      else
        rbind (tree_loop C sb shape agno read decode (walk_budget sb) [] (replicate (unat levels) []) [(root, ucast (levels - 1))])
          (\<lambda>(out, seen). Inr (out, concat seen)))"

definition tree_walk ::
  "crc_crate \<Rightarrow> Superblock \<Rightarrow> Shape \<Rightarrow> u32 \<Rightarrow> u32 \<Rightarrow> u32 \<Rightarrow> (u32 \<Rightarrow> bytes res) \<Rightarrow> (bytes \<Rightarrow> nat \<Rightarrow> 'r res) \<Rightarrow> 'r list res" where
  "tree_walk C sb shape agno root levels read decode =
     rbind (walk_blocks C sb shape agno root levels read decode) (\<lambda>(records, _). Inr records)"

text \<open>How many blocks each level of a tree takes, leaves first.\<close>

function plan_loop :: "nat \<Rightarrow> nat list \<Rightarrow> nat list res" where
  "plan_loop per_node levels =
     (if 1 < last levels
      then
        let levels' = levels @ [div_ceil (last levels) per_node]
        in if MAX_LEVELS < length levels' then Inl (UnsupportedFeature ''the records need a tree more than 9 levels deep'')
           else plan_loop per_node levels'
      else Inr levels)"
  by pat_completeness auto
termination
  by (relation "measure (\<lambda>(per_node, levels). MAX_LEVELS - length levels)") auto

declare plan_loop.simps [simp del]

definition node_width :: "Shape \<Rightarrow> nat" where
  "node_width shape = keys_per_entry shape * sh_key_len shape + PTR_LEN"

definition plan :: "Shape \<Rightarrow> u32 \<Rightarrow> bool \<Rightarrow> nat \<Rightarrow> nat list res" where
  "plan shape blocksize v5 records =
     (let space = usize_sub (unat blocksize) (short_header v5);
          per_leaf = maxrecs space (sh_record_len shape);
          per_node = maxrecs space (node_width shape)
      in if per_leaf = 0 \<or> per_node < 2 then Inl (UnsupportedFeature ''a block cannot make a tree'')
         else plan_loop per_node [max (div_ceil records per_leaf) 1])"

definition share :: "nat \<Rightarrow> nat \<Rightarrow> nat list" where
  "share entries blocks =
     (if blocks = 0 then []
      else map (\<lambda>i. entries div blocks + (if i < entries mod blocks then 1 else 0)) [0..<blocks])"

record Built =
  bt_agblock :: u32
  bt_bytes :: bytes

definition stamp_block :: "crc_crate \<Rightarrow> bytes \<Rightarrow> Superblock \<Rightarrow> Shape \<Rightarrow> u32 \<Rightarrow> u32 \<Rightarrow> u16 \<Rightarrow> u16 \<Rightarrow> bytes res" where
  "stamp_block C buf sb shape agno agblock level numrecs =
     (let magic = (if is_v5 sb then sh_magic_v5 shape else case sh_magic_v4 shape of Some m \<Rightarrow> m | None \<Rightarrow> sh_magic_v5 shape)
      in rbind (put buf 0 (be_bytes32 magic)) (\<lambda>buf.
         rbind (put buf 4 (be_bytes16 level)) (\<lambda>buf.
         rbind (put buf 6 (be_bytes16 numrecs)) (\<lambda>buf.
         rbind (put buf 8 (be_bytes32 (- 1))) (\<lambda>buf.
         rbind (put buf 12 (be_bytes32 (- 1))) (\<lambda>buf.
         if \<not> is_v5 sb then Inr buf
         else
           rbind (put buf 16 (be_bytes64 (expected_blkno sb agno agblock))) (\<lambda>buf.
           rbind (put buf 32 (sb_meta_uuid sb)) (\<lambda>buf.
           rbind (put buf 48 (be_bytes32 agno)) (\<lambda>buf.
           rbind (crc32c_with_zeroed_crc C buf 52) (\<lambda>crc.
             put buf 52 (le_bytes32 crc)))))))))))"

text \<open>
  The leaves: for every count the block at its place, the next records written into it and its header.  The second
  result is how many records were taken.
\<close>

fun build_leaves ::
  "crc_crate \<Rightarrow> Superblock \<Rightarrow> Shape \<Rightarrow> u32 \<Rightarrow> (bytes \<Rightarrow> nat \<Rightarrow> 'r \<Rightarrow> bytes res) \<Rightarrow> 'r list \<Rightarrow> u32 list \<Rightarrow>
   nat list \<Rightarrow> nat \<Rightarrow> nat \<Rightarrow> (Built list \<times> nat) res" where
  "build_leaves C sb shape agno enc records blocks [] i taken = Inr ([], taken)"
| "build_leaves C sb shape agno enc records blocks (count # counts) i taken =
     (if length blocks \<le> i \<or> length records < taken + count then Inl Panic
      else
        rbind (write_records enc (sh_record_len shape) (short_header (is_v5 sb)) (take count (drop taken records))
                 (replicate (unat (sb_blocksize sb)) 0)) (\<lambda>buf.
        rbind (stamp_block C buf sb shape agno (blocks ! i) 0 (of_nat count)) (\<lambda>buf.
        rbind (build_leaves C sb shape agno enc records blocks counts (i + 1) (taken + count)) (\<lambda>(out, all).
          Inr (\<lparr>bt_agblock = blocks ! i, bt_bytes = buf\<rparr> # out, all)))))"

text \<open>Which records lie below each leaf, as the pairs of indices the code keeps.\<close>

fun spans :: "nat \<Rightarrow> nat list \<Rightarrow> (nat \<times> nat) list" where
  "spans running [] = []"
| "spans running (count # counts) = (running, running + count) # spans (running + count) counts"

text \<open>One node: the keys and the pointer of every child from \<open>child\<close> on.\<close>

fun node_entries ::
  "Shape \<Rightarrow> nat \<Rightarrow> nat \<Rightarrow> (bytes \<Rightarrow> nat \<Rightarrow> 'r list \<Rightarrow> bytes res) \<Rightarrow> 'r list \<Rightarrow> (nat \<times> nat) list \<Rightarrow> u32 list \<Rightarrow>
   nat \<Rightarrow> nat \<Rightarrow> nat \<Rightarrow> bytes \<Rightarrow> bytes res" where
  "node_entries shape header per_node write_keys records below_span below_blocks j child 0 buf = Inr buf"
| "node_entries shape header per_node write_keys records below_span below_blocks j child (Suc n) buf =
     (if length below_span \<le> child \<or> length below_blocks \<le> child then Inl Panic
      else
        let (lo, hi) = below_span ! child;
            keys_wide = keys_per_entry shape * sh_key_len shape
        in if hi < lo \<or> length records < hi then Inl Panic
           else
             rbind (write_keys buf (header + j * keys_wide) (take (hi - lo) (drop lo records))) (\<lambda>buf.
             rbind (put buf (header + per_node * keys_wide + j * PTR_LEN) (be_bytes32 (below_blocks ! child))) (\<lambda>buf.
               node_entries shape header per_node write_keys records below_span below_blocks (j + 1) (child + 1) n buf)))"

text \<open>One level of nodes: the blocks, the spans of its nodes, their addresses and how many children were taken.\<close>

fun build_nodes ::
  "crc_crate \<Rightarrow> Superblock \<Rightarrow> Shape \<Rightarrow> u32 \<Rightarrow> nat \<Rightarrow> (bytes \<Rightarrow> nat \<Rightarrow> 'r list \<Rightarrow> bytes res) \<Rightarrow> 'r list \<Rightarrow> u32 list \<Rightarrow> nat \<Rightarrow>
   (nat \<times> nat) list \<Rightarrow> u32 list \<Rightarrow> nat list \<Rightarrow> nat \<Rightarrow> nat \<Rightarrow> (Built list \<times> (nat \<times> nat) list \<times> u32 list \<times> nat) res" where
  "build_nodes C sb shape agno per_node write_keys records blocks up below_span below_blocks [] i taken = Inr ([], [], [], taken)"
| "build_nodes C sb shape agno per_node write_keys records blocks up below_span below_blocks (count # counts) i taken =
     (if length blocks \<le> i then Inl Panic
      else
        rbind (node_entries shape (short_header (is_v5 sb)) per_node write_keys records below_span below_blocks 0 taken count
                 (replicate (unat (sb_blocksize sb)) 0)) (\<lambda>buf.
        rbind (stamp_block C buf sb shape agno (blocks ! i) (of_nat up) (of_nat count)) (\<lambda>buf.
        if taken + count = 0 \<or> length below_span \<le> taken \<or> length below_span \<le> taken + count - 1 then Inl Panic
        else
          rbind (build_nodes C sb shape agno per_node write_keys records blocks up below_span below_blocks counts (i + 1) (taken + count))
            (\<lambda>(out, this_span, this_blocks, all).
              Inr (\<lparr>bt_agblock = blocks ! i, bt_bytes = buf\<rparr> # out,
                   ((case below_span ! taken of (lo, _) \<Rightarrow> lo), case below_span ! (taken + count - 1) of (_, hi) \<Rightarrow> hi) # this_span,
                   blocks ! i # this_blocks, all)))))"

text \<open>The levels above the leaves, each over the one below it.\<close>

fun build_levels ::
  "crc_crate \<Rightarrow> Superblock \<Rightarrow> Shape \<Rightarrow> u32 \<Rightarrow> nat \<Rightarrow> (bytes \<Rightarrow> nat \<Rightarrow> 'r list \<Rightarrow> bytes res) \<Rightarrow> 'r list \<Rightarrow> u32 list \<Rightarrow>
   nat list \<Rightarrow> nat \<Rightarrow> nat \<Rightarrow> (nat \<times> nat) list \<Rightarrow> u32 list \<Rightarrow> Built list res" where
  "build_levels C sb shape agno per_node write_keys records blocks [] up at below_span below_blocks = Inr []"
| "build_levels C sb shape agno per_node write_keys records blocks (n # levels) up at below_span below_blocks =
     rbind (build_nodes C sb shape agno per_node write_keys records blocks up below_span below_blocks
              (share (length below_blocks) n) at 0) (\<lambda>(out, this_span, this_blocks, taken).
     if taken \<noteq> length below_blocks then Inl (Internal ''the node layout did not consume every child block'')
     else
       rbind (build_levels C sb shape agno per_node write_keys records blocks levels (up + 1) (at + n) this_span this_blocks)
         (\<lambda>above. Inr (out @ above)))"

definition build ::
  "crc_crate \<Rightarrow> Superblock \<Rightarrow> Shape \<Rightarrow> u32 \<Rightarrow> 'r list \<Rightarrow> u32 list \<Rightarrow> (bytes \<Rightarrow> nat \<Rightarrow> 'r \<Rightarrow> bytes res) \<Rightarrow>
   (bytes \<Rightarrow> nat \<Rightarrow> 'r list \<Rightarrow> bytes res) \<Rightarrow> Built list res" where
  "build C sb shape agno records blocks enc write_keys =
     rbind (plan shape (sb_blocksize sb) (is_v5 sb) (length records)) (\<lambda>levels.
     if length blocks \<noteq> sum_list levels
     then Inl (UnsupportedFeature ''laying out the records needs another number of blocks than were given'')
     else
       let space = usize_sub (unat (sb_blocksize sb)) (short_header (is_v5 sb));
           per_node = maxrecs space (node_width shape);
           counts = share (length records) (hd levels)
       in rbind (build_leaves C sb shape agno enc records blocks counts 0 0) (\<lambda>(leaves, taken).
          if taken \<noteq> length records then Inl (Internal ''the leaf layout did not consume every record'')
          else
            rbind (build_levels C sb shape agno per_node write_keys records blocks (tl levels) 1 (hd levels)
                     (spans 0 counts) (take (hd levels) blocks)) (\<lambda>nodes.
              Inr (leaves @ nodes))))"

text \<open>
  A tree laid out again over the blocks it holds: where the blocks it grows by come from and where those it shrinks
  by go is the \<^verbatim>\<open>BlockSource\<close>, the pair of its two operations on a state of its own.
\<close>

fun grow :: "('s \<Rightarrow> ('s \<times> u32) res) \<Rightarrow> nat \<Rightarrow> 's \<Rightarrow> u32 list \<Rightarrow> ('s \<times> u32 list) res" where
  "grow source_take 0 s blocks = Inr (s, blocks)"
| "grow source_take (Suc n) s blocks = rbind (source_take s) (\<lambda>(s, b). grow source_take n s (blocks @ [b]))"

fun shrink :: "('s \<Rightarrow> u32 \<Rightarrow> 's res) \<Rightarrow> nat \<Rightarrow> 's \<Rightarrow> u32 list \<Rightarrow> ('s \<times> u32 list) res" where
  "shrink source_put 0 s blocks = Inr (s, blocks)"
| "shrink source_put (Suc n) s blocks = rbind (source_put s (last blocks)) (\<lambda>s. shrink source_put n s (butlast blocks))"

fun relay_items ::
  "Superblock \<Rightarrow> (u64 \<Rightarrow> nat \<Rightarrow> bytes res) \<Rightarrow> u64 \<Rightarrow> u32 \<Rightarrow> (u32 \<Rightarrow> bytes option) \<Rightarrow> Built list \<Rightarrow> BufferItem list res" where
  "relay_items sb dev ag_start agno before [] = Inr []"
| "relay_items sb dev ag_start agno before (block # built) =
     rbind (case before (bt_agblock block) of
              Some raw \<Rightarrow> Inr raw
            | None \<Rightarrow> dev (ag_start + ucast (bt_agblock block) * ucast (sb_blocksize sb)) (unat (sb_blocksize sb))) (\<lambda>was.
     rbind (if was = bt_bytes block then Inr []
            else rbind (changed_chunks (expected_blkno sb agno (bt_agblock block)) was (bt_bytes block) BLFT_BTREE) (\<lambda>item. Inr [item])) (\<lambda>item.
     rbind (relay_items sb dev ag_start agno before built) (\<lambda>items. Inr (item @ items))))"

definition relay ::
  "crc_crate \<Rightarrow> Superblock \<Rightarrow> (u64 \<Rightarrow> nat \<Rightarrow> bytes res) \<Rightarrow> u64 \<Rightarrow> Shape \<Rightarrow> u32 \<Rightarrow> 'r list \<Rightarrow> u32 list \<Rightarrow> (u32 \<Rightarrow> bytes option) \<Rightarrow>
   ('s \<Rightarrow> ('s \<times> u32) res) \<Rightarrow> ('s \<Rightarrow> u32 \<Rightarrow> 's res) \<Rightarrow> 's \<Rightarrow> (bytes \<Rightarrow> nat \<Rightarrow> 'r \<Rightarrow> bytes res) \<Rightarrow>
   (bytes \<Rightarrow> nat \<Rightarrow> 'r list \<Rightarrow> bytes res) \<Rightarrow> BufferItem list \<Rightarrow> ('s \<times> u32 list \<times> BufferItem list) res" where
  "relay C sb dev ag_start shape agno records held before source_take source_put s enc write_keys items =
     rbind (plan shape (sb_blocksize sb) (is_v5 sb) (length records)) (\<lambda>levels.
     let wanted = sum_list levels
     in rbind (grow source_take (wanted - length held) s held) (\<lambda>(s, blocks).
        rbind (shrink source_put (length blocks - wanted) s blocks) (\<lambda>(s, blocks).
        rbind (build C sb shape agno records blocks enc write_keys) (\<lambda>built.
        rbind (relay_items sb dev ag_start agno before built) (\<lambda>more.
          Inr (s, blocks, items @ more))))))"

section \<open>Sharing and planning\<close>

lemma length_share [simp]: "length (share entries blocks) = blocks"
  by (simp add: share_def)

lemma sum_upt_extra: "(\<Sum>i\<leftarrow>[0..<n]. a + (if i < m then 1 else 0)) = n * a + min m n" for a :: nat
  by (induction n) (auto simp: min_def)

text \<open>Every entry is given to a block, and the blocks' shares differ by one at most.\<close>

lemma sum_share: "0 < blocks \<Longrightarrow> sum_list (share entries blocks) = entries"
  by (simp add: share_def sum_upt_extra min_def less_imp_le)

lemma share_even:
  assumes "count \<in> set (share entries blocks)"
  shows "entries div blocks \<le> count" "count \<le> entries div blocks + 1" "entries mod blocks = 0 \<Longrightarrow> count = entries div blocks"
  using assms by (auto simp: share_def split: if_splits)

lemma ceil_mult:
  assumes "0 < b"
  shows "a \<le> div_ceil a b * b" "0 < a \<Longrightarrow> (div_ceil a b - 1) * b < a"
proof -
  have d: "a = a div b * b + a mod b" by simp
  have m: "a mod b < b" using assms by simp
  show "a \<le> div_ceil a b * b" 
  proof -
    have "a \<le> a div b * b + b" using d m by linarith
    then show ?thesis using d by (auto simp: div_ceil_def algebra_simps)
  qed
  show "(div_ceil a b - 1) * b < a" if "0 < a"
  proof (cases "a mod b = 0")
    case True
    then obtain q where q: "a = b * q" by auto
    then have "0 < q" using that by (cases q) auto
    then show ?thesis using q assms by (simp add: div_ceil_def)
  next
    case False
    then have "a div b * b < a" using d by linarith
    then show ?thesis using False by (simp add: div_ceil_def)
  qed
qed

lemma ceil_le:
  assumes "0 < b"
  shows "div_ceil a b \<le> a"
proof (cases "a = 0")
  case False
  then have "(div_ceil a b - 1) * 1 < a"
    using ceil_mult(2) [OF assms, of a] assms
    by (metis (no_types, lifting) Suc_leI One_nat_def bot_nat_0.not_eq_extremum le_less_trans mult_le_mono2)
  then show ?thesis by simp
qed (simp add: div_ceil_def)

lemma div_ceil_pos: "0 < a \<Longrightarrow> 0 < b \<Longrightarrow> 0 < div_ceil a b"
  using ceil_mult(1) [of b a] by (cases "div_ceil a b") auto

lemma div_ceil_iff:
  assumes "0 < b"
  shows "div_ceil a b \<le> n \<longleftrightarrow> a \<le> n * b"
proof
  assume "div_ceil a b \<le> n"
  then show "a \<le> n * b" using ceil_mult(1) [OF assms, of a] mult_le_mono1 order_trans by blast
next
  assume le: "a \<le> n * b"
  show "div_ceil a b \<le> n"
  proof (cases "a = 0")
    case False
    then have "(div_ceil a b - 1) * b < n * b" using ceil_mult(2) [OF assms, of a] le by linarith
    then show ?thesis unfolding mult_less_cancel2 by linarith
  qed (simp add: div_ceil_def)
qed

text \<open>A block is at least half full and never over full when the blocks are as few as hold the entries.\<close>

lemma share_half_full:
  assumes "count \<in> set (share entries (div_ceil entries per))" "0 < per" "1 < div_ceil entries per"
  shows "per div 2 \<le> count"
proof -
  let ?l = "div_ceil entries per"
  have "0 < entries" using assms(3) by (cases entries) (auto simp: div_ceil_def)
  then have "(?l - 1) * per < entries" using ceil_mult(2) [OF assms(2)] by blast
  moreover have "?l * (per div 2) \<le> (?l - 1) * per"
  proof -
    have "?l * (per div 2) \<le> (2 * (?l - 1)) * (per div 2)" using assms(3) by (intro mult_right_mono) auto
    also have "\<dots> = (?l - 1) * (2 * (per div 2))" by simp
    also have "\<dots> \<le> (?l - 1) * per" by (intro mult_left_mono) auto
    finally show ?thesis .
  qed
  ultimately have "?l * (per div 2) \<le> entries" by linarith
  then have "per div 2 \<le> entries div ?l"
    using assms(3) by (metis less_eq_div_iff_mult_less_eq mult.commute not_one_less_zero gr0I)
  then show ?thesis using share_even(1) [OF assms(1)] by linarith
qed

lemma share_fits:
  assumes "count \<in> set (share entries blocks)" "entries \<le> blocks * per" "0 < blocks"
  shows "count \<le> per"
proof -
  have le: "entries div blocks \<le> per" using div_le_mono [OF assms(2), of blocks] assms(3) by simp
  show ?thesis
  proof (cases "entries mod blocks = 0")
    case True
    then show ?thesis using share_even(3) [OF assms(1)] le by simp
  next
    case False
    have "entries = blocks * (entries div blocks) + entries mod blocks" by simp
    then have "blocks * (entries div blocks) < blocks * per" using False assms(2) by linarith
    then have "entries div blocks < per" by simp
    then show ?thesis using share_even(2) [OF assms(1)] by linarith
  qed
qed

lemma plan_loop_spec:
  assumes "plan_loop per levels = Inr out" "0 < per" "levels \<noteq> []" "0 < last levels"
  shows "\<exists>more. out = levels @ more \<and> last out = 1 \<and> length out \<le> max MAX_LEVELS (length levels) \<and>
    (\<forall>i. Suc i < length out \<and> length levels \<le> Suc i \<longrightarrow> out ! Suc i = div_ceil (out ! i) per \<and> 1 < out ! i)"
  using assms
proof (induction per levels rule: plan_loop.induct)
  case (1 per levels)
  let ?next = "div_ceil (last levels) per"
  show ?case
  proof (cases "1 < last levels")
    case False
    then have "out = levels" "last levels = 1" using 1(2,5) plan_loop.simps [of per levels] by auto
    then show ?thesis by (intro exI [of _ "[]"]) auto
  next
    case True
    then have run: "length levels < MAX_LEVELS" "plan_loop per (levels @ [?next]) = Inr out"
      using 1(2) plan_loop.simps [of per levels] by (auto simp: Let_def split: if_splits)
    have "0 < ?next" using div_ceil_pos 1(3) True by simp
    then obtain more where more: "out = (levels @ [?next]) @ more" "last out = 1" "length out \<le> max MAX_LEVELS (length (levels @ [?next]))"
      "\<forall>i. Suc i < length out \<and> length (levels @ [?next]) \<le> Suc i \<longrightarrow> out ! Suc i = div_ceil (out ! i) per \<and> 1 < out ! i"
      using 1(1) [OF True refl _ run(2) 1(3)] run(1) by auto
    have at: "out ! length levels = ?next" "out ! (length levels - 1) = last levels"
      using more(1) 1(4) by (simp_all add: nth_append last_conv_nth)
    have "out ! Suc i = div_ceil (out ! i) per \<and> 1 < out ! i" if "Suc i < length out" "length levels \<le> Suc i" for i
    proof (cases "length levels = Suc i")
      case eq: True
      then show ?thesis using at True by (metis diff_Suc_1)
    next
      case False
      then show ?thesis using more(4) that by simp
    qed
    then show ?thesis using more(1-3) run(1) by (intro exI [of _ "?next # more"]) auto
  qed
qed

text \<open>The plan of a tree: as few leaves as hold the records, above them as few nodes as hold the pointers, one root.\<close>

definition planned :: "nat \<Rightarrow> nat \<Rightarrow> nat \<Rightarrow> nat list \<Rightarrow> bool" where
  "planned per_leaf per_node records levels \<longleftrightarrow>
     levels \<noteq> [] \<and> length levels \<le> MAX_LEVELS \<and> levels ! 0 = max (div_ceil records per_leaf) 1 \<and> last levels = 1 \<and>
     (\<forall>i. Suc i < length levels \<longrightarrow> levels ! Suc i = div_ceil (levels ! i) per_node \<and> 1 < levels ! i)"

definition per_leaf :: "Superblock \<Rightarrow> Shape \<Rightarrow> nat" where
  "per_leaf sb shape = maxrecs (usize_sub (unat (sb_blocksize sb)) (short_header (is_v5 sb))) (sh_record_len shape)"

definition per_node :: "Superblock \<Rightarrow> Shape \<Rightarrow> nat" where
  "per_node sb shape = maxrecs (usize_sub (unat (sb_blocksize sb)) (short_header (is_v5 sb))) (node_width shape)"

lemma plan_planned:
  assumes "plan shape (sb_blocksize sb) (is_v5 sb) records = Inr levels"
  shows "0 < per_leaf sb shape" "2 \<le> per_node sb shape" "planned (per_leaf sb shape) (per_node sb shape) records levels"
proof -
  let ?l = "per_leaf sb shape" and ?n = "per_node sb shape"
  show ln: "0 < ?l" "2 \<le> ?n" using assms by (auto simp: plan_def per_leaf_def per_node_def Let_def split: if_splits)
  have "plan_loop ?n [max (div_ceil records ?l) 1] = Inr levels"
    using assms by (auto simp: plan_def per_leaf_def per_node_def Let_def split: if_splits)
  moreover have "0 < ?n" "[max (div_ceil records ?l) 1] \<noteq> []" "0 < last [max (div_ceil records ?l) 1]"
    using ln by (simp_all add: less_max_iff_disj)
  ultimately show "planned ?l ?n records levels" using plan_loop_spec [of ?n "[max (div_ceil records ?l) 1]" levels]
    by (auto simp: planned_def MAX_LEVELS_def)
qed

text \<open>A plan is refused only for a block that cannot make a tree or for more records than nine levels hold.\<close>

lemma plan_loop_refused:
  assumes "plan_loop per levels = Inl e" "0 < per" "levels \<noteq> []" "length levels \<le> MAX_LEVELS"
  shows "per ^ (MAX_LEVELS - length levels) < last levels"
  using assms
proof (induction per levels rule: plan_loop.induct)
  case (1 per levels)
  let ?next = "div_ceil (last levels) per"
  have big: "1 < last levels" using 1(2) plan_loop.simps [of per levels] by (auto split: if_splits)
  show ?case
  proof (cases "MAX_LEVELS < length (levels @ [?next])")
    case True
    then have "length levels = MAX_LEVELS" using 1(5) by simp
    then show ?thesis using big by simp
  next
    case False
    then have "plan_loop per (levels @ [?next]) = Inl e" using 1(2) big plan_loop.simps [of per levels] by (auto simp: Let_def)
    then have "per ^ (MAX_LEVELS - length (levels @ [?next])) < ?next" using 1(1) [OF big refl False] 1(3) False by simp
    then have "per ^ (MAX_LEVELS - Suc (length levels)) * per < last levels"
      using div_ceil_iff [OF 1(3), of "last levels" "per ^ (MAX_LEVELS - Suc (length levels))"] by (simp add: not_le flip: linorder_not_le)
    moreover have "MAX_LEVELS - length levels = Suc (MAX_LEVELS - Suc (length levels))" using False by simp
    ultimately show ?thesis by (simp add: mult.commute)
  qed
qed

section \<open>One block\<close>

lemma drop_blit: "off + length s \<le> k \<Longrightarrow> off + length s \<le> length b \<Longrightarrow> drop k (blit b off s) = drop k b"
  by (simp add: blit_def min_def)

lemma take_blit: "k \<le> off \<Longrightarrow> off + length s \<le> length b \<Longrightarrow> take k (blit b off s) = take k b"
  by (simp add: blit_def)

lemma take_blit_front: "length s = n \<Longrightarrow> n \<le> length b \<Longrightarrow> take n (blit b 0 s) = s"
  by (simp add: blit_def)

text \<open>A checksum does not depend on the bytes it is kept in.\<close>

lemma crc_blit_self:
  assumes "off + 4 \<le> length b" "length s = 4"
  shows "crc32c_with_zeroed_crc C (blit b off s) off = crc32c_with_zeroed_crc C b off"
  using assms by (simp add: crc32c_with_zeroed_crc_def slice_def drop_blit take_blit)

lemma crc_ok: "off + 4 \<le> length b \<Longrightarrow> \<exists>crc. crc32c_with_zeroed_crc C b off = Inr crc"
  by (simp add: crc32c_with_zeroed_crc_def slice_def)

definition shape_magic :: "Superblock \<Rightarrow> Shape \<Rightarrow> u32 option" where
  "shape_magic sb shape = (if is_v5 sb then Some (sh_magic_v5 shape) else sh_magic_v4 shape)"

lemma stamp_block_spec:
  assumes "short_header (is_v5 sb) \<le> length buf" "length (sb_meta_uuid sb) = 16" "shape_magic sb shape = Some magic"
  shows "\<exists>b. stamp_block C buf sb shape agno agblock level n = Inr b \<and> length b = length buf \<and>
    drop (short_header (is_v5 sb)) b = drop (short_header (is_v5 sb)) buf \<and>
    be32 b 0 = Inr magic \<and> be16 b 4 = Inr level \<and> be16 b 6 = Inr n \<and>
    (is_v5 sb \<longrightarrow> block_identity C b sb agno agblock = Inr ())"
proof -
  let ?m = "if is_v5 sb then sh_magic_v5 shape else case sh_magic_v4 shape of Some m \<Rightarrow> m | None \<Rightarrow> sh_magic_v5 shape"
  let ?b1 = "blit (blit (blit (blit (blit buf 0 (be_bytes32 ?m)) 4 (be_bytes16 level)) 6 (be_bytes16 n)) 8 (be_bytes32 (- 1))) 12 (be_bytes32 (- 1))"
  have m: "?m = magic" using assms(3) by (auto simp: shape_magic_def split: if_splits)
  have len: "16 \<le> length buf" using assms(1) by (simp add: short_header_def SHORT_V5_HEADER_LEN_def SHORT_V4_HEADER_LEN_def split: if_splits)
  then have l1: "length ?b1 = length buf" by simp
  show ?thesis
  proof (cases "is_v5 sb")
    case False
    then have "stamp_block C buf sb shape agno agblock level n = Inr ?b1" using len by (simp add: stamp_block_def put_ok Let_def)
    moreover have "drop 16 ?b1 = drop 16 buf" using len by (simp add: drop_blit)
    moreover have "be32 ?b1 0 = Inr magic" "be16 ?b1 4 = Inr level" "be16 ?b1 6 = Inr n"
      using len m False by (simp_all add: read_ok take_drop_blit_other take_drop_blit_same take_blit take_blit_front)
    ultimately show ?thesis using False l1 by (simp add: short_header_def SHORT_V4_HEADER_LEN_def)
  next
    case True
    have len5: "56 \<le> length buf" using assms(1) True by (simp add: short_header_def SHORT_V5_HEADER_LEN_def)
    let ?b2 = "blit (blit (blit ?b1 16 (be_bytes64 (expected_blkno sb agno agblock))) 32 (sb_meta_uuid sb)) 48 (be_bytes32 agno)"
    have l2: "length ?b2 = length buf" using len5 l1 assms(2) by simp
    obtain crc where crc: "crc32c_with_zeroed_crc C ?b2 52 = Inr crc" using crc_ok [of 52 ?b2] l2 len5 by auto
    let ?b3 = "blit ?b2 52 (le_bytes32 crc)"
    have "stamp_block C buf sb shape agno agblock level n = Inr ?b3"
      using len len5 l2 True crc assms(2) by (simp add: stamp_block_def put_ok Let_def)
    moreover have "length ?b3 = length buf" using l2 len5 by simp
    moreover have "drop 56 ?b3 = drop 56 buf" using len5 assms(2) by (simp add: drop_blit)
    moreover have "be32 ?b3 0 = Inr magic" "be16 ?b3 4 = Inr level" "be16 ?b3 6 = Inr n"
      using len5 m True assms(2) by (simp_all add: read_ok take_drop_blit_other take_drop_blit_same take_blit take_blit_front)
    moreover have "block_identity C ?b3 sb agno agblock = Inr ()"
    proof -
      have "crc32c_with_zeroed_crc C ?b3 52 = Inr crc" using crc_blit_self [of 52 ?b2 "le_bytes32 crc" C] l2 len5 crc by simp
      moreover have "le32 ?b3 52 = Inr crc" using l2 len5 by (simp add: read_ok take_drop_blit_same)
      moreover have "uuid_at ?b3 32 = Inr (sb_meta_uuid sb)" "be32 ?b3 48 = Inr agno" "be64 ?b3 16 = Inr (expected_blkno sb agno agblock)"
        using len5 assms(2) by (simp_all add: read_ok take_drop_blit_other take_drop_blit_same take_blit take_blit_front)
      ultimately show ?thesis by (simp add: block_identity_def)
    qed
    ultimately show ?thesis using True by (simp add: short_header_def SHORT_V5_HEADER_LEN_def)
  qed
qed

definition entry_width :: "Shape \<Rightarrow> u16 \<Rightarrow> nat" where
  "entry_width shape level = (if level = 0 then sh_record_len shape else node_width shape)"

text \<open>A block that was stamped is read back as the block it was stamped as.\<close>

lemma parse_stamped:
  assumes "stamp_block C buf sb shape agno agblock level n = Inr b" "short_header (is_v5 sb) \<le> length buf" "length (sb_meta_uuid sb) = 16"
    "shape_magic sb shape = Some magic" "unat n \<le> maxrecs (length buf - short_header (is_v5 sb)) (entry_width shape level)"
  shows "length b = length buf" "drop (short_header (is_v5 sb)) b = drop (short_header (is_v5 sb)) buf"
    "parse_block C b sb shape agno agblock level =
       Inr \<lparr>nd_level = level, nd_numrecs = n, nd_body = short_header (is_v5 sb),
            nd_maxrecs = maxrecs (length buf - short_header (is_v5 sb)) (entry_width shape level)\<rparr>"
proof -
  note st = stamp_block_spec [OF assms(2-4), of C agno agblock level n]
  then show lb: "length b = length buf" and "drop (short_header (is_v5 sb)) b = drop (short_header (is_v5 sb)) buf" using assms(1) by auto
  have "be32 b 0 = Inr magic" "be16 b 4 = Inr level" "be16 b 6 = Inr n" "is_v5 sb \<Longrightarrow> block_identity C b sb agno agblock = Inr ()"
    using st assms(1) by auto
  then show "parse_block C b sb shape agno agblock level =
       Inr \<lparr>nd_level = level, nd_numrecs = n, nd_body = short_header (is_v5 sb),
            nd_maxrecs = maxrecs (length buf - short_header (is_v5 sb)) (entry_width shape level)\<rparr>"
    using assms(2,4,5) lb by (auto simp: parse_block_def Let_def shape_magic_def entry_width_def node_width_def split: if_splits)
qed

section \<open>Records in a block\<close>

context record_codec
begin

text \<open>Records are written as the row of their images, and a row of images is read as the records.\<close>

lemma length_images: "length (concat (map image rs)) = len * length rs"
  by (induction rs) (simp_all add: image_len)

lemma write_records_images:
  "at + len * length rs \<le> length b \<Longrightarrow> write_records enc len at rs b = Inr (blit b at (concat (map image rs)))"
proof (induction rs arbitrary: at b)
  case Nil
  then show ?case by (simp add: blit_def)
next
  case (Cons r rs)
  have fit: "at + len \<le> length b" "at + len + len * length rs \<le> length (blit b at (image r))"
    using Cons.prems by (simp_all add: image_len algebra_simps)
  have "blit (blit b at (image r)) (at + len) (concat (map image rs)) = blit b at (image r @ concat (map image rs))"
    using blit_blit_adjacent [of at "image r" "concat (map image rs)" b] Cons.prems by (simp add: image_len length_images algebra_simps)
  then show ?case using Cons.IH [OF fit(2)] fit(1) by (simp add: enc_blit)
qed

lemma read_records_images:
  "take (len * length rs) (drop at b) = concat (map image rs) \<Longrightarrow> at + len * length rs \<le> length b \<Longrightarrow> (\<forall>r \<in> set rs. valid r) \<Longrightarrow>
     read_records dec len at (length rs) b = Inr rs"
proof (induction rs arbitrary: at)
  case Nil
  then show ?case by simp
next
  case (Cons r rs)
  have row: "take (len + len * length rs) (drop at b) = image r @ concat (map image rs)" using Cons.prems(1) by simp
  have fit: "at + len \<le> length b" "at + len + len * length rs \<le> length b" using Cons.prems(2) by (simp_all add: algebra_simps)
  have "take len (drop at b) = image r"
    using arg_cong [OF row, of "take len"] by (simp add: image_len)
  then have "dec b at = Inr r" using dec_image Cons.prems(3) fit(1) by simp
  moreover have "take (len * length rs) (drop (at + len) b) = concat (map image rs)"
    using arg_cong [OF row, of "drop len"] by (simp add: image_len drop_take add.commute)
  ultimately show ?case using Cons.IH [of "at + len"] fit(2) Cons.prems(3) by simp
qed

end

section \<open>The walk\<close>

text \<open>What a visit of one block does to the walk: a leaf adds its records, a node puts its children on the stack.\<close>

definition leaf_step ::
  "crc_crate \<Rightarrow> Superblock \<Rightarrow> Shape \<Rightarrow> u32 \<Rightarrow> (u32 \<Rightarrow> bytes res) \<Rightarrow> (bytes \<Rightarrow> nat \<Rightarrow> 'r res) \<Rightarrow> u32 \<Rightarrow> 'r list \<Rightarrow> bool" where
  "leaf_step C sb shape agno read decode b rs \<longleftrightarrow>
     (\<forall>budget out seen stack. 0 < length seen \<longrightarrow>
        tree_loop C sb shape agno read decode (Suc budget) out seen ((b, 0) # stack) =
        tree_loop C sb shape agno read decode budget (out @ rs) (seen[0 := seen ! 0 @ [b]]) stack)"

definition node_step ::
  "crc_crate \<Rightarrow> Superblock \<Rightarrow> Shape \<Rightarrow> u32 \<Rightarrow> (u32 \<Rightarrow> bytes res) \<Rightarrow> (bytes \<Rightarrow> nat \<Rightarrow> 'r res) \<Rightarrow> nat \<Rightarrow> u32 \<Rightarrow> u32 list \<Rightarrow> bool" where
  "node_step C sb shape agno read decode level b kids \<longleftrightarrow>
     (\<forall>budget out seen stack. Suc level < length seen \<longrightarrow>
        tree_loop C sb shape agno read decode (Suc budget) out seen ((b, of_nat (Suc level)) # stack) =
        tree_loop C sb shape agno read decode budget out (seen[Suc level := seen ! Suc level @ [b]])
          (map (\<lambda>p. (p, of_nat level)) kids @ stack))"

text \<open>A row of blocks at one level, the records below it and the rows of blocks of every level down from it.\<close>

inductive covers ::
  "(u32 \<Rightarrow> 'r list \<Rightarrow> bool) \<Rightarrow> (nat \<Rightarrow> u32 \<Rightarrow> u32 list \<Rightarrow> bool) \<Rightarrow> nat \<Rightarrow> u32 list \<Rightarrow> 'r list \<Rightarrow> u32 list list \<Rightarrow> bool"
  for leaf node where
  leaves: "list_all2 leaf bs parts \<Longrightarrow> covers leaf node 0 bs (concat parts) [bs]"
| nodes: "list_all2 (node level) bs kids \<Longrightarrow> covers leaf node level (concat kids) rs rows \<Longrightarrow> covers leaf node (Suc level) bs rs (rows @ [bs])"

inductive_cases covers_0E: "covers leaf node 0 bs rs rows"
inductive_cases covers_SucE: "covers leaf node (Suc level) bs rs rows"

lemma covers_length: "covers leaf node level bs rs rows \<Longrightarrow> length rows = Suc level"
  by (induction rule: covers.induct) auto

lemma covers_append:
  assumes "covers leaf node level (xs @ ys) rs rows"
  shows "\<exists>rs1 rs2 rows1 rows2. covers leaf node level xs rs1 rows1 \<and> covers leaf node level ys rs2 rows2 \<and>
    rs = rs1 @ rs2 \<and> rows = map2 (@) rows1 rows2"
  using assms
proof (induction level arbitrary: xs ys rs rows)
  case 0
  then obtain parts where parts: "list_all2 leaf (xs @ ys) parts" "rs = concat parts" "rows = [xs @ ys]" by (auto elim: covers_0E)
  then obtain p q where "parts = p @ q" "list_all2 leaf xs p" "list_all2 leaf ys q" by (auto simp: list_all2_append1)
  then have "covers leaf node 0 xs (concat p) [xs]" "covers leaf node 0 ys (concat q) [ys]" "rs = concat p @ concat q"
    using parts(2) by (auto intro: covers.leaves)
  moreover have "rows = map2 (@) [xs] [ys]" using parts(3) by simp
  ultimately show ?case by blast
next
  case (Suc level)
  then obtain kids rows0 where k: "list_all2 (node level) (xs @ ys) kids" "covers leaf node level (concat kids) rs rows0" "rows = rows0 @ [xs @ ys]"
    by (auto elim: covers_SucE)
  then obtain p q where pq: "kids = p @ q" "list_all2 (node level) xs p" "list_all2 (node level) ys q" by (auto simp: list_all2_append1)
  from Suc.IH [of "concat p" "concat q" rs rows0] k(2) pq(1) obtain rs1 rs2 r1 r2 where
    ih: "covers leaf node level (concat p) rs1 r1" "covers leaf node level (concat q) rs2 r2" "rs = rs1 @ rs2" "rows0 = map2 (@) r1 r2" by auto
  have "length r1 = length r2" using ih(1,2) covers_length by metis
  then have "rows = map2 (@) (r1 @ [xs]) (r2 @ [ys])" using k(3) ih(4) by simp
  moreover have "covers leaf node (Suc level) xs rs1 (r1 @ [xs])" "covers leaf node (Suc level) ys rs2 (r2 @ [ys])"
    using covers.nodes [OF pq(2) ih(1)] covers.nodes [OF pq(3) ih(2)] by auto
  ultimately show ?case using ih(3) by blast
qed

definition add_rows :: "'b list list \<Rightarrow> 'b list list \<Rightarrow> 'b list list" where
  "add_rows seen rows = map (\<lambda>i. seen ! i @ (if i < length rows then rows ! i else [])) [0..<length seen]"

lemma length_add_rows [simp]: "length (add_rows seen rows) = length seen"
  by (simp add: add_rows_def)

lemma add_rows_map2:
  "length r1 = length r2 \<Longrightarrow> length r1 \<le> length seen \<Longrightarrow> add_rows (add_rows seen r1) r2 = add_rows seen (map2 (@) r1 r2)"
  by (intro nth_equalityI) (auto simp: add_rows_def)

lemma add_rows_snoc:
  "length rows < length seen \<Longrightarrow> add_rows (seen[length rows := seen ! length rows @ bs]) rows = add_rows seen (rows @ [bs])"
  unfolding add_rows_def length_list_update by (intro map_cong) (auto simp: nth_append nth_list_update less_Suc_eq)

lemma covers_Nil:
  assumes "covers leaf node level [] rs rows"
  shows "rs = [] \<and> (\<forall>r \<in> set rows. r = [])"
  using assms
proof (induction level arbitrary: rs rows)
  case 0
  then show ?case by (auto elim: covers_0E)
next
  case (Suc level)
  then obtain rows0 where "covers leaf node level [] rs rows0" "rows = rows0 @ [[]]" by (auto elim: covers_SucE)
  then show ?case using Suc.IH by auto
qed

lemma add_rows_Nil:
  assumes "\<forall>r \<in> set rows. r = []"
  shows "add_rows seen rows = seen"
proof -
  have "add_rows seen rows = map (\<lambda>i. seen ! i) [0..<length seen]" unfolding add_rows_def using assms by (intro map_cong) auto
  then show ?thesis by (simp add: map_nth)
qed

text \<open>The walk of a row: every block once, the records in order, and nothing left of the row on the stack.\<close>

lemma walk_row:
  assumes "covers (leaf_step C sb shape agno read decode) (node_step C sb shape agno read decode) level bs rs rows"
    "length rows \<le> length seen" "sum_list (map length rows) \<le> budget"
  shows "tree_loop C sb shape agno read decode budget out seen (map (\<lambda>b. (b, of_nat level)) bs @ stack) =
    tree_loop C sb shape agno read decode (budget - sum_list (map length rows)) (out @ rs) (add_rows seen rows) stack"
  using assms
proof (induction level arbitrary: bs rs rows seen budget out stack)
  case 0
  then obtain parts where parts: "list_all2 (leaf_step C sb shape agno read decode) bs parts" "rs = concat parts" "rows = [bs]"
    by (auto elim: covers_0E)
  have "tree_loop C sb shape agno read decode budget out seen (map (\<lambda>b. (b, 0)) bs @ stack) =
      tree_loop C sb shape agno read decode (budget - length bs) (out @ concat parts) (seen[0 := seen ! 0 @ bs]) stack"
    if "0 < length seen" "length bs \<le> budget"
    using parts(1) that
  proof (induction bs parts arbitrary: budget out seen rule: list_all2_induct)
    case Nil
    then show ?case by simp
  next
    case (Cons b bs part parts)
    obtain k where k: "budget = Suc k" using Cons.prems(2) by (cases budget) auto
    show ?case using Cons.hyps(1) Cons.prems Cons.IH [of "seen[0 := seen ! 0 @ [b]]" k "out @ part"] k by (simp add: leaf_step_def)
  qed
  moreover have "add_rows seen [bs] = seen[0 := seen ! 0 @ bs]" if "0 < length seen"
    using add_rows_snoc [of "[]" seen bs] that add_rows_Nil [of "[]" "seen[0 := seen ! 0 @ bs]"] by simp
  ultimately show ?case using parts 0(2,3) by (cases "seen = []") simp_all
next
  case (Suc level)
  then obtain kids rows0 where k: "list_all2 (node_step C sb shape agno read decode level) bs kids"
    "covers (leaf_step C sb shape agno read decode) (node_step C sb shape agno read decode) level (concat kids) rs rows0" "rows = rows0 @ [bs]"
    by (auto elim: covers_SucE)
  have "tree_loop C sb shape agno read decode budget out seen (map (\<lambda>b. (b, of_nat (Suc level))) bs @ stack) =
      tree_loop C sb shape agno read decode (budget - (sum_list (map length rows0) + length bs)) (out @ rs)
        (add_rows (seen[Suc level := seen ! Suc level @ bs]) rows0) stack"
    if "Suc level < length seen" "sum_list (map length rows0) + length bs \<le> budget"
    using k(1,2) that
  proof (induction bs kids arbitrary: budget out seen rs rows0 rule: list_all2_induct)
    case Nil
    then have e: "rs = []" "\<forall>r \<in> set rows0. r = []" using covers_Nil by (metis concat.simps(1))+
    then have z: "sum_list (map length rows0) = 0" by (simp add: sum_list_eq_0_iff)
    then show ?case unfolding z e(1) using add_rows_Nil [OF e(2), of seen] by simp
  next
    case (Cons b bs kid kids)
    obtain n where n: "budget = Suc n" using Cons.prems(3) by (cases budget) auto
    have "covers (leaf_step C sb shape agno read decode) (node_step C sb shape agno read decode) level (kid @ concat kids) rs rows0"
      using Cons.prems(1) by simp
    from covers_append [OF this] obtain rs1 rs2 r1 r2 where
      c: "covers (leaf_step C sb shape agno read decode) (node_step C sb shape agno read decode) level kid rs1 r1"
      "covers (leaf_step C sb shape agno read decode) (node_step C sb shape agno read decode) level (concat kids) rs2 r2"
      "rs = rs1 @ rs2" "rows0 = map2 (@) r1 r2" by (elim exE conjE) (rule that)
    have lens: "length r1 = Suc level" "length r2 = Suc level" using c(1,2) by (auto dest: covers_length)
    have sums: "sum_list (map length rows0) = sum_list (map length r1) + sum_list (map length r2)"
      unfolding c(4) using lens(1,2) by (simp add: sum_list_sum_nth lens sum.distrib)
    let ?s1 = "seen[Suc level := seen ! Suc level @ [b]]"
    have "tree_loop C sb shape agno read decode budget out seen (map (\<lambda>b. (b, of_nat (Suc level))) (b # bs) @ stack) =
        tree_loop C sb shape agno read decode n out ?s1 (map (\<lambda>p. (p, of_nat level)) kid @ map (\<lambda>b. (b, of_nat (Suc level))) bs @ stack)"
      using Cons.hyps(1) Cons.prems(2) n by (simp add: node_step_def)
    also have "\<dots> = tree_loop C sb shape agno read decode (n - sum_list (map length r1)) (out @ rs1) (add_rows ?s1 r1)
        (map (\<lambda>b. (b, of_nat (Suc level))) bs @ stack)"
      using Suc.IH [OF c(1), of ?s1 n out] lens Cons.prems(2,3) sums n by simp
    also have "\<dots> = tree_loop C sb shape agno read decode (n - sum_list (map length r1) - (sum_list (map length r2) + length bs)) (out @ rs1 @ rs2)
        (add_rows ((add_rows ?s1 r1)[Suc level := add_rows ?s1 r1 ! Suc level @ bs]) r2) stack"
      using Cons.IH [OF c(2), of "add_rows ?s1 r1"] Cons.prems(2,3) sums n by simp
    also have "(add_rows ?s1 r1)[Suc level := add_rows ?s1 r1 ! Suc level @ bs] = add_rows (seen[Suc level := seen ! Suc level @ b # bs]) r1"
      using lens Cons.prems(2) by (intro nth_equalityI) (auto simp: add_rows_def nth_list_update)
    also have "add_rows (add_rows (seen[Suc level := seen ! Suc level @ b # bs]) r1) r2 = add_rows (seen[Suc level := seen ! Suc level @ b # bs]) rows0"
      unfolding c(4) using lens Cons.prems(2) by (intro add_rows_map2) auto
    finally show ?case using c(3) sums n by (simp add: add.assoc)
  qed
  moreover have "length rows0 = Suc level" using k(2) covers_length by blast
  ultimately show ?case using k(3) Suc.prems(2,3) add_rows_snoc [of rows0 seen bs] by simp
qed

section \<open>Trees that are built and walked\<close>

text \<open>
  What one of the four trees gives the shared layout: a codec of its record, of the width its shape states, and a key
  writer that writes the keys of one child and nothing else.
\<close>

fun parts_of :: "nat list \<Rightarrow> 'a list \<Rightarrow> 'a list list" where
  "parts_of [] xs = []"
| "parts_of (c # cs) xs = take c xs # parts_of cs (drop c xs)"

lemma concat_parts_of: "concat (parts_of cs xs) = take (sum_list cs) xs"
  by (induction cs xs rule: parts_of.induct) (simp_all add: take_add)

lemma length_parts_of [simp]: "length (parts_of cs xs) = length cs"
  by (induction cs xs rule: parts_of.induct) simp_all

text \<open>The volumes a tree can be laid out on, and the blocks a read finds where they were written.\<close>

definition layable :: "Superblock \<Rightarrow> Shape \<Rightarrow> bool" where
  "layable sb shape \<longleftrightarrow> 512 \<le> unat (sb_blocksize sb) \<and> unat (sb_blocksize sb) \<le> 65536 \<and> length (sb_meta_uuid sb) = 16 \<and>
     shape_magic sb shape \<noteq> None"

definition finds :: "(u32 \<Rightarrow> bytes res) \<Rightarrow> Built list \<Rightarrow> bool" where
  "finds read built \<longleftrightarrow> (\<forall>b \<in> set built. read (bt_agblock b) = Inr (bt_bytes b))"

text \<open>A block that was stamped, header and checksum.\<close>

definition stamped :: "crc_crate \<Rightarrow> Superblock \<Rightarrow> Shape \<Rightarrow> u32 \<Rightarrow> Built \<Rightarrow> bool" where
  "stamped C sb shape agno b \<longleftrightarrow>
     (\<exists>buf level n. length buf = unat (sb_blocksize sb) \<and> stamp_block C buf sb shape agno (bt_agblock b) level n = Inr (bt_bytes b))"

lemma finds_simps [simp]:
  "finds read []"
  "finds read (b # bs) \<longleftrightarrow> read (bt_agblock b) = Inr (bt_bytes b) \<and> finds read bs"
  "finds read (bs @ cs) \<longleftrightarrow> finds read bs \<and> finds read cs"
  by (auto simp: finds_def)

lemma header_small: "short_header v5 \<le> 56"
  by (simp add: short_header_def SHORT_V5_HEADER_LEN_def SHORT_V4_HEADER_LEN_def)

lemma block_space:
  assumes "layable sb shape"
  shows "usize_sub (unat (sb_blocksize sb)) (short_header (is_v5 sb)) = unat (sb_blocksize sb) - short_header (is_v5 sb)"
    "short_header (is_v5 sb) \<le> unat (sb_blocksize sb)"
    "unat (sb_blocksize sb) - short_header (is_v5 sb) < 65536"
  using assms header_small [of "is_v5 sb"]
  by (auto simp: layable_def usize_sub_def short_header_def SHORT_V5_HEADER_LEN_def SHORT_V4_HEADER_LEN_def)

lemma maxrecs_fits: "maxrecs space per * per \<le> space" "maxrecs space per \<le> space"
proof -
  have "maxrecs space per * max per 1 \<le> space" by (simp add: maxrecs_def)
  then show "maxrecs space per * per \<le> space" by (meson le_trans max.cobounded1 mult_le_mono2)
  show "maxrecs space per \<le> space" by (simp add: maxrecs_def)
qed

locale tree_codec = record_codec len enc dec valid image
  for len :: nat and enc :: "bytes \<Rightarrow> nat \<Rightarrow> 'r \<Rightarrow> bytes res" and dec :: "bytes \<Rightarrow> nat \<Rightarrow> 'r res" and valid :: "'r \<Rightarrow> bool" and image :: "'r \<Rightarrow> bytes" +
  fixes shape :: Shape
    and write_keys :: "bytes \<Rightarrow> nat \<Rightarrow> 'r list \<Rightarrow> bytes res"
    and key_image :: "'r list \<Rightarrow> bytes"
  assumes record_width: "sh_record_len shape = len"
    and keys_blit: "rs \<noteq> [] \<Longrightarrow> at + keys_per_entry shape * sh_key_len shape \<le> length b \<Longrightarrow>
      write_keys b at rs = Inr (blit b at (key_image rs))"
    and key_len: "rs \<noteq> [] \<Longrightarrow> length (key_image rs) = keys_per_entry shape * sh_key_len shape"
begin

text \<open>A leaf that was written is a leaf the walk takes the records from.\<close>

lemma leaf_built:
  assumes "layable sb shape" "length rs \<le> per_leaf sb shape" "\<forall>r \<in> set rs. valid r"
  shows "\<exists>b b'. write_records enc len (short_header (is_v5 sb)) rs (replicate (unat (sb_blocksize sb)) 0) = Inr b \<and>
    length b = unat (sb_blocksize sb) \<and>
    stamp_block C b sb shape agno agblock 0 (of_nat (length rs)) = Inr b' \<and>
    (\<forall>read. read agblock = Inr b' \<longrightarrow> leaf_step C sb shape agno read dec agblock rs)"
proof -
  let ?h = "short_header (is_v5 sb)" and ?n = "of_nat (length rs) :: u16" and ?bs = "unat (sb_blocksize sb)"
  note sp = block_space [OF assms(1)]
  have fit: "?h + len * length rs \<le> ?bs"
  proof -
    have "length rs * len \<le> maxrecs (?bs - ?h) len * len" using assms(2) by (intro mult_le_mono1) (simp add: per_leaf_def sp record_width)
    also have "\<dots> \<le> ?bs - ?h" by (rule maxrecs_fits(1))
    finally have "length rs * len \<le> ?bs - ?h" .
    then show ?thesis using sp(2) by (simp add: mult.commute)
  qed
  let ?b = "blit (replicate ?bs 0) ?h (concat (map image rs))"
  have w: "write_records enc len ?h rs (replicate ?bs 0) = Inr ?b" using fit by (intro write_records_images) simp
  have lb: "length ?b = ?bs" using fit by (simp add: length_images)
  have "length rs \<le> ?bs - ?h"
    using assms(2) maxrecs_fits(2) [of "?bs - ?h" len] by (simp add: per_leaf_def sp(1) record_width)
  then have "length rs < 65536" using sp(3) by linarith
  then have n: "unat ?n = length rs" by (simp add: unat_of_nat)
  obtain magic where magic: "shape_magic sb shape = Some magic" "length (sb_meta_uuid sb) = 16" using assms(1) by (auto simp: layable_def)
  obtain b' where st: "stamp_block C ?b sb shape agno agblock 0 ?n = Inr b'"
    using stamp_block_spec [of sb ?b shape magic C agno agblock 0 ?n] magic lb sp(2) by auto
  have room: "unat ?n \<le> maxrecs (length ?b - ?h) (entry_width shape 0)"
    using assms(2) n lb by (simp add: entry_width_def per_leaf_def sp)
  note ps = parse_stamped [OF st _ magic(2,1) room]
  have h: "?h \<le> length ?b" using lb sp(2) by simp
  have "take (len * length rs) (drop ?h b') = take (len * length rs) (drop ?h ?b)" using ps(2) [OF h] by simp
  also have "\<dots> = concat (map image rs)" using fit by (intro take_drop_blit_same) (simp_all add: length_images)
  finally have "read_records dec len ?h (length rs) b' = Inr rs" using ps(1) [OF h] lb fit assms(3) by (intro read_records_images) simp_all
  then have "leaf_step C sb shape agno read dec agblock rs" if "read agblock = Inr b'" for read
    using that ps(1,3) [OF h] lb fit n by (simp add: leaf_step_def record_width mult.commute)
  then show ?thesis using w st lb by blast
qed

lemma leaves_built:
  assumes "layable sb shape" "\<forall>c \<in> set counts. c \<le> per_leaf sb shape" "\<forall>r \<in> set records. valid r"
    "i + length counts \<le> length blocks" "taken + sum_list counts \<le> length records"
  shows "\<exists>out. build_leaves C sb shape agno enc records blocks counts i taken = Inr (out, taken + sum_list counts) \<and>
    map bt_agblock out = take (length counts) (drop i blocks) \<and> (\<forall>b \<in> set out. stamped C sb shape agno b) \<and>
    (\<forall>read. finds read out \<longrightarrow>
       list_all2 (leaf_step C sb shape agno read dec) (take (length counts) (drop i blocks)) (parts_of counts (drop taken records)))"
  using assms(2,4,5)
proof (induction counts arbitrary: i taken)
  case Nil
  then show ?case by simp
next
  case (Cons c cs)
  let ?rs = "take c (drop taken records)"
  have lc: "length ?rs = c" using Cons.prems(3) by simp
  have v: "\<forall>r \<in> set ?rs. valid r" using assms(3) by (meson in_set_dropD in_set_takeD)
  from leaf_built [OF assms(1) _ v, of C agno "blocks ! i"] obtain b b' where
    w: "write_records enc len (short_header (is_v5 sb)) ?rs (replicate (unat (sb_blocksize sb)) 0) = Inr b" "length b = unat (sb_blocksize sb)"
    "stamp_block C b sb shape agno (blocks ! i) 0 (of_nat c) = Inr b'"
    "\<forall>read. read (blocks ! i) = Inr b' \<longrightarrow> leaf_step C sb shape agno read dec (blocks ! i) ?rs"
    using lc Cons.prems(1) by auto
  from Cons.IH [of "i + 1" "taken + c"] Cons.prems obtain out where
    ih: "build_leaves C sb shape agno enc records blocks cs (i + 1) (taken + c) = Inr (out, taken + c + sum_list cs)"
    "map bt_agblock out = take (length cs) (drop (i + 1) blocks)" "\<forall>b \<in> set out. stamped C sb shape agno b"
    "\<forall>read. finds read out \<longrightarrow> list_all2 (leaf_step C sb shape agno read dec) (take (length cs) (drop (i + 1) blocks)) (parts_of cs (drop (taken + c) records))"
    by auto
  have d: "drop i blocks = blocks ! i # drop (i + 1) blocks" using Cons.prems(2) by (simp add: Cons_nth_drop_Suc)
  have "stamped C sb shape agno \<lparr>bt_agblock = blocks ! i, bt_bytes = b'\<rparr>" using w(2,3) by (auto simp: stamped_def)
  then show ?case
    using w ih Cons.prems d by (auto simp: record_width add.commute)
qed

end

text \<open>The pairs of indices that say which records lie below a row: every one non-empty and inside the records.\<close>

definition spans_ok :: "'a list \<Rightarrow> (nat \<times> nat) list \<Rightarrow> bool" where
  "spans_ok records sp \<longleftrightarrow> (\<forall>i < length sp. fst (sp ! i) < snd (sp ! i) \<and> snd (sp ! i) \<le> length records) \<and>
     (\<forall>i. Suc i < length sp \<longrightarrow> snd (sp ! i) = fst (sp ! Suc i))"

lemma spans_ok_mono:
  assumes "spans_ok records sp" "i \<le> j" "j < length sp"
  shows "fst (sp ! i) \<le> fst (sp ! j)"
  using assms(2,3)
proof (induction j)
  case (Suc j)
  show ?case
  proof (cases "i = Suc j")
    case False
    then have "fst (sp ! i) \<le> fst (sp ! j)" using Suc by simp
    moreover have "fst (sp ! j) < snd (sp ! j)" "snd (sp ! j) = fst (sp ! Suc j)"
      using assms(1) Suc.prems(2) Suc_lessD unfolding spans_ok_def by blast+
    ultimately show ?thesis by simp
  qed simp
qed simp

lemma spans_leaves:
  "\<forall>c \<in> set counts. 0 < c \<Longrightarrow> running + sum_list counts \<le> length records \<Longrightarrow>
     spans_ok records (spans running counts) \<and> length (spans running counts) = length counts \<and>
     (counts \<noteq> [] \<longrightarrow> fst (spans running counts ! 0) = running)"
proof (induction counts arbitrary: running)
  case Nil
  then show ?case by (simp add: spans_ok_def)
next
  case (Cons c cs)
  then have ih: "spans_ok records (spans (running + c) cs)" "length (spans (running + c) cs) = length cs"
    "cs \<noteq> [] \<Longrightarrow> fst (spans (running + c) cs ! 0) = running + c" by (simp_all add: add.assoc)
  have "snd (((running, running + c) # spans (running + c) cs) ! i) = fst (((running, running + c) # spans (running + c) cs) ! Suc i)"
    if "i < length cs" for i
  proof (cases i)
    case 0
    then show ?thesis using ih(3) that by auto
  next
    case (Suc k)
    then show ?thesis using ih(1,2) that by (simp add: spans_ok_def)
  qed
  moreover have "fst (((running, running + c) # spans (running + c) cs) ! i) < snd (((running, running + c) # spans (running + c) cs) ! i) \<and>
      snd (((running, running + c) # spans (running + c) cs) ! i) \<le> length records" if "i < Suc (length cs)" for i
    using ih(1,2) that Cons.prems by (cases i) (simp_all add: spans_ok_def)
  ultimately show ?case using ih(2) by (simp add: spans_ok_def)
qed

lemma row_grows: "take (4 * (j + 1)) (drop p b) = take (4 * j) (drop p b) @ take 4 (drop (p + j * 4) b)"
  using take_add [of "4 * j" 4 "drop p b"] by (simp add: mult.commute add.commute)

context tree_codec
begin

abbreviation kw where "kw \<equiv> keys_per_entry shape * sh_key_len shape"

text \<open>The keys go before the pointers, and the pointers are a row of block numbers.\<close>

lemma entries_built:
  assumes "j + n \<le> per" "child + n \<le> length sp" "length sp = length below" "spans_ok records sp"
    "header + per * kw + per * PTR_LEN \<le> length buf"
  shows "\<exists>b. node_entries shape header per write_keys records sp below j child n buf = Inr b \<and> length b = length buf \<and>
    take (4 * (j + n)) (drop (header + per * kw) b) =
      take (4 * j) (drop (header + per * kw) buf) @ concat (map be_bytes32 (take n (drop child below)))"
  using assms(1,2,5)
proof (induction n arbitrary: j child buf)
  case 0
  then show ?case by simp
next
  case (Suc n)
  let ?P = "header + per * kw"
  obtain lo hi where at: "sp ! child = (lo, hi)" by force
  have s: "lo < hi" "hi \<le> length records"
    using assms(4) at Suc.prems(2) unfolding spans_ok_def by (metis fst_conv snd_conv Suc_le_lessD add_Suc_right le_add1 le_trans less_eq_Suc_le not_less_eq_eq)+
  let ?rs = "take (hi - lo) (drop lo records)"
  have ne: "?rs \<noteq> []" using s by auto
  have "j * kw + kw \<le> per * kw" using Suc.prems(1) by (metis add.commute add_leD1 add_Suc_right add_Suc mult_Suc mult_le_mono1 Suc_leI less_eq_Suc_le)
  then have k: "header + j * kw + kw \<le> ?P" by simp
  have "?P \<le> length buf" using Suc.prems(3) by simp
  let ?b1 = "blit buf (header + j * kw) (key_image ?rs)"
  have w: "write_keys buf (header + j * kw) ?rs = Inr ?b1" using keys_blit [OF ne] k Suc.prems(3) by simp
  have l1: "length ?b1 = length buf" using key_len [OF ne] k Suc.prems(3) by simp
  let ?p = "be_bytes32 (below ! child)" and ?at = "?P + j * PTR_LEN"
  let ?b2 = "blit ?b1 ?at ?p"
  have pfit: "?at + 4 \<le> length buf" using Suc.prems(1,3) by (simp add: PTR_LEN_def)
  then have l2: "length ?b2 = length buf" using l1 by simp
  have put: "put ?b1 ?at ?p = Inr ?b2" using pfit l1 by (simp add: put_ok)
  from Suc.IH [of "j + 1" "child + 1" ?b2] Suc.prems l2 obtain b where
    ih: "node_entries shape header per write_keys records sp below (j + 1) (child + 1) n ?b2 = Inr b" "length b = length buf"
    "take (4 * (j + 1 + n)) (drop ?P b) = take (4 * (j + 1)) (drop ?P ?b2) @ concat (map be_bytes32 (take n (drop (child + 1) below)))"
    by auto
  have "take (4 * (j + 1)) (drop ?P ?b2) = take (4 * j) (drop ?P ?b2) @ take 4 (drop ?at ?b2)"
    unfolding PTR_LEN_def by (rule row_grows)
  also have "take 4 (drop ?at ?b2) = ?p" using pfit l1 by (intro take_drop_blit_same) simp_all
  also have "take (4 * j) (drop ?P ?b2) = take (4 * j) (drop ?P ?b1)"
    using pfit l1 by (intro take_drop_blit_other) (simp_all add: PTR_LEN_def)
  also have "\<dots> = take (4 * j) (drop ?P buf)"
    using key_len [OF ne] k Suc.prems(3) by (intro take_drop_blit_other) simp_all
  finally have row: "take (4 * (j + 1)) (drop ?P ?b2) = take (4 * j) (drop ?P buf) @ ?p" .
  have d: "drop child below = below ! child # drop (child + 1) below" using Suc.prems(2) assms(3) by (simp add: Cons_nth_drop_Suc)
  have "node_entries shape header per write_keys records sp below j child (Suc n) buf = Inr b"
    using at s w put ih(1) Suc.prems(2) assms(3) by (simp add: Let_def)
  then show ?case using ih(2,3) row d by simp
qed

end

lemma covers_last: "covers leaf node level bs rs rows \<Longrightarrow> last rows = bs \<and> rows \<noteq> []"
  by (induction rule: covers.induct) auto

text \<open>The levels above a row of a given length, as the plan has them.\<close>

fun rising :: "nat \<Rightarrow> nat \<Rightarrow> nat list \<Rightarrow> bool" where
  "rising per m [] \<longleftrightarrow> True"
| "rising per m (n # ns) \<longleftrightarrow> n = div_ceil m per \<and> 1 < m \<and> rising per n ns"

lemma share_row:
  assumes "0 < m" "0 < per" "c \<in> set (share m (div_ceil m per))"
  shows "0 < c \<and> c \<le> per"
proof -
  note p = assms(2)
  have n: "0 < div_ceil m per" "div_ceil m per \<le> m" using div_ceil_pos [OF assms(1) p] ceil_le [OF p] by auto
  then have "0 < m div div_ceil m per" by (simp add: div_greater_zero_iff)
  then show ?thesis using share_even(1) [OF assms(3)] share_fits [OF assms(3) ceil_mult(1) [OF p] n(1)] by linarith
qed

context tree_codec
begin

lemma node_built:
  fixes C :: crc_crate
  assumes "layable sb shape" "count \<le> per_node sb shape" "taken + count \<le> length below" "length sp = length below" "spans_ok records sp" "Suc level < 65536"
  shows "\<exists>b b'. node_entries shape (short_header (is_v5 sb)) (per_node sb shape) write_keys records sp below 0 taken count
        (replicate (unat (sb_blocksize sb)) 0) = Inr b \<and> length b = unat (sb_blocksize sb) \<and>
    stamp_block C b sb shape agno agblock (of_nat (Suc level)) (of_nat count) = Inr b' \<and>
    (\<forall>read. read agblock = Inr b' \<longrightarrow> node_step C sb shape agno read dec level agblock (take count (drop taken below)))"
proof -
  let ?h = "short_header (is_v5 sb)" and ?bs = "unat (sb_blocksize sb)" and ?pn = "per_node sb shape" and ?kids = "take count (drop taken below)"
  let ?l = "of_nat (Suc level) :: u16" and ?n = "of_nat count :: u16"
  note sp = block_space [OF assms(1)]
  have pn: "?pn = maxrecs (?bs - ?h) (kw + PTR_LEN)" by (simp add: per_node_def node_width_def sp(1))
  have "?pn * (kw + PTR_LEN) \<le> ?bs - ?h" unfolding pn by (rule maxrecs_fits(1))
  then have fit: "?h + ?pn * kw + ?pn * PTR_LEN \<le> ?bs" using sp(2) by (simp add: algebra_simps)
  have lk: "length ?kids = count" using assms(3) by simp
  from entries_built [of 0 count ?pn taken sp below records ?h "replicate ?bs 0"] assms(2-5) fit obtain b where
    e: "node_entries shape ?h ?pn write_keys records sp below 0 taken count (replicate ?bs 0) = Inr b" "length b = ?bs"
    "take (4 * count) (drop (?h + ?pn * kw) b) = concat (map be_bytes32 ?kids)" by auto
  have "?pn \<le> ?bs - ?h" unfolding pn by (rule maxrecs_fits(2))
  then have "count < 65536" using assms(2) sp(3) by linarith
  then have n: "unat ?n = count" by (simp add: unat_of_nat)
  have l: "unat ?l = Suc level" using assms(6) by (simp add: unat_of_nat del: of_nat_Suc)
  then have l0: "?l \<noteq> 0" by (metis nat.distinct(1) unat_0)
  obtain magic where magic: "shape_magic sb shape = Some magic" "length (sb_meta_uuid sb) = 16" using assms(1) by (auto simp: layable_def)
  obtain b' where st: "stamp_block C b sb shape agno agblock ?l ?n = Inr b'"
    using stamp_block_spec [of sb b shape magic C agno agblock ?l ?n] magic e(2) sp(2) by auto
  have ew: "maxrecs (length b - ?h) (entry_width shape ?l) = ?pn" using l0 e(2) by (simp add: entry_width_def node_width_def pn)
  have h: "?h \<le> length b" using e(2) sp(2) by simp
  have room: "unat ?n \<le> maxrecs (length b - ?h) (entry_width shape ?l)" unfolding ew using n assms(2) by simp
  note ps = parse_stamped [OF st h magic(2,1) room, unfolded ew]
  have "drop (?h + ?pn * kw) b' = drop (?h + ?pn * kw) b" using ps(2) by (metis add.commute drop_drop)
  then have "read_records be32 4 (?h + ?pn * kw) (length ?kids) b' = Inr ?kids"
    using e(3) ps(1) e(2) fit assms(2) lk
    by (intro word_codec.read_records_images) (simp_all add: PTR_LEN_def)
  then have "node_step C sb shape agno read dec level agblock ?kids" if "read agblock = Inr b'" for read
    using that ps(1,3) e(2) fit n l l0 lk assms(2)
    by (simp add: node_step_def Let_def mult.assoc PTR_LEN_def del: of_nat_Suc) simp
  then show ?thesis using e(1,2) st by blast
qed

end

lemma spans_ok_Cons:
  assumes "spans_ok records sp" "lo < hi" "hi \<le> length records" "sp \<noteq> [] \<Longrightarrow> hi = fst (sp ! 0)"
  shows "spans_ok records ((lo, hi) # sp)"
proof -
  have "snd (((lo, hi) # sp) ! i) = fst (((lo, hi) # sp) ! Suc i)" if "i < length sp" for i
    using assms(1,4) that by (cases i) (auto simp: spans_ok_def)
  moreover have "fst (((lo, hi) # sp) ! i) < snd (((lo, hi) # sp) ! i) \<and> snd (((lo, hi) # sp) ! i) \<le> length records" if "i < Suc (length sp)" for i
    using assms(1-3) that by (cases i) (simp_all add: spans_ok_def)
  ultimately show ?thesis by (simp add: spans_ok_def)
qed

context tree_codec
begin

lemma nodes_built:
  assumes "layable sb shape" "\<forall>c \<in> set counts. 0 < c \<and> c \<le> per_node sb shape" "length sp = length below" "spans_ok records sp" "Suc level < 65536"
    "i + length counts \<le> length blocks" "taken + sum_list counts \<le> length below"
  shows "\<exists>out this. build_nodes C sb shape agno (per_node sb shape) write_keys records blocks (Suc level) sp below counts i taken =
      Inr (out, this, take (length counts) (drop i blocks), taken + sum_list counts) \<and>
    map bt_agblock out = take (length counts) (drop i blocks) \<and> (\<forall>b \<in> set out. stamped C sb shape agno b) \<and> length this = length counts \<and> spans_ok records this \<and>
    (counts \<noteq> [] \<longrightarrow> fst (this ! 0) = fst (sp ! taken)) \<and>
    (\<forall>read. finds read out \<longrightarrow>
       list_all2 (node_step C sb shape agno read dec level) (take (length counts) (drop i blocks)) (parts_of counts (drop taken below)))"
  using assms(2,6,7)
proof (induction counts arbitrary: i taken)
  case Nil
  then show ?case by (simp add: spans_ok_def)
next
  case (Cons c cs)
  let ?kids = "take c (drop taken below)" and ?fin = "taken + c - 1"
  have c: "0 < c" "c \<le> per_node sb shape" "taken + c \<le> length below" using Cons.prems by auto
  from node_built [OF assms(1) c(2,3) assms(3-5), of C agno "blocks ! i"] obtain b b' where
    w: "node_entries shape (short_header (is_v5 sb)) (per_node sb shape) write_keys records sp below 0 taken c (replicate (unat (sb_blocksize sb)) 0) = Inr b"
    "length b = unat (sb_blocksize sb)"
    "stamp_block C b sb shape agno (blocks ! i) (of_nat (Suc level)) (of_nat c) = Inr b'"
    "\<forall>read. read (blocks ! i) = Inr b' \<longrightarrow> node_step C sb shape agno read dec level (blocks ! i) ?kids" by auto
  from Cons.IH [of "i + 1" "taken + c"] Cons.prems obtain out this where
    ih: "build_nodes C sb shape agno (per_node sb shape) write_keys records blocks (Suc level) sp below cs (i + 1) (taken + c) =
        Inr (out, this, take (length cs) (drop (i + 1) blocks), taken + c + sum_list cs)"
    "map bt_agblock out = take (length cs) (drop (i + 1) blocks)" "length this = length cs" "spans_ok records this"
    "\<forall>b \<in> set out. stamped C sb shape agno b"
    "cs \<noteq> [] \<longrightarrow> fst (this ! 0) = fst (sp ! (taken + c))"
    "\<forall>read. finds read out \<longrightarrow> list_all2 (node_step C sb shape agno read dec level) (take (length cs) (drop (i + 1) blocks)) (parts_of cs (drop (taken + c) below))"
    by (auto simp: add.assoc)
  have d: "drop i blocks = blocks ! i # drop (i + 1) blocks" using Cons.prems(2) by (simp add: Cons_nth_drop_Suc)
  have inside: "?fin < length sp" "taken < length sp" "taken \<le> ?fin" using c assms(3) by auto
  have "fst (sp ! taken) < snd (sp ! ?fin)" "snd (sp ! ?fin) \<le> length records"
    using spans_ok_mono [OF assms(4) inside(3,1)] assms(4) inside(1) by (auto simp: spans_ok_def intro: le_less_trans)
  moreover have "snd (sp ! ?fin) = fst (this ! 0)" if "this \<noteq> []"
  proof -
    have ne: "cs \<noteq> []" using that ih(3) by auto
    then have "0 < sum_list cs" using Cons.prems(1) by (cases cs) auto
    then have "Suc ?fin < length sp" using Cons.prems(3) assms(3) c(1) by auto
    then have "snd (sp ! ?fin) = fst (sp ! Suc ?fin)" using assms(4) unfolding spans_ok_def by blast
    then show ?thesis using ih(6) ne c(1) by simp
  qed
  ultimately have sok: "spans_ok records ((fst (sp ! taken), snd (sp ! ?fin)) # this)" using spans_ok_Cons [OF ih(4)] by blast
  have "build_nodes C sb shape agno (per_node sb shape) write_keys records blocks (Suc level) sp below (c # cs) i taken =
      Inr (\<lparr>bt_agblock = blocks ! i, bt_bytes = b'\<rparr> # out, (fst (sp ! taken), snd (sp ! ?fin)) # this,
        take (length (c # cs)) (drop i blocks), taken + sum_list (c # cs))"
    using w(1,3) ih(1) inside c(1) Cons.prems(2) d by (simp add: fst_def snd_def add.assoc del: of_nat_Suc)
  moreover have "drop c (drop taken below) = drop (taken + c) below" by (simp add: add.commute)
  moreover have "stamped C sb shape agno \<lparr>bt_agblock = blocks ! i, bt_bytes = b'\<rparr>" using w(2,3) by (auto simp: stamped_def)
  ultimately show ?case using ih(2,3,5,7) w(4) sok d by (simp del: drop_drop build_nodes.simps)
qed

lemma levels_built:
  assumes "layable sb shape" "2 \<le> per_node sb shape"
    "rising (per_node sb shape) (length below) levels" "0 < length below" "length sp = length below" "spans_ok records sp"
    "at + sum_list levels \<le> length blocks" "level + length levels < 65536"
  shows "\<exists>out. build_levels C sb shape agno (per_node sb shape) write_keys records blocks levels (Suc level) at sp below = Inr out \<and>
    map bt_agblock out = take (sum_list levels) (drop at blocks) \<and> (\<forall>b \<in> set out. stamped C sb shape agno b) \<and>
    (\<forall>read rs rows. finds read out \<and>
       covers (leaf_step C sb shape agno read dec) (node_step C sb shape agno read dec) level below rs rows \<longrightarrow>
       (\<exists>above. covers (leaf_step C sb shape agno read dec) (node_step C sb shape agno read dec) (level + length levels)
           (last (rows @ above)) rs (rows @ above) \<and>
         map length above = levels \<and> concat above = take (sum_list levels) (drop at blocks)))"
  using assms(3-8)
proof (induction levels arbitrary: level at sp below)
  case Nil
  have "\<exists>above. covers (leaf_step C sb shape agno read dec) (node_step C sb shape agno read dec) level (last (rows @ above)) rs (rows @ above) \<and>
      above = []" if "covers (leaf_step C sb shape agno read dec) (node_step C sb shape agno read dec) level below rs rows" for read rs rows
    using that covers_last [OF that] by simp
  then show ?case by auto
next
  case (Cons n ns)
  let ?counts = "share (length below) n" and ?row = "take n (drop at blocks)"
  have n: "n = div_ceil (length below) (per_node sb shape)" "rising (per_node sb shape) n ns" using Cons.prems(1) by auto
  have npos: "0 < n" using div_ceil_pos [OF Cons.prems(2)] n(1) assms(2) by simp
  have counts: "\<forall>c \<in> set ?counts. 0 < c \<and> c \<le> per_node sb shape" using share_row [OF Cons.prems(2), of "per_node sb shape"] assms(2) n(1) by auto
  have lt: "length ?row = n" using Cons.prems(5) by simp
  from nodes_built [OF assms(1) counts Cons.prems(3,4), of level at blocks 0 C agno] Cons.prems(5,6) sum_share [OF npos, of "length below"] obtain out sp' where
    b: "build_nodes C sb shape agno (per_node sb shape) write_keys records blocks (Suc level) sp below ?counts at 0 = Inr (out, sp', ?row, length below)"
    "map bt_agblock out = ?row" "length sp' = n" "spans_ok records sp'" "\<forall>b \<in> set out. stamped C sb shape agno b"
    "\<forall>read. finds read out \<longrightarrow> list_all2 (node_step C sb shape agno read dec level) ?row (parts_of ?counts below)" by auto
  have r: "rising (per_node sb shape) (length ?row) ns" using n(2) lt by simp
  from Cons.IH [OF r, of sp' "at + n" "Suc level"] lt npos b(3,4) Cons.prems(5,6) obtain more where
    ih: "build_levels C sb shape agno (per_node sb shape) write_keys records blocks ns (Suc (Suc level)) (at + n) sp' ?row = Inr more"
    "map bt_agblock more = take (sum_list ns) (drop (at + n) blocks)" "\<forall>b \<in> set more. stamped C sb shape agno b"
    "\<forall>read rs rows. finds read more \<and>
       covers (leaf_step C sb shape agno read dec) (node_step C sb shape agno read dec) (Suc level) ?row rs rows \<longrightarrow>
       (\<exists>above. covers (leaf_step C sb shape agno read dec) (node_step C sb shape agno read dec) (Suc level + length ns)
           (last (rows @ above)) rs (rows @ above) \<and>
         map length above = ns \<and> concat above = take (sum_list ns) (drop (at + n) blocks))" by auto
  have all: "take (n + sum_list ns) (drop at blocks) = ?row @ take (sum_list ns) (drop (at + n) blocks)"
    by (simp add: take_add add.commute)
  have up: "\<exists>above. covers (leaf_step C sb shape agno read dec) (node_step C sb shape agno read dec) (level + length (n # ns))
        (last (rows @ above)) rs (rows @ above) \<and>
      map length above = n # ns \<and> concat above = take (sum_list (n # ns)) (drop at blocks)"
    if f: "finds read (out @ more)" and cov: "covers (leaf_step C sb shape agno read dec) (node_step C sb shape agno read dec) level below rs rows" for read rs rows
  proof -
    have "concat (parts_of ?counts below) = below" by (simp add: concat_parts_of sum_share [OF npos])
    then have "covers (leaf_step C sb shape agno read dec) (node_step C sb shape agno read dec) (Suc level) ?row rs (rows @ [?row])"
      using covers.nodes [of "node_step C sb shape agno read dec" level ?row "parts_of ?counts below"] b(6) f cov by simp
    then obtain above where a: "covers (leaf_step C sb shape agno read dec) (node_step C sb shape agno read dec) (Suc level + length ns)
           (last ((rows @ [?row]) @ above)) rs ((rows @ [?row]) @ above)"
         "map length above = ns" "concat above = take (sum_list ns) (drop (at + n) blocks)" using ih(4) f by (metis finds_simps(3))
    then show ?thesis using lt all by (intro exI [of _ "?row # above"]) simp
  qed
  have "\<forall>b \<in> set (out @ more). stamped C sb shape agno b" using b(5) ih(3) by auto
  then show ?case using b(1,2) ih(1,2) all up by simp
qed

end

lemma rising_nth:
  assumes "\<forall>i. Suc i < length (m # ns) \<longrightarrow> (m # ns) ! Suc i = div_ceil ((m # ns) ! i) per \<and> 1 < (m # ns) ! i"
  shows "rising per m ns"
  using assms
proof (induction ns arbitrary: m)
  case (Cons n ns)
  have "n = div_ceil m per \<and> 1 < m" using Cons.prems [rule_format, of 0] by simp
  moreover have "rising per n ns"
  proof (rule Cons.IH, intro allI impI)
    fix i
    assume "Suc i < length (n # ns)"
    then show "(n # ns) ! Suc i = div_ceil ((n # ns) ! i) per \<and> 1 < (n # ns) ! i" using Cons.prems [rule_format, of "Suc i"] by simp
  qed
  ultimately show ?case by simp
qed simp

lemma add_rows_blank: "length rows = n \<Longrightarrow> add_rows (replicate n []) rows = rows"
  by (rule nth_equalityI) (simp_all add: add_rows_def)

lemma last_row:
  assumes "concat rows = blocks" "rows \<noteq> []" "length (last rows) = 1"
  shows "last rows = [last blocks]"
proof -
  obtain b where b: "last rows = [b]" using assms(3) by (auto simp: length_Suc_conv)
  then have "blocks = concat (butlast rows) @ [b]" using assms(1,2) by (metis append_butlast_last_id concat_append concat.simps append_Nil2)
  then show ?thesis using b by simp
qed

context tree_codec
begin

text \<open>What the walk finds where a tree was built.\<close>

lemma covers_walk:
  assumes "covers (leaf_step C sb shape agno read dec) (node_step C sb shape agno read dec) level (last rows) rs rows"
    "map length rows = levels" "last levels = 1" "concat rows = blocks" "length blocks \<le> walk_budget sb" "length levels \<le> MAX_LEVELS"
  shows "walk_blocks C sb shape agno (last blocks) (of_nat (length levels)) read dec = Inr (rs, blocks)"
proof -
  have l: "length rows = Suc level" using assms(1) covers_length by blast
  then have ne: "rows \<noteq> []" by auto
  have len: "length levels = Suc level" using assms(2) l by auto
  then have small: "level < 9" using assms(6) by (simp add: MAX_LEVELS_def)
  have top: "last rows = [last blocks]"
    using last_row [OF assms(4) ne] assms(2,3) ne by (metis last_map)
  have total: "sum_list (map length rows) = length blocks" using assms(4) by (auto simp: length_concat)
  have u: "unat (of_nat (length levels) :: u32) = Suc level" using len small by (simp add: unat_of_nat del: of_nat_Suc)
  have "ucast (of_nat (length levels) - 1 :: u32) = (of_nat level :: u16)"
  proof -
    have "unat (of_nat (length levels) - 1 :: u32) = level" using u by (subst unat_sub_le) auto
    then show ?thesis by (metis of_nat_unat)
  qed
  then have "tree_loop C sb shape agno read dec (walk_budget sb) [] (replicate (Suc level) [])
      [(last blocks, ucast (of_nat (length levels) - 1 :: u32))] = Inr (rs, rows)"
    using walk_row [OF assms(1), of "replicate (Suc level) []" "walk_budget sb" "[]" "[]"] total assms(5) l top add_rows_blank [OF l] by simp
  moreover have "(of_nat (length levels) :: u32) \<noteq> 0" using u by (metis nat.distinct(1) unat_0)
  ultimately show ?thesis using u assms(4) small by (simp add: walk_blocks_def MAX_LEVELS_def)
qed

lemma build_walk:
  assumes "layable sb shape" "plan shape (sb_blocksize sb) (is_v5 sb) (length records) = Inr levels" "length blocks = sum_list levels"
    "length blocks \<le> walk_budget sb" "\<forall>r \<in> set records. valid r"
  shows "\<exists>built. build C sb shape agno records blocks enc write_keys = Inr built \<and> map bt_agblock built = blocks \<and> (\<forall>b \<in> set built. stamped C sb shape agno b) \<and>
    (\<forall>read. finds read built \<longrightarrow>
       walk_blocks C sb shape agno (last blocks) (of_nat (length levels)) read dec = Inr (records, blocks))"
proof -
  let ?pl = "per_leaf sb shape" and ?pn = "per_node sb shape"
  note pp = plan_planned [OF assms(2)]
  obtain n ns where lv: "levels = n # ns" using pp(3) by (cases levels) (auto simp: planned_def)
  have n: "n = max (div_ceil (length records) ?pl) 1" and ends: "last levels = 1" "length levels \<le> MAX_LEVELS"
    and rise: "rising ?pn n ns" using pp(3) lv rising_nth [of n ns ?pn] by (auto simp: planned_def)
  have npos: "0 < n" using n by simp
  let ?counts = "share (length records) n" and ?row = "take n blocks"
  have "length records \<le> n * ?pl" using div_ceil_iff [OF pp(1), of "length records" n] n by simp
  then have fit: "\<forall>c \<in> set ?counts. c \<le> ?pl" using share_fits npos by blast
  have lr: "length ?row = n" using assms(3) lv by simp
  from leaves_built [OF assms(1) fit assms(5), of 0 blocks 0 C agno] assms(3) lv sum_share [OF npos, of "length records"] obtain leaves where
    lf: "build_leaves C sb shape agno enc records blocks ?counts 0 0 = Inr (leaves, length records)" "map bt_agblock leaves = ?row" "\<forall>b \<in> set leaves. stamped C sb shape agno b"
    "\<forall>read. finds read leaves \<longrightarrow> list_all2 (leaf_step C sb shape agno read dec) ?row (parts_of ?counts records)" by auto
  have "concat (parts_of ?counts records) = records" by (simp add: concat_parts_of sum_share [OF npos])
  then have base: "covers (leaf_step C sb shape agno read dec) (node_step C sb shape agno read dec) 0 ?row records [?row]" if "finds read leaves" for read
    using covers.leaves [of "leaf_step C sb shape agno read dec" ?row "parts_of ?counts records"] lf(4) that by simp
  have "\<exists>nodes. build_levels C sb shape agno ?pn write_keys records blocks ns 1 n (spans 0 ?counts) ?row = Inr nodes \<and>
    map bt_agblock nodes = drop n blocks \<and> (\<forall>b \<in> set nodes. stamped C sb shape agno b) \<and>
    (\<forall>read. finds read nodes \<and> finds read leaves \<longrightarrow>
       (\<exists>rows. covers (leaf_step C sb shape agno read dec) (node_step C sb shape agno read dec) (length ns) (last rows) records rows \<and>
         map length rows = levels \<and> concat rows = blocks))"
  proof (cases ns)
    case Nil
    then have "?row = blocks" using assms(3) lv by simp
    then show ?thesis using Nil base lv lr by (auto intro!: exI [of _ "[blocks]"])
  next
    case (Cons n2 ns2)
    then have "1 < n" using rise by simp
    then have nd: "n = div_ceil (length records) ?pl" and m: "0 < length records"
      using n by (auto simp: div_ceil_def max_def split: if_splits)
    have pos: "\<forall>c \<in> set ?counts. 0 < c" using share_row [OF m pp(1)] nd by blast
    have sok: "spans_ok records (spans 0 ?counts)" "length (spans 0 ?counts) = length ?row"
      using spans_leaves [OF pos, of 0 records] sum_share [OF npos, of "length records"] lr by auto
    have "rising ?pn (length ?row) ns" "0 < length ?row" "n + sum_list ns \<le> length blocks" "0 + length ns < 65536"
      using rise lr npos assms(3) lv ends(2) by (simp_all add: MAX_LEVELS_def)
    from levels_built [OF assms(1) pp(2) this(1,2) sok(2,1) this(3,4), of C agno] obtain nodes where
      nd: "build_levels C sb shape agno ?pn write_keys records blocks ns (Suc 0) n (spans 0 ?counts) ?row = Inr nodes"
      "map bt_agblock nodes = take (sum_list ns) (drop n blocks)" "\<forall>b \<in> set nodes. stamped C sb shape agno b"
      "\<forall>read rs rows. finds read nodes \<and>
         covers (leaf_step C sb shape agno read dec) (node_step C sb shape agno read dec) 0 ?row rs rows \<longrightarrow>
         (\<exists>above. covers (leaf_step C sb shape agno read dec) (node_step C sb shape agno read dec) (0 + length ns)
             (last (rows @ above)) rs (rows @ above) \<and> map length above = ns \<and> concat above = take (sum_list ns) (drop n blocks))"
      by (elim exE conjE) (rule that)
    have rest: "take (sum_list ns) (drop n blocks) = drop n blocks" using assms(3) lv by simp
    have "\<exists>rows. covers (leaf_step C sb shape agno read dec) (node_step C sb shape agno read dec) (length ns) (last rows) records rows \<and>
         map length rows = levels \<and> concat rows = blocks" if f: "finds read nodes" "finds read leaves" for read
    proof -
      from nd(4) f base [OF f(2)] obtain above where
        "covers (leaf_step C sb shape agno read dec) (node_step C sb shape agno read dec) (0 + length ns) (last ([?row] @ above)) records ([?row] @ above)"
        "map length above = ns" "concat above = drop n blocks" unfolding rest by blast
      then show ?thesis using lv lr by (intro exI [of _ "[?row] @ above"]) simp
    qed
    then show ?thesis using nd(1-3) rest by auto
  qed
  then obtain nodes where nd: "build_levels C sb shape agno ?pn write_keys records blocks ns 1 n (spans 0 ?counts) ?row = Inr nodes"
    "map bt_agblock nodes = drop n blocks" "\<forall>b \<in> set nodes. stamped C sb shape agno b"
    "\<forall>read. finds read nodes \<and> finds read leaves \<longrightarrow>
       (\<exists>rows. covers (leaf_step C sb shape agno read dec) (node_step C sb shape agno read dec) (length ns) (last rows) records rows \<and>
         map length rows = levels \<and> concat rows = blocks)" by (elim exE conjE) (rule that)
  have "build C sb shape agno records blocks enc write_keys = Inr (leaves @ nodes)"
    using assms(2,3) lv lf(1) nd(1) by (simp add: build_def per_node_def Let_def)
  moreover have "walk_blocks C sb shape agno (last blocks) (of_nat (length levels)) read dec = Inr (records, blocks)" if "finds read (leaves @ nodes)" for read
  proof -
    obtain rows where rows: "covers (leaf_step C sb shape agno read dec) (node_step C sb shape agno read dec) (length ns) (last rows) records rows"
      "map length rows = levels" "concat rows = blocks" using nd(4) \<open>finds read (leaves @ nodes)\<close> by auto
    show ?thesis by (rule covers_walk [OF rows(1,2) ends(1) rows(3) assms(4) ends(2)])
  qed
  moreover have "\<forall>b \<in> set (leaves @ nodes). stamped C sb shape agno b" using lf(3) nd(3) by auto
  ultimately show ?thesis using lf(2) nd(2) by (intro exI [of _ "leaves @ nodes"]) (simp add: append_take_drop_id)
qed

end

section \<open>The walk of anything\<close>

text \<open>A block that is parsed is at the level asked for, and its entries lie inside it; parsing does not panic.\<close>

lemma parse_block_level:
  assumes "parse_block C buf sb shape agno agblock level = Inr node"
  shows "nd_level node = level" "nd_body node \<le> length buf"
  using assms by (auto simp: parse_block_def Let_def rbind_eq_Inr split: if_splits option.splits)

lemma block_identity_no_panic: "56 \<le> length buf \<Longrightarrow> \<not> panics (block_identity C buf sb agno agblock)"
  by (simp add: block_identity_def read_ok crc32c_with_zeroed_crc_def slice_def panics_def)

lemma parse_block_no_panic: "\<not> panics (parse_block C buf sb shape agno agblock level)"
proof (cases "length buf < short_header (is_v5 sb)")
  case True
  then show ?thesis by (simp add: parse_block_def panics_def)
next
  case False
  then have "16 \<le> length buf" "is_v5 sb \<Longrightarrow> 56 \<le> length buf"
    by (simp_all add: short_header_def SHORT_V5_HEADER_LEN_def SHORT_V4_HEADER_LEN_def split: if_splits)
  then show ?thesis using False block_identity_no_panic [of buf C sb agno agblock]
    by (auto simp: parse_block_def Let_def read_ok panics_def rbind_eq_Inl split: if_splits option.splits)
qed

lemma top_level:
  assumes "\<not> (levels = 0 \<or> MAX_LEVELS < unat levels)"
  shows "unat (ucast (levels - 1) :: u16) = unat (levels :: u32) - 1" "0 < unat levels"
proof -
  have "unat levels < 65536" "0 < unat levels" using assms by (simp_all add: MAX_LEVELS_def unat_gt_0)
  then have "unat (levels - 1) = unat levels - 1" by (subst unat_sub_le) auto
  then have "ucast (levels - 1) = (of_nat (unat levels - 1) :: u16)" by (metis of_nat_unat)
  then show "unat (ucast (levels - 1) :: u16) = unat levels - 1" using \<open>unat levels < 65536\<close> by (simp only: unat_of_nat) simp
  show "0 < unat levels" by fact
qed

context tree_codec
begin

lemma tree_loop_safe:
  assumes "\<And>b. \<not> panics (read b)" "\<forall>(b, l) \<in> set stack. unat l < length seen"
  shows "case tree_loop C sb shape agno read dec budget out seen stack of
      Inl e \<Rightarrow> e \<noteq> Panic
    | Inr (rs, seen') \<Rightarrow> length seen' = length seen \<and> sum_list (map length seen') \<le> sum_list (map length seen) + budget"
  using assms(2)
proof (induction budget arbitrary: out seen stack)
  case 0
  then show ?case by (cases stack) auto
next
  case (Suc budget)
  show ?case
  proof (cases stack)
    case Nil
    then show ?thesis by simp
  next
    case (Cons entry rest)
    obtain b l where bl: "entry = (b, l)" by (cases entry) auto
    have l: "unat l < length seen" and rest: "\<forall>(b, l) \<in> set rest. unat l < length seen" using Suc.prems Cons bl by auto
    let ?seen = "seen[unat l := seen ! unat l @ [b]]"
    have one: "sum_list (map length ?seen) = sum_list (map length seen) + 1"
      using l by (simp add: map_update sum_list_update)
    show ?thesis
    proof (cases "read b")
      case (Inl e)
      then show ?thesis using assms(1) [of b] Cons bl by (auto simp: panics_def)
    next
      case (Inr buf)
      show ?thesis
      proof (cases "parse_block C buf sb shape agno b l")
        case (Inl e)
        then show ?thesis using parse_block_no_panic [of C buf sb shape agno b l] \<open>read b = Inr buf\<close> Cons bl by (auto simp: panics_def)
      next
        case node: (Inr node)
        have lev: "nd_level node = l" using parse_block_level [OF node] by simp
        let ?n = "unat (nd_numrecs node)" and ?at = "nd_body node + nd_maxrecs node * keys_per_entry shape * sh_key_len shape"
        consider "l = 0" "length buf < nd_body node + ?n * len" | e where "l = 0" "\<not> length buf < nd_body node + ?n * len" "read_records dec len (nd_body node) ?n buf = Inl e" "e \<noteq> Panic"
          | rs where "l = 0" "\<not> length buf < nd_body node + ?n * len" "read_records dec len (nd_body node) ?n buf = Inr rs"
          | "l \<noteq> 0" "length buf < ?at + ?n * PTR_LEN" | ps where "l \<noteq> 0" "\<not> length buf < ?at + ?n * PTR_LEN" "read_records be32 PTR_LEN ?at ?n buf = Inr ps"
        proof (cases "l = 0")
          case True
          then show ?thesis using that(1-3) read_records_safe [of "nd_body node" ?n buf]
            by (cases "length buf < nd_body node + ?n * len"; cases "read_records dec len (nd_body node) ?n buf") (auto simp: mult.commute)
        next
          case False
          then show ?thesis using that(4,5) read_records_total [of 4 buf be32 ?at ?n]
            by (cases "length buf < ?at + ?n * PTR_LEN") (auto simp: mult.commute PTR_LEN_def read_ok)
        qed
        then show ?thesis
        proof cases
          case 1
          then show ?thesis using \<open>read b = Inr buf\<close> node Cons bl lev l by (simp add: Let_def record_width)
        next
          case (2 e)
          then show ?thesis using \<open>read b = Inr buf\<close> node Cons bl lev l by (simp add: Let_def record_width)
        next
          case (3 rs)
          then have "tree_loop C sb shape agno read dec (Suc budget) out seen stack = tree_loop C sb shape agno read dec budget (out @ rs) ?seen rest"
            using \<open>read b = Inr buf\<close> node Cons bl lev l by (simp add: Let_def record_width)
          then show ?thesis using Suc.IH [of rest ?seen "out @ rs"] rest one by (auto split: sum.splits)
        next
          case 4
          then show ?thesis using \<open>read b = Inr buf\<close> node Cons bl lev l by (simp add: Let_def)
        next
          case (5 ps)
          have "unat (l - 1) \<le> unat l" using 5(1) by (subst unat_sub_le) (auto simp: unat_gt_0 Suc_le_eq)
          then have deep: "\<forall>(b, l) \<in> set (map (\<lambda>p. (p, l - 1)) ps @ rest). unat l < length ?seen" using l rest by auto
          have "tree_loop C sb shape agno read dec (Suc budget) out seen stack =
              tree_loop C sb shape agno read dec budget out ?seen (map (\<lambda>p. (p, l - 1)) ps @ rest)"
            using 5 \<open>read b = Inr buf\<close> node Cons bl lev l by (simp add: Let_def)
          then show ?thesis using Suc.IH [OF deep, of out] one by (auto split: sum.splits)
        qed
      qed
    qed
  qed
qed

lemma walk_safe:
  assumes "\<And>b. \<not> panics (read b)"
  shows "case walk_blocks C sb shape agno root levels read dec of
      Inl e \<Rightarrow> e \<noteq> Panic | Inr (rs, blocks) \<Rightarrow> length blocks \<le> walk_budget sb"
proof (cases "levels = 0 \<or> MAX_LEVELS < unat levels")
  case True
  then show ?thesis by (simp add: walk_blocks_def)
next
  case False
  then show ?thesis
    using top_level [OF False] tree_loop_safe [where read = read and stack = "[(root, ucast (levels - 1))]" and seen = "replicate (unat levels) []" and C = C and sb = sb and
        agno = agno and budget = "walk_budget sb" and out = "[]", OF assms] False
    by (auto simp: walk_blocks_def length_concat unat_gt_0 sum_list_replicate split: sum.splits prod.splits)
qed

end

section \<open>The plan\<close>

text \<open>How full the blocks of a level are: the entries of the level, shared over its blocks.\<close>

definition half_full :: "nat \<Rightarrow> nat \<Rightarrow> nat \<Rightarrow> nat list \<Rightarrow> bool" where
  "half_full pl pn records levels \<longleftrightarrow>
     (\<forall>i < length levels.
        let entries = (if i = 0 then records else levels ! (i - 1)); per = (if i = 0 then pl else pn)
        in sum_list (share entries (levels ! i)) = entries \<and> set (share entries (levels ! i)) \<subseteq> {..per} \<and>
           (Suc i < length levels \<longrightarrow> set (share entries (levels ! i)) \<subseteq> {per div 2..}))"

lemma planned_half_full:
  assumes "0 < pl" "2 \<le> pn" "planned pl pn records levels"
  shows "half_full pl pn records levels"
  unfolding half_full_def Let_def
proof (intro allI impI)
  fix i
  assume i: "i < length levels"
  let ?e = "if i = 0 then records else levels ! (i - 1)" and ?p = "if i = 0 then pl else pn"
  have p: "0 < ?p" using assms(1,2) by simp
  have pos: "0 < levels ! i" and up: "levels ! i = (if i = 0 then max (div_ceil ?e ?p) 1 else div_ceil ?e ?p)"
  proof -
    show eq: "levels ! i = (if i = 0 then max (div_ceil ?e ?p) 1 else div_ceil ?e ?p)"
      using assms(3) i by (cases i) (simp_all add: planned_def)
    have "1 < levels ! (i - 1)" if "i \<noteq> 0" using assms(3) i that by (cases i) (simp_all add: planned_def)
    then show "0 < levels ! i" unfolding eq using div_ceil_pos [of ?e ?p] assms(2) by (auto simp: less_max_iff_disj)
  qed
  have "?e \<le> levels ! i * ?p" using div_ceil_iff [OF p, of ?e "levels ! i"] up by auto
  then have "set (share ?e (levels ! i)) \<subseteq> {..?p}" using share_fits pos by (metis (no_types, lifting) atMost_iff subsetI)
  moreover have "set (share ?e (levels ! i)) \<subseteq> {?p div 2..}" if "Suc i < length levels"
  proof -
    have big: "1 < levels ! i" using assms(3) that by (simp add: planned_def)
    then have eq: "levels ! i = div_ceil ?e ?p" using up by (auto simp: max_def split: if_splits)
    show ?thesis using share_half_full [of _ ?e ?p] p big unfolding eq by blast
  qed
  ultimately show "sum_list (share ?e (levels ! i)) = ?e \<and> set (share ?e (levels ! i)) \<subseteq> {..?p} \<and>
      (Suc i < length levels \<longrightarrow> set (share ?e (levels ! i)) \<subseteq> {?p div 2..})" using sum_share [OF pos] by blast
qed

text \<open>C14. The plan of a tree is the smallest there is: it has as few leaves as hold the records and above them as few nodes as
  hold the pointers, up to one root, within nine levels; the entries of every level are all shared out, no block is over
  full and every block below the root is at least half full; and it is refused only where a block cannot make a tree or
  where nine levels cannot hold the records.\<close>

theorem plan_correct:
  "case plan shape (sb_blocksize sb) (is_v5 sb) records of
     Inl e \<Rightarrow> per_leaf sb shape = 0 \<or> per_node sb shape < 2 \<or> per_leaf sb shape * per_node sb shape ^ 8 < records
   | Inr levels \<Rightarrow> planned (per_leaf sb shape) (per_node sb shape) records levels \<and> half_full (per_leaf sb shape) (per_node sb shape) records levels"
proof (cases "plan shape (sb_blocksize sb) (is_v5 sb) records")
  case (Inr levels)
  then show ?thesis using plan_planned [OF Inr] planned_half_full by simp
next
  case (Inl e)
  let ?l = "per_leaf sb shape" and ?n = "per_node sb shape"
  have "?l * ?n ^ 8 < records" if "?l \<noteq> 0" "2 \<le> ?n"
  proof -
    have "plan_loop ?n [max (div_ceil records ?l) 1] = Inl e" using Inl that by (auto simp: plan_def per_leaf_def per_node_def Let_def split: if_splits)
    from plan_loop_refused [OF this] that have "?n ^ 8 < max (div_ceil records ?l) 1" by (simp add: MAX_LEVELS_def)
    moreover have "0 < ?n ^ 8" using that(2) by simp
    ultimately have "\<not> div_ceil records ?l \<le> ?n ^ 8" by (auto simp: max_def split: if_splits)
    then show ?thesis using div_ceil_iff [of ?l records "?n ^ 8"] that(1) by (simp add: mult.commute not_le)
  qed
  then show ?thesis using Inl by (cases "2 \<le> ?n") auto
qed

end
