(* ===== verification/GroupTrees.thy ===== *)
theory GroupTrees
  imports GroupAlloc AgBtree
begin

unbundle bit_operations_syntax

text \<open>
  A group opened and closed again (\<^verbatim>\<open>GroupAlloc::open\<close>, \<^verbatim>\<open>GroupAlloc::into_items\<close> and \<^verbatim>\<open>Allocations\<close> in
  \<^verbatim>\<open>src/src/group_write.rs\<close>), with the shapes of the trees it reads (\<^verbatim>\<open>Order::shape\<close> in \<^verbatim>\<open>src/src/alloc_btree.rs\<close>, \<^verbatim>\<open>shape\<close>
  in \<^verbatim>\<open>src/src/rmap.rs\<close> and \<^verbatim>\<open>src/src/refcount.rs\<close>).

  The four trees are instances of \<open>tree_codec\<close>, so what was built of any of them is walked back.  A walk of
  any bytes whatever ends without a panic.
\<close>

section \<open>The shapes of the trees\<close>

definition XFS_ABTB_MAGIC :: u32 where "XFS_ABTB_MAGIC = 0x41425442"
definition XFS_ABTB_CRC_MAGIC :: u32 where "XFS_ABTB_CRC_MAGIC = 0x41423342"
definition XFS_ABTC_MAGIC :: u32 where "XFS_ABTC_MAGIC = 0x41425443"
definition XFS_ABTC_CRC_MAGIC :: u32 where "XFS_ABTC_CRC_MAGIC = 0x41423343"
definition ALLOC_RECORD_LEN :: nat where "ALLOC_RECORD_LEN = 8"
definition ALLOC_KEY_LEN :: nat where "ALLOC_KEY_LEN = 8"

fun order_magic :: "Order \<Rightarrow> bool \<Rightarrow> u32" where
  "order_magic ByBlock True = XFS_ABTB_CRC_MAGIC"
| "order_magic ByBlock False = XFS_ABTB_MAGIC"
| "order_magic ByCount True = XFS_ABTC_CRC_MAGIC"
| "order_magic ByCount False = XFS_ABTC_MAGIC"

fun order_name :: "Order \<Rightarrow> string" where
  "order_name ByBlock = ''bnobt''"
| "order_name ByCount = ''cntbt''"

definition order_shape :: "Order \<Rightarrow> Shape" where
  "order_shape order = \<lparr>sh_name = order_name order, sh_magic_v4 = Some (order_magic order False), sh_magic_v5 = order_magic order True,
     sh_record_len = ALLOC_RECORD_LEN, sh_key_len = ALLOC_KEY_LEN, sh_overlapping = False\<rparr>"

definition XFS_RMAP_CRC_MAGIC :: u32 where "XFS_RMAP_CRC_MAGIC = 0x524d4233"

definition rmap_shape :: Shape where
  "rmap_shape = \<lparr>sh_name = ''rmapbt'', sh_magic_v4 = None, sh_magic_v5 = XFS_RMAP_CRC_MAGIC,
     sh_record_len = RMAP_RECORD, sh_key_len = RMAP_KEY, sh_overlapping = True\<rparr>"

definition XFS_REFC_CRC_MAGIC :: u32 where "XFS_REFC_CRC_MAGIC = 0x52334643"
definition REFC_RECORD :: nat where "REFC_RECORD = 12"
definition REFC_KEY :: nat where "REFC_KEY = 4"

definition refcount_shape :: Shape where
  "refcount_shape = \<lparr>sh_name = ''refcountbt'', sh_magic_v4 = None, sh_magic_v5 = XFS_REFC_CRC_MAGIC,
     sh_record_len = REFC_RECORD, sh_key_len = REFC_KEY, sh_overlapping = False\<rparr>"

text \<open>The key writers: \<^verbatim>\<open>recs[0]\<close>, which panics where there is none.\<close>

definition free_keys :: "bytes \<Rightarrow> nat \<Rightarrow> FreeExtent list \<Rightarrow> bytes res" where
  "free_keys buf at recs = (case recs of [] \<Rightarrow> Inl Panic | r # _ \<Rightarrow> encode_free_extent buf at r)"

definition refcount_keys :: "bytes \<Rightarrow> nat \<Rightarrow> Refcount list \<Rightarrow> bytes res" where
  "refcount_keys buf at recs = (case recs of [] \<Rightarrow> Inl Panic | r # _ \<Rightarrow> refcount_encode_key buf at r)"

definition rmap_walk :: "crc_crate \<Rightarrow> Superblock \<Rightarrow> u32 \<Rightarrow> u32 \<Rightarrow> u32 \<Rightarrow> (u32 \<Rightarrow> bytes res) \<Rightarrow> Rmap list res" where
  "rmap_walk C sb agno root levels read = tree_walk C sb rmap_shape agno root levels read rmap_decode"

definition refcount_walk :: "crc_crate \<Rightarrow> Superblock \<Rightarrow> u32 \<Rightarrow> u32 \<Rightarrow> u32 \<Rightarrow> (u32 \<Rightarrow> bytes res) \<Rightarrow> Refcount list res" where
  "refcount_walk C sb agno root levels read = tree_walk C sb refcount_shape agno root levels read refcount_decode"

section \<open>Opening\<close>

definition group_headers :: "Superblock \<Rightarrow> u64" where
  "group_headers sb = 3 * ucast (sb_sectsize sb) div ucast (sb_blocksize sb)"

definition check_records :: "Superblock \<Rightarrow> u32 \<Rightarrow> FreeExtent list \<Rightarrow> unit res" where
  "check_records sb len records = check_runs len (group_headers sb) records"

definition refcount_check_records :: "Superblock \<Rightarrow> u32 \<Rightarrow> Refcount list \<Rightarrow> unit res" where
  "refcount_check_records sb len records = refcount_check_runs len (group_headers sb) records"

text \<open>The two free-space trees hold the same records: both lists sorted by the fields in order.\<close>

definition fe_order :: "FreeExtent \<Rightarrow> u32 \<times> u32" where
  "fe_order e = (fe_startblock e, fe_blockcount e)"

definition same_free_space :: "FreeExtent list \<Rightarrow> FreeExtent list \<Rightarrow> unit res" where
  "same_free_space by_block by_length =
     (if sort_key fe_order by_block = sort_key fe_order by_length then Inr ()
      else Inl (BadSuperblock ''the two free-space trees describe different free space''))"

record OpenGroup =
  og_alloc :: GroupAlloc
  og_ag_start :: u64
  og_before :: "u32 \<Rightarrow> bytes option"
  og_bno_blocks :: "u32 list"
  og_cnt_blocks :: "u32 list"
  og_rmap_blocks :: "u32 list"
  og_refcount_blocks :: "u32 list"
  og_agfl_raw :: bytes

definition group_start :: "Superblock \<Rightarrow> u32 \<Rightarrow> u64" where
  "group_start sb agno = ucast agno * ucast (sb_agblocks sb) * ucast (sb_blocksize sb)"

definition read_agblock :: "Superblock \<Rightarrow> dev_read \<Rightarrow> u64 \<Rightarrow> u32 \<Rightarrow> bytes res" where
  "read_agblock sb dev ag_start agblock = dev (ag_start + ucast agblock * ucast (sb_blocksize sb)) (unat (sb_blocksize sb))"

fun read_before :: "(u32 \<Rightarrow> bytes res) \<Rightarrow> u32 list \<Rightarrow> (u32 \<Rightarrow> bytes option) \<Rightarrow> (u32 \<Rightarrow> bytes option) res" where
  "read_before read [] before = Inr before"
| "read_before read (b # bs) before = rbind (read b) (\<lambda>raw. read_before read bs (before(b \<mapsto> raw)))"

definition open_rmap :: "crc_crate \<Rightarrow> Superblock \<Rightarrow> u32 \<Rightarrow> Agf \<Rightarrow> (u32 \<Rightarrow> bytes res) \<Rightarrow> (Rmap list option \<times> u32 list) res" where
  "open_rmap C sb agno agf read =
     (if has_rmapbt sb \<and> 0 < agf_levels agf ! AGF_RMAP
      then rbind (walk_blocks C sb rmap_shape agno (agf_roots agf ! AGF_RMAP) (agf_levels agf ! AGF_RMAP) read rmap_decode) (\<lambda>(records, blocks).
             Inr (Some records, blocks))
      else Inr (None, []))"

definition open_refcount :: "crc_crate \<Rightarrow> Superblock \<Rightarrow> u32 \<Rightarrow> Agf \<Rightarrow> (u32 \<Rightarrow> bytes res) \<Rightarrow> (Refcount list option \<times> u32 list) res" where
  "open_refcount C sb agno agf read =
     (if has_reflink sb \<and> 0 < agf_refcount_level agf
      then rbind (walk_blocks C sb refcount_shape agno (agf_refcount_root agf) (agf_refcount_level agf) read refcount_decode) (\<lambda>(records, blocks).
           rbind (refcount_check_records sb (agf_length agf) records) (\<lambda>_. Inr (Some records, blocks)))
      else Inr (None, []))"

definition group_open :: "crc_crate \<Rightarrow> Superblock \<Rightarrow> dev_read \<Rightarrow> u32 \<Rightarrow> OpenGroup res" where
  "group_open C sb dev agno =
     (let ag_start = group_start sb agno;
          sector = ucast (sb_sectsize sb);
          read = read_agblock sb dev ag_start
      in rbind (dev (ag_start + sector) (unat (sb_sectsize sb))) (\<lambda>agf_raw.
         rbind (agf_parse C agf_raw sb agno) (\<lambda>agf.
         rbind (dev (ag_start + sector * 3) (unat (sb_sectsize sb))) (\<lambda>agfl_raw.
         rbind (agfl_parse C agfl_raw sb agf agno) (\<lambda>agfl.
         rbind (walk_blocks C sb (order_shape ByBlock) agno (agf_roots agf ! AGF_BNO) (agf_levels agf ! AGF_BNO) read decode_free_extent) (\<lambda>(by_block, bno).
         rbind (check_records sb (agf_length agf) by_block) (\<lambda>_.
         rbind (walk_blocks C sb (order_shape ByCount) agno (agf_roots agf ! AGF_CNT) (agf_levels agf ! AGF_CNT) read decode_free_extent) (\<lambda>(by_length, cnt).
         rbind (same_free_space by_block by_length) (\<lambda>_.
         rbind (open_rmap C sb agno agf read) (\<lambda>(rmap, rmap_blocks).
         rbind (open_refcount C sb agno agf read) (\<lambda>(refcount, refcount_blocks).
         rbind (read_before read (bno @ cnt @ rmap_blocks @ refcount_blocks) (\<lambda>_. None)) (\<lambda>before.
           Inr \<lparr>og_alloc = \<lparr>ga_agno = agno, ga_agf_raw = agf_raw, ga_by_block = by_block, ga_settled = by_block, ga_rmap = rmap,
                             ga_agfl = agfl, ga_refcount = refcount, ga_took = False\<rparr>,
                og_ag_start = ag_start, og_before = before, og_bno_blocks = bno, og_cnt_blocks = cnt, og_rmap_blocks = rmap_blocks,
                og_refcount_blocks = refcount_blocks, og_agfl_raw = agfl_raw\<rparr>))))))))))))"

section \<open>Closing\<close>

text \<open>One tree laid out again: the blocks come from the group's free list and go back to it.\<close>

definition group_relay ::
  "crc_crate \<Rightarrow> Superblock \<Rightarrow> dev_read \<Rightarrow> OpenGroup \<Rightarrow> Shape \<Rightarrow> 'r list \<Rightarrow> u32 list \<Rightarrow> (bytes \<Rightarrow> nat \<Rightarrow> 'r \<Rightarrow> bytes res) \<Rightarrow>
   (bytes \<Rightarrow> nat \<Rightarrow> 'r list \<Rightarrow> bytes res) \<Rightarrow> Agfl \<Rightarrow> BufferItem list \<Rightarrow> (Agfl \<times> u32 list \<times> BufferItem list) res" where
  "group_relay C sb dev g shape records held enc keys fl items =
     relay C sb dev (og_ag_start g) shape (ga_agno (og_alloc g)) records held (og_before g)
       (\<lambda>fl. agfl_take fl sb (ga_agno (og_alloc g))) (\<lambda>fl b. agfl_put fl sb (ga_agno (og_alloc g)) b) fl enc keys items"

definition relay_opt ::
  "crc_crate \<Rightarrow> Superblock \<Rightarrow> dev_read \<Rightarrow> OpenGroup \<Rightarrow> Shape \<Rightarrow> 'r list option \<Rightarrow> u32 list \<Rightarrow> (bytes \<Rightarrow> nat \<Rightarrow> 'r \<Rightarrow> bytes res) \<Rightarrow>
   (bytes \<Rightarrow> nat \<Rightarrow> 'r list \<Rightarrow> bytes res) \<Rightarrow> Agfl \<Rightarrow> BufferItem list \<Rightarrow> (Agfl \<times> (u32 list \<times> nat) \<times> BufferItem list) res" where
  "relay_opt C sb dev g shape records held enc keys fl items =
     (case records of
        None \<Rightarrow> Inr (fl, ([], 0), items)
      | Some rs \<Rightarrow>
          rbind (group_relay C sb dev g shape rs held enc keys fl items) (\<lambda>(fl, blocks, items). Inr (fl, (blocks, length rs), items)))"

definition root_of :: "u32 list \<Rightarrow> u32 res" where
  "root_of blocks = (if blocks = [] then Inl Panic else Inr (last blocks))"

definition level_of :: "Superblock \<Rightarrow> u32 list \<Rightarrow> Shape \<Rightarrow> nat \<Rightarrow> u32 res" where
  "level_of sb blocks shape records =
     rbind (plan shape (sb_blocksize sb) (is_v5 sb) records) (\<lambda>levels.
       if sum_list levels \<noteq> length blocks then Inl (Internal ''a re-derived plan covers another number of blocks than the tree was laid out over'')
       else Inr (of_nat (length levels)))"

definition put32 :: "bytes \<Rightarrow> nat \<Rightarrow> u32 \<Rightarrow> bytes res" where
  "put32 buf at v = put buf at (be_bytes32 v)"

definition rmap_header :: "Superblock \<Rightarrow> u32 list \<Rightarrow> nat \<Rightarrow> bytes \<Rightarrow> bytes res" where
  "rmap_header sb blocks records buf =
     (if blocks = [] then Inr buf
      else
        rbind (root_of blocks) (\<lambda>root.
        rbind (put32 buf (16 + AGF_RMAP * 4) root) (\<lambda>buf.
        rbind (level_of sb blocks rmap_shape records) (\<lambda>level.
        rbind (put32 buf (28 + AGF_RMAP * 4) level) (\<lambda>buf. put32 buf 80 (of_nat (length blocks)))))))"

definition refcount_header :: "Superblock \<Rightarrow> u32 list \<Rightarrow> nat \<Rightarrow> bytes \<Rightarrow> bytes res" where
  "refcount_header sb blocks records buf =
     (if blocks = [] then Inr buf
      else
        rbind (root_of blocks) (\<lambda>root.
        rbind (put32 buf 88 root) (\<lambda>buf.
        rbind (level_of sb blocks refcount_shape records) (\<lambda>level.
        rbind (put32 buf 92 level) (\<lambda>buf. put32 buf 84 (of_nat (length blocks)))))))"

definition new_header ::
  "Superblock \<Rightarrow> bytes \<Rightarrow> FreeExtent list \<Rightarrow> u32 list \<Rightarrow> u32 list \<Rightarrow> u32 list \<times> nat \<Rightarrow> u32 list \<times> nat \<Rightarrow> Agfl \<Rightarrow> bytes res" where
  "new_header sb agf_raw by_block bno cnt rmap refcount fl =
     rbind (if unat (total_free by_block) < 2 ^ 32 then Inr (ucast (total_free by_block))
            else Inl (CorruptLog ''the group has more free blocks than fit'')) (\<lambda>freeblks.
     rbind (put32 agf_raw 52 freeblks) (\<lambda>buf.
     rbind (put32 buf 56 (longest by_block)) (\<lambda>buf.
     rbind (level_of sb bno (order_shape ByBlock) (length by_block)) (\<lambda>bno_level.
     rbind (level_of sb cnt (order_shape ByCount) (length by_block)) (\<lambda>cnt_level.
     rbind (root_of bno) (\<lambda>bno_root. rbind (put32 buf (16 + AGF_BNO * 4) bno_root) (\<lambda>buf.
     rbind (root_of cnt) (\<lambda>cnt_root. rbind (put32 buf (16 + AGF_CNT * 4) cnt_root) (\<lambda>buf.
     rbind (put32 buf (28 + AGF_BNO * 4) bno_level) (\<lambda>buf.
     rbind (put32 buf (28 + AGF_CNT * 4) cnt_level) (\<lambda>buf.
     rbind (case rmap of (blocks, records) \<Rightarrow> rmap_header sb blocks records buf) (\<lambda>buf.
     rbind (case refcount of (blocks, records) \<Rightarrow> refcount_header sb blocks records buf) (\<lambda>buf.
     let btreeblks = (length bno - 1) + (length cnt - 1) + (case rmap of (blocks, _) \<Rightarrow> length blocks - 1)
     in rbind (if btreeblks < 2 ^ 32 then Inr (of_nat btreeblks) else Inl (CorruptLog ''the trees hold more blocks than fit'')) (\<lambda>n.
        rbind (put32 buf 60 n) (\<lambda>buf.
        rbind (put32 buf 40 (fl_first fl)) (\<lambda>buf.
        rbind (put32 buf 44 (fl_last fl)) (\<lambda>buf.
          put32 buf 48 (fl_count fl))))))))))))))))))"

definition group_items :: "crc_crate \<Rightarrow> Superblock \<Rightarrow> dev_read \<Rightarrow> OpenGroup \<Rightarrow> BufferItem list res" where
  "group_items C sb dev g =
     (if \<not> ga_took (og_alloc g) then Inr []
      else
        rbind (refill_free_list sb (og_alloc g)) (\<lambda>a.
        let by_block = ga_by_block a;
            by_count = sort_key (\<lambda>e. (fe_blockcount e, fe_startblock e)) by_block;
            sector = ucast (sb_sectsize sb) :: u64;
            ag_bb = og_ag_start g div of_nat BBSIZE
        in rbind (group_relay C sb dev g (order_shape ByBlock) by_block (og_bno_blocks g) encode_free_extent free_keys (ga_agfl a) []) (\<lambda>(fl, bno, items).
           rbind (group_relay C sb dev g (order_shape ByCount) by_count (og_cnt_blocks g) encode_free_extent free_keys fl items) (\<lambda>(fl, cnt, items).
           rbind (relay_opt C sb dev g rmap_shape (ga_rmap a) (og_rmap_blocks g) rmap_encode rmap_write_keys fl items) (\<lambda>(fl, rmap, items).
           rbind (relay_opt C sb dev g refcount_shape (ga_refcount a) (og_refcount_blocks g) refcount_encode refcount_keys fl items) (\<lambda>(fl, refcount, items).
           rbind (new_header sb (ga_agf_raw a) by_block bno cnt rmap refcount fl) (\<lambda>new_agf.
           rbind (changed_chunks (ag_bb + sector div of_nat BBSIZE) (ga_agf_raw a) new_agf BLFT_AGF) (\<lambda>header.
           rbind (agfl_after C fl sb) (\<lambda>after.
           rbind (if after \<noteq> og_agfl_raw g
                  then rbind (changed_chunks (ag_bb + sector * 3 div of_nat BBSIZE) (og_agfl_raw g) after BLFT_AGFL) (\<lambda>item. Inr [item])
                  else Inr []) (\<lambda>free_list.
             Inr (header # items @ free_list)))))))))))"

text \<open>The groups one operation takes from.\<close>

definition allocations_group :: "crc_crate \<Rightarrow> Superblock \<Rightarrow> dev_read \<Rightarrow> OpenGroup list \<Rightarrow> u32 \<Rightarrow> (OpenGroup list \<times> nat) res" where
  "allocations_group C sb dev groups agno =
     (case position (\<lambda>g. ga_agno (og_alloc g) = agno) groups of
        Some i \<Rightarrow> Inr (groups, i)
      | None \<Rightarrow> rbind (group_open C sb dev agno) (\<lambda>g. Inr (groups @ [g], length groups)))"

fun items_of :: "crc_crate \<Rightarrow> Superblock \<Rightarrow> dev_read \<Rightarrow> OpenGroup list \<Rightarrow> BufferItem list res" where
  "items_of C sb dev [] = Inr []"
| "items_of C sb dev (g # gs) = rbind (group_items C sb dev g) (\<lambda>items. rbind (items_of C sb dev gs) (\<lambda>more. Inr (items @ more)))"

definition allocations_items :: "crc_crate \<Rightarrow> Superblock \<Rightarrow> dev_read \<Rightarrow> OpenGroup list \<Rightarrow> BufferItem list res" where
  "allocations_items C sb dev groups = items_of C sb dev (sort_key (\<lambda>g. ga_agno (og_alloc g)) groups)"

section \<open>The trees as codecs\<close>

definition free_key_image :: "FreeExtent list \<Rightarrow> bytes" where
  "free_key_image rs = free_extent_image (hd rs)"

interpretation free_tree: tree_codec 8 encode_free_extent decode_free_extent "\<lambda>_. True" free_extent_image "order_shape order" free_keys free_key_image
  for order
proof
  fix rs :: "FreeExtent list" and at :: nat and b :: bytes
  let ?kw = "keys_per_entry (order_shape order) * sh_key_len (order_shape order)"
  have kw: "?kw = 8" by (simp add: keys_per_entry_def order_shape_def ALLOC_KEY_LEN_def)
  show "sh_record_len (order_shape order) = 8" by (simp add: order_shape_def ALLOC_RECORD_LEN_def)
  show "free_keys b at rs = Inr (blit b at (free_key_image rs))" if "rs \<noteq> []" "at + ?kw \<le> length b"
    using that kw free_extent_codec.enc_blit [of at b "hd rs"] by (cases rs) (simp_all add: free_keys_def free_key_image_def)
  show "length (free_key_image rs) = ?kw" by (simp add: kw free_key_image_def free_extent_codec.image_len)
qed

definition rmap_key_image :: "Rmap \<Rightarrow> bytes" where
  "rmap_key_image r = be_bytes32 (rm_startblock r) @ be_bytes64 (rm_owner r) @ be_bytes64 (rm_offset r)"

definition rmap_keys_image :: "Rmap list \<Rightarrow> bytes" where
  "rmap_keys_image rs = rmap_key_image (hd rs) @ rmap_key_image (max_key (high_key (hd rs)) (map high_key (tl rs)))"

lemma rmap_encode_key_blit: "at + 20 \<le> length b \<Longrightarrow> rmap_encode_key b at r = Inr (blit b at (rmap_key_image r))"
  using blit_blit_adjacent [of at "be_bytes32 (rm_startblock r)" "be_bytes64 (rm_owner r)" b]
    blit_blit_adjacent [of at "be_bytes32 (rm_startblock r) @ be_bytes64 (rm_owner r)" "be_bytes64 (rm_offset r)" b]
  by (simp add: rmap_encode_key_def put_ok rmap_key_image_def)

lemma length_rmap_key_image [simp]: "length (rmap_key_image r) = 20"
  by (simp add: rmap_key_image_def)

interpretation rmap_tree: tree_codec 24 rmap_encode rmap_decode "\<lambda>_. True" rmap_image rmap_shape rmap_write_keys rmap_keys_image
proof
  fix rs :: "Rmap list" and at :: nat and b :: bytes
  let ?kw = "keys_per_entry rmap_shape * sh_key_len rmap_shape"
  have kw: "?kw = 40" by (simp add: keys_per_entry_def rmap_shape_def RMAP_KEY_def)
  show "sh_record_len rmap_shape = 24" by (simp add: rmap_shape_def RMAP_RECORD_def)
  show "rmap_write_keys b at rs = Inr (blit b at (rmap_keys_image rs))" if "rs \<noteq> []" "at + ?kw \<le> length b"
    using that kw blit_blit_adjacent [of at "rmap_key_image (hd rs)" "rmap_key_image (max_key (high_key (hd rs)) (map high_key (tl rs)))" b]
    by (cases rs) (simp_all add: rmap_write_keys_def rmap_encode_key_blit rmap_keys_image_def RMAP_KEY_def)
  show "length (rmap_keys_image rs) = ?kw" by (simp add: kw rmap_keys_image_def)
qed

definition refcount_key_image :: "Refcount list \<Rightarrow> bytes" where
  "refcount_key_image rs = be_bytes32 (refcount_start (hd rs))"

interpretation refcount_tree: tree_codec 12 refcount_encode refcount_decode "\<lambda>r. rc_startblock r < 2 ^ 31" refcount_image refcount_shape
  refcount_keys refcount_key_image
proof
  fix rs :: "Refcount list" and at :: nat and b :: bytes
  let ?kw = "keys_per_entry refcount_shape * sh_key_len refcount_shape"
  have kw: "?kw = 4" by (simp add: keys_per_entry_def refcount_shape_def REFC_KEY_def)
  show "sh_record_len refcount_shape = 12" by (simp add: refcount_shape_def REFC_RECORD_def)
  show "refcount_keys b at rs = Inr (blit b at (refcount_key_image rs))" if "rs \<noteq> []" "at + ?kw \<le> length b"
    using that kw by (cases rs) (simp_all add: refcount_keys_def refcount_key_image_def refcount_encode_key_def put_ok)
  show "length (refcount_key_image rs) = ?kw" by (simp add: kw refcount_key_image_def)
qed

text \<open>Blocks enough for the plan of a tree, and no more of them than the walk may visit.\<close>

definition blocks_for :: "Superblock \<Rightarrow> Shape \<Rightarrow> nat \<Rightarrow> u32 list \<Rightarrow> bool" where
  "blocks_for sb shape records blocks \<longleftrightarrow>
     (case plan shape (sb_blocksize sb) (is_v5 sb) records of Inl _ \<Rightarrow> False | Inr levels \<Rightarrow> length blocks = sum_list levels) \<and>
     length blocks \<le> walk_budget sb"

text \<open>A tree built over the blocks is walked back to the records and the blocks, whatever else the device holds.\<close>

definition rebuilds ::
  "crc_crate \<Rightarrow> Superblock \<Rightarrow> Shape \<Rightarrow> u32 \<Rightarrow> (bytes \<Rightarrow> nat \<Rightarrow> 'r \<Rightarrow> bytes res) \<Rightarrow> (bytes \<Rightarrow> nat \<Rightarrow> 'r list \<Rightarrow> bytes res) \<Rightarrow>
   (bytes \<Rightarrow> nat \<Rightarrow> 'r res) \<Rightarrow> 'r list \<Rightarrow> u32 list \<Rightarrow> bool" where
  "rebuilds C sb shape agno enc keys dec records blocks \<longleftrightarrow>
     (\<exists>built levels. build C sb shape agno records blocks enc keys = Inr built \<and> level_of sb blocks shape (length records) = Inr levels \<and>
        map bt_agblock built = blocks \<and>
        (\<forall>read. finds read built \<longrightarrow> walk_blocks C sb shape agno (last blocks) levels read dec = Inr (records, blocks)))"

lemma rebuildsI:
  assumes "blocks_for sb shape (length records) blocks"
    "\<And>levels. plan shape (sb_blocksize sb) (is_v5 sb) (length records) = Inr levels \<Longrightarrow> length blocks = sum_list levels \<Longrightarrow>
       \<exists>built. build C sb shape agno records blocks enc keys = Inr built \<and> map bt_agblock built = blocks \<and> (\<forall>b \<in> set built. stamped C sb shape agno b) \<and>
         (\<forall>read. finds read built \<longrightarrow> walk_blocks C sb shape agno (last blocks) (of_nat (length levels)) read dec = Inr (records, blocks))"
  shows "rebuilds C sb shape agno enc keys dec records blocks"
proof -
  obtain levels where "plan shape (sb_blocksize sb) (is_v5 sb) (length records) = Inr levels" "length blocks = sum_list levels"
    using assms(1) by (auto simp: blocks_for_def split: sum.splits)
  then show ?thesis using assms(2) [of levels] by (auto simp: rebuilds_def level_of_def)
qed

lemma group_layable:
  assumes "512 \<le> unat (sb_blocksize sb)" "unat (sb_blocksize sb) \<le> 65536" "length (sb_meta_uuid sb) = 16" "is_v5 sb"
  shows "layable sb shape"
  using assms by (simp add: layable_def shape_magic_def)

text \<open>C12. A tree of a group that is laid out is the tree that is read: for each of the free-space trees, the reverse map and
  the reference counts, any number of records over as many blocks as the plan asks for is written without failing, and
  the walk of the device from the last block, with the depth the header states, gives exactly those records in their
  order and exactly those blocks.\<close>

theorem trees_roundtrip:
  assumes "is_v5 sb" "512 \<le> unat (sb_blocksize sb)" "unat (sb_blocksize sb) \<le> 65536" "length (sb_meta_uuid sb) = 16"
    and "blocks_for sb (order_shape order) (length free) bs1" "blocks_for sb rmap_shape (length rmaps) bs2"
      "blocks_for sb refcount_shape (length counts) bs3" "\<forall>r \<in> set counts. rc_startblock r < 2 ^ 31"
  shows "rebuilds C sb (order_shape order) agno encode_free_extent free_keys decode_free_extent free bs1 \<and>
    rebuilds C sb rmap_shape agno rmap_encode rmap_write_keys rmap_decode rmaps bs2 \<and>
    rebuilds C sb refcount_shape agno refcount_encode refcount_keys refcount_decode counts bs3"
proof (intro conjI)
  note lay = group_layable [OF assms(2-4,1)]
  have le: "length bs1 \<le> walk_budget sb" "length bs2 \<le> walk_budget sb" "length bs3 \<le> walk_budget sb" using assms(5-7) by (auto simp: blocks_for_def)
  show "rebuilds C sb (order_shape order) agno encode_free_extent free_keys decode_free_extent free bs1"
    using free_tree.build_walk [OF lay _ _ le(1)] by (intro rebuildsI [OF assms(5)]) simp
  show "rebuilds C sb rmap_shape agno rmap_encode rmap_write_keys rmap_decode rmaps bs2"
    using rmap_tree.build_walk [OF lay _ _ le(2)] by (intro rebuildsI [OF assms(6)]) simp
  show "rebuilds C sb refcount_shape agno refcount_encode refcount_keys refcount_decode counts bs3"
    using refcount_tree.build_walk [OF lay _ _ le(3) assms(8)] by (intro rebuildsI [OF assms(7)]) simp
qed

text \<open>C13. Whatever a device holds, the walk of a group's tree ends without a panic: for every root, every number of levels
  and every block the reads return, it gives an error or it gives the records of at most as many blocks as the group
  can have, however the blocks point at each other.\<close>

theorem walks_safe:
  assumes "\<And>b. \<not> panics (read b)"
  shows "(case walk_blocks C sb (order_shape order) agno root levels read decode_free_extent of
        Inl e \<Rightarrow> e \<noteq> Panic | Inr (rs, blocks) \<Rightarrow> length blocks \<le> walk_budget sb) \<and>
    (case walk_blocks C sb rmap_shape agno root levels read rmap_decode of
        Inl e \<Rightarrow> e \<noteq> Panic | Inr (rs, blocks) \<Rightarrow> length blocks \<le> walk_budget sb) \<and>
    (case walk_blocks C sb refcount_shape agno root levels read refcount_decode of
        Inl e \<Rightarrow> e \<noteq> Panic | Inr (rs, blocks) \<Rightarrow> length blocks \<le> walk_budget sb)"
  using free_tree.walk_safe [where read = read, OF assms] rmap_tree.walk_safe [where read = read, OF assms]
    refcount_tree.walk_safe [where read = read, OF assms] by blast

lemma walks_safe_witness:
  "case walk_blocks sample_crc sample_sb (order_shape ByBlock) 0 5 1 (\<lambda>_. Inr (replicate 100 0)) decode_free_extent of
     Inl e \<Rightarrow> e \<noteq> Panic | Inr (rs, blocks) \<Rightarrow> length blocks \<le> walk_budget sample_sb"
  using walks_safe [where read = "\<lambda>_. Inr (replicate 100 0)" and C = sample_crc and sb = sample_sb and order = ByBlock and agno = 0 and root = 5 and levels = 1]
  by (simp add: panics_def)

definition sample_v5 :: Superblock where
  "sample_v5 = sample_sb\<lparr>sb_versionnum := 5, sb_blocksize := 512, sb_meta_uuid := replicate 16 7\<rparr>"

lemma sample_v5_simps [simp]:
  "is_v5 sample_v5" "sb_blocksize sample_v5 = 512" "length (sb_meta_uuid sample_v5) = 16" "walk_budget sample_v5 = max (unat (sb_agblocks sample_sb)) 64"
  by (simp_all add: sample_v5_def is_v5_def version_def XFS_SB_VERSION_NUMBITS_def walk_budget_def)

lemmas plan_eval = plan_def plan_loop.simps usize_sub_def short_header_def SHORT_V5_HEADER_LEN_def maxrecs_def node_width_def keys_per_entry_def PTR_LEN_def
  div_ceil_def MAX_LEVELS_def order_shape_def ALLOC_RECORD_LEN_def ALLOC_KEY_LEN_def rmap_shape_def RMAP_RECORD_def RMAP_KEY_def refcount_shape_def
  REFC_RECORD_def REFC_KEY_def

lemma trees_roundtrip_witness:
  "rebuilds sample_crc sample_v5 (order_shape ByBlock) 0 encode_free_extent free_keys decode_free_extent
     (replicate 100 \<lparr>fe_startblock = 20, fe_blockcount = 10\<rparr>) [7, 8, 9] \<and>
   rebuilds sample_crc sample_v5 rmap_shape 0 rmap_encode rmap_write_keys rmap_decode (replicate 40 (sample_rmap 12 8 131 0)) [11, 12, 13, 14] \<and>
   rebuilds sample_crc sample_v5 refcount_shape 0 refcount_encode refcount_keys refcount_decode [] [15]"
proof -
  have "blocks_for sample_v5 (order_shape ByBlock) (length (replicate 100 \<lparr>fe_startblock = 20, fe_blockcount = 10\<rparr>)) [7, 8, 9]"
    "blocks_for sample_v5 rmap_shape (length (replicate 40 (sample_rmap 12 8 131 0))) [11, 12, 13, 14]"
    "blocks_for sample_v5 refcount_shape (length ([] :: Refcount list)) [15]"
    by (simp_all add: blocks_for_def plan_eval)
  from trees_roundtrip [OF _ _ _ _ this, of sample_crc 0] show ?thesis by simp
qed

end
