(* ===== verification/TreeRelay.thy ===== *)
theory TreeRelay
  imports GroupTrees BufReplay
begin

text \<open>
  A tree laid out again over the blocks it holds (\<^verbatim>\<open>relay\<close> in \<^verbatim>\<open>src/src/ag_btree.rs\<close>).  Where the blocks come from is the
  trait \<^verbatim>\<open>BlockSource\<close>, the locale \<open>block_source\<close>: a take gives up one of the source's blocks and a put gives one back.  The
  free list of the group is such a source because it is a queue, and so is the group's free space, which the inode trees
  grow from.

  What is shown is that no block is lost or used twice, and that the device on which the logged buffers have landed holds
  the new tree.
\<close>

section \<open>Sources of blocks\<close>

locale block_source =
  fixes ok :: "'s \<Rightarrow> bool"
    and contents :: "'s \<Rightarrow> 'b multiset"
    and source_take :: "'s \<Rightarrow> ('s \<times> 'b) res"
    and source_put :: "'s \<Rightarrow> 'b \<Rightarrow> 's res"
    and fit :: "'b \<Rightarrow> bool"
  assumes source_take_law: "ok s \<Longrightarrow> source_take s = Inr (s', b) \<Longrightarrow> ok s' \<and> contents s = add_mset b (contents s')"
    and source_put_law: "ok s \<Longrightarrow> fit b \<Longrightarrow> source_put s b = Inr s' \<Longrightarrow> ok s' \<and> contents s' = add_mset b (contents s)"

text \<open>A queue is a source.\<close>

sublocale bounded_queue \<subseteq> queue_source: block_source inv "\<lambda>s. mset (abs s)" deq enq "\<lambda>_. True"
proof
  fix s s' x
  assume s: "inv s"
  show "inv s' \<and> mset (abs s) = add_mset x (mset (abs s'))" if "deq s = Inr (s', x)"
    using deq_law [OF s] that by (cases "abs s") (auto simp: simulates_def split: if_splits)
  show "inv s' \<and> mset (abs s') = add_mset x (mset (abs s))" if "enq s x = Inr s'"
  proof -
    have "inv s'" "abs s' = abs s @ [x]" using enq_law [OF s, of x] that by (auto simp: simulates_def split: if_splits)
    then show ?thesis by simp
  qed
qed

text \<open>Free space is a source: a single block out of it, and a block back into it.\<close>

definition free_set :: "GroupAlloc \<Rightarrow> u32 multiset" where
  "free_set g = mset_set {b. unat b \<in> free_blocks (ga_by_block g)}"

lemma free_set_insert:
  assumes "unat b \<notin> free_blocks (ga_by_block g)" "free_blocks (ga_by_block g') = insert (unat b) (free_blocks (ga_by_block g))"
  shows "free_set g' = add_mset b (free_set g)"
proof -
  have "{c :: u32. unat c \<in> free_blocks (ga_by_block g')} = insert b {c. unat c \<in> free_blocks (ga_by_block g)}"
    using assms(2) by (auto simp: word_eq_unat)
  then show ?thesis using assms(1) by (simp add: free_set_def)
qed

section \<open>Growing and shrinking\<close>

lemma grow_relay:
  assumes "block_source ok contents tk pt fit" "grow tk n s blocks = Inr (s', blocks')" "ok s"
  shows "ok s' \<and> length blocks' = length blocks + n \<and> mset blocks' + contents s' = mset blocks + contents s"
  using assms(2,3)
proof (induction n arbitrary: s blocks)
  case 0
  then show ?case by simp
next
  case (Suc n)
  then obtain t b where t: "tk s = Inr (t, b)" "grow tk n t (blocks @ [b]) = Inr (s', blocks')" by (auto simp: rbind_eq_Inr)
  note law = block_source.source_take_law [OF assms(1) Suc.prems(2) t(1)]
  then show ?case using Suc.IH [OF t(2)] by simp
qed

lemma shrink_relay:
  assumes "block_source ok contents tk pt fit" "shrink pt n s blocks = Inr (s', blocks')" "ok s" "n \<le> length blocks" "\<forall>b \<in> set blocks. fit b"
  shows "ok s' \<and> length blocks' = length blocks - n \<and> mset blocks' + contents s' = mset blocks + contents s"
  using assms(2-5)
proof (induction n arbitrary: s blocks)
  case 0
  then show ?case by simp
next
  case (Suc n)
  then obtain t where t: "pt s (last blocks) = Inr t" "shrink pt n t (butlast blocks) = Inr (s', blocks')" by (auto simp: rbind_eq_Inr)
  have ne: "blocks \<noteq> []" using Suc.prems(3) by auto
  have law: "ok t \<and> contents t = add_mset (last blocks) (contents s)"
    using block_source.source_put_law [OF assms(1) Suc.prems(2) _ t(1)] Suc.prems(4) ne by auto
  have "mset blocks = add_mset (last blocks) (mset (butlast blocks))"
    using ne by (metis append_butlast_last_id mset_append mset.simps add_mset_add_single)
  moreover have "n \<le> length (butlast blocks)" "\<forall>b \<in> set (butlast blocks). fit b" using Suc.prems(3,4) by (auto dest: in_set_butlastD)
  ultimately show ?case using Suc.IH [OF t(2)] law Suc.prems(3) by simp
qed

lemma relay_parts:
  assumes "block_source ok contents tk pt fit" "relay C sb dev ag_start shape agno records held before tk pt s enc keys items = Inr (s', blocks, items')"
    "ok s" "\<forall>b \<in> set held. fit b"
  shows "ok s' \<and> mset blocks + contents s' = mset held + contents s \<and>
    (\<exists>levels built new. plan shape (sb_blocksize sb) (is_v5 sb) (length records) = Inr levels \<and> length blocks = sum_list levels \<and>
       build C sb shape agno records blocks enc keys = Inr built \<and> relay_items sb dev ag_start agno before built = Inr new \<and> items' = items @ new)"
proof -
  obtain levels t mid built new where
    r: "plan shape (sb_blocksize sb) (is_v5 sb) (length records) = Inr levels" "grow tk (sum_list levels - length held) s held = Inr (t, mid)"
    "shrink pt (length mid - sum_list levels) t mid = Inr (s', blocks)" "build C sb shape agno records blocks enc keys = Inr built"
    "relay_items sb dev ag_start agno before built = Inr new" "items' = items @ new"
    using assms(2) by (auto simp: relay_def rbind_eq_Inr Let_def)
  note g = grow_relay [OF assms(1) r(2) assms(3)]
  have "ok s' \<and> length blocks = length mid - (length mid - sum_list levels) \<and> mset blocks + contents s' = mset mid + contents t"
  proof (cases "sum_list levels \<le> length held")
    case True
    then have "mid = held" using r(2) by simp
    then show ?thesis using shrink_relay [OF assms(1) r(3)] g assms(4) by simp
  next
    case False
    then have "length mid - sum_list levels = 0" using g by simp
    then show ?thesis using r(3) g by simp
  qed
  then show ?thesis using g r(1,4-6) by (auto split: if_splits)
qed

section \<open>The device the buffers land on\<close>

definition meets :: "BufferItem \<Rightarrow> u64 \<Rightarrow> nat \<Rightarrow> bool" where
  "meets item off n \<longleftrightarrow>
     \<not> (unat off + n \<le> unat (bi_blkno item * of_nat BBSIZE) \<or> unat (bi_blkno item * of_nat BBSIZE) + length (bi_data item) \<le> unat off)"

definition landed :: "crc_crate \<Rightarrow> dev_read \<Rightarrow> dev_read \<Rightarrow> BufferItem list \<Rightarrow> bool" where
  "landed C dev dev' items \<longleftrightarrow>
     (\<forall>item \<in> set items. dev' (bi_blkno item * of_nat BBSIZE) (length (bi_data item)) = image_as_written C item) \<and>
     (\<forall>off n. (\<forall>item \<in> set items. \<not> meets item off n) \<longrightarrow> dev' off n = dev off n)"

lemma mark_changed_data:
  "mark_changed before cs item = Inr item' \<Longrightarrow>
     bi_data item' = bi_data item \<and> bi_blkno item' = bi_blkno item \<and> bi_buf_type item' = bi_buf_type item"
proof (induction cs arbitrary: item)
  case (Cons c cs)
  then obtain item1 where "mark_changed before cs item1 = Inr item'" "bi_data item1 = bi_data item \<and> bi_blkno item1 = bi_blkno item \<and> bi_buf_type item1 = bi_buf_type item"
    by (auto simp: Let_def rbind_eq_Inr bi_mark_def split: if_splits)
  then show ?case using Cons.IH [of item1] by simp
qed simp

lemma changed_chunks_data:
  "changed_chunks blkno before after t = Inr item \<Longrightarrow> bi_data item = after \<and> bi_blkno item = blkno \<and> bi_buf_type item = t"
  by (auto simp: changed_chunks_def bi_new_def rbind_eq_Inr split: if_splits dest!: mark_changed_data)

lemma relay_items_block:
  assumes "relay_items sb dev ag_start agno before built = Inr new"
  shows "(\<forall>b \<in> set built. (\<exists>item \<in> set new. bi_blkno item = expected_blkno sb agno (bt_agblock b) \<and> bi_data item = bt_bytes b \<and> bi_buf_type item = BLFT_BTREE) \<or>
      (case before (bt_agblock b) of Some raw \<Rightarrow> raw = bt_bytes b | None \<Rightarrow> read_agblock sb dev ag_start (bt_agblock b) = Inr (bt_bytes b))) \<and>
    bi_blkno ` set new \<subseteq> expected_blkno sb agno ` set (map bt_agblock built)"
  using assms
proof (induction built arbitrary: new)
  case (Cons b built)
  obtain was item rest where
    was: "(case before (bt_agblock b) of Some raw \<Rightarrow> Inr raw | None \<Rightarrow> read_agblock sb dev ag_start (bt_agblock b)) = Inr was"
    and item: "(if was = bt_bytes b then Inr []
       else rbind (changed_chunks (expected_blkno sb agno (bt_agblock b)) was (bt_bytes b) BLFT_BTREE) (\<lambda>item. Inr [item])) = Inr item"
    and rest: "relay_items sb dev ag_start agno before built = Inr rest" and new: "new = item @ rest"
    using Cons.prems unfolding relay_items.simps rbind_eq_Inr read_agblock_def [symmetric] by (elim exE conjE) (rule that, auto)
  show ?case
  proof (cases "was = bt_bytes b")
    case True
    then have "case before (bt_agblock b) of Some raw \<Rightarrow> raw = bt_bytes b | None \<Rightarrow> read_agblock sb dev ag_start (bt_agblock b) = Inr (bt_bytes b)"
      using was by (auto split: option.splits)
    then show ?thesis using Cons.IH [OF rest] new item True by auto
  next
    case False
    then obtain i where "changed_chunks (expected_blkno sb agno (bt_agblock b)) was (bt_bytes b) BLFT_BTREE = Inr i" "item = [i]"
      using item by (auto simp: rbind_eq_Inr)
    then show ?thesis using Cons.IH [OF rest] new changed_chunks_data by auto
  qed
qed simp

text \<open>A block that carries its own checksum is written as it is.\<close>

lemma stamped_image:
  assumes "stamp_block C buf sb shape agno agblock level n = Inr b" "is_v5 sb" "56 \<le> length buf" "length (sb_meta_uuid sb) = 16"
    "sh_magic_v5 shape \<noteq> XFS_BMAP_CRC_MAGIC" "bi_data item = b" "bi_buf_type item = BLFT_BTREE"
  shows "image_as_written C item = Inr b"
proof -
  have h: "short_header (is_v5 sb) \<le> length buf" using assms(2,3) by (simp add: short_header_def SHORT_V5_HEADER_LEN_def)
  have m: "shape_magic sb shape = Some (sh_magic_v5 shape)" using assms(2) by (simp add: shape_magic_def)
  from stamp_block_spec [OF h assms(4) m, of C agno agblock level n] assms(1,2) have
    b: "length b = length buf" "be32 b 0 = Inr (sh_magic_v5 shape)" "block_identity C b sb agno agblock = Inr ()" by auto
  then obtain crc where crc: "le32 b 52 = Inr crc" "crc32c_with_zeroed_crc C b 52 = Inr crc"
    by (auto simp: block_identity_def rbind_eq_Inr split: if_splits)
  have "le_bytes32 crc = take 4 (drop 52 b)"
  proof -
    have "crc = from_be (rev (take 4 (drop 52 b)))" using crc(1) assms(3) b(1) by (simp add: read_ok)
    moreover have "to_be 4 (from_be (rev (take 4 (drop 52 b))) :: u32) = rev (take 4 (drop 52 b))"
      using to_be_from_be [of "rev (take 4 (drop 52 b))", where 'a = 32] assms(3) b(1) by simp
    ultimately show ?thesis by (simp add: le_bytes32_def)
  qed
  moreover have "blit b 52 (take 4 (drop 52 b)) = b"
    using assms(3) b(1) by (intro nth_equalityI) (auto simp: nth_blit)
  ultimately have "put b 52 (le_bytes32 crc) = Inr b" using assms(3) b(1) by (simp add: put_ok)
  moreover have "image_crc_at BLFT_BTREE b = Inr (Some 52)"
    using assms(3,5) b(1,2) by (simp add: image_crc_at_def BLFT_BTREE_def BLFT_AGF_def BLFT_AGI_def BLFT_AGFL_def)
  ultimately show ?thesis using assms(3,6,7) b(1) crc(2) by (simp add: image_as_written_def)
qed

lemma relay_items_only:
  assumes "relay_items sb dev ag_start agno before built = Inr new" "item \<in> set new"
  shows "\<exists>b \<in> set built. bi_blkno item = expected_blkno sb agno (bt_agblock b) \<and> bi_data item = bt_bytes b \<and> bi_buf_type item = BLFT_BTREE"
  using assms
proof (induction built arbitrary: new)
  case (Cons b built)
  then obtain was here rest where "(if was = bt_bytes b then Inr []
       else rbind (changed_chunks (expected_blkno sb agno (bt_agblock b)) was (bt_bytes b) BLFT_BTREE) (\<lambda>item. Inr [item])) = Inr here"
    "relay_items sb dev ag_start agno before built = Inr rest" "new = here @ rest"
    unfolding relay_items.simps rbind_eq_Inr by (elim exE conjE) (rule that, auto)
  then show ?case using Cons.IH [of rest] Cons.prems(2) changed_chunks_data by (fastforce simp: rbind_eq_Inr split: if_splits)
qed simp

lemma distinct_map_eq: "distinct (map f xs) \<Longrightarrow> x \<in> set xs \<Longrightarrow> y \<in> set xs \<Longrightarrow> f x = f y \<Longrightarrow> x = y"
  by (auto simp: distinct_map inj_on_def)

section \<open>A tree laid out again is read back\<close>

text \<open>Where a block of a group is on the device, with nothing lost to the width of an address.\<close>

definition addressed :: "Superblock \<Rightarrow> u32 \<Rightarrow> u32 \<Rightarrow> bool" where
  "addressed sb agno b \<longleftrightarrow> (unat agno * unat (sb_agblocks sb) + unat b) * unat (sb_blocksize sb) < 2 ^ 64"

lemma group_address:
  assumes "512 dvd unat (sb_blocksize sb)" "addressed sb agno b"
  shows "unat (group_start sb agno + ucast b * ucast (sb_blocksize sb)) = (unat agno * unat (sb_agblocks sb) + unat b) * unat (sb_blocksize sb)"
    "expected_blkno sb agno b * of_nat BBSIZE = group_start sb agno + ucast b * ucast (sb_blocksize sb)"
proof -
  let ?bs = "sb_blocksize sb" and ?l = "unat agno * unat (sb_agblocks sb) + unat b"
  have eq: "group_start sb agno + ucast b * ucast ?bs = (ucast agno * ucast (sb_agblocks sb) + ucast b) * ucast ?bs"
    by (simp add: group_start_def distrib_right)
  have "?l < 2 ^ 64"
  proof -
    have "unat agno * unat (sb_agblocks sb) \<le> (2 ^ 32 - 1) * (2 ^ 32 - 1)"
      using unat_lt32 [of agno] unat_lt32 [of "sb_agblocks sb"] by (intro mult_mono) auto
    then show ?thesis using unat_lt32 [of b] by simp
  qed
  then have l: "unat (ucast agno * ucast (sb_agblocks sb) + ucast b :: u64) = ?l" using unat_mul32_64 [of agno "sb_agblocks sb"] by (subst unat_add_small) simp_all
  have m: "unat ((ucast agno * ucast (sb_agblocks sb) + ucast b) * ucast ?bs :: u64) = ?l * unat ?bs"
    using assms(2) l by (subst unat_mult_lem [THEN iffD1]) (simp_all add: addressed_def)
  then show "unat (group_start sb agno + ucast b * ucast ?bs) = ?l * unat ?bs" unfolding eq .
  have "unat (expected_blkno sb agno b) = ?l * unat ?bs div 512"
    by (simp add: expected_blkno_def blkno_of_linear_block_def m unat_div BBSIZE_def)
  moreover have "?l * unat ?bs div 512 * 512 = ?l * unat ?bs" using assms(1) by simp
  ultimately have "unat (expected_blkno sb agno b * of_nat BBSIZE) = ?l * unat ?bs"
    using assms(2) by (subst unat_mult_lem [THEN iffD1]) (simp_all add: addressed_def BBSIZE_def)
  then show "expected_blkno sb agno b * of_nat BBSIZE = group_start sb agno + ucast b * ucast ?bs"
    using m unfolding eq by (simp add: word_eq_unat)
qed

definition relaid ::
  "crc_crate \<Rightarrow> Superblock \<Rightarrow> u32 \<Rightarrow> dev_read \<Rightarrow> Shape \<Rightarrow> (bytes \<Rightarrow> nat \<Rightarrow> 'r res) \<Rightarrow> 'r list \<Rightarrow> u32 list \<Rightarrow> bool" where
  "relaid C sb agno dev shape dec records blocks \<longleftrightarrow>
     (\<exists>levels. level_of sb blocks shape (length records) = Inr levels \<and>
        walk_blocks C sb shape agno (last blocks) levels (read_agblock sb dev (group_start sb agno)) dec = Inr (records, blocks))"

text \<open>The volumes the writers work on.\<close>

definition usable :: "Superblock \<Rightarrow> bool" where
  "usable sb \<longleftrightarrow> is_v5 sb \<and> 512 \<le> unat (sb_blocksize sb) \<and> unat (sb_blocksize sb) \<le> 65536 \<and> 512 dvd unat (sb_blocksize sb) \<and>
     length (sb_meta_uuid sb) = 16"

text \<open>The images an operation keeps of the blocks it read are the device's.\<close>

definition remembers :: "Superblock \<Rightarrow> u32 \<Rightarrow> dev_read \<Rightarrow> (u32 \<Rightarrow> bytes option) \<Rightarrow> bool" where
  "remembers sb agno dev before \<longleftrightarrow> (\<forall>b raw. before b = Some raw \<longrightarrow> read_agblock sb dev (group_start sb agno) b = Inr raw)"

context tree_codec
begin

lemma relay_settles:
  assumes "usable sb" "sh_magic_v5 shape \<noteq> XFS_BMAP_CRC_MAGIC" "plan shape (sb_blocksize sb) (is_v5 sb) (length records) = Inr levels"
    "length blocks = sum_list levels" "length blocks \<le> walk_budget sb" "\<forall>r \<in> set records. valid r"
    "build C sb shape agno records blocks enc write_keys = Inr built" "relay_items sb dev (group_start sb agno) agno before built = Inr new"
    "remembers sb agno dev before" "\<forall>b \<in> set blocks. addressed sb agno b" "landed C dev dev' items" "set new \<subseteq> set items"
    "\<forall>item \<in> set items. \<forall>b \<in> set blocks. meets item (group_start sb agno + ucast b * ucast (sb_blocksize sb)) (unat (sb_blocksize sb)) \<longrightarrow> item \<in> set new"
    "distinct blocks"
  shows "relaid C sb agno dev' shape dec records blocks"
proof -
  have lay: "layable sb shape" using assms(1) by (intro group_layable) (simp_all add: usable_def)
  from build_walk [OF lay assms(3-6), of C agno] assms(7) have
    b: "map bt_agblock built = blocks" "\<forall>b \<in> set built. stamped C sb shape agno b"
    "\<forall>read. finds read built \<longrightarrow> walk_blocks C sb shape agno (last blocks) (of_nat (length levels)) read dec = Inr (records, blocks)" by auto
  note ri = relay_items_block [OF assms(8)]
  have apart: "x = y" if xy: "x \<in> set blocks" "y \<in> set blocks"
    and near: "\<not> (unat (group_start sb agno + ucast y * ucast (sb_blocksize sb)) + unat (sb_blocksize sb) \<le> unat (expected_blkno sb agno x * of_nat BBSIZE) \<or>
      unat (expected_blkno sb agno x * of_nat BBSIZE) + unat (sb_blocksize sb) \<le> unat (group_start sb agno + ucast y * ucast (sb_blocksize sb)))" for x y
  proof -
    let ?g = "unat agno * unat (sb_agblocks sb)" and ?bs = "unat (sb_blocksize sb)"
    have ax: "addressed sb agno x" "addressed sb agno y" "512 dvd ?bs" using assms(1,10) xy by (auto simp: usable_def)
    have "\<not> (Suc (?g + unat y) * ?bs \<le> (?g + unat x) * ?bs \<or> Suc (?g + unat x) * ?bs \<le> (?g + unat y) * ?bs)"
      using near group_address [OF ax(3,1)] group_address [OF ax(3,2)] by (simp add: add.commute)
    then have "\<not> (Suc (?g + unat y) \<le> ?g + unat x \<or> Suc (?g + unat x) \<le> ?g + unat y)" by (meson mult_le_mono1)
    then show "x = y" by (simp add: word_eq_unat)
  qed
  have big: "length (sb_meta_uuid sb) = 16" "is_v5 sb" using assms(1) by (simp_all add: usable_def)
  have made: "\<exists>buf level n. 56 \<le> length buf \<and> length (bt_bytes b) = unat (sb_blocksize sb) \<and> stamp_block C buf sb shape agno (bt_agblock b) level n = Inr (bt_bytes b)"
    if "b \<in> set built" for b
  proof -
    from b(2) that obtain buf level n where st: "length buf = unat (sb_blocksize sb)" "stamp_block C buf sb shape agno (bt_agblock b) level n = Inr (bt_bytes b)"
      unfolding stamped_def by blast
    have "length (bt_bytes b) = unat (sb_blocksize sb)" "56 \<le> length buf"
      using stamp_block_spec [of sb buf shape "sh_magic_v5 shape" C agno "bt_agblock b" level n] st big assms(1)
      by (auto simp: short_header_def SHORT_V5_HEADER_LEN_def shape_magic_def usable_def)
    then show ?thesis using st(2) by blast
  qed
  then have len_built: "length (bt_bytes b) = unat (sb_blocksize sb)" if "b \<in> set built" for b using that by blast
  have "read_agblock sb dev' (group_start sb agno) (bt_agblock b) = Inr (bt_bytes b)" if bt: "b \<in> set built" for b
  proof -
    have mem: "bt_agblock b \<in> set blocks" using b(1) that by auto
    obtain buf level n where st: "56 \<le> length buf" "stamp_block C buf sb shape agno (bt_agblock b) level n = Inr (bt_bytes b)"
      using made [OF bt] by blast
    show ?thesis
    proof (cases "\<exists>item \<in> set new. bi_blkno item = expected_blkno sb agno (bt_agblock b) \<and> bi_data item = bt_bytes b \<and> bi_buf_type item = BLFT_BTREE")
      case True
      then obtain item where i: "item \<in> set items" "bi_blkno item = expected_blkno sb agno (bt_agblock b)" "bi_data item = bt_bytes b" "bi_buf_type item = BLFT_BTREE"
        using assms(12) by auto
      have "image_as_written C item = Inr (bt_bytes b)" by (rule stamped_image [OF st(2) big(2) st(1) big(1) assms(2) i(3,4)])
      moreover have "dev' (bi_blkno item * of_nat BBSIZE) (length (bi_data item)) = image_as_written C item" using assms(11) i(1) by (simp add: landed_def)
      moreover have "expected_blkno sb agno (bt_agblock b) * of_nat BBSIZE = group_start sb agno + ucast (bt_agblock b) * ucast (sb_blocksize sb)"
        using group_address(2) [of sb agno "bt_agblock b"] assms(1,10) mem by (simp add: usable_def)
      ultimately show ?thesis using i(2,3) len_built [OF bt] by (simp add: read_agblock_def)
    next
      case False
      have was: "case before (bt_agblock b) of Some raw \<Rightarrow> raw = bt_bytes b | None \<Rightarrow> read_agblock sb dev (group_start sb agno) (bt_agblock b) = Inr (bt_bytes b)"
        using ri that False by blast
      then have "read_agblock sb dev (group_start sb agno) (bt_agblock b) = Inr (bt_bytes b)" using assms(9) by (auto simp: remembers_def split: option.splits)
      moreover have "\<not> meets item (group_start sb agno + ucast (bt_agblock b) * ucast (sb_blocksize sb)) (unat (sb_blocksize sb))"
        if it: "item \<in> set items" for item
      proof
        assume t: "meets item (group_start sb agno + ucast (bt_agblock b) * ucast (sb_blocksize sb)) (unat (sb_blocksize sb))"
        then have item: "item \<in> set new" using assms(13) it mem by blast
        obtain c where c: "c \<in> set built" "bi_blkno item = expected_blkno sb agno (bt_agblock c)" "bi_data item = bt_bytes c" "bi_buf_type item = BLFT_BTREE"
          using relay_items_only [OF assms(8) item] by blast
        have "bt_agblock c \<in> set blocks" using b(1) c(1) by auto
        then have "bt_agblock c = bt_agblock b" using apart [OF _ mem] t c(2,3) len_built [OF c(1)] by (simp add: meets_def)
        moreover have "distinct (map bt_agblock built)" using b(1) assms(14) by simp
        ultimately have "c = b" using distinct_map_eq c(1) bt by metis
        then show False using False item c by blast
      qed
      ultimately show ?thesis using assms(11) by (simp add: landed_def read_agblock_def)
    qed
  qed
  then have "finds (read_agblock sb dev' (group_start sb agno)) built" by (simp add: finds_def)
  then show ?thesis using b(3) assms(3,4) by (auto simp: relaid_def level_of_def)
qed

end

text \<open>The free list is the source of the trees the allocator lays out again.\<close>

lemmas free_list_source = agfl_queue.queue_source.block_source_axioms

context tree_codec
begin

lemma group_relay_correct:
  assumes "usable sb" "sh_magic_v5 shape \<noteq> XFS_BMAP_CRC_MAGIC" "\<forall>r \<in> set records. valid r" "agfl_ok sb n fl"
    "og_ag_start g = group_start sb (ga_agno (og_alloc g))" "remembers sb (ga_agno (og_alloc g)) dev (og_before g)"
    "group_relay C sb dev g shape records held enc write_keys fl [] = Inr (fl', blocks, items)"
    "distinct (held @ ring_list sb fl)" "\<forall>b \<in> set (held @ ring_list sb fl). addressed sb (ga_agno (og_alloc g)) b"
    "length (held @ ring_list sb fl) \<le> walk_budget sb" "landed C dev dev' items"
  shows "agfl_ok sb n fl' \<and> mset (blocks @ ring_list sb fl') = mset (held @ ring_list sb fl) \<and>
    relaid C sb (ga_agno (og_alloc g)) dev' shape dec records blocks"
proof -
  let ?agno = "ga_agno (og_alloc g)"
  from relay_parts [OF free_list_source assms(7) [unfolded group_relay_def assms(5)] assms(4)] obtain levels built new where
    r: "agfl_ok sb n fl'" "mset blocks + mset (ring_list sb fl') = mset held + mset (ring_list sb fl)"
    "plan shape (sb_blocksize sb) (is_v5 sb) (length records) = Inr levels" "length blocks = sum_list levels"
    "build C sb shape ?agno records blocks enc write_keys = Inr built" "relay_items sb dev (group_start sb ?agno) ?agno (og_before g) built = Inr new" "items = [] @ new"
    by auto
  have all: "mset (blocks @ ring_list sb fl') = mset (held @ ring_list sb fl)" using r(2) by simp
  note d = mset_eq_imp_distinct_iff [OF all, THEN iffD2, OF assms(8)] and st = mset_eq_setD [OF all] and len = mset_eq_length [OF all]
  have "relaid C sb ?agno dev' shape dec records blocks"
  proof (rule relay_settles [OF assms(1,2) r(3,4) _ assms(3) r(5,6) assms(6) _ assms(11)])
    show "length blocks \<le> walk_budget sb" using len assms(10) by simp
    show "\<forall>b \<in> set blocks. addressed sb ?agno b" using st assms(9) by auto
    show "distinct blocks" using d by simp
  qed (use r(7) in auto)
  then show ?thesis using r(1) all by simp
qed

end

lemma rmap_relay_correct:
  assumes "usable sb" "agfl_ok sb n fl" "og_ag_start g = group_start sb (ga_agno (og_alloc g))" "remembers sb (ga_agno (og_alloc g)) dev (og_before g)"
    "group_relay C sb dev g rmap_shape records held rmap_encode rmap_write_keys fl [] = Inr (fl', blocks, items)"
    "distinct (held @ ring_list sb fl)" "\<forall>b \<in> set (held @ ring_list sb fl). addressed sb (ga_agno (og_alloc g)) b"
    "length (held @ ring_list sb fl) \<le> walk_budget sb" "landed C dev dev' items"
  shows "agfl_ok sb n fl' \<and> mset (blocks @ ring_list sb fl') = mset (held @ ring_list sb fl) \<and>
    relaid C sb (ga_agno (og_alloc g)) dev' rmap_shape rmap_decode records blocks"
  by (rule rmap_tree.group_relay_correct [OF assms(1) _ _ assms(2-9)]) (simp_all add: rmap_shape_def XFS_RMAP_CRC_MAGIC_def XFS_BMAP_CRC_MAGIC_def)

text \<open>C11. A free-space tree laid out again is on the device where its buffers have landed, and no block is lost on the way: it
  grows from the group's free list and shrinks back onto it, so that the blocks of the tree and of the list together are
  the same blocks as before, each once, and the walk of the device finds the new records over exactly the blocks the tree
  now has.\<close>

theorem relay_correct:
  assumes "usable sb" "agfl_ok sb n fl" "og_ag_start g = group_start sb (ga_agno (og_alloc g))" "remembers sb (ga_agno (og_alloc g)) dev (og_before g)"
    "group_relay C sb dev g (order_shape order) records held encode_free_extent free_keys fl [] = Inr (fl', blocks, items)"
    "distinct (held @ ring_list sb fl)" "\<forall>b \<in> set (held @ ring_list sb fl). addressed sb (ga_agno (og_alloc g)) b"
    "length (held @ ring_list sb fl) \<le> walk_budget sb" "landed C dev dev' items"
  shows "agfl_ok sb n fl' \<and> mset (blocks @ ring_list sb fl') = mset (held @ ring_list sb fl) \<and>
    relaid C sb (ga_agno (og_alloc g)) dev' (order_shape order) decode_free_extent records blocks"
proof (rule free_tree.group_relay_correct [OF assms(1) _ _ assms(2-9)])
  show "sh_magic_v5 (order_shape order) \<noteq> XFS_BMAP_CRC_MAGIC"
    by (cases order) (simp_all add: order_shape_def XFS_ABTB_CRC_MAGIC_def XFS_ABTC_CRC_MAGIC_def XFS_BMAP_CRC_MAGIC_def)
qed simp

text \<open>A device on which one buffer lands.\<close>

definition land_one :: "crc_crate \<Rightarrow> dev_read \<Rightarrow> BufferItem \<Rightarrow> dev_read" where
  "land_one C dev item off n =
     (if off = bi_blkno item * of_nat BBSIZE \<and> n = length (bi_data item) then image_as_written C item else dev off n)"

lemma landed_one: "bi_data item \<noteq> [] \<Longrightarrow> landed C dev (land_one C dev item) [item]"
  by (auto simp: landed_def land_one_def meets_def)

definition sample_open :: OpenGroup where
  "sample_open = \<lparr>og_alloc = sample_group, og_ag_start = group_start sample_v5 0, og_before = (\<lambda>_. None), og_bno_blocks = [9], og_cnt_blocks = [],
     og_rmap_blocks = [], og_refcount_blocks = [], og_agfl_raw = replicate 512 0\<rparr>"

lemma sample_relay:
  assumes "build C sample_v5 (order_shape ByBlock) 0 records [9] encode_free_extent free_keys = Inr [\<lparr>bt_agblock = 9, bt_bytes = raw\<rparr>]"
    "raw \<noteq> replicate 512 0" "length raw = 512" "plan (order_shape ByBlock) 512 True (length records) = Inr [1]"
  shows "\<exists>item. group_relay C sample_v5 (\<lambda>_ n. Inr (replicate n 0)) sample_open (order_shape ByBlock) records [9] encode_free_extent free_keys fl [] =
    Inr (fl, [9], [item]) \<and> bi_data item = raw"
proof -
  obtain item where "changed_chunks (expected_blkno sample_v5 0 9) (replicate 512 0) raw BLFT_BTREE = Inr item" "bi_data item = raw"
    using changed_chunks_spec [of "replicate 512 0" raw 1 "expected_blkno sample_v5 0 9" BLFT_BTREE] assms(3) by (auto simp: BBSIZE_def)
  then show ?thesis using assms by (simp add: group_relay_def relay_def sample_open_def sample_group_def Let_def)
qed

lemma relay_correct_witness:
  "\<exists>item. let rs = [\<lparr>fe_startblock = 20, fe_blockcount = 10\<rparr>]; dev = (\<lambda>_ n. Inr (replicate n 0)) in
     group_relay sample_crc sample_v5 dev sample_open (order_shape ByBlock) rs [9] encode_free_extent free_keys (ga_agfl sample_group\<lparr>fl_capacity := 119\<rparr>) [] =
       Inr (ga_agfl sample_group\<lparr>fl_capacity := 119\<rparr>, [9], [item]) \<and>
     relaid sample_crc sample_v5 0 (land_one sample_crc dev item) (order_shape ByBlock) decode_free_extent rs [9]"
proof -
  let ?rs = "[\<lparr>fe_startblock = 20, fe_blockcount = 10\<rparr>] :: FreeExtent list" and ?dev = "\<lambda>_ n. Inr (replicate n 0)" and ?fl = "ga_agfl sample_group\<lparr>fl_capacity := 119\<rparr>"
  have use: "usable sample_v5" by (simp add: usable_def)
  have plan: "plan (order_shape ByBlock) 512 True (length ?rs) = Inr [1]" by (simp add: plan_eval)
  have lay: "layable sample_v5 (order_shape ByBlock)" using use by (intro group_layable) (simp_all add: usable_def)
  obtain built where built: "build sample_crc sample_v5 (order_shape ByBlock) 0 ?rs [9] encode_free_extent free_keys = Inr built" "map bt_agblock built = [9]"
    "\<forall>b \<in> set built. stamped sample_crc sample_v5 (order_shape ByBlock) 0 b"
    using free_tree.build_walk [OF lay, of ?rs "[1]" "[9]" sample_crc 0] plan by (auto simp: le_max_iff_disj)
  then obtain b where b: "built = [b]" "bt_agblock b = 9" by (cases built) auto
  define raw where "raw = bt_bytes b"
  have raw: "built = [\<lparr>bt_agblock = 9, bt_bytes = raw\<rparr>]" using b by (cases b) (simp add: raw_def)
  obtain buf level n where st: "length buf = 512" "stamp_block sample_crc buf sample_v5 (order_shape ByBlock) 0 9 level n = Inr raw"
    using built(3) raw by (auto simp: stamped_def)
  have "short_header (is_v5 sample_v5) \<le> length buf" "shape_magic sample_v5 (order_shape ByBlock) = Some XFS_ABTB_CRC_MAGIC"
    using st(1) by (simp_all add: short_header_def SHORT_V5_HEADER_LEN_def shape_magic_def order_shape_def)
  from stamp_block_spec [OF this(1) _ this(2), of sample_crc 0 9 level n] st have len: "length raw = 512" and magic: "be32 raw 0 = Inr XFS_ABTB_CRC_MAGIC" by auto
  have nz: "raw \<noteq> replicate 512 0"
  proof
    assume "raw = replicate 512 0"
    then have "be32 raw 0 = Inr 0" by (simp add: read_ok from_be_def numeral_eq_Suc)
    then show False using magic by (simp add: XFS_ABTB_CRC_MAGIC_def)
  qed
  obtain item where item: "group_relay sample_crc sample_v5 ?dev sample_open (order_shape ByBlock) ?rs [9] encode_free_extent free_keys ?fl [] = Inr (?fl, [9], [item])"
    "bi_data item = raw" using sample_relay [of sample_crc ?rs raw ?fl] built(1) raw nz len plan by auto
  have og: "og_alloc sample_open = sample_group" "og_ag_start sample_open = group_start sample_v5 0" "ga_agno sample_group = 0" "og_before sample_open = (\<lambda>_. None)"
    by (simp_all add: sample_open_def sample_group_def)
  have ring: "ring_list sample_v5 ?fl = []" by (simp add: ring_list_def sample_group_def)
  have cap: "agfl_capacity sample_v5 = 119" "agfl_header sample_v5 = 36" "sb_sectsize sample_v5 = 512"
    by (simp_all add: agfl_capacity_def agfl_header_def AGFL_V5_HEADER_LEN_def AGFL_ENTRY_LEN_def) (simp_all add: sample_v5_def sample_sb_def)
  have fl: "agfl_ok sample_v5 100 ?fl" by (simp add: agfl_ok_def cap sample_group_def)
  have "landed sample_crc ?dev (land_one sample_crc ?dev item) [item]" using item(2) len by (intro landed_one) auto
  moreover have "addressed sample_v5 0 9" by (simp add: addressed_def)
  ultimately have "relaid sample_crc sample_v5 0 (land_one sample_crc ?dev item) (order_shape ByBlock) decode_free_extent ?rs [9]"
    using relay_correct [OF use fl _ _ item(1), of "land_one sample_crc ?dev item"] by (simp add: og ring remembers_def le_max_iff_disj)
  then show ?thesis using item(1) unfolding Let_def by blast
qed

section \<open>Free space as a source\<close>

definition inode_block :: "u32 \<Rightarrow> Rmap" where
  "inode_block b = taken b 1 OWN_INOBT 0"

lemma inode_block_plain: "rmap_plain (inode_block b)"
  using unat_lt32 [of b] by (simp add: inode_block_def taken_def rmap_plain_def rmap_ok_def off_record_def is_reserved_owner_def OWN_INOBT_def file_offset_def)

lemma inode_block_range [simp]: "{rstart (inode_block b) ..< rend (inode_block b)} = {unat b}"
  by (auto simp: inode_block_def taken_def)

text \<open>The source of the inode trees: blocks of free space that the reverse map gives to those trees.\<close>

interpretation inode_source: block_source "\<lambda>g. group_ok n g \<and> n < 2 ^ 32" free_set "inode_tree_take C sb dev" inode_tree_put "\<lambda>b. unat b < n"
  for n C sb dev
proof
  fix g g' :: GroupAlloc and b :: u32
  assume g: "group_ok n g \<and> n < 2 ^ 32"
  show "(group_ok n g' \<and> n < 2 ^ 32) \<and> free_set g = add_mset b (free_set g')" if tk: "inode_tree_take C sb dev g = Inr (g', b)"
  proof -
    obtain s where s: "take_at g s 1 OWN_INOBT 0 = Inr (g', b)"
      using tk by (auto simp: inode_tree_take_def ga_take_def take_aligned_def rbind_eq_Inr split: option.splits if_splits)
    note k = take_at_keeps [OF _ _ inode_block_def inode_block_plain s]
    have "b = s" "unat b \<in> free_blocks (ga_by_block g)" "free_blocks (ga_by_block g') = free_blocks (ga_by_block g) - {unat b}"
      using k(2-4) g by auto
    then show ?thesis using k(1) g by (auto intro!: free_set_insert)
  qed
  show "(group_ok n g' \<and> n < 2 ^ 32) \<and> free_set g' = add_mset b (free_set g)" if "unat b < n" and pt: "inode_tree_put g b = Inr g'"
  proof -
    obtain how where gv: "give_record g (inode_block b) = Inr (g', how)"
      using pt by (auto simp: inode_tree_put_def give_record_def rbind_eq_Inr inode_block_def taken_def)
    have "rend (inode_block b) \<le> n" using that(1) by (simp add: inode_block_def taken_def)
    from give_record_keeps [OF _ _ inode_block_plain this gv] g show ?thesis by (auto intro!: free_set_insert)
  qed
qed

section \<open>A group that opens\<close>

lemma read_before_spec:
  "read_before read bs before = Inr after \<Longrightarrow> (\<forall>b raw. before b = Some raw \<longrightarrow> read b = Inr raw) \<Longrightarrow> (\<forall>b raw. after b = Some raw \<longrightarrow> read b = Inr raw)"
proof (induction bs arbitrary: before)
  case (Cons b bs)
  from Cons.prems(1) obtain raw where raw: "read b = Inr raw" "read_before read bs (before(b \<mapsto> raw)) = Inr after"
    unfolding read_before.simps rbind_eq_Inr by blast
  have "\<forall>c x. (before(b \<mapsto> raw)) c = Some x \<longrightarrow> read c = Inr x" using Cons.prems(2) raw(1) by auto
  from Cons.IH [OF raw(2) this] show ?case .
qed simp

text \<open>C18. A group that opens is one the allocator may take from: its free runs are whole, in order and inside the group past
  its headers, the by-length tree holds the same runs, the reference counts are in the order a release relies on, what is
  settled is what is free, nothing has been taken, and the images kept for the comparison are what the device holds.\<close>

theorem group_open_sound:
  "case group_open C sb dev agno of
     Inl e \<Rightarrow> True
   | Inr g \<Rightarrow> \<exists>agf by_length cnt.
    agf_parse C (ga_agf_raw (og_alloc g)) sb agno = Inr agf \<and>
    free_ok (unat (agf_length agf)) (ga_by_block (og_alloc g)) \<and>
    free_blocks (ga_by_block (og_alloc g)) \<inter> {..unat (group_headers sb)} = {} \<and>
    walk_blocks C sb (order_shape ByCount) agno (agf_roots agf ! AGF_CNT) (agf_levels agf ! AGF_CNT)
      (read_agblock sb dev (group_start sb agno)) decode_free_extent = Inr (by_length, cnt) \<and>
    mset by_length = mset (ga_by_block (og_alloc g)) \<and>
    (case ga_refcount (og_alloc g) of None \<Rightarrow> True | Some rs \<Rightarrow> check_order rs = Inr ()) \<and>
    ga_settled (og_alloc g) = ga_by_block (og_alloc g) \<and> \<not> ga_took (og_alloc g) \<and>
    og_ag_start g = group_start sb agno \<and> remembers sb agno dev (og_before g)"
proof (cases "group_open C sb dev agno")
  case (Inr g)
  let ?read = "read_agblock sb dev (group_start sb agno)"
  obtain agf_raw agf agfl_raw agfl by_block bno by_length cnt rmap rb refcount cb before where
    p: "agf_parse C agf_raw sb agno = Inr agf" "check_records sb (agf_length agf) by_block = Inr ()"
      "walk_blocks C sb (order_shape ByCount) agno (agf_roots agf ! AGF_CNT) (agf_levels agf ! AGF_CNT) ?read decode_free_extent = Inr (by_length, cnt)"
      "same_free_space by_block by_length = Inr ()" "open_refcount C sb agno agf ?read = Inr (refcount, cb)"
      "read_before ?read (bno @ cnt @ rb @ cb) (\<lambda>_. None) = Inr before"
    and g: "g = \<lparr>og_alloc = \<lparr>ga_agno = agno, ga_agf_raw = agf_raw, ga_by_block = by_block, ga_settled = by_block, ga_rmap = rmap,
                             ga_agfl = agfl, ga_refcount = refcount, ga_took = False\<rparr>,
                og_ag_start = group_start sb agno, og_before = before, og_bno_blocks = bno, og_cnt_blocks = cnt, og_rmap_blocks = rb,
                og_refcount_blocks = cb, og_agfl_raw = agfl_raw\<rparr>"
    using Inr unfolding group_open_def Let_def rbind_eq_Inr by (elim exE conjE) (simp add: rbind_eq_Inr split: prod.splits, elim exE conjE, rule that, auto)
  have "check_runs_from (agf_length agf) (group_headers sb) 0 by_block = Inr ()" using p(2) by (simp add: check_records_def check_runs_def)
  then have free: "free_ok (unat (agf_length agf)) by_block" "\<forall>r \<in> set by_block. unat (group_headers sb) < unat (fe_startblock r)"
    by (simp_all add: check_runs_from_ok)
  have past: "free_blocks by_block \<inter> {..unat (group_headers sb)} = {}" using free(2) by (auto simp: free_blocks_def run_blocks_def)
  have same: "mset by_length = mset by_block"
    using p(4) by (metis same_free_space_def mset_sort Inl_Inr_False)
  have order: "case refcount of None \<Rightarrow> True | Some rs \<Rightarrow> check_order rs = Inr ()"
    using p(5) by (auto simp: open_refcount_def rbind_eq_Inr refcount_check_records_def refcount_check_runs_def split: if_splits)
  have "remembers sb agno dev before" using read_before_spec [OF p(6)] by (simp add: remembers_def)
  then have "?thesis" if "group_open C sb dev agno = Inr g" using that p(1,3) free(1) past same order by (simp add: g)
  then show ?thesis using Inr by blast
qed simp

end
