(* ===== verification/InodeTree.thy ===== *)
theory InodeTree
  imports TreeRelay
begin

unbundle bit_operations_syntax

text \<open>
  The inode trees of a group (\<^verbatim>\<open>src/src/inode_btree.rs\<close>): the record of a chunk of 64 inodes in its two layouts, the check of its
  counts against its masks, the reader's walk of either tree, and \<^verbatim>\<open>Trees\<close>, which reads both trees of a group, lets an
  operation edit the chunks, and lays both out again.

  An inode of a chunk is named by its place, a number below 64.  What is shown is that a chunk that is accepted counts
  exactly the inodes it can hand out, that the two walks of the trees agree, and that a group whose trees were laid out
  again opens with the chunks the operation left.
\<close>

section \<open>Chunks\<close>

definition XFS_IBT_MAGIC :: u32 where "XFS_IBT_MAGIC = 0x49414254"
definition XFS_IBT_CRC_MAGIC :: u32 where "XFS_IBT_CRC_MAGIC = 0x49414233"
definition XFS_FIBT_MAGIC :: u32 where "XFS_FIBT_MAGIC = 0x46494254"
definition XFS_FIBT_CRC_MAGIC :: u32 where "XFS_FIBT_CRC_MAGIC = 0x46494233"
definition INOBT_RECORD_LEN :: nat where "INOBT_RECORD_LEN = 16"
definition INOBT_KEY_LEN :: nat where "INOBT_KEY_LEN = 4"
definition INODES_PER_CHUNK :: nat where "INODES_PER_CHUNK = 64"
definition INODES_PER_HOLEMASK_BIT :: nat where "INODES_PER_HOLEMASK_BIT = 4"

datatype Which = AllInodes | WithFreeInodes

fun which_magic :: "Which \<Rightarrow> bool \<Rightarrow> u32" where
  "which_magic AllInodes True = XFS_IBT_CRC_MAGIC"
| "which_magic AllInodes False = XFS_IBT_MAGIC"
| "which_magic WithFreeInodes True = XFS_FIBT_CRC_MAGIC"
| "which_magic WithFreeInodes False = XFS_FIBT_MAGIC"

record InodeChunk =
  ic_startino :: u32
  ic_holemask :: u16
  ic_count :: u8
  ic_freecount :: u8
  ic_free :: u64

definition chunk_is_free :: "InodeChunk \<Rightarrow> nat \<Rightarrow> bool res" where
  "chunk_is_free c n = (if n < INODES_PER_CHUNK then Inr (ic_free c AND push_bit n 1 \<noteq> 0) else Inl Panic)"

definition chunk_exists :: "InodeChunk \<Rightarrow> nat \<Rightarrow> bool res" where
  "chunk_exists c n =
     (if n < INODES_PER_CHUNK then Inr (ic_holemask c AND push_bit (n div INODES_PER_HOLEMASK_BIT) 1 = 0) else Inl Panic)"

text \<open>\<^verbatim>\<open>exists(n) && is_free(n)\<close>, and the iterators that ask it of every place.\<close>

definition chunk_usable :: "InodeChunk \<Rightarrow> nat \<Rightarrow> bool res" where
  "chunk_usable c n = rbind (chunk_exists c n) (\<lambda>e. if e then chunk_is_free c n else Inr False)"

fun find_usable :: "InodeChunk \<Rightarrow> nat list \<Rightarrow> nat option res" where
  "find_usable c [] = Inr None"
| "find_usable c (n # ns) = rbind (chunk_usable c n) (\<lambda>u. if u then Inr (Some n) else find_usable c ns)"

fun count_usable :: "InodeChunk \<Rightarrow> nat list \<Rightarrow> nat res" where
  "count_usable c [] = Inr 0"
| "count_usable c (n # ns) = rbind (chunk_usable c n) (\<lambda>u. rbind (count_usable c ns) (\<lambda>k. Inr (if u then Suc k else k)))"

definition first_free :: "InodeChunk \<Rightarrow> nat option res" where
  "first_free c = find_usable c [0..<INODES_PER_CHUNK]"

definition count_ones :: "u64 \<Rightarrow> nat" where
  "count_ones w = length (filter (bit w) [0..<64])"

definition chunk_holes :: "InodeChunk \<Rightarrow> u64" where
  "chunk_holes c =
     fold (\<lambda>b m. m OR push_bit (b * INODES_PER_HOLEMASK_BIT) (push_bit INODES_PER_HOLEMASK_BIT 1 - 1))
       (filter (\<lambda>b. ic_holemask c AND push_bit b 1 \<noteq> 0) [0..<INODES_PER_CHUNK div INODES_PER_HOLEMASK_BIT]) 0"

definition check_counts :: "InodeChunk \<Rightarrow> unit res" where
  "check_counts c =
     (if unat (ic_count c) < INODES_PER_HOLEMASK_BIT \<or> INODES_PER_CHUNK < unat (ic_count c)
      then Inl (BadSuperblock ''the inode chunk claims a number of inodes no chunk holds'')
      else if unat (ic_freecount c) \<noteq> count_ones (ic_free c AND NOT (chunk_holes c))
      then Inl (BadSuperblock ''the inode chunk counts other free inodes than its free mask has'')
      else Inr ())"

definition chunk_record :: "bytes \<Rightarrow> nat \<Rightarrow> bool \<Rightarrow> InodeChunk res" where
  "chunk_record buf at sparse =
     rbind (be32 buf at) (\<lambda>startino.
     rbind (be64 buf (at + 8)) (\<lambda>free.
     if sparse
     then
       rbind (be16 buf (at + 4)) (\<lambda>holemask.
       rbind (byte_at buf (at + 6)) (\<lambda>count.
       rbind (byte_at buf (at + 7)) (\<lambda>freecount.
       let c = \<lparr>ic_startino = startino, ic_holemask = holemask, ic_count = count, ic_freecount = freecount, ic_free = free\<rparr>
       in rbind (check_counts c) (\<lambda>_. Inr c))))
     else
       rbind (be32 buf (at + 4)) (\<lambda>freecount.
       if INODES_PER_CHUNK < unat freecount then Inl (BadSuperblock ''an inode chunk claims more free inodes than a chunk holds'')
       else
         let c = \<lparr>ic_startino = startino, ic_holemask = 0, ic_count = of_nat INODES_PER_CHUNK, ic_freecount = ucast freecount, ic_free = free\<rparr>
         in rbind (check_counts c) (\<lambda>_. Inr c))))"

text \<open>A record as the checker reads it: the second result is the error the record was refused with, which the code
  keeps as its text.\<close>

definition record_counted :: "bytes \<Rightarrow> nat \<Rightarrow> bool \<Rightarrow> (InodeChunk \<times> error option) res" where
  "record_counted buf at sparse =
     (case chunk_record buf at sparse of
        Inr c \<Rightarrow> Inr (c, None)
      | Inl e \<Rightarrow>
          if e = Panic then Inl Panic
          else
            rbind (be32 buf at) (\<lambda>startino.
            rbind (if sparse then be16 buf (at + 4) else Inr 0) (\<lambda>holemask.
            rbind (if sparse then byte_at buf (at + 6) else Inr (of_nat INODES_PER_CHUNK)) (\<lambda>count.
            rbind (be64 buf (at + 8)) (\<lambda>free.
            rbind (if sparse then Inr False else rbind (be32 buf (at + 4)) (\<lambda>n. Inr (INODES_PER_CHUNK < unat n))) (\<lambda>packed.
            if packed then Inl e
            else
              let c = \<lparr>ic_startino = startino, ic_holemask = holemask, ic_count = count, ic_freecount = 0, ic_free = free\<rparr>
              in rbind (count_usable c [0..<INODES_PER_CHUNK]) (\<lambda>n.
                 let c = c\<lparr>ic_freecount := of_nat n\<rparr>
                 in rbind (check_counts c) (\<lambda>_. Inr (c, Some e)))))))))"

fun which_name :: "Which \<Rightarrow> string" where
  "which_name AllInodes = ''inobt''"
| "which_name WithFreeInodes = ''finobt''"

definition inobt_shape :: "Which \<Rightarrow> Shape" where
  "inobt_shape which = \<lparr>sh_name = which_name which, sh_magic_v4 = Some (which_magic which False), sh_magic_v5 = which_magic which True,
     sh_record_len = INOBT_RECORD_LEN, sh_key_len = INOBT_KEY_LEN, sh_overlapping = False\<rparr>"

definition chunk_encode :: "bool \<Rightarrow> bytes \<Rightarrow> nat \<Rightarrow> InodeChunk \<Rightarrow> bytes res" where
  "chunk_encode sparse buf at c =
     rbind (put buf at (be_bytes32 (ic_startino c))) (\<lambda>buf.
     rbind (if sparse
            then rbind (put buf (at + 4) (be_bytes16 (ic_holemask c))) (\<lambda>buf.
                 rbind (put buf (at + 6) [ic_count c]) (\<lambda>buf. put buf (at + 7) [ic_freecount c]))
            else put buf (at + 4) (be_bytes32 (ucast (ic_freecount c)))) (\<lambda>buf.
       put buf (at + 8) (be_bytes64 (ic_free c))))"

definition chunk_encode_key :: "bytes \<Rightarrow> nat \<Rightarrow> InodeChunk \<Rightarrow> bytes res" where
  "chunk_encode_key buf at c = put buf at (be_bytes32 (ic_startino c))"

definition chunk_keys :: "bytes \<Rightarrow> nat \<Rightarrow> InodeChunk list \<Rightarrow> bytes res" where
  "chunk_keys buf at cs = (case cs of [] \<Rightarrow> Inl Panic | c # _ \<Rightarrow> chunk_encode_key buf at c)"

section \<open>The reader's walk\<close>

definition inobt_identity :: "crc_crate \<Rightarrow> bytes \<Rightarrow> Superblock \<Rightarrow> u32 \<Rightarrow> u32 \<Rightarrow> unit res" where
  "inobt_identity C buf sb agno agblock =
     rbind (le32 buf 52) (\<lambda>stored.
     rbind (crc32c_with_zeroed_crc C buf 52) (\<lambda>crc.
     if stored \<noteq> crc then Inl (ChecksumMismatch ''inode btree block'' (ucast agblock))
     else
       rbind (uuid_at buf 32) (\<lambda>uuid.
       if uuid \<noteq> sb_meta_uuid sb then Inl (BlockIdentityMismatch ''inode btree block'' (ucast agblock) (- 1))
       else
         rbind (be32 buf 48) (\<lambda>owner.
         if owner \<noteq> agno then Inl (BlockIdentityMismatch ''inode btree block owner'' (ucast agno) (ucast owner))
         else
           rbind (be64 buf 16) (\<lambda>stated.
           if stated \<noteq> expected_blkno sb agno agblock
           then Inl (BlockIdentityMismatch ''inode btree block address'' (expected_blkno sb agno agblock) stated)
           else Inr ())))))"

definition inobt_parse_block :: "crc_crate \<Rightarrow> bytes \<Rightarrow> Superblock \<Rightarrow> Which \<Rightarrow> u32 \<Rightarrow> u32 \<Rightarrow> u16 \<Rightarrow> Node res" where
  "inobt_parse_block C buf sb which agno agblock expect_level =
     (let header = short_header (is_v5 sb)
      in if length buf < header then Inl (BadSuperblock ''block is shorter than its header'')
         else
           rbind (be32 buf 0) (\<lambda>magic.
           if magic \<noteq> which_magic which (is_v5 sb) then Inl (BadSuperblock ''block has the wrong magic'')
           else
             rbind (if is_v5 sb then inobt_identity C buf sb agno agblock else Inr ()) (\<lambda>_.
             rbind (be16 buf 4) (\<lambda>level.
             if level \<noteq> expect_level then Inl (BadSuperblock ''block is not at the level its parent points to it as'')
             else
               let space = length buf - header;
                   per = (if level = 0 then INOBT_RECORD_LEN else INOBT_KEY_LEN + PTR_LEN);
                   most = space div per
               in rbind (be16 buf 6) (\<lambda>numrecs.
                  if most < unat numrecs then Inl (BadSuperblock ''block claims more records than it has room for'')
                  else Inr \<lparr>nd_level = level, nd_numrecs = numrecs, nd_body = header, nd_maxrecs = most\<rparr>)))))"

fun inobt_loop ::
  "crc_crate \<Rightarrow> Superblock \<Rightarrow> Which \<Rightarrow> u32 \<Rightarrow> (u32 \<Rightarrow> bytes res) \<Rightarrow> nat \<Rightarrow> InodeChunk list \<Rightarrow> (u32 \<times> u16) list \<Rightarrow> InodeChunk list res" where
  "inobt_loop C sb which agno read budget out [] = Inr out"
| "inobt_loop C sb which agno read 0 out (entry # stack) =
     Inl (BadSuperblock ''the walk visited more blocks than the group holds; the tree points back into itself'')"
| "inobt_loop C sb which agno read (Suc budget) out ((agblock, expect_level) # stack) =
     rbind (read agblock) (\<lambda>buf.
     rbind (inobt_parse_block C buf sb which agno agblock expect_level) (\<lambda>node.
     if nd_level node = 0
     then
       if length buf < nd_body node + unat (nd_numrecs node) * INOBT_RECORD_LEN
       then Inl (BadSuperblock ''leaf needs more bytes for its records'')
       else rbind (read_records (\<lambda>b at. chunk_record b at (has_sparse_inodes sb)) INOBT_RECORD_LEN (nd_body node) (unat (nd_numrecs node)) buf) (\<lambda>rs.
              inobt_loop C sb which agno read budget (out @ rs) stack)
     else
       let begins = nd_body node + nd_maxrecs node * INOBT_KEY_LEN
       in if length buf < begins + unat (nd_numrecs node) * PTR_LEN
          then Inl (BadSuperblock ''node needs more bytes for its pointer array'')
          else rbind (read_records be32 PTR_LEN begins (unat (nd_numrecs node)) buf) (\<lambda>ptrs.
                 inobt_loop C sb which agno read budget out (map (\<lambda>p. (p, nd_level node - 1)) ptrs @ stack))))"

definition inobt_walk :: "crc_crate \<Rightarrow> Superblock \<Rightarrow> Which \<Rightarrow> u32 \<Rightarrow> u32 \<Rightarrow> u32 \<Rightarrow> (u32 \<Rightarrow> bytes res) \<Rightarrow> InodeChunk list res" where
  "inobt_walk C sb which agno root levels read =
     (if levels = 0 \<or> MAX_LEVELS < unat levels then Inl (BadSuperblock ''the tree claims a number of levels which is not a tree'')
      else inobt_loop C sb which agno read (max (unat (sb_agblocks sb)) 64) [] [(root, ucast (levels - 1))])"

definition walk_from_agi :: "crc_crate \<Rightarrow> Superblock \<Rightarrow> Agi \<Rightarrow> Which \<Rightarrow> (u32 \<Rightarrow> bytes res) \<Rightarrow> InodeChunk list option res" where
  "walk_from_agi C sb agi which read =
     (case which of
        AllInodes \<Rightarrow> rbind (inobt_walk C sb which (agi_seqno agi) (agi_root agi) (agi_level agi) read) (\<lambda>cs. Inr (Some cs))
      | WithFreeInodes \<Rightarrow>
          if \<not> has_finobt sb \<or> agi_free_level agi = 0 then Inr None
          else rbind (inobt_walk C sb which (agi_seqno agi) (agi_free_root agi) (agi_free_level agi) read) (\<lambda>cs. Inr (Some cs)))"

section \<open>Both trees of a group\<close>

definition RO_INOBTCNT :: u32 where "RO_INOBTCNT = 8"

record InodeTrees =
  it_agno :: u32
  it_ag_start :: u64
  it_agi_raw :: bytes
  it_agi :: Agi
  it_chunks :: "InodeChunk list"
  it_inobt_blocks :: "u32 list"
  it_finobt_blocks :: "u32 list"
  it_before :: "u32 \<Rightarrow> bytes option"
  it_counts :: "(u32 \<times> u32 \<times> u32 option) option"
  it_changed :: bool

definition chunk_start_aligned :: "Superblock \<Rightarrow> u32 \<Rightarrow> bool" where
  "chunk_start_aligned sb startino \<longleftrightarrow>
     unat (sb_inopblock sb) dvd unat startino \<and>
     (sb_inoalignmt sb = 0 \<or> unat (sb_inoalignmt sb) dvd unat (drop_bit (unat (sb_inopblog sb) mod 32) startino))"

definition chunk_start_fault :: "Superblock \<Rightarrow> u32 \<Rightarrow> InodeChunk \<Rightarrow> string option" where
  "chunk_start_fault sb len c =
     (let first_block = ucast (last_header_block sb) + 1 :: u64;
          start = ucast (ic_startino c) :: u64;
          fin = start + of_nat INODES_PER_CHUNK - 1
      in if \<not> chunk_start_aligned sb (ic_startino c) then Some ''the inode chunk is not on a chunk boundary''
         else if shr64 start (unat (sb_inopblog sb)) < first_block then Some ''the inode chunk is on the group's headers''
         else if ucast len \<le> shr64 fin (unat (sb_inopblog sb)) then Some ''the inode chunk runs past the end of the group''
         else None)"

fun check_chunk_starts :: "Superblock \<Rightarrow> u32 \<Rightarrow> InodeChunk list \<Rightarrow> unit res" where
  "check_chunk_starts sb len [] = Inr ()"
| "check_chunk_starts sb len (c # cs) =
     (case chunk_start_fault sb len c of Some why \<Rightarrow> Inl (BadSuperblock why) | None \<Rightarrow> check_chunk_starts sb len cs)"

text \<open>The decoder of the inode tree returns its refusal with the record, and the refusals are looked at after the walk:
  \<^verbatim>\<open>collect::<Result<Vec<_>>>\<close>.\<close>

definition attempt :: "'a res \<Rightarrow> 'a res res" where
  "attempt r = (if panics r then Inl Panic else Inr r)"

fun collect :: "'a res list \<Rightarrow> 'a list res" where
  "collect [] = Inr []"
| "collect (r # rs) = rbind r (\<lambda>x. rbind (collect rs) (\<lambda>xs. Inr (x # xs)))"

definition open_finobt :: "crc_crate \<Rightarrow> Superblock \<Rightarrow> u32 \<Rightarrow> Agi \<Rightarrow> (u32 \<Rightarrow> bytes res) \<Rightarrow> u32 list res" where
  "open_finobt C sb agno agi read =
     (if has_finobt sb \<and> 0 < agi_free_level agi
      then rbind (walk_blocks C sb (inobt_shape WithFreeInodes) agno (agi_free_root agi) (agi_free_level agi) read (\<lambda>_ _. Inr ())) (\<lambda>(_, blocks).
             Inr blocks)
      else Inr [])"

definition trees_open :: "crc_crate \<Rightarrow> Superblock \<Rightarrow> dev_read \<Rightarrow> u32 \<Rightarrow> InodeTrees res" where
  "trees_open C sb dev agno =
     (let ag_start = group_start sb agno;
          sector = ucast (sb_sectsize sb);
          read = read_agblock sb dev ag_start;
          sparse = has_sparse_inodes sb
      in rbind (dev (ag_start + sector * 2) (unat (sb_sectsize sb))) (\<lambda>agi_raw.
         rbind (agi_parse C agi_raw sb agno) (\<lambda>agi.
         rbind (dev (ag_start + sector) (unat (sb_sectsize sb))) (\<lambda>agf_raw.
         rbind (agf_parse C agf_raw sb agno) (\<lambda>agf.
         rbind (walk_blocks C sb (inobt_shape AllInodes) agno (agi_root agi) (agi_level agi) read (\<lambda>buf at. attempt (chunk_record buf at sparse)))
           (\<lambda>(records, inobt_blocks).
         rbind (collect records) (\<lambda>chunks.
         rbind (open_finobt C sb agno agi read) (\<lambda>finobt_blocks.
         rbind (check_chunk_starts sb (agf_length agf) chunks) (\<lambda>_.
         rbind (read_before read (inobt_blocks @ finobt_blocks) (\<lambda>_. None)) (\<lambda>before.
           Inr \<lparr>it_agno = agno, it_ag_start = ag_start, it_agi_raw = agi_raw, it_agi = agi, it_chunks = chunks,
                it_inobt_blocks = inobt_blocks, it_finobt_blocks = finobt_blocks, it_before = before, it_counts = None, it_changed = False\<rparr>))))))))))"

text \<open>\<^verbatim>\<open>chunks_mut\<close>: the caller's edit of the chunks is a parameter.\<close>

definition chunks_mut :: "(InodeChunk list \<Rightarrow> InodeChunk list) \<Rightarrow> InodeTrees \<Rightarrow> InodeTrees" where
  "chunks_mut f t = t\<lparr>it_changed := True, it_chunks := f (it_chunks t)\<rparr>"

definition set_counts :: "InodeTrees \<Rightarrow> u32 \<Rightarrow> u32 \<Rightarrow> u32 option \<Rightarrow> InodeTrees" where
  "set_counts t allocated freecount newino = t\<lparr>it_counts := Some (allocated, freecount, newino), it_changed := True\<rparr>"

text \<open>The blocks an inode tree grows by and shrinks by: the free space of its group, which is opened when it is first
  asked for.\<close>

definition source_take :: "crc_crate \<Rightarrow> Superblock \<Rightarrow> dev_read \<Rightarrow> u32 \<Rightarrow> OpenGroup list \<Rightarrow> (OpenGroup list \<times> u32) res" where
  "source_take C sb dev agno groups =
     rbind (allocations_group C sb dev groups agno) (\<lambda>(groups, i).
     rbind (inode_tree_take C sb dev (og_alloc (groups ! i))) (\<lambda>(a, b).
       Inr (groups[i := (groups ! i)\<lparr>og_alloc := a\<rparr>], b)))"

definition source_put :: "crc_crate \<Rightarrow> Superblock \<Rightarrow> dev_read \<Rightarrow> u32 \<Rightarrow> OpenGroup list \<Rightarrow> u32 \<Rightarrow> OpenGroup list res" where
  "source_put C sb dev agno groups b =
     rbind (allocations_group C sb dev groups agno) (\<lambda>(groups, i).
     rbind (inode_tree_put (og_alloc (groups ! i)) b) (\<lambda>a.
       Inr (groups[i := (groups ! i)\<lparr>og_alloc := a\<rparr>])))"

definition trees_relay ::
  "crc_crate \<Rightarrow> Superblock \<Rightarrow> dev_read \<Rightarrow> InodeTrees \<Rightarrow> Which \<Rightarrow> InodeChunk list \<Rightarrow> u32 list \<Rightarrow> OpenGroup list \<Rightarrow> BufferItem list \<Rightarrow>
   (OpenGroup list \<times> u32 list \<times> BufferItem list) res" where
  "trees_relay C sb dev t which chunks held groups items =
     relay C sb dev (it_ag_start t) (inobt_shape which) (it_agno t) chunks held (it_before t)
       (source_take C sb dev (it_agno t)) (source_put C sb dev (it_agno t)) groups
       (chunk_encode (has_sparse_inodes sb)) chunk_keys items"

definition finobt_fields :: "Superblock \<Rightarrow> u32 list \<Rightarrow> nat \<Rightarrow> bytes \<Rightarrow> bytes res" where
  "finobt_fields sb blocks records buf =
     (if blocks = [] then Inr buf
      else
        rbind (put32 buf 328 (last blocks)) (\<lambda>buf.
        rbind (level_of sb blocks (inobt_shape WithFreeInodes) records) (\<lambda>level. put32 buf 332 level)))"

definition block_counts :: "Superblock \<Rightarrow> u32 list \<Rightarrow> u32 list \<Rightarrow> bytes \<Rightarrow> bytes res" where
  "block_counts sb inobt finobt buf =
     (if sb_features_ro_compat sb AND RO_INOBTCNT \<noteq> 0
      then rbind (put32 buf 336 (of_nat (length inobt))) (\<lambda>buf. put32 buf 340 (of_nat (length finobt)))
      else Inr buf)"

definition inode_counts :: "(u32 \<times> u32 \<times> u32 option) option \<Rightarrow> bytes \<Rightarrow> bytes res" where
  "inode_counts counts buf =
     (case counts of
        None \<Rightarrow> Inr buf
      | Some (allocated, freecount, newino) \<Rightarrow>
          rbind (put32 buf 16 allocated) (\<lambda>buf.
          rbind (put32 buf 28 freecount) (\<lambda>buf.
          case newino of None \<Rightarrow> Inr buf | Some n \<Rightarrow> put32 buf 32 n)))"

definition new_agi :: "Superblock \<Rightarrow> InodeTrees \<Rightarrow> u32 list \<Rightarrow> nat \<Rightarrow> u32 list \<Rightarrow> nat \<Rightarrow> bytes res" where
  "new_agi sb t inobt chunks finobt with_free =
     rbind (root_of inobt) (\<lambda>root.
     rbind (put32 (it_agi_raw t) 20 root) (\<lambda>buf.
     rbind (level_of sb inobt (inobt_shape AllInodes) chunks) (\<lambda>level.
     rbind (put32 buf 24 level) (\<lambda>buf.
     rbind (finobt_fields sb finobt with_free buf) (\<lambda>buf.
     rbind (block_counts sb inobt finobt buf) (\<lambda>buf.
       inode_counts (it_counts t) buf))))))"

definition trees_items_in ::
  "crc_crate \<Rightarrow> Superblock \<Rightarrow> dev_read \<Rightarrow> InodeTrees \<Rightarrow> OpenGroup list \<Rightarrow> (OpenGroup list \<times> BufferItem list) res" where
  "trees_items_in C sb dev t groups =
     (if \<not> it_changed t then Inr (groups, [])
      else
        let chunks = it_chunks t;
            with_free = filter (\<lambda>c. 0 < ic_freecount c) chunks;
            sector = ucast (sb_sectsize sb) :: u64;
            ag_bb = it_ag_start t div of_nat BBSIZE
        in rbind (trees_relay C sb dev t AllInodes chunks (it_inobt_blocks t) groups []) (\<lambda>(groups, inobt, items).
           rbind (if it_finobt_blocks t = [] then Inr (groups, [], items)
                  else trees_relay C sb dev t WithFreeInodes with_free (it_finobt_blocks t) groups items) (\<lambda>(groups, finobt, items).
           rbind (new_agi sb t inobt (length chunks) finobt (length with_free)) (\<lambda>agi.
           rbind (changed_chunks (ag_bb + sector * 2 div of_nat BBSIZE) (it_agi_raw t) agi BLFT_AGI) (\<lambda>header.
             Inr (groups, header # items))))))"

definition trees_items :: "crc_crate \<Rightarrow> Superblock \<Rightarrow> dev_read \<Rightarrow> InodeTrees \<Rightarrow> BufferItem list res" where
  "trees_items C sb dev t =
     rbind (trees_items_in C sb dev t []) (\<lambda>(groups, items).
     rbind (allocations_items C sb dev groups) (\<lambda>more. Inr (items @ more)))"

section \<open>What a chunk counts\<close>

definition usable_place :: "InodeChunk \<Rightarrow> nat \<Rightarrow> bool" where
  "usable_place c n \<longleftrightarrow> n < 64 \<and> \<not> bit (ic_holemask c) (n div 4) \<and> bit (ic_free c) n"

lemma chunk_usable_place: "n < 64 \<Longrightarrow> chunk_usable c n = Inr (usable_place c n)"
  by (simp add: chunk_usable_def chunk_exists_def chunk_is_free_def usable_place_def and_exp_eq_0_iff_not_bit INODES_PER_CHUNK_def INODES_PER_HOLEMASK_BIT_def)

lemma count_usable_places: "\<forall>n \<in> set ns. n < 64 \<Longrightarrow> count_usable c ns = Inr (length (filter (usable_place c) ns))"
  by (induction ns) (simp_all add: chunk_usable_place)

lemma find_usable_place: "\<forall>n \<in> set ns. n < 64 \<Longrightarrow> find_usable c ns = Inr (find (usable_place c) ns)"
  by (induction ns) (simp_all add: chunk_usable_place)

lemma bit_fold_or: "bit (fold (\<lambda>b m. m OR f b) bs m0) n \<longleftrightarrow> bit m0 n \<or> (\<exists>b \<in> set bs. bit (f b) n)" for m0 :: "'a::len word"
  by (induction bs arbitrary: m0) (auto simp: bit_or_iff)

lemma bit_chunk_holes: "bit (chunk_holes c) n \<longleftrightarrow> n < 64 \<and> bit (ic_holemask c) (n div 4)"
proof -
  have m: "(15 :: u64) = mask 4" by (simp add: mask_eq_exp_minus_1)
  have "bit (push_bit (b * 4) (15 :: u64)) n \<longleftrightarrow> n < 64 \<and> n div 4 = b" for b
    unfolding m by (auto simp: bit_push_bit_iff bit_mask_iff)
  then show ?thesis
    by (auto simp: chunk_holes_def bit_fold_or INODES_PER_CHUNK_def INODES_PER_HOLEMASK_BIT_def and_exp_eq_0_iff_not_bit)
qed

lemma count_ones_free: "count_ones (ic_free c AND NOT (chunk_holes c)) = length (filter (usable_place c) [0..<64])"
proof -
  have "filter (bit (ic_free c AND NOT (chunk_holes c))) [0..<64] = filter (usable_place c) [0..<64]"
    by (rule filter_cong) (auto simp: bit_and_iff bit_not_iff bit_chunk_holes usable_place_def)
  then show ?thesis by (simp add: count_ones_def)
qed

text \<open>A chunk hands out what it counts: its free count is the number of inodes that are there and free, and the first of
  them is found exactly when the count is not zero.\<close>

definition hands_out :: "InodeChunk \<Rightarrow> bool" where
  "hands_out c \<longleftrightarrow>
     4 \<le> unat (ic_count c) \<and> unat (ic_count c) \<le> 64 \<and>
     unat (ic_freecount c) = card {n. chunk_exists c n = Inr True \<and> chunk_is_free c n = Inr True} \<and>
     (case first_free c of
        Inl _ \<Rightarrow> False
      | Inr None \<Rightarrow> ic_freecount c = 0
      | Inr (Some n) \<Rightarrow> ic_freecount c \<noteq> 0 \<and> n = (LEAST n. chunk_exists c n = Inr True \<and> chunk_is_free c n = Inr True) \<and>
          chunk_exists c n = Inr True \<and> chunk_is_free c n = Inr True)"

lemma usable_place_iff: "chunk_exists c n = Inr True \<and> chunk_is_free c n = Inr True \<longleftrightarrow> usable_place c n"
  by (auto simp: chunk_exists_def chunk_is_free_def usable_place_def and_exp_eq_0_iff_not_bit INODES_PER_CHUNK_def INODES_PER_HOLEMASK_BIT_def split: if_splits)

lemma card_places: "length (filter P [0..<n]) = card {i. i < n \<and> P i}"
  by (simp add: length_filter_conv_card cong: conj_cong)

lemma check_counts_Inr:
  "check_counts c = Inr () \<longleftrightarrow> 4 \<le> unat (ic_count c) \<and> unat (ic_count c) \<le> 64 \<and> unat (ic_freecount c) = card {n. usable_place c n}"
proof -
  have "{n. n < 64 \<and> usable_place c n} = {n. usable_place c n}" by (auto simp: usable_place_def)
  then show ?thesis
    by (auto simp: check_counts_def count_ones_free card_places INODES_PER_CHUNK_def INODES_PER_HOLEMASK_BIT_def)
qed

lemma check_counts_hands_out: "check_counts c = Inr () \<longleftrightarrow> hands_out c"
proof (cases "find (usable_place c) [0..<64]")
  case None
  then have none: "{n. usable_place c n} = {}" by (auto simp: find_None_iff usable_place_def)
  have "first_free c = Inr None" using None by (simp add: first_free_def find_usable_place INODES_PER_CHUNK_def)
  then show ?thesis by (auto simp: check_counts_Inr hands_out_def usable_place_iff none unat_eq_zero)
next
  case (Some n)
  then obtain i where i: "i < 64" "usable_place c i" "n = i" "\<forall>j < i. \<not> usable_place c j" by (auto simp: find_Some_iff)
  have ff: "first_free c = Inr (Some n)" using Some by (simp add: first_free_def find_usable_place INODES_PER_CHUNK_def)
  have least: "(LEAST n. usable_place c n) = n" using i by (metis (lifting) Least_equality not_le)
  have "finite {n. usable_place c n}" by (rule finite_subset [of _ "{..<64}"]) (auto simp: usable_place_def)
  then have "0 < card {n. usable_place c n}" using i by (auto simp: card_gt_0_iff)
  then show ?thesis using i by (auto simp: check_counts_Inr hands_out_def usable_place_iff ff least unat_eq_zero)
qed

lemma chunk_record_checked: "chunk_record buf at sparse = Inr c \<Longrightarrow> check_counts c = Inr ()"
  by (auto simp: chunk_record_def rbind_eq_Inr Let_def split: if_splits)

text \<open>C17. A chunk of inodes that is accepted hands out what it counts, in either layout and for whatever bytes it is read from: it
  has between 4 and 64 inodes, its free count is the number of inodes that have blocks behind them and are free, the
  first of those is the one a create takes, and there is none exactly when the count is zero.  A record the checker
  repairs the count of says the same.\<close>

theorem chunk_counts:
  "(case chunk_record buf at sparse of Inl _ \<Rightarrow> True | Inr c \<Rightarrow> hands_out c) \<and>
   (case record_counted buf at sparse of
      Inl _ \<Rightarrow> True
    | Inr (c, None) \<Rightarrow> hands_out c \<and> chunk_record buf at sparse = Inr c
    | Inr (c, Some e) \<Rightarrow> hands_out c \<and> chunk_record buf at sparse = Inl e)"
proof (rule conjI)
  show "case chunk_record buf at sparse of Inl _ \<Rightarrow> True | Inr c \<Rightarrow> hands_out c"
    by (auto simp: check_counts_hands_out [symmetric] dest: chunk_record_checked split: sum.splits)
  show "case record_counted buf at sparse of Inl _ \<Rightarrow> True | Inr (c, None) \<Rightarrow> hands_out c \<and> chunk_record buf at sparse = Inr c
    | Inr (c, Some e) \<Rightarrow> hands_out c \<and> chunk_record buf at sparse = Inl e"
  proof (cases "record_counted buf at sparse")
    case (Inr r)
    then show ?thesis
      by (auto simp: record_counted_def rbind_eq_Inr Let_def check_counts_hands_out [symmetric] split: sum.splits if_splits dest: chunk_record_checked)
  qed simp
qed

section \<open>The inode trees as codecs\<close>

definition chunk_image :: "bool \<Rightarrow> InodeChunk \<Rightarrow> bytes" where
  "chunk_image sparse c =
     be_bytes32 (ic_startino c) @ (if sparse then be_bytes16 (ic_holemask c) @ [ic_count c, ic_freecount c] else be_bytes32 (ucast (ic_freecount c))) @
     be_bytes64 (ic_free c)"

text \<open>What a record can say: without sparse inodes a chunk is whole.\<close>

definition chunk_valid :: "bool \<Rightarrow> InodeChunk \<Rightarrow> bool" where
  "chunk_valid sparse c \<longleftrightarrow> check_counts c = Inr () \<and> (if sparse then True else ic_holemask c = 0 \<and> ic_count c = 64)"

definition chunk_key_image :: "InodeChunk list \<Rightarrow> bytes" where
  "chunk_key_image cs = be_bytes32 (ic_startino (hd cs))"

lemma check_counts_freecount: "check_counts c = Inr () \<Longrightarrow> unat (ic_freecount c) \<le> 64"
  using card_mono [of "{..<64 :: nat}" "{n. usable_place c n}"] by (auto simp: check_counts_Inr usable_place_def)

lemma length_chunk_image [simp]: "length (chunk_image sparse c) = 16"
  by (simp add: chunk_image_def)

lemma chunk_middle_blit:
  assumes "at + 8 \<le> length b"
  shows "blit (blit (blit b (at + 4) (be_bytes16 h)) (at + 6) [n]) (at + 7) [f] = blit b (at + 4) (be_bytes16 h @ [n, f])"
  using assms blit_blit_adjacent [of "at + 4" "be_bytes16 h" "[n]" b] blit_blit_adjacent [of "at + 4" "be_bytes16 h @ [n]" "[f]" b]
  by (simp add: add.commute)

lemma chunk_encode_blit:
  assumes "at + 16 \<le> length b"
  shows "chunk_encode sparse b at c = Inr (blit b at (chunk_image sparse c))"
proof -
  define m where "m = (if sparse then be_bytes16 (ic_holemask c) @ [ic_count c, ic_freecount c] else be_bytes32 (ucast (ic_freecount c)))"
  let ?s = "be_bytes32 (ic_startino c)"
  have m: "length m = 4" by (simp add: m_def)
  have "chunk_encode sparse b at c = put (blit (blit b at ?s) (at + 4) m) (at + 8) (be_bytes64 (ic_free c))"
    using assms by (simp add: chunk_encode_def put_ok chunk_middle_blit m_def)
  also have "\<dots> = Inr (blit b at ((?s @ m) @ be_bytes64 (ic_free c)))"
    using assms m blit_blit_adjacent [of at ?s m b] blit_blit_adjacent [of at "?s @ m" "be_bytes64 (ic_free c)" b] by (simp add: put_ok)
  finally show ?thesis by (simp add: chunk_image_def m_def)
qed

lemma chunk_record_image:
  assumes "chunk_valid sparse c" "at + 16 \<le> length b" "take 16 (drop at b) = chunk_image sparse c"
  shows "chunk_record b at sparse = Inr c"
proof -
  have f: "be32 b at = Inr (ic_startino c)" "be64 b (at + 8) = Inr (ic_free c)"
    using assms(2) field_at [OF assms(3), of 0 4] field_at [OF assms(3), of 8 8] by (simp_all add: read_ok chunk_image_def)
  show ?thesis
  proof (cases sparse)
    case True
    have b: "b ! (at + i) = chunk_image sparse c ! i" if "i < 16" for i
      using assms(2,3) that by (metis add_lessD1 le_add1 nth_drop nth_take order_less_le_trans nat_add_left_cancel_less add_leD1 drop_drop length_drop)
    have "be16 b (at + 4) = Inr (ic_holemask c)" "byte_at b (at + 6) = Inr (ic_count c)" "byte_at b (at + 7) = Inr (ic_freecount c)"
      using assms(2) field_at [OF assms(3), of 4 2] b [of 6] b [of 7] True by (simp_all add: read_ok chunk_image_def nth_append)
    then show ?thesis using f True assms(1) by (cases c) (simp add: chunk_record_def chunk_valid_def)
  next
    case False
    have "be32 b (at + 4) = Inr (ucast (ic_freecount c))"
      using assms(2) field_at [OF assms(3), of 4 4] False by (simp add: read_ok chunk_image_def)
    moreover have "ucast (ucast (ic_freecount c) :: u32) = ic_freecount c" by (rule bit_word_eqI) (auto simp: bit_ucast_iff)
    ultimately show ?thesis using f False assms(1) check_counts_freecount [of c] by (cases c) (simp add: chunk_record_def chunk_valid_def INODES_PER_CHUNK_def)
  qed
qed

lemma check_counts_safe [simp]: "\<not> panics (check_counts c)"
  by (simp add: check_counts_def)

interpretation chunk_tree: tree_codec 16 "chunk_encode sparse" "\<lambda>b at. chunk_record b at sparse" "chunk_valid sparse" "chunk_image sparse"
  "inobt_shape which" chunk_keys chunk_key_image
  for sparse which
proof
  fix cs :: "InodeChunk list" and c :: InodeChunk and at :: nat and b :: bytes
  let ?kw = "keys_per_entry (inobt_shape which) * sh_key_len (inobt_shape which)"
  have kw: "?kw = 4" by (simp add: keys_per_entry_def inobt_shape_def INOBT_KEY_LEN_def)
  show "chunk_encode sparse b at c = Inr (blit b at (chunk_image sparse c))" if "at + 16 \<le> length b" using that by (rule chunk_encode_blit)
  show "length (chunk_image sparse c) = 16" by simp
  show "chunk_record b at sparse = Inr c" if "chunk_valid sparse c" "at + 16 \<le> length b" "take 16 (drop at b) = chunk_image sparse c"
    using that by (rule chunk_record_image)
  show "\<not> panics (chunk_record b at sparse)" if "at + 16 \<le> length b" using that by (simp add: chunk_record_def read_ok Let_def)
  show "sh_record_len (inobt_shape which) = 16" by (simp add: inobt_shape_def INOBT_RECORD_LEN_def)
  show "chunk_keys b at cs = Inr (blit b at (chunk_key_image cs))" if "cs \<noteq> []" "at + ?kw \<le> length b"
    using that kw by (cases cs) (simp_all add: chunk_keys_def chunk_key_image_def chunk_encode_key_def put_ok)
  show "length (chunk_key_image cs) = ?kw" by (simp add: kw chunk_key_image_def)
qed

section \<open>The two walks\<close>

lemma read_records_map:
  assumes "\<And>at r. dec b at = Inr r \<Longrightarrow> dec' b at = Inr (f r)"
  shows "read_records dec len at n b = Inr rs \<Longrightarrow> read_records dec' len at n b = Inr (map f rs)"
proof (induction n arbitrary: at rs)
  case (Suc n)
  then show ?case using assms by (fastforce simp: rbind_eq_Inr)
qed simp

text \<open>A decoder that succeeds where another does walks the same blocks.\<close>

lemma tree_loop_map:
  assumes "\<And>b at r. dec b at = Inr r \<Longrightarrow> dec' b at = Inr (f r)"
  shows "tree_loop C sb shape agno read dec budget out seen stack = Inr (rs, seen') \<Longrightarrow>
    tree_loop C sb shape agno read dec' budget (map f out) seen stack = Inr (map f rs, seen')"
proof (induction budget arbitrary: out seen stack)
  case 0
  then show ?case by (cases stack) auto
next
  case (Suc budget)
  show ?case
  proof (cases stack)
    case Nil
    then show ?thesis using Suc.prems by simp
  next
    case (Cons entry rest)
    obtain b l where bl: "entry = (b, l)" by (cases entry) auto
    obtain buf node where p: "read b = Inr buf" "parse_block C buf sb shape agno b l = Inr node" "unat (nd_level node) < length seen"
      using Suc.prems Cons bl by (auto simp: rbind_eq_Inr not_le split: if_splits)
    show ?thesis
    proof (cases "nd_level node = 0")
      case True
      then obtain xs where xs: "\<not> length buf < nd_body node + unat (nd_numrecs node) * sh_record_len shape"
        "read_records dec (sh_record_len shape) (nd_body node) (unat (nd_numrecs node)) buf = Inr xs"
        "tree_loop C sb shape agno read dec budget (out @ xs) (seen[unat (nd_level node) := seen ! unat (nd_level node) @ [b]]) rest = Inr (rs, seen')"
        using Suc.prems Cons bl p by (auto simp: rbind_eq_Inr Let_def split: if_splits)
      then show ?thesis using Suc.IH [OF xs(3)] read_records_map [OF assms xs(2)] p True Cons bl by (simp add: Let_def)
    next
      case False
      then show ?thesis using Suc.prems Suc.IH p Cons bl by (auto simp: rbind_eq_Inr Let_def not_less split: if_splits)
    qed
  qed
qed

lemma walk_blocks_map:
  assumes "\<And>b at r. dec b at = Inr r \<Longrightarrow> dec' b at = Inr (f r)" "walk_blocks C sb shape agno root levels read dec = Inr (rs, blocks)"
  shows "walk_blocks C sb shape agno root levels read dec' = Inr (map f rs, blocks)"
proof -
  obtain seen where s: "tree_loop C sb shape agno read dec (walk_budget sb) [] (replicate (unat levels) []) [(root, ucast (levels - 1))] = Inr (rs, seen)"
    "\<not> (levels = 0 \<or> MAX_LEVELS < unat levels)" "blocks = concat seen"
    using assms(2) by (auto simp: walk_blocks_def rbind_eq_Inr split: if_splits)
  show ?thesis using tree_loop_map [OF assms(1) s(1)] s(2,3) by (simp add: walk_blocks_def)
qed

text \<open>Records that are only collected after the walk: when all of them are good the walk with the refusing decoder gives them too.\<close>

lemma attempt_Inr [simp]: "attempt r = Inr (Inr x) \<longleftrightarrow> r = Inr x"
  by (cases r) (auto simp: attempt_def)

lemma collect_Inr [simp]: "collect rs = Inr xs \<longleftrightarrow> rs = map Inr xs"
  by (induction rs arbitrary: xs) (auto simp: rbind_eq_Inr)

lemma read_records_attempt:
  "read_records (\<lambda>b at. attempt (dec b at)) len at n b = Inr (map Inr rs) \<Longrightarrow> read_records dec len at n b = Inr rs"
proof (induction n arbitrary: at rs)
  case (Suc n)
  then show ?case by (cases rs) (auto simp: rbind_eq_Inr)
qed simp

lemma tree_loop_grows:
  "tree_loop C sb shape agno read dec budget out seen stack = Inr (rs, seen') \<Longrightarrow> \<exists>ys. rs = out @ ys"
proof (induction budget arbitrary: out seen stack)
  case 0
  then show ?case by (cases stack) auto
next
  case (Suc budget)
  show ?case
  proof (cases stack)
    case (Cons entry rest)
    then show ?thesis using Suc.prems by (cases entry) (auto simp: rbind_eq_Inr Let_def split: if_splits dest!: Suc.IH)
  qed (use Suc.prems in auto)
qed

lemma tree_loop_attempt:
  "tree_loop C sb shape agno read (\<lambda>b at. attempt (dec b at)) budget (map Inr out) seen stack = Inr (map Inr rs, seen') \<Longrightarrow>
    tree_loop C sb shape agno read dec budget out seen stack = Inr (rs, seen')"
proof (induction budget arbitrary: out seen stack)
  case 0
  then show ?case by (cases stack) (auto simp: inj_map_eq_map)
next
  case (Suc budget)
  show ?case
  proof (cases stack)
    case Nil
    then show ?thesis using Suc.prems by (auto simp: inj_map_eq_map)
  next
    case (Cons entry rest)
    obtain b l where bl: "entry = (b, l)" by (cases entry) auto
    obtain buf node where p: "read b = Inr buf" "parse_block C buf sb shape agno b l = Inr node" "unat (nd_level node) < length seen"
      using Suc.prems Cons bl by (auto simp: rbind_eq_Inr not_le split: if_splits)
    show ?thesis
    proof (cases "nd_level node = 0")
      case True
      let ?seen = "seen[unat (nd_level node) := seen ! unat (nd_level node) @ [b]]" and ?dec = "\<lambda>b at. attempt (dec b at)"
      obtain ws where ws: "\<not> length buf < nd_body node + unat (nd_numrecs node) * sh_record_len shape"
        "read_records ?dec (sh_record_len shape) (nd_body node) (unat (nd_numrecs node)) buf = Inr ws"
        "tree_loop C sb shape agno read ?dec budget (map Inr out @ ws) ?seen rest = Inr (map Inr rs, seen')"
        using Suc.prems Cons bl p True by (auto simp: rbind_eq_Inr Let_def split: if_splits)
      obtain ys where "map Inr rs = (map Inr out @ ws) @ ys" using tree_loop_grows [OF ws(3)] by blast
      then obtain xs where xs: "ws = map Inr xs" by (metis append_eq_map_conv)
      show ?thesis using Suc.IH [of "out @ xs" ?seen rest] ws read_records_attempt [OF ws(2) [unfolded xs]] p True Cons bl by (simp add: Let_def xs)
    next
      case False
      then show ?thesis using Suc.prems Suc.IH p Cons bl by (auto simp: rbind_eq_Inr Let_def not_less split: if_splits)
    qed
  qed
qed

lemma walk_blocks_attempt:
  "walk_blocks C sb shape agno root levels read (\<lambda>b at. attempt (dec b at)) = Inr (map Inr rs, blocks) \<longleftrightarrow>
   walk_blocks C sb shape agno root levels read dec = Inr (rs, blocks)"
proof
  assume "walk_blocks C sb shape agno root levels read (\<lambda>b at. attempt (dec b at)) = Inr (map Inr rs, blocks)"
  then show "walk_blocks C sb shape agno root levels read dec = Inr (rs, blocks)"
    using tree_loop_attempt [where out = "[]" and dec = dec and rs = rs] by (fastforce simp: walk_blocks_def rbind_eq_Inr split: if_splits)
next
  assume "walk_blocks C sb shape agno root levels read dec = Inr (rs, blocks)"
  then show "walk_blocks C sb shape agno root levels read (\<lambda>b at. attempt (dec b at)) = Inr (map Inr rs, blocks)"
    by (rule walk_blocks_map [rotated]) simp
qed

text \<open>The reader's parser of a block and the shared one accept the same blocks.\<close>

lemma inobt_identity_Inr: "inobt_identity C buf sb agno agblock = Inr () \<longleftrightarrow> block_identity C buf sb agno agblock = Inr ()"
  by (auto simp: inobt_identity_def block_identity_def rbind_eq_Inr split: if_splits)

lemma inobt_parse_Inr: "inobt_parse_block C buf sb which agno b l = Inr node \<longleftrightarrow> parse_block C buf sb (inobt_shape which) agno b l = Inr node"
proof -
  have m: "which_magic which (is_v5 sb) = (if is_v5 sb then sh_magic_v5 (inobt_shape which) else the (sh_magic_v4 (inobt_shape which)))"
    by (simp add: inobt_shape_def)
  have w: "sh_record_len (inobt_shape which) = INOBT_RECORD_LEN" "keys_per_entry (inobt_shape which) * sh_key_len (inobt_shape which) = INOBT_KEY_LEN"
    by (simp_all add: inobt_shape_def keys_per_entry_def)
  have d: "maxrecs s INOBT_RECORD_LEN = s div INOBT_RECORD_LEN" "maxrecs s (INOBT_KEY_LEN + PTR_LEN) = s div (INOBT_KEY_LEN + PTR_LEN)" for s
    by (simp_all add: maxrecs_def INOBT_RECORD_LEN_def INOBT_KEY_LEN_def PTR_LEN_def)
  have i: "(if is_v5 sb then inobt_identity C buf sb agno b else Inr ()) = Inr u \<longleftrightarrow> (if is_v5 sb then block_identity C buf sb agno b else Inr ()) = Inr u" for u :: unit
    using inobt_identity_Inr by simp
  have v: "sh_magic_v4 (inobt_shape which) = Some (which_magic which False)" "sh_magic_v5 (inobt_shape which) = which_magic which True"
    by (simp_all add: inobt_shape_def)
  show ?thesis unfolding inobt_parse_block_def parse_block_def Let_def w d m
    by (cases "is_v5 sb") (simp_all add: rbind_eq_Inr v d inobt_identity_Inr)
qed

lemma inobt_loop_tree:
  assumes "\<forall>(b, l) \<in> set stack. unat l < length seen"
  shows "inobt_loop C sb which agno read budget out stack = Inr cs \<longleftrightarrow>
    (\<exists>seen'. tree_loop C sb (inobt_shape which) agno read (\<lambda>b at. chunk_record b at (has_sparse_inodes sb)) budget out seen stack = Inr (cs, seen'))"
  using assms
proof (induction budget arbitrary: out seen stack)
  case 0
  then show ?case by (cases stack) auto
next
  case (Suc budget)
  show ?case
  proof (cases stack)
    case Nil
    then show ?thesis by simp
  next
    case (Cons entry rest)
    obtain b l where bl: "entry = (b, l)" by (cases entry) auto
    have l: "unat l < length seen" and rest: "\<forall>(b, l) \<in> set rest. unat l < length seen" using Suc.prems Cons bl by auto
    have w: "sh_record_len (inobt_shape which) = INOBT_RECORD_LEN" "keys_per_entry (inobt_shape which) = 1" "sh_key_len (inobt_shape which) = INOBT_KEY_LEN"
      by (simp_all add: inobt_shape_def keys_per_entry_def)
    let ?seen = "seen[unat l := seen ! unat l @ [b]]"
    have leaf: "inobt_loop C sb which agno read budget (out @ rs) rest = Inr cs \<longleftrightarrow>
        (\<exists>seen'. tree_loop C sb (inobt_shape which) agno read (\<lambda>b at. chunk_record b at (has_sparse_inodes sb)) budget (out @ rs) ?seen rest = Inr (cs, seen'))" for rs
      using Suc.IH [of rest ?seen] rest by simp
    have node: "inobt_loop C sb which agno read budget out (map (\<lambda>p. (p, l - 1)) ps @ rest) = Inr cs \<longleftrightarrow>
        (\<exists>seen'. tree_loop C sb (inobt_shape which) agno read (\<lambda>b at. chunk_record b at (has_sparse_inodes sb)) budget out ?seen (map (\<lambda>p. (p, l - 1)) ps @ rest) = Inr (cs, seen'))"
      if "l \<noteq> 0" for ps
    proof -
      have "unat (l - 1) \<le> unat l" using that by (subst unat_sub_le) (auto simp: unat_gt_0 Suc_le_eq)
      then have "\<forall>(b, l) \<in> set (map (\<lambda>p. (p, l - 1)) ps @ rest). unat l < length ?seen" using l rest by auto
      then show ?thesis by (rule Suc.IH)
    qed
    show ?thesis
    proof (cases "read b")
      case (Inl e)
      then show ?thesis using Cons bl by simp
    next
      case (Inr buf)
      show ?thesis
      proof (cases "parse_block C buf sb (inobt_shape which) agno b l")
        case (Inl e)
        then have "inobt_parse_block C buf sb which agno b l \<noteq> Inr node" for node using inobt_parse_Inr by fastforce
        then show ?thesis using Inl \<open>read b = Inr buf\<close> Cons bl by (simp add: rbind_eq_Inr)
      next
        case p: (Inr node)
        then have q: "inobt_parse_block C buf sb which agno b l = Inr node" using inobt_parse_Inr by blast
        have lev: "nd_level node = l" using parse_block_level [OF p] by simp
        then show ?thesis
          using Inr p q Cons bl l by (cases "l = 0") (auto simp: Let_def w rbind_eq_Inr leaf node)
      qed
    qed
  qed
qed

lemma inobt_walk_blocks:
  "inobt_walk C sb which agno root levels read = Inr cs \<longleftrightarrow>
   (\<exists>blocks. walk_blocks C sb (inobt_shape which) agno root levels read (\<lambda>b at. chunk_record b at (has_sparse_inodes sb)) = Inr (cs, blocks))"
proof (cases "levels = 0 \<or> MAX_LEVELS < unat levels")
  case True
  then show ?thesis by (auto simp: inobt_walk_def walk_blocks_def)
next
  case False
  have "unat (ucast (levels - 1) :: u16) < unat levels" using False top_level [of levels] by simp
  then show ?thesis
    using inobt_loop_tree [where stack = "[(root, ucast (levels - 1))]" and seen = "replicate (unat levels) []" and budget = "max (unat (sb_agblocks sb)) 64" and out = "[]"] False
    by (auto simp: inobt_walk_def walk_blocks_def walk_budget_def rbind_eq_Inr)
qed

section \<open>A group whose inode trees open\<close>

text \<open>Without the checks of v5 the group a block is read for makes no difference.\<close>

lemma tree_loop_v4:
  assumes "\<not> is_v5 sb"
  shows "tree_loop C sb shape agno read dec budget out seen stack = tree_loop C sb shape agno' read dec budget out seen stack"
proof -
  have p: "parse_block C buf sb shape agno b l = parse_block C buf sb shape agno' b l" for buf b l
    using assms by (simp add: parse_block_def)
  show ?thesis
  proof (induction budget arbitrary: out seen stack)
    case 0
    then show ?case by (cases stack) auto
  next
    case (Suc budget)
    show ?case
    proof (cases stack)
      case (Cons entry rest)
      then show ?thesis by (cases entry) (simp add: p Suc.IH Let_def cong: rbind_cong if_cong)
    qed simp
  qed
qed

lemma walk_blocks_v4: "\<not> is_v5 sb \<Longrightarrow> walk_blocks C sb shape agno root levels read dec = walk_blocks C sb shape agno' root levels read dec"
  using tree_loop_v4 [of sb C shape agno read dec "walk_budget sb" "[]" "replicate (unat levels) []" "[(root, ucast (levels - 1))]" agno'] by (simp add: walk_blocks_def)

lemma agi_parse_seqno: "agi_parse C buf sb agno = Inr agi \<Longrightarrow> is_v5 sb \<Longrightarrow> agi_seqno agi = agno"
  by (auto simp: agi_parse_def rbind_eq_Inr check_identity_Inr dest!: agi_fields_seqno split: if_splits)

lemma walk_agi_blocks:
  assumes "agi_parse C buf sb agno = Inr agi"
  shows "walk_blocks C sb shape (agi_seqno agi) root levels read dec = walk_blocks C sb shape agno root levels read dec"
  using assms agi_parse_seqno walk_blocks_v4 by metis

text \<open>Where a chunk that is accepted lies: from the first block past the headers on, and inside the group to its last inode.\<close>

definition chunk_inside :: "Superblock \<Rightarrow> u32 \<Rightarrow> InodeChunk \<Rightarrow> bool" where
  "chunk_inside sb len c \<longleftrightarrow>
     chunk_start_aligned sb (ic_startino c) \<and>
     unat (last_header_block sb) < unat (ic_startino c) div 2 ^ (unat (sb_inopblog sb) mod 64) \<and>
     (unat (ic_startino c) + 63) div 2 ^ (unat (sb_inopblog sb) mod 64) < unat len"

lemma chunk_start_fault_None: "chunk_start_fault sb len c = None \<longleftrightarrow> chunk_inside sb len c"
proof -
  have d: "unat (shr64 w k) = unat w div 2 ^ (k mod 64)" for w k by (simp add: shr64_def unat_drop_bit)
  have e: "unat (ucast (ic_startino c) + of_nat INODES_PER_CHUNK - 1 :: u64) = unat (ic_startino c) + 63"
    using unat_lt32 [of "ic_startino c"] by (simp add: INODES_PER_CHUNK_def unat_word_ariths)
  have f: "unat (ucast (last_header_block sb) + 1 :: u64) = Suc (unat (last_header_block sb))"
    using unat_lt32 [of "last_header_block sb"] by (simp add: unat_word_ariths)
  show ?thesis
    by (auto simp: chunk_start_fault_def Let_def chunk_inside_def word_less_nat_alt word_le_nat_alt d e f simp del: unat_sub_if')
qed

lemma check_chunk_starts_Inr: "check_chunk_starts sb len cs = Inr () \<longleftrightarrow> (\<forall>c \<in> set cs. chunk_inside sb len c)"
  by (induction cs) (auto simp: chunk_start_fault_None [symmetric] split: option.splits)

lemma trees_open_parts:
  assumes "trees_open C sb dev agno = Inr t"
  obtains agi_raw agi agf_raw agf chunks inobt finobt before where
    "dev (group_start sb agno + ucast (sb_sectsize sb) * 2) (unat (sb_sectsize sb)) = Inr agi_raw" "agi_parse C agi_raw sb agno = Inr agi"
    "dev (group_start sb agno + ucast (sb_sectsize sb)) (unat (sb_sectsize sb)) = Inr agf_raw" "agf_parse C agf_raw sb agno = Inr agf"
    "walk_blocks C sb (inobt_shape AllInodes) agno (agi_root agi) (agi_level agi) (read_agblock sb dev (group_start sb agno))
       (\<lambda>buf at. chunk_record buf at (has_sparse_inodes sb)) = Inr (chunks, inobt)"
    "open_finobt C sb agno agi (read_agblock sb dev (group_start sb agno)) = Inr finobt"
    "check_chunk_starts sb (agf_length agf) chunks = Inr ()"
    "read_before (read_agblock sb dev (group_start sb agno)) (inobt @ finobt) (\<lambda>_. None) = Inr before"
    "t = \<lparr>it_agno = agno, it_ag_start = group_start sb agno, it_agi_raw = agi_raw, it_agi = agi, it_chunks = chunks,
       it_inobt_blocks = inobt, it_finobt_blocks = finobt, it_before = before, it_counts = None, it_changed = False\<rparr>"
  using assms unfolding trees_open_def Let_def rbind_eq_Inr
  by (elim exE conjE) (simp add: rbind_eq_Inr walk_blocks_attempt split: prod.splits, elim exE conjE, rule that, auto simp: walk_blocks_attempt)

lemma tree_loop_records:
  assumes "\<And>b at r. dec b at = Inr r \<Longrightarrow> P r"
  shows "tree_loop C sb shape agno read dec budget out seen stack = Inr (rs, seen') \<Longrightarrow> \<forall>r \<in> set out. P r \<Longrightarrow> \<forall>r \<in> set rs. P r"
proof (induction budget arbitrary: out seen stack)
  case 0
  then show ?case by (cases stack) auto
next
  case (Suc budget)
  have rr: "read_records dec len at n buf = Inr xs \<Longrightarrow> \<forall>r \<in> set xs. P r" for len at n buf xs
    by (induction n arbitrary: at xs) (auto simp: rbind_eq_Inr dest: assms)
  show ?case
  proof (cases stack)
    case Nil
    then show ?thesis using Suc.prems by simp
  next
    case (Cons entry rest)
    then show ?thesis using Suc.prems(1)
      by (cases entry) (auto simp: rbind_eq_Inr Let_def split: if_splits dest!: Suc.IH rr intro: Suc.prems(2) [rule_format])
  qed
qed

lemma walk_blocks_records:
  assumes "\<And>b at r. dec b at = Inr r \<Longrightarrow> P r" "walk_blocks C sb shape agno root levels read dec = Inr (rs, blocks)"
  shows "\<forall>r \<in> set rs. P r"
  using assms(2) tree_loop_records [where P = P and dec = dec, OF assms(1)] by (fastforce simp: walk_blocks_def rbind_eq_Inr split: if_splits)

text \<open>C16. A group whose inode trees open is one a create may take an inode from: every chunk hands out exactly the inodes it counts, starts
  where a chunk may start, past the headers, and ends inside the group; the reader's own walk from the header finds the same
  chunks in the same order; and the images kept of the blocks are what the device holds.\<close>

theorem trees_open_sound:
  "case trees_open C sb dev agno of
     Inl e \<Rightarrow> True
   | Inr t \<Rightarrow> \<exists>agf_raw agf.
       dev (group_start sb agno + ucast (sb_sectsize sb)) (unat (sb_sectsize sb)) = Inr agf_raw \<and> agf_parse C agf_raw sb agno = Inr agf \<and>
       list_all (\<lambda>c. hands_out c \<and> chunk_inside sb (agf_length agf) c) (it_chunks t) \<and>
       walk_from_agi C sb (it_agi t) AllInodes (read_agblock sb dev (group_start sb agno)) = Inr (Some (it_chunks t)) \<and>
       remembers sb agno dev (it_before t) \<and> \<not> it_changed t"
proof (cases "trees_open C sb dev agno")
  case (Inr t)
  then show ?thesis
  proof (rule trees_open_parts)
    fix agi_raw agi agf_raw agf chunks inobt finobt before
    assume p: "agi_parse C agi_raw sb agno = Inr agi" "dev (group_start sb agno + ucast (sb_sectsize sb)) (unat (sb_sectsize sb)) = Inr agf_raw"
        "agf_parse C agf_raw sb agno = Inr agf"
      and w: "walk_blocks C sb (inobt_shape AllInodes) agno (agi_root agi) (agi_level agi) (read_agblock sb dev (group_start sb agno))
       (\<lambda>buf at. chunk_record buf at (has_sparse_inodes sb)) = Inr (chunks, inobt)"
      and c: "check_chunk_starts sb (agf_length agf) chunks = Inr ()"
      and b: "read_before (read_agblock sb dev (group_start sb agno)) (inobt @ finobt) (\<lambda>_. None) = Inr before"
      and t: "t = \<lparr>it_agno = agno, it_ag_start = group_start sb agno, it_agi_raw = agi_raw, it_agi = agi, it_chunks = chunks,
       it_inobt_blocks = inobt, it_finobt_blocks = finobt, it_before = before, it_counts = None, it_changed = False\<rparr>"
    have "\<forall>c \<in> set chunks. hands_out c"
      by (rule walk_blocks_records [OF _ w]) (simp add: check_counts_hands_out [symmetric] chunk_record_checked)
    then have "list_all (\<lambda>c. hands_out c \<and> chunk_inside sb (agf_length agf) c) chunks" using c by (simp add: list_all_iff check_chunk_starts_Inr)
    moreover have "inobt_walk C sb AllInodes (agi_seqno agi) (agi_root agi) (agi_level agi) (read_agblock sb dev (group_start sb agno)) = Inr chunks"
      using w by (auto simp: inobt_walk_blocks walk_agi_blocks [OF p(1)])
    moreover have "remembers sb agno dev before" using read_before_spec [OF b] by (simp add: remembers_def)
    ultimately show ?thesis using Inr p by (simp add: t walk_from_agi_def)
  qed
qed simp

end
