(* ===== verification/InodeRelay.thy ===== *)
theory InodeRelay
  imports InodeTree
begin

text \<open>
  The inode trees of a group laid out again and read back (\<^verbatim>\<open>Trees::into_items_in\<close> in \<^verbatim>\<open>src/src/inode_btree.rs\<close>).  The blocks come out of the
  group's free space, through the allocations of the operation, which are a \<open>block_source\<close> of their own: a group is opened when
  it is first asked for.

  What is shown is that the device on which the logged buffers have landed opens again, with the chunks the operation left.
\<close>

section \<open>The allocations of an operation as a source\<close>

definition group_in :: "crc_crate \<Rightarrow> Superblock \<Rightarrow> dev_read \<Rightarrow> u32 \<Rightarrow> OpenGroup list \<Rightarrow> OpenGroup res" where
  "group_in C sb dev agno groups =
     (case position (\<lambda>g. ga_agno (og_alloc g) = agno) groups of Some i \<Rightarrow> Inr (groups ! i) | None \<Rightarrow> group_open C sb dev agno)"

definition source_ok :: "crc_crate \<Rightarrow> Superblock \<Rightarrow> dev_read \<Rightarrow> u32 \<Rightarrow> nat \<Rightarrow> OpenGroup list \<Rightarrow> bool" where
  "source_ok C sb dev agno n groups \<longleftrightarrow>
     (case group_in C sb dev agno groups of Inl _ \<Rightarrow> True | Inr g \<Rightarrow> group_ok n (og_alloc g) \<and> n < 2 ^ 32)"

definition source_blocks :: "crc_crate \<Rightarrow> Superblock \<Rightarrow> dev_read \<Rightarrow> u32 \<Rightarrow> OpenGroup list \<Rightarrow> u32 multiset" where
  "source_blocks C sb dev agno groups = (case group_in C sb dev agno groups of Inl _ \<Rightarrow> {#} | Inr g \<Rightarrow> free_set (og_alloc g))"

lemma group_open_agno: "group_open C sb dev agno = Inr g \<Longrightarrow> ga_agno (og_alloc g) = agno"
  unfolding group_open_def Let_def rbind_eq_Inr by (elim exE conjE) (auto simp: rbind_eq_Inr split: prod.splits)

lemma allocations_group_in:
  assumes "allocations_group C sb dev groups agno = Inr (gs, i)"
  shows "group_in C sb dev agno groups = Inr (gs ! i)" "i < length gs" "ga_agno (og_alloc (gs ! i)) = agno"
    "ga_agno (og_alloc g') = agno \<Longrightarrow> group_in C sb dev agno (gs[i := g']) = Inr g'"
proof -
  let ?P = "\<lambda>g. ga_agno (og_alloc g) = agno"
  have "group_in C sb dev agno groups = Inr (gs ! i) \<and> position ?P gs = Some i"
  proof (cases "position ?P groups")
    case None
    then obtain g where g: "group_open C sb dev agno = Inr g" "gs = groups @ [g]" "i = length groups"
      using assms by (auto simp: allocations_group_def rbind_eq_Inr)
    have "position ?P (groups @ [g]) = Some (length groups)"
      using None group_open_agno [OF g(1)] by (auto simp: position_None position_Some nth_append)
    then show ?thesis using None g by (simp add: group_in_def)
  next
    case (Some j)
    then show ?thesis using assms by (simp add: allocations_group_def group_in_def)
  qed
  then have p: "position ?P gs = Some i" and "group_in C sb dev agno groups = Inr (gs ! i)" by auto
  then show "group_in C sb dev agno groups = Inr (gs ! i)" "i < length gs" "ga_agno (og_alloc (gs ! i)) = agno" by (auto simp: position_Some)
  show "group_in C sb dev agno (gs[i := g']) = Inr g'" if "ga_agno (og_alloc g') = agno"
  proof -
    have "position ?P (gs[i := g']) = Some i" "i < length gs" using p that by (auto simp: position_Some)
    then show ?thesis by (simp add: group_in_def)
  qed
qed

lemma inode_tree_take_agno: "inode_tree_take C sb dev g = Inr (g', b) \<Longrightarrow> ga_agno g' = ga_agno g"
  by (auto simp: inode_tree_take_def ga_take_def take_aligned_def take_at_def rbind_eq_Inr split: option.splits if_splits)

lemma inode_tree_put_agno: "inode_tree_put g b = Inr g' \<Longrightarrow> ga_agno g' = ga_agno g"
  by (auto simp: inode_tree_put_def forget_rmap_def give_back_def rbind_eq_Inr split: option.splits)

interpretation allocation_source: block_source "source_ok C sb dev agno n" "source_blocks C sb dev agno"
  "source_take C sb dev agno" "source_put C sb dev agno" "\<lambda>b. unat b < n"
  for C sb dev agno n
proof
  fix groups groups' :: "OpenGroup list" and b :: u32
  assume ok: "source_ok C sb dev agno n groups"
  show "source_ok C sb dev agno n groups' \<and> source_blocks C sb dev agno groups = add_mset b (source_blocks C sb dev agno groups')"
    if tk: "source_take C sb dev agno groups = Inr (groups', b)"
  proof -
    obtain gs i a where a: "allocations_group C sb dev groups agno = Inr (gs, i)" "inode_tree_take C sb dev (og_alloc (gs ! i)) = Inr (a, b)"
      "groups' = gs[i := (gs ! i)\<lparr>og_alloc := a\<rparr>]" using tk by (auto simp: source_take_def rbind_eq_Inr)
    note g = allocations_group_in [OF a(1)]
    have "group_in C sb dev agno groups' = Inr ((gs ! i)\<lparr>og_alloc := a\<rparr>)"
      unfolding a(3) using g(3,4) inode_tree_take_agno [OF a(2)] by simp
    then show ?thesis using ok g(1) inode_source.source_take_law [OF _ a(2)] by (simp add: source_ok_def source_blocks_def)
  qed
  show "source_ok C sb dev agno n groups' \<and> source_blocks C sb dev agno groups' = add_mset b (source_blocks C sb dev agno groups)"
    if fit: "unat b < n" and pt: "source_put C sb dev agno groups b = Inr groups'"
  proof -
    obtain gs i a where a: "allocations_group C sb dev groups agno = Inr (gs, i)" "inode_tree_put (og_alloc (gs ! i)) b = Inr a"
      "groups' = gs[i := (gs ! i)\<lparr>og_alloc := a\<rparr>]" using pt by (auto simp: source_put_def rbind_eq_Inr)
    note g = allocations_group_in [OF a(1)]
    have "group_in C sb dev agno groups' = Inr ((gs ! i)\<lparr>og_alloc := a\<rparr>)"
      unfolding a(3) using g(3,4) inode_tree_put_agno [OF a(2)] by simp
    then show ?thesis using ok g(1) inode_source.source_put_law [OF _ fit a(2)] by (simp add: source_ok_def source_blocks_def)
  qed
qed

section \<open>The inode header\<close>

text \<open>A word of the header that was written, and the words left alone.\<close>

lemma put32_Inr: "put32 b at v = Inr b' \<longleftrightarrow> at + 4 \<le> length b \<and> b' = blit b at (be_bytes32 v)"
  by (simp add: put32_def put_Inr_iff)

lemma be32_blit_same: "at + 4 \<le> length b \<Longrightarrow> be32 (blit b at (be_bytes32 v)) at = Inr v"
  by (simp add: read_ok take_drop_blit_same)

lemma field_blit_other:
  "at + length s \<le> length b \<Longrightarrow> off + n \<le> at \<or> at + length s \<le> off \<Longrightarrow> take n (drop off (blit b at s)) = take n (drop off b)"
  by (rule take_drop_blit_other) auto

lemma read_records_blit_other:
  assumes "at + length s \<le> length b" "off + 4 * n \<le> at \<or> at + length s \<le> off"
  shows "read_records be32 4 off n (blit b at s) = read_records be32 4 off n b"
  using assms(2)
proof (induction n arbitrary: off)
  case (Suc n)
  have "be32 (blit b at s) off = be32 b off"
    using assms(1) Suc.prems field_blit_other [OF assms(1), of off 4] by (auto simp: be32_def slice_def)
  moreover have "read_records be32 4 (off + 4) n (blit b at s) = read_records be32 4 (off + 4) n b"
    using Suc.prems by (intro Suc.IH) auto
  ultimately show ?case by simp
qed simp

lemma agi_fields_blit:
  assumes "344 \<le> length b" "agi_fields b = Inr agi"
  shows "agi_fields (blit b 16 (be_bytes32 v)) = Inr (agi\<lparr>agi_count := v\<rparr>)"
    "agi_fields (blit b 20 (be_bytes32 v)) = Inr (agi\<lparr>agi_root := v\<rparr>)"
    "agi_fields (blit b 24 (be_bytes32 v)) = Inr (agi\<lparr>agi_level := v\<rparr>)"
    "agi_fields (blit b 28 (be_bytes32 v)) = Inr (agi\<lparr>agi_freecount := v\<rparr>)"
    "agi_fields (blit b 32 (be_bytes32 v)) = Inr (agi\<lparr>agi_newino := v\<rparr>)"
    "agi_fields (blit b 328 (be_bytes32 v)) = Inr (agi\<lparr>agi_free_root := v\<rparr>)"
    "agi_fields (blit b 332 (be_bytes32 v)) = Inr (agi\<lparr>agi_free_level := v\<rparr>)"
    "agi_fields (blit b 336 (be_bytes32 v)) = Inr agi"
    "agi_fields (blit b 340 (be_bytes32 v)) = Inr agi"
    "agi_fields (blit b 312 (le_bytes32 v)) = Inr agi"
  using assms
  by (auto simp: agi_fields_def rbind_eq_Inr read_ok field_blit_other take_drop_blit_same read_records_blit_other XFS_AGI_UNLINKED_BUCKETS_def)

text \<open>What identifies a header: its magic, its group and its volume.\<close>

definition same_identity :: "bytes \<Rightarrow> bytes \<Rightarrow> bool" where
  "same_identity b b' \<longleftrightarrow>
     length b' = length b \<and> take 4 b' = take 4 b \<and> take 4 (drop 8 b') = take 4 (drop 8 b) \<and> take 16 (drop 296 b') = take 16 (drop 296 b)"

lemma same_identity_blit:
  "same_identity b b' \<Longrightarrow> at + length s \<le> length b \<Longrightarrow> 12 \<le> at \<Longrightarrow> at + length s \<le> 296 \<or> 312 \<le> at \<Longrightarrow> same_identity b (blit b' at s)"
  using field_blit_other [of at s b' 0 4] field_blit_other [of at s b' 8 4] field_blit_other [of at s b' 296 16] by (auto simp: same_identity_def)

lemma same_identity_refl [simp]: "same_identity b b"
  by (simp add: same_identity_def)

definition with_finobt :: "u32 list \<Rightarrow> u32 \<Rightarrow> Agi \<Rightarrow> Agi" where
  "with_finobt blocks level agi = (if blocks = [] then agi else agi\<lparr>agi_free_root := last blocks, agi_free_level := level\<rparr>)"

definition with_counts :: "(u32 \<times> u32 \<times> u32 option) option \<Rightarrow> Agi \<Rightarrow> Agi" where
  "with_counts counts agi =
     (case counts of
        None \<Rightarrow> agi
      | Some (allocated, freecount, newino) \<Rightarrow>
          agi\<lparr>agi_count := allocated, agi_freecount := freecount, agi_newino := (case newino of None \<Rightarrow> agi_newino agi | Some n \<Rightarrow> n)\<rparr>)"

lemma finobt_fields_spec:
  assumes "finobt_fields sb blocks records b = Inr b'" "344 \<le> length b" "agi_fields b = Inr agi" "same_identity a b"
  shows "\<exists>level. (blocks \<noteq> [] \<longrightarrow> level_of sb blocks (inobt_shape WithFreeInodes) records = Inr level) \<and> length b' = length b \<and> same_identity a b' \<and>
    agi_fields b' = Inr (with_finobt blocks level agi)"
proof (cases "blocks = []")
  case True
  then show ?thesis using assms by (simp add: finobt_fields_def with_finobt_def)
next
  case False
  obtain level where l: "level_of sb blocks (inobt_shape WithFreeInodes) records = Inr level"
    "b' = blit (blit b 328 (be_bytes32 (last blocks))) 332 (be_bytes32 level)"
    using assms(1) False by (auto simp: finobt_fields_def rbind_eq_Inr put32_Inr)
  have "agi_fields b' = Inr (agi\<lparr>agi_free_root := last blocks, agi_free_level := level\<rparr>)"
    unfolding l(2) using assms(2) agi_fields_blit(7) [OF _ agi_fields_blit(6) [OF assms(2,3)]] by simp
  moreover have "same_identity a b'" unfolding l(2) using assms(2,4) by (intro same_identity_blit) (auto simp: same_identity_def)
  ultimately show ?thesis using l False assms(2) by (auto simp: with_finobt_def)
qed

lemma block_counts_spec:
  assumes "block_counts sb inobt finobt b = Inr b'" "344 \<le> length b" "agi_fields b = Inr agi" "same_identity a b"
  shows "length b' = length b \<and> same_identity a b' \<and> agi_fields b' = Inr agi"
proof (cases "sb_features_ro_compat sb AND RO_INOBTCNT \<noteq> 0")
  case True
  then have b': "b' = blit (blit b 336 (be_bytes32 (of_nat (length inobt)))) 340 (be_bytes32 (of_nat (length finobt)))"
    using assms(1) by (auto simp: block_counts_def rbind_eq_Inr put32_Inr)
  have "agi_fields b' = Inr agi" unfolding b' using assms(2) agi_fields_blit(9) [OF _ agi_fields_blit(8) [OF assms(2,3)]] by simp
  moreover have "same_identity a b'" unfolding b' using assms(2,4) by (intro same_identity_blit) (auto simp: same_identity_def)
  ultimately show ?thesis using b' assms(2) by simp
next
  case False
  then show ?thesis using assms by (simp add: block_counts_def)
qed

lemma inode_counts_spec:
  assumes "inode_counts counts b = Inr b'" "344 \<le> length b" "agi_fields b = Inr agi" "same_identity a b"
  shows "length b' = length b \<and> same_identity a b' \<and> agi_fields b' = Inr (with_counts counts agi)"
proof (cases counts)
  case None
  then show ?thesis using assms by (simp add: inode_counts_def with_counts_def)
next
  case (Some c)
  obtain n f new where c: "c = (n, f, new)" by (cases c) auto
  define b1 where "b1 = blit (blit b 16 (be_bytes32 n)) 28 (be_bytes32 f)"
  have one: "agi_fields b1 = Inr (agi\<lparr>agi_count := n, agi_freecount := f\<rparr>)" "length b1 = length b" "same_identity a b1"
    using assms(2,4) agi_fields_blit(4) [OF _ agi_fields_blit(1) [OF assms(2,3)]]
    by (auto simp: b1_def intro!: same_identity_blit) (auto simp: same_identity_def)
  show ?thesis
  proof (cases new)
    case None
    then show ?thesis using assms(1) Some c one by (auto simp: inode_counts_def rbind_eq_Inr put32_Inr with_counts_def b1_def [symmetric])
  next
    case (Some m)
    then have "b' = blit b1 32 (be_bytes32 m)"
      using assms(1) \<open>counts = Some c\<close> c by (auto simp: inode_counts_def rbind_eq_Inr put32_Inr b1_def)
    moreover have "same_identity a (blit b1 32 (be_bytes32 m))" using assms(2,4) one by (intro same_identity_blit) (auto simp: same_identity_def)
    ultimately show ?thesis using assms(2) one agi_fields_blit(5) [of b1 _ m] \<open>counts = Some c\<close> c Some by (simp add: with_counts_def)
  qed
qed

lemma new_agi_spec:
  assumes "new_agi sb t inobt chunks finobt with_free = Inr b" "344 \<le> length (it_agi_raw t)" "agi_fields (it_agi_raw t) = Inr agi"
  shows "\<exists>level flevel. inobt \<noteq> [] \<and> level_of sb inobt (inobt_shape AllInodes) chunks = Inr level \<and>
    (finobt \<noteq> [] \<longrightarrow> level_of sb finobt (inobt_shape WithFreeInodes) with_free = Inr flevel) \<and>
    same_identity (it_agi_raw t) b \<and>
    agi_fields b = Inr (with_counts (it_counts t) (with_finobt finobt flevel (agi\<lparr>agi_root := last inobt, agi_level := level\<rparr>)))"
proof -
  obtain level b1 b2 b3 where s: "inobt \<noteq> []" "level_of sb inobt (inobt_shape AllInodes) chunks = Inr level"
    "b1 = blit (blit (it_agi_raw t) 20 (be_bytes32 (last inobt))) 24 (be_bytes32 level)"
    "finobt_fields sb finobt with_free b1 = Inr b2" "block_counts sb inobt finobt b2 = Inr b3" "inode_counts (it_counts t) b3 = Inr b"
    using assms(1) by (auto simp: new_agi_def root_of_def rbind_eq_Inr put32_Inr split: if_splits)
  have 1: "agi_fields b1 = Inr (agi\<lparr>agi_root := last inobt, agi_level := level\<rparr>)" "length b1 = length (it_agi_raw t)" "same_identity (it_agi_raw t) b1"
    unfolding s(3) using assms(2) agi_fields_blit(3) [OF _ agi_fields_blit(2) [OF assms(2,3)]] by (auto intro!: same_identity_blit)
  from finobt_fields_spec [OF s(4) _ 1(1,3)] assms(2) 1(2) obtain flevel where
    2: "finobt \<noteq> [] \<longrightarrow> level_of sb finobt (inobt_shape WithFreeInodes) with_free = Inr flevel" "length b2 = length b1" "same_identity (it_agi_raw t) b2"
    "agi_fields b2 = Inr (with_finobt finobt flevel (agi\<lparr>agi_root := last inobt, agi_level := level\<rparr>))" by auto
  note 3 = block_counts_spec [OF s(5) _ 2(4,3)]
  note 4 = inode_counts_spec [OF s(6) _ 3 [THEN conjunct2, THEN conjunct2] 3 [THEN conjunct2, THEN conjunct1]]
  show ?thesis using s(1,2) 1(2) 2 3 4 assms(2) by auto
qed

text \<open>The header as it is written: the checksum is put in, and the header is accepted again.\<close>

lemma agi_image_parses:
  assumes "is_v5 sb" "512 \<le> unat (sb_sectsize sb)" "length raw = unat (sb_sectsize sb)" "agi_parse C raw sb agno = Inr agi" "same_identity raw b"
    "agi_fields b = Inr agi'" "\<not> agi_count agi' < agi_freecount agi'" "agi_level agi' \<noteq> 0" "bi_data item = b" "bi_buf_type item = BLFT_AGI"
  shows "\<exists>img. image_as_written C item = Inr img \<and> length img = unat (sb_sectsize sb) \<and> agi_parse C img sb agno = Inr agi'"
proof -
  have len: "length b = unat (sb_sectsize sb)" "512 \<le> length b" using assms(2,3,5) by (auto simp: same_identity_def)
  obtain crc where crc: "crc32c_with_zeroed_crc C b 312 = Inr crc" using crc_ok [of 312 b C] len(2) by auto
  let ?img = "blit b 312 (le_bytes32 crc)"
  have img: "image_as_written C item = Inr ?img"
    using assms(9,10) crc len(2) by (simp add: image_as_written_def image_crc_at_def BLFT_AGI_def BLFT_AGF_def put_ok)
  have id: "same_identity raw ?img" using assms(5) len by (intro same_identity_blit) (auto simp: same_identity_def)
  have magic: "be32 ?img 0 = be32 raw 0" using id len by (simp add: read_ok same_identity_def)
  have "verify_crc C ''AGI'' ?img (unat (sb_sectsize sb)) 312 agno = Inr ()"
    using len crc crc_blit_self [of 312 b "le_bytes32 crc" C] by (simp add: verify_crc_Inr take_drop_blit_same)
  moreover have "check_identity ''AGI'' ?img sb 296 8 agno = Inr ()"
    using assms(1,4) id len by (auto simp: agi_parse_def rbind_eq_Inr check_identity_Inr same_identity_def split: if_splits)
  moreover have "be32 raw 0 = Inr XFS_AGI_MAGIC" using assms(4) by (auto simp: agi_parse_def rbind_eq_Inr split: if_splits)
  moreover have "agi_fields ?img = Inr agi'" using agi_fields_blit(10) [of b agi' crc] len(2) assms(6) by simp
  ultimately have "agi_parse C ?img sb agno = Inr agi'"
    using assms(1,7,8) len magic by (simp add: agi_parse_def XFS_AGI_SIZE_def)
  then show ?thesis using img len by auto
qed

section \<open>Where the header and the trees lie\<close>

definition roomy :: "Superblock \<Rightarrow> u32 \<Rightarrow> bool" where
  "roomy sb agno \<longleftrightarrow>
     (unat agno * unat (sb_agblocks sb) + unat (sb_agblocks sb)) * unat (sb_blocksize sb) < 2 ^ 64 \<and>
     3 * unat (sb_sectsize sb) \<le> unat (sb_agblocks sb) * unat (sb_blocksize sb) \<and> 512 \<le> unat (sb_sectsize sb) \<and> 512 dvd unat (sb_sectsize sb)"

definition in_group :: "Superblock \<Rightarrow> u32 \<Rightarrow> bool" where
  "in_group sb b \<longleftrightarrow> last_header_block sb < b \<and> b < sb_agblocks sb"

lemma in_group_addressed: "roomy sb agno \<Longrightarrow> in_group sb b \<Longrightarrow> addressed sb agno b"
proof -
  assume r: "roomy sb agno" "in_group sb b"
  have "(unat agno * unat (sb_agblocks sb) + unat b) * unat (sb_blocksize sb) \<le> (unat agno * unat (sb_agblocks sb) + unat (sb_agblocks sb)) * unat (sb_blocksize sb)"
    using r(2) by (intro mult_le_mono1) (simp add: in_group_def word_less_nat_alt)
  then show ?thesis using r(1) unfolding roomy_def addressed_def by linarith
qed

lemma unat_last_header_block:
  assumes "usable sb"
  shows "unat (last_header_block sb) = 3 * unat (sb_sectsize sb) div unat (sb_blocksize sb)"
proof -
  have three: "unat (3 * ucast (sb_sectsize sb) :: u64) = 3 * unat (sb_sectsize sb)"
    using unat_lt16 [of "sb_sectsize sb"] by (simp add: unat_word_ariths)
  have "unat (3 * ucast (sb_sectsize sb) div ucast (sb_blocksize sb) :: u64) = 3 * unat (sb_sectsize sb) div unat (sb_blocksize sb)"
    by (simp add: unat_div three)
  moreover have "3 * unat (sb_sectsize sb) div unat (sb_blocksize sb) \<le> 3 * unat (sb_sectsize sb) div 512"
    using assms by (intro div_le_mono2) (auto simp: usable_def)
  then have "3 * unat (sb_sectsize sb) div unat (sb_blocksize sb) < 2 ^ 32" using unat_lt16 [of "sb_sectsize sb"] by simp
  ultimately show ?thesis by (simp add: last_header_block_def unat_ucast_64_32)
qed

lemma group_start_value:
  assumes "usable sb" "roomy sb agno"
  shows "unat (group_start sb agno) = unat agno * unat (sb_agblocks sb) * unat (sb_blocksize sb)"
proof -
  have "addressed sb agno 0" using assms(2) by (simp add: roomy_def addressed_def add_mult_distrib)
  then show ?thesis using group_address(1) [of sb agno 0] assms(1) by (simp add: usable_def)
qed

text \<open>The blocks of the trees lie past the headers, and the three sectors of headers are where they are read.\<close>

lemma block_past_headers:
  assumes "usable sb" "roomy sb agno" "in_group sb b"
  shows "unat (group_start sb agno) + 3 * unat (sb_sectsize sb) \<le> unat (group_start sb agno + ucast b * ucast (sb_blocksize sb))"
proof -
  let ?bs = "unat (sb_blocksize sb)" and ?ss = "unat (sb_sectsize sb)"
  have "3 * ?ss div ?bs < unat b" using assms(3) unat_last_header_block [OF assms(1)] by (simp add: in_group_def word_less_nat_alt)
  then have "3 * ?ss < unat b * ?bs" using assms(1) by (simp add: div_less_iff_less_mult usable_def)
  then show ?thesis
    using group_address(1) [of sb agno b] in_group_addressed [OF assms(2,3)] assms(1) group_start_value [OF assms(1,2)]
    by (simp add: usable_def add_mult_distrib)
qed

lemma sector_offset:
  assumes "usable sb" "roomy sb agno" "k \<le> 2"
  shows "unat (group_start sb agno + ucast (sb_sectsize sb) * of_nat k) = unat (group_start sb agno) + k * unat (sb_sectsize sb)"
proof -
  have k: "unat (ucast (sb_sectsize sb) * of_nat k :: u64) = k * unat (sb_sectsize sb)"
    
  proof -
    consider "k = 0" | "k = 1" | "k = 2" using assms(3) by linarith
    then show ?thesis using unat_lt16 [of "sb_sectsize sb"] by cases (auto simp: unat_word_ariths)
  qed
  have "k * unat (sb_sectsize sb) \<le> 3 * unat (sb_sectsize sb)" using assms(3) by (intro mult_le_mono1) simp
  then have "unat (group_start sb agno) + k * unat (sb_sectsize sb) < 2 ^ 64"
    using assms(2) group_start_value [OF assms(1,2)] unfolding roomy_def add_mult_distrib by linarith
  then show ?thesis using k by (subst unat_add_small) auto
qed

lemma header_address:
  assumes "usable sb" "roomy sb agno"
  shows "(group_start sb agno div of_nat BBSIZE + ucast (sb_sectsize sb) * 2 div of_nat BBSIZE) * of_nat BBSIZE = group_start sb agno + ucast (sb_sectsize sb) * 2"
proof -
  let ?g = "group_start sb agno" and ?s = "ucast (sb_sectsize sb) * 2 :: u64"
  have dv: "512 dvd unat ?g" using assms(1) by (simp add: group_start_value [OF assms] usable_def)
  have s: "unat ?s = 2 * unat (sb_sectsize sb)" using unat_lt16 [of "sb_sectsize sb"] by (simp add: unat_word_ariths)
  have ds: "512 dvd unat ?s" using assms(2) by (simp add: s roomy_def)
  have q: "unat (?g div of_nat BBSIZE) = unat ?g div 512" "unat (?s div of_nat BBSIZE) = unat ?s div 512" by (simp_all add: unat_div BBSIZE_def)
  have sum: "unat (?g + ?s) = unat ?g + unat ?s" using sector_offset [OF assms, of 2] by (simp add: s)
  have "unat (?g div of_nat BBSIZE + ?s div of_nat BBSIZE) = unat ?g div 512 + unat ?s div 512"
    using unat_lt64 [of ?g] unat_lt64 [of ?s] by (subst unat_add_small) (simp_all add: q)
  moreover have "(unat ?g div 512 + unat ?s div 512) * 512 = unat ?g + unat ?s" using dv ds by (simp add: add_mult_distrib)
  ultimately have "unat ((?g div of_nat BBSIZE + ?s div of_nat BBSIZE) * of_nat BBSIZE) = unat ?g + unat ?s"
    using sum unat_lt64 [of "?g + ?s"] by (subst unat_mult_lem [THEN iffD1]) (simp_all add: BBSIZE_def)
  then show ?thesis using sum by (simp add: word_eq_unat)
qed

section \<open>What a walk visits\<close>

lemma concat_snoc_at:
  assumes "i < length xss"
  shows "set (concat (xss[i := xss ! i @ [b]])) = insert b (set (concat xss))"
proof -
  have "xss = take i xss @ xss ! i # drop (Suc i) xss" by (rule id_take_nth_drop [OF assms])
  then have "set (concat xss) = set (concat (take i xss)) \<union> set (xss ! i) \<union> set (concat (drop (Suc i) xss))"
    by (metis concat_append concat.simps(2) set_append Un_assoc)
  then show ?thesis by (simp add: upd_conv_take_nth_drop [OF assms]) blast
qed

lemma tree_loop_seen:
  "tree_loop C sb shape agno read dec budget out seen stack = Inr (rs, seen') \<Longrightarrow>
     set (concat seen) \<subseteq> set (concat seen') \<and> (\<forall>b \<in> set (concat seen'). b \<in> set (concat seen) \<or> (\<exists>raw. read b = Inr raw)) \<and>
     (stack \<noteq> [] \<longrightarrow> fst (hd stack) \<in> set (concat seen'))"
proof (induction budget arbitrary: out seen stack)
  case 0
  then show ?case by (cases stack) auto
next
  case (Suc budget)
  show ?case
  proof (cases stack)
    case Nil
    then show ?thesis using Suc.prems by simp
  next
    case (Cons entry rest)
    obtain b l where bl: "entry = (b, l)" by (cases entry) auto
    obtain buf node where p: "read b = Inr buf" "unat (nd_level node) < length seen" "parse_block C buf sb shape agno b l = Inr node"
      using Suc.prems Cons bl by (auto simp: rbind_eq_Inr not_le split: if_splits)
    then have step: "\<exists>out' stack'. tree_loop C sb shape agno read dec budget out' (seen[unat (nd_level node) := seen ! unat (nd_level node) @ [b]]) stack' = Inr (rs, seen')"
      using Suc.prems Cons bl by (cases "nd_level node = 0") (auto simp: rbind_eq_Inr Let_def split: if_splits)
    let ?seen = "seen[unat (nd_level node) := seen ! unat (nd_level node) @ [b]]"
    have "set (concat ?seen) = insert b (set (concat seen))" by (rule concat_snoc_at [OF p(2)])
    moreover from step obtain out' stack' where "tree_loop C sb shape agno read dec budget out' ?seen stack' = Inr (rs, seen')" by blast
    note Suc.IH [OF this]
    ultimately have sub: "insert b (set (concat seen)) \<subseteq> set (concat seen')" and
      old: "\<forall>x \<in> set (concat seen'). x \<in> insert b (set (concat seen)) \<or> (\<exists>raw. read x = Inr raw)" by auto
    have "\<forall>x \<in> set (concat seen'). x \<in> set (concat seen) \<or> (\<exists>raw. read x = Inr raw)"
    proof
      fix x
      assume "x \<in> set (concat seen')"
      then show "x \<in> set (concat seen) \<or> (\<exists>raw. read x = Inr raw)" using old p(1) by (cases "x = b") auto
    qed
    then show ?thesis using sub Cons bl by simp
  qed
qed

lemma walk_blocks_visits:
  assumes "walk_blocks C sb shape agno root levels read dec = Inr (rs, blocks)"
  shows "root \<in> set blocks" "\<forall>b \<in> set blocks. \<exists>raw. read b = Inr raw" "0 < levels"
proof -
  obtain seen where s: "tree_loop C sb shape agno read dec (walk_budget sb) [] (replicate (unat levels) []) [(root, ucast (levels - 1))] = Inr (rs, seen)"
    "blocks = concat seen" "levels \<noteq> 0"
    using assms by (auto simp: walk_blocks_def rbind_eq_Inr split: if_splits)
  show "root \<in> set blocks" "\<forall>b \<in> set blocks. \<exists>raw. read b = Inr raw" using tree_loop_seen [OF s(1)] s(2) by auto
  show "0 < levels" using s(3) by (simp add: word_neq_0_conv)
qed

lemma read_before_total: "\<forall>b \<in> set bs. \<exists>raw. read b = Inr raw \<Longrightarrow> \<exists>after. read_before read bs before = Inr after"
  by (induction bs arbitrary: before) auto

section \<open>The buffers of a tree\<close>

definition items_on :: "Superblock \<Rightarrow> u32 \<Rightarrow> u32 list \<Rightarrow> BufferItem list \<Rightarrow> bool" where
  "items_on sb agno blocks new \<longleftrightarrow>
     (\<forall>item \<in> set new. \<exists>b \<in> set blocks. bi_blkno item = expected_blkno sb agno b \<and> length (bi_data item) = unat (sb_blocksize sb))"

context tree_codec
begin

lemma relay_items_on:
  assumes "usable sb" "plan shape (sb_blocksize sb) (is_v5 sb) (length records) = Inr levels" "length blocks = sum_list levels"
    "length blocks \<le> walk_budget sb" "\<forall>r \<in> set records. valid r" "build C sb shape agno records blocks enc write_keys = Inr built"
    "relay_items sb dev start agno before built = Inr new"
  shows "items_on sb agno blocks new"
proof -
  have lay: "layable sb shape" using assms(1) by (intro group_layable) (simp_all add: usable_def)
  from build_walk [OF lay assms(2-5), of C agno] assms(6) have b: "map bt_agblock built = blocks" "\<forall>b \<in> set built. stamped C sb shape agno b" by auto
  have "length (bt_bytes b) = unat (sb_blocksize sb)" if "b \<in> set built" for b
  proof -
    from b(2) that obtain buf level n where st: "length buf = unat (sb_blocksize sb)" "stamp_block C buf sb shape agno (bt_agblock b) level n = Inr (bt_bytes b)"
      unfolding stamped_def by blast
    then show ?thesis
      using stamp_block_spec [of sb buf shape "sh_magic_v5 shape" C agno "bt_agblock b" level n] assms(1)
      by (auto simp: short_header_def SHORT_V5_HEADER_LEN_def shape_magic_def usable_def)
  qed
  then show ?thesis using relay_items_only [OF assms(7)] b(1) unfolding items_on_def by (metis in_set_conv_nth length_map nth_map nth_mem)
qed

end

lemma items_on_apart:
  assumes "usable sb" "roomy sb agno" "items_on sb agno xs new" "item \<in> set new" "\<forall>b \<in> set xs. in_group sb b" "in_group sb y" "y \<notin> set xs"
  shows "\<not> meets item (group_start sb agno + ucast y * ucast (sb_blocksize sb)) (unat (sb_blocksize sb))"
proof -
  obtain x where x: "x \<in> set xs" "bi_blkno item = expected_blkno sb agno x" "length (bi_data item) = unat (sb_blocksize sb)"
    using assms(3,4) by (auto simp: items_on_def)
  let ?g = "unat agno * unat (sb_agblocks sb)" and ?bs = "unat (sb_blocksize sb)"
  have dv: "512 dvd ?bs" using assms(1) by (simp add: usable_def)
  have ax: "addressed sb agno x" "addressed sb agno y" using in_group_addressed [OF assms(2)] assms(5,6) x(1) by auto
  have "unat x \<noteq> unat y" using assms(7) x(1) by (metis word_eq_unat)
  then have "Suc (?g + unat y) \<le> ?g + unat x \<or> Suc (?g + unat x) \<le> ?g + unat y" by linarith
  then have "Suc (?g + unat y) * ?bs \<le> (?g + unat x) * ?bs \<or> Suc (?g + unat x) * ?bs \<le> (?g + unat y) * ?bs" by (meson mult_le_mono1)
  then show ?thesis using group_address [OF dv ax(1)] group_address [OF dv ax(2)] x(2,3) by (simp add: meets_def add.commute)
qed

lemma items_on_past:
  assumes "usable sb" "roomy sb agno" "items_on sb agno xs new" "item \<in> set new" "\<forall>b \<in> set xs. in_group sb b"
    "unat off + n \<le> unat (group_start sb agno) + 3 * unat (sb_sectsize sb)"
  shows "\<not> meets item off n"
proof -
  obtain x where x: "x \<in> set xs" "bi_blkno item = expected_blkno sb agno x" using assms(3,4) by (auto simp: items_on_def)
  have "bi_blkno item * of_nat BBSIZE = group_start sb agno + ucast x * ucast (sb_blocksize sb)"
    using group_address(2) [of sb agno x] in_group_addressed [OF assms(2)] assms(1,5) x by (simp add: usable_def)
  then show ?thesis using block_past_headers [OF assms(1,2), of x] assms(5,6) x(1) by (simp add: meets_def)
qed

lemma distinct_budget:
  assumes "distinct bs" "\<forall>b \<in> set bs. in_group sb b"
  shows "length bs \<le> walk_budget sb"
proof -
  have "unat ` set bs \<subseteq> {..<unat (sb_agblocks sb)}" using assms(2) by (auto simp: in_group_def word_less_nat_alt)
  then have "card (unat ` set bs) \<le> unat (sb_agblocks sb)" using card_mono [of "{..<unat (sb_agblocks sb)}"] by simp
  moreover have "card (unat ` set bs) = length bs" using assms(1) by (simp add: card_image distinct_card inj_on_def word_eq_unat)
  ultimately show ?thesis by (simp add: walk_budget_def)
qed

text \<open>One of the two trees relaid, with the other's buffers and the header landing beside it.\<close>

lemma inode_tree_settles:
  assumes "usable sb" "roomy sb agno" "plan (inobt_shape which) (sb_blocksize sb) (is_v5 sb) (length cs) = Inr levels" "length blocks = sum_list levels"
    "\<forall>c \<in> set cs. chunk_valid sparse c" "build C sb (inobt_shape which) agno cs blocks (chunk_encode sparse) chunk_keys = Inr built"
    "relay_items sb dev (group_start sb agno) agno before built = Inr new" "remembers sb agno dev before" "landed C dev dev' items"
    "set new \<subseteq> set items" "\<forall>b \<in> set blocks. in_group sb b" "distinct blocks"
    "\<forall>item \<in> set items - set new. \<forall>b \<in> set blocks. \<not> meets item (group_start sb agno + ucast b * ucast (sb_blocksize sb)) (unat (sb_blocksize sb))"
  shows "relaid C sb agno dev' (inobt_shape which) (\<lambda>b at. chunk_record b at sparse) cs blocks"
proof (rule chunk_tree.relay_settles [OF assms(1) _ assms(3,4) distinct_budget [OF assms(12,11)] assms(5-8) _ assms(9,10) _ assms(12)])
  show "sh_magic_v5 (inobt_shape which) \<noteq> XFS_BMAP_CRC_MAGIC"
    by (cases which) (simp_all add: inobt_shape_def XFS_IBT_CRC_MAGIC_def XFS_FIBT_CRC_MAGIC_def XFS_BMAP_CRC_MAGIC_def)
  show "\<forall>b \<in> set blocks. addressed sb agno b" using assms(2,11) in_group_addressed by blast
  show "\<forall>item \<in> set items. \<forall>b \<in> set blocks. meets item (group_start sb agno + ucast b * ucast (sb_blocksize sb)) (unat (sb_blocksize sb)) \<longrightarrow> item \<in> set new"
    using assms(13) by blast
qed

text \<open>What a relay of an inode tree leaves behind.\<close>

lemma trees_relay_parts:
  assumes "trees_relay C sb dev t which cs held groups items = Inr (groups', blocks, items')" "source_ok C sb dev (it_agno t) n groups" "\<forall>b \<in> set held. unat b < n"
  obtains levels built new where "source_ok C sb dev (it_agno t) n groups'"
    "mset blocks + source_blocks C sb dev (it_agno t) groups' = mset held + source_blocks C sb dev (it_agno t) groups"
    "plan (inobt_shape which) (sb_blocksize sb) (is_v5 sb) (length cs) = Inr levels" "length blocks = sum_list levels"
    "build C sb (inobt_shape which) (it_agno t) cs blocks (chunk_encode (has_sparse_inodes sb)) chunk_keys = Inr built"
    "relay_items sb dev (it_ag_start t) (it_agno t) (it_before t) built = Inr new" "items' = items @ new"
  using relay_parts [OF allocation_source.block_source_axioms assms(1) [unfolded trees_relay_def] assms(2,3)] that by blast

section \<open>Both trees laid out again\<close>

definition with_free :: "InodeChunk list \<Rightarrow> InodeChunk list" where
  "with_free cs = filter (\<lambda>c. 0 < ic_freecount c) cs"

text \<open>The blocks the trees hold and the blocks the group has free are blocks of the group, each in one place.\<close>

definition apart_in_group :: "Superblock \<Rightarrow> nat \<Rightarrow> u32 multiset \<Rightarrow> bool" where
  "apart_in_group sb n bs \<longleftrightarrow> (\<forall>b. count bs b \<le> 1) \<and> (\<forall>b \<in># bs. in_group sb b \<and> unat b < n)"

lemma apart_distinct:
  assumes "mset xs + rest = bs" "apart_in_group sb n bs"
  shows "distinct xs" "\<forall>b \<in> set xs. in_group sb b \<and> unat b < n"
proof -
  have "count (mset xs) b \<le> 1" for b
  proof -
    have "count (mset xs) b \<le> count bs b" unfolding assms(1) [symmetric] by simp
    then show ?thesis using assms(2) by (metis apart_in_group_def order_trans)
  qed
  then show "distinct xs" by (simp add: distinct_count_atmost_1 le_Suc_eq)
  show "\<forall>b \<in> set xs. in_group sb b \<and> unat b < n" using assms by (auto simp: apart_in_group_def)
qed

lemma trees_items_parts:
  assumes "trees_items_in C sb dev t groups = Inr (groups', items)" "it_changed t" "source_ok C sb dev (it_agno t) n groups"
    "apart_in_group sb n (mset (it_inobt_blocks t @ it_finobt_blocks t) + source_blocks C sb dev (it_agno t) groups)"
  obtains inobt finobt levels built new flevels fbuilt fnew agi header where
    "mset (inobt @ finobt) + source_blocks C sb dev (it_agno t) groups' = mset (it_inobt_blocks t @ it_finobt_blocks t) + source_blocks C sb dev (it_agno t) groups"
    "plan (inobt_shape AllInodes) (sb_blocksize sb) (is_v5 sb) (length (it_chunks t)) = Inr levels" "length inobt = sum_list levels"
    "build C sb (inobt_shape AllInodes) (it_agno t) (it_chunks t) inobt (chunk_encode (has_sparse_inodes sb)) chunk_keys = Inr built"
    "relay_items sb dev (it_ag_start t) (it_agno t) (it_before t) built = Inr new"
    "if it_finobt_blocks t = [] then finobt = [] \<and> fnew = []
     else plan (inobt_shape WithFreeInodes) (sb_blocksize sb) (is_v5 sb) (length (with_free (it_chunks t))) = Inr flevels \<and> length finobt = sum_list flevels \<and>
       build C sb (inobt_shape WithFreeInodes) (it_agno t) (with_free (it_chunks t)) finobt (chunk_encode (has_sparse_inodes sb)) chunk_keys = Inr fbuilt \<and>
       relay_items sb dev (it_ag_start t) (it_agno t) (it_before t) fbuilt = Inr fnew"
    "new_agi sb t inobt (length (it_chunks t)) finobt (length (with_free (it_chunks t))) = Inr agi"
    "bi_data header = agi" "bi_buf_type header = BLFT_AGI"
    "bi_blkno header = it_ag_start t div of_nat BBSIZE + ucast (sb_sectsize sb) * 2 div of_nat BBSIZE"
    "items = header # new @ fnew"
proof -
  let ?agno = "it_agno t"
  obtain gs1 inobt items1 gs2 finobt items2 agi header where
    r: "trees_relay C sb dev t AllInodes (it_chunks t) (it_inobt_blocks t) groups [] = Inr (gs1, inobt, items1)"
      "(if it_finobt_blocks t = [] then Inr (gs1, [], items1)
        else trees_relay C sb dev t WithFreeInodes (with_free (it_chunks t)) (it_finobt_blocks t) gs1 items1) = Inr (gs2, finobt, items2)"
      "new_agi sb t inobt (length (it_chunks t)) finobt (length (with_free (it_chunks t))) = Inr agi"
      "changed_chunks (it_ag_start t div of_nat BBSIZE + ucast (sb_sectsize sb) * 2 div of_nat BBSIZE) (it_agi_raw t) agi BLFT_AGI = Inr header"
      "groups' = gs2" "items = header # items2"
    using assms(1,2) by (cases "it_finobt_blocks t = []") (auto simp: trees_items_in_def Let_def rbind_eq_Inr with_free_def [symmetric] split: prod.splits)
  have held: "\<forall>b \<in> set (it_inobt_blocks t). unat b < n" "\<forall>b \<in> set (it_finobt_blocks t). unat b < n"
    using assms(4) by (auto simp: apart_in_group_def)
  note h = changed_chunks_data [OF r(4)]
  from r(1) assms(3) held(1) show ?thesis
  proof (rule trees_relay_parts)
    fix levels built new
    assume one: "source_ok C sb dev ?agno n gs1" "mset inobt + source_blocks C sb dev ?agno gs1 = mset (it_inobt_blocks t) + source_blocks C sb dev ?agno groups"
      "plan (inobt_shape AllInodes) (sb_blocksize sb) (is_v5 sb) (length (it_chunks t)) = Inr levels" "length inobt = sum_list levels"
      "build C sb (inobt_shape AllInodes) ?agno (it_chunks t) inobt (chunk_encode (has_sparse_inodes sb)) chunk_keys = Inr built"
      "relay_items sb dev (it_ag_start t) ?agno (it_before t) built = Inr new" "items1 = [] @ new"
    show ?thesis
    proof (cases "it_finobt_blocks t = []")
      case True
      then have "finobt = []" "gs2 = gs1" "items2 = new" using r(2) one(7) by auto
      then show ?thesis using that [OF _ one(3-6) _ r(3), where fnew = "[]"] one(2) True h r(5,6) by auto
    next
      case False
      with r(2) have rel: "trees_relay C sb dev t WithFreeInodes (with_free (it_chunks t)) (it_finobt_blocks t) gs1 items1 = Inr (gs2, finobt, items2)" by simp
      from rel one(1) held(2) show ?thesis
      proof (rule trees_relay_parts)
        fix flevels fbuilt fnew
        assume two: "mset finobt + source_blocks C sb dev ?agno gs2 = mset (it_finobt_blocks t) + source_blocks C sb dev ?agno gs1"
          "plan (inobt_shape WithFreeInodes) (sb_blocksize sb) (is_v5 sb) (length (with_free (it_chunks t))) = Inr flevels" "length finobt = sum_list flevels"
          "build C sb (inobt_shape WithFreeInodes) ?agno (with_free (it_chunks t)) finobt (chunk_encode (has_sparse_inodes sb)) chunk_keys = Inr fbuilt"
          "relay_items sb dev (it_ag_start t) ?agno (it_before t) fbuilt = Inr fnew" "items2 = items1 @ fnew"
        have "mset (inobt @ finobt) + source_blocks C sb dev ?agno groups' = mset inobt + (mset finobt + source_blocks C sb dev ?agno gs2)" using r(5) by simp
        also have "\<dots> = mset (it_finobt_blocks t) + (mset inobt + source_blocks C sb dev ?agno gs1)" unfolding two(1) by simp
        also have "\<dots> = mset (it_inobt_blocks t @ it_finobt_blocks t) + source_blocks C sb dev ?agno groups" unfolding one(2) by simp
        finally show ?thesis using that [OF _ one(3-6) _ r(3), where fnew = fnew and flevels = flevels and fbuilt = fbuilt and header = header] two(2-6) one(7) False h r(6) by simp
      qed
    qed
  qed
qed

lemma with_counts_simps [simp]:
  "agi_root (with_counts counts agi) = agi_root agi" "agi_level (with_counts counts agi) = agi_level agi"
  "agi_free_root (with_counts counts agi) = agi_free_root agi" "agi_free_level (with_counts counts agi) = agi_free_level agi"
  "agi_seqno (with_counts counts agi) = agi_seqno agi"
  by (auto simp: with_counts_def split: option.splits)

lemma with_finobt_simps [simp]:
  "agi_root (with_finobt bs l agi) = agi_root agi" "agi_level (with_finobt bs l agi) = agi_level agi"
  "agi_count (with_finobt bs l agi) = agi_count agi" "agi_freecount (with_finobt bs l agi) = agi_freecount agi"
  by (simp_all add: with_finobt_def)

text \<open>What an operation has done to the trees it opened: any edit of the chunks, and the counts it decided on.\<close>

definition edited :: "InodeTrees \<Rightarrow> InodeChunk list \<Rightarrow> (u32 \<times> u32 \<times> u32 option) option \<Rightarrow> InodeTrees" where
  "edited t cs counts = t\<lparr>it_chunks := cs, it_counts := counts, it_changed := True\<rparr>"

text \<open>A device reads as many bytes as it was asked for.\<close>

definition whole_reads :: "dev_read \<Rightarrow> bool" where
  "whole_reads dev \<longleftrightarrow> (\<forall>off n raw. dev off n = Inr raw \<longrightarrow> length raw = n)"

definition sound_counts :: "(u32 \<times> u32 \<times> u32 option) option \<Rightarrow> bool" where
  "sound_counts counts \<longleftrightarrow> (case counts of None \<Rightarrow> True | Some (allocated, freecount, _) \<Rightarrow> freecount \<le> allocated)"

lemma open_finobt_empty:
  assumes "open_finobt C sb agno agi read = Inr blocks"
  shows "blocks = [] \<longleftrightarrow> \<not> (has_finobt sb \<and> 0 < agi_free_level agi)"
proof (cases "has_finobt sb \<and> 0 < agi_free_level agi")
  case True
  then obtain u where "walk_blocks C sb (inobt_shape WithFreeInodes) agno (agi_free_root agi) (agi_free_level agi) read (\<lambda>_ _. Inr ()) = Inr (u, blocks)"
    using assms by (auto simp: open_finobt_def rbind_eq_Inr)
  from walk_blocks_visits(1) [OF this] show ?thesis using True by auto
next
  case False
  then show ?thesis using assms by (auto simp: open_finobt_def split: if_splits)
qed

lemma relaid_walk:
  assumes "relaid C sb agno dev shape dec rs blocks" "level_of sb blocks shape (length rs) = Inr level"
  shows "walk_blocks C sb shape agno (last blocks) level (read_agblock sb dev (group_start sb agno)) dec = Inr (rs, blocks)"
  using assms by (auto simp: relaid_def)

text \<open>What lands is both trees and the header, each whole.\<close>

lemma trees_land:
  assumes "usable sb" "roomy sb agno" "remembers sb agno dev before" "landed C dev dev' items" "items = header # new @ fnew"
    and one: "plan (inobt_shape AllInodes) (sb_blocksize sb) (is_v5 sb) (length cs) = Inr levels" "length inobt = sum_list levels"
      "build C sb (inobt_shape AllInodes) agno cs inobt (chunk_encode sparse) chunk_keys = Inr built"
      "relay_items sb dev (group_start sb agno) agno before built = Inr new" "\<forall>c \<in> set cs. chunk_valid sparse c"
    and two: "if held = [] then finobt = [] \<and> fnew = []
         else plan (inobt_shape WithFreeInodes) (sb_blocksize sb) (is_v5 sb) (length (with_free cs)) = Inr flevels \<and> length finobt = sum_list flevels \<and>
           build C sb (inobt_shape WithFreeInodes) agno (with_free cs) finobt (chunk_encode sparse) chunk_keys = Inr fbuilt \<and>
           relay_items sb dev (group_start sb agno) agno before fbuilt = Inr fnew"
    and all: "distinct (inobt @ finobt)" "\<forall>b \<in> set (inobt @ finobt). in_group sb b"
    and header: "bi_blkno header = group_start sb agno div of_nat BBSIZE + ucast (sb_sectsize sb) * 2 div of_nat BBSIZE" "length (bi_data header) = unat (sb_sectsize sb)"
  shows "relaid C sb agno dev' (inobt_shape AllInodes) (\<lambda>b at. chunk_record b at sparse) cs inobt"
    "held \<noteq> [] \<Longrightarrow> relaid C sb agno dev' (inobt_shape WithFreeInodes) (\<lambda>b at. chunk_record b at sparse) (with_free cs) finobt"
    "dev' (group_start sb agno + ucast (sb_sectsize sb) * 2) (unat (sb_sectsize sb)) = image_as_written C header"
    "dev' (group_start sb agno + ucast (sb_sectsize sb)) (unat (sb_sectsize sb)) = dev (group_start sb agno + ucast (sb_sectsize sb)) (unat (sb_sectsize sb))"
proof -
  let ?S = "group_start sb agno" and ?ss = "unat (sb_sectsize sb)" and ?bs = "unat (sb_blocksize sb)"
  have d: "distinct inobt" "distinct finobt" "set inobt \<inter> set finobt = {}" "\<forall>b \<in> set inobt. in_group sb b" "\<forall>b \<in> set finobt. in_group sb b" using all by auto
  have val: "\<forall>c \<in> set (with_free cs). chunk_valid sparse c" using one(5) by (auto simp: with_free_def)
  have on1: "items_on sb agno inobt new" by (rule chunk_tree.relay_items_on [OF assms(1) one(1,2) distinct_budget [OF d(1,4)] one(5,3,4)])
  have on2: "items_on sb agno finobt fnew"
  proof (cases "held = []")
    case True
    then show ?thesis using two by (simp add: items_on_def)
  next
    case False
    then have "plan (inobt_shape WithFreeInodes) (sb_blocksize sb) (is_v5 sb) (length (with_free cs)) = Inr flevels" "length finobt = sum_list flevels"
      "build C sb (inobt_shape WithFreeInodes) agno (with_free cs) finobt (chunk_encode sparse) chunk_keys = Inr fbuilt" "relay_items sb dev ?S agno before fbuilt = Inr fnew"
      using two by simp_all
    then show ?thesis by (rule chunk_tree.relay_items_on [OF assms(1) _ _ distinct_budget [OF d(2,5)] val])
  qed
  have hoff: "bi_blkno header * of_nat BBSIZE = ?S + ucast (sb_sectsize sb) * 2" using header_address [OF assms(1,2)] header(1) by simp
  have hat: "unat (?S + ucast (sb_sectsize sb) * 2) = unat ?S + 2 * ?ss" "unat (?S + ucast (sb_sectsize sb)) = unat ?S + ?ss"
    using sector_offset [OF assms(1,2), of 2] sector_offset [OF assms(1,2), of 1] by simp_all
  have clear: "\<not> meets header (?S + ucast b * ucast (sb_blocksize sb)) ?bs" if "in_group sb b" for b
    using block_past_headers [OF assms(1,2) that] header(2) by (simp add: meets_def hoff hat)
  show "relaid C sb agno dev' (inobt_shape AllInodes) (\<lambda>b at. chunk_record b at sparse) cs inobt"
  proof (rule inode_tree_settles [OF assms(1,2) one(1,2,5,3,4) assms(3,4) _ d(4,1)])
    show "set new \<subseteq> set items" using assms(5) by auto
    show "\<forall>item \<in> set items - set new. \<forall>b \<in> set inobt. \<not> meets item (?S + ucast b * ucast (sb_blocksize sb)) ?bs"
      using items_on_apart [OF assms(1,2) on2 _ d(5)] clear d(3,4) assms(5) by (auto simp: disjoint_iff)
  qed
  show "relaid C sb agno dev' (inobt_shape WithFreeInodes) (\<lambda>b at. chunk_record b at sparse) (with_free cs) finobt" if "held \<noteq> []"
  proof (rule inode_tree_settles [OF assms(1,2) _ _ val _ _ assms(3,4) _ d(5,2)])
    show "set fnew \<subseteq> set items" using assms(5) by auto
    show "\<forall>item \<in> set items - set fnew. \<forall>b \<in> set finobt. \<not> meets item (?S + ucast b * ucast (sb_blocksize sb)) ?bs"
      using items_on_apart [OF assms(1,2) on1 _ d(4)] clear d(5) d(3) [unfolded disjoint_iff] assms(5) by (auto, blast)
  qed (use two that in auto)
  show "dev' (?S + ucast (sb_sectsize sb) * 2) ?ss = image_as_written C header" using assms(4,5) header(2) hoff by (simp add: landed_def)
  have "\<not> meets item (?S + ucast (sb_sectsize sb)) ?ss" if "item \<in> set items" for item
    using that items_on_past [OF assms(1,2) on1 _ d(4), of item "?S + ucast (sb_sectsize sb)" ?ss]
      items_on_past [OF assms(1,2) on2 _ d(5), of item "?S + ucast (sb_sectsize sb)" ?ss] assms(5) hat hoff header(2) by (auto simp: meets_def)
  then show "dev' (?S + ucast (sb_sectsize sb)) ?ss = dev (?S + ucast (sb_sectsize sb)) ?ss" using assms(4) by (simp add: landed_def)
qed

lemma collect_map_Inr [simp]: "collect (map Inr xs) = Inr xs"
  by simp

text \<open>A header and a tree that read back are a group that opens.\<close>

lemma trees_reopen:
  assumes "dev (group_start sb agno + ucast (sb_sectsize sb) * 2) (unat (sb_sectsize sb)) = Inr img" "agi_parse C img sb agno = Inr agi"
    "dev (group_start sb agno + ucast (sb_sectsize sb)) (unat (sb_sectsize sb)) = Inr agf_raw" "agf_parse C agf_raw sb agno = Inr agf"
    "walk_blocks C sb (inobt_shape AllInodes) agno (agi_root agi) (agi_level agi) (read_agblock sb dev (group_start sb agno))
       (\<lambda>b at. chunk_record b at (has_sparse_inodes sb)) = Inr (cs, inobt)"
    "open_finobt C sb agno agi (read_agblock sb dev (group_start sb agno)) = Inr finobt" "\<forall>c \<in> set cs. chunk_inside sb (agf_length agf) c"
  shows "\<exists>before. trees_open C sb dev agno = Inr \<lparr>it_agno = agno, it_ag_start = group_start sb agno, it_agi_raw = img, it_agi = agi, it_chunks = cs,
    it_inobt_blocks = inobt, it_finobt_blocks = finobt, it_before = before, it_counts = None, it_changed = False\<rparr>"
proof -
  let ?read = "read_agblock sb dev (group_start sb agno)"
  have "\<forall>b \<in> set finobt. \<exists>raw. ?read b = Inr raw"
    using assms(6) walk_blocks_visits(2) by (fastforce simp: open_finobt_def rbind_eq_Inr split: if_splits)
  then have "\<forall>b \<in> set (inobt @ finobt). \<exists>raw. ?read b = Inr raw" using walk_blocks_visits(2) [OF assms(5)] by auto
  then obtain before where "read_before ?read (inobt @ finobt) (\<lambda>_. None) = Inr before" using read_before_total by blast
  moreover have "check_chunk_starts sb (agf_length agf) cs = Inr ()" using assms(7) by (simp add: check_chunk_starts_Inr)
  ultimately have "trees_open C sb dev agno = Inr \<lparr>it_agno = agno, it_ag_start = group_start sb agno, it_agi_raw = img, it_agi = agi, it_chunks = cs,
    it_inobt_blocks = inobt, it_finobt_blocks = finobt, it_before = before, it_counts = None, it_changed = False\<rparr>"
    using assms(1-4,6) walk_blocks_attempt [THEN iffD2, OF assms(5)] by (simp add: trees_open_def del: collect_Inr)
  then show ?thesis by blast
qed

lemma finobt_reopens:
  assumes "agi_parse C img sb agno = Inr agi"
    "if has = [] then blocks = [] \<and> \<not> (has_finobt sb \<and> 0 < agi_free_level agi)
     else has_finobt sb \<and> agi_free_root agi = root \<and> agi_free_level agi = level \<and>
       walk_blocks C sb (inobt_shape WithFreeInodes) agno root level read (\<lambda>b at. chunk_record b at (has_sparse_inodes sb)) = Inr (cs, blocks)"
  shows "open_finobt C sb agno agi read = Inr blocks" "walk_from_agi C sb agi WithFreeInodes read = Inr (if has = [] then None else Some cs)"
proof -
  show "open_finobt C sb agno agi read = Inr blocks"
  proof (cases "has = []")
    case True
    then show ?thesis using assms(2) by (auto simp: open_finobt_def)
  next
    case False
    then have w: "walk_blocks C sb (inobt_shape WithFreeInodes) agno root level read (\<lambda>b at. chunk_record b at (has_sparse_inodes sb)) = Inr (cs, blocks)"
      using assms(2) by simp
    show ?thesis using walk_blocks_visits(3) [OF w] walk_blocks_map [OF _ w, of "\<lambda>_ _. Inr ()" "\<lambda>_. ()"] False assms(2) by (simp add: open_finobt_def)
  qed
  show "walk_from_agi C sb agi WithFreeInodes read = Inr (if has = [] then None else Some cs)"
  proof (cases "has = []")
    case True
    then show ?thesis using assms(2) by (auto simp: walk_from_agi_def word_neq_0_conv)
  next
    case False
    then have w: "walk_blocks C sb (inobt_shape WithFreeInodes) agno root level read (\<lambda>b at. chunk_record b at (has_sparse_inodes sb)) = Inr (cs, blocks)"
      using assms(2) by simp
    then have "inobt_walk C sb WithFreeInodes (agi_seqno agi) root level read = Inr cs" by (auto simp: inobt_walk_blocks walk_agi_blocks [OF assms(1)])
    then show ?thesis using walk_blocks_visits(3) [OF w] False assms(2) by (auto simp: walk_from_agi_def)
  qed
qed

text \<open>C15. The inode trees of a group that were edited and laid out again are the trees of the device on which their buffers have landed: the
  group opens again, with exactly the chunks the operation left, however many blocks the trees grew or shrank by; the tree of
  free inodes, where there is one, is read as exactly the chunks with a free inode; the header holds the counts that
  were set; and the blocks of the trees and the free blocks of the group are together the same blocks as before, each once.\<close>

theorem inode_trees_settle:
  assumes "usable sb" "roomy sb agno" "whole_reads dev"
    and op: "trees_open C sb dev agno = Inr t0"
    and it: "trees_items_in C sb dev (edited t0 cs counts) groups = Inr (groups', items)"
    and cs: "\<forall>c \<in> set cs. chunk_valid (has_sparse_inodes sb) c \<and> chunk_inside sb (agf_length agf) c" and counts: "sound_counts counts"
    and len: "rbind (dev (group_start sb agno + ucast (sb_sectsize sb)) (unat (sb_sectsize sb))) (\<lambda>raw. agf_parse C raw sb agno) = Inr agf"
    and src: "source_ok C sb dev agno n groups"
      "apart_in_group sb n (mset (it_inobt_blocks t0 @ it_finobt_blocks t0) + source_blocks C sb dev agno groups)"
    and land: "landed C dev dev' items"
  shows "\<exists>t'. trees_open C sb dev' agno = Inr t' \<and> it_chunks t' = cs \<and>
    mset (it_inobt_blocks t' @ it_finobt_blocks t') + source_blocks C sb dev agno groups' =
      mset (it_inobt_blocks t0 @ it_finobt_blocks t0) + source_blocks C sb dev agno groups \<and>
    walk_from_agi C sb (it_agi t') WithFreeInodes (read_agblock sb dev' (group_start sb agno)) =
      Inr (if it_finobt_blocks t0 = [] then None else Some (with_free cs)) \<and>
    (case counts of None \<Rightarrow> True | Some (allocated, freecount, _) \<Rightarrow> agi_count (it_agi t') = allocated \<and> agi_freecount (it_agi t') = freecount)"
proof -
  let ?S = "group_start sb agno" and ?ss = "unat (sb_sectsize sb)" and ?dec = "\<lambda>b at. chunk_record b at (has_sparse_inodes sb)" and ?t = "edited t0 cs counts"
  let ?read = "read_agblock sb dev' ?S"
  from op show ?thesis
  proof (rule trees_open_parts)
    fix raw agi agf_raw agf' chunks inobt0 finobt0 before
    assume o: "dev (?S + ucast (sb_sectsize sb) * 2) ?ss = Inr raw" "agi_parse C raw sb agno = Inr agi"
      "dev (?S + ucast (sb_sectsize sb)) ?ss = Inr agf_raw" "agf_parse C agf_raw sb agno = Inr agf'"
      "open_finobt C sb agno agi (read_agblock sb dev ?S) = Inr finobt0"
      "read_before (read_agblock sb dev ?S) (inobt0 @ finobt0) (\<lambda>_. None) = Inr before"
      "t0 = \<lparr>it_agno = agno, it_ag_start = ?S, it_agi_raw = raw, it_agi = agi, it_chunks = chunks, it_inobt_blocks = inobt0,
        it_finobt_blocks = finobt0, it_before = before, it_counts = None, it_changed = False\<rparr>"
    have tf: "it_agno ?t = agno" "it_ag_start ?t = ?S" "it_agi_raw ?t = raw" "it_chunks ?t = cs" "it_inobt_blocks ?t = inobt0" "it_finobt_blocks ?t = finobt0"
      "it_before ?t = before" "it_counts ?t = counts" "it_changed ?t" by (simp_all add: edited_def o(7))
    have agf: "agf' = agf" using len o(3,4) by simp
    have rem: "remembers sb agno dev before" using read_before_spec [OF o(6)] by (simp add: remembers_def)
    have rawlen: "length raw = ?ss" "512 \<le> ?ss" using o(1) assms(2,3) by (simp_all add: roomy_def whole_reads_def)
    have fields: "agi_fields raw = Inr agi" "\<not> agi_count agi < agi_freecount agi" using o(2) by (auto simp: agi_parse_def rbind_eq_Inr split: if_splits)
    have s0: "source_ok C sb dev (it_agno ?t) n groups" "apart_in_group sb n (mset (it_inobt_blocks ?t @ it_finobt_blocks ?t) + source_blocks C sb dev (it_agno ?t) groups)"
      using src by (simp_all add: edited_def o(7))
    from it tf(9) s0 show ?thesis
    proof (rule trees_items_parts, unfold tf)
      fix inobt finobt levels built new flevels fbuilt fnew hdr header
      assume p: "mset (inobt @ finobt) + source_blocks C sb dev agno groups' = mset (inobt0 @ finobt0) + source_blocks C sb dev agno groups"
        and one: "plan (inobt_shape AllInodes) (sb_blocksize sb) (is_v5 sb) (length cs) = Inr levels" "length inobt = sum_list levels"
        "build C sb (inobt_shape AllInodes) agno cs inobt (chunk_encode (has_sparse_inodes sb)) chunk_keys = Inr built"
        "relay_items sb dev ?S agno before built = Inr new"
        and two: "if finobt0 = [] then finobt = [] \<and> fnew = []
         else plan (inobt_shape WithFreeInodes) (sb_blocksize sb) (is_v5 sb) (length (with_free cs)) = Inr flevels \<and> length finobt = sum_list flevels \<and>
           build C sb (inobt_shape WithFreeInodes) agno (with_free cs) finobt (chunk_encode (has_sparse_inodes sb)) chunk_keys = Inr fbuilt \<and>
           relay_items sb dev ?S agno before fbuilt = Inr fnew"
        and h: "new_agi sb ?t inobt (length cs) finobt (length (with_free cs)) = Inr hdr" "bi_data header = hdr" "bi_buf_type header = BLFT_AGI"
        "bi_blkno header = ?S div of_nat BBSIZE + ucast (sb_sectsize sb) * 2 div of_nat BBSIZE" and items: "items = header # new @ fnew"
      have val: "\<forall>c \<in> set cs. chunk_valid (has_sparse_inodes sb) c" using cs by blast
      have dist: "distinct (inobt @ finobt)" "\<forall>b \<in> set (inobt @ finobt). in_group sb b" using apart_distinct [OF p s0(2) [unfolded tf]] by auto
      from new_agi_spec [OF h(1), unfolded tf, OF _ fields(1)] rawlen obtain level flevel where
        a: "inobt \<noteq> []" "level_of sb inobt (inobt_shape AllInodes) (length cs) = Inr level"
        "finobt \<noteq> [] \<longrightarrow> level_of sb finobt (inobt_shape WithFreeInodes) (length (with_free cs)) = Inr flevel" "same_identity raw hdr"
        "agi_fields hdr = Inr (with_counts counts (with_finobt finobt flevel (agi\<lparr>agi_root := last inobt, agi_level := level\<rparr>)))" by auto
      have hl: "length (bi_data header) = ?ss" using a(4) rawlen(1) h(2) by (simp add: same_identity_def)
      note l = trees_land [OF assms(1,2) rem land items one val two dist h(4) hl]
      have w1: "walk_blocks C sb (inobt_shape AllInodes) agno (last inobt) level ?read ?dec = Inr (cs, inobt)" by (rule relaid_walk [OF l(1) a(2)])
      define agi' where "agi' = with_counts counts (with_finobt finobt flevel (agi\<lparr>agi_root := last inobt, agi_level := level\<rparr>))"
      have "\<not> agi_count agi' < agi_freecount agi'" using fields(2) counts by (auto simp: agi'_def with_counts_def sound_counts_def not_less split: option.splits)
      moreover have "agi_level agi' \<noteq> 0" using walk_blocks_visits(3) [OF w1] by (simp add: agi'_def)
      ultimately obtain img where img: "image_as_written C header = Inr img" "agi_parse C img sb agno = Inr agi'"
        using agi_image_parses [OF _ rawlen(2,1) o(2) a(4) a(5) [folded agi'_def] _ _ h(2,3)] assms(1) by (auto simp: usable_def)
      have fin: "if finobt0 = [] then finobt = [] \<and> \<not> (has_finobt sb \<and> 0 < agi_free_level agi')
        else has_finobt sb \<and> agi_free_root agi' = last finobt \<and> agi_free_level agi' = flevel \<and>
          walk_blocks C sb (inobt_shape WithFreeInodes) agno (last finobt) flevel ?read ?dec = Inr (with_free cs, finobt)"
      proof (cases "finobt0 = []")
        case True
        then show ?thesis using open_finobt_empty [OF o(5)] two by (simp add: agi'_def with_finobt_def)
      next
        case False
        have ne: "finobt \<noteq> []" using l(2) [OF False] by (auto simp: relaid_def dest: walk_blocks_visits(1))
        then show ?thesis using relaid_walk [OF l(2) [OF False]] a(3) open_finobt_empty [OF o(5)] False by (simp add: agi'_def with_finobt_def)
      qed
      note f = finobt_reopens [OF img(2) fin]
      have "walk_blocks C sb (inobt_shape AllInodes) agno (agi_root agi') (agi_level agi') ?read ?dec = Inr (cs, inobt)" using w1 by (simp add: agi'_def)
      from trees_reopen [OF _ img(2) _ o(4) [unfolded agf] this f(1)] l(3,4) img(1) o(3) cs obtain before' where
        "trees_open C sb dev' agno = Inr \<lparr>it_agno = agno, it_ag_start = ?S, it_agi_raw = img, it_agi = agi', it_chunks = cs, it_inobt_blocks = inobt,
          it_finobt_blocks = finobt, it_before = before', it_counts = None, it_changed = False\<rparr>" by auto
      moreover have "case counts of None \<Rightarrow> True | Some (allocated, freecount, _) \<Rightarrow> agi_count agi' = allocated \<and> agi_freecount agi' = freecount"
        by (auto simp: agi'_def with_counts_def split: option.splits)
      ultimately show ?thesis using p f(2) by (auto simp: o(7) split: option.splits)
    qed
  qed
qed

section \<open>A group that is edited\<close>

definition land_all :: "crc_crate \<Rightarrow> dev_read \<Rightarrow> BufferItem list \<Rightarrow> dev_read" where
  "land_all C dev items off n =
     (case find (\<lambda>item. off = bi_blkno item * of_nat BBSIZE \<and> n = length (bi_data item)) items of
        Some item \<Rightarrow> image_as_written C item
      | None \<Rightarrow> dev off n)"

lemma landed_all:
  assumes "\<forall>x \<in> set items. bi_data x \<noteq> []" "\<forall>x \<in> set items. \<forall>y \<in> set items. x = y \<or> bi_blkno x * of_nat BBSIZE \<noteq> bi_blkno y * of_nat BBSIZE"
  shows "landed C dev (land_all C dev items) items"
proof -
  have "land_all C dev items (bi_blkno x * of_nat BBSIZE) (length (bi_data x)) = image_as_written C x" if "x \<in> set items" for x
  proof (cases "find (\<lambda>item. bi_blkno x * of_nat BBSIZE = bi_blkno item * of_nat BBSIZE \<and> length (bi_data x) = length (bi_data item)) items")
    case None
    then show ?thesis using that by (auto simp: find_None_iff)
  next
    case (Some y)
    then have "y = x" using assms(2) that by (auto simp: find_Some_iff) (metis nth_mem)
    then show ?thesis using Some by (simp add: land_all_def)
  qed
  moreover have "land_all C dev items off n = dev off n" if none: "\<forall>item \<in> set items. \<not> meets item off n" for off n
  proof -
    have "find (\<lambda>item. off = bi_blkno item * of_nat BBSIZE \<and> n = length (bi_data item)) items = None"
      using none assms(1) by (fastforce simp: find_None_iff meets_def)
    then show ?thesis by (simp add: land_all_def)
  qed
  ultimately show ?thesis by (simp add: landed_def)
qed

definition sample_chunk :: "u8 \<Rightarrow> u64 \<Rightarrow> InodeChunk" where
  "sample_chunk freecount free = \<lparr>ic_startino = 256, ic_holemask = 0, ic_count = 64, ic_freecount = freecount, ic_free = free\<rparr>"

definition sample_inode_header :: bytes where
  "sample_inode_header = be_bytes32 XFS_AGI_MAGIC @ replicate 8 0 @ be_bytes32 1000 @ be_bytes32 64 @ be_bytes32 9 @ be_bytes32 1 @
     replicate 268 0 @ replicate 16 7 @ replicate 200 0"

definition sample_free_header :: bytes where
  "sample_free_header = be_bytes32 XFS_AGF_MAGIC @ replicate 8 0 @ be_bytes32 1000 @ replicate 48 0 @ replicate 16 7 @ replicate 432 0"

definition sample_leaf :: bytes where
  "sample_leaf = be_bytes32 XFS_IBT_CRC_MAGIC @ replicate 3 0 @ [1] @ replicate 8 0 @ be_bytes64 9 @ replicate 8 0 @ replicate 16 7 @ replicate 8 0 @
     be_bytes32 256 @ replicate 452 0"

definition sample_inodes :: dev_read where
  "sample_inodes off n = Inr (take n ((if off = 1024 then sample_inode_header else if off = 512 then sample_free_header
     else if off = 4608 then sample_leaf else []) @ replicate n 0))"

lemma sample_trees:
  "case trees_open sample_crc sample_v5 sample_inodes 0 of
     Inl _ \<Rightarrow> False
   | Inr t \<Rightarrow> it_inobt_blocks t = [9] \<and> it_finobt_blocks t = [] \<and> it_chunks t = [sample_chunk 0 0]"
  by code_simp

lemma sample_inodes_length: "sample_inodes off n = Inr raw \<Longrightarrow> length raw = n"
  by (auto simp: sample_inodes_def)

lemma sample_volume:
  "usable sample_v5" "roomy sample_v5 0" "\<not> has_sparse_inodes sample_v5" "group_start sample_v5 0 = 0" "sb_sectsize sample_v5 = 512" "last_header_block sample_v5 = 3"
  "in_group sample_v5 9" "expected_blkno sample_v5 0 9 = 9" "sb_features_ro_compat sample_v5 = 0"
proof -
  show "usable sample_v5" by (simp add: usable_def)
  show "roomy sample_v5 0" by (simp add: roomy_def) (simp add: sample_v5_def sample_sb_def)
  show "\<not> has_sparse_inodes sample_v5" "group_start sample_v5 0 = 0" "sb_sectsize sample_v5 = 512" "sb_features_ro_compat sample_v5 = 0"
    by (simp_all add: sample_v5_def sample_sb_def has_sparse_inodes_def group_start_def)
  show "last_header_block sample_v5 = 3" "in_group sample_v5 9" "expected_blkno sample_v5 0 9 = 9" by code_simp+
qed

lemma sample_plan: "plan (inobt_shape which) 512 True (Suc 0) = Inr [1]"
  by (simp add: plan_eval inobt_shape_def INOBT_RECORD_LEN_def INOBT_KEY_LEN_def)

lemma sample_chunk_valid: "chunk_valid False (sample_chunk 1 1)" "chunk_inside sample_v5 1000 (sample_chunk 1 1)"
  by (simp_all only: chunk_start_fault_None [symmetric] chunk_valid_def) code_simp+

lemma sample_relaid:
  assumes "\<forall>raw. it_before t 9 = Some raw \<longrightarrow> length raw = 512" "it_agno t = 0" "it_ag_start t = 0"
  shows "\<exists>new. trees_relay sample_crc sample_v5 sample_inodes t AllInodes [sample_chunk 1 1] [9] groups [] = Inr (groups, [9], new) \<and>
    length new \<le> 1 \<and> (\<forall>i \<in> set new. bi_blkno i = 9 \<and> length (bi_data i) = 512)"
proof -
  have lay: "layable sample_v5 (inobt_shape AllInodes)" using sample_volume(1) by (intro group_layable) (simp_all add: usable_def)
  obtain built where built: "build sample_crc sample_v5 (inobt_shape AllInodes) 0 [sample_chunk 1 1] [9] (chunk_encode False) chunk_keys = Inr built"
    "map bt_agblock built = [9]" "\<forall>b \<in> set built. stamped sample_crc sample_v5 (inobt_shape AllInodes) 0 b"
    using chunk_tree.build_walk [OF lay, of "[sample_chunk 1 1]" "[1]" "[9]" False sample_crc 0] sample_plan sample_chunk_valid(1) by (auto simp: le_max_iff_disj)
  then obtain b where b: "built = [b]" "bt_agblock b = 9" by (cases built) auto
  obtain buf level n where st: "length buf = 512" "stamp_block sample_crc buf sample_v5 (inobt_shape AllInodes) 0 9 level n = Inr (bt_bytes b)"
    using built(3) b by (auto simp: stamped_def)
  have len: "length (bt_bytes b) = 512"
    using stamp_block_spec [of sample_v5 buf "inobt_shape AllInodes" XFS_IBT_CRC_MAGIC sample_crc 0 9 level n] st
    by (auto simp: short_header_def SHORT_V5_HEADER_LEN_def shape_magic_def inobt_shape_def)
  obtain was where was: "(case it_before t 9 of Some raw \<Rightarrow> Inr raw | None \<Rightarrow> sample_inodes (ucast (9 :: u32) * ucast (sb_blocksize sample_v5)) 512) = Inr was" "length was = 512"
    using assms(1) by (cases "it_before t 9") (auto simp: sample_inodes_def)
  obtain item where item: "changed_chunks 9 was (bt_bytes b) BLFT_BTREE = Inr item"
    using changed_chunks_spec [of was "bt_bytes b" 1 9 BLFT_BTREE] was(2) len by (auto simp: BBSIZE_def)
  have "\<exists>new. relay_items sample_v5 sample_inodes 0 0 (it_before t) built = Inr new \<and> length new \<le> 1 \<and> (\<forall>i \<in> set new. bi_blkno i = 9 \<and> length (bi_data i) = 512)"
    using was(1) item changed_chunks_data [OF item] len by (cases "it_before t 9") (auto simp: b sample_volume)
  then show ?thesis using built(1) sample_plan by (auto simp: trees_relay_def relay_def assms(2,3) sample_volume Let_def)
qed

lemma sample_trees_items:
  assumes "trees_open sample_crc sample_v5 sample_inodes 0 = Inr t"
  shows "\<exists>header new. trees_items_in sample_crc sample_v5 sample_inodes (edited t [sample_chunk 1 1] (Some (64, 1, None))) [] = Inr ([], header # new) \<and>
    bi_blkno header = 2 \<and> length (bi_data header) = 512 \<and> length new \<le> 1 \<and> (\<forall>i \<in> set new. bi_blkno i = 9 \<and> length (bi_data i) = 512)"
  using assms
proof (rule trees_open_parts)
  fix raw agi agf_raw agf chunks inobt finobt before
  assume o: "sample_inodes (group_start sample_v5 0 + ucast (sb_sectsize sample_v5) * 2) (unat (sb_sectsize sample_v5)) = Inr raw"
      "read_before (read_agblock sample_v5 sample_inodes (group_start sample_v5 0)) (inobt @ finobt) (\<lambda>_. None) = Inr before"
    and t: "t = \<lparr>it_agno = 0, it_ag_start = group_start sample_v5 0, it_agi_raw = raw, it_agi = agi, it_chunks = chunks,
       it_inobt_blocks = inobt, it_finobt_blocks = finobt, it_before = before, it_counts = None, it_changed = False\<rparr>"
  have at: "inobt = [9]" "finobt = []" using sample_trees assms by (simp_all add: t)
  have len: "length raw = 512" using sample_inodes_length [OF o(1)] by (simp add: sample_volume)
  let ?t = "edited t [sample_chunk 1 1] (Some (64, 1, None))"
  have "\<forall>r. it_before ?t 9 = Some r \<longrightarrow> length r = 512"
    using read_before_spec [OF o(2)] sample_inodes_length by (simp add: edited_def t read_agblock_def) blast
  from sample_relaid [OF this] obtain new where new: "trees_relay sample_crc sample_v5 sample_inodes ?t AllInodes [sample_chunk 1 1] [9] [] [] = Inr ([], [9], new)"
    "length new \<le> 1" "\<forall>i \<in> set new. bi_blkno i = 9 \<and> length (bi_data i) = 512" by (auto simp: edited_def t sample_volume)
  obtain hdr where hdr: "new_agi sample_v5 ?t [9] (Suc 0) [] (Suc 0) = Inr hdr" "length hdr = 512"
    using len by (simp add: new_agi_def root_of_def level_of_def sample_plan put32_def put_ok finobt_fields_def block_counts_def inode_counts_def edited_def t sample_volume)
  obtain header where "changed_chunks 2 raw hdr BLFT_AGI = Inr header"
    using changed_chunks_spec [of raw hdr 1 2 BLFT_AGI] len hdr(2) by (auto simp: BBSIZE_def)
  then show ?thesis using new hdr changed_chunks_data
    by (auto simp: trees_items_in_def edited_def t at sample_volume BBSIZE_def sample_chunk_def)
qed

lemma inode_trees_settle_witness:
  "\<exists>dev t'. trees_open sample_crc sample_v5 dev 0 = Inr t' \<and> it_chunks t' = [sample_chunk 1 1] \<and> agi_freecount (it_agi t') = 1"
proof -
  obtain t0 where t0: "trees_open sample_crc sample_v5 sample_inodes 0 = Inr t0" "it_inobt_blocks t0 = [9]" "it_finobt_blocks t0 = []"
    using sample_trees by (auto split: sum.splits)
  from sample_trees_items [OF t0(1)] obtain header new where
    it: "trees_items_in sample_crc sample_v5 sample_inodes (edited t0 [sample_chunk 1 1] (Some (64, 1, None))) [] = Inr ([], header # new)"
    and h: "bi_blkno header = 2" "length (bi_data header) = 512" "length new \<le> 1" "\<forall>i \<in> set new. bi_blkno i = 9 \<and> length (bi_data i) = 512" by blast
  let ?dev = "land_all sample_crc sample_inodes (header # new)"
  have land: "landed sample_crc sample_inodes ?dev (header # new)"
  proof (rule landed_all)
    show "\<forall>x \<in> set (header # new). bi_data x \<noteq> []" using h by auto
    show "\<forall>x \<in> set (header # new). \<forall>y \<in> set (header # new). x = y \<or> bi_blkno x * of_nat BBSIZE \<noteq> bi_blkno y * of_nat BBSIZE"
      using h by (cases new) (auto simp: BBSIZE_def)
  qed
  obtain agf where agf: "rbind (sample_inodes (group_start sample_v5 0 + ucast (sb_sectsize sample_v5)) (unat (sb_sectsize sample_v5)))
      (\<lambda>raw. agf_parse sample_crc raw sample_v5 0) = Inr agf" "agf_length agf = 1000"
  proof -
    have "case agf_parse sample_crc sample_free_header sample_v5 0 of Inl _ \<Rightarrow> False | Inr agf \<Rightarrow> agf_length agf = 1000" by code_simp
    then show ?thesis using that by (auto simp: sample_volume sample_inodes_def sample_free_header_def split: sum.splits)
  qed
  have closed: "group_in sample_crc sample_v5 sample_inodes 0 [] = Inl e \<Longrightarrow> source_ok sample_crc sample_v5 sample_inodes 0 1000 [] \<and> source_blocks sample_crc sample_v5 sample_inodes 0 [] = {#}" for e
    by (simp add: source_ok_def source_blocks_def)
  have "case group_in sample_crc sample_v5 sample_inodes 0 [] of Inl _ \<Rightarrow> True | Inr _ \<Rightarrow> False" by code_simp
  then have src: "source_ok sample_crc sample_v5 sample_inodes 0 1000 []" "source_blocks sample_crc sample_v5 sample_inodes 0 [] = {#}"
    using closed by (auto split: sum.splits)
  have "count {#9 :: u32#} b \<le> 1" for b by (cases "b = 9") simp_all
  then have "apart_in_group sample_v5 1000 {#9#}" by (simp add: apart_in_group_def sample_volume)
  then have "apart_in_group sample_v5 1000 (mset (it_inobt_blocks t0 @ it_finobt_blocks t0) + source_blocks sample_crc sample_v5 sample_inodes 0 [])"
    using t0(2,3) src(2) by simp
  from inode_trees_settle [OF sample_volume(1,2) _ t0(1) it _ _ agf(1) src(1) this land] show ?thesis
    using sample_chunk_valid sample_volume(3) agf(2) sample_inodes_length by (auto simp: sound_counts_def whole_reads_def)
qed

end
