(* ===== verification/Inode.thy ===== *)
theory Inode
  imports LogReplay
begin

unbundle bit_operations_syntax

text \<open>
  The inode as it lies on disk (\<^verbatim>\<open>src/src/inode.rs\<close>): the parser of the core with its checks, the forks behind it, and the two
  layouts of a timestamp.

  The seconds of a timestamp are an \<^verbatim>\<open>i64\<close>, kept as the integer it stands for; the saturating operations of the encoder are
  written out.  What is shown is that an inode that is accepted is the one that was asked for, that its forks lie inside it one
  after the other, that no bytes make the parser panic, and that a time is read back as it was written.
\<close>

section \<open>Times\<close>

datatype Format = Dev | Local | Extents | Btree | Uuid | RmapFork

definition format_from_raw :: "u8 \<Rightarrow> Format res" where
  "format_from_raw v =
     (if v = 0 then Inr Dev else if v = 1 then Inr Local else if v = 2 then Inr Extents else if v = 3 then Inr Btree
      else if v = 4 then Inr Uuid else if v = 5 then Inr RmapFork
      else Inl (BadSuperblock ''inode fork format is not a defined value''))"

datatype FileType = Regular | Directory | Symlink | CharDevice | BlockDevice | Fifo | Socket

record Timestamp =
  ts_sec :: int
  ts_nsec :: u32

definition BIGTIME_EPOCH_OFFSET_SECS :: int where "BIGTIME_EPOCH_OFFSET_SECS = - 2147483648"
definition NSEC_PER_SEC :: u64 where "NSEC_PER_SEC = 1000000000"

definition timestamp_parse :: "bytes \<Rightarrow> nat \<Rightarrow> bool \<Rightarrow> Timestamp res" where
  "timestamp_parse buf off bigtime =
     (if bigtime
      then rbind (be64 buf off) (\<lambda>ns.
             Inr \<lparr>ts_sec = BIGTIME_EPOCH_OFFSET_SECS + uint (ns div NSEC_PER_SEC), ts_nsec = ucast (ns mod NSEC_PER_SEC)\<rparr>)
      else rbind (be32 buf off) (\<lambda>sec. rbind (be32 buf (off + 4)) (\<lambda>nsec. Inr \<lparr>ts_sec = sint sec, ts_nsec = nsec\<rparr>)))"

definition sat_i64 :: "int \<Rightarrow> int" where
  "sat_i64 x = max (- (2 ^ 63)) (min (2 ^ 63 - 1) x)"

definition timestamp_encode :: "Timestamp \<Rightarrow> bytes \<Rightarrow> nat \<Rightarrow> bool \<Rightarrow> bytes res" where
  "timestamp_encode t buf off bigtime =
     (if bigtime
      then
        let from_epoch = sat_i64 (ts_sec t - BIGTIME_EPOCH_OFFSET_SECS);
            ns = max (sat_i64 (sat_i64 (from_epoch * uint NSEC_PER_SEC) + uint (ts_nsec t))) 0
        in put buf off (be_bytes64 (word_of_int ns))
      else
        let sec = max (- (2 ^ 31)) (min (2 ^ 31 - 1) (ts_sec t))
        in rbind (put buf off (be_bytes32 (word_of_int sec))) (\<lambda>buf. put buf (off + 4) (be_bytes32 (ts_nsec t))))"

definition FLAGS2_REFLINK :: u64 where "FLAGS2_REFLINK = 2"
definition FLAGS2_BIGTIME :: u64 where "FLAGS2_BIGTIME = 8"
definition FLAGS_REALTIME :: u16 where "FLAGS_REALTIME = 1"

datatype Changed = Status | Contents

definition stamp_change :: "bytes \<Rightarrow> Timestamp \<Rightarrow> Changed \<Rightarrow> bytes res" where
  "stamp_change core when changed =
     rbind (byte_at core 4) (\<lambda>version.
     rbind (if 3 \<le> version then rbind (be64 core 120) (\<lambda>flags2. Inr (flags2 AND FLAGS2_BIGTIME \<noteq> 0)) else Inr False) (\<lambda>bigtime.
     rbind (timestamp_encode when core 48 bigtime) (\<lambda>core.
       if changed = Contents then timestamp_encode when core 40 bigtime else Inr core)))"

section \<open>The inode\<close>

record Inode =
  in_ino :: u64
  in_mode :: u16
  in_version :: u8
  in_format :: Format
  in_aformat :: Format
  in_uid :: u32
  in_gid :: u32
  in_nlink :: u32
  in_size :: u64
  in_nblocks :: u64
  in_nextents :: u64
  in_anextents :: u32
  in_forkoff :: u8
  in_flags :: u16
  in_flags2 :: u64
  in_gen :: u32
  in_next_unlinked :: u32
  in_atime :: Timestamp
  in_mtime :: Timestamp
  in_ctime :: Timestamp
  in_crtime :: Timestamp

definition has_large_extent_counts :: "bytes \<Rightarrow> bool res" where
  "has_large_extent_counts core =
     (if length core \<le> 4 then Inr False
      else if \<not> 3 \<le> core ! 4 then Inr False
      else if \<not> 128 \<le> length core then Inr False
      else rbind (be64 core 120) (\<lambda>flags2. Inr (flags2 AND DI_FLAGS2_NREXT64 \<noteq> 0)))"

definition set_attr_extent_count :: "bytes \<Rightarrow> u16 \<Rightarrow> bytes res" where
  "set_attr_extent_count core n =
     rbind (has_large_extent_counts core) (\<lambda>big.
       if big then put core 76 (be_bytes32 (ucast n)) else put core 80 (be_bytes16 n))"

definition verify_v3_integrity :: "crc_crate \<Rightarrow> bytes \<Rightarrow> Superblock \<Rightarrow> u64 \<Rightarrow> string \<Rightarrow> unit res" where
  "verify_v3_integrity C buf sb ino what =
     rbind (le32 buf 100) (\<lambda>stored.
     rbind (slice buf 0 (unat (sb_inodesize sb))) (\<lambda>record.
     rbind (crc32c_with_zeroed_crc C record 100) (\<lambda>computed.
     if stored \<noteq> computed then Inl (ChecksumMismatch what ino)
     else
       rbind (be64 buf 152) (\<lambda>self_ino.
       if self_ino \<noteq> ino then Inl (BlockIdentityMismatch what ino self_ino)
       else
         rbind (uuid_at buf 160) (\<lambda>uuid.
           if uuid \<noteq> sb_meta_uuid sb then Inl (BlockIdentityMismatch what ino (- 1)) else Inr ())))))"

definition inode_validate :: "Inode \<Rightarrow> Superblock \<Rightarrow> unit res" where
  "inode_validate i sb =
     (let isize = unat (sb_inodesize sb);
          core = (if in_version i = 3 then XFS_DINODE_V3_SIZE else XFS_DINODE_V2_SIZE)
      in if in_forkoff i \<noteq> 0 \<and> isize < core + unat (in_forkoff i) * 8 then Inl (BadSuperblock ''attribute fork starts past the inode'')
         else if in_format i = Local \<and> isize < unat (in_size i) then Inl (BadSuperblock ''local-format fork is larger than the inode'')
         else if in_format i = Dev \<and> (in_nextents i \<noteq> 0 \<or> in_nblocks i \<noteq> 0 \<and> in_forkoff i = 0)
         then Inl (BadSuperblock ''device inode has blocks and extents'')
         else Inr ())"

text \<open>The fields, read in the order the code reads them.\<close>

definition inode_fields :: "bytes \<Rightarrow> u64 \<Rightarrow> u8 \<Rightarrow> Inode res" where
  "inode_fields buf ino ver =
     rbind (if ver = 3 then be64 buf 120 else Inr 0) (\<lambda>flags2.
     rbind (has_large_extent_counts buf) (\<lambda>big.
     rbind (if big then rbind (be64 buf 24) (\<lambda>n. rbind (be32 buf 76) (\<lambda>a. Inr (n, a)))
            else rbind (be32 buf 76) (\<lambda>n. rbind (be16 buf 80) (\<lambda>a. Inr (ucast n, ucast a)))) (\<lambda>(nextents, anextents).
     rbind (be16 buf 2) (\<lambda>mode.
     rbind (byte_at buf 5) (\<lambda>f. rbind (format_from_raw f) (\<lambda>format.
     rbind (byte_at buf 83) (\<lambda>a. rbind (format_from_raw a) (\<lambda>aformat.
     rbind (be32 buf 8) (\<lambda>uid. rbind (be32 buf 12) (\<lambda>gid. rbind (be32 buf 16) (\<lambda>nlink.
     rbind (be64 buf 56) (\<lambda>sz. rbind (be64 buf 64) (\<lambda>nblocks.
     rbind (byte_at buf 82) (\<lambda>forkoff. rbind (be16 buf 90) (\<lambda>flags.
     rbind (be32 buf 92) (\<lambda>gen. rbind (be32 buf 96) (\<lambda>next_unlinked.
     rbind (timestamp_parse buf 32 (flags2 AND FLAGS2_BIGTIME \<noteq> 0)) (\<lambda>atime.
     rbind (timestamp_parse buf 40 (flags2 AND FLAGS2_BIGTIME \<noteq> 0)) (\<lambda>mtime.
     rbind (timestamp_parse buf 48 (flags2 AND FLAGS2_BIGTIME \<noteq> 0)) (\<lambda>ctime.
     rbind (if ver = 3 then timestamp_parse buf 144 (flags2 AND FLAGS2_BIGTIME \<noteq> 0) else Inr \<lparr>ts_sec = 0, ts_nsec = 0\<rparr>) (\<lambda>crtime.
       Inr \<lparr>in_ino = ino, in_mode = mode, in_version = ver, in_format = format, in_aformat = aformat, in_uid = uid, in_gid = gid,
            in_nlink = nlink, in_size = sz, in_nblocks = nblocks, in_nextents = nextents, in_anextents = anextents,
            in_forkoff = forkoff, in_flags = flags, in_flags2 = flags2, in_gen = gen, in_next_unlinked = next_unlinked,
            in_atime = atime, in_mtime = mtime, in_ctime = ctime, in_crtime = crtime\<rparr>)))))))))))))))))))))"

definition inode_parse :: "crc_crate \<Rightarrow> bytes \<Rightarrow> Superblock \<Rightarrow> u64 \<Rightarrow> Inode res" where
  "inode_parse C buf sb ino =
     (if length buf < unat (sb_inodesize sb) then Inl (BadSuperblock ''inode needs more bytes'')
      else
        rbind (be16 buf 0) (\<lambda>magic.
        if magic \<noteq> XFS_DINODE_MAGIC then Inl (BadSuperblock ''inode has the wrong magic'')
        else
          rbind (byte_at buf 4) (\<lambda>version.
          if \<not> (1 \<le> version \<and> version \<le> 3) then Inl (BadSuperblock ''inode version is not 1, 2 or 3'')
          else if (version = 3) \<noteq> is_v5 sb then Inl (BadSuperblock ''inode version is not the one of the filesystem'')
          else
            rbind (if version = 3 then verify_v3_integrity C buf sb ino ''inode'' else Inr ()) (\<lambda>_.
            rbind (inode_fields buf ino version) (\<lambda>inode.
            rbind (inode_validate inode sb) (\<lambda>_. Inr inode))))))"

definition file_type :: "Inode \<Rightarrow> FileType option" where
  "file_type i =
     (let t = in_mode i AND 0xF000
      in if t = 0x8000 then Some Regular else if t = 0x4000 then Some Directory else if t = 0xA000 then Some Symlink
         else if t = 0x2000 then Some CharDevice else if t = 0x6000 then Some BlockDevice else if t = 0x1000 then Some Fifo
         else if t = 0xC000 then Some Socket else None)"

definition permissions :: "Inode \<Rightarrow> u16" where "permissions i = in_mode i AND 0xFFF"
definition is_dir :: "Inode \<Rightarrow> bool" where "is_dir i \<longleftrightarrow> file_type i = Some Directory"
definition is_regular_file :: "Inode \<Rightarrow> bool" where "is_regular_file i \<longleftrightarrow> file_type i = Some Regular"
definition is_symlink :: "Inode \<Rightarrow> bool" where "is_symlink i \<longleftrightarrow> file_type i = Some Symlink"

definition data_fork_offset :: "Inode \<Rightarrow> nat" where
  "data_fork_offset i = (if in_version i = 3 then XFS_DINODE_V3_SIZE else XFS_DINODE_V2_SIZE)"

definition data_fork_range :: "Inode \<Rightarrow> nat \<Rightarrow> nat \<times> nat" where
  "data_fork_range i inodesize =
     (let start = data_fork_offset i;
          fin = (if in_forkoff i = 0 then inodesize else start + unat (in_forkoff i) * 8)
      in (start, min fin inodesize))"

definition attr_fork_range :: "Inode \<Rightarrow> nat \<Rightarrow> (nat \<times> nat) option" where
  "attr_fork_range i inodesize =
     (if in_forkoff i = 0 then None
      else
        let start = data_fork_offset i + unat (in_forkoff i) * 8
        in if inodesize \<le> start then None else Some (start, inodesize))"

definition has_shared_extents :: "Inode \<Rightarrow> bool" where "has_shared_extents i \<longleftrightarrow> in_flags2 i AND FLAGS2_REFLINK \<noteq> 0"
definition is_realtime :: "Inode \<Rightarrow> bool" where "is_realtime i \<longleftrightarrow> in_flags i AND FLAGS_REALTIME \<noteq> 0"

definition verify_free_slot :: "crc_crate \<Rightarrow> bytes \<Rightarrow> Superblock \<Rightarrow> u64 \<Rightarrow> unit res" where
  "verify_free_slot C buf sb ino =
     (if length buf < unat (sb_inodesize sb) then Inl (BadSuperblock ''free inode needs more bytes'')
      else
        rbind (be16 buf 0) (\<lambda>magic.
        if magic \<noteq> XFS_DINODE_MAGIC then Inl (BadSuperblock ''free inode has the wrong magic'')
        else
          rbind (byte_at buf 4) (\<lambda>version.
          if version \<noteq> 3 then Inl (BadSuperblock ''free inode is not version 3'')
          else
            rbind (verify_v3_integrity C buf sb ino ''free inode'') (\<lambda>_.
            rbind (be16 buf 2) (\<lambda>mode.
              if mode \<noteq> 0 then Inl (BadSuperblock ''the inode trees say it is free, but its slot holds a mode'') else Inr ())))))"

section \<open>Times read back\<close>

lemma uint_unat: "uint (w :: 'a::len word) = int (unat w)"
  by simp

lemma sat_i64_id: "- (2 ^ 63) \<le> x \<Longrightarrow> x < 2 ^ 63 \<Longrightarrow> sat_i64 x = x"
  by (simp add: sat_i64_def)

lemma sat_i64_sum:
  assumes "0 \<le> a" and "0 \<le> b"
  shows "max (sat_i64 (sat_i64 a + b)) 0 = min (a + b) (2 ^ 63 - 1)"
  using assms by (auto simp: sat_i64_def min_def max_def)

text \<open>The nanoseconds a time that was read is written as: what was read, up to the largest \<^verbatim>\<open>i64\<close>.\<close>

lemma bigtime_ns:
  "max (sat_i64 (sat_i64 (sat_i64 (uint (ns div NSEC_PER_SEC)) * uint NSEC_PER_SEC) + uint (ucast (ns mod NSEC_PER_SEC) :: u32))) 0
     = min (uint ns) (2 ^ 63 - 1)"
proof -
  let ?q = "unat ns div 1000000000" and ?r = "unat ns mod 1000000000"
  have n: "unat NSEC_PER_SEC = 1000000000" "uint NSEC_PER_SEC = 1000000000" by (simp_all add: NSEC_PER_SEC_def)
  have d: "uint (ns div NSEC_PER_SEC) = int ?q" by (simp only: uint_unat unat_div n)
  have r: "uint (ucast (ns mod NSEC_PER_SEC) :: u32) = int ?r"
    unfolding uint_unat by (simp add: unat_ucast_64_32 unat_mod n)
  have "?q < 9223372036854775808" using unat_lt64 [of ns] by (simp add: less_mult_imp_div_less)
  then have q: "int ?q < 2 ^ 63" by simp
  have "?q * 1000000000 + ?r = unat ns" by simp
  then have i: "uint ns = int ?q * 1000000000 + int ?r" unfolding uint_unat by linarith
  have "sat_i64 (int ?q) = int ?q" using q by (simp only: sat_i64_id)
  then show ?thesis unfolding d r n(2) i by (simp only: sat_i64_sum)
qed

lemma bigtime_rewritten:
  assumes "be64 buf off = Inr ns"
  shows "rbind (timestamp_parse buf off True) (\<lambda>t. timestamp_encode t buf off True) = Inr (blit buf off (be_bytes64 (min ns (2 ^ 63 - 1))))"
proof -
  have len: "off + 8 \<le> length buf" using assms by (auto simp: be64_def slice_def split: if_splits)
  have "word_of_int (min (uint ns) (2 ^ 63 - 1)) = min ns (2 ^ 63 - 1)"
    by (simp add: min_def word_le_def)
  then show ?thesis using assms len by (simp add: timestamp_parse_def timestamp_encode_def Let_def bigtime_ns [simplified] put_ok)
qed

lemma smalltime_rewritten:
  assumes "off + 8 \<le> length buf"
  shows "rbind (timestamp_parse buf off False) (\<lambda>t. timestamp_encode t buf off False) = Inr buf"
proof -
  let ?s = "from_be (take 4 (drop off buf)) :: u32" and ?n = "from_be (take 4 (drop (off + 4) buf)) :: u32"
  have r: "- (2 ^ 31) \<le> sint ?s" "sint ?s \<le> 2 ^ 31 - 1" using sint_range_size [of ?s] by (simp_all add: word_size)
  then have c: "max (- (2 ^ 31)) (min (2 ^ 31 - 1) (sint ?s)) = sint ?s" by linarith
  have b: "be_bytes32 ?s = take 4 (drop off buf)" "be_bytes32 ?n = take 4 (drop (off + 4) buf)"
    using assms to_be_from_be [of "take 4 (drop off buf)", where 'a = 32] to_be_from_be [of "take 4 (drop (off + 4) buf)", where 'a = 32]
    by (simp_all add: be_bytes32_def)
  have "blit (blit buf off (take 4 (drop off buf))) (off + 4) (take 4 (drop (off + 4) buf)) = buf"
    using assms by (intro nth_equalityI) (auto simp: nth_blit)
  then show ?thesis using assms c b by (simp add: timestamp_parse_def timestamp_encode_def Let_def put_ok read_ok)
qed

text \<open>C34. A time that is read from an inode and written back is what it was, with one exception: in the wide layout a time is a count of
  nanoseconds of 64 bits, and the writer, which goes through a signed number, writes every time from the middle of that
  range on as the middle, though the reader gives it.\<close>

theorem timestamps_rewritten:
  assumes "off + 8 \<le> length buf"
  shows "rbind (timestamp_parse buf off False) (\<lambda>t. timestamp_encode t buf off False) = Inr buf \<and>
    rbind (timestamp_parse buf off True) (\<lambda>t. timestamp_encode t buf off True) =
      (if unat (from_be (take 8 (drop off buf)) :: u64) < 2 ^ 63 then Inr buf else Inr (blit buf off (be_bytes64 (2 ^ 63 - 1))))"
proof -
  let ?ns = "from_be (take 8 (drop off buf)) :: u64"
  have "be64 buf off = Inr ?ns" using assms by (simp add: read_ok)
  note w = bigtime_rewritten [OF this]
  show ?thesis
  proof (cases "unat ?ns < 2 ^ 63")
    case True
    then have "min ?ns (2 ^ 63 - 1) = ?ns" by (simp add: min_def word_le_nat_alt)
    moreover have "be_bytes64 ?ns = take 8 (drop off buf)"
      using assms to_be_from_be [of "take 8 (drop off buf)", where 'a = 64] by (simp add: be_bytes64_def)
    moreover have "blit buf off (take 8 (drop off buf)) = buf" using assms by (intro nth_equalityI) (auto simp: nth_blit)
    ultimately show ?thesis using w smalltime_rewritten [OF assms] True by simp
  next
    case False
    then have "min ?ns (2 ^ 63 - 1) = 2 ^ 63 - 1" by (simp add: min_def word_le_nat_alt)
    then show ?thesis using w smalltime_rewritten [OF assms] False by simp
  qed
qed

lemma timestamps_rewritten_witness:
  "rbind (timestamp_parse [0x80, 0, 0, 0, 0, 0, 0, 0] 0 True) (\<lambda>t. timestamp_encode t [0x80, 0, 0, 0, 0, 0, 0, 0] 0 True) =
     Inr [0x7f, 0xff, 0xff, 0xff, 0xff, 0xff, 0xff, 0xff]"
proof -
  have "unat (from_be [0x80, 0, 0, 0, 0, 0, 0, 0] :: u64) = 2 ^ 63" by (simp add: from_be_def)
  moreover have "blit [0x80, 0, 0, 0, 0, 0, 0, 0] 0 (be_bytes64 (2 ^ 63 - 1)) = [0x7f, 0xff, 0xff, 0xff, 0xff, 0xff, 0xff, 0xff]" by code_simp
  ultimately show ?thesis using timestamps_rewritten [of 0 "[0x80, 0, 0, 0, 0, 0, 0, 0]"] by simp
qed


section \<open>An inode that is accepted\<close>

lemma timestamp_parse_safe: "off + 8 \<le> length buf \<Longrightarrow> \<not> panics (timestamp_parse buf off big)"
  by (simp add: timestamp_parse_def read_panics_iff)

lemma format_from_raw_safe: "format_from_raw v \<noteq> Inl Panic"
  by (simp add: format_from_raw_def)

lemma has_large_extent_counts_safe: "\<not> panics (has_large_extent_counts core)"
  by (simp add: has_large_extent_counts_def read_panics_iff)

lemma verify_v3_integrity_safe:
  assumes "XFS_DINODE_V3_SIZE \<le> unat (sb_inodesize sb)" and "unat (sb_inodesize sb) \<le> length buf"
  shows "\<not> panics (verify_v3_integrity C buf sb ino what)"
  using assms by (auto simp: verify_v3_integrity_def read_panics_iff slice_def crc32c_with_zeroed_crc_def XFS_DINODE_V3_SIZE_def)

lemma inode_fields_safe: "XFS_DINODE_V3_SIZE \<le> length buf \<Longrightarrow> \<not> panics (inode_fields buf ino ver)"
  using has_large_extent_counts_safe [of buf] format_from_raw_safe
  by (simp add: inode_fields_def read_panics_iff timestamp_parse_safe XFS_DINODE_V3_SIZE_def panics_def [symmetric, of "format_from_raw _"]
      split: prod.splits)

text \<open>What is remembered of the bytes an inode was read from.\<close>

lemma inode_fields_Inr:
  assumes "inode_fields buf ino ver = Inr i"
  shows "in_ino i = ino" "in_version i = ver"
  using assms by (auto simp: inode_fields_def rbind_eq_Inr simp del: rbind_if split: prod.splits)

text \<open>The forks lie in the inode one after the other.\<close>

lemma inode_forks:
  assumes "inode_validate i sb = Inr ()" and "XFS_DINODE_V3_SIZE \<le> unat (sb_inodesize sb)"
  shows "case data_fork_range i (unat (sb_inodesize sb)) of (s, e) \<Rightarrow>
    s = data_fork_offset i \<and> s \<le> e \<and> e \<le> unat (sb_inodesize sb) \<and>
    (case attr_fork_range i (unat (sb_inodesize sb)) of None \<Rightarrow> e = unat (sb_inodesize sb) | Some (s', e') \<Rightarrow> s' = e \<and> s' < e' \<and> e' = unat (sb_inodesize sb))"
  using assms
  by (auto simp: inode_validate_def data_fork_range_def attr_fork_range_def data_fork_offset_def Let_def refuse_Inr XFS_DINODE_V3_SIZE_def
      XFS_DINODE_V2_SIZE_def split: if_splits)

text \<open>C33. Bytes that are accepted as an inode are the inode that was asked for: its version is the filesystem's, on version 5 the stored
  checksum is that of its bytes and the number and the filesystem it names are the ones asked for, and its two forks follow its
  core and each other and end with it.  No bytes whatever make the parser panic.\<close>

theorem inode_parse_sound:
  assumes "XFS_DINODE_V3_SIZE \<le> unat (sb_inodesize sb)"
  shows "case inode_parse C buf sb ino of
      Inl e \<Rightarrow> e \<noteq> Panic
    | Inr i \<Rightarrow> in_ino i = ino \<and> (in_version i = 3) = is_v5 sb \<and>
        (is_v5 sb \<longrightarrow> rbind (slice buf 0 (unat (sb_inodesize sb))) (\<lambda>r. crc32c_with_zeroed_crc C r 100) = le32 buf 100 \<and>
           be64 buf 152 = Inr ino \<and> uuid_at buf 160 = Inr (sb_meta_uuid sb)) \<and>
        (in_format i = Local \<longrightarrow> unat (in_size i) \<le> unat (sb_inodesize sb)) \<and>
        (case data_fork_range i (unat (sb_inodesize sb)) of (s, e) \<Rightarrow>
           s = data_fork_offset i \<and> s \<le> e \<and> e \<le> unat (sb_inodesize sb) \<and>
           (case attr_fork_range i (unat (sb_inodesize sb)) of None \<Rightarrow> e = unat (sb_inodesize sb)
            | Some (s', e') \<Rightarrow> s' = e \<and> s' < e' \<and> e' = unat (sb_inodesize sb)))"
proof (cases "inode_parse C buf sb ino")
  case (Inl e)
  have "\<not> panics (inode_parse C buf sb ino)"
  proof (cases "length buf < unat (sb_inodesize sb)")
    case False
    then have "unat (sb_inodesize sb) \<le> length buf" by simp
    note safe = verify_v3_integrity_safe [OF assms this] and l = this
    from assms l have "XFS_DINODE_V3_SIZE \<le> length buf" by linarith
    note inode_fields_safe [OF this]
    moreover from \<open>XFS_DINODE_V3_SIZE \<le> length buf\<close> have "5 \<le> length buf" by (simp add: XFS_DINODE_V3_SIZE_def)
    moreover have "\<not> panics (inode_validate i sb)" for i by (simp add: inode_validate_def Let_def)
    ultimately show ?thesis using safe by (simp add: inode_parse_def read_panics_iff)
  qed (simp add: inode_parse_def)
  with Inl show ?thesis by simp
next
  case (Inr i)
  then obtain ver where v: "(ver = 3) = is_v5 sb" "ver = 3 \<longrightarrow> verify_v3_integrity C buf sb ino ''inode'' = Inr ()"
      and f: "inode_fields buf ino ver = Inr i" and val: "inode_validate i sb = Inr ()"
    by (auto simp: inode_parse_def rbind_eq_Inr refuse_Inr split: if_splits)
  have "is_v5 sb \<longrightarrow> rbind (slice buf 0 (unat (sb_inodesize sb))) (\<lambda>r. crc32c_with_zeroed_crc C r 100) = le32 buf 100 \<and>
      be64 buf 152 = Inr ino \<and> uuid_at buf 160 = Inr (sb_meta_uuid sb)"
    using v by (auto simp: verify_v3_integrity_def rbind_eq_Inr refuse_Inr)
  moreover have "in_format i = Local \<longrightarrow> unat (in_size i) \<le> unat (sb_inodesize sb)"
    using val by (auto simp: inode_validate_def Let_def refuse_Inr)
  ultimately show ?thesis using Inr v(1) inode_fields_Inr [OF f] inode_forks [OF val assms] by simp
qed

definition sample_inode_bytes :: bytes where
  "sample_inode_bytes =
     [0x49, 0x4e, 0x41, 0xed, 3, 1, 0, 0] @ replicate 48 0 @ be_bytes64 6 @ replicate 18 0 @ [5, 2] @ replicate 68 0 @ be_bytes64 131 @
     replicate 16 7 @ replicate 80 0"

lemma inode_parse_sound_witness:
  "\<exists>i. inode_parse sample_crc sample_inode_bytes (sample_sb\<lparr>sb_versionnum := 5, sb_meta_uuid := replicate 16 7\<rparr>) 131 = Inr i \<and>
     in_ino i = 131 \<and> is_dir i \<and> data_fork_range i 256 = (176, 216) \<and> attr_fork_range i 256 = Some (216, 256)"
proof -
  let ?sb = "sample_sb\<lparr>sb_versionnum := 5, sb_meta_uuid := replicate 16 7\<rparr>"
  have "case inode_parse sample_crc sample_inode_bytes ?sb 131 of
      Inl e \<Rightarrow> False | Inr i \<Rightarrow> is_dir i \<and> in_forkoff i = 5 \<and> in_version i = 3" by code_simp
  then obtain i where i: "inode_parse sample_crc sample_inode_bytes ?sb 131 = Inr i" "is_dir i" "in_forkoff i = 5" "in_version i = 3"
    by (auto split: sum.splits)
  have z: "unat (sb_inodesize ?sb) = 256" by (simp add: sample_sb_def)
  then have "XFS_DINODE_V3_SIZE \<le> unat (sb_inodesize ?sb)" by (simp add: XFS_DINODE_V3_SIZE_def)
  from inode_parse_sound [OF this, where C = sample_crc and buf = sample_inode_bytes and ino = 131] i z show ?thesis
    by (auto simp: data_fork_offset_def data_fork_range_def attr_fork_range_def XFS_DINODE_V3_SIZE_def)
qed

end
