(* ===== verification/DirRead.thy ===== *)
theory DirRead
  imports Inode AgBtree
begin

unbundle bit_operations_syntax

text \<open>
  Reading directories (\<^verbatim>\<open>src/src/dir.rs\<close>): the entries of a data block, the block form with its index and tail, the leaves
  and nodes of the hash index, and the short form kept inside an inode.

  A turn of the loop over a data block is \<open>data_record\<close>: it gives the length of the record and the entry when the record
  holds one; the loop \<open>parse_entries\<close> ends because no record is empty.  The differences the code takes of \<^verbatim>\<open>usize\<close> values
  that it has not compared wrap (\<open>usize_sub\<close>); rounding up to eight, a mask in the code, is a division here.  What is
  shown is that no bytes make the readers panic, and what is known of entries and indexes that are accepted.
\<close>

section \<open>Data\<close>

definition XFS_DIR2_DATA_ALIGN :: nat where "XFS_DIR2_DATA_ALIGN = 8"
definition XFS_DIR2_DATA_FREE_TAG :: u16 where "XFS_DIR2_DATA_FREE_TAG = 0xffff"
definition DATA_ENTRY_MIN_SIZE :: nat where "DATA_ENTRY_MIN_SIZE = 16"
definition XFS_DIR2_DATA_HDR_SIZE :: nat where "XFS_DIR2_DATA_HDR_SIZE = 16"
definition XFS_DIR3_DATA_HDR_SIZE :: nat where "XFS_DIR3_DATA_HDR_SIZE = 64"
definition XFS_DIR2_LEAF_HDR_SIZE :: nat where "XFS_DIR2_LEAF_HDR_SIZE = 16"
definition XFS_DIR3_LEAF_HDR_SIZE :: nat where "XFS_DIR3_LEAF_HDR_SIZE = 64"
definition XFS_DA_NODE_HDR_SIZE :: nat where "XFS_DA_NODE_HDR_SIZE = 16"
definition XFS_DA3_NODE_HDR_SIZE :: nat where "XFS_DA3_NODE_HDR_SIZE = 64"
definition XFS_DIR2_LEAF_ENTRY_SIZE :: nat where "XFS_DIR2_LEAF_ENTRY_SIZE = 8"
definition XFS_DA_NODE_ENTRY_SIZE :: nat where "XFS_DA_NODE_ENTRY_SIZE = 8"
definition XFS_DIR2_BLOCK_TAIL_SIZE :: nat where "XFS_DIR2_BLOCK_TAIL_SIZE = 8"
definition XFS_DIR2_LEAF_TAIL_SIZE :: nat where "XFS_DIR2_LEAF_TAIL_SIZE = 4"
definition XFS_DIR2_BLOCK_MAGIC :: u32 where "XFS_DIR2_BLOCK_MAGIC = 0x58443242"
definition XFS_DIR3_BLOCK_MAGIC :: u32 where "XFS_DIR3_BLOCK_MAGIC = 0x58444233"
definition XFS_DIR2_DATA_MAGIC :: u32 where "XFS_DIR2_DATA_MAGIC = 0x58443244"
definition XFS_DIR3_DATA_MAGIC :: u32 where "XFS_DIR3_DATA_MAGIC = 0x58444433"
definition XFS_DIR2_LEAF1_MAGIC :: u16 where "XFS_DIR2_LEAF1_MAGIC = 0xd2f1"
definition XFS_DIR3_LEAF1_MAGIC :: u16 where "XFS_DIR3_LEAF1_MAGIC = 0x3df1"
definition XFS_DIR2_LEAFN_MAGIC :: u16 where "XFS_DIR2_LEAFN_MAGIC = 0xd2ff"
definition XFS_DIR3_LEAFN_MAGIC :: u16 where "XFS_DIR3_LEAFN_MAGIC = 0x3dff"
definition XFS_DA_NODE_MAGIC :: u16 where "XFS_DA_NODE_MAGIC = 0xfebe"
definition XFS_DA3_NODE_MAGIC :: u16 where "XFS_DA3_NODE_MAGIC = 0x3ebe"
definition XFS_DA_NODE_MAXDEPTH :: u16 where "XFS_DA_NODE_MAXDEPTH = 5"
definition MAX_SUPPORTED_NODE_LEVEL :: u16 where "MAX_SUPPORTED_NODE_LEVEL = 2"
definition NULL_DATAPTR :: u32 where "NULL_DATAPTR = 0"
definition MAX_SHORT_INUM :: u64 where "MAX_SHORT_INUM = 0xffffffff"
definition MAX_INUMBER :: u64 where "MAX_INUMBER = 2 ^ 56 - 1"

lemmas dir_sizes = XFS_DIR2_DATA_ALIGN_def DATA_ENTRY_MIN_SIZE_def XFS_DIR2_DATA_HDR_SIZE_def XFS_DIR3_DATA_HDR_SIZE_def
  XFS_DIR2_LEAF_HDR_SIZE_def XFS_DIR3_LEAF_HDR_SIZE_def XFS_DA_NODE_HDR_SIZE_def XFS_DA3_NODE_HDR_SIZE_def
  XFS_DIR2_LEAF_ENTRY_SIZE_def XFS_DA_NODE_ENTRY_SIZE_def XFS_DIR2_BLOCK_TAIL_SIZE_def XFS_DIR2_LEAF_TAIL_SIZE_def

definition entry_name_is_valid :: "bytes \<Rightarrow> bool" where
  "entry_name_is_valid name \<longleftrightarrow>
     name \<noteq> [] \<and> length name \<le> 255 \<and> \<not> list_ex (\<lambda>b. b = 0x2f \<or> b = 0) name \<and> name \<noteq> [0x2e] \<and> name \<noteq> [0x2e, 0x2e]"

definition align_up :: "nat \<Rightarrow> nat" where
  "align_up n = (n + XFS_DIR2_DATA_ALIGN - 1) div XFS_DIR2_DATA_ALIGN * XFS_DIR2_DATA_ALIGN"

definition dir_has_ftype :: "Superblock \<Rightarrow> bool" where
  "dir_has_ftype sb = has_ftype sb"

definition ftype_from_raw :: "u8 \<Rightarrow> FileType option res" where
  "ftype_from_raw raw =
     (if raw = 0 then Inr None else if raw = 1 then Inr (Some Regular) else if raw = 2 then Inr (Some Directory)
      else if raw = 3 then Inr (Some CharDevice) else if raw = 4 then Inr (Some BlockDevice) else if raw = 5 then Inr (Some Fifo)
      else if raw = 6 then Inr (Some Socket) else if raw = 7 then Inr (Some Symlink) else if raw = 8 then Inr None
      else Inl (BadSuperblock ''directory entry file type is not a defined value''))"

definition ftype_to_raw :: "FileType option \<Rightarrow> u8" where
  "ftype_to_raw ftype =
     (case ftype of
        None \<Rightarrow> 0
      | Some t \<Rightarrow> (case t of Regular \<Rightarrow> 1 | Directory \<Rightarrow> 2 | CharDevice \<Rightarrow> 3 | BlockDevice \<Rightarrow> 4 | Fifo \<Rightarrow> 5 | Socket \<Rightarrow> 6 | Symlink \<Rightarrow> 7))"

record DirEntry =
  de_name :: bytes
  de_ino :: u64
  de_ftype :: "FileType option"
  de_offset :: u32

record ShortFormDir =
  sf_parent_ino :: u64
  sf_i8count :: u8
  sf_entries :: "DirEntry list"

record LeafEntry =
  le_hashval :: u32
  le_address :: u32

definition is_stale :: "LeafEntry \<Rightarrow> bool" where
  "is_stale e \<longleftrightarrow> le_address e = NULL_DATAPTR"

record BlockDir =
  bd_entries :: "DirEntry list"
  bd_index :: "LeafEntry list"

record DirLeaf =
  dl_magic :: u16
  dl_forw :: u32
  dl_back :: u32
  dl_count :: u16
  dl_stale :: u16
  dl_entries :: "LeafEntry list"
  dl_bestcount :: "u32 option"

definition is_single_leaf :: "DirLeaf \<Rightarrow> bool" where
  "is_single_leaf l \<longleftrightarrow> dl_magic l = XFS_DIR3_LEAF1_MAGIC \<or> dl_magic l = XFS_DIR2_LEAF1_MAGIC"

record NodeEntry =
  ne_hashval :: u32
  ne_before :: u32

record DirNode =
  dn_level :: u16
  dn_count :: u16
  dn_forw :: u32
  dn_back :: u32
  dn_entries :: "NodeEntry list"

definition child_for_hash :: "DirNode \<Rightarrow> u32 \<Rightarrow> u32 option" where
  "child_for_hash n hash = map_option ne_before (find (\<lambda>e. hash \<le> ne_hashval e) (dn_entries n))"

section \<open>Headers\<close>

record V5Layout =
  vl_crc :: nat
  vl_blkno :: nat
  vl_uuid :: nat
  vl_owner :: nat

definition DIR3_BLK_HDR :: V5Layout where
  "DIR3_BLK_HDR = \<lparr>vl_crc = 4, vl_blkno = 8, vl_uuid = 24, vl_owner = 40\<rparr>"

definition DA3_BLK_HDR :: V5Layout where
  "DA3_BLK_HDR = \<lparr>vl_crc = 12, vl_blkno = 16, vl_uuid = 32, vl_owner = 48\<rparr>"

definition dir_block_size :: "bytes \<Rightarrow> Superblock \<Rightarrow> nat res" where
  "dir_block_size buf sb =
     (let sz = unat (dirblocksize sb)
      in if length buf < sz then Inl (BadSuperblock ''directory block needs more bytes'') else Inr sz)"

definition verify_v5_header :: "crc_crate \<Rightarrow> string \<Rightarrow> V5Layout \<Rightarrow> bytes \<Rightarrow> Superblock \<Rightarrow> u64 \<Rightarrow> u64 \<Rightarrow> unit res" where
  "verify_v5_header C what layout buf sb daddr owner =
     (if \<not> is_v5 sb then Inr ()
      else
        rbind (dir_block_size buf sb) (\<lambda>sz.
        rbind (le32 buf (vl_crc layout)) (\<lambda>stored.
        rbind (slice buf 0 sz) (\<lambda>whole.
        rbind (crc32c_with_zeroed_crc C whole (vl_crc layout)) (\<lambda>computed.
        if stored \<noteq> computed then Inl (ChecksumMismatch what daddr)
        else
          rbind (uuid_at buf (vl_uuid layout)) (\<lambda>uuid.
          if uuid \<noteq> sb_meta_uuid sb then Inl (BlockIdentityMismatch what daddr (- 1))
          else
            rbind (be64 buf (vl_blkno layout)) (\<lambda>blkno.
            if blkno \<noteq> daddr then Inl (BlockIdentityMismatch what daddr blkno)
            else
              rbind (be64 buf (vl_owner layout)) (\<lambda>found.
                if found \<noteq> owner then Inl (BlockIdentityMismatch ''directory block owner'' owner found) else Inr ()))))))))"

definition verify_data_block :: "crc_crate \<Rightarrow> bytes \<Rightarrow> Superblock \<Rightarrow> u64 \<Rightarrow> u64 \<Rightarrow> unit res" where
  "verify_data_block C buf sb daddr owner = verify_v5_header C ''directory data block'' DIR3_BLK_HDR buf sb daddr owner"

definition verify_da_block :: "crc_crate \<Rightarrow> bytes \<Rightarrow> Superblock \<Rightarrow> u64 \<Rightarrow> u64 \<Rightarrow> unit res" where
  "verify_da_block C buf sb daddr owner = verify_v5_header C ''directory index block'' DA3_BLK_HDR buf sb daddr owner"

section \<open>Entries of a data block\<close>

definition data_entry_size :: "u8 \<Rightarrow> bool \<Rightarrow> nat" where
  "data_entry_size namelen ftype = align_up (9 + unat namelen + of_bool ftype + 2)"

definition check_entry_ino :: "Superblock \<Rightarrow> u64 \<Rightarrow> unit res" where
  "check_entry_ino sb ino =
     (if ino = 0 then Inl (BadSuperblock ''inode number is zero'')
      else if MAX_INUMBER < ino then Inl (BadSuperblock ''inode number exceeds the 56-bit maximum'')
      else case split_ino sb ino of (ag, _, _) \<Rightarrow>
        if sb_agcount sb \<le> ag then Inl (BadSuperblock ''inode number names an allocation group there is not'') else Inr ())"

definition free_record :: "bytes \<Rightarrow> nat \<Rightarrow> nat \<Rightarrow> nat res" where
  "free_record buf cur fin =
     rbind (be16 buf (cur + 2)) (\<lambda>l.
     let len = unat l
     in if len = 0 \<or> len mod XFS_DIR2_DATA_ALIGN \<noteq> 0
        then Inl (BadSuperblock ''directory data block: free record length is zero or not 8-byte aligned'')
        else if fin < cur + len then Inl (BadSuperblock ''directory data block: free record runs past the end'')
        else
          rbind (be16 buf (cur + len - 2)) (\<lambda>tag.
            if unat tag \<noteq> cur then Inl (BadSuperblock ''directory data block: free record tags itself as another'')
            else Inr len))"

definition used_record :: "bytes \<Rightarrow> Superblock \<Rightarrow> nat \<Rightarrow> nat \<Rightarrow> (nat \<times> DirEntry) res" where
  "used_record buf sb cur fin =
     (if fin - cur < DATA_ENTRY_MIN_SIZE then Inl (BadSuperblock ''directory data block: too few bytes for an entry'')
      else
        rbind (be64 buf cur) (\<lambda>ino.
        rbind (byte_at buf (cur + 8)) (\<lambda>namelen.
        if namelen = 0 then Inl (BadSuperblock ''directory data block: entry has an empty name'')
        else
          let ftype = dir_has_ftype sb; sz = data_entry_size namelen ftype
          in if fin < cur + sz then Inl (BadSuperblock ''directory data block: entry runs past the end'')
             else
               rbind (be16 buf (cur + sz - 2)) (\<lambda>tag.
               if unat tag \<noteq> cur then Inl (BadSuperblock ''directory data block: entry tags itself as another'')
               else
                 rbind (check_entry_ino sb ino) (\<lambda>_.
                 rbind (if ftype then rbind (byte_at buf (cur + 9 + unat namelen)) ftype_from_raw else Inr None) (\<lambda>ft.
                 rbind (slice buf (cur + 9) (unat namelen)) (\<lambda>name.
                   Inr (sz, \<lparr>de_name = name, de_ino = ino, de_ftype = ft, de_offset = of_nat cur\<rparr>))))))))"

definition data_record :: "bytes \<Rightarrow> Superblock \<Rightarrow> nat \<Rightarrow> nat \<Rightarrow> (nat \<times> DirEntry option) res" where
  "data_record buf sb cur fin =
     (if fin - cur < XFS_DIR2_DATA_ALIGN then Inl (BadSuperblock ''directory data block: too few bytes for any record'')
      else
        rbind (be16 buf cur) (\<lambda>t.
        if t = XFS_DIR2_DATA_FREE_TAG then rbind (free_record buf cur fin) (\<lambda>len. Inr (len, None))
        else rbind (used_record buf sb cur fin) (\<lambda>(len, e). Inr (len, Some e))))"

lemma align_up_bounds: "n \<le> align_up n" "align_up n < n + 8" "align_up n mod 8 = 0"
proof -
  have "(n + 7) div 8 * 8 + (n + 7) mod 8 = n + 7" "(n + 7) mod 8 < 8" by simp_all
  then show "n \<le> align_up n" "align_up n < n + 8" by (simp_all add: align_up_def XFS_DIR2_DATA_ALIGN_def)
  show "align_up n mod 8 = 0" by (simp add: align_up_def XFS_DIR2_DATA_ALIGN_def)
qed

lemma data_entry_size_bounds:
  "11 + unat n + of_bool f \<le> data_entry_size n f" "data_entry_size n f mod 8 = 0" "data_entry_size n f < 19 + unat n + of_bool f"
  using align_up_bounds [of "9 + unat n + of_bool f + 2"] by (simp_all add: data_entry_size_def)

text \<open>What is known of one record that is accepted, an entry or a free one.\<close>

lemma free_record_Inr:
  assumes "free_record buf cur fin = Inr len"
  shows "len \<noteq> 0" "len mod 8 = 0" "cur + len \<le> fin"
  using assms by (auto simp: free_record_def rbind_eq_Inr refuse_Inr Let_def dir_sizes)

lemma slice_length: "slice b off n = Inr s \<Longrightarrow> length s = n \<and> off + n \<le> length b"
  by (auto simp: slice_def split: if_splits)

lemma used_record_Inr:
  assumes "used_record buf sb cur fin = Inr (len, e)"
  shows "cur + len \<le> fin" "len = data_entry_size (of_nat (length (de_name e))) (has_ftype sb)" "de_name e \<noteq> []"
    "slice buf (cur + 9) (length (de_name e)) = Inr (de_name e)" "check_entry_ino sb (de_ino e) = Inr ()" "be64 buf cur = Inr (de_ino e)"
    "unat (de_offset e) = cur"
proof -
  from assms obtain n where n: "cur + len \<le> fin" "len = data_entry_size n (has_ftype sb)" "n \<noteq> 0" "slice buf (cur + 9) (unat n) = Inr (de_name e)"
    and r: "check_entry_ino sb (de_ino e) = Inr ()" "be64 buf cur = Inr (de_ino e)" "unat (de_offset e) = cur"
    by (auto simp: used_record_def rbind_eq_Inr refuse_Inr Let_def dir_sizes dir_has_ftype_def simp del: rbind_if)
  from slice_length [OF n(4)] have l: "length (de_name e) = unat n" by simp
  with n(3) have "0 < length (de_name e)" by (simp add: unat_gt_0)
  then show "de_name e \<noteq> []" by simp
  show "cur + len \<le> fin" "len = data_entry_size (of_nat (length (de_name e))) (has_ftype sb)"
    "slice buf (cur + 9) (length (de_name e)) = Inr (de_name e)" "check_entry_ino sb (de_ino e) = Inr ()" "be64 buf cur = Inr (de_ino e)"
    "unat (de_offset e) = cur"
    using n r l by simp_all
qed

lemma data_record_cases:
  assumes "data_record buf sb cur fin = Inr (len, e)"
  obtains (free) "e = None" "free_record buf cur fin = Inr len"
  | (entry) d where "e = Some d" "used_record buf sb cur fin = Inr (len, d)"
  using assms by (auto simp: data_record_def rbind_eq_Inr refuse_Inr split: if_splits)

lemma data_record_advances:
  assumes "data_record buf sb cur fin = Inr (len, e)"
  shows "0 < len" "cur + len \<le> fin" "8 \<le> len"
proof -
  have "8 \<le> len \<and> cur + len \<le> fin" using assms
  proof (cases rule: data_record_cases)
    case free
    from free_record_Inr [OF this(2)] have "0 < len" "8 dvd len" "cur + len \<le> fin" by auto
    then show ?thesis by (auto dest: dvd_imp_le)
  next
    case (entry d)
    from used_record_Inr [OF this(2)] show ?thesis
      using data_entry_size_bounds(1) [of "of_nat (length (de_name d))" "has_ftype sb"] by linarith
  qed
  then show "0 < len" "cur + len \<le> fin" "8 \<le> len" by auto
qed

function parse_entries :: "bytes \<Rightarrow> Superblock \<Rightarrow> nat \<Rightarrow> nat \<Rightarrow> DirEntry list res" where
  "parse_entries buf sb cur fin =
     (if cur < fin
      then
        rbind (data_record buf sb cur fin) (\<lambda>(len, e).
        rbind (parse_entries buf sb (cur + len) fin) (\<lambda>es.
          Inr (case e of None \<Rightarrow> es | Some d \<Rightarrow> d # es)))
      else Inr [])"
  by pat_completeness auto

termination
  by (relation "measure (\<lambda>(buf, sb, cur, fin). fin - cur)") (auto dest: data_record_advances)

declare parse_entries.simps [simp del]

section \<open>The hash index\<close>

fun leaf_loop :: "bytes \<Rightarrow> nat \<Rightarrow> nat \<Rightarrow> u32 \<Rightarrow> LeafEntry list res" where
  "leaf_loop buf off 0 previous = Inr []"
| "leaf_loop buf off (Suc n) previous =
     rbind (be32 buf off) (\<lambda>hashval.
     rbind (be32 buf (off + 4)) (\<lambda>address.
     if hashval < previous then Inl (BadSuperblock ''hash index record is below its predecessor'')
     else
       rbind (leaf_loop buf (off + XFS_DIR2_LEAF_ENTRY_SIZE) n hashval) (\<lambda>es.
         Inr (\<lparr>le_hashval = hashval, le_address = address\<rparr> # es))))"

definition parse_leaf_entries :: "bytes \<Rightarrow> nat \<Rightarrow> nat \<Rightarrow> nat \<Rightarrow> LeafEntry list res" where
  "parse_leaf_entries buf start cnt stale =
     rbind (leaf_loop buf start cnt 0) (\<lambda>entries.
       if length (filter is_stale entries) \<noteq> stale then Inl (BadSuperblock ''header claims other stale index records than are empty'')
       else Inr entries)"

definition data_hdr_size :: "u32 \<Rightarrow> Superblock \<Rightarrow> nat res" where
  "data_hdr_size magic sb =
     rbind (if magic = XFS_DIR3_DATA_MAGIC \<or> magic = XFS_DIR3_BLOCK_MAGIC then Inr (XFS_DIR3_DATA_HDR_SIZE, True)
            else if magic = XFS_DIR2_DATA_MAGIC \<or> magic = XFS_DIR2_BLOCK_MAGIC then Inr (XFS_DIR2_DATA_HDR_SIZE, False)
            else Inl (BadSuperblock ''directory data block has the wrong magic'')) (\<lambda>(sz, v5).
       if v5 \<noteq> is_v5 sb then Inl (BadSuperblock ''directory data block magic is of the other format'') else Inr sz)"

definition is_block_form :: "u32 \<Rightarrow> bool" where
  "is_block_form magic \<longleftrightarrow> magic = XFS_DIR3_BLOCK_MAGIC \<or> magic = XFS_DIR2_BLOCK_MAGIC"

definition read_data_magic :: "bytes \<Rightarrow> Superblock \<Rightarrow> u32 res" where
  "read_data_magic buf sb =
     rbind (dir_block_size buf sb) (\<lambda>blocksize.
       if blocksize < XFS_DIR2_DATA_HDR_SIZE + XFS_DIR2_BLOCK_TAIL_SIZE
       then Inl (BadSuperblock ''directory block size is smaller than the smallest possible header'')
       else be32 buf 0)"

definition parse_block_form :: "bytes \<Rightarrow> Superblock \<Rightarrow> BlockDir res" where
  "parse_block_form buf sb =
     rbind (read_data_magic buf sb) (\<lambda>magic.
     if \<not> is_block_form magic then Inl (BadSuperblock ''block-form directory has the wrong magic'')
     else
       rbind (dir_block_size buf sb) (\<lambda>blocksize.
       rbind (data_hdr_size magic sb) (\<lambda>hdr_size.
       if blocksize < hdr_size + XFS_DIR2_BLOCK_TAIL_SIZE
       then Inl (BadSuperblock ''directory block size leaves no room for a header and its tail'')
       else
         let tail = blocksize - XFS_DIR2_BLOCK_TAIL_SIZE
         in rbind (be32 buf tail) (\<lambda>cnt. rbind (be32 buf (tail + 4)) (\<lambda>stale.
            let index_bytes = unat cnt * XFS_DIR2_LEAF_ENTRY_SIZE
            in if tail - hdr_size < index_bytes
               then Inl (BadSuperblock ''block-form directory claims index records that do not fit between the header and the tail'')
               else if cnt < stale then Inl (BadSuperblock ''block-form directory claims more stale records than there are'')
               else
                 let index_start = tail - index_bytes
                 in rbind (parse_leaf_entries buf index_start (unat cnt) (unat stale)) (\<lambda>index.
                    rbind (parse_entries buf sb hdr_size index_start) (\<lambda>entries.
                      Inr \<lparr>bd_entries = entries, bd_index = index\<rparr>)))))))"

definition parse_data_block :: "bytes \<Rightarrow> Superblock \<Rightarrow> DirEntry list res" where
  "parse_data_block buf sb =
     rbind (read_data_magic buf sb) (\<lambda>magic.
     if is_block_form magic then rbind (parse_block_form buf sb) (\<lambda>d. Inr (bd_entries d))
     else
       rbind (dir_block_size buf sb) (\<lambda>blocksize.
       rbind (data_hdr_size magic sb) (\<lambda>hdr_size. parse_entries buf sb hdr_size blocksize)))"

section \<open>Leaves and nodes\<close>

definition da_hdr_size :: "u16 \<Rightarrow> Superblock \<Rightarrow> nat res" where
  "da_hdr_size magic sb =
     rbind (if magic = XFS_DIR3_LEAF1_MAGIC \<or> magic = XFS_DIR3_LEAFN_MAGIC then Inr (XFS_DIR3_LEAF_HDR_SIZE, True)
            else if magic = XFS_DIR2_LEAF1_MAGIC \<or> magic = XFS_DIR2_LEAFN_MAGIC then Inr (XFS_DIR2_LEAF_HDR_SIZE, False)
            else if magic = XFS_DA3_NODE_MAGIC then Inr (XFS_DA3_NODE_HDR_SIZE, True)
            else if magic = XFS_DA_NODE_MAGIC then Inr (XFS_DA_NODE_HDR_SIZE, False)
            else Inl (BadSuperblock ''not a directory index magic'')) (\<lambda>(sz, v5).
       if v5 \<noteq> is_v5 sb then Inl (BadSuperblock ''directory index magic is of the other format'') else Inr sz)"

definition da_counts :: "nat \<Rightarrow> bool \<Rightarrow> nat" where
  "da_counts hdr_size v5 = hdr_size - (if v5 then 8 else 4)"

definition leaf_limit :: "bytes \<Rightarrow> nat \<Rightarrow> nat \<Rightarrow> bool \<Rightarrow> (u32 option \<times> nat) res" where
  "leaf_limit buf blocksize hdr_size single =
     (if single
      then
        let tail = blocksize - XFS_DIR2_LEAF_TAIL_SIZE
        in rbind (be32 buf tail) (\<lambda>bestcount.
           let bests_bytes = unat bestcount * 2
           in if usize_sub tail hdr_size < bests_bytes
              then Inl (BadSuperblock ''leaf-form directory claims best-free records that do not fit in the block'')
              else Inr (Some bestcount, usize_sub tail bests_bytes))
      else Inr (None, blocksize))"

definition parse_leaf :: "bytes \<Rightarrow> Superblock \<Rightarrow> DirLeaf res" where
  "parse_leaf buf sb =
     rbind (dir_block_size buf sb) (\<lambda>blocksize.
     if blocksize < XFS_DIR3_LEAF_HDR_SIZE then Inl (BadSuperblock ''directory block size is too small to hold a leaf header'')
     else
       rbind (be16 buf 8) (\<lambda>magic.
       if magic \<notin> {XFS_DIR3_LEAF1_MAGIC, XFS_DIR3_LEAFN_MAGIC, XFS_DIR2_LEAF1_MAGIC, XFS_DIR2_LEAFN_MAGIC}
       then Inl (BadSuperblock ''directory leaf block has the wrong magic'')
       else
         rbind (da_hdr_size magic sb) (\<lambda>hdr_size.
         let counts = da_counts hdr_size (is_v5 sb)
         in rbind (be16 buf counts) (\<lambda>cnt. rbind (be16 buf (counts + 2)) (\<lambda>stale.
            if cnt < stale then Inl (BadSuperblock ''directory leaf block claims more stale records than there are'')
            else
              let single = magic = XFS_DIR3_LEAF1_MAGIC \<or> magic = XFS_DIR2_LEAF1_MAGIC
              in rbind (leaf_limit buf blocksize hdr_size single) (\<lambda>(bestcount, limit).
                 if limit < hdr_size + unat cnt * XFS_DIR2_LEAF_ENTRY_SIZE
                 then Inl (BadSuperblock ''directory leaf block claims index records that do not fit'')
                 else
                   rbind (parse_leaf_entries buf hdr_size (unat cnt) (unat stale)) (\<lambda>entries.
                   rbind (be32 buf 0) (\<lambda>forw. rbind (be32 buf 4) (\<lambda>bk.
                     Inr \<lparr>dl_magic = magic, dl_forw = forw, dl_back = bk, dl_count = cnt, dl_stale = stale, dl_entries = entries,
                          dl_bestcount = bestcount\<rparr>)))))))))"

fun node_loop :: "bytes \<Rightarrow> nat \<Rightarrow> nat \<Rightarrow> u32 \<Rightarrow> NodeEntry list res" where
  "node_loop buf off 0 previous = Inr []"
| "node_loop buf off (Suc n) previous =
     rbind (be32 buf off) (\<lambda>hashval.
     if hashval < previous then Inl (BadSuperblock ''directory node block: child is below its predecessor'')
     else
       rbind (be32 buf (off + 4)) (\<lambda>before.
       rbind (node_loop buf (off + XFS_DA_NODE_ENTRY_SIZE) n hashval) (\<lambda>es.
         Inr (\<lparr>ne_hashval = hashval, ne_before = before\<rparr> # es))))"

definition parse_node :: "bytes \<Rightarrow> Superblock \<Rightarrow> DirNode res" where
  "parse_node buf sb =
     rbind (dir_block_size buf sb) (\<lambda>blocksize.
     if blocksize < XFS_DA3_NODE_HDR_SIZE then Inl (BadSuperblock ''directory block size is too small to hold a node header'')
     else
       rbind (be16 buf 8) (\<lambda>magic.
       if magic \<noteq> XFS_DA3_NODE_MAGIC \<and> magic \<noteq> XFS_DA_NODE_MAGIC then Inl (BadSuperblock ''directory node block has the wrong magic'')
       else
         rbind (da_hdr_size magic sb) (\<lambda>hdr_size.
         let counts = da_counts hdr_size (is_v5 sb)
         in rbind (be16 buf counts) (\<lambda>cnt. rbind (be16 buf (counts + 2)) (\<lambda>level.
            if level = 0 then Inl (BadSuperblock ''directory node block is at level 0, which is a leaf, not a node'')
            else if XFS_DA_NODE_MAXDEPTH < level then Inl (BadSuperblock ''directory node block is deeper than the format allows'')
            else if MAX_SUPPORTED_NODE_LEVEL < level then Inl (UnsupportedFeature ''directory hash B-tree is deeper than this driver descends'')
            else if blocksize < hdr_size + unat cnt * XFS_DA_NODE_ENTRY_SIZE
            then Inl (BadSuperblock ''directory node block claims child records that do not fit'')
            else
              rbind (node_loop buf hdr_size (unat cnt) 0) (\<lambda>entries.
              rbind (be32 buf 0) (\<lambda>forw. rbind (be32 buf 4) (\<lambda>bk.
                Inr \<lparr>dn_level = level, dn_count = cnt, dn_forw = forw, dn_back = bk, dn_entries = entries\<rparr>))))))))"

section \<open>The short form\<close>

definition read_sf_ino :: "bytes \<Rightarrow> nat \<Rightarrow> bool \<Rightarrow> u64 res" where
  "read_sf_ino buf off wide =
     (if \<not> wide then rbind (be32 buf off) (\<lambda>v. Inr (ucast v))
      else
        rbind (be64 buf off) (\<lambda>raw.
          if MAX_INUMBER < raw then Inl (BadSuperblock ''short-form directory: inode number sets bits above the 56-bit maximum'')
          else Inr raw))"

text \<open>What a lenient read reads past: the entries with an undefined type, and why the parent is none.\<close>

record Tolerated =
  to_types :: "(bytes \<times> u8) list"
  to_parent :: "error option"

text \<open>One entry: its length, itself, and the type byte when it is not defined and that is tolerated.\<close>

definition sf_entry :: "bytes \<Rightarrow> Superblock \<Rightarrow> bool \<Rightarrow> bool \<Rightarrow> nat \<Rightarrow> (nat \<times> DirEntry \<times> (bytes \<times> u8) list) res" where
  "sf_entry sf sb lenient wide cur =
     (if length sf - cur < 3 then Inl (BadSuperblock ''short-form entry starts past the end of the directory'')
      else
        rbind (byte_at sf cur) (\<lambda>nl.
        let namelen = unat nl
        in if namelen = 0 then Inl (BadSuperblock ''short-form entry has an empty name'')
           else
             rbind (be16 sf (cur + 1)) (\<lambda>offset.
             let ftype = dir_has_ftype sb;
                 ino_size = (if wide then 8 else 4);
                 entsize = 3 + namelen + of_bool ftype + ino_size
             in if length sf < cur + entsize then Inl (BadSuperblock ''short-form entry runs past the directory'')
                else
                  rbind (slice sf (cur + 3) namelen) (\<lambda>name.
                  rbind (if ftype
                         then
                           rbind (byte_at sf (cur + 3 + namelen)) (\<lambda>raw.
                             case ftype_from_raw raw of
                               Inr ft \<Rightarrow> Inr (ft, [])
                             | Inl e \<Rightarrow> if lenient then Inr (None, [(name, raw)]) else Inl e)
                         else Inr (None, [])) (\<lambda>(ft, odd_types).
                  rbind (read_sf_ino sf (cur + 3 + namelen + of_bool ftype) wide) (\<lambda>ino.
                  rbind (check_entry_ino sb ino) (\<lambda>_.
                    Inr (entsize, \<lparr>de_name = name, de_ino = ino, de_ftype = ft, de_offset = ucast offset\<rparr>, odd_types))))))))"

fun sf_loop :: "bytes \<Rightarrow> Superblock \<Rightarrow> bool \<Rightarrow> bool \<Rightarrow> nat \<Rightarrow> nat \<Rightarrow> (nat \<times> DirEntry list \<times> (bytes \<times> u8) list) res" where
  "sf_loop sf sb lenient wide 0 cur = Inr (cur, [], [])"
| "sf_loop sf sb lenient wide (Suc n) cur =
     rbind (sf_entry sf sb lenient wide cur) (\<lambda>(entsize, e, odd_types).
     rbind (sf_loop sf sb lenient wide n (cur + entsize)) (\<lambda>(fin, es, more_types).
       Inr (fin, e # es, odd_types @ more_types)))"

definition short_form :: "Inode \<Rightarrow> bytes \<Rightarrow> Superblock \<Rightarrow> bool \<Rightarrow> (ShortFormDir \<times> Tolerated) res" where
  "short_form inode fork sb lenient =
     (if \<not> is_dir inode then Inl NotADirectory
      else if in_format inode \<noteq> Local then Inl (BadSuperblock ''directory fork format is not the short (local) form'')
      else
        let sz = unat (in_size inode)
        in if length fork < sz then Inl (BadSuperblock ''short-form directory claims more bytes than its data fork holds'')
           else
             rbind (slice fork 0 sz) (\<lambda>sf.
             if length sf < 2 then Inl (BadSuperblock ''short-form directory is too short for its header'')
             else
               rbind (byte_at sf 0) (\<lambda>cnt. rbind (byte_at sf 1) (\<lambda>i8count.
               let wide = i8count \<noteq> 0; hdr_size = 2 + (if wide then 8 else 4)
               in if length sf < hdr_size then Inl (BadSuperblock ''short-form directory is too short for a header'')
                  else
                    rbind (read_sf_ino sf 2 wide) (\<lambda>parent_ino.
                    rbind (case check_entry_ino sb parent_ino of
                             Inl e \<Rightarrow> if lenient then Inr (Some e) else Inl e
                           | Inr _ \<Rightarrow> Inr None) (\<lambda>odd_parent.
                    rbind (sf_loop sf sb lenient wide (unat cnt) hdr_size) (\<lambda>(cur, entries, odd_types).
                    let found_wide = of_bool (MAX_SHORT_INUM < parent_ino) + length (filter (\<lambda>e. MAX_SHORT_INUM < de_ino e) entries)
                    in if cur \<noteq> length sf then Inl (BadSuperblock ''short-form directory's entries do not end at its declared size'')
                       else if found_wide \<noteq> unat i8count
                       then Inl (BadSuperblock ''short-form header claims other inode numbers wider than 32 bits than there are'')
                       else Inr (\<lparr>sf_parent_ino = parent_ino, sf_i8count = i8count, sf_entries = entries\<rparr>,
                                 \<lparr>to_types = odd_types, to_parent = odd_parent\<rparr>))))))))"

definition read_short_form :: "Inode \<Rightarrow> bytes \<Rightarrow> Superblock \<Rightarrow> ShortFormDir res" where
  "read_short_form inode fork sb = rbind (short_form inode fork sb False) (\<lambda>(d, _). Inr d)"

definition read_short_form_lenient :: "Inode \<Rightarrow> bytes \<Rightarrow> Superblock \<Rightarrow> (ShortFormDir \<times> Tolerated) res" where
  "read_short_form_lenient inode fork sb = short_form inode fork sb True"

section \<open>No bytes make a reader panic\<close>

lemma safe_rbind: "\<not> panics r \<Longrightarrow> (\<And>x. r = Inr x \<Longrightarrow> \<not> panics (f x)) \<Longrightarrow> \<not> panics (rbind r f)"
  by auto

lemma safe_if: "(c \<Longrightarrow> \<not> panics a) \<Longrightarrow> (\<not> c \<Longrightarrow> \<not> panics b) \<Longrightarrow> \<not> panics (if c then a else b)"
  by simp

lemma safe_pair: "(\<And>a b. p = (a, b) \<Longrightarrow> \<not> panics (f a b)) \<Longrightarrow> \<not> panics (case p of (a, b) \<Rightarrow> f a b)"
  by (cases p) simp

lemmas safe_intros = safe_rbind safe_if safe_pair

lemma refusals_safe: "check_entry_ino sb ino \<noteq> Inl Panic" "ftype_from_raw raw \<noteq> Inl Panic"
  by (auto simp: check_entry_ino_def ftype_from_raw_def split: prod.splits)

lemma free_record_safe: "cur + 8 \<le> fin \<Longrightarrow> fin \<le> length buf \<Longrightarrow> \<not> panics (free_record buf cur fin)"
  by (auto simp: free_record_def Let_def read_panics_iff)

lemma used_record_safe:
  assumes "cur < fin" and "fin \<le> length buf"
  shows "\<not> panics (used_record buf sb cur fin)"
proof (cases "fin - cur < 16")
  case False
  have *: "\<not> panics (byte_at buf (cur + 9 + unat n))" "\<not> panics (be16 buf (cur + data_entry_size n (has_ftype sb) - 2))" "\<not> panics (slice buf (cur + 9) (unat n))"
    if "cur + data_entry_size n (has_ftype sb) \<le> fin" for n
    using that assms data_entry_size_bounds(1) [of n "has_ftype sb"] by (auto simp: read_panics_iff slice_def)
  show ?thesis using False assms refusals_safe *
    by (auto simp: used_record_def Let_def dir_sizes dir_has_ftype_def read_panics_iff panics_def [of "check_entry_ino _ _"]
        panics_def [of "ftype_from_raw _"] not_less simp del: rbind_if split del: if_split split: if_splits)
qed (simp add: used_record_def dir_sizes)

lemma data_record_safe: "cur < fin \<Longrightarrow> fin \<le> length buf \<Longrightarrow> \<not> panics (data_record buf sb cur fin)"
  using free_record_safe [of cur fin buf] used_record_safe [of cur fin buf sb]
  by (auto simp: data_record_def dir_sizes read_panics_iff not_less)

lemma parse_entries_safe: "fin \<le> length buf \<Longrightarrow> \<not> panics (parse_entries buf sb cur fin)"
proof (induction buf sb cur fin rule: parse_entries.induct)
  case (1 buf sb cur fin)
  then show ?case using data_record_safe [of cur fin buf sb]
    by (subst parse_entries.simps) (auto split: prod.splits)
qed

lemma leaf_loop_safe: "off + 8 * n \<le> length buf \<Longrightarrow> \<not> panics (leaf_loop buf off n prev)"
  by (induction n arbitrary: off prev) (auto simp: read_panics_iff dir_sizes)

lemma node_loop_safe: "off + 8 * n \<le> length buf \<Longrightarrow> \<not> panics (node_loop buf off n prev)"
  by (induction n arbitrary: off prev) (auto simp: read_panics_iff dir_sizes)

lemma parse_leaf_entries_safe: "off + 8 * n \<le> length buf \<Longrightarrow> \<not> panics (parse_leaf_entries buf off n stale)"
  using leaf_loop_safe [of off n buf 0] by (auto simp: parse_leaf_entries_def)

lemma dir_block_size_Inr: "dir_block_size buf sb = Inr sz \<longleftrightarrow> sz = unat (dirblocksize sb) \<and> sz \<le> length buf"
  by (auto simp: dir_block_size_def Let_def)

lemma dir_headers_safe: "\<not> panics (dir_block_size buf sb)" "\<not> panics (data_hdr_size magic sb)" "\<not> panics (da_hdr_size m sb)"
  by (simp_all add: dir_block_size_def data_hdr_size_def da_hdr_size_def Let_def)

lemma read_data_magic_safe: "\<not> panics (read_data_magic buf sb)"
  using dir_headers_safe(1) [of buf sb] by (auto simp: read_data_magic_def dir_block_size_Inr read_panics_iff dir_sizes)

lemma parse_block_form_safe: "\<not> panics (parse_block_form buf sb)"
proof -
  have *: "\<not> panics (parse_leaf_entries buf (unat (dirblocksize sb) - 8 - unat cnt * 8) (unat cnt) stale)"
    if "unat (dirblocksize sb) \<le> length buf" "\<not> unat (dirblocksize sb) - 8 - h < unat cnt * 8" "\<not> unat (dirblocksize sb) < h + 8" for cnt :: u32 and h stale
    using that by (intro parse_leaf_entries_safe) auto
  show ?thesis using dir_headers_safe read_data_magic_safe [of buf sb] *
    by (auto simp: parse_block_form_def dir_block_size_Inr read_panics_iff Let_def dir_sizes intro!: parse_entries_safe)
qed

lemma parse_data_block_safe: "\<not> panics (parse_data_block buf sb)"
  using dir_headers_safe read_data_magic_safe [of buf sb] parse_block_form_safe [of buf sb]
  by (auto simp: parse_data_block_def dir_block_size_Inr parse_entries_safe)

lemma hdr_size_Inr: "da_hdr_size magic sb = Inr h \<Longrightarrow> (h = 16 \<or> h = 64) \<and> (is_v5 sb \<longleftrightarrow> h = 64)"
  by (auto simp: da_hdr_size_def dir_sizes split: if_splits)

lemma parse_node_safe: "\<not> panics (parse_node buf sb)"
  using dir_headers_safe
  by (auto simp: parse_node_def dir_block_size_Inr read_panics_iff Let_def dir_sizes da_counts_def node_loop_safe dest!: hdr_size_Inr)

lemma leaf_limit_ok:
  assumes "512 \<le> blocksize" and "blocksize \<le> length buf" and "h = 16 \<or> h = 64"
  shows "\<not> panics (leaf_limit buf blocksize h single)" "leaf_limit buf blocksize h single = Inr (best, limit) \<Longrightarrow> limit \<le> length buf"
  using assms by (auto simp: leaf_limit_def Let_def read_panics_iff rbind_eq_Inr refuse_Inr dir_sizes usize_sub_def split: if_splits)

lemma parse_leaf_safe:
  assumes "512 \<le> unat (dirblocksize sb)"
  shows "\<not> panics (parse_leaf buf sb)"
proof -
  have lim: "\<not> panics (leaf_limit buf x h single)" "leaf_limit buf x h single = Inr (best, limit) \<Longrightarrow> limit \<le> length buf"
    if "dir_block_size buf sb = Inr x" "h = 16 \<or> h = 64" for x h single best limit
    using assms that by (simp_all only: dir_block_size_Inr) (metis leaf_limit_ok(1), metis leaf_limit_ok(2))
  have rd: "\<not> panics (be16 buf off)" "\<not> panics (be32 buf off)" if "dir_block_size buf sb = Inr x" "off \<le> 62" for x off
    using that assms by (auto simp: dir_block_size_Inr read_panics_iff)
  have cnt: "da_counts h (is_v5 sb) \<le> 60" if "h = 16 \<or> h = 64" "is_v5 sb \<longleftrightarrow> h = 64" for h
    using that by (auto simp: da_counts_def)
  have ent: "\<not> panics (parse_leaf_entries buf h (unat c) st)"
    if "dir_block_size buf sb = Inr x" "h = 16 \<or> h = 64" "leaf_limit buf x h single = Inr (best, limit)" "\<not> limit < h + unat c * XFS_DIR2_LEAF_ENTRY_SIZE"
    for x h single best limit st and c :: u16
    using lim(2) [OF that(1-3)] that(4) by (intro parse_leaf_entries_safe) (simp add: dir_sizes)
  show ?thesis unfolding parse_leaf_def Let_def
  proof ((intro safe_intros; (elim hdr_size_Inr [THEN conjE])?), goal_cases)
    case (6 x m h)
    show ?case using rd(1) [OF 6(1)] cnt [OF 6(5,6)] by simp
  next
    case (7 x m h c)
    show ?case using rd(1) [OF 7(1)] cnt [OF 7(6,7)] by simp
  next
    case (11 x m h c st r best limit)
    show ?case using ent [OF 11(1)] 11 by blast
  qed (simp_all add: dir_headers_safe lim(1) rd)
qed

lemma sf_entry_safe:
  assumes "cur \<le> length sf"
  shows "\<not> panics (sf_entry sf sb lenient wide cur)"
  unfolding sf_entry_def Let_def read_sf_ino_def using assms
  by (intro safe_intros)
    (auto simp: read_panics_iff slice_def dir_has_ftype_def refusals_safe panics_def [of "check_entry_ino _ _"] split: sum.splits if_splits)

lemma sf_entry_Inr:
  assumes "sf_entry sf sb lenient wide cur = Inr (sz, e, ts)"
  shows "cur + sz \<le> length sf" "de_name e \<noteq> []" "check_entry_ino sb (de_ino e) = Inr ()"
  using assms
  by (auto simp: sf_entry_def rbind_eq_Inr refuse_Inr Let_def slice_def simp del: rbind_if split: if_splits prod.splits)

lemma sf_loop_ok:
  assumes "cur \<le> length sf"
  shows "case sf_loop sf sb lenient wide n cur of Inl e \<Rightarrow> e \<noteq> Panic
    | Inr (fin, es, ts) \<Rightarrow> length es = n \<and> fin \<le> length sf \<and> (\<forall>e \<in> set es. de_name e \<noteq> [] \<and> check_entry_ino sb (de_ino e) = Inr ())"
  using assms
proof (induction n arbitrary: cur)
  case (Suc n)
  show ?case
  proof (cases "sf_entry sf sb lenient wide cur")
    case (Inl e)
    with sf_entry_safe [OF Suc.prems, of sb lenient wide] show ?thesis by simp
  next
    case (Inr r)
    obtain sz e ts where r: "r = (sz, e, ts)" by (cases r)
    note step = sf_entry_Inr [OF Inr [unfolded r]]
    from Suc.IH [OF step(1)] show ?thesis using Inr r step
      by (auto split: sum.splits prod.splits)
  qed
qed simp

section \<open>What is accepted\<close>

text \<open>An inode number that can exist: not zero, at most 56 bits wide, and in a group the volume has.\<close>

definition names_inode :: "Superblock \<Rightarrow> u64 \<Rightarrow> bool" where
  "names_inode sb ino \<longleftrightarrow> ino \<noteq> 0 \<and> unat ino < 2 ^ 56 \<and> fst (split_ino sb ino) < sb_agcount sb"

lemma check_entry_ino_Inr: "check_entry_ino sb ino = Inr () \<longleftrightarrow> names_inode sb ino"
proof -
  have "MAX_INUMBER < ino \<longleftrightarrow> \<not> unat ino < 2 ^ 56" by (auto simp: MAX_INUMBER_def word_less_nat_alt)
  then show ?thesis by (auto simp: check_entry_ino_def names_inode_def not_less split: prod.splits)
qed

text \<open>Entries one behind the other between two offsets, each where it says it is.\<close>

fun laid_out :: "bytes \<Rightarrow> Superblock \<Rightarrow> nat \<Rightarrow> nat \<Rightarrow> DirEntry list \<Rightarrow> bool" where
  "laid_out buf sb lo hi [] = True"
| "laid_out buf sb lo hi (e # es) =
     (let at = unat (de_offset e); len = data_entry_size (of_nat (length (de_name e))) (has_ftype sb)
      in lo \<le> at \<and> at + len \<le> hi \<and> de_name e \<noteq> [] \<and> slice buf (at + 9) (length (de_name e)) = Inr (de_name e) \<and>
         be64 buf at = Inr (de_ino e) \<and> names_inode sb (de_ino e) \<and> laid_out buf sb (at + len) hi es)"

lemma laid_out_mono: "laid_out buf sb lo hi es \<Longrightarrow> lo' \<le> lo \<Longrightarrow> hi \<le> hi' \<Longrightarrow> laid_out buf sb lo' hi' es"
  by (induction es arbitrary: lo lo') (auto simp: Let_def)

lemma parse_entries_laid_out: "parse_entries buf sb cur fin = Inr es \<Longrightarrow> laid_out buf sb cur fin es"
proof (induction buf sb cur fin arbitrary: es rule: parse_entries.induct)
  case (1 buf sb cur fin)
  show ?case
  proof (cases "cur < fin")
    case True
    with "1.prems" obtain len d rest where d: "data_record buf sb cur fin = Inr (len, d)" and r: "parse_entries buf sb (cur + len) fin = Inr rest"
      and es: "es = (case d of None \<Rightarrow> rest | Some e \<Rightarrow> e # rest)"
      by (subst (asm) parse_entries.simps) (auto simp: rbind_eq_Inr)
    from "1.IH" [OF True d refl r] have l: "laid_out buf sb (cur + len) fin rest" .
    from d show ?thesis
    proof (cases rule: data_record_cases)
      case free
      with es l show ?thesis by (auto intro: laid_out_mono)
    next
      case (entry e)
      from used_record_Inr [OF this(2)] show ?thesis using entry(1) es l by (simp add: Let_def check_entry_ino_Inr)
    qed
  next
    case False
    with "1.prems" show ?thesis by (subst (asm) parse_entries.simps) simp
  qed
qed

lemma leaf_loop_Inr:
  "leaf_loop buf off n prev = Inr es \<Longrightarrow> length es = n \<and> sorted (prev # map le_hashval es)"
proof (induction n arbitrary: off prev es)
  case (Suc n)
  then obtain h a rest where "es = \<lparr>le_hashval = h, le_address = a\<rparr> # rest" "prev \<le> h" "leaf_loop buf (off + XFS_DIR2_LEAF_ENTRY_SIZE) n h = Inr rest"
    by (auto simp: rbind_eq_Inr refuse_Inr not_less)
  with Suc.IH [OF this(3)] show ?case by (force intro: order_trans)
qed simp

lemma node_loop_Inr:
  "node_loop buf off n prev = Inr es \<Longrightarrow> length es = n \<and> sorted (prev # map ne_hashval es)"
proof (induction n arbitrary: off prev es)
  case (Suc n)
  then obtain h a rest where "es = \<lparr>ne_hashval = h, ne_before = a\<rparr> # rest" "prev \<le> h" "node_loop buf (off + XFS_DA_NODE_ENTRY_SIZE) n h = Inr rest"
    by (auto simp: rbind_eq_Inr refuse_Inr not_less)
  with Suc.IH [OF this(3)] show ?case by (force intro: order_trans)
qed simp

lemma parse_leaf_entries_Inr:
  "parse_leaf_entries buf off n stale = Inr es \<Longrightarrow>
     length es = n \<and> sorted (map le_hashval es) \<and> length (filter is_stale es) = stale"
  by (auto simp: parse_leaf_entries_def rbind_eq_Inr refuse_Inr dest!: leaf_loop_Inr)

lemma data_hdr_size_Inr: "data_hdr_size magic sb = Inr h \<Longrightarrow> 16 \<le> h"
  by (auto simp: data_hdr_size_def dir_sizes split: if_splits)

lemma parse_block_form_Inr:
  assumes "parse_block_form buf sb = Inr d"
  shows "laid_out buf sb 16 (unat (dirblocksize sb)) (bd_entries d)" "sorted (map le_hashval (bd_index d))"
proof -
  from assms obtain magic h st n stale where "data_hdr_size magic sb = Inr h" "st \<le> unat (dirblocksize sb)"
    "parse_entries buf sb h st = Inr (bd_entries d)" "parse_leaf_entries buf st n stale = Inr (bd_index d)"
    unfolding parse_block_form_def by (auto simp: rbind_eq_Inr refuse_Inr Let_def dir_block_size_Inr) (meson diff_le_self)
  note data_hdr_size_Inr [OF this(1)] this(2) parse_entries_laid_out [OF this(3)] parse_leaf_entries_Inr [OF this(4)]
  then show "laid_out buf sb 16 (unat (dirblocksize sb)) (bd_entries d)" "sorted (map le_hashval (bd_index d))"
    by (auto intro: laid_out_mono)
qed

lemma parse_data_block_Inr:
  assumes "parse_data_block buf sb = Inr es"
  shows "laid_out buf sb 16 (unat (dirblocksize sb)) es"
  using assms unfolding parse_data_block_def
  by (auto simp: rbind_eq_Inr dir_block_size_Inr dest: parse_block_form_Inr dest!: data_hdr_size_Inr parse_entries_laid_out
      intro: laid_out_mono split: if_splits)

lemma parse_leaf_Inr:
  assumes "parse_leaf buf sb = Inr l"
  shows "length (dl_entries l) = unat (dl_count l) \<and> sorted (map le_hashval (dl_entries l)) \<and>
    length (filter is_stale (dl_entries l)) = unat (dl_stale l)"
  using assms unfolding parse_leaf_def Let_def rbind_eq_Inr refuse_Inr
  by (auto simp: rbind_eq_Inr refuse_Inr simp del: insert_iff split: prod.splits dest!: parse_leaf_entries_Inr)

lemma parse_node_Inr:
  assumes "parse_node buf sb = Inr n"
  shows "length (dn_entries n) = unat (dn_count n) \<and> sorted (map ne_hashval (dn_entries n)) \<and> dn_level n \<noteq> 0 \<and> dn_level n \<le> 2"
  using assms unfolding parse_node_def Let_def rbind_eq_Inr refuse_Inr
  by (auto simp: rbind_eq_Inr refuse_Inr MAX_SUPPORTED_NODE_LEVEL_def not_less simp del: insert_iff dest!: node_loop_Inr)

text \<open>The child a node gives for a hash: the first whose bound is not below it.\<close>

lemma find_sorted:
  "sorted (map f xs) \<Longrightarrow> find (\<lambda>e. h \<le> f e) xs = vec_get xs (length (filter (\<lambda>e. f e < h) xs))"
proof (induction xs)
  case (Cons x xs)
  show ?case
  proof (cases "h \<le> f x")
    case True
    then have "filter (\<lambda>e. f e < h) xs = []" using Cons.prems by (auto simp: filter_empty_conv)
    with True show ?thesis by (simp add: vec_get_def leD)
  next
    case False
    with Cons show ?thesis by (simp add: vec_get_def)
  qed
qed (simp add: vec_get_def)

lemma short_form_safe: "\<not> panics (short_form inode fork sb lenient)"
proof -
  have parent: "\<not> panics (read_sf_ino x 2 wide)" if "\<not> length x < 2 + (if wide then 8 else 4)" for x wide
    using that by (auto simp: read_sf_ino_def read_panics_iff split: if_splits)
  have check: "\<not> panics (case check_entry_ino sb p of Inl e \<Rightarrow> if lenient then Inr (Some e) else Inl e | Inr y \<Rightarrow> Inr None)" for p
    using refusals_safe(1) [of sb p] by (auto split: sum.splits)
  have loop: "\<not> panics (sf_loop x sb lenient wide n c)" if "\<not> length x < c" for x wide n c
    using sf_loop_ok [where cur = c and sf = x and sb = sb and lenient = lenient and wide = wide and n = n] that by (auto split: sum.splits)
  show ?thesis unfolding short_form_def Let_def
    by (intro safe_intros parent check loop) (auto simp: slice_def read_panics_iff split: if_splits)
qed

lemma short_form_Inr:
  assumes "short_form inode fork sb lenient = Inr (d, t)"
  shows "is_dir inode"
    "unat (sf_i8count d) = of_bool (MAX_SHORT_INUM < sf_parent_ino d) + length (filter (\<lambda>e. MAX_SHORT_INUM < de_ino e) (sf_entries d))"
    "list_all (\<lambda>e. de_name e \<noteq> [] \<and> check_entry_ino sb (de_ino e) = Inr ()) (sf_entries d)"
proof -
  from assms obtain sf wide n c fin ts where dir: "is_dir inode"
    and cnt: "unat (sf_i8count d) = of_bool (MAX_SHORT_INUM < sf_parent_ino d) + length (filter (\<lambda>e. MAX_SHORT_INUM < de_ino e) (sf_entries d))"
    and "c \<le> length sf" "sf_loop sf sb lenient wide n c = Inr (fin, sf_entries d, ts)"
    unfolding short_form_def Let_def
    by (auto simp: rbind_eq_Inr refuse_Inr not_less simp del: rbind_if split: prod.splits)
  from dir cnt this(3,4) sf_loop_ok [OF this(3), where sb = sb and lenient = lenient and wide = wide and n = n] show "is_dir inode"
    "unat (sf_i8count d) = of_bool (MAX_SHORT_INUM < sf_parent_ino d) + length (filter (\<lambda>e. MAX_SHORT_INUM < de_ino e) (sf_entries d))"
    "list_all (\<lambda>e. de_name e \<noteq> [] \<and> check_entry_ino sb (de_ino e) = Inr ()) (sf_entries d)"
    by (simp_all add: list_all_iff)
qed

text \<open>C35. On a volume whose directory blocks have 512 bytes or more, no bytes make a directory reader panic, and what the readers accept can be relied on: the entries of a data block lie one
  behind the other inside the block, each with its name and its inode number where its offset says, and each inode number is
  one that can exist, that is not zero, at most 56 bits wide and in a group the volume has; the records of a leaf and of a node are as many as the header says and sorted by hash, with as many
  emptied records in a leaf as it says; a node gives, for any hash, the first child whose bound is not below it; a directory kept in
  its inode counts exactly its wide inode numbers.\<close>

theorem dir_readers_sound:
  assumes "512 \<le> unat (dirblocksize sb)"
  shows "(case parse_data_block buf sb of Inl e \<Rightarrow> e \<noteq> Panic | Inr es \<Rightarrow> laid_out buf sb 16 (unat (dirblocksize sb)) es) \<and>
    (case parse_block_form buf sb of Inl e \<Rightarrow> e \<noteq> Panic | Inr d \<Rightarrow> sorted (map le_hashval (bd_index d))) \<and>
    (case parse_leaf buf sb of Inl e \<Rightarrow> e \<noteq> Panic
     | Inr l \<Rightarrow> length (dl_entries l) = unat (dl_count l) \<and> sorted (map le_hashval (dl_entries l)) \<and>
         length (filter is_stale (dl_entries l)) = unat (dl_stale l)) \<and>
    (case parse_node buf sb of Inl e \<Rightarrow> e \<noteq> Panic
     | Inr n \<Rightarrow> length (dn_entries n) = unat (dn_count n) \<and> sorted (map ne_hashval (dn_entries n)) \<and> dn_level n \<noteq> 0 \<and> dn_level n \<le> 2 \<and>
         child_for_hash n hash = map_option ne_before (vec_get (dn_entries n) (length (filter (\<lambda>e. ne_hashval e < hash) (dn_entries n))))) \<and>
    (case short_form inode buf sb lenient of Inl e \<Rightarrow> e \<noteq> Panic
     | Inr (d, t) \<Rightarrow> is_dir inode \<and>
         unat (sf_i8count d) = of_bool (MAX_SHORT_INUM < sf_parent_ino d) + length (filter (\<lambda>e. MAX_SHORT_INUM < de_ino e) (sf_entries d)) \<and>
         list_all (\<lambda>e. de_name e \<noteq> [] \<and> names_inode sb (de_ino e)) (sf_entries d))"
proof (intro conjI)
  show "case parse_data_block buf sb of Inl e \<Rightarrow> e \<noteq> Panic | Inr es \<Rightarrow> laid_out buf sb 16 (unat (dirblocksize sb)) es"
    using parse_data_block_safe [of buf sb] by (auto dest: parse_data_block_Inr split: sum.split)
  show "case parse_block_form buf sb of Inl e \<Rightarrow> e \<noteq> Panic | Inr d \<Rightarrow> sorted (map le_hashval (bd_index d))"
    using parse_block_form_safe [of buf sb] by (auto dest: parse_block_form_Inr split: sum.split)
  show "case parse_leaf buf sb of Inl e \<Rightarrow> e \<noteq> Panic
     | Inr l \<Rightarrow> length (dl_entries l) = unat (dl_count l) \<and> sorted (map le_hashval (dl_entries l)) \<and>
         length (filter is_stale (dl_entries l)) = unat (dl_stale l)"
    using parse_leaf_safe [OF assms, of buf] by (auto dest: parse_leaf_Inr split: sum.split)
  show "case parse_node buf sb of Inl e \<Rightarrow> e \<noteq> Panic
     | Inr n \<Rightarrow> length (dn_entries n) = unat (dn_count n) \<and> sorted (map ne_hashval (dn_entries n)) \<and> dn_level n \<noteq> 0 \<and> dn_level n \<le> 2 \<and>
         child_for_hash n hash = map_option ne_before (vec_get (dn_entries n) (length (filter (\<lambda>e. ne_hashval e < hash) (dn_entries n))))"
    using parse_node_safe [of buf sb] by (auto simp: child_for_hash_def find_sorted dest: parse_node_Inr split: sum.split)
  show "case short_form inode buf sb lenient of Inl e \<Rightarrow> e \<noteq> Panic
     | Inr (d, t) \<Rightarrow> is_dir inode \<and>
         unat (sf_i8count d) = of_bool (MAX_SHORT_INUM < sf_parent_ino d) + length (filter (\<lambda>e. MAX_SHORT_INUM < de_ino e) (sf_entries d)) \<and>
         list_all (\<lambda>e. de_name e \<noteq> [] \<and> names_inode sb (de_ino e)) (sf_entries d)"
    using short_form_safe [of inode buf sb lenient] short_form_Inr [of inode buf sb lenient] by (auto simp: check_entry_ino_Inr split: sum.split)
qed


definition sample_dir_block :: bytes where
  "sample_dir_block =
     [0x58, 0x44, 0x32, 0x44] @ replicate 12 0 @
     be_bytes64 131 @ [1, 0x61] @ replicate 4 0 @ [0, 16] @
     [0xff, 0xff, 0x01, 0xe0] @ replicate 474 0 @ [0, 32]"

lemma dir_readers_sound_witness:
  "\<exists>es. parse_data_block sample_dir_block (sample_sb\<lparr>sb_blocksize := 512\<rparr>) = Inr es \<and> map de_name es = [[0x61]] \<and>
     laid_out sample_dir_block (sample_sb\<lparr>sb_blocksize := 512\<rparr>) 16 512 es"
proof -
  let ?sb = "sample_sb\<lparr>sb_blocksize := 512\<rparr>"
  have "case parse_data_block sample_dir_block ?sb of Inl e \<Rightarrow> False | Inr es \<Rightarrow> map de_name es = [[0x61]]" by code_simp
  moreover have d: "unat (dirblocksize ?sb) = 512" by code_simp
  then have "512 \<le> unat (dirblocksize ?sb)" by simp
  note dir_readers_sound [OF this, where buf = sample_dir_block, THEN conjunct1, unfolded d]
  ultimately show ?thesis by (auto split: sum.splits)
qed

end
