(* ===== verification/DirBuild.thy ===== *)
theory DirBuild
  imports DirRead
begin

unbundle bit_operations_syntax

text \<open>
  Directories of one block as the driver writes them (\<^verbatim>\<open>src/src/dir_block.rs\<close>), with the hash of a name
  (\<^verbatim>\<open>src/src/format/attr.rs\<close>).

  The block starts as zeros; the entries are placed one after the other from the header on (\<open>place_entries\<close> is the loop, which
  also collects the index), the sorted index is written in front of the tail, and the gap becomes one free record.  The
  sort of the code is stable, as is \<open>sort_key\<close>.  What is shown is that the block, once recovery has put the checksum in,
  passes the verification of the reader and is read back as the entries it was made of, with a complete index.
\<close>

section \<open>The hash of a name\<close>

definition rol32 :: "u32 \<Rightarrow> nat \<Rightarrow> u32" where
  "rol32 x n = push_bit n x OR drop_bit (32 - n) x"

fun hash_loop :: "u32 \<Rightarrow> bytes \<Rightarrow> u32" where
  "hash_loop hash (a # b # c # d # rest) =
     hash_loop (push_bit 21 (ucast a) XOR push_bit 14 (ucast b) XOR push_bit 7 (ucast c) XOR ucast d XOR rol32 hash (7 * 4)) rest"
| "hash_loop hash [a, b, c] = push_bit 14 (ucast a) XOR push_bit 7 (ucast b) XOR ucast c XOR rol32 hash (7 * 3)"
| "hash_loop hash [a, b] = push_bit 7 (ucast a) XOR ucast b XOR rol32 hash (7 * 2)"
| "hash_loop hash [a] = ucast a XOR rol32 hash 7"
| "hash_loop hash [] = hash"

definition hashname :: "bytes \<Rightarrow> u32" where
  "hashname name = hash_loop 0 name"

definition to_ascii_lowercase :: "u8 \<Rightarrow> u8" where
  "to_ascii_lowercase b = (if 0x41 \<le> b \<and> b \<le> 0x5a then b + 32 else b)"

definition hash_folded :: "bool \<Rightarrow> bytes \<Rightarrow> u32" where
  "hash_folded case_insensitive name =
     (if case_insensitive then hashname (map to_ascii_lowercase name) else hashname name)"

definition hash_for :: "Superblock \<Rightarrow> bytes \<Rightarrow> u32" where
  "hash_for sb name = hash_folded (has_case_insensitive_dirs sb) name"

section \<open>The block\<close>

record Entry =
  en_name :: bytes
  en_ino :: u64
  en_ftype :: u8

definition entry_size :: "nat \<Rightarrow> nat" where
  "entry_size namelen =
     (let unrounded = 8 + 1 + namelen + 1 + 2 in div_ceil unrounded XFS_DIR2_DATA_ALIGN * XFS_DIR2_DATA_ALIGN)"

definition space_needed :: "Entry list \<Rightarrow> nat" where
  "space_needed entries =
     XFS_DIR3_DATA_HDR_SIZE + sum_list (map (\<lambda>e. entry_size (length (en_name e))) entries)
       + length entries * XFS_DIR2_LEAF_ENTRY_SIZE + XFS_DIR2_BLOCK_TAIL_SIZE"

definition blkno_of_fsbno :: "Superblock \<Rightarrow> u64 \<Rightarrow> u64" where
  "blkno_of_fsbno sb fsbno = fsblock_offset sb fsbno div of_nat BBSIZE"

definition place_entry :: "bytes \<Rightarrow> nat \<Rightarrow> Entry \<Rightarrow> bytes res" where
  "place_entry block at e =
     (let namelen = length (en_name e); len = entry_size namelen
      in rbind (put block at (be_bytes64 (en_ino e))) (\<lambda>block.
         if 255 < namelen then Inl (UnsupportedFeature ''a name is too long'')
         else
           rbind (put block (at + 8) [of_nat namelen]) (\<lambda>block.
           rbind (put block (at + 9) (en_name e)) (\<lambda>block.
           rbind (put block (at + 9 + namelen) [en_ftype e]) (\<lambda>block.
           if 65535 < at then Inl Panic else put block (at + len - 2) (be_bytes16 (of_nat at)))))))"

fun place_entries :: "Superblock \<Rightarrow> Entry list \<Rightarrow> nat \<Rightarrow> bytes \<Rightarrow> (bytes \<times> nat \<times> (u32 \<times> u32) list) res" where
  "place_entries sb [] at block = Inr (block, at, [])"
| "place_entries sb (e # es) at block =
     rbind (place_entry block at e) (\<lambda>block.
     rbind (place_entries sb es (at + entry_size (length (en_name e))) block) (\<lambda>(block, fin, index).
       Inr (block, fin, (hash_for sb (en_name e), of_nat (at div XFS_DIR2_DATA_ALIGN)) # index)))"

definition write_leaf :: "bytes \<Rightarrow> nat \<Rightarrow> u32 \<times> u32 \<Rightarrow> bytes res" where
  "write_leaf block at r =
     rbind (put block at (be_bytes32 (fst r))) (\<lambda>block. put block (at + 4) (be_bytes32 (snd r)))"

definition dir_header :: "Superblock \<Rightarrow> u64 \<Rightarrow> u64 \<Rightarrow> bytes \<Rightarrow> bytes res" where
  "dir_header sb fsblock owner block =
     rbind (put block 0 (be_bytes32 XFS_DIR3_BLOCK_MAGIC)) (\<lambda>block.
     rbind (put block 8 (be_bytes64 (blkno_of_fsbno sb fsblock))) (\<lambda>block.
     rbind (put block 24 (sb_meta_uuid sb)) (\<lambda>block.
       put block 40 (be_bytes64 owner))))"

definition free_gap :: "nat \<Rightarrow> nat \<Rightarrow> bytes \<Rightarrow> bytes res" where
  "free_gap entries_end free_len block =
     (if free_len = 0 then Inr block
      else
        rbind (put block entries_end (be_bytes16 XFS_DIR2_DATA_FREE_TAG)) (\<lambda>block.
        if 65535 < free_len then Inl Panic
        else
          rbind (put block (entries_end + 2) (be_bytes16 (of_nat free_len))) (\<lambda>block.
          if 65535 < entries_end then Inl Panic
          else
            rbind (put block (entries_end + (free_len - 2)) (be_bytes16 (of_nat entries_end))) (\<lambda>block.
            rbind (put block 48 (be_bytes16 (of_nat entries_end))) (\<lambda>block.
              put block 50 (be_bytes16 (of_nat free_len)))))))"

definition dir_build :: "Superblock \<Rightarrow> u64 \<Rightarrow> u64 \<Rightarrow> Entry list \<Rightarrow> bytes res" where
  "dir_build sb fsblock owner entries =
     (let dirblocksize = unat (shl64 (ucast (sb_blocksize sb)) (unat (sb_dirblklog sb)));
          needed = space_needed entries
      in if dirblocksize < needed then Inl (UnsupportedFeature ''a directory past one block is the leaf form, which is not implemented'')
         else
           rbind (dir_header sb fsblock owner (replicate dirblocksize 0)) (\<lambda>block.
           rbind (place_entries sb entries XFS_DIR3_DATA_HDR_SIZE block) (\<lambda>(block, entries_end, index).
           let tail_at = dirblocksize - XFS_DIR2_BLOCK_TAIL_SIZE;
               index_start = tail_at - length entries * XFS_DIR2_LEAF_ENTRY_SIZE;
               sorted_index = sort_key fst index
           in rbind (write_records write_leaf XFS_DIR2_LEAF_ENTRY_SIZE index_start sorted_index block) (\<lambda>block.
              rbind (free_gap entries_end (index_start - entries_end) block) (\<lambda>block.
              rbind (put block tail_at (be_bytes32 (of_nat (length entries)))) (\<lambda>block.
                put block (tail_at + 4) (be_bytes32 0)))))))"

definition entries_from_short_form :: "ShortFormDir \<Rightarrow> u64 \<Rightarrow> Entry option \<Rightarrow> Entry list" where
  "entries_from_short_form parsed self_ino new =
     \<lparr>en_name = [0x2e], en_ino = self_ino, en_ftype = ftype_to_raw (Some Directory)\<rparr> #
     \<lparr>en_name = [0x2e, 0x2e], en_ino = sf_parent_ino parsed, en_ftype = ftype_to_raw (Some Directory)\<rparr> #
     map (\<lambda>e. \<lparr>en_name = de_name e, en_ino = de_ino e, en_ftype = ftype_to_raw (de_ftype e)\<rparr>) (sf_entries parsed) @
     (case new of None \<Rightarrow> [] | Some e \<Rightarrow> [e])"

section \<open>Sizes\<close>

lemma dir_block_bytes:
  assumes "geometry_ok sb"
  shows "unat (shl64 (ucast (sb_blocksize sb)) (unat (sb_dirblklog sb))) = unat (dirblocksize sb)"
    "512 \<le> unat (dirblocksize sb)" "unat (dirblocksize sb) \<le> 65536" "unat (dirblocksize sb) mod 8 = 0"
proof -
  let ?d = "unat (sb_dirblklog sb)" and ?bs = "unat (sb_blocksize sb)"
  from assms have bs: "?bs = 2 ^ unat (sb_blocklog sb)" "9 \<le> unat (sb_blocklog sb)" and lim: "?bs * 2 ^ ?d \<le> 65536"
    using pow2_bound [of 9 "unat (sb_blocklog sb)"] by (auto simp: geometry_ok_def sizes_ok_def)
  have "(2 :: nat) ^ ?d \<le> 65536" using lim bs(1) by (metis mult_le_mono1 nat_mult_1 one_le_numeral one_le_power order_trans)
  then have d: "?d \<le> 16" using pow2_bound [of ?d 16] by simp
  then have "?d mod 32 = ?d" "?d mod 64 = ?d" by simp_all
  then have u: "unat (dirblocksize sb) = ?bs * 2 ^ ?d" "unat (shl64 (ucast (sb_blocksize sb)) ?d) = ?bs * 2 ^ ?d"
    using lim by (simp_all add: dirblocksize_def shl32_def shl64_def unat_push_bit)
  obtain k where k: "unat (sb_blocklog sb) = 9 + k" using bs(2) le_Suc_ex by blast
  have "?bs * 2 ^ ?d = 512 * (2 ^ k * 2 ^ ?d)" by (simp add: bs(1) k power_add)
  moreover have "(1 :: nat) \<le> 2 ^ k * 2 ^ ?d" by (simp add: Suc_leI)
  ultimately show "unat (shl64 (ucast (sb_blocksize sb)) ?d) = unat (dirblocksize sb)" "512 \<le> unat (dirblocksize sb)"
    "unat (dirblocksize sb) \<le> 65536" "unat (dirblocksize sb) mod 8 = 0"
    using u lim by simp_all
qed

lemma entry_size_bounds: "12 + n \<le> entry_size n" "entry_size n mod 8 = 0"
  using ceil_mult(1) [of 8 "12 + n"] by (simp_all add: entry_size_def dir_sizes Let_def)

lemma data_entry_size_eq: "n \<le> 255 \<Longrightarrow> data_entry_size (of_nat n) True = entry_size n"
proof -
  have "div_ceil a 8 = (a + 7) div 8" for a :: nat
    by (simp add: div_ceil_def) presburger
  moreover assume "n \<le> 255"
  then have "unat (of_nat n :: u8) = n" by (simp add: unat_of_nat)
  ultimately show ?thesis by (simp add: data_entry_size_def align_up_def entry_size_def dir_sizes Let_def)
qed

section \<open>An entry in its place\<close>

definition agree :: "bytes \<Rightarrow> bytes \<Rightarrow> nat \<Rightarrow> nat \<Rightarrow> bool" where
  "agree b b' lo hi \<longleftrightarrow> length b = length b' \<and> (\<forall>i. lo \<le> i \<and> i < hi \<and> i < length b \<longrightarrow> b ! i = b' ! i)"

lemma agree_sub: "agree b b' lo hi \<Longrightarrow> lo \<le> lo' \<Longrightarrow> hi' \<le> hi \<Longrightarrow> agree b b' lo' hi'"
  by (auto simp: agree_def)

lemma agree_trans: "agree a b lo hi \<Longrightarrow> agree b c lo hi \<Longrightarrow> agree a c lo hi"
  by (auto simp: agree_def)

lemma agree_take_drop: "agree b b' lo hi \<Longrightarrow> lo \<le> off \<Longrightarrow> off + n \<le> hi \<Longrightarrow> take n (drop off b) = take n (drop off b')"
  by (intro take_drop_cong) (auto simp: agree_def)

lemma agree_blit: "off + length s \<le> length b \<Longrightarrow> hi \<le> off \<or> off + length s \<le> lo \<Longrightarrow> agree b (blit b off s) lo hi"
  by (auto simp: agree_def nth_blit)

definition holds_entry :: "bytes \<Rightarrow> nat \<Rightarrow> Entry \<Rightarrow> bool" where
  "holds_entry b at e \<longleftrightarrow>
     (let n = length (en_name e); len = entry_size n
      in at + len \<le> length b \<and> take 8 (drop at b) = be_bytes64 (en_ino e) \<and> b ! (at + 8) = of_nat n \<and>
         take n (drop (at + 9) b) = en_name e \<and> b ! (at + 9 + n) = en_ftype e \<and> take 2 (drop (at + len - 2) b) = be_bytes16 (of_nat at))"

lemma holds_entry_agree:
  assumes "holds_entry b at e" and "agree b b' at (at + entry_size (length (en_name e)))"
  shows "holds_entry b' at e"
proof -
  note a = agree_take_drop [OF assms(2)]
  let ?n = "length (en_name e)"
  have bounds: "12 + ?n \<le> entry_size ?n" by (rule entry_size_bounds)
  have "length b = length b'" "\<And>i. at \<le> i \<Longrightarrow> i < at + entry_size ?n \<Longrightarrow> i < length b \<Longrightarrow> b ! i = b' ! i"
    using assms(2) by (auto simp: agree_def)
  moreover have "take 8 (drop at b) = take 8 (drop at b')" "take ?n (drop (at + 9) b) = take ?n (drop (at + 9) b')"
    "take 2 (drop (at + entry_size ?n - 2) b) = take 2 (drop (at + entry_size ?n - 2) b')"
    using bounds by (auto intro!: a)
  ultimately show ?thesis using assms(1) bounds by (simp add: holds_entry_def Let_def)
qed

lemma place_entry_spec:
  assumes "at + entry_size (length (en_name e)) \<le> length b" and "length (en_name e) \<le> 255" and "at \<le> 65535"
  shows "\<exists>b'. place_entry b at e = Inr b' \<and> holds_entry b' at e \<and> agree b b' 0 at \<and> agree b b' (at + entry_size (length (en_name e))) (length b)"
proof -
  let ?n = "length (en_name e)" and ?len = "entry_size (length (en_name e))"
  have bounds: "12 + ?n \<le> ?len" by (rule entry_size_bounds)
  then obtain k where k: "?len = 12 + ?n + k" using le_Suc_ex by blast
  let ?b1 = "blit b at (be_bytes64 (en_ino e))"
  let ?b2 = "blit ?b1 (at + 8) [of_nat ?n]"
  let ?b3 = "blit ?b2 (at + 9) (en_name e)"
  let ?b4 = "blit ?b3 (at + 9 + ?n) [en_ftype e]"
  let ?b5 = "blit ?b4 (at + ?len - 2) (be_bytes16 (of_nat at))"
  have l: "length ?b1 = length b" "length ?b2 = length b" "length ?b3 = length b" "length ?b4 = length b" "length ?b5 = length b"
    using assms bounds by simp_all
  have "place_entry b at e = Inr ?b5" using assms bounds l by (simp add: place_entry_def Let_def put_ok)
  moreover have "holds_entry ?b5 at e"
    using assms l by (simp add: k holds_entry_def Let_def take_drop_blit_same take_drop_blit_other nth_blit)
  moreover have "agree b ?b5 0 at" "agree b ?b5 (at + ?len) (length b)"
    using assms bounds l by (auto simp: agree_def nth_blit)
  ultimately show ?thesis by blast
qed

text \<open>Entries one behind the other, and the index that goes with them.\<close>

definition entries_len :: "Entry list \<Rightarrow> nat" where
  "entries_len es = sum_list (map (\<lambda>e. entry_size (length (en_name e))) es)"

lemma entries_len_simps [simp]:
  "entries_len [] = 0"
  "entries_len (e # es) = entry_size (length (en_name e)) + entries_len es"
  by (simp_all add: entries_len_def)

lemma entries_len_mod: "entries_len es mod 8 = 0"
  by (induction es) (simp_all add: entry_size_bounds(2) mod_add_eq [symmetric, of "entry_size _"])

fun placed :: "bytes \<Rightarrow> nat \<Rightarrow> Entry list \<Rightarrow> bool" where
  "placed b at [] = True"
| "placed b at (e # es) = (holds_entry b at e \<and> placed b (at + entry_size (length (en_name e))) es)"

fun index_of :: "Superblock \<Rightarrow> nat \<Rightarrow> Entry list \<Rightarrow> (u32 \<times> u32) list" where
  "index_of sb at [] = []"
| "index_of sb at (e # es) = (hash_for sb (en_name e), of_nat (at div 8)) # index_of sb (at + entry_size (length (en_name e))) es"

lemma length_index_of [simp]: "length (index_of sb at es) = length es"
  by (induction es arbitrary: at) simp_all

lemma placed_agree: "placed b at es \<Longrightarrow> agree b b' at (at + entries_len es) \<Longrightarrow> placed b' at es"
proof (induction es arbitrary: at)
  case (Cons e es)
  let ?len = "entry_size (length (en_name e))"
  have "agree b b' at (at + ?len)" "agree b b' (at + ?len) (at + ?len + entries_len es)"
    by (rule agree_sub [OF Cons.prems(2)]; simp)+
  with Cons show ?case by (auto intro: holds_entry_agree)
qed simp

lemma place_entries_spec:
  assumes "at + entries_len es \<le> length b" and "at + entries_len es \<le> 65536" and "list_all (\<lambda>e. length (en_name e) \<le> 255) es"
  shows "\<exists>b'. place_entries sb es at b = Inr (b', at + entries_len es, index_of sb at es) \<and> placed b' at es \<and>
    agree b b' 0 at \<and> agree b b' (at + entries_len es) (length b)"
  using assms
proof (induction es arbitrary: at b)
  case (Cons e es)
  let ?len = "entry_size (length (en_name e))"
  have "at \<le> 65535" using Cons.prems(2) entry_size_bounds(1) [of "length (en_name e)"] by simp
  then obtain b1 where b1: "place_entry b at e = Inr b1" "holds_entry b1 at e" "agree b b1 0 at" "agree b b1 (at + ?len) (length b)"
    using place_entry_spec [of at e b] Cons.prems by auto
  then have l: "length b1 = length b" by (simp add: agree_def)
  from Cons.IH [of "at + ?len" b1] Cons.prems l obtain b2 where b2: "place_entries sb es (at + ?len) b1 = Inr (b2, at + ?len + entries_len es, index_of sb (at + ?len) es)"
    "placed b2 (at + ?len) es" "agree b1 b2 0 (at + ?len)" "agree b1 b2 (at + ?len + entries_len es) (length b1)"
    by (auto simp: add.assoc)
  have "holds_entry b2 at e" by (rule holds_entry_agree [OF b1(2)]) (rule agree_sub [OF b2(3)], simp_all)
  moreover have "agree b b2 0 at" by (rule agree_trans [OF b1(3)]) (rule agree_sub [OF b2(3)], simp_all)
  moreover have "agree b b2 (at + entries_len (e # es)) (length b)"
    by (rule agree_trans [where b = b1]) (rule agree_sub [OF b1(4)], simp_all, rule agree_sub [OF b2(4)], simp_all add: l)
  ultimately show ?case using b1(1) b2(1,2) by (simp add: dir_sizes add.assoc)
qed (simp add: agree_def)

section \<open>Read back\<close>

text \<open>What an entry is read as.\<close>

fun read_as :: "nat \<Rightarrow> Entry list \<Rightarrow> DirEntry list" where
  "read_as at [] = []"
| "read_as at (e # es) =
     \<lparr>de_name = en_name e, de_ino = en_ino e, de_ftype = (case ftype_from_raw (en_ftype e) of Inl _ \<Rightarrow> None | Inr t \<Rightarrow> t), de_offset = of_nat at\<rparr> #
     read_as (at + entry_size (length (en_name e))) es"

definition entry_ok :: "Superblock \<Rightarrow> Entry \<Rightarrow> bool" where
  "entry_ok sb e \<longleftrightarrow> en_name e \<noteq> [] \<and> length (en_name e) \<le> 255 \<and> check_entry_ino sb (en_ino e) = Inr () \<and> en_ftype e \<le> 8"

lemma ftype_defined: "en_ftype e \<le> 8 \<Longrightarrow> \<exists>t. ftype_from_raw (en_ftype e) = Inr t"
  by (auto simp: ftype_from_raw_def word_le_nat_alt word_eq_unat)

text \<open>The top of an inode number is not the tag of a free record.\<close>

lemma not_free_tag:
  assumes "ino \<le> MAX_INUMBER" and "take 8 (drop at b) = be_bytes64 ino"
  shows "(from_be (take 2 (drop at b)) :: u16) \<noteq> XFS_DIR2_DATA_FREE_TAG"
proof
  assume tag: "(from_be (take 2 (drop at b)) :: u16) = XFS_DIR2_DATA_FREE_TAG"
  have "unat ino < 2 ^ 56" using assms(1) by (simp add: MAX_INUMBER_def word_le_nat_alt)
  then have "\<not> bit ino (56 + n)" for n using not_high_bit [of ino 56 "56 + n"] by auto
  then have z: "drop_bit 56 ino = 0" by (intro bit_word_eqI) (simp add: bit_simps)
  have hd8: "be_bytes64 ino ! 0 = ucast (drop_bit 56 ino)" by (simp add: be_bytes64_def numeral_eq_Suc)
  let ?p = "take 2 (drop at b)"
  have p: "?p = take 2 (be_bytes64 ino)" unfolding assms(2) [symmetric] by simp
  then have l: "length ?p = 2" by simp
  have "?p = to_be 2 (from_be ?p :: u16)" using to_be_from_be [of ?p, where 'a = 16] l by simp
  also have "\<dots> = [0xff, 0xff]" unfolding tag by code_simp
  finally have "?p ! 0 = 0xff" by simp
  then show False using p hd8 z by simp
qed

lemma data_record_placed:
  assumes "holds_entry b at e" and "entry_ok sb e" and "has_ftype sb" and "at + entry_size (length (en_name e)) \<le> fin" and "at < 65536" and "fin \<le> length b"
  shows "data_record b sb at fin = Inr (entry_size (length (en_name e)),
    Some \<lparr>de_name = en_name e, de_ino = en_ino e, de_ftype = (case ftype_from_raw (en_ftype e) of Inl _ \<Rightarrow> None | Inr t \<Rightarrow> t), de_offset = of_nat at\<rparr>)"
proof -
  let ?n = "length (en_name e)" and ?len = "entry_size (length (en_name e))"
  have ok: "0 < ?n" "?n \<le> 255" "check_entry_ino sb (en_ino e) = Inr ()" "en_ftype e \<le> 8" using assms(2) by (auto simp: entry_ok_def)
  have un: "unat (of_nat ?n :: u8) = ?n" using ok(2) by (simp add: unat_of_nat)
  then have nz: "(of_nat ?n :: u8) \<noteq> 0" using ok(1) by (metis unat_0 less_irrefl)
  have ds: "data_entry_size (of_nat ?n) True = ?len" by (rule data_entry_size_eq [OF ok(2)])
  have le: "12 + ?n \<le> ?len" "?len mod 8 = 0" by (rule entry_size_bounds)+
  then have big: "16 \<le> ?len" using ok(1) by presburger
  have tag: "unat (of_nat at :: u16) = at" using assms(5) by (simp add: unat_of_nat)
  have h: "be64 b at = Inr (en_ino e)" "byte_at b (at + 8) = Inr (of_nat ?n)" "slice b (at + 9) ?n = Inr (en_name e)"
    "byte_at b (at + 9 + ?n) = Inr (en_ftype e)" "be16 b (at + ?len - 2) = Inr (of_nat at)"
    using assms(1) le by (auto simp: holds_entry_def Let_def read_Inr_iff read_ok slice_def)
  obtain t where t: "ftype_from_raw (en_ftype e) = Inr t" using ftype_defined [OF ok(4)] by blast
  have "used_record b sb at fin = Inr (?len, \<lparr>de_name = en_name e, de_ino = en_ino e, de_ftype = t, de_offset = of_nat at\<rparr>)"
    using assms(3,4) big nz h ok(3) t ds by (simp add: used_record_def dir_sizes Let_def dir_has_ftype_def tag un)
  moreover have "en_ino e \<le> MAX_INUMBER" using ok(3) by (auto simp: check_entry_ino_def split: if_splits)
  then have "be16 b at = Inr x \<Longrightarrow> x \<noteq> XFS_DIR2_DATA_FREE_TAG" for x
    using not_free_tag [of "en_ino e" at b] assms(1) by (auto simp: holds_entry_def Let_def read_Inr_iff)
  moreover have "be16 b at = Inr (from_be (take 2 (drop at b)))" using assms(4,6) big by (simp add: read_ok)
  ultimately show ?thesis using assms(4) big t by (simp add: data_record_def dir_sizes)
qed

definition holds_gap :: "bytes \<Rightarrow> nat \<Rightarrow> nat \<Rightarrow> bool" where
  "holds_gap b at len \<longleftrightarrow> len = 0 \<or>
     take 2 (drop at b) = be_bytes16 XFS_DIR2_DATA_FREE_TAG \<and> take 2 (drop (at + 2) b) = be_bytes16 (of_nat len) \<and>
     take 2 (drop (at + (len - 2)) b) = be_bytes16 (of_nat at)"

lemma parse_gap:
  assumes "holds_gap b at len" and "len mod 8 = 0" and "len < 65536" and "at < 65536" and "at + len \<le> length b"
  shows "parse_entries b sb at (at + len) = Inr []"
proof (cases "len = 0")
  case False
  with assms(2) have big: "8 \<le> len" by (metis dvd_imp_le mod_0_imp_dvd neq0_conv)
  have u: "unat (of_nat len :: u16) = len" "unat (of_nat at :: u16) = at" using assms by (simp_all add: unat_of_nat)
  have "be16 b at = Inr XFS_DIR2_DATA_FREE_TAG" "be16 b (at + 2) = Inr (of_nat len)" "be16 b (at + len - 2) = Inr (of_nat at)"
    using assms(1,5) big False by (simp_all add: holds_gap_def read_ok)
  then have "data_record b sb at (at + len) = Inr (len, None)"
    using big assms(2) u by (simp add: data_record_def free_record_def dir_sizes)
  then show ?thesis using False by (subst parse_entries.simps) (simp add: parse_entries.simps)
qed (simp add: parse_entries.simps)

lemma parse_placed:
  assumes "placed b at es" and "list_all (entry_ok sb) es" and "has_ftype sb" and "fin = at + entries_len es + len" and "holds_gap b (at + entries_len es) len"
    and "len mod 8 = 0" and "len < 65536" and "at + entries_len es < 65536" and "fin \<le> length b"
  shows "parse_entries b sb at fin = Inr (read_as at es)"
  using assms
proof (induction es arbitrary: at)
  case Nil
  then show ?case by (simp add: parse_gap)
next
  case (Cons e es)
  let ?len = "entry_size (length (en_name e))"
  have "data_record b sb at fin = Inr (?len,
      Some \<lparr>de_name = en_name e, de_ino = en_ino e, de_ftype = (case ftype_from_raw (en_ftype e) of Inl _ \<Rightarrow> None | Inr t \<Rightarrow> t), de_offset = of_nat at\<rparr>)"
    by (rule data_record_placed) (use Cons.prems in auto)
  moreover have "parse_entries b sb (at + ?len) fin = Inr (read_as (at + ?len) es)"
    by (rule Cons.IH) (use Cons.prems in \<open>auto simp: add.assoc\<close>)
  moreover have "at < fin" using Cons.prems(4) entry_size_bounds(1) [of "length (en_name e)"] by simp
  ultimately show ?case by (subst parse_entries.simps) simp
qed

section \<open>The index\<close>

definition read_leaf :: "bytes \<Rightarrow> nat \<Rightarrow> (u32 \<times> u32) res" where
  "read_leaf b at = rbind (be32 b at) (\<lambda>h. rbind (be32 b (at + 4)) (\<lambda>a. Inr (h, a)))"

definition leaf_entry :: "u32 \<times> u32 \<Rightarrow> LeafEntry" where
  "leaf_entry r = \<lparr>le_hashval = fst r, le_address = snd r\<rparr>"

interpretation leaf_records: record_codec 8 write_leaf read_leaf "\<lambda>_. True" "\<lambda>r. be_bytes32 (fst r) @ be_bytes32 (snd r)"
proof (unfold_locales, goal_cases)
  case (1 at b r)
  then show ?case using blit_blit_adjacent [of at "be_bytes32 (fst r)" "be_bytes32 (snd r)" b] by (simp add: write_leaf_def put_ok)
next
  case (3 r at b)
  then have "take 4 (drop at b) = be_bytes32 (fst r)" "take 4 (drop (at + 4) b) = be_bytes32 (snd r)"
    using field_at [of 8 at b _ 0 4] field_at [of 8 at b _ 4 4] by simp_all
  with 3 show ?case by (simp add: read_leaf_def read_ok)
qed (auto simp: read_leaf_def read_panics_iff)

lemma read_leaf_Inr: "read_leaf b at = Inr (h, a) \<longleftrightarrow> be32 b at = Inr h \<and> be32 b (at + 4) = Inr a"
  by (auto simp: read_leaf_def rbind_eq_Inr)

lemma leaf_loop_read:
  "read_records read_leaf 8 off n b = Inr rs \<Longrightarrow> sorted (prev # map fst rs) \<Longrightarrow> leaf_loop b off n prev = Inr (map leaf_entry rs)"
proof (induction n arbitrary: off prev rs)
  case (Suc n)
  then obtain h a rest where r: "rs = (h, a) # rest" "be32 b off = Inr h" "be32 b (off + 4) = Inr a" "read_records read_leaf 8 (off + 8) n b = Inr rest"
    by (auto simp: rbind_eq_Inr read_leaf_Inr)
  with Suc.prems(2) have "prev \<le> h" "sorted (h # map fst rest)" by simp_all
  with Suc.IH [OF r(4)] r show ?case by (simp add: dir_sizes leaf_entry_def leD)
qed simp

lemma be32_agree: "agree b b' lo hi \<Longrightarrow> lo \<le> off \<Longrightarrow> off + 4 \<le> hi \<Longrightarrow> be32 b off = be32 b' off"
  using agree_take_drop [of b b' lo hi off 4] by (simp add: be32_def slice_def agree_def)

lemma leaf_loop_agree:
  "agree b b' off (off + 8 * n) \<Longrightarrow> leaf_loop b off n prev = leaf_loop b' off n prev"
proof (induction n arbitrary: off prev)
  case (Suc n)
  have "be32 b off = be32 b' off" "be32 b (off + 4) = be32 b' (off + 4)"
    by (rule be32_agree [OF Suc.prems]; simp)+
  moreover have "leaf_loop b (off + 8) n p = leaf_loop b' (off + 8) n p" for p
    by (rule Suc.IH) (rule agree_sub [OF Suc.prems], simp_all)
  ultimately show ?case by (simp add: dir_sizes cong: if_cong)
qed simp

text \<open>The records of an index: sorted by hash, and none of them empty.\<close>

lemma index_addresses: "8 \<le> at \<Longrightarrow> at + entries_len es \<le> 65536 \<Longrightarrow> \<forall>r \<in> set (index_of sb at es). snd r \<noteq> 0"
proof (induction es arbitrary: at)
  case (Cons e es)
  have "at \<le> 65536" using Cons.prems(2) by simp
  then have "at div 8 \<le> 8192" by presburger
  moreover have "0 < at div 8" using Cons.prems(1) by (simp add: div_greater_zero_iff)
  ultimately have "(of_nat (at div 8) :: u32) \<noteq> 0" by (simp add: word_eq_unat unat_of_nat)
  then show ?case using Cons.IH [of "at + entry_size (length (en_name e))"] Cons.prems by (auto simp: add.assoc)
qed simp

section \<open>The whole block\<close>

lemma be64_agree: "agree b b' lo hi \<Longrightarrow> lo \<le> off \<Longrightarrow> off + 8 \<le> hi \<Longrightarrow> be64 b off = be64 b' off"
  using agree_take_drop [of b b' lo hi off 8] by (simp add: be64_def slice_def agree_def)

lemma uuid_agree: "agree b b' lo hi \<Longrightarrow> lo \<le> off \<Longrightarrow> off + 16 \<le> hi \<Longrightarrow> uuid_at b off = uuid_at b' off"
  using agree_take_drop [of b b' lo hi off 16] by (simp add: uuid_at_def slice_def agree_def)

lemma holds_gap_agree:
  assumes "holds_gap b at len" and "agree b b' at (at + len)" and "len = 0 \<or> 8 \<le> len"
  shows "holds_gap b' at len"
proof (cases "len = 0")
  case False
  note a = agree_take_drop [OF assms(2)]
  have "take 2 (drop at b) = take 2 (drop at b')" "take 2 (drop (at + 2) b) = take 2 (drop (at + 2) b')"
    "take 2 (drop (at + (len - 2)) b) = take 2 (drop (at + (len - 2)) b')"
    by (rule a; use assms(3) False in simp)+
  with assms(1) show ?thesis by (simp add: holds_gap_def)
qed (simp add: holds_gap_def)

lemma dir_header_spec:
  assumes "64 \<le> length b" and "length (sb_meta_uuid sb) = 16"
  shows "\<exists>b'. dir_header sb fsblock owner b = Inr b' \<and> length b' = length b \<and> be32 b' 0 = Inr XFS_DIR3_BLOCK_MAGIC \<and>
    be64 b' 8 = Inr (blkno_of_fsbno sb fsblock) \<and> uuid_at b' 24 = Inr (sb_meta_uuid sb) \<and> be64 b' 40 = Inr owner"
  using assms by (simp add: dir_header_def put_ok read_ok take_drop_blit_same take_drop_blit_other take_blit take_blit_front)

lemma free_gap_spec:
  assumes "52 \<le> at" and "at + len \<le> length b" and "len = 0 \<or> 8 \<le> len" and "at < 65536" and "len < 65536"
  shows "\<exists>b'. free_gap at len b = Inr b' \<and> holds_gap b' at len \<and> agree b b' 0 48 \<and> agree b b' 52 at \<and> agree b b' (at + len) (length b)"
proof (cases "len = 0")
  case False
  let ?b1 = "blit b at (be_bytes16 XFS_DIR2_DATA_FREE_TAG)"
  let ?b2 = "blit ?b1 (at + 2) (be_bytes16 (of_nat len))"
  let ?b3 = "blit ?b2 (at + (len - 2)) (be_bytes16 (of_nat at))"
  let ?b4 = "blit ?b3 48 (be_bytes16 (of_nat at))"
  let ?b5 = "blit ?b4 50 (be_bytes16 (of_nat len))"
  from assms(3) False obtain k where k: "len = 8 + k" using le_Suc_ex by blast
  have l: "length ?b1 = length b" "length ?b2 = length b" "length ?b3 = length b" "length ?b4 = length b" "length ?b5 = length b"
    using assms k by simp_all
  have "free_gap at len b = Inr ?b5" using assms k l by (simp add: free_gap_def put_ok)
  moreover have "holds_gap ?b5 at len"
    using assms k l by (simp add: holds_gap_def take_drop_blit_same take_drop_blit_other)
  moreover have "agree b ?b5 0 48" "agree b ?b5 52 at" "agree b ?b5 (at + len) (length b)"
    using assms k l by (auto simp: agree_def nth_blit)
  ultimately show ?thesis by blast
qed (simp add: free_gap_def holds_gap_def agree_def)

definition index_at :: "Superblock \<Rightarrow> Entry list \<Rightarrow> nat" where
  "index_at sb es = unat (dirblocksize sb) - 8 - length es * 8"

definition dir_block_of :: "Superblock \<Rightarrow> u64 \<Rightarrow> u64 \<Rightarrow> Entry list \<Rightarrow> bytes \<Rightarrow> bool" where
  "dir_block_of sb fsblock owner es b \<longleftrightarrow>
     length b = unat (dirblocksize sb) \<and> be32 b 0 = Inr XFS_DIR3_BLOCK_MAGIC \<and> be64 b 8 = Inr (blkno_of_fsbno sb fsblock) \<and>
     uuid_at b 24 = Inr (sb_meta_uuid sb) \<and> be64 b 40 = Inr owner \<and> placed b 64 es \<and>
     holds_gap b (64 + entries_len es) (index_at sb es - (64 + entries_len es)) \<and>
     leaf_loop b (index_at sb es) (length es) 0 = Inr (map leaf_entry (sort_key fst (index_of sb 64 es))) \<and>
     be32 b (unat (dirblocksize sb) - 8) = Inr (of_nat (length es)) \<and> be32 b (unat (dirblocksize sb) - 4) = Inr 0"

text \<open>Where the parts of the block lie.\<close>

lemma dir_block_layout:
  assumes "geometry_ok sb" and "space_needed es \<le> unat (dirblocksize sb)"
  shows "64 + entries_len es \<le> index_at sb es" "index_at sb es + 8 * length es = unat (dirblocksize sb) - 8"
    "index_at sb es < 65536" "(index_at sb es - (64 + entries_len es)) mod 8 = 0"
    "index_at sb es - (64 + entries_len es) = 0 \<or> 8 \<le> index_at sb es - (64 + entries_len es)"
proof -
  note d = dir_block_bytes [OF assms(1)]
  have s: "72 + entries_len es + 8 * length es \<le> unat (dirblocksize sb)"
    using assms(2) by (simp add: space_needed_def entries_len_def dir_sizes)
  then show "64 + entries_len es \<le> index_at sb es" "index_at sb es + 8 * length es = unat (dirblocksize sb) - 8" "index_at sb es < 65536"
    using d(3) by (simp_all add: index_at_def)
  obtain q where q: "unat (dirblocksize sb) = 8 * q" using d(4) by (metis mod_0_imp_dvd dvdE)
  obtain r where r: "entries_len es = 8 * r" using entries_len_mod [of es] by (metis mod_0_imp_dvd dvdE)
  have "index_at sb es - (64 + entries_len es) = 8 * (q - 1 - length es - 8 - r)" using s by (simp add: index_at_def q r)
  then show "(index_at sb es - (64 + entries_len es)) mod 8 = 0"
    "index_at sb es - (64 + entries_len es) = 0 \<or> 8 \<le> index_at sb es - (64 + entries_len es)" by auto
qed

lemma dir_build_spec:
  assumes geo: "geometry_ok sb" and uuid: "length (sb_meta_uuid sb) = 16" and fits: "space_needed es \<le> unat (dirblocksize sb)"
    and names: "list_all (\<lambda>e. length (en_name e) \<le> 255) es"
  shows "\<exists>b. dir_build sb fsblock owner es = Inr b \<and> dir_block_of sb fsblock owner es b"
proof -
  let ?D = "unat (dirblocksize sb)" and ?e = "64 + entries_len es" and ?i = "index_at sb es" and ?n = "length es"
  let ?ix = "sort_key fst (index_of sb 64 es)"
  note d = dir_block_bytes [OF geo] and lay = dir_block_layout [OF geo fits]
  obtain b0 where b0: "dir_header sb fsblock owner (replicate ?D 0) = Inr b0" "length b0 = ?D" "be32 b0 0 = Inr XFS_DIR3_BLOCK_MAGIC"
    "be64 b0 8 = Inr (blkno_of_fsbno sb fsblock)" "uuid_at b0 24 = Inr (sb_meta_uuid sb)" "be64 b0 40 = Inr owner"
    using dir_header_spec [of "replicate ?D 0" sb fsblock owner] d(2) uuid by auto
  have room: "?e \<le> ?D" using lay(1,2) by linarith
  obtain b1 where b1: "place_entries sb es 64 b0 = Inr (b1, ?e, index_of sb 64 es)" "placed b1 64 es" "agree b0 b1 0 64"
    using place_entries_spec [of 64 es b0 sb] room lay(1,3) names b0(2) by auto
  have l1: "length b1 = ?D" using b1(3) b0(2) by (simp add: agree_def)
  have w: "?i + 8 * length ?ix \<le> length b1" using lay(2) d(2) l1 by simp
  from leaf_records.write_records_ok [OF w] obtain b2 where b2: "write_records write_leaf 8 ?i ?ix b1 = Inr b2" "length b2 = length b1"
    "\<forall>i. i < length b1 \<and> (i < ?i \<or> ?i + 8 * length ?ix \<le> i) \<longrightarrow> b2 ! i = b1 ! i" by blast
  then have a12: "agree b1 b2 0 ?i" by (auto simp: agree_def)
  have "read_records read_leaf 8 ?i ?n b2 = Inr ?ix"
    using leaf_records.read_write_records [OF w] b2(1) by simp
  then have ix: "leaf_loop b2 ?i ?n 0 = Inr (map leaf_entry ?ix)" by (rule leaf_loop_read) simp
  have small: "?i - ?e < 65536" using lay(3) by linarith
  obtain b3 where b3: "free_gap ?e (?i - ?e) b2 = Inr b3" "holds_gap b3 ?e (?i - ?e)" "agree b2 b3 0 48" "agree b2 b3 52 ?e" "agree b2 b3 ?i ?D"
    using free_gap_spec [of ?e "?i - ?e" b2] lay(1,3,5) small b2(2) l1 w by auto
  have l3: "length b3 = ?D" using b3(3) b2(2) l1 by (simp add: agree_def)
  let ?b4 = "blit b3 (?D - 8) (be_bytes32 (of_nat ?n))"
  let ?b = "blit ?b4 (?D - 4) (be_bytes32 0)"
  have t: "put b3 (?D - 8) (be_bytes32 (of_nat ?n)) = Inr ?b4" "put ?b4 (?D - 4) (be_bytes32 0) = Inr ?b" "length ?b = ?D"
    using l3 d(2) by (simp_all add: put_ok)
  have t4: "?D - 8 + 4 = ?D - 4" using d(2) by simp
  have a3: "agree b3 ?b 0 (?D - 8)" using l3 d(2) by (auto simp: agree_def nth_blit)
  have built: "dir_build sb fsblock owner es = Inr ?b"
    using fits d(1) b0(1) b1(1) b2(1) b3(1) t(1,2) t4 by (simp add: dir_build_def Let_def dir_sizes index_at_def not_less [symmetric])
  have head: "agree b0 ?b 0 48"
    by (rule agree_trans [OF agree_sub [OF b1(3)] agree_trans [OF agree_sub [OF a12] agree_trans [OF b3(3) agree_sub [OF a3]]]])
      (use lay d(2) in auto)
  have body: "agree b1 ?b 64 ?e"
    by (rule agree_trans [OF agree_sub [OF a12] agree_trans [OF agree_sub [OF b3(4)] agree_sub [OF a3]]]) (use lay d(2) in auto)
  have gap: "agree b3 ?b ?e ?i" by (rule agree_sub [OF a3]) (use lay in auto)
  have tail: "agree b2 ?b ?i (?D - 8)" by (rule agree_trans [OF agree_sub [OF b3(5)] agree_sub [OF a3]]) (use lay in auto)
  have "be32 ?b 0 = be32 b0 0" "be64 ?b 8 = be64 b0 8" "uuid_at ?b 24 = uuid_at b0 24" "be64 ?b 40 = be64 b0 40"
    using be32_agree [OF head] be64_agree [OF head] uuid_agree [OF head] by simp_all
  moreover have "placed ?b 64 es" by (rule placed_agree [OF b1(2) body])
  moreover have "holds_gap ?b ?e (?i - ?e)" by (rule holds_gap_agree [OF b3(2) _ lay(5)]) (use gap lay(1) in simp)
  moreover have "leaf_loop ?b ?i ?n 0 = Inr (map leaf_entry ?ix)" using leaf_loop_agree [of b2 ?b ?i ?n 0] tail lay(2) ix by simp
  moreover have "take 4 (drop (?D - 4) ?b) = be_bytes32 0" by (rule take_drop_blit_same) (use l3 d(2) in simp_all)
  then have "be32 ?b (?D - 4) = Inr 0" unfolding read_Inr_iff using t(3) d(2) by (simp del: take_all_iff take_all)
  moreover have "be32 ?b (?D - 8) = Inr (of_nat ?n)"
    using l3 d(2) t(3) by (simp add: read_ok take_drop_blit_same take_drop_blit_other)
  ultimately show ?thesis using built t(3) b0(3-6) by (auto simp: dir_block_of_def)
qed

lemma dir_block_of_crc:
  assumes geo: "geometry_ok sb" and fits: "space_needed es \<le> unat (dirblocksize sb)" and b: "dir_block_of sb fsblock owner es b" and s: "length s = 4"
  shows "dir_block_of sb fsblock owner es (blit b 4 s)"
proof -
  let ?b = "blit b 4 s" and ?D = "unat (dirblocksize sb)" and ?e = "64 + entries_len es" and ?i = "index_at sb es"
  note d = dir_block_bytes [OF geo] and lay = dir_block_layout [OF geo fits]
  have l: "length b = ?D" using b by (simp add: dir_block_of_def)
  have lo: "agree b ?b 0 4" and hi: "agree b ?b 8 ?D" using l d(2) s by (auto intro!: agree_blit)
  have "be32 ?b 0 = be32 b 0" "be64 ?b 8 = be64 b 8" "uuid_at ?b 24 = uuid_at b 24" "be64 ?b 40 = be64 b 40"
    "be32 ?b (?D - 8) = be32 b (?D - 8)" "be32 ?b (?D - 4) = be32 b (?D - 4)"
    using be32_agree [OF lo, of 0] be32_agree [OF hi] be64_agree [OF hi] uuid_agree [OF hi] d(2) by simp_all
  moreover have "placed ?b 64 es" if "placed b 64 es"
    by (rule placed_agree [OF that]) (rule agree_sub [OF hi], use lay in auto)
  moreover have "holds_gap ?b ?e (?i - ?e)" if "holds_gap b ?e (?i - ?e)"
    by (rule holds_gap_agree [OF that _ lay(5)]) (rule agree_sub [OF hi], use lay in auto)
  moreover have "leaf_loop ?b ?i (length es) 0 = leaf_loop b ?i (length es) 0"
    by (rule leaf_loop_agree [symmetric], rule agree_sub [OF hi]) (use lay in auto)
  ultimately show ?thesis using b l s d(2) by (simp add: dir_block_of_def)
qed

lemma dir_block_of_parses:
  assumes geo: "geometry_ok sb" and fits: "space_needed es \<le> unat (dirblocksize sb)" and b: "dir_block_of sb fsblock owner es b"
    and v5: "is_v5 sb" and ft: "has_ftype sb" and ok: "list_all (entry_ok sb) es"
  shows "parse_block_form b sb = Inr \<lparr>bd_entries = read_as 64 es, bd_index = map leaf_entry (sort_key fst (index_of sb 64 es))\<rparr>"
proof -
  let ?D = "unat (dirblocksize sb)" and ?e = "64 + entries_len es" and ?i = "index_at sb es" and ?n = "length es"
  note d = dir_block_bytes [OF geo] and lay = dir_block_layout [OF geo fits]
  from b have l: "length b = ?D" and m: "be32 b 0 = Inr XFS_DIR3_BLOCK_MAGIC" and p: "placed b 64 es" and g: "holds_gap b ?e (?i - ?e)"
    and x: "leaf_loop b ?i ?n 0 = Inr (map leaf_entry (sort_key fst (index_of sb 64 es)))"
    and t: "be32 b (?D - 8) = Inr (of_nat ?n)" "be32 b (?D - 8 + 4) = Inr 0" using d(2) by (simp_all add: dir_block_of_def)
  have n: "unat (of_nat ?n :: u32) = ?n" using lay(2) d(3) by (simp add: unat_of_nat)
  have "filter is_stale (map leaf_entry (sort_key fst (index_of sb 64 es))) = []"
    using index_addresses [of 64 es sb] lay by (auto simp: filter_empty_conv is_stale_def leaf_entry_def NULL_DATAPTR_def)
  then have "parse_leaf_entries b ?i ?n 0 = Inr (map leaf_entry (sort_key fst (index_of sb 64 es)))" using x by (simp add: parse_leaf_entries_def)
  moreover have "parse_entries b sb 64 ?i = Inr (read_as 64 es)"
    by (rule parse_placed [OF p ok ft _ g lay(4)]) (use lay l in auto)
  moreover have "\<not> ?D - 8 - 64 < ?n * 8" "?D - 8 - ?n * 8 = ?i" using lay(1,2) by (simp_all add: index_at_def)
  moreover have "data_hdr_size XFS_DIR3_BLOCK_MAGIC sb = Inr 64" using v5 by (simp add: data_hdr_size_def dir_sizes)
  moreover have "read_data_magic b sb = Inr XFS_DIR3_BLOCK_MAGIC" "dir_block_size b sb = Inr ?D"
    using m l d(2) by (simp_all add: read_data_magic_def dir_block_size_def dir_sizes)
  ultimately show ?thesis using t n d(2) by (simp add: parse_block_form_def is_block_form_def dir_sizes)
qed

lemma sort_key_map: "sort_key f (map g xs) = map g (sort_key (\<lambda>x. f (g x)) xs)"
proof -
  have "insort_key f (g x) (map g ys) = map g (insort_key (\<lambda>x. f (g x)) x ys)" for x ys by (induction ys) simp_all
  then show ?thesis by (induction xs) simp_all
qed

text \<open>The index in terms of what the reader gives.\<close>

lemma index_of_read:
  "at + entries_len es \<le> 65536 \<Longrightarrow>
     map leaf_entry (index_of sb at es) = map (\<lambda>d. \<lparr>le_hashval = hash_for sb (de_name d), le_address = de_offset d div 8\<rparr>) (read_as at es)"
proof (induction es arbitrary: at)
  case (Cons e es)
  then have "at \<le> 65536" by simp
  then have "(of_nat at div 8 :: u32) = of_nat (at div 8)" by (simp add: word_eq_unat unat_div unat_of_nat)
  with Cons.IH [of "at + entry_size (length (en_name e))"] Cons.prems show ?case by (simp add: leaf_entry_def add.assoc)
qed simp

lemma read_as_entries:
  "list_all (entry_ok sb) es \<Longrightarrow>
     map (\<lambda>d. (de_name d, de_ino d, Inr (de_ftype d))) (read_as at es) = map (\<lambda>e. (en_name e, en_ino e, ftype_from_raw (en_ftype e))) es"
proof (induction es arbitrary: at)
  case (Cons e es)
  then show ?case using ftype_defined [of e] by (auto simp: entry_ok_def)
qed simp

lemma stamped_verifies:
  assumes geo: "geometry_ok sb" and fits: "space_needed es \<le> unat (dirblocksize sb)" and b: "dir_block_of sb fsblock owner es b" and v5: "is_v5 sb"
  shows "\<exists>b'. stamp C sb BLFT_DIR_BLOCK b = Inr b' \<and> dir_block_of sb fsblock owner es b' \<and>
    verify_data_block C b' sb (blkno_of_fsbno sb fsblock) owner = Inr ()"
proof -
  note d = dir_block_bytes [OF geo]
  have l: "length b = unat (dirblocksize sb)" using b by (simp add: dir_block_of_def)
  obtain crc where crc: "crc32c_with_zeroed_crc C b 4 = Inr crc" using crc_ok [of 4 b C] l d(2) by auto
  let ?b = "blit b 4 (le_bytes32 crc)"
  have lb: "length ?b = unat (dirblocksize sb)" using l d(2) by simp
  have "stamp C sb BLFT_DIR_BLOCK b = Inr ?b"
    using v5 crc l d(2) by (simp add: stamp_def stamp_crc_at_def put_ok BLFT_DIR_BLOCK_def BLFT_AGF_def BLFT_AGI_def BLFT_AGFL_def BLFT_BTREE_def BLFT_DINO_def)
  moreover have of: "dir_block_of sb fsblock owner es ?b" by (rule dir_block_of_crc [OF geo fits b]) simp
  moreover have "verify_data_block C ?b sb (blkno_of_fsbno sb fsblock) owner = Inr ()"
  proof -
    have "crc32c_with_zeroed_crc C ?b 4 = Inr crc" using crc crc_blit_self [of 4 b "le_bytes32 crc" C] l d(2) by simp
    moreover have "le32 ?b 4 = Inr crc" using l d(2) lb by (simp add: read_ok take_drop_blit_same)
    ultimately show ?thesis using of lb
      by (simp add: verify_data_block_def verify_v5_header_def DIR3_BLK_HDR_def dir_block_size_def dir_block_of_def slice_def)
  qed
  ultimately show ?thesis by blast
qed

text \<open>C30. A directory that outgrows its inode becomes one block, and the block is right: if the entries and their index fit, the block
  that is built and given its checksum by recovery passes the verification of the reader at the address and for the owner it
  was built for, reads back as exactly the entries it was built from, in their order, and its index holds for every entry its hash
  and its place, sorted by hash.  If they do not fit, it is refused.\<close>

theorem block_dir_roundtrip:
  assumes "geometry_ok sb" and "length (sb_meta_uuid sb) = 16" and "is_v5 sb" and "has_ftype sb"
    and "list_all (\<lambda>e. en_name e \<noteq> [] \<and> length (en_name e) \<le> 255 \<and> check_entry_ino sb (en_ino e) = Inr () \<and> en_ftype e \<le> 8) es"
  shows "if space_needed es \<le> unat (dirblocksize sb)
    then \<exists>b d. rbind (dir_build sb fsblock owner es) (stamp C sb BLFT_DIR_BLOCK) = Inr b \<and>
        verify_data_block C b sb (blkno_of_fsbno sb fsblock) owner = Inr () \<and> parse_block_form b sb = Inr d \<and>
        map (\<lambda>x. (de_name x, de_ino x, Inr (de_ftype x))) (bd_entries d) = map (\<lambda>e. (en_name e, en_ino e, ftype_from_raw (en_ftype e))) es \<and>
        bd_index d = sort_key le_hashval (map (\<lambda>x. \<lparr>le_hashval = hash_for sb (de_name x), le_address = de_offset x div 8\<rparr>) (bd_entries d))
    else \<exists>what. dir_build sb fsblock owner es = Inl (UnsupportedFeature what)"
proof (cases "space_needed es \<le> unat (dirblocksize sb)")
  case True
  have ok: "list_all (entry_ok sb) es" using assms(5) by (simp add: entry_ok_def [abs_def])
  then have names: "list_all (\<lambda>e. length (en_name e) \<le> 255) es" by (auto simp: list_all_iff entry_ok_def)
  from dir_build_spec [OF assms(1,2) True names] obtain b where b: "dir_build sb fsblock owner es = Inr b" "dir_block_of sb fsblock owner es b" by blast
  from stamped_verifies [OF assms(1) True b(2) assms(3)] obtain b' where b': "stamp C sb BLFT_DIR_BLOCK b = Inr b'"
    "dir_block_of sb fsblock owner es b'" "verify_data_block C b' sb (blkno_of_fsbno sb fsblock) owner = Inr ()" by blast
  have "64 + entries_len es \<le> 65536" using dir_block_layout(1,3) [OF assms(1) True] by simp
  then have "map leaf_entry (sort_key fst (index_of sb 64 es)) =
      sort_key le_hashval (map (\<lambda>x. \<lparr>le_hashval = hash_for sb (de_name x), le_address = de_offset x div 8\<rparr>) (read_as 64 es))"
    using sort_key_map [of le_hashval leaf_entry "index_of sb 64 es"] by (simp add: index_of_read leaf_entry_def)
  then show ?thesis
    using True b(1) b'(1,3) dir_block_of_parses [OF assms(1) True b'(2) assms(3,4) ok] read_as_entries [OF ok, of 64] by auto
next
  case False
  then show ?thesis using dir_block_bytes(1) [OF assms(1)] by (simp add: dir_build_def Let_def)
qed


definition sample_dir_sb :: Superblock where
  "sample_dir_sb = sample_sb\<lparr>sb_versionnum := 5, sb_blocksize := 512, sb_blocklog := 9, sb_inopblock := 2, sb_inopblog := 1,
     sb_features_incompat := 1, sb_meta_uuid := replicate 16 7\<rparr>"

lemma sample_dir_sb_ok: "geometry_ok sample_dir_sb" "length (sb_meta_uuid sample_dir_sb) = 16" "is_v5 sample_dir_sb" "has_ftype sample_dir_sb"
  by (simp_all add: sample_dir_sb_def sample_sb_def geometry_ok_def sizes_ok_def groups_ok_def has_internal_log_def is_v5_def version_def
      XFS_SB_VERSION_NUMBITS_def has_ftype_def INCOMPAT_FTYPE_def)

definition sample_entries :: "Entry list" where
  "sample_entries =
     [\<lparr>en_name = [0x2e], en_ino = 131, en_ftype = 2\<rparr>, \<lparr>en_name = [0x2e, 0x2e], en_ino = 128, en_ftype = 2\<rparr>,
      \<lparr>en_name = [0x61, 0x62], en_ino = 133, en_ftype = 1\<rparr>]"

lemma block_dir_roundtrip_witness:
  "\<exists>b d. rbind (dir_build sample_dir_sb 8 131 sample_entries) (stamp sample_crc sample_dir_sb BLFT_DIR_BLOCK) = Inr b \<and>
     verify_data_block sample_crc b sample_dir_sb (blkno_of_fsbno sample_dir_sb 8) 131 = Inr () \<and>
     parse_block_form b sample_dir_sb = Inr d \<and> length (bd_entries d) = 3 \<and> length (bd_index d) = 3"
proof -
  have "list_all (\<lambda>e. en_name e \<noteq> [] \<and> length (en_name e) \<le> 255 \<and> check_entry_ino sample_dir_sb (en_ino e) = Inr () \<and> en_ftype e \<le> 8) sample_entries"
    by code_simp
  note rt = block_dir_roundtrip [OF sample_dir_sb_ok this, of 8 131 sample_crc]
  have "space_needed sample_entries \<le> unat (dirblocksize sample_dir_sb)" by code_simp
  with rt obtain b d where b: "rbind (dir_build sample_dir_sb 8 131 sample_entries) (stamp sample_crc sample_dir_sb BLFT_DIR_BLOCK) = Inr b"
      "verify_data_block sample_crc b sample_dir_sb (blkno_of_fsbno sample_dir_sb 8) 131 = Inr ()" "parse_block_form b sample_dir_sb = Inr d"
    and m: "map (\<lambda>x. (de_name x, de_ino x, Inr (de_ftype x))) (bd_entries d) = map (\<lambda>e. (en_name e, en_ino e, ftype_from_raw (en_ftype e))) sample_entries"
    and i: "bd_index d = sort_key le_hashval (map (\<lambda>x. \<lparr>le_hashval = hash_for sample_dir_sb (de_name x), le_address = de_offset x div 8\<rparr>) (bd_entries d))"
    by (simp only: if_True) blast
  from arg_cong [OF m, of length] have "length (bd_entries d) = 3" by (simp add: sample_entries_def)
  with b i show ?thesis by auto
qed

end
