(* ===== verification/DirShort.thy ===== *)
theory DirShort
  imports DirBuild
begin

unbundle bit_operations_syntax

text \<open>
  Directories kept inside their inode, as the driver writes them (\<^verbatim>\<open>src/src/dir_write.rs\<close>): the encoder, the offsets (cookies) a new
  entry is given, and the four edits.

  A limit of \<^verbatim>\<open>usize::MAX\<close> is \<open>2 ^ 64 - 1\<close>.  What is shown is what the reader makes of an encoded directory: exactly the entries that were
  written, unless the writer and the reader disagree on which inode numbers are wide.
\<close>

section \<open>The encoder\<close>

definition cookie_span :: "nat \<Rightarrow> bool \<Rightarrow> u32" where
  "cookie_span namelen ftype =
     (let raw = 8 + 1 + namelen + of_bool ftype + 2
      in of_nat (div_ceil raw XFS_DIR2_DATA_ALIGN * XFS_DIR2_DATA_ALIGN))"

record SfEntry =
  se_name :: bytes
  se_ino :: u64
  se_ftype :: u8
  se_cookie :: u32

definition first_cookie :: "bool \<Rightarrow> u32" where
  "first_cookie ftype = of_nat XFS_DIR3_DATA_HDR_SIZE + cookie_span 1 ftype + cookie_span 2 ftype"

definition next_cookie :: "ShortFormDir \<Rightarrow> bool \<Rightarrow> u32" where
  "next_cookie parsed ftype =
     (case map (\<lambda>e. de_offset e + cookie_span (length (de_name e)) ftype) (sf_entries parsed) of
        [] \<Rightarrow> first_cookie ftype
      | c # cs \<Rightarrow> foldl max c cs)"

text \<open>The constant of the writer; the reader has one of the same name and another value.\<close>

definition WRITER_MAX_SHORT_INUM :: u64 where "WRITER_MAX_SHORT_INUM = 0x7fffffff"

definition sf_ino_bytes :: "bool \<Rightarrow> u64 \<Rightarrow> bytes" where
  "sf_ino_bytes wide ino = (if wide then be_bytes64 ino else be_bytes32 (ucast ino))"

definition sf_bytes :: "bool \<Rightarrow> bool \<Rightarrow> SfEntry \<Rightarrow> bytes" where
  "sf_bytes ftype wide e =
     [of_nat (length (se_name e))] @ be_bytes16 (ucast (se_cookie e)) @ se_name e @ (if ftype then [se_ftype e] else []) @
     sf_ino_bytes wide (se_ino e)"

fun sf_rows :: "bool \<Rightarrow> bool \<Rightarrow> SfEntry list \<Rightarrow> bytes res" where
  "sf_rows ftype wide [] = Inr []"
| "sf_rows ftype wide (e # es) =
     (if 65535 < se_cookie e then Inl (UnsupportedFeature ''a directory offset is past what the two-byte field holds'')
      else rbind (sf_rows ftype wide es) (\<lambda>rest. Inr (sf_bytes ftype wide e @ rest)))"

definition encode_short_form :: "ShortFormDir \<Rightarrow> bool \<Rightarrow> SfEntry list \<Rightarrow> nat \<Rightarrow> bytes res" where
  "encode_short_form parsed ftype entries fork_space =
     (let wide_numbers = of_bool (WRITER_MAX_SHORT_INUM < sf_parent_ino parsed)
            + length (filter (\<lambda>e. WRITER_MAX_SHORT_INUM < se_ino e) entries)
      in if 255 < wide_numbers then Inl (UnsupportedFeature ''a short-form directory holds more wide inode numbers than its count field'')
         else
           let i8count = of_nat wide_numbers :: u8; wide = i8count \<noteq> 0; header = (if wide then 10 else 6)
           in if 255 < length entries then Inl (UnsupportedFeature ''a short-form directory cannot hold so many entries'')
              else
                let out = [of_nat (length entries), i8count] @ sf_ino_bytes wide (sf_parent_ino parsed)
                in if length out \<noteq> header then Inl (Internal ''a short-form directory header encoded to the wrong length'')
                   else
                     rbind (sf_rows ftype wide entries) (\<lambda>rows.
                     if fork_space < length (out @ rows)
                     then Inl (UnsupportedFeature ''the directory needs more bytes than the fork holds'')
                     else Inr (out @ rows)))"

section \<open>The edits\<close>

definition sf_of :: "DirEntry \<Rightarrow> SfEntry" where
  "sf_of e = \<lparr>se_name = de_name e, se_ino = de_ino e, se_ftype = ftype_to_raw (de_ftype e), se_cookie = de_offset e\<rparr>"

definition short_form_after_rename :: "Superblock \<Rightarrow> ShortFormDir \<Rightarrow> bytes \<Rightarrow> bytes \<Rightarrow> nat \<Rightarrow> bytes res" where
  "short_form_after_rename sb parsed old new fork_space =
     (let ftype = has_ftype sb; nxt = next_cookie parsed ftype
      in case find (\<lambda>e. de_name e = old) (sf_entries parsed) of
           None \<Rightarrow> Inl Panic
         | Some moved \<Rightarrow>
             encode_short_form parsed ftype
               (map sf_of (filter (\<lambda>e. de_name e \<noteq> old) (sf_entries parsed)) @
                [\<lparr>se_name = new, se_ino = de_ino moved, se_ftype = ftype_to_raw (de_ftype moved), se_cookie = nxt\<rparr>]) fork_space)"

fun sf_assign :: "ShortFormDir \<Rightarrow> bool \<Rightarrow> Entry list \<Rightarrow> u32 \<Rightarrow> SfEntry list" where
  "sf_assign parsed ftype [] nxt = []"
| "sf_assign parsed ftype (e # es) nxt =
     (case find (\<lambda>p. de_name p = en_name e \<and> de_ino p = en_ino e) (sf_entries parsed) of
        Some p \<Rightarrow> \<lparr>se_name = en_name e, se_ino = en_ino e, se_ftype = en_ftype e, se_cookie = de_offset p\<rparr> # sf_assign parsed ftype es nxt
      | None \<Rightarrow> \<lparr>se_name = en_name e, se_ino = en_ino e, se_ftype = en_ftype e, se_cookie = nxt\<rparr> #
          sf_assign parsed ftype es (nxt + cookie_span (length (en_name e)) ftype))"

definition short_form_of :: "Superblock \<Rightarrow> ShortFormDir \<Rightarrow> u64 \<Rightarrow> Entry list \<Rightarrow> nat \<Rightarrow> bytes option res" where
  "short_form_of sb parsed parent entries fork_space =
     (let ftype = has_ftype sb; sf = sf_assign parsed ftype entries (next_cookie parsed ftype);
          header = \<lparr>sf_parent_ino = parent, sf_i8count = sf_i8count parsed, sf_entries = []\<rparr>
      in rbind (encode_short_form header ftype sf (2 ^ 64 - 1)) (\<lambda>fork.
         Inr (if length fork \<le> fork_space then Some fork else None)))"

definition short_form_with_entry :: "Superblock \<Rightarrow> ShortFormDir \<Rightarrow> bytes \<Rightarrow> u64 \<Rightarrow> u8 \<Rightarrow> nat \<Rightarrow> bytes option res" where
  "short_form_with_entry sb parsed name ino ft fork_space =
     (let ftype = has_ftype sb; nxt = next_cookie parsed ftype;
          entries = map sf_of (sf_entries parsed) @ [\<lparr>se_name = name, se_ino = ino, se_ftype = ft, se_cookie = nxt\<rparr>]
      in rbind (encode_short_form parsed ftype entries (2 ^ 64 - 1)) (\<lambda>fork.
         Inr (if length fork \<le> fork_space then Some fork else None)))"

definition short_form_without_entry :: "Superblock \<Rightarrow> ShortFormDir \<Rightarrow> bytes \<Rightarrow> nat \<Rightarrow> bytes res" where
  "short_form_without_entry sb parsed name fork_space =
     (let ftype = has_ftype sb
      in if \<not> list_ex (\<lambda>e. de_name e = name) (sf_entries parsed) then Inl NotFound
         else encode_short_form parsed ftype (map sf_of (filter (\<lambda>e. de_name e \<noteq> name) (sf_entries parsed))) fork_space)"

section \<open>Fields of the core that an edit moves\<close>

definition set_nextents :: "bytes \<Rightarrow> u64 \<Rightarrow> bytes res" where
  "set_nextents core cnt =
     rbind (be64 core 120) (\<lambda>flags2.
       if flags2 AND DI_FLAGS2_NREXT64 \<noteq> 0 then put core 24 (be_bytes64 cnt) else put core 76 (be_bytes32 (ucast cnt)))"

definition set_size :: "bytes \<Rightarrow> u64 \<Rightarrow> bytes res" where
  "set_size raw sz = put raw 56 (be_bytes64 sz)"

definition bump_changecount :: "bytes \<Rightarrow> bool \<Rightarrow> bytes res" where
  "bump_changecount raw v5 =
     (if \<not> v5 then Inr raw else rbind (be64 raw 104) (\<lambda>now. put raw 104 (be_bytes64 (now + 1))))"

section \<open>An entry read back\<close>

lemma slice_mid: "length a = k \<Longrightarrow> length s = n \<Longrightarrow> slice (a @ s @ c) k n = Inr s"
  by (auto simp: slice_def)

lemma read_mid:
  "length a = k \<Longrightarrow> be16 (a @ be_bytes16 w @ c) k = Inr w"
  "length a = k \<Longrightarrow> be32 (a @ be_bytes32 x @ c) k = Inr x"
  "length a = k \<Longrightarrow> be64 (a @ be_bytes64 y @ c) k = Inr y"
  "length a = k \<Longrightarrow> byte_at (a @ z # c) k = Inr z"
  by (auto simp: be16_def be32_def be64_def slice_mid byte_at_def nth_append)

definition read_entry :: "bool \<Rightarrow> SfEntry \<Rightarrow> DirEntry" where
  "read_entry ftype e =
     \<lparr>de_name = se_name e, de_ino = se_ino e,
      de_ftype = (if ftype then case ftype_from_raw (se_ftype e) of Inl _ \<Rightarrow> None | Inr t \<Rightarrow> t else None), de_offset = se_cookie e\<rparr>"

definition sf_ok :: "Superblock \<Rightarrow> bool \<Rightarrow> SfEntry \<Rightarrow> bool" where
  "sf_ok sb wide e \<longleftrightarrow> se_name e \<noteq> [] \<and> length (se_name e) \<le> 255 \<and> check_entry_ino sb (se_ino e) = Inr () \<and> se_ftype e \<le> 8 \<and>
     se_cookie e \<le> 65535 \<and> (wide \<or> se_ino e \<le> WRITER_MAX_SHORT_INUM)"

lemma length_sf_ino_bytes [simp]: "length (sf_ino_bytes wide ino) = (if wide then 8 else 4)"
  by (simp add: sf_ino_bytes_def)

lemma length_sf_bytes: "length (sf_bytes ftype wide e) = 3 + length (se_name e) + of_bool ftype + (if wide then 8 else 4)"
  by (simp add: sf_bytes_def)

lemma check_entry_ino_max: "check_entry_ino sb ino = Inr () \<Longrightarrow> ino \<le> MAX_INUMBER"
  by (auto simp: check_entry_ino_def split: if_splits)

lemma read_sf_ino_mid:
  assumes "length a = k" and "ino \<le> MAX_INUMBER" and "wide \<or> ino \<le> WRITER_MAX_SHORT_INUM"
  shows "read_sf_ino (a @ sf_ino_bytes wide ino @ c) k wide = Inr ino"
proof (cases wide)
  case False
  with assms(3) have "unat ino < 2 ^ 32" by (simp add: WRITER_MAX_SHORT_INUM_def word_le_nat_alt)
  then have "(ucast (ucast ino :: u32) :: u64) = ino" by (simp add: word_eq_unat unat_ucast_64_32)
  then show ?thesis using False assms(1) by (simp add: read_sf_ino_def sf_ino_bytes_def read_mid)
next
  case True
  then show ?thesis using assms by (simp add: read_sf_ino_def sf_ino_bytes_def read_mid leD)
qed

lemma sf_entry_reads:
  assumes "sf_ok sb wide e"
  shows "sf_entry (pre @ sf_bytes (has_ftype sb) wide e @ post) sb False wide (length pre) =
    Inr (length (sf_bytes (has_ftype sb) wide e), read_entry (has_ftype sb) e, [])"
proof -
  let ?n = "length (se_name e)" and ?ft = "if has_ftype sb then [se_ftype e] else []"
  let ?buf = "pre @ sf_bytes (has_ftype sb) wide e @ post"
  from assms have ok: "0 < ?n" "?n \<le> 255" "check_entry_ino sb (se_ino e) = Inr ()" "se_ftype e \<le> 8" "se_cookie e \<le> 65535"
    "wide \<or> se_ino e \<le> WRITER_MAX_SHORT_INUM" by (auto simp: sf_ok_def)
  have un: "unat (of_nat ?n :: u8) = ?n" using ok(2) by (simp add: unat_of_nat)
  have "unat (se_cookie e) < 65536" using ok(5) by (simp add: word_le_nat_alt)
  then have ck: "(ucast (ucast (se_cookie e) :: u16) :: u32) = se_cookie e"
    by (intro bit_word_eqI) (auto simp: bit_simps dest: not_high_bit [of "se_cookie e" 16, simplified])
  have r: "byte_at ?buf (length pre) = Inr (of_nat ?n)" by (simp add: sf_bytes_def read_mid)
  have c: "be16 ?buf (length pre + 1) = Inr (ucast (se_cookie e))"
    using read_mid(1) [of "pre @ [of_nat ?n]" "length pre + 1"] by (simp add: sf_bytes_def)
  have nm: "slice ?buf (length pre + 3) ?n = Inr (se_name e)"
    using slice_mid [of "pre @ [of_nat ?n] @ be_bytes16 (ucast (se_cookie e))" "length pre + 3" "se_name e" ?n] by (simp add: sf_bytes_def)
  have ft: "byte_at ?buf (length pre + 3 + ?n) = Inr (se_ftype e)" if "has_ftype sb"
    using read_mid(4) [of "pre @ [of_nat ?n] @ be_bytes16 (ucast (se_cookie e)) @ se_name e" "length pre + 3 + ?n"] that by (simp add: sf_bytes_def)
  have i: "read_sf_ino ?buf (length pre + 3 + ?n + of_bool (has_ftype sb)) wide = Inr (se_ino e)"
    using read_sf_ino_mid [of "pre @ [of_nat ?n] @ be_bytes16 (ucast (se_cookie e)) @ se_name e @ ?ft"
        "length pre + 3 + ?n + of_bool (has_ftype sb)" "se_ino e" wide post] check_entry_ino_max [OF ok(3)] ok(6)
    by (simp add: sf_bytes_def)
  obtain t where t: "ftype_from_raw (se_ftype e) = Inr t"
    using ftype_defined [of "\<lparr>en_name = [], en_ino = 0, en_ftype = se_ftype e\<rparr>"] ok(4) by auto
  show ?thesis using r c nm ft i t ok(1,3) un ck
    by (simp add: sf_entry_def length_sf_bytes dir_has_ftype_def read_entry_def Let_def)
qed

lemma sf_rows_eq:
  "sf_rows ftype wide es =
     (if list_all (\<lambda>e. se_cookie e \<le> 65535) es then Inr (concat (map (sf_bytes ftype wide) es))
      else Inl (UnsupportedFeature ''a directory offset is past what the two-byte field holds''))"
  by (induction es) (simp_all add: not_less [symmetric])

lemma sf_loop_reads:
  "list_all (sf_ok sb wide) es \<Longrightarrow>
     sf_loop (pre @ concat (map (sf_bytes (has_ftype sb) wide) es)) sb False wide (length es) (length pre) =
       Inr (length (pre @ concat (map (sf_bytes (has_ftype sb) wide) es)), map (read_entry (has_ftype sb)) es, [])"
proof (induction es arbitrary: pre)
  case (Cons e es)
  let ?row = "sf_bytes (has_ftype sb) wide e" and ?rest = "concat (map (sf_bytes (has_ftype sb) wide) es)"
  have "sf_entry (pre @ ?row @ ?rest) sb False wide (length pre) = Inr (length ?row, read_entry (has_ftype sb) e, [])"
    using Cons.prems by (intro sf_entry_reads) simp
  moreover have "sf_loop (pre @ ?row @ ?rest) sb False wide (length es) (length pre + length ?row) =
      Inr (length (pre @ ?row @ ?rest), map (read_entry (has_ftype sb)) es, [])"
    using Cons.IH [of "pre @ ?row"] Cons.prems by simp
  ultimately show ?case by simp
qed simp

definition wide_for :: "u64 \<Rightarrow> u64 \<Rightarrow> SfEntry list \<Rightarrow> nat" where
  "wide_for limit parent es = of_bool (limit < parent) + length (filter (\<lambda>e. limit < se_ino e) es)"

text \<open>What an encoded directory is made of.\<close>

lemma encode_short_form_Inr:
  assumes "encode_short_form hdr ftype es space = Inr fork"
  shows "wide_for WRITER_MAX_SHORT_INUM (sf_parent_ino hdr) es \<le> 255" "length es \<le> 255" "list_all (\<lambda>e. se_cookie e \<le> 65535) es"
    "fork = [of_nat (length es), of_nat (wide_for WRITER_MAX_SHORT_INUM (sf_parent_ino hdr) es)]
       @ sf_ino_bytes ((of_nat (wide_for WRITER_MAX_SHORT_INUM (sf_parent_ino hdr) es) :: u8) \<noteq> 0) (sf_parent_ino hdr)
       @ concat (map (sf_bytes ftype ((of_nat (wide_for WRITER_MAX_SHORT_INUM (sf_parent_ino hdr) es) :: u8) \<noteq> 0)) es)"
    "length fork \<le> space"
proof -
  let ?w = "wide_for WRITER_MAX_SHORT_INUM (sf_parent_ino hdr) es"
  let ?out = "[of_nat (length es), of_nat ?w] @ sf_ino_bytes ((of_nat ?w :: u8) \<noteq> 0) (sf_parent_ino hdr)"
  from assms obtain rows where r: "\<not> 255 < ?w" "\<not> 255 < length es" "sf_rows ftype ((of_nat ?w :: u8) \<noteq> 0) es = Inr rows"
    "\<not> space < length (?out @ rows)" "fork = ?out @ rows"
    unfolding encode_short_form_def Let_def wide_for_def [symmetric] rbind_eq_Inr refuse_Inr 
    by (elim conjE exE) (rule that, assumption, assumption, assumption, assumption, rule sym, erule Inr_inject)
  from r(3) have "list_all (\<lambda>e. se_cookie e \<le> 65535) es" "rows = concat (map (sf_bytes ftype ((of_nat ?w :: u8) \<noteq> 0)) es)"
    by (simp_all only: sf_rows_eq split: if_splits) (simp_all only: sum.inject sum.simps)
  with r show "?w \<le> 255" "length es \<le> 255" "list_all (\<lambda>e. se_cookie e \<le> 65535) es"
    "fork = [of_nat (length es), of_nat ?w] @ sf_ino_bytes ((of_nat ?w :: u8) \<noteq> 0) (sf_parent_ino hdr)
       @ concat (map (sf_bytes ftype ((of_nat ?w :: u8) \<noteq> 0)) es)" "length fork \<le> space"
    by (simp_all only: append_assoc not_less)
qed

lemma narrow_numbers:
  assumes "wide_for limit parent es = 0"
  shows "parent \<le> limit" "list_all (\<lambda>e. se_ino e \<le> limit) es"
  using assms by (auto simp: wide_for_def filter_empty_conv list_all_iff not_less split: if_splits)

lemma short_form_read_back:
  assumes enc: "encode_short_form hdr (has_ftype sb) es space = Inr fork"
    and inode: "is_dir inode" "in_format inode = Local" "unat (in_size inode) = length fork"
    and parent: "check_entry_ino sb (sf_parent_ino hdr) = Inr ()"
    and ok: "list_all (\<lambda>e. se_name e \<noteq> [] \<and> length (se_name e) \<le> 255 \<and> check_entry_ino sb (se_ino e) = Inr () \<and> se_ftype e \<le> 8) es"
  shows "read_short_form inode (fork @ rest) sb =
    (if wide_for MAX_SHORT_INUM (sf_parent_ino hdr) es = wide_for WRITER_MAX_SHORT_INUM (sf_parent_ino hdr) es
     then Inr \<lparr>sf_parent_ino = sf_parent_ino hdr, sf_i8count = of_nat (wide_for MAX_SHORT_INUM (sf_parent_ino hdr) es),
               sf_entries = map (read_entry (has_ftype sb)) es\<rparr>
     else Inl (BadSuperblock ''short-form header claims other inode numbers wider than 32 bits than there are''))"
proof -
  note e = encode_short_form_Inr [OF enc]
  let ?w = "wide_for WRITER_MAX_SHORT_INUM (sf_parent_ino hdr) es" and ?r = "wide_for MAX_SHORT_INUM (sf_parent_ino hdr) es"
  let ?wide = "(of_nat ?w :: u8) \<noteq> 0" and ?p = "sf_parent_ino hdr"
  let ?pre = "[of_nat (length es), of_nat ?w] @ sf_ino_bytes ?wide ?p" and ?rows = "concat (map (sf_bytes (has_ftype sb) ?wide) es)"
  have u: "unat (of_nat ?w :: u8) = ?w" "unat (of_nat (length es) :: u8) = length es" using e(1,2) by (simp_all add: unat_of_nat)
  then have wide: "?wide \<longleftrightarrow> ?w \<noteq> 0" by (simp only: word_eq_unat unat_0)
  have fork: "fork = ?pre @ ?rows" using e(4) by simp
  have sf: "slice (fork @ rest) 0 (length fork) = Inr fork" by (simp add: slice_def)
  have good: "list_all (sf_ok sb ?wide) es" using ok e(3) narrow_numbers(2) [of WRITER_MAX_SHORT_INUM ?p es] wide
    by (auto simp: list_all_iff sf_ok_def)
  have "read_sf_ino fork 2 ?wide = Inr ?p"
    using read_sf_ino_mid [of "[of_nat (length es), of_nat ?w]" 2 ?p ?wide ?rows] check_entry_ino_max [OF parent] narrow_numbers(1) [of WRITER_MAX_SHORT_INUM ?p es] wide fork
    by auto
  moreover have "sf_loop fork sb False ?wide (length es) (2 + (if ?wide then 8 else 4)) = Inr (length fork, map (read_entry (has_ftype sb)) es, [])"
    using sf_loop_reads [OF good, of ?pre] fork by simp
  moreover have "byte_at fork 0 = Inr (of_nat (length es))" "byte_at fork 1 = Inr (of_nat ?w)" "\<not> length fork < 2 + (if ?wide then 8 else 4)" "\<not> length fork < 2"
    using fork by (auto simp: byte_at_def)
  moreover have "of_bool (MAX_SHORT_INUM < ?p) + length (filter (\<lambda>d. MAX_SHORT_INUM < de_ino d) (map (read_entry (has_ftype sb)) es)) = ?r"
    by (simp add: wide_for_def filter_map comp_def read_entry_def)
  ultimately show ?thesis using inode parent u sf
    by (simp add: read_short_form_def short_form_def Let_def del: length_map)
qed

section \<open>The edits read back\<close>

text \<open>What is known of the entries of a directory that was read.\<close>

definition as_read :: "Superblock \<Rightarrow> DirEntry \<Rightarrow> bool" where
  "as_read sb e \<longleftrightarrow> de_name e \<noteq> [] \<and> length (de_name e) \<le> 255 \<and> check_entry_ino sb (de_ino e) = Inr () \<and> (has_ftype sb \<or> de_ftype e = None) \<and>
     de_offset e \<le> 65535"

lemma sf_entry_as_read:
  assumes "sf_entry sf sb False wide cur = Inr (sz, e, ts)"
  shows "as_read sb e"
proof -
  from assms obtain n where "slice sf (cur + 3) (unat (n :: u8)) = Inr (de_name e)" and t: "has_ftype sb \<or> de_ftype e = None"
    and c: "unat (de_offset e) < 65536"
    unfolding sf_entry_def Let_def rbind_eq_Inr refuse_Inr
    by (elim conjE exE) (auto simp: dir_has_ftype_def rbind_eq_Inr refuse_Inr unat_lt16 split: prod.splits if_splits)
  then have "length (de_name e) \<le> 255" using slice_length [of sf "cur + 3" "unat n" "de_name e"] unat_lt8 [of n] by simp
  moreover from c have "de_offset e \<le> 65535" by (simp add: word_le_nat_alt)
  ultimately show ?thesis using t sf_entry_Inr [OF assms] by (simp add: as_read_def)
qed

lemma sf_loop_as_read: "sf_loop sf sb False wide n cur = Inr (fin, es, ts) \<Longrightarrow> list_all (as_read sb) es"
  by (induction n arbitrary: cur fin es ts) (auto simp: rbind_eq_Inr dest: sf_entry_as_read)

lemma strict_parent: "(case r of Inl e \<Rightarrow> if False then Inr (Some e) else Inl e | Inr _ \<Rightarrow> Inr None) = Inr x \<longleftrightarrow> r = Inr () \<and> x = None"
  by (cases r) auto

lemma read_short_form_as_read:
  assumes "read_short_form inode fork sb = Inr d"
  shows "list_all (as_read sb) (sf_entries d)" "check_entry_ino sb (sf_parent_ino d) = Inr ()"
proof -
  from assms obtain t where "short_form inode fork sb False = Inr (d, t)" by (auto simp: read_short_form_def rbind_eq_Inr)
  then obtain sf wide n c fin ts where "sf_loop sf sb False wide n c = Inr (fin, sf_entries d, ts)" and p: "check_entry_ino sb (sf_parent_ino d) = Inr ()"
    unfolding short_form_def Let_def
    by (auto simp: rbind_eq_Inr refuse_Inr strict_parent simp del: rbind_if split: prod.splits)
  then show "list_all (as_read sb) (sf_entries d)" "check_entry_ino sb (sf_parent_ino d) = Inr ()" by (auto dest: sf_loop_as_read)
qed

lemma ftype_raw_back: "ftype_from_raw (ftype_to_raw t) = Inr t" "ftype_to_raw t \<le> 8"
  by (auto simp: ftype_from_raw_def ftype_to_raw_def split: option.splits FileType.splits)

lemma read_entry_sf_of: "as_read sb e \<Longrightarrow> read_entry (has_ftype sb) (sf_of e) = e"
  by (cases e) (auto simp: read_entry_def sf_of_def as_read_def ftype_raw_back)

text \<open>Numbers the writer and the reader count alike.\<close>

definition alike :: "u64 \<Rightarrow> bool" where
  "alike n \<longleftrightarrow> n \<le> WRITER_MAX_SHORT_INUM \<or> MAX_SHORT_INUM < n"

lemma alike_wide: "alike n \<Longrightarrow> (MAX_SHORT_INUM < n) = (WRITER_MAX_SHORT_INUM < n)"
  by (auto simp: alike_def MAX_SHORT_INUM_def WRITER_MAX_SHORT_INUM_def word_less_nat_alt word_le_nat_alt)

lemma wide_for_alike:
  assumes "alike parent" and "list_all (\<lambda>e. alike (se_ino e)) es"
  shows "wide_for MAX_SHORT_INUM parent es = wide_for WRITER_MAX_SHORT_INUM parent es"
  using assms by (induction es) (auto simp: wide_for_def alike_wide)

text \<open>A list of entries encoded and read back.\<close>

lemma encoded_reread:
  assumes "encode_short_form hdr (has_ftype sb) es space = Inr fork" and "space < 2 ^ 64" and "is_dir inode" and "in_format inode = Local"
    and "check_entry_ino sb (sf_parent_ino hdr) = Inr ()" and "alike (sf_parent_ino hdr)"
    and "list_all (\<lambda>e. se_name e \<noteq> [] \<and> length (se_name e) \<le> 255 \<and> check_entry_ino sb (se_ino e) = Inr () \<and> se_ftype e \<le> 8 \<and> alike (se_ino e)) es"
  shows "rbind (read_short_form (inode\<lparr>in_size := of_nat (length fork)\<rparr>) fork sb) (\<lambda>d. Inr (sf_parent_ino d, sf_entries d)) =
    Inr (sf_parent_ino hdr, map (read_entry (has_ftype sb)) es)"
proof -
  let ?i = "inode\<lparr>in_size := of_nat (length fork)\<rparr>"
  have i: "is_dir ?i" "in_format ?i = Local" using assms(3,4) by (simp_all add: is_dir_def file_type_def)
  have "length fork < 2 ^ 64" using encode_short_form_Inr(5) [OF assms(1)] assms(2) by simp
  then have l: "unat (in_size ?i) = length fork" by (simp add: unat_of_nat)
  have ok: "list_all (\<lambda>e. se_name e \<noteq> [] \<and> length (se_name e) \<le> 255 \<and> check_entry_ino sb (se_ino e) = Inr () \<and> se_ftype e \<le> 8) es"
    and al: "list_all (\<lambda>e. alike (se_ino e)) es" using assms(7) by (auto simp: list_all_iff)
  show ?thesis using short_form_read_back [OF assms(1) i l assms(5) ok, of "[]"] wide_for_alike [OF assms(6) al] by simp
qed

lemma narrow_and_wide:
  fixes lo hi :: "'a::linorder"
  assumes "lo \<le> hi"
  shows "length (filter (\<lambda>n. hi < n) ns) \<le> length (filter (\<lambda>n. lo < n) ns)"
    "length (filter (\<lambda>n. hi < n) ns) = length (filter (\<lambda>n. lo < n) ns) \<longleftrightarrow> list_all (\<lambda>n. n \<le> lo \<or> hi < n) ns"
proof -
  show l: "length (filter (\<lambda>n. hi < n) ns) \<le> length (filter (\<lambda>n. lo < n) ns)" for ns
    using assms by (induction ns) auto
  show "length (filter (\<lambda>n. hi < n) ns) = length (filter (\<lambda>n. lo < n) ns) \<longleftrightarrow> list_all (\<lambda>n. n \<le> lo \<or> hi < n) ns"
  proof (induction ns)
    case (Cons n ns)
    then show ?case using assms l [of ns] by (cases "hi < n"; cases "lo < n") auto
  qed simp
qed

text \<open>C32. What the driver writes into an inode as a directory is what it reads back, with one exception: the reader
  counts as wide the inode numbers that do not fit in 32 bits, the writer those that do not fit in 31.  A directory with a number
  between the two is written with a count the reader does not accept, and cannot be read any more.\<close>

theorem short_form_reread:
  assumes "encode_short_form hdr (has_ftype sb) es space = Inr fork" and "is_dir inode" and "in_format inode = Local" and "unat (in_size inode) = length fork"
    and "check_entry_ino sb (sf_parent_ino hdr) = Inr ()"
    and "list_all (\<lambda>e. se_name e \<noteq> [] \<and> length (se_name e) \<le> 255 \<and> check_entry_ino sb (se_ino e) = Inr () \<and> se_ftype e \<le> 8) es"
  shows "read_short_form inode (fork @ rest) sb =
    (if list_all (\<lambda>n. n \<le> 0x7fffffff \<or> 0xffffffff < n) (sf_parent_ino hdr # map se_ino es)
     then Inr \<lparr>sf_parent_ino = sf_parent_ino hdr, sf_i8count = of_nat (length (filter (\<lambda>n. 0xffffffff < n) (sf_parent_ino hdr # map se_ino es))),
               sf_entries = map (read_entry (has_ftype sb)) es\<rparr>
     else Inl (BadSuperblock ''short-form header claims other inode numbers wider than 32 bits than there are''))"
proof -
  have w: "wide_for limit p es = length (filter (\<lambda>n. limit < n) (p # map se_ino es))" for limit p
    by (simp add: wide_for_def filter_map comp_def)
  have "(0x7fffffff :: u64) \<le> 0xffffffff" by simp
  note narrow_and_wide(2) [OF this, of "sf_parent_ino hdr # map se_ino es"]
  then show ?thesis using short_form_read_back [OF assms, of rest]
    unfolding w MAX_SHORT_INUM_def WRITER_MAX_SHORT_INUM_def by (simp only:)
qed

definition sample_big_sb :: Superblock where
  "sample_big_sb = sample_dir_sb\<lparr>sb_agcount := 2000000\<rparr>"

definition sample_dir_inode :: Inode where
  "sample_dir_inode =
     (let t = \<lparr>ts_sec = 0, ts_nsec = 0\<rparr>
      in \<lparr>in_ino = 131, in_mode = 0x41ed, in_version = 3, in_format = Local, in_aformat = Extents, in_uid = 0, in_gid = 0, in_nlink = 2,
          in_size = 23, in_nblocks = 0, in_nextents = 0, in_anextents = 0, in_forkoff = 0, in_flags = 0, in_flags2 = 0, in_gen = 0,
          in_next_unlinked = 0, in_atime = t, in_mtime = t, in_ctime = t, in_crtime = t\<rparr>)"

lemma short_form_reread_witness:
  "\<exists>fork. encode_short_form \<lparr>sf_parent_ino = 128, sf_i8count = 0, sf_entries = []\<rparr> True
       [\<lparr>se_name = [0x61], se_ino = 0x80000000, se_ftype = 1, se_cookie = 96\<rparr>] 80 = Inr fork \<and>
     read_short_form sample_dir_inode fork sample_big_sb =
       Inl (BadSuperblock ''short-form header claims other inode numbers wider than 32 bits than there are'')"
proof -
  let ?hdr = "\<lparr>sf_parent_ino = 128, sf_i8count = 0, sf_entries = []\<rparr>"
    and ?es = "[\<lparr>se_name = [0x61], se_ino = 0x80000000, se_ftype = 1, se_cookie = 96\<rparr>]"
  have "case encode_short_form ?hdr True ?es 80 of Inl e \<Rightarrow> False | Inr fork \<Rightarrow> length fork = 23" by code_simp
  then obtain fork where f: "encode_short_form ?hdr True ?es 80 = Inr fork" "length fork = 23" by (auto split: sum.splits)
  have ft: "has_ftype sample_big_sb = True" by code_simp
  have "is_dir sample_dir_inode" "in_format sample_dir_inode = Local" "unat (in_size sample_dir_inode) = 23"
    "check_entry_ino sample_big_sb (sf_parent_ino ?hdr) = Inr ()"
    "list_all (\<lambda>e. se_name e \<noteq> [] \<and> length (se_name e) \<le> 255 \<and> check_entry_ino sample_big_sb (se_ino e) = Inr () \<and> se_ftype e \<le> 8) ?es"
    by code_simp+
  note short_form_reread [where sb = sample_big_sb, unfolded ft, OF f(1) this(1,2) this(3) [folded f(2)] this(4,5), where rest = "[]"]
  then show ?thesis using f(1) by (simp add: word_less_nat_alt word_le_nat_alt)
qed

text \<open>The offset a new entry is given is past every offset in use.\<close>

lemma cookie_span_bounds:
  assumes "n \<le> 255"
  shows "0 < unat (cookie_span n ft)" "unat (cookie_span n ft) < 300"
proof -
  let ?r = "8 + 1 + n + of_bool ft + 2 :: nat"
  have u: "unat (of_nat m :: u32) = m" if "m < 4294967296" for m using that by (simp add: unat_of_nat)
  have "?r \<le> div_ceil ?r 8 * 8" "(div_ceil ?r 8 - 1) * 8 < ?r" using ceil_mult [of 8 ?r] by simp_all
  then have b: "0 < div_ceil ?r 8 * 8" "div_ceil ?r 8 * 8 < 300" using assms by (auto simp: diff_mult_distrib split: if_splits)
  then have "unat (cookie_span n ft) = div_ceil ?r 8 * 8"
    unfolding cookie_span_def Let_def XFS_DIR2_DATA_ALIGN_def by (intro u) linarith
  with b show "0 < unat (cookie_span n ft)" "unat (cookie_span n ft) < 300" by simp_all
qed

lemma foldl_max_ge: "x \<in> set (c # cs) \<Longrightarrow> x \<le> foldl max c cs" for x :: "'a::linorder"
proof (induction cs arbitrary: c x)
  case (Cons d cs)
  have "max c d \<le> foldl max (max c d) cs" by (rule Cons.IH) simp
  then show ?case using Cons by (auto intro: order_trans)
qed simp

lemma next_cookie_fresh:
  assumes "list_all (as_read sb) (sf_entries parsed)"
  shows "list_all (\<lambda>e. de_offset e < next_cookie parsed ft) (sf_entries parsed)"
  unfolding list_all_iff
proof
  fix e
  assume e: "e \<in> set (sf_entries parsed)"
  let ?c = "\<lambda>e. de_offset e + cookie_span (length (de_name e)) ft"
  have "as_read sb e" using e assms by (simp add: list_all_iff)
  then have "unat (de_offset e) \<le> 65535" "length (de_name e) \<le> 255" by (simp_all add: as_read_def word_le_nat_alt)
  then have "de_offset e < ?c e"
    using cookie_span_bounds [of "length (de_name e)" ft] by (simp add: word_less_nat_alt unat_word_ariths)
  also have "?c e \<in> set (map ?c (sf_entries parsed))" using e by simp
  then have "?c e \<le> next_cookie parsed ft"
    by (cases "map ?c (sf_entries parsed)") (simp_all only: next_cookie_def list.case foldl_max_ge, simp)
  finally show "de_offset e < next_cookie parsed ft" .
qed

lemma encode_errors: "encode_short_form hdr ft es space = Inl e \<Longrightarrow> e \<noteq> Panic \<and> e \<noteq> NotFound"
  by (auto simp: encode_short_form_def Let_def sf_rows_eq split: if_splits)

text \<open>The entries of a directory that was read can be encoded again, and a new one with them.\<close>

definition sf_valid :: "Superblock \<Rightarrow> SfEntry \<Rightarrow> bool" where
  "sf_valid sb e \<longleftrightarrow> se_name e \<noteq> [] \<and> length (se_name e) \<le> 255 \<and> check_entry_ino sb (se_ino e) = Inr () \<and> se_ftype e \<le> 8 \<and> alike (se_ino e)"

lemma sf_valid_of: "as_read sb e \<Longrightarrow> alike (de_ino e) \<Longrightarrow> sf_valid sb (sf_of e)"
  by (simp add: sf_valid_def sf_of_def as_read_def ftype_raw_back)

lemma map_read_entry: "list_all (as_read sb) es \<Longrightarrow> map (read_entry (has_ftype sb)) (map sf_of es) = es"
  by (induction es) (simp_all add: read_entry_sf_of)

abbreviation reread :: "Inode \<Rightarrow> Superblock \<Rightarrow> bytes \<Rightarrow> (u64 \<times> DirEntry list) res" where
  "reread inode sb fork \<equiv> rbind (read_short_form (inode\<lparr>in_size := of_nat (length fork)\<rparr>) fork sb) (\<lambda>d. Inr (sf_parent_ino d, sf_entries d))"

lemma edited_reread:
  assumes "read_short_form inode0 fork0 sb = Inr parsed" and "is_dir inode" and "in_format inode = Local" and "limit < 2 ^ 64"
    and "alike (sf_parent_ino parsed)" and "list_all (\<lambda>e. alike (de_ino e)) (sf_entries parsed)"
    and "list_all (sf_valid sb) new" and "encode_short_form parsed (has_ftype sb) (map sf_of (filter P (sf_entries parsed)) @ new) limit = Inr fork"
  shows "reread inode sb fork = Inr (sf_parent_ino parsed, filter P (sf_entries parsed) @ map (read_entry (has_ftype sb)) new)"
proof -
  note rd = read_short_form_as_read [OF assms(1)]
  have kept: "list_all (as_read sb) (filter P (sf_entries parsed))" using rd(1) by (auto simp: list_all_iff)
  have "list_all (sf_valid sb) (map sf_of (filter P (sf_entries parsed)) @ new)"
    using rd(1) assms(6,7) by (auto simp: list_all_iff sf_valid_of)
  then have "list_all (\<lambda>e. se_name e \<noteq> [] \<and> length (se_name e) \<le> 255 \<and> check_entry_ino sb (se_ino e) = Inr () \<and> se_ftype e \<le> 8 \<and> alike (se_ino e))
      (map sf_of (filter P (sf_entries parsed)) @ new)" by (simp only: sf_valid_def [abs_def])
  from encoded_reread [OF assms(8,4,2,3) rd(2) assms(5) this] show ?thesis using map_read_entry [OF kept] by (simp only: map_append)
qed

text \<open>C31. The edits of a directory in its inode do what they say: a name that is added, one that is taken out and one that is renamed
  give a fork that fits where it was asked to and that the reader takes for the old entries in their order, with the one entry
  added, left out, or moved to the end under its new name; the offset of an entry that is added or moved is past every offset in use,
  and the parent is kept.  Nothing is edited when the name is not there.  The inode numbers are those the writer and the reader count
  alike.\<close>

theorem short_form_edits_reread:
  assumes "read_short_form inode0 fork0 sb = Inr parsed" and "is_dir inode" and "in_format inode = Local" and "space < 2 ^ 64"
    and "entry_name_is_valid new" and "check_entry_ino sb ino = Inr ()" and "ftype_from_raw ft = Inr t" and "has_ftype sb"
    and "list_all (\<lambda>n. n \<le> 0x7fffffff \<or> 0xffffffff < n) (ino # sf_parent_ino parsed # map de_ino (sf_entries parsed))"
  shows "list_all (\<lambda>e. de_offset e < next_cookie parsed True) (sf_entries parsed) \<and>
    (case short_form_with_entry sb parsed new ino ft space of
       Inl e \<Rightarrow> e \<noteq> Panic
     | Inr None \<Rightarrow> True
     | Inr (Some fork) \<Rightarrow> length fork \<le> space \<and>
         reread inode sb fork = Inr (sf_parent_ino parsed, sf_entries parsed @ [\<lparr>de_name = new, de_ino = ino, de_ftype = t, de_offset = next_cookie parsed True\<rparr>])) \<and>
    (case short_form_without_entry sb parsed old space of
       Inl e \<Rightarrow> e \<noteq> Panic \<and> (e = NotFound \<longleftrightarrow> find (\<lambda>e. de_name e = old) (sf_entries parsed) = None)
     | Inr fork \<Rightarrow> length fork \<le> space \<and> reread inode sb fork = Inr (sf_parent_ino parsed, filter (\<lambda>e. de_name e \<noteq> old) (sf_entries parsed))) \<and>
    (case find (\<lambda>e. de_name e = old) (sf_entries parsed) of
       None \<Rightarrow> True
     | Some moved \<Rightarrow>
         (case short_form_after_rename sb parsed old new space of
            Inl e \<Rightarrow> e \<noteq> Panic
          | Inr fork \<Rightarrow> length fork \<le> space \<and>
              reread inode sb fork = Inr (sf_parent_ino parsed,
                filter (\<lambda>e. de_name e \<noteq> old) (sf_entries parsed) @ [moved\<lparr>de_name := new, de_offset := next_cookie parsed True\<rparr>])))"
proof (intro conjI)
  note rd = read_short_form_as_read [OF assms(1)]
  have al: "alike (sf_parent_ino parsed)" "list_all (\<lambda>e. alike (de_ino e)) (sf_entries parsed)" "alike ino"
    using assms(9) by (auto simp: alike_def WRITER_MAX_SHORT_INUM_def MAX_SHORT_INUM_def list_all_iff)
  note edit = edited_reread [OF assms(1-3) _ al(1,2)]
  have nm: "new \<noteq> []" "length new \<le> 255" using assms(5) by (auto simp: entry_name_is_valid_def)
  have ft8: "ft \<le> 8" using assms(7) by (auto simp: ftype_from_raw_def split: if_splits)
  have v: "list_all (sf_valid sb) [\<lparr>se_name = new, se_ino = ino, se_ftype = ft, se_cookie = c\<rparr>]" for c
    using nm assms(6) ft8 al(3) by (simp add: sf_valid_def)
  show "list_all (\<lambda>e. de_offset e < next_cookie parsed True) (sf_entries parsed)" by (rule next_cookie_fresh [OF rd(1)])
  have r: "read_entry True \<lparr>se_name = new, se_ino = ino, se_ftype = ft, se_cookie = c\<rparr> = \<lparr>de_name = new, de_ino = ino, de_ftype = t, de_offset = c\<rparr>" for c
    using assms(7) by (simp add: read_entry_def)
  show "case short_form_with_entry sb parsed new ino ft space of
       Inl e \<Rightarrow> e \<noteq> Panic
     | Inr None \<Rightarrow> True
     | Inr (Some fork) \<Rightarrow> length fork \<le> space \<and>
         reread inode sb fork = Inr (sf_parent_ino parsed, sf_entries parsed @ [\<lparr>de_name = new, de_ino = ino, de_ftype = t, de_offset = next_cookie parsed True\<rparr>])"
    using edit [OF _ v [of "next_cookie parsed True"], of "2 ^ 64 - 1" "\<lambda>_. True"] assms(8) encode_errors r
    by (auto simp: short_form_with_entry_def Let_def rbind_eq_Inl rbind_eq_Inr split: sum.split option.split if_splits)
  have gone: "find (\<lambda>e. de_name e = old) (sf_entries parsed) = None \<longleftrightarrow> \<not> list_ex (\<lambda>e. de_name e = old) (sf_entries parsed)"
    by (auto simp: find_None_iff list_ex_iff)
  show "case short_form_without_entry sb parsed old space of
       Inl e \<Rightarrow> e \<noteq> Panic \<and> (e = NotFound \<longleftrightarrow> find (\<lambda>e. de_name e = old) (sf_entries parsed) = None)
     | Inr fork \<Rightarrow> length fork \<le> space \<and> reread inode sb fork = Inr (sf_parent_ino parsed, filter (\<lambda>e. de_name e \<noteq> old) (sf_entries parsed))"
    using edit [OF assms(4), of "[]" "\<lambda>e. de_name e \<noteq> old"] encode_errors encode_short_form_Inr(5) unfolding gone
    by (auto simp: short_form_without_entry_def Let_def split: sum.split if_splits)
  show "case find (\<lambda>e. de_name e = old) (sf_entries parsed) of
       None \<Rightarrow> True
     | Some moved \<Rightarrow>
         (case short_form_after_rename sb parsed old new space of
            Inl e \<Rightarrow> e \<noteq> Panic
          | Inr fork \<Rightarrow> length fork \<le> space \<and>
              reread inode sb fork = Inr (sf_parent_ino parsed,
                filter (\<lambda>e. de_name e \<noteq> old) (sf_entries parsed) @ [moved\<lparr>de_name := new, de_offset := next_cookie parsed True\<rparr>]))"
  proof (cases "find (\<lambda>e. de_name e = old) (sf_entries parsed)")
    case (Some m)
    then have "m \<in> set (sf_entries parsed)" by (metis find_Some_iff nth_mem)
    then have m: "as_read sb m" "alike (de_ino m)" using rd(1) al(2) by (auto simp: list_all_iff)
    let ?e = "\<lparr>se_name = new, se_ino = de_ino m, se_ftype = ftype_to_raw (de_ftype m), se_cookie = next_cookie parsed True\<rparr>"
    have "list_all (sf_valid sb) [?e]" using m nm by (simp add: sf_valid_def as_read_def ftype_raw_back)
    moreover have "read_entry True ?e = m\<lparr>de_name := new, de_offset := next_cookie parsed True\<rparr>" by (cases m) (simp add: read_entry_def ftype_raw_back)
    ultimately show ?thesis using Some assms(8) edit [OF assms(4), of "[?e]" "\<lambda>e. de_name e \<noteq> old"] encode_errors encode_short_form_Inr(5)
      by (auto simp: short_form_after_rename_def Let_def split: sum.split)
  qed simp
qed

definition sample_fork :: bytes where
  "sample_fork = [1, 0] @ be_bytes32 128 @ [1, 0, 96, 0x61, 1] @ be_bytes32 133"

lemma short_form_edits_reread_witness:
  "\<exists>parsed moved fork. read_short_form (sample_dir_inode\<lparr>in_size := 15\<rparr>) sample_fork sample_dir_sb = Inr parsed \<and>
     sf_entries parsed = [moved] \<and> short_form_after_rename sample_dir_sb parsed [0x61] [0x62] 80 = Inr fork \<and>
     reread sample_dir_inode sample_dir_sb fork = Inr (sf_parent_ino parsed, [moved\<lparr>de_name := [0x62], de_offset := next_cookie parsed True\<rparr>])"
proof -
  have "case read_short_form (sample_dir_inode\<lparr>in_size := 15\<rparr>) sample_fork sample_dir_sb of Inl e \<Rightarrow> False
    | Inr d \<Rightarrow> list_all (\<lambda>n. n \<le> 0x7fffffff \<or> 0xffffffff < n) (134 # sf_parent_ino d # map de_ino (sf_entries d)) \<and>
        length (sf_entries d) = 1 \<and> list_all (\<lambda>e. de_name e = [0x61]) (sf_entries d) \<and>
        (case short_form_after_rename sample_dir_sb d [0x61] [0x62] 80 of Inr fork \<Rightarrow> True | _ \<Rightarrow> False)" by code_simp
  then obtain d m fork where d: "read_short_form (sample_dir_inode\<lparr>in_size := 15\<rparr>) sample_fork sample_dir_sb = Inr d"
    "list_all (\<lambda>n. n \<le> 0x7fffffff \<or> 0xffffffff < n) (134 # sf_parent_ino d # map de_ino (sf_entries d))"
    "sf_entries d = [m]" "de_name m = [0x61]" "short_form_after_rename sample_dir_sb d [0x61] [0x62] 80 = Inr fork"
    by (auto simp: length_Suc_conv split: sum.splits)
  have "(80 :: nat) < 2 ^ 64" by simp
  moreover have "is_dir sample_dir_inode" "in_format sample_dir_inode = Local" "entry_name_is_valid [0x62]"
    "check_entry_ino sample_dir_sb 134 = Inr ()" "ftype_from_raw 1 = Inr (Some Regular)" "has_ftype sample_dir_sb"
    by code_simp+
  ultimately show ?thesis
    using short_form_edits_reread [OF d(1) _ _ _ _ _ _ _ d(2), of sample_dir_inode 80 "[0x62]" 1 "Some Regular" "[0x61]"] d
    by auto
qed

end
