(* ===== verification/Spec2Isabelle.thy ===== *)
theory Spec2Isabelle
  imports Extent FreeSpace Refcount Geometry Recovery InodeItem InodeRelay DirShort
begin

text \<open>
  A verification of the XFS driver in \<^verbatim>\<open>src/src\<close>.

  \<^bold>\<open>The program.\<close>  The driver reads and writes XFS volumes (v4 and v5) with no help from a kernel.  A volume is a run of
  allocation groups; the superblock gives their geometry.  Each group keeps its free space in two B+trees, a reverse map
  of block owners and a tree of reference counts on volumes that have them, a ring of spare blocks those trees grow
  from, and trees of inodes.  A change to the volume is never written in place: an operation collects the blocks and the
  inode cores it changed as log items, \<^verbatim>\<open>commit_record\<close> writes them to the journal as one transaction and lays them into the
  mount's overlay, and \<^verbatim>\<open>sync\<close> pushes the overlay to the device.  After a crash, recovery walks the journal from its tail to
  its head and applies the items it finds to an overlay of its own.

  The development follows that path, bottom up: the formats, the space of a group, the trees it is kept in, the journal.

  \<^bold>\<open>Shared.\<close>
  \<^item> \<^verbatim>\<open>XfsPrelude\<close>: machine integers, the error type (\<^verbatim>\<open>error.rs\<close>), results, the routines of the standard library the code
    leans on, and the collections of rewrite rules the proofs use.
  \<^item> \<^verbatim>\<open>Endian\<close> (\<^verbatim>\<open>endian.rs\<close>): field reads and slice copies; the locale \<open>record_codec\<close> of a record of fixed width.

  \<^bold>\<open>The volume.\<close>
  \<^item> \<^verbatim>\<open>Superblock\<close> (\<^verbatim>\<open>superblock.rs\<close>): \<open>superblock_parse\<close> with every refusal, \<open>validate\<close>, the feature tests.  A superblock that is
    accepted has a sound geometry; parsing never panics; \<open>validate\<close> accepts exactly what it documents.
  \<^item> \<^verbatim>\<open>Geometry\<close> (\<^verbatim>\<open>superblock.rs\<close>): an extent that \<open>extent_in_bounds\<close> admits lies on the device, past the headers where a sector is
    no larger than a block, and different blocks lie in different places.
  \<^item> \<^verbatim>\<open>Extent\<close> (\<^verbatim>\<open>extent.rs\<close>): the packed extent record read back as written, and the search of a sorted list.

  \<^bold>\<open>The space of a group.\<close>
  \<^item> \<^verbatim>\<open>FreeSpace\<close> (\<^verbatim>\<open>alloc_btree.rs\<close>): \<open>free_extent\<close> and \<open>alloc_extent\<close> on the records of the free-space trees, as operations on a set of
    blocks.  The locale \<open>block_ledger\<close> says what a keeper of free blocks promises; any sequence of takes and returns
    keeps every block in one place.
  \<^item> \<^verbatim>\<open>Refcount\<close> (\<^verbatim>\<open>refcount.rs\<close>): \<open>release\<close> drops one owner from exactly the shared blocks of an extent and frees exactly the others.
  \<^item> \<^verbatim>\<open>Rmap\<close> (\<^verbatim>\<open>rmap.rs\<close>): the three edits of the reverse map, as operations on the multiset of single-block mappings (the locale
    \<open>multiset_keeper\<close>); the records stay in order, disjoint and joined.
  \<^item> \<^verbatim>\<open>AgHeaders\<close> (\<^verbatim>\<open>ag.rs\<close>): the two headers of a group; one that is accepted is the header of that group of that volume.
  \<^item> \<^verbatim>\<open>Agfl\<close> (\<^verbatim>\<open>agfl.rs\<close>): the ring of spare blocks is a bounded queue (the locale \<open>bounded_queue\<close>).
  \<^item> \<^verbatim>\<open>GroupAlloc\<close> (\<^verbatim>\<open>group_write.rs\<close>): the allocator of one operation, which edits all of the above together.  No take and no give
    loses or doubles a block; a block that recovery could still write to is not handed out as data; the refill ends.

  \<^bold>\<open>The trees they are kept in.\<close>
  \<^item> \<^verbatim>\<open>AgBtree\<close> (\<^verbatim>\<open>ag_btree.rs\<close>): one block read and stamped, the walk, the plan, the layout and the layout again over the blocks a
    tree holds.  A tree is a parameter of that code and the locale \<open>tree_codec\<close> here, which extends \<open>record_codec\<close>.
  \<^item> \<^verbatim>\<open>GroupTrees\<close> (\<^verbatim>\<open>GroupAlloc::open\<close>, \<^verbatim>\<open>into_items\<close> and \<^verbatim>\<open>Allocations\<close> of \<^verbatim>\<open>group_write.rs\<close>, the shapes in \<^verbatim>\<open>alloc_btree.rs\<close>, \<^verbatim>\<open>rmap.rs\<close>
    and \<^verbatim>\<open>refcount.rs\<close>): the four trees as instances of \<open>tree_codec\<close>.  Each, built over enough blocks, is walked back to its records
    and its blocks; a walk of any bytes whatever ends without a panic, after no more blocks than the group can have.
  \<^item> \<^verbatim>\<open>TreeRelay\<close>: the trait \<^verbatim>\<open>BlockSource\<close> as the locale \<open>block_source\<close>, which every \<open>bounded_queue\<close> is.  A tree laid out again takes
    and gives back exactly what it must, and the device its buffers land on holds the new tree; a group that opens has
    free space that is what the allocator takes it for.
  \<^item> \<^verbatim>\<open>InodeTree\<close> (\<^verbatim>\<open>inode_btree.rs\<close>): the record of a chunk of inodes in its two layouts, the walk that reads the two trees of a group,
    and both trees opened for an edit.  The counts and masks of a chunk agree, and trees that open tell the same chunks.
  \<^item> \<^verbatim>\<open>InodeRelay\<close>: the inode trees take their blocks from the space of the group (another \<open>block_source\<close>); closed after an edit, they
    are on the device as edited, with no block lost.

  \<^bold>\<open>Inodes and directories.\<close>
  \<^item> \<^verbatim>\<open>Inode\<close> (\<^verbatim>\<open>inode.rs\<close>): the inode on disk.  One that is accepted is the one asked for and its forks lie inside it; a time is
    written back as it was read, up to where the writer's arithmetic ends.
  \<^item> \<^verbatim>\<open>DirRead\<close> (\<^verbatim>\<open>dir.rs\<close>): the readers of every form of a directory.  None panics on any bytes, and what they accept is in order.
  \<^item> \<^verbatim>\<open>DirBuild\<close> (\<^verbatim>\<open>dir_block.rs\<close>): the hash of a name and the block a directory becomes when it outgrows its inode.  With its checksum put in
    by recovery, the block passes the verification of the reader and reads back as its entries, with a complete sorted index (the index
    records are another \<open>record_codec\<close>).
  \<^item> \<^verbatim>\<open>DirShort\<close> (\<^verbatim>\<open>dir_write.rs\<close>): the directory kept inside its inode as it is written.  The edits give what the reader takes for the
    edited entries, for inode numbers that the writer and the reader count alike; the others make a directory that cannot be
    read, which is shown too.

  \<^bold>\<open>The journal.\<close>
  \<^item> \<^verbatim>\<open>BufItem\<close> (\<^verbatim>\<open>buf_write.rs\<close>, \<^verbatim>\<open>changed_chunks\<close>), \<^verbatim>\<open>LogDinode\<close>, \<^verbatim>\<open>InodeItem\<close> (\<^verbatim>\<open>log_write.rs\<close>, \<^verbatim>\<open>fs.rs\<close>): the items of a transaction.
  \<^item> \<^verbatim>\<open>LogRecord\<close>, \<^verbatim>\<open>JournalRecord\<close> (\<^verbatim>\<open>log_write.rs\<close>, \<^verbatim>\<open>log.rs\<close>, \<^verbatim>\<open>log_recover.rs\<close>): items split into records, records encoded, checksummed
    and cycle-stamped, and all of it read back.
  \<^item> \<^verbatim>\<open>LogHead\<close> (\<^verbatim>\<open>log.rs\<close>): the newest record, found by bisection and by a scan of the ring, and the head after it.
  \<^item> \<^verbatim>\<open>Overlay\<close> (\<^verbatim>\<open>overlay.rs\<close>): reads through the overlay see what was logged (the locale \<open>byte_store\<close>).
  \<^item> \<^verbatim>\<open>Commit\<close> (\<^verbatim>\<open>log_write.rs\<close>, \<^verbatim>\<open>fs.rs\<close>): a checkpoint placed in the ring and written, as operations on the state of a mount that may
    fail, with triples over them; filling the end of the ring panics where the gap is wide.
  \<^item> \<^verbatim>\<open>MountHistory\<close> (\<^verbatim>\<open>fs.rs\<close>): what the operations of a mount leave behind over any history.  The tail is the oldest record recovery
    still needs and stays behind the head, except that a commit that finds the overlay full forgets it; older records are
    kept until everything is pushed home; a write that fails stops the mount.
  \<^item> \<^verbatim>\<open>LogReplay\<close>, \<^verbatim>\<open>BufReplay\<close> (\<^verbatim>\<open>log_recover.rs\<close>): the walk and the replay of every kind of item.  A logged buffer and a logged core
    replay to what the mount itself saw.
  \<^item> \<^verbatim>\<open>Recovery\<close>: the checkpoints outstanding after any history of commits and pushes are the ones recovery finds, in order.

  \<^bold>\<open>How the code is modelled.\<close>  Words keep their width and wrap around, as a release build does; \<^verbatim>\<open>usize\<close> values that index a buffer in
  memory are \<open>nat\<close>.  A byte buffer is a list of bytes and a \<^verbatim>\<open>&mut\<close> argument is returned.  A fallible function returns \<open>error + 'a\<close>;
  a Rust panic (a slice out of range, a failed assertion) is the error \<open>Panic\<close>, so that \<open>never panics\<close> is a statement.  The
  machine is little-endian.  The device (\<^verbatim>\<open>fs_core\<close>) and CRC32C (\<^verbatim>\<open>crc32c\<close>) are not in the repository and are parameters; what is
  asked of them is named where it is asked: \<open>serves\<close> for a device that reads an image, \<open>frames\<close> for one that changes only the bytes a write names,
  \<open>stores\<close> for one that keeps what a write gives it.

  \<^bold>\<open>Loops.\<close>  Loops over data are structural.  The others are functions with a measure: the search of the log by the width of
  its interval, the plan of a tree by the number of entries of a level, the refill by the room left in the ring, the walk of
  a tree by its budget of blocks, which is the number of blocks in the group.  No definition uses fuel that the code
  does not have itself.

  \<^bold>\<open>Not modelled.\<close>  The walk of an extent map, directories of several blocks as they are built and edited, attributes and quota accounting, the
  operations that build transactions out of them (create, unlink, rename, truncate, write), the checker and the repairs, and
  the making of a volume: each is a client of the parts above.  The command line and the C interface are argument
  handling.  In \<^verbatim>\<open>group_write.rs\<close>, \<^verbatim>\<open>rmap.rs\<close> and \<^verbatim>\<open>refcount.rs\<close> the helpers for trees of a single leaf, which the general layout has
  replaced, are left out; in \<^verbatim>\<open>error.rs\<close> the display of an error.
\<close>

end
